(* ===== verification/Prelude.thy ===== *)
theory Prelude
  imports Main "HOL-Library.Word" "HOL-Library.List_Lexorder" "HOL-Library.AList"
    "HOL-Library.Sublist"
begin

text \<open>
  What every component of the development shares.

  A JavaScript string is the list of its UTF-16 code units (\<open>jsstr\<close>); \<open>lit\<close> turns an
  ASCII literal of the source into one. The string operations of the language that the program
  uses (\<open>slice\<close>, \<open>startsWith\<close>, \<open>endsWith\<close>, \<open>indexOf\<close>) are written out here, out-of-range
  arguments included. A JavaScript \<open>Map\<close> is an association list in insertion order, written
  with \<open>AList.update\<close> (which overwrites in place or appends, as \<open>Map.set\<close> does) and
  \<open>AList.delete\<close>. A throw is \<open>Inl\<close> of its message's kind, a value \<open>Inr\<close>.

  The lemma collections: \<open>order_facts\<close> for key order, \<open>walk_facts\<close> for cursors and walks.
\<close>

named_theorems order_facts
named_theorems walk_facts

section \<open>Strings as UTF-16 code units\<close>

type_synonym unit16 = "16 word"
type_synonym jsstr = "16 word list"
type_synonym bytes = "8 word list"

definition lit :: "string \<Rightarrow> jsstr" where
  "lit s = map of_char s"

lemma lit_Nil [simp]: "lit [] = []"
  by (simp add: lit_def)

lemma lit_Cons [simp]: "lit (c # s) = of_char c # lit s"
  by (simp add: lit_def)

text \<open>\<open>s.slice(i)\<close> and \<open>s.slice(i, j)\<close> for indices that are not negative.\<close>

definition slice_from :: "'a list \<Rightarrow> nat \<Rightarrow> 'a list" where
  "slice_from s i = drop i s"

definition slice_to :: "'a list \<Rightarrow> nat \<Rightarrow> nat \<Rightarrow> 'a list" where
  "slice_to s i j = drop i (take j s)"

text \<open>\<open>s.startsWith(t, pos)\<close>\<close>

definition starts_at :: "'a list \<Rightarrow> 'a list \<Rightarrow> nat \<Rightarrow> bool" where
  "starts_at s t pos = (take (length t) (drop pos s) = t)"

definition starts_with :: "'a list \<Rightarrow> 'a list \<Rightarrow> bool" where
  "starts_with s t = (take (length t) s = t)"

definition ends_with :: "'a list \<Rightarrow> 'a list \<Rightarrow> bool" where
  "ends_with s t = (length t \<le> length s \<and> drop (length s - length t) s = t)"

text \<open>\<open>s.indexOf(c, pos)\<close> of one code unit; \<open>None\<close> is the -1 of the language.\<close>

fun index_unit :: "'a \<Rightarrow> 'a list \<Rightarrow> nat option" where
  "index_unit c [] = None"
| "index_unit c (x # xs) = (if x = c then Some 0 else map_option Suc (index_unit c xs))"

definition index_of :: "'a list \<Rightarrow> 'a \<Rightarrow> nat \<Rightarrow> nat option" where
  "index_of s c pos = map_option (\<lambda>i. pos + i) (index_unit c (drop pos s))"

lemma starts_with_prefix [simp]: "starts_with s t \<longleftrightarrow> prefix t s"
  unfolding starts_with_def by (metis append_eq_conv_conj prefix_def take_is_prefix)

lemma starts_at_prefix: "starts_at s t pos \<longleftrightarrow> prefix t (drop pos s)"
  unfolding starts_at_def by (metis append_eq_conv_conj prefix_def take_is_prefix)

lemma ends_with_append: "ends_with s t \<longleftrightarrow> (\<exists>r. s = r @ t)"
  unfolding ends_with_def
  by (metis append_eq_conv_conj append_take_drop_id diff_add_inverse2 le_add2 length_append)

lemma index_unit_Some:
  "index_unit c xs = Some i \<longleftrightarrow> i < length xs \<and> xs ! i = c \<and> c \<notin> set (take i xs)"
proof (induction xs arbitrary: i)
  case Nil
  then show ?case by simp
next
  case (Cons x xs)
  then show ?case by (cases i) (auto simp: Cons)
qed

lemma index_unit_None: "index_unit c xs = None \<longleftrightarrow> c \<notin> set xs"
  by (induction xs) auto

lemma index_unit_append:
  "c \<notin> set u \<Longrightarrow> index_unit c (u @ c # w) = Some (length u)"
  by (induction u) auto

lemma index_unit_split:
  assumes "index_unit c xs = Some i"
  shows "xs = take i xs @ c # drop (Suc i) xs" "c \<notin> set (take i xs)"
  using assms by (auto simp: index_unit_Some id_take_nth_drop [symmetric])

section \<open>Lists and prefixes\<close>

lemma prefix_take_iff: "prefix p s \<longleftrightarrow> take (length p) s = p"
  by (metis append_eq_conv_conj prefix_def take_is_prefix)

lemma prefix_same_length: "prefix p s \<Longrightarrow> prefix q s \<Longrightarrow> length p = length q \<Longrightarrow> p = q"
  by (simp add: prefix_take_iff)

text \<open>Lists of a linear order compare by their first difference.\<close>

lemma list_less_append [simp]: "(p @ a < p @ b) \<longleftrightarrow> (a < (b :: 'a::linorder list))"
  by (induction p) (auto simp: list_less_def)

lemma list_le_append [simp]: "(p @ a \<le> p @ b) \<longleftrightarrow> (a \<le> (b :: 'a::linorder list))"
  by (simp add: list_le_def)

lemma list_le_prefix: "a \<le> a @ (b :: 'a::linorder list)"
  by (induction a) auto

lemma prefix_le: "prefix p s \<Longrightarrow> p \<le> (s :: 'a::linorder list)"
  by (auto simp: prefix_def list_le_prefix)

text \<open>Between two strings that share a prefix lie only strings that share it.\<close>

lemma prefix_ConsE:
  assumes "prefix (x # p) s"
  obtains s' where "s = x # s'" "prefix p s'"
  using assms by (cases s) auto

lemma prefix_convex:
  fixes s t u :: "'a::linorder list"
  shows "s \<le> t \<Longrightarrow> t \<le> u \<Longrightarrow> prefix p s \<Longrightarrow> prefix p u \<Longrightarrow> prefix p t"
proof (induction p arbitrary: s t u)
  case Nil
  then show ?case by simp
next
  case (Cons x p)
  obtain s' where s: "s = x # s'" "prefix p s'" using Cons.prems(3) by (rule prefix_ConsE)
  obtain u' where u: "u = x # u'" "prefix p u'" using Cons.prems(4) by (rule prefix_ConsE)
  obtain y t' where t: "t = y # t'" using Cons.prems(1) s by (cases t) auto
  have "y = x" "s' \<le> t'" "t' \<le> u'" using Cons.prems(1,2) s u t by auto
  then show ?case using Cons.IH [of s' t' u'] s u t by simp
qed

text \<open>Two strings, one below the other: either it is a prefix, or they differ at a unit.\<close>

lemma list_less_cases_ex:
  fixes a b :: "'a::linorder list"
  shows "a < b \<Longrightarrow> (\<exists>c w. b = a @ c # w) \<or>
    (\<exists>p x y a' b'. a = p @ x # a' \<and> b = p @ y # b' \<and> x < y)"
proof (induction a arbitrary: b)
  case Nil
  then show ?case by (cases b) auto
next
  case (Cons x a)
  then obtain y b' where b: "b = y # b'" by (cases b) auto
  show ?case
  proof (cases "x = y")
    case True
    with Cons.prems b have "a < b'" by simp
    from Cons.IH [OF this] show ?thesis
    proof
      assume "\<exists>c w. b' = a @ c # w"
      then show ?thesis using True b by auto
    next
      assume "\<exists>p x y a' b''. a = p @ x # a' \<and> b' = p @ y # b'' \<and> x < y"
      then obtain p z y' a' b'' where "a = p @ z # a'" "b' = p @ y' # b''" "z < y'" by blast
      then have "x # a = (x # p) @ z # a'" "b = (x # p) @ y' # b''" using True b by auto
      with \<open>z < y'\<close> show ?thesis by blast
    qed
  next
    case False
    with Cons.prems b have "x < y" by auto
    then have "x # a = [] @ x # a \<and> b = [] @ y # b' \<and> x < y" using b by simp
    then show ?thesis by blast
  qed
qed

lemma list_less_cases:
  fixes a b :: "'a::linorder list"
  assumes "a < b"
  obtains (prefix) c w where "b = a @ c # w"
        | (differ) p x y a' b' where "a = p @ x # a'" "b = p @ y # b'" "x < y"
  using list_less_cases_ex [OF assms] by blast

lemma differ_less:
  fixes p :: "'a::linorder list"
  shows "x < y \<Longrightarrow> p @ x # a < p @ y # b"
  by simp

section \<open>Sorted lists\<close>

lemma filter_none: "\<forall>y \<in> set ys. \<not> P y \<Longrightarrow> filter P ys = []"
  by (simp add: filter_empty_conv)

lemma dropWhile_sorted:
  assumes "sorted_wrt r xs" "\<And>x y. r x y \<Longrightarrow> P y \<Longrightarrow> P x"
  shows "dropWhile P xs = filter (\<lambda>x. \<not> P x) xs" "takeWhile P xs = filter P xs"
proof -
  have "dropWhile P xs = filter (\<lambda>x. \<not> P x) xs \<and> takeWhile P xs = filter P xs"
    using assms(1)
  proof (induction xs)
    case Nil
    show ?case by simp
  next
    case (Cons x xs)
    show ?case
    proof (cases "P x")
      case True
      with Cons show ?thesis by simp
    next
      case False
      then have "\<forall>y \<in> set xs. \<not> P y" using Cons.prems assms(2) by auto
      then have "filter P xs = []" "filter (\<lambda>x. \<not> P x) xs = xs"
        by (rule filter_none) (simp add: \<open>\<forall>y \<in> set xs. \<not> P y\<close>)
      with False show ?thesis by simp
    qed
  qed
  then show "dropWhile P xs = filter (\<lambda>x. \<not> P x) xs" "takeWhile P xs = filter P xs" by auto
qed

section \<open>Operations that may throw\<close>

text \<open>Sequencing of operations that may throw.\<close>

definition andThen :: "'e + 'a \<Rightarrow> ('a \<Rightarrow> 'e + 'b) \<Rightarrow> 'e + 'b" where
  "andThen r f = (case r of Inl e \<Rightarrow> Inl e | Inr a \<Rightarrow> f a)"

lemma andThen_Inl [simp]: "andThen (Inl e) f = Inl e"
  and andThen_Inr [simp]: "andThen (Inr a) f = f a"
  by (simp_all add: andThen_def)

lemma andThen_eq_Inr: "andThen r f = Inr b \<longleftrightarrow> (\<exists>a. r = Inr a \<and> f a = Inr b)"
  by (cases r) auto

fun eachIn :: "('a \<Rightarrow> 's \<Rightarrow> 'e + 's) \<Rightarrow> 'a list \<Rightarrow> 's \<Rightarrow> 'e + 's" where
  "eachIn f [] s = Inr s"
| "eachIn f (x # xs) s = andThen (f x s) (eachIn f xs)"

end
