(* ===== verification/KeyOrder.thy ===== *)
theory KeyOrder
  imports Prelude
begin

text \<open>
  The order of keys (typespec/ts/assets/skeleton.ts): \<open>compareKeys\<close>, the code-unit comparison it
  falls back to, \<open>sortKeys\<close>, \<open>prefixEnd\<close>, and the lengths in UTF-8 that bound keys and slice
  names. The reference order is \<open>krank\<close>: the code units with the surrogates moved above
  U+E000-U+FFFF, compared as lists of numbers; on well-formed strings it is the order of the code
  points and of the UTF-8 bytes.
\<close>

section \<open>Comparison\<close>

text \<open>The first loop of \<open>compareKeys\<close>: how many leading units agree.\<close>

fun first_diff :: "jsstr \<Rightarrow> jsstr \<Rightarrow> nat" where
  "first_diff (x # a) (y # b) = (if x = y then Suc (first_diff a b) else 0)"
| "first_diff _ _ = 0"

text \<open>The move of a unit at or above the surrogates.\<close>

definition lift_unit :: "int \<Rightarrow> int" where
  "lift_unit x = (if x \<ge> 0xe000 then x - 0x800 else x + 0x2000)"

definition compareKeys :: "jsstr \<Rightarrow> jsstr \<Rightarrow> int" where
  "compareKeys a b =
     (let n = min (length a) (length b); i = first_diff a b in
      if i = n then int (length a) - int (length b)
      else
        let x = uint (a ! i); y = uint (b ! i) in
        if x \<ge> 0xd800 \<and> y \<ge> 0xd800 then lift_unit x - lift_unit y else x - y)"

text \<open>\<open>HIGH_UNIT.test(k)\<close>: the string holds a unit at or above the surrogates.\<close>

definition high_unit :: "jsstr \<Rightarrow> bool" where
  "high_unit k = list_ex (\<lambda>u. uint u \<ge> 0xd800) k"

text \<open>The language's own \<open><\<close> on strings: code units, lexicographically.\<close>

fun units_less :: "jsstr \<Rightarrow> jsstr \<Rightarrow> bool" where
  "units_less [] b = (b \<noteq> [])"
| "units_less (x # a) [] = False"
| "units_less (x # a) (y # b) = (if x = y then units_less a b else uint x < uint y)"

definition unitCompare :: "jsstr \<Rightarrow> jsstr \<Rightarrow> int" where
  "unitCompare a b = (if units_less a b then -1 else if units_less b a then 1 else 0)"

definition exactFor :: "jsstr option list \<Rightarrow> jsstr \<Rightarrow> jsstr \<Rightarrow> int" where
  "exactFor keys =
     (if list_ex (\<lambda>k. case k of None \<Rightarrow> False | Some s \<Rightarrow> high_unit s) keys
      then compareKeys else unitCompare)"

section \<open>The reference order\<close>

definition urank :: "unit16 \<Rightarrow> int" where
  "urank u = (if uint u < 0xd800 then uint u else lift_unit (uint u))"

definition krank :: "jsstr \<Rightarrow> int list" where
  "krank s = map urank s"

definition key_less :: "jsstr \<Rightarrow> jsstr \<Rightarrow> bool" where
  "key_less a b = (krank a < krank b)"

definition key_le :: "jsstr \<Rightarrow> jsstr \<Rightarrow> bool" where
  "key_le a b = (krank a \<le> krank b)"

lemma uint_bound16: "0 \<le> uint (u :: unit16)" "uint (u :: unit16) < 65536"
  using uint_lt2p [of u] by simp_all

lemma urank_cases:
  obtains "uint u < 0xd800" "urank u = uint u"
        | "0xd800 \<le> uint u" "uint u < 0xe000" "urank u = uint u + 0x2000"
        | "0xe000 \<le> uint u" "urank u = uint u - 0x800"
  by (cases "uint u < 0xd800"; cases "uint u < 0xe000") (auto simp: urank_def lift_unit_def)

lemma inj_urank: "inj urank"
proof (rule injI)
  fix x y :: unit16
  assume "urank x = urank y"
  then have "uint x = uint y"
    using uint_bound16 [of x] uint_bound16 [of y]
    by (cases x rule: urank_cases; cases y rule: urank_cases) auto
  then show "x = y" by (simp add: word_uint_eq_iff)
qed

lemma urank_eq [simp]: "urank x = urank y \<longleftrightarrow> x = y"
  using inj_urank by (auto dest: injD)

lemma krank_Nil [simp]: "krank [] = []"
  and krank_Cons [simp]: "krank (x # s) = urank x # krank s"
  and krank_append [simp]: "krank (a @ b) = krank a @ krank b"
  and length_krank [simp]: "length (krank s) = length s"
  by (simp_all add: krank_def)

lemma krank_eq [simp]: "krank a = krank b \<longleftrightarrow> a = b"
  unfolding krank_def by (rule inj_map_eq_map [OF inj_urank])

lemma prefix_krank [simp]: "prefix (krank p) (krank s) \<longleftrightarrow> prefix p s"
  unfolding krank_def by (auto simp: prefix_def inj_map_eq_map [OF inj_urank] map_eq_append_conv
      simp flip: map_append)

lemma key_less_irrefl [simp]: "\<not> key_less a a"
  and key_le_refl [simp]: "key_le a a"
  by (simp_all add: key_less_def key_le_def)

lemma key_less_trans [trans]: "key_less a b \<Longrightarrow> key_less b c \<Longrightarrow> key_less a c"
  and key_le_trans [trans]: "key_le a b \<Longrightarrow> key_le b c \<Longrightarrow> key_le a c"
  and key_le_less_trans [trans]: "key_le a b \<Longrightarrow> key_less b c \<Longrightarrow> key_less a c"
  and key_less_le_trans [trans]: "key_less a b \<Longrightarrow> key_le b c \<Longrightarrow> key_less a c"
  by (auto simp: key_less_def key_le_def)

lemma key_le_iff: "key_le a b \<longleftrightarrow> key_less a b \<or> a = b"
  and key_not_less: "\<not> key_less a b \<longleftrightarrow> key_le b a"
  and key_not_le: "\<not> key_le a b \<longleftrightarrow> key_less b a"
  and key_less_imp_le: "key_less a b \<Longrightarrow> key_le a b"
  and key_le_antisym: "key_le a b \<Longrightarrow> key_le b a \<Longrightarrow> a = b"
  by (auto simp: key_less_def key_le_def order_less_le not_le simp flip: krank_eq)

lemmas key_order = key_not_less key_not_le key_less_imp_le

lemma urank_low: "uint u < 0xd800 \<Longrightarrow> urank u = uint u"
  by (simp add: urank_def)

lemma urank_high: "uint u \<ge> 0xd800 \<Longrightarrow> urank u \<ge> 0xd800"
  by (cases u rule: urank_cases) auto

lemma lift_unit_rank: "uint u \<ge> 0xd800 \<Longrightarrow> lift_unit (uint u) = urank u"
  by (simp add: urank_def)

section \<open>The comparisons follow the reference order\<close>

text \<open>One unit against another, both moved or neither.\<close>

definition unit_cmp :: "unit16 \<Rightarrow> unit16 \<Rightarrow> int" where
  "unit_cmp u v = (let x = uint u; y = uint v in
     if x \<ge> 0xd800 \<and> y \<ge> 0xd800 then lift_unit x - lift_unit y else x - y)"

lemma unit_cmp_sgn: "sgn (unit_cmp u v) = sgn (urank u - urank v)"
proof (cases "uint u \<ge> 0xd800 \<and> uint v \<ge> 0xd800")
  case True
  then show ?thesis by (simp add: unit_cmp_def lift_unit_rank)
next
  case False
  then have c: "unit_cmp u v = uint u - uint v" by (auto simp: unit_cmp_def Let_def)
  show ?thesis
    using False urank_low [of u] urank_low [of v] urank_high [of u] urank_high [of v]
    unfolding c by (cases "uint u < 0xd800"; cases "uint v < 0xd800") auto
qed

lemma compareKeys_Nil [simp]:
  "compareKeys [] b = - int (length b)" "compareKeys a [] = int (length a)"
  by (cases b; cases a; simp add: compareKeys_def)+

lemma compareKeys_Cons [simp]:
  "compareKeys (x # a) (y # b) = (if x = y then compareKeys a b else unit_cmp x y)"
  by (simp add: compareKeys_def unit_cmp_def Let_def)

lemma compareKeys_sgn:
  "sgn (compareKeys a b) = (if key_less a b then -1 else if a = b then 0 else 1)"
proof (induction a arbitrary: b)
  case Nil
  then show ?case by (cases b) (auto simp: key_less_def)
next
  case (Cons x a)
  show ?case
  proof (cases b)
    case Nil
    then show ?thesis by (simp add: key_less_def)
  next
    case (Cons y b')
    show ?thesis
    proof (cases "x = y")
      case True
      then show ?thesis using Cons.IH [of b'] Cons by (simp add: key_less_def)
    next
      case False
      then have "urank x \<noteq> urank y" by simp
      then have "sgn (urank x - urank y) = (if urank x < urank y then -1 else 1)"
        by (auto simp: sgn_if)
      with False Cons show ?thesis by (auto simp: key_less_def unit_cmp_sgn)
    qed
  qed
qed

lemma key_less_asym: "key_less a b \<Longrightarrow> \<not> key_less b a"
  and key_less_linear: "key_less a b \<or> a = b \<or> key_less b a"
  by (auto simp: key_less_def not_less order_le_less)

lemma sgn_int_iff:
  "sgn (x :: int) = -1 \<longleftrightarrow> x < 0" "sgn x = 0 \<longleftrightarrow> x = 0" "sgn x = 1 \<longleftrightarrow> x > 0"
  by (auto simp: sgn_if)

lemma compareKeys_cases:
  "(compareKeys a b < 0 \<and> key_less a b) \<or> (compareKeys a b = 0 \<and> a = b) \<or>
   (compareKeys a b > 0 \<and> key_less b a)"
proof -
  have "sgn (compareKeys a b) = -1 \<or> sgn (compareKeys a b) = 0 \<or> sgn (compareKeys a b) = 1"
    by (auto simp: sgn_if)
  then show ?thesis
    using compareKeys_sgn [of a b] key_less_linear [of a b] sgn_int_iff [of "compareKeys a b"]
    by (auto split: if_splits)
qed

lemma compareKeys_less [simp]: "compareKeys a b < 0 \<longleftrightarrow> key_less a b"
  and compareKeys_eq [simp]: "compareKeys a b = 0 \<longleftrightarrow> a = b"
  and compareKeys_greater [simp]: "compareKeys a b > 0 \<longleftrightarrow> key_less b a"
  using compareKeys_cases [of a b] key_less_asym [of a b] key_less_irrefl [of a] by auto

lemma compareKeys_le [simp]: "compareKeys a b \<le> 0 \<longleftrightarrow> key_le a b"
  and compareKeys_ge [simp]: "compareKeys a b \<ge> 0 \<longleftrightarrow> key_le b a"
  by (simp_all only: linorder_not_less [symmetric] compareKeys_greater compareKeys_less key_not_less)

text \<open>Against a string with no high unit the language's own comparison is the same.\<close>

lemma units_less_low:
  assumes "\<not> high_unit a \<or> \<not> high_unit b"
  shows "units_less a b \<longleftrightarrow> key_less a b"
  using assms
proof (induction a b rule: units_less.induct)
  case (1 b)
  then show ?case by (cases b) (auto simp: key_less_def)
next
  case (2 x a)
  then show ?case by (simp add: key_less_def)
next
  case (3 x a y b)
  show ?case
  proof (cases "x = y")
    case True
    then show ?thesis using 3 by (auto simp: key_less_def high_unit_def)
  next
    case False
    from "3.prems" have "uint x < 0xd800 \<or> uint y < 0xd800" by (auto simp: high_unit_def)
    then have "unit_cmp x y = uint x - uint y" by (auto simp: unit_cmp_def Let_def)
    then have "sgn (uint x - uint y) = sgn (urank x - urank y)" using unit_cmp_sgn by metis
    then have "uint x < uint y \<longleftrightarrow> urank x < urank y"
      using sgn_int_iff(1) [of "uint x - uint y"] sgn_int_iff(1) [of "urank x - urank y"] by simp
    with False show ?thesis by (simp add: key_less_def)
  qed
qed

lemma unitCompare_low:
  assumes "\<not> high_unit a \<or> \<not> high_unit b"
  shows "sgn (unitCompare a b) = sgn (compareKeys a b)"
proof -
  from assms have "units_less a b \<longleftrightarrow> key_less a b" "units_less b a \<longleftrightarrow> key_less b a"
    by (auto intro!: units_less_low)
  then show ?thesis
    using compareKeys_sgn [of a b] key_less_linear [of a b] by (auto simp: unitCompare_def)
qed

text \<open>A comparison built for some keys is exact whenever one side is one of them.\<close>

lemma exactFor_sgn:
  assumes "Some a \<in> set keys \<or> Some b \<in> set keys"
  shows "sgn (exactFor keys a b) = sgn (compareKeys a b)"
proof (cases "list_ex (\<lambda>k. case k of None \<Rightarrow> False | Some s \<Rightarrow> high_unit s) keys")
  case True
  then show ?thesis by (simp add: exactFor_def)
next
  case False
  then have "\<not> high_unit s" if "Some s \<in> set keys" for s
    using that by (force simp: list_ex_iff)
  with assms have "\<not> high_unit a \<or> \<not> high_unit b" by blast
  with False show ?thesis by (simp add: exactFor_def unitCompare_low)
qed

lemma sgn_eq_cases:
  fixes x y :: int
  assumes "sgn x = sgn y"
  shows "x < 0 \<longleftrightarrow> y < 0" "x = 0 \<longleftrightarrow> y = 0" "x > 0 \<longleftrightarrow> y > 0" "x \<le> 0 \<longleftrightarrow> y \<le> 0" "x \<ge> 0 \<longleftrightarrow> y \<ge> 0"
  using assms by (auto simp: sgn_if split: if_splits)

lemma exactFor_order:
  assumes "Some a \<in> set keys \<or> Some b \<in> set keys"
  shows "exactFor keys a b < 0 \<longleftrightarrow> key_less a b"
    "exactFor keys a b = 0 \<longleftrightarrow> a = b"
    "exactFor keys a b > 0 \<longleftrightarrow> key_less b a"
    "exactFor keys a b \<le> 0 \<longleftrightarrow> key_le a b"
    "exactFor keys a b \<ge> 0 \<longleftrightarrow> key_le b a"
  by (simp_all add: sgn_eq_cases [OF exactFor_sgn [OF assms]])

section \<open>Sorting keys\<close>

text \<open>
  The native \<open>sort()\<close> and \<open>sort(compareKeys)\<close> are stable sorts under the given comparison; on the
  total orders here a stable sort is insertion sort.
\<close>

fun insort_by :: "('a \<Rightarrow> 'a \<Rightarrow> int) \<Rightarrow> 'a \<Rightarrow> 'a list \<Rightarrow> 'a list" where
  "insort_by cmp x [] = [x]"
| "insort_by cmp x (y # ys) = (if cmp x y \<le> 0 then x # y # ys else y # insort_by cmp x ys)"

fun sort_by :: "('a \<Rightarrow> 'a \<Rightarrow> int) \<Rightarrow> 'a list \<Rightarrow> 'a list" where
  "sort_by cmp [] = []"
| "sort_by cmp (x # xs) = insort_by cmp x (sort_by cmp xs)"

definition sortKeys :: "jsstr list \<Rightarrow> jsstr list" where
  "sortKeys keys =
     (let sorted = sort_by unitCompare keys in
      if list_ex high_unit sorted then sort_by compareKeys sorted else sorted)"

lemma set_insort_by [simp]: "set (insort_by cmp x xs) = insert x (set xs)"
  by (induction xs) auto

lemma set_sort_by [simp]: "set (sort_by cmp xs) = set xs"
  by (induction xs) auto

lemma length_insort_by [simp]: "length (insort_by cmp x xs) = Suc (length xs)"
  by (induction xs) auto

lemma length_sort_by [simp]: "length (sort_by cmp xs) = length xs"
  by (induction xs) auto

lemma distinct_insort_by [simp]: "distinct (insort_by cmp x xs) \<longleftrightarrow> x \<notin> set xs \<and> distinct xs"
  by (induction xs) auto

lemma distinct_sort_by [simp]: "distinct (sort_by cmp xs) = distinct xs"
  by (induction xs) auto

lemma sorted_insort_by:
  assumes "\<forall>y \<in> set xs. cmp x y \<le> 0 \<longleftrightarrow> key_le x y"
    and "sorted_wrt key_le xs"
  shows "sorted_wrt key_le (insort_by cmp x xs)"
  using assms
proof (induction xs)
  case Nil
  then show ?case by simp
next
  case (Cons y ys)
  then show ?case
    by (auto dest: key_le_trans simp: key_not_le [symmetric] intro: key_less_imp_le)
qed

lemma sorted_sort_by:
  assumes "\<And>x y. x \<in> set xs \<Longrightarrow> y \<in> set xs \<Longrightarrow> cmp x y \<le> 0 \<longleftrightarrow> key_le x y"
  shows "sorted_wrt key_le (sort_by cmp xs)"
  using assms by (induction xs) (auto intro!: sorted_insort_by)

lemma sortKeys_set [simp]: "set (sortKeys keys) = set keys"
  by (simp add: sortKeys_def Let_def)

lemma sortKeys_distinct [simp]: "distinct (sortKeys keys) = distinct keys"
  by (simp add: sortKeys_def Let_def)

lemma sortKeys_length [simp]: "length (sortKeys keys) = length keys"
  by (simp add: sortKeys_def Let_def)

text \<open>A strictly ascending list of keys, which is what every ordered list of the stores is.\<close>

abbreviation ascending :: "jsstr list \<Rightarrow> bool" where
  "ascending \<equiv> sorted_wrt key_less"

lemma sortKeys_sorted: "sorted_wrt key_le (sortKeys keys)"
proof (cases "list_ex high_unit (sort_by unitCompare keys)")
  case True
  then show ?thesis by (auto simp: sortKeys_def Let_def intro!: sorted_sort_by)
next
  case False
  then have "\<not> high_unit k" if "k \<in> set keys" for k
    using that by (auto simp: list_ex_iff)
  then have "unitCompare x y \<le> 0 \<longleftrightarrow> key_le x y" if "x \<in> set keys" for x y
    using sgn_eq_cases(4) [OF unitCompare_low [of x y]] that by auto
  with False show ?thesis by (auto simp: sortKeys_def Let_def intro!: sorted_sort_by)
qed

lemma sorted_distinct_ascending:
  "sorted_wrt key_le xs \<Longrightarrow> distinct xs \<Longrightarrow> ascending xs"
  by (induction xs) (auto simp: key_le_iff)

lemma ascending_distinct: "ascending xs \<Longrightarrow> distinct xs"
  by (induction xs) auto

lemma ascending_unique:
  "ascending xs \<Longrightarrow> ascending ys \<Longrightarrow> set xs = set ys \<Longrightarrow> xs = ys"
proof (induction xs arbitrary: ys)
  case Nil
  then show ?case by simp
next
  case (Cons x xs)
  then obtain y ys' where y: "ys = y # ys'" by (cases ys) auto
  have "x = y"
  proof (rule ccontr)
    assume "x \<noteq> y"
    moreover have "x \<in> insert y (set ys')" "y \<in> insert x (set xs)"
      using Cons.prems(3) y by auto
    ultimately have "x \<in> set ys'" "y \<in> set xs" by auto
    then show False using Cons.prems y key_less_asym [of x y] by auto
  qed
  moreover have "set xs = set ys'"
    using Cons.prems ascending_distinct [of "x # xs"] ascending_distinct [of ys] y \<open>x = y\<close> by auto
  ultimately show ?case using Cons y by simp
qed

lemma sortKeys_ascending: "distinct keys \<Longrightarrow> ascending (sortKeys keys)"
  by (rule sorted_distinct_ascending [OF sortKeys_sorted]) simp

section \<open>The end of a prefix\<close>

text \<open>
  \<open>codePointAt(i)\<close> for an index inside the string: the code point a surrogate pair encodes, or the
  unit. \<open>fromCodePoint\<close> for a code point up to U+10FFFF.
\<close>

definition lead_unit :: "unit16 \<Rightarrow> bool" where
  "lead_unit u = (uint u \<ge> 0xd800 \<and> uint u \<le> 0xdbff)"

definition trail_unit :: "unit16 \<Rightarrow> bool" where
  "trail_unit u = (uint u \<ge> 0xdc00 \<and> uint u \<le> 0xdfff)"

definition pair_point :: "unit16 \<Rightarrow> unit16 \<Rightarrow> int" where
  "pair_point h l = 0x10000 + (uint h - 0xd800) * 0x400 + (uint l - 0xdc00)"

definition codePointAt :: "jsstr \<Rightarrow> nat \<Rightarrow> int" where
  "codePointAt s i =
     (if lead_unit (s ! i) \<and> Suc i < length s \<and> trail_unit (s ! Suc i)
      then pair_point (s ! i) (s ! Suc i) else uint (s ! i))"

definition fromCodePoint :: "int \<Rightarrow> jsstr" where
  "fromCodePoint c =
     (if c \<le> 0xffff then [word_of_int c]
      else [word_of_int (0xd800 + (c - 0x10000) div 0x400),
            word_of_int (0xdc00 + (c - 0x10000) mod 0x400)])"

text \<open>The last code point, U+10FFFF, and the loop that drops it from the end.\<close>

definition max_point :: jsstr where
  "max_point = [0xdbff, 0xdfff]"

function strip_max :: "jsstr \<Rightarrow> jsstr" where
  "strip_max s = (if ends_with s max_point then strip_max (take (length s - 2) s) else s)"
  by pat_completeness auto
termination
  by (relation "measure length") (auto simp: ends_with_def max_point_def)

declare strip_max.simps [simp del]

definition prefixEnd :: "jsstr \<Rightarrow> jsstr option" where
  "prefixEnd p =
     (let end' = strip_max p in
      if end' = [] then None
      else
        let pair = length end' \<ge> 2 \<and> codePointAt end' (length end' - 2) > 0xffff;
            at = if pair then length end' - 2 else length end' - 1;
            cp = codePointAt end' at in
        Some (slice_to end' 0 at @ fromCodePoint (if cp = 0xd7ff then 0xe000 else cp + 1)))"

section \<open>Lengths in UTF-8\<close>

definition KEY_MAX :: nat where "KEY_MAX = 511"
definition SLICE_MAX :: nat where "SLICE_MAX = KEY_MAX - 1"

text \<open>\<open>utf8Length\<close>: the loop over the units; past the end \<open>charCodeAt\<close> is NaN, whose bits are 0.\<close>

fun utf8Length :: "jsstr \<Rightarrow> nat" where
  "utf8Length [] = 0"
| "utf8Length (c # s) =
     (let pair = uint c \<ge> 0xd800 \<and> uint c \<le> 0xdbff \<and>
                 (case s of [] \<Rightarrow> False | d # _ \<Rightarrow> and d 0xfc00 = 0xdc00) in
      (if uint c < 0x80 then 1 else if uint c < 0x800 then 2 else if pair then 4 else 3) +
      (if pair then utf8Length (tl s) else utf8Length s))"

datatype length_kind = KeyLength | SliceLength

text \<open>\<open>checkLength\<close>: \<open>Inl\<close> of the length and the bound for a string that is too long.\<close>

definition checkLength :: "length_kind \<Rightarrow> jsstr \<Rightarrow> (nat \<times> nat) + unit" where
  "checkLength what s =
     (let max = (case what of KeyLength \<Rightarrow> KEY_MAX | SliceLength \<Rightarrow> SLICE_MAX);
          n = utf8Length s in
      if n > max then Inl (n, max) else Inr ())"

end
