(* ===== verification/KeyPattern.thy ===== *)
theory KeyPattern
  imports KeyOrder
begin

text \<open>
  Key patterns (typespec/ts/assets/skeleton.ts): a \<open>KeyPattern\<close> picks out the keys of one key
  template by a match on each parameter, \<open>compilePattern\<close> turns it into a head and fields, and
  \<open>placeKey\<close> places a key against it for a skip scan: a match, a key to step past, the end of the
  walk, or the target of a seek.
\<close>

section \<open>Patterns and their compilation\<close>

record range_match =
  rm_gte :: "jsstr option"
  rm_gt :: "jsstr option"
  rm_lte :: "jsstr option"
  rm_lt :: "jsstr option"

datatype param_match = AnyValue | Eq jsstr | Prefix jsstr | Range range_match

datatype slice_pattern = EverySlice | OneSlice jsstr | Family jsstr "param_match list"

record key_pattern =
  kp_slice :: slice_pattern
  kp_name :: "jsstr option"
  kp_local :: "param_match list"

text \<open>A separator is \<open>''\<close> (\<open>None\<close>) or one unit.\<close>

record value_field =
  vf_lo :: "jsstr option"
  vf_loOpen :: bool
  vf_hi :: "jsstr option"
  vf_hiOpen :: bool
  vf_cmp :: "jsstr \<Rightarrow> jsstr \<Rightarrow> int"
  vf_single :: bool
  vf_sep :: "unit16 option"

datatype field = ValueField value_field | LiteralField jsstr bool

record compiled_pattern =
  cp_head :: jsstr
  cp_fields :: "field list"

abbreviation bang :: unit16 where "bang \<equiv> 0x21"
abbreviation comma :: unit16 where "comma \<equiv> 0x2c"
abbreviation colon :: unit16 where "colon \<equiv> 0x3a"

definition blankField :: "unit16 option \<Rightarrow> value_field" where
  "blankField s = \<lparr>vf_lo = None, vf_loOpen = False, vf_hi = None, vf_hiOpen = False, vf_cmp = unitCompare,
     vf_single = False, vf_sep = s\<rparr>"

fun valueField :: "param_match \<Rightarrow> unit16 option \<Rightarrow> value_field" where
  "valueField AnyValue s = blankField s"
| "valueField (Eq v) s =
     (blankField s)\<lparr>vf_lo := Some v, vf_hi := Some v, vf_single := True, vf_cmp := exactFor [Some v, Some v]\<rparr>"
| "valueField (Prefix p) s =
     (if p = [] then blankField s
      else (blankField s)\<lparr>vf_lo := Some p, vf_hi := prefixEnd p, vf_hiOpen := True,
              vf_cmp := exactFor [Some p, prefixEnd p]\<rparr>)"
| "valueField (Range r) s =
     (let (l, lopen) =
            (case rm_gt r of
               Some g \<Rightarrow>
                 (case rm_gte r of
                    None \<Rightarrow> (Some g, True)
                  | Some e \<Rightarrow> if compareKeys g e \<ge> 0 then (Some g, True) else (Some e, False))
             | None \<Rightarrow> (rm_gte r, False));
          (h, hopen) =
            (case rm_lt r of
               Some g \<Rightarrow>
                 (case rm_lte r of
                    None \<Rightarrow> (Some g, True)
                  | Some e \<Rightarrow> if compareKeys g e \<le> 0 then (Some g, True) else (Some e, False))
             | None \<Rightarrow> (rm_lte r, False))
      in (blankField s)\<lparr>vf_lo := l, vf_loOpen := lopen, vf_hi := h, vf_hiOpen := hopen,
            vf_cmp := exactFor [l, h]\<rparr>)"

text \<open>A template's parameters as fields: \<open>,\<close> between them, \<open>end_sep\<close> after the last one.\<close>

fun paramFields :: "param_match list \<Rightarrow> unit16 option \<Rightarrow> field list" where
  "paramFields [] end_sep = []"
| "paramFields [m] end_sep = [ValueField (valueField m end_sep)]"
| "paramFields (m # m' # ms) end_sep =
     ValueField (valueField m (Some comma)) # paramFields (m' # ms) end_sep"

datatype pattern_error = EveryKeyOnly | EveryLocalOnly

definition compilePattern :: "key_pattern \<Rightarrow> pattern_error + compiled_pattern" where
  "compilePattern p =
     (case kp_slice p of
        EverySlice \<Rightarrow>
          if kp_name p \<noteq> None \<or> length (kp_local p) > 0 then Inl EveryKeyOnly
          else Inr \<lparr>cp_head = [], cp_fields = []\<rparr>
      | s \<Rightarrow>
          let (hd', fs) =
            (case s of
               OneSlice n \<Rightarrow> (n @ [bang], [])
             | Family f [] \<Rightarrow> (f @ [bang], [])
             | Family f ms \<Rightarrow> (f @ [colon], paramFields ms (Some bang))
             | EverySlice \<Rightarrow> ([], []))
          in
          (case kp_name p of
             None \<Rightarrow>
               if length (kp_local p) > 0 then Inl EveryLocalOnly
               else Inr \<lparr>cp_head = hd', cp_fields = fs\<rparr>
           | Some n \<Rightarrow>
               let k = length (kp_local p) in
               Inr \<lparr>cp_head = hd',
                    cp_fields = fs @ LiteralField (if k > 0 then n @ [colon] else n) (k = 0)
                               # paramFields (kp_local p) None\<rparr>))"

section \<open>Placing a key\<close>

datatype placement = Match | Step | Done | Seek jsstr bool

text \<open>
  \<open>above(sep)\<close>: the unit just above a separator. Only the last field of a key has no separator, and
  nothing skips back to it; only a literal with a \<open>:\<close> at its end is not whole, so its
  \<open>prefixEnd\<close> exists. The models of both cases add nothing to the target.
\<close>

definition above_sep :: "unit16 \<Rightarrow> unit16" where
  "above_sep s = s + 1"

text \<open>
  \<open>skipBack\<close> walks back over the fields already passed, each with the end of its text, from the
  nearest: past every key holding the value of the first one that admits more than one.
\<close>

fun skipBack :: "jsstr \<Rightarrow> bool \<Rightarrow> (field \<times> nat) list \<Rightarrow> placement" where
  "skipBack key reverse [] = Done"
| "skipBack key reverse ((LiteralField t w, e) # before) = skipBack key reverse before"
| "skipBack key reverse ((ValueField f, e) # before) =
     (if vf_single f then skipBack key reverse before
      else if reverse then Seek (slice_to key 0 (e + 1)) True
      else Seek (slice_to key 0 e @ (case vf_sep f of None \<Rightarrow> [] | Some s \<Rightarrow> [above_sep s])) False)"

text \<open>The value check of one field: \<open>None\<close> when the value is inside its match.\<close>

definition checkLow :: "jsstr \<Rightarrow> bool \<Rightarrow> (field \<times> nat) list \<Rightarrow> value_field \<Rightarrow> nat \<Rightarrow> jsstr \<Rightarrow> placement option"
where
  "checkLow key reverse before f pos v =
     (case vf_lo f of
        None \<Rightarrow> None
      | Some l \<Rightarrow>
          let d = vf_cmp f v l in
          if d < 0 \<or> (d = 0 \<and> vf_loOpen f) then
            Some
              (if reverse then skipBack key reverse before
               else
                 let at = slice_to key 0 pos @ l in
                 if \<not> vf_loOpen f then Seek at False
                 else (case vf_sep f of None \<Rightarrow> Seek at True | Some s \<Rightarrow> Seek (at @ [above_sep s]) False))
          else None)"

definition checkHigh :: "jsstr \<Rightarrow> bool \<Rightarrow> (field \<times> nat) list \<Rightarrow> value_field \<Rightarrow> nat \<Rightarrow> jsstr \<Rightarrow> placement option"
where
  "checkHigh key reverse before f pos v =
     (case vf_hi f of
        None \<Rightarrow> None
      | Some h \<Rightarrow>
          let d = vf_cmp f v h in
          if d > 0 \<or> (d = 0 \<and> vf_hiOpen f) then
            Some
              (if \<not> reverse then skipBack key reverse before
               else
                 let at = slice_to key 0 pos @ h in
                 if vf_hiOpen f then Seek at True
                 else (case vf_sep f of None \<Rightarrow> Seek at False | Some s \<Rightarrow> Seek (at @ [above_sep s]) True))
          else None)"

text \<open>
  The loop over the fields, from \<open>pos\<close>, with the fields passed so far (nearest first) and the ends
  of their texts.
\<close>

fun placeFields :: "jsstr \<Rightarrow> bool \<Rightarrow> (field \<times> nat) list \<Rightarrow> field list \<Rightarrow> nat \<Rightarrow> placement" where
  "placeFields key reverse before [] pos = Match"
| "placeFields key reverse before (LiteralField t w # fs) pos =
     (if starts_at key t pos \<and> (\<not> w \<or> length key = pos + length t)
      then placeFields key reverse ((LiteralField t w, 0) # before) fs (pos + length t)
      else
        let at = slice_to key 0 pos in
        if unitCompare (slice_from key pos) t < 0 then
          (if reverse then skipBack key reverse before else Seek (at @ t) False)
        else if \<not> reverse then skipBack key reverse before
        else if w then Seek (at @ t) False
        else Seek (at @ (case prefixEnd t of None \<Rightarrow> [] | Some e \<Rightarrow> e)) True)"
| "placeFields key reverse before (ValueField f # fs) pos =
     (let (end', short) =
            (case vf_sep f of
               None \<Rightarrow> (length key, False)
             | Some s \<Rightarrow> (case index_of key s pos of None \<Rightarrow> (length key, True) | Some e \<Rightarrow> (e, False)));
          v = slice_to key pos end'
      in (case checkLow key reverse before f pos v of
            Some p \<Rightarrow> p
          | None \<Rightarrow>
              (case checkHigh key reverse before f pos v of
                 Some p \<Rightarrow> p
               | None \<Rightarrow>
                   if short then Step
                   else placeFields key reverse ((ValueField f, end') # before) fs
                          (end' + (case vf_sep f of None \<Rightarrow> 0 | Some _ \<Rightarrow> 1)))))"

definition placeKey :: "compiled_pattern \<Rightarrow> jsstr \<Rightarrow> bool \<Rightarrow> placement" where
  "placeKey c key reverse =
     (if \<not> starts_with key (cp_head c) then Done
      else placeFields key reverse [] (cp_fields c) (length (cp_head c)))"

definition matchesPattern :: "compiled_pattern \<Rightarrow> jsstr \<Rightarrow> bool" where
  "matchesPattern c key = (placeKey c key False = Match)"

end
