(* ===== verification/KeyPlace.thy ===== *)
theory KeyPlace
  imports KeyPattern
begin

text \<open>
  Why a skip scan may seek. \<open>matchRest\<close> says what a key holds for a list of fields, and \<open>rest_ok\<close>
  is the rule the source states for keys: a separator sorts below every character the parameter
  before it may hold. Under it, every seek \<open>placeKey\<close> answers passes no matching key, and \<open>Done\<close>
  leaves none behind, walking either way.
\<close>

section \<open>Declarative matching\<close>

definition inLow :: "value_field \<Rightarrow> jsstr \<Rightarrow> bool" where
  "inLow f v = (case vf_lo f of None \<Rightarrow> True
     | Some l \<Rightarrow> if vf_loOpen f then key_less l v else key_le l v)"

definition inHigh :: "value_field \<Rightarrow> jsstr \<Rightarrow> bool" where
  "inHigh f v = (case vf_hi f of None \<Rightarrow> True
     | Some h \<Rightarrow> if vf_hiOpen f then key_less v h else key_le v h)"

fun matchRest :: "field list \<Rightarrow> jsstr \<Rightarrow> bool" where
  "matchRest [] r = True"
| "matchRest (LiteralField t w # fs) r =
     (prefix t r \<and> (w \<longrightarrow> r = t) \<and> matchRest fs (drop (length t) r))"
| "matchRest (ValueField f # fs) r =
     (case vf_sep f of
        None \<Rightarrow> inLow f r \<and> inHigh f r \<and> matchRest fs []
      | Some s \<Rightarrow>
          (case index_unit s r of
             None \<Rightarrow> False
           | Some i \<Rightarrow> inLow f (take i r) \<and> inHigh f (take i r) \<and> matchRest fs (drop (Suc i) r)))"

definition units_above :: "unit16 \<Rightarrow> jsstr \<Rightarrow> bool" where
  "units_above s v = (\<forall>u \<in> set v. urank s < urank u)"

fun rest_ok :: "field list \<Rightarrow> jsstr \<Rightarrow> bool" where
  "rest_ok [] r = True"
| "rest_ok (LiteralField t w # fs) r = (prefix t r \<longrightarrow> rest_ok fs (drop (length t) r))"
| "rest_ok (ValueField f # fs) r =
     (case vf_sep f of
        None \<Rightarrow> True
      | Some s \<Rightarrow>
          (case index_unit s r of
             None \<Rightarrow> units_above s r
           | Some i \<Rightarrow> units_above s (take i r) \<and> rest_ok fs (drop (Suc i) r)))"

text \<open>What compilation gives: exact comparisons, separators below the surrogates, names in plain units.\<close>

definition cmp_exact :: "value_field \<Rightarrow> bool" where
  "cmp_exact f = (\<forall>v b. (vf_lo f = Some b \<or> vf_hi f = Some b) \<longrightarrow>
     sgn (vf_cmp f v b) = sgn (compareKeys v b))"

definition sep_ok :: "unit16 \<Rightarrow> bool" where
  "sep_ok s = (uint s < 0xd7ff)"

definition single_ok :: "value_field \<Rightarrow> bool" where
  "single_ok f = (vf_single f \<longrightarrow> (\<exists>v. vf_lo f = Some v \<and> vf_hi f = Some v))"

fun fields_ok :: "field list \<Rightarrow> bool" where
  "fields_ok [] = True"
| "fields_ok (LiteralField t w # fs) =
     (\<not> high_unit t \<and> (\<not> w \<longrightarrow> (\<exists>n c. t = n @ [c] \<and> sep_ok c)) \<and> fields_ok fs)"
| "fields_ok (ValueField f # fs) =
     (cmp_exact f \<and> single_ok f \<and> (case vf_sep f of None \<Rightarrow> fs = [] | Some s \<Rightarrow> sep_ok s) \<and>
      fields_ok fs)"

section \<open>Order facts about separators\<close>

lemma key_less_append [simp]: "key_less (p @ a) (p @ b) \<longleftrightarrow> key_less a b"
  and key_le_append [simp]: "key_le (p @ a) (p @ b) \<longleftrightarrow> key_le a b"
  by (simp_all add: key_less_def key_le_def)

lemma key_less_Cons [simp]:
  "key_less (x # a) (y # b) \<longleftrightarrow> urank x < urank y \<or> (x = y \<and> key_less a b)"
  by (auto simp: key_less_def)

lemma key_Nil [simp]: "\<not> key_less a []" "key_le [] a" "key_less [] a \<longleftrightarrow> a \<noteq> []"
  by (cases a; simp add: key_less_def key_le_def)+

lemma key_less_self [simp]: "key_less t (t @ x) \<longleftrightarrow> x \<noteq> []"
  using key_less_append [of t "[]" x] by simp

lemma key_le_self [simp]: "key_le t (t @ x)"
  using key_le_append [of t "[]" x] by simp

lemma key_le_extend: "key_le a b \<Longrightarrow> key_le a (b @ x)"
  using list_le_prefix [of "krank b" "krank x"] by (auto simp: key_le_def intro: order_trans)

lemma key_less_extend: "key_less a b \<Longrightarrow> key_less a (b @ x)"
  using key_le_extend [of b b x] key_less_le_trans by auto

lemma key_prefix_convex:
  "key_le s t \<Longrightarrow> key_le t u \<Longrightarrow> prefix p s \<Longrightarrow> prefix p u \<Longrightarrow> prefix p t"
  using prefix_convex [of "krank s" "krank t" "krank u" "krank p"] by (simp add: key_le_def)

lemma not_prefix_above:
  assumes "prefix q k" "key_less k k'" "\<not> prefix q k'"
  shows "key_less (q @ x) k'"
  using key_prefix_convex [of k k' "q @ x" q] assms
  by (auto simp: key_not_le [symmetric] key_less_imp_le)

lemma not_prefix_below:
  assumes "prefix q k" "key_less k' k" "\<not> prefix q k'"
  shows "key_less k' (q @ x)"
  using key_prefix_convex [of "q @ x" k' k q] assms
  by (auto simp: key_not_le [symmetric] key_less_imp_le)

lemma key_less_cases:
  assumes "key_less a b"
  obtains (prefix) c w where "b = a @ c # w"
        | (differ) p x y a' b' where "a = p @ x # a'" "b = p @ y # b'" "urank x < urank y"
proof -
  from assms have "krank a < krank b" by (simp add: key_less_def)
  then show ?thesis
  proof (cases rule: list_less_cases)
    case (prefix c w)
    then have "prefix a b" by (metis prefixI prefix_krank)
    then obtain r where "b = a @ r" by (auto simp: prefix_def)
    with prefix that(1) show ?thesis by (cases r) auto
  next
    case (differ p x y a' b')
    from differ(1) obtain pa xa ra where a: "a = pa @ xa # ra" "krank pa = p" "urank xa = x"
      by (auto simp: krank_def map_eq_append_conv map_eq_Cons_conv)
    from differ(2) obtain pb xb rb where b: "b = pb @ xb # rb" "krank pb = p" "urank xb = y"
      by (auto simp: krank_def map_eq_append_conv map_eq_Cons_conv)
    have "pa = pb" using a(2) b(2) krank_eq by metis
    with a b differ(3) that(2) show ?thesis by auto
  qed
qed

text \<open>A value with its separator sorts below anything that starts with a greater value.\<close>

lemma sep_below:
  assumes "key_less v' v" "units_above s v"
  shows "key_less (v' @ s # r) (v @ x)"
  using assms(1)
proof (cases rule: key_less_cases)
  case (prefix c w)
  with assms(2) show ?thesis by (auto simp: units_above_def)
next
  case (differ p a b a' b')
  then show ?thesis by simp
qed

lemma urank_above: "sep_ok s \<Longrightarrow> urank (above_sep s) = urank s + 1"
proof -
  assume s: "sep_ok s"
  then have "uint (s + 1) = uint s + 1"
    by (simp add: sep_ok_def uint_word_ariths)
  with s show ?thesis by (simp add: above_sep_def sep_ok_def urank_def)
qed

lemma above_below:
  assumes "key_less v v'" "units_above s v'" "sep_ok s"
  shows "key_le (v @ [above_sep s]) (v' @ x)"
  using assms(1)
proof (cases rule: key_less_cases)
  case (prefix c w)
  with assms(2,3) have "urank (above_sep s) \<le> urank c"
    by (auto simp: units_above_def urank_above)
  then have "key_le [above_sep s] (c # w @ x)" by (auto simp: key_le_iff order_le_less)
  with prefix show ?thesis by simp
next
  case (differ p a b a' b')
  then have "key_less (v @ [above_sep s]) (v' @ x)" by simp
  then show ?thesis by (rule key_less_imp_le)
qed

section \<open>Values inside their bounds\<close>

lemma cmp_order:
  assumes "cmp_exact f" "vf_lo f = Some b \<or> vf_hi f = Some b"
  shows "vf_cmp f v b < 0 \<longleftrightarrow> key_less v b" "vf_cmp f v b = 0 \<longleftrightarrow> v = b"
    "vf_cmp f v b > 0 \<longleftrightarrow> key_less b v"
proof -
  have "sgn (vf_cmp f v b) = sgn (compareKeys v b)"
    using assms unfolding cmp_exact_def by blast
  note c = sgn_eq_cases [OF this]
  show "vf_cmp f v b < 0 \<longleftrightarrow> key_less v b" unfolding c(1) by simp
  show "vf_cmp f v b = 0 \<longleftrightarrow> v = b" unfolding c(2) by simp
  show "vf_cmp f v b > 0 \<longleftrightarrow> key_less b v" unfolding c(3) by simp
qed

lemma key_le_or_less: "key_le a b \<longleftrightarrow> key_less a b \<or> a = b"
  by (rule key_le_iff)

text \<open>The check of a value against its lower bound: it passes, or the value is below.\<close>

lemma checkLow_None:
  "cmp_exact f \<Longrightarrow> checkLow k reverse before f pos v = None \<longleftrightarrow> inLow f v"
  by (auto simp: checkLow_def inLow_def Let_def cmp_order key_le_iff key_not_less key_less_asym
      split: option.splits dest: key_less_asym)

lemma checkHigh_None:
  "cmp_exact f \<Longrightarrow> checkHigh k reverse before f pos v = None \<longleftrightarrow> inHigh f v"
  by (auto simp: checkHigh_def inHigh_def Let_def cmp_order key_le_iff key_not_less key_less_asym
      split: option.splits dest: key_less_asym)

lemma low_cross:
  assumes "inLow f v'" "\<not> inLow f v" shows "key_less v v'"
  using assms
  by (auto simp: inLow_def key_not_less key_not_le split: option.splits if_splits
      intro: key_less_le_trans key_le_less_trans)

lemma high_cross:
  assumes "inHigh f v'" "\<not> inHigh f v" shows "key_less v' v"
  using assms
  by (auto simp: inHigh_def key_not_less key_not_le split: option.splits if_splits
      intro: key_less_le_trans key_le_less_trans)

lemma single_value:
  "single_ok f \<Longrightarrow> vf_single f \<Longrightarrow> inLow f v \<Longrightarrow> inHigh f v \<Longrightarrow> inLow f v' \<Longrightarrow> inHigh f v' \<Longrightarrow> v = v'"
  by (auto simp: single_ok_def inLow_def inHigh_def dest: key_le_antisym key_less_asym
      key_le_less_trans key_less_le_trans split: if_splits)

section \<open>What a placement promises\<close>

text \<open>\<open>ahead reverse p k\<close>: walking on from here, the placement \<open>p\<close> does not pass the key \<open>k\<close>.\<close>

fun ahead :: "bool \<Rightarrow> placement \<Rightarrow> jsstr \<Rightarrow> bool" where
  "ahead reverse Done k = False"
| "ahead reverse (Seek t strict) k =
     ((if reverse then key_less k t else key_less t k) \<or> (k = t \<and> \<not> strict))"
| "ahead reverse Match k = True"
| "ahead reverse Step k = True"

text \<open>The state of the loop over the fields: \<open>q\<close> is the text placed so far.\<close>

definition passed ::
  "bool \<Rightarrow> jsstr \<Rightarrow> jsstr \<Rightarrow> (field \<times> nat) list \<Rightarrow> field list \<Rightarrow> jsstr \<Rightarrow> bool" where
  "passed reverse k q before fs k' =
     ((prefix q k' \<and> matchRest fs (drop (length q) k') \<and> rest_ok fs (drop (length q) k')) \<or>
      (\<not> prefix q k' \<and> ahead reverse (skipBack k reverse before) k'))"

lemma drop_prefix: "prefix q k \<Longrightarrow> k = q @ drop (length q) k"
  by (auto simp: prefix_def)

lemma take_prefix: "prefix q k \<Longrightarrow> take (length q) k = q"
  by (auto simp: prefix_def)

lemma passed_skip:
  assumes "passed reverse k q before fs k'"
    and "prefix q k' \<Longrightarrow> matchRest fs (drop (length q) k') \<Longrightarrow> rest_ok fs (drop (length q) k') \<Longrightarrow> False"
  shows "ahead reverse (skipBack k reverse before) k'"
  using assms by (auto simp: passed_def)

lemma outside_above:
  assumes "prefix q k" "key_less k k'" "passed False k q before fs k'"
    and "prefix q k' \<Longrightarrow> matchRest fs (drop (length q) k') \<Longrightarrow> rest_ok fs (drop (length q) k') \<Longrightarrow>
      key_less (q @ t) k' \<or> (k' = q @ t \<and> \<not> strict)"
  shows "ahead False (Seek (q @ t) strict) k'"
  using assms not_prefix_above [of q k k' t] by (auto simp: passed_def)

lemma outside_below:
  assumes "prefix q k" "key_less k' k" "passed True k q before fs k'"
    and "prefix q k' \<Longrightarrow> matchRest fs (drop (length q) k') \<Longrightarrow> rest_ok fs (drop (length q) k') \<Longrightarrow>
      key_less k' (q @ t) \<or> (k' = q @ t \<and> \<not> strict)"
  shows "ahead True (Seek (q @ t) strict) k'"
  using assms not_prefix_below [of q k k' t] by (auto simp: passed_def)

section \<open>One step of the loop over the fields\<close>

text \<open>The text of a value field: up to its separator, the whole rest when there is none.\<close>

lemma index_of_prefix:
  assumes "prefix q k"
  shows "index_of k s (length q) = map_option (\<lambda>i. length q + i) (index_unit s (drop (length q) k))"
  by (simp add: index_of_def)

lemma sep_split:
  assumes "index_unit s r = Some i"
  obtains v w where "r = v @ s # w" "s \<notin> set v" "i = length v" "take i r = v" "drop (Suc i) r = w"
proof
  show "r = take i r @ s # drop (Suc i) r" "s \<notin> set (take i r)"
    using index_unit_split [OF assms] by auto
  show "i = length (take i r)" using assms by (simp add: index_unit_Some)
qed auto

lemma same_sep:
  assumes "v @ s # w = v' @ s # w'" "s \<notin> set v" "s \<notin> set v'"
  shows "v = v'" "w = w'"
proof -
  have "index_unit s (v @ s # w) = Some (length v)" "index_unit s (v' @ s # w') = Some (length v')"
    using assms(2,3) by (auto intro: index_unit_append)
  with assms(1) have "length v = length v'" by simp
  with assms(1) show "v = v'" "w = w'" by auto
qed

lemma passed_literal:
  assumes "passed reverse k q before (LiteralField t w # fs) k'"
  shows "passed reverse k (q @ t) ((LiteralField t w, e) # before) fs k'"
  using assms
proof (cases "prefix q k'")
  case True
  with assms have "prefix t (drop (length q) k')"
    "matchRest fs (drop (length (q @ t)) k')" "rest_ok fs (drop (length (q @ t)) k')"
    by (auto simp: passed_def add.commute)
  with True show ?thesis
    unfolding passed_def by (metis drop_prefix prefix_def same_prefix_prefix)
next
  case False
  then have "\<not> prefix (q @ t) k'" by (auto dest: append_prefixD)
  with assms False show ?thesis by (simp add: passed_def)
qed

text \<open>A value field that admits the value at \<open>q\<close>, walking forward.\<close>

lemma passed_value_forward:
  assumes k: "k = q @ v @ s # w" "s \<notin> set v" "units_above s v"
    and f: "vf_sep f = Some s" "sep_ok s" "single_ok f" "inLow f v" "inHigh f v"
    and k': "passed False k q before (ValueField f # fs) k'" "key_less k k'"
  shows "passed False k (q @ v @ [s]) ((ValueField f, length (q @ v)) # before) fs k'"
proof (cases "prefix q k'")
  case True
  then obtain r where r: "k' = q @ r" by (auto simp: prefix_def)
  with True k' f(1) obtain i where i: "index_unit s r = Some i"
      "inLow f (take i r)" "inHigh f (take i r)" "matchRest fs (drop (Suc i) r)"
      "units_above s (take i r)" "rest_ok fs (drop (Suc i) r)"
    by (auto simp: passed_def split: option.splits)
  then obtain v' w' where v': "r = v' @ s # w'" "s \<notin> set v'" "take i r = v'" "drop (Suc i) r = w'"
    by (auto elim: sep_split)
  show ?thesis
  proof (cases "v' = v")
    case True
    then show ?thesis using i v' r by (simp add: passed_def)
  next
    case False
    then have "\<not> prefix (q @ v @ [s]) k'"
      using r v' k(2) same_sep [of v' s w' v] by (auto simp: prefix_def)
    moreover have "\<not> vf_single f"
      using False i v' f single_value [of f v v'] by auto
    moreover have "key_le (v @ [above_sep s]) r"
    proof -
      have "\<not> key_less v' v"
      proof
        assume "key_less v' v"
        then have "key_less (v' @ s # w') (v @ s # w)" using k(3) by (rule sep_below)
        then show False using k'(2) k(1) r v'(1) key_less_asym by auto
      qed
      then have "key_less v v'" using False key_less_linear by blast
      then show ?thesis using i v' f(2) above_below by auto
    qed
    ultimately show ?thesis
      using r k f(1) by (auto simp: passed_def slice_to_def key_le_iff)
  qed
next
  case False
  then have np: "\<not> prefix (q @ v @ [s]) k'" by (auto dest: append_prefixD)
  from False k' have ah: "ahead False (skipBack k False before) k'" by (simp add: passed_def)
  have "prefix q k" using k(1) by simp
  then have "key_less (q @ v @ [above_sep s]) k'"
    using not_prefix_above [of q k k' "v @ [above_sep s]"] k'(2) False by simp
  with np ah show ?thesis using k f(1) by (auto simp: passed_def slice_to_def)
qed

lemma passed_value_back:
  assumes k: "k = q @ v @ s # w" "s \<notin> set v" "units_above s v"
    and f: "vf_sep f = Some s" "sep_ok s" "single_ok f" "inLow f v" "inHigh f v"
    and k': "passed True k q before (ValueField f # fs) k'" "key_less k' k"
  shows "passed True k (q @ v @ [s]) ((ValueField f, length (q @ v)) # before) fs k'"
proof (cases "prefix q k'")
  case True
  then obtain r where r: "k' = q @ r" by (auto simp: prefix_def)
  with True k' f(1) obtain i where i: "index_unit s r = Some i"
      "inLow f (take i r)" "inHigh f (take i r)" "matchRest fs (drop (Suc i) r)"
      "units_above s (take i r)" "rest_ok fs (drop (Suc i) r)"
    by (auto simp: passed_def split: option.splits)
  then obtain v' w' where v': "r = v' @ s # w'" "s \<notin> set v'" "take i r = v'" "drop (Suc i) r = w'"
    by (auto elim: sep_split)
  show ?thesis
  proof (cases "v' = v")
    case True
    then show ?thesis using i v' r by (simp add: passed_def)
  next
    case False
    then have "\<not> prefix (q @ v @ [s]) k'"
      using r v' k(2) same_sep [of v' s w' v] by (auto simp: prefix_def)
    moreover have "\<not> vf_single f"
      using False i v' f single_value [of f v v'] by auto
    moreover have "key_less r (v @ [s])"
    proof -
      have "\<not> key_less v v'"
      proof
        assume "key_less v v'"
        then have "key_less (v @ s # w) (v' @ s # w')" using i v' sep_below by metis
        then show False using k'(2) k(1) r v'(1) key_less_asym by auto
      qed
      then have "key_less v' v" using False key_less_linear by blast
      then show ?thesis using k(3) v'(1) sep_below by metis
    qed
    ultimately show ?thesis
      using r k f(1) by (auto simp: passed_def slice_to_def)
  qed
next
  case False
  then have np: "\<not> prefix (q @ v @ [s]) k'" by (auto dest: append_prefixD)
  from False k' have ah: "ahead True (skipBack k True before) k'" by (simp add: passed_def)
  have "prefix q k" using k(1) by simp
  then have "key_less k' (q @ v @ [s])"
    using not_prefix_below [of q k k' "v @ [s]"] k'(2) False by simp
  with np ah show ?thesis using k f(1) by (auto simp: passed_def slice_to_def)
qed

end
