(* ===== verification/KeySkip.thy ===== *)
theory KeySkip
  imports KeyPlace
begin

text \<open>
  A skip scan never passes a matching key: \<open>place_forward\<close> and \<open>place_back\<close>, by induction over the
  fields of the pattern.
\<close>

section \<open>Literals\<close>

lemma unitCompare_order:
  assumes "\<not> high_unit t"
  shows "unitCompare r t < 0 \<longleftrightarrow> key_less r t"
  using sgn_eq_cases(1) [OF unitCompare_low [of r t]] assms by simp

lemma prefixEnd_snoc:
  assumes "sep_ok c"
  shows "prefixEnd (n @ [c]) = Some (n @ [above_sep c])"
proof -
  have c: "uint c < 0xd7ff" using assms by (simp add: sep_ok_def)
  have "\<not> ends_with (n @ [c]) max_point"
  proof
    assume "ends_with (n @ [c]) max_point"
    then obtain m where "n @ [c] = (m @ [0xdbff]) @ [0xdfff]"
      by (auto simp: ends_with_append max_point_def)
    then have "c = 0xdfff" by (simp only: append1_eq_conv)
    then show False using c by simp
  qed
  then have st: "strip_max (n @ [c]) = n @ [c]" by (subst strip_max.simps) simp
  have "\<not> codePointAt (n @ [c]) (length (n @ [c]) - 2) > 0xffff" if "length (n @ [c]) \<ge> 2"
  proof -
    have "Suc (length n - 1) = length n" using that by simp
    then have "\<not> trail_unit ((n @ [c]) ! Suc (length n - 1))"
      using c by (simp add: trail_unit_def)
    then show ?thesis
      using uint_bound16(2) [of "(n @ [c]) ! (length n - 1)"] by (simp add: codePointAt_def)
  qed
  moreover have "codePointAt (n @ [c]) (length (n @ [c]) - 1) = uint c"
    by (simp add: codePointAt_def)
  moreover have "fromCodePoint (uint c + 1) = [above_sep c]"
    using c by (simp add: fromCodePoint_def above_sep_def)
  ultimately show ?thesis
    using c by (auto simp: prefixEnd_def st Let_def slice_to_def)
qed

lemma literal_not_below:
  assumes "\<not> key_less r t" "\<not> (prefix t r \<and> (w \<longrightarrow> r = t))" "prefix t r'" "w \<longrightarrow> r' = t"
  shows "key_less r' r"
proof (cases "prefix t r")
  case True
  with assms(2) have w: "w" "r \<noteq> t" by auto
  with assms(4) have "r' = t" by simp
  then show ?thesis using w(2) assms(1) key_less_linear by blast
next
  case False
  then have "r \<noteq> t" by auto
  with assms(1) have "key_less t r" using key_less_linear by blast
  then show ?thesis
  proof (cases rule: key_less_cases)
    case (prefix c u)
    then show ?thesis using False by simp
  next
    case (differ p x y a' b')
    then show ?thesis using assms(3) by (auto simp: prefix_def)
  qed
qed

lemma below_literal:
  "key_less r t \<Longrightarrow> prefix t r' \<Longrightarrow> key_less r r'"
  using key_less_extend by (auto simp: prefix_def)

lemma starts_at_drop:
  "prefix q k \<Longrightarrow> starts_at k t (length q) \<and> (\<not> w \<or> length k = length q + length t) \<longleftrightarrow>
    prefix t (drop (length q) k) \<and> (w \<longrightarrow> drop (length q) k = t)"
  by (auto simp: starts_at_prefix prefix_def)

text \<open>A value field at \<open>q\<close>: its text, and what the loop does with it.\<close>

lemma place_value:
  assumes k: "k = q @ r" and ok: "rest_ok (ValueField f # fs) r"
  obtains v short e where "prefix v r" "\<And>s. vf_sep f = Some s \<Longrightarrow> units_above s v"
    "\<And>reverse before. placeFields k reverse before (ValueField f # fs) (length q) =
      (case checkLow k reverse before f (length q) v of Some p \<Rightarrow> p | None \<Rightarrow>
        (case checkHigh k reverse before f (length q) v of Some p \<Rightarrow> p | None \<Rightarrow>
          if short then Step else placeFields k reverse ((ValueField f, e) # before) fs
            (e + (case vf_sep f of None \<Rightarrow> 0 | Some _ \<Rightarrow> 1))))"
    "\<And>s. vf_sep f = Some s \<Longrightarrow> \<not> short \<Longrightarrow>
      \<exists>w. r = v @ s # w \<and> s \<notin> set v \<and> e = length (q @ v) \<and> rest_ok fs w"
    "vf_sep f = None \<Longrightarrow> \<not> short \<and> v = r" "short \<Longrightarrow> v = r"
proof -
  define v where "v = (case vf_sep f of None \<Rightarrow> r
    | Some s \<Rightarrow> (case index_unit s r of None \<Rightarrow> r | Some i \<Rightarrow> take i r))"
  define short where "short = (\<exists>s. vf_sep f = Some s \<and> index_unit s r = None)"
  define e where "e = length (q @ v)"
  have ve: "slice_to k (length q) (length q + i) = take i r" for i
    unfolding k slice_to_def by simp
  show ?thesis
  proof (rule that [of v short e])
    show "prefix v r" unfolding v_def by (auto split: option.splits intro: take_is_prefix)
    show "\<And>s. vf_sep f = Some s \<Longrightarrow> units_above s v"
      using ok by (auto simp: v_def split: option.splits)
    show "placeFields k reverse before (ValueField f # fs) (length q) =
      (case checkLow k reverse before f (length q) v of Some p \<Rightarrow> p | None \<Rightarrow>
        (case checkHigh k reverse before f (length q) v of Some p \<Rightarrow> p | None \<Rightarrow>
          if short then Step else placeFields k reverse ((ValueField f, e) # before) fs
            (e + (case vf_sep f of None \<Rightarrow> 0 | Some _ \<Rightarrow> 1))))" for reverse before
    proof (cases "vf_sep f")
      case None
      then show ?thesis
        using ve [of "length r"]
        by (simp add: v_def short_def e_def k Let_def split: option.split)
    next
      case (Some s)
      show ?thesis
      proof (cases "index_unit s r")
        case None
        then show ?thesis
          using Some ve [of "length r"]
          by (simp add: v_def short_def e_def k Let_def index_of_def split: option.split)
      next
        case i: (Some i)
        then have "i < length r" by (simp add: index_unit_Some)
        then have "length v = i" using Some i by (simp add: v_def)
        then show ?thesis
          using Some i ve [of i]
          by (simp add: v_def short_def e_def k Let_def index_of_def split: option.split)
      qed
    qed
    show "\<exists>w. r = v @ s # w \<and> s \<notin> set v \<and> e = length (q @ v) \<and> rest_ok fs w"
      if sep: "vf_sep f = Some s" and ns: "\<not> short" for s
    proof -
      obtain i where i: "index_unit s r = Some i"
        using sep ns by (cases "index_unit s r") (auto simp: short_def)
      have "v = take i r" using sep i by (simp add: v_def)
      then have "r = v @ s # drop (Suc i) r" "s \<notin> set v" using index_unit_split [OF i] by simp_all
      then show ?thesis using ok sep i by (auto simp: e_def)
    qed
    show "vf_sep f = None \<Longrightarrow> \<not> short \<and> v = r" by (simp add: short_def v_def)
    show "short \<Longrightarrow> v = r" by (auto simp: short_def v_def)
  qed
qed

text \<open>A key that matches from \<open>q\<close> on holds a value inside the bounds there.\<close>

definition valueHeld :: "value_field \<Rightarrow> jsstr \<Rightarrow> jsstr \<Rightarrow> bool" where
  "valueHeld f v x = (inLow f v \<and> inHigh f v \<and>
     (case vf_sep f of None \<Rightarrow> x = [] | Some s \<Rightarrow> units_above s v \<and> (\<exists>y. x = s # y)))"

lemma valueHeldD:
  assumes "valueHeld f v x"
  shows "inLow f v" "inHigh f v" "vf_sep f = None \<Longrightarrow> x = []"
    "vf_sep f = Some s \<Longrightarrow> units_above s v" "vf_sep f = Some s \<Longrightarrow> \<exists>y. x = s # y"
  using assms by (auto simp: valueHeld_def)

lemma match_value:
  assumes "matchRest (ValueField f # fs) r'" "rest_ok (ValueField f # fs) r'"
  shows "\<exists>v' x. r' = v' @ x \<and> valueHeld f v' x"
proof (cases "vf_sep f")
  case None
  then have "r' = r' @ [] \<and> valueHeld f r' []" using assms by (simp add: valueHeld_def)
  then show ?thesis by (intro exI)
next
  case (Some s)
  show ?thesis
  proof (cases "index_unit s r'")
    case None
    then show ?thesis using assms(1) Some by simp
  next
    case i: (Some i)
    have "r' = take i r' @ s # drop (Suc i) r' \<and> valueHeld f (take i r') (s # drop (Suc i) r')"
      using assms Some i index_unit_split(1) [OF i] by (simp add: valueHeld_def)
    then show ?thesis by (intro exI)
  qed
qed

lemma match_at:
  assumes "prefix q k'" "matchRest (ValueField f # fs) (drop (length q) k')"
    "rest_ok (ValueField f # fs) (drop (length q) k')"
  shows "\<exists>v' x. k' = q @ v' @ x \<and> valueHeld f v' x"
proof -
  obtain r' where r': "k' = q @ r'" using assms(1) by (auto simp: prefix_def)
  then have "matchRest (ValueField f # fs) r'" "rest_ok (ValueField f # fs) r'"
    using assms(2,3) by simp_all
  from match_value [OF this] obtain v' x where "r' = v' @ x" "valueHeld f v' x" by (elim exE conjE)
  then have "k' = q @ v' @ x \<and> valueHeld f v' x" using r' by simp
  then show ?thesis by (intro exI)
qed

lemma low_forward:
  assumes k: "k = q @ r" and f: "cmp_exact f" "\<And>s. vf_sep f = Some s \<Longrightarrow> sep_ok s"
    and p: "checkLow k False before f (length q) v = Some p"
    and k': "passed False k q before (ValueField f # fs) k'" "key_less k k'"
  shows "ahead False p k'"
proof -
  obtain l where l: "vf_lo f = Some l" using p by (auto simp: checkLow_def split: option.splits)
  have qk: "prefix q k" using k by simp
  show ?thesis
  proof (cases "vf_loOpen f")
    case False
    then have "p = Seek (q @ l) False"
      using p l k by (auto simp: checkLow_def Let_def slice_to_def split: if_splits)
    moreover have "ahead False (Seek (q @ l) False) k'"
    proof (rule outside_above [OF qk k'(2,1)])
      assume "prefix q k'" "matchRest (ValueField f # fs) (drop (length q) k')"
        "rest_ok (ValueField f # fs) (drop (length q) k')"
      from match_at [OF this] obtain v' x where vx: "k' = q @ v' @ x" "valueHeld f v' x"
        by (elim exE conjE)
      have "key_le l v'" using valueHeldD(1) [OF vx(2)] False l by (simp add: inLow_def)
      with vx(1) have "key_le (q @ l) k'" by (simp add: key_le_extend)
      then show "key_less (q @ l) k' \<or> k' = q @ l \<and> \<not> False" by (auto simp: key_le_iff)
    qed
    ultimately show ?thesis by simp
  next
    case True
    show ?thesis
    proof (cases "vf_sep f")
      case None
      then have "p = Seek (q @ l) True"
        using p l k True by (auto simp: checkLow_def Let_def slice_to_def split: if_splits)
      moreover have "ahead False (Seek (q @ l) True) k'"
      proof (rule outside_above [OF qk k'(2,1)])
        assume "prefix q k'" "matchRest (ValueField f # fs) (drop (length q) k')"
          "rest_ok (ValueField f # fs) (drop (length q) k')"
        from match_at [OF this] obtain v' x where vx: "k' = q @ v' @ x" "valueHeld f v' x"
          by (elim exE conjE)
        have "key_less l v'" "x = []"
          using valueHeldD(1,3) [OF vx(2)] True l None by (simp_all add: inLow_def)
        with vx(1) show "key_less (q @ l) k' \<or> k' = q @ l \<and> \<not> True" by simp
      qed
      ultimately show ?thesis by simp
    next
      case (Some s)
      then have "p = Seek (q @ l @ [above_sep s]) False"
        using p l k True by (auto simp: checkLow_def Let_def slice_to_def split: if_splits)
      moreover have "ahead False (Seek (q @ l @ [above_sep s]) False) k'"
      proof (rule outside_above [OF qk k'(2,1)])
        assume "prefix q k'" "matchRest (ValueField f # fs) (drop (length q) k')"
          "rest_ok (ValueField f # fs) (drop (length q) k')"
        from match_at [OF this] obtain v' x where vx: "k' = q @ v' @ x" "valueHeld f v' x"
          by (elim exE conjE)
        have v': "key_less l v'" "units_above s v'"
          using valueHeldD(1,4) [OF vx(2)] True l Some by (simp_all add: inLow_def)
        have "key_le (q @ l @ [above_sep s]) k'"
          using above_below [OF v' f(2) [OF Some]] vx(1) by simp
        then show "key_less (q @ l @ [above_sep s]) k' \<or> k' = q @ l @ [above_sep s] \<and> \<not> False"
          by (auto simp: key_le_iff)
      qed
      ultimately show ?thesis by simp
    qed
  qed
qed

lemma high_forward:
  assumes k: "k = q @ r" "prefix v r" "\<And>s. vf_sep f = Some s \<Longrightarrow> units_above s v"
    and v: "vf_sep f = None \<Longrightarrow> v = r" "\<not> inHigh f v"
    and p: "checkHigh k False before f (length q) v = Some p"
    and k': "passed False k q before (ValueField f # fs) k'" "key_less k k'"
  shows "ahead False p k'"
proof -
  have "p = skipBack k False before"
    using p by (auto simp: checkHigh_def Let_def split: option.splits if_splits)
  moreover have "ahead False (skipBack k False before) k'"
  proof (rule passed_skip [OF k'(1)])
    assume a: "prefix q k'" "matchRest (ValueField f # fs) (drop (length q) k')"
      "rest_ok (ValueField f # fs) (drop (length q) k')"
    from match_at [OF a] obtain v' x where kk: "k' = q @ v' @ x" and hv: "valueHeld f v' x"
      by (elim exE conjE)
    note m = valueHeldD(2,5,3) [OF hv]
    have less: "key_less v' v" using high_cross [OF m(1) v(2)] .
    obtain u where u: "r = v @ u" using k(2) by (auto simp: prefix_def)
    have "key_less (v' @ x) r"
    proof (cases "vf_sep f")
      case None
      then show ?thesis using m(3) less v(1) by simp
    next
      case (Some s)
      obtain y where "x = s # y" using m(2) [OF Some] by (elim exE)
      then show ?thesis using sep_below [OF less k(3) [OF Some]] u by simp
    qed
    then show False using k' kk k(1) key_less_asym by auto
  qed
  ultimately show ?thesis by simp
qed

lemma low_back:
  assumes k: "k = q @ r" "short \<or> (\<exists>s w. vf_sep f = Some s \<and> r = v @ s # w) \<or> vf_sep f = None"
    and v: "vf_sep f = None \<or> short \<Longrightarrow> v = r" "\<not> inLow f v"
    and p: "checkLow k True before f (length q) v = Some p"
    and k': "passed True k q before (ValueField f # fs) k'" "key_less k' k"
  shows "ahead True p k'"
proof -
  have "p = skipBack k True before"
    using p by (auto simp: checkLow_def Let_def split: option.splits if_splits)
  moreover have "ahead True (skipBack k True before) k'"
  proof (rule passed_skip [OF k'(1)])
    assume a: "prefix q k'" "matchRest (ValueField f # fs) (drop (length q) k')"
      "rest_ok (ValueField f # fs) (drop (length q) k')"
    from match_at [OF a] obtain v' x where kk: "k' = q @ v' @ x" and hv: "valueHeld f v' x"
      by (elim exE conjE)
    note m = valueHeldD(1,4) [OF hv]
    have less: "key_less v v'" using low_cross [OF m(1) v(2)] .
    have "key_less r (v' @ x)"
      using k(2)
    proof (elim disjE exE conjE)
      fix s w assume "vf_sep f = Some s" "r = v @ s # w"
      then show ?thesis using sep_below [OF less m(2)] by simp
    qed (use v(1) less key_less_extend in auto)
    then show False using k' kk k(1) key_less_asym by auto
  qed
  ultimately show ?thesis by simp
qed

lemma high_back:
  assumes k: "k = q @ r" and b: "\<And>s h. vf_sep f = Some s \<Longrightarrow> vf_hi f = Some h \<Longrightarrow> units_above s h"
    and f: "\<And>s. vf_sep f = Some s \<Longrightarrow> sep_ok s"
    and p: "checkHigh k True before f (length q) v = Some p"
    and k': "passed True k q before (ValueField f # fs) k'" "key_less k' k"
  shows "ahead True p k'"
proof -
  obtain h where h: "vf_hi f = Some h" using p by (auto simp: checkHigh_def split: option.splits)
  have qk: "prefix q k" using k by simp
  define t where "t = (if vf_hiOpen f then h else case vf_sep f of None \<Rightarrow> h | Some s \<Rightarrow> h @ [above_sep s])"
  define st where "st = (vf_hiOpen f \<or> vf_sep f \<noteq> None)"
  have "p = Seek (q @ t) st"
    using p h k
    by (auto simp: checkHigh_def Let_def slice_to_def t_def st_def split: if_splits option.splits)
  moreover have "ahead True (Seek (q @ t) st) k'"
  proof (rule outside_below [OF qk k'(2,1)])
    assume "prefix q k'" "matchRest (ValueField f # fs) (drop (length q) k')"
      "rest_ok (ValueField f # fs) (drop (length q) k')"
    from match_at [OF this] obtain v' x where v': "k' = q @ v' @ x" "valueHeld f v' x"
      by (elim exE conjE)
    note hv = valueHeldD [OF v'(2)]
    show "key_less k' (q @ t) \<or> k' = q @ t \<and> \<not> st"
    proof (cases "vf_sep f")
      case None
      then have "x = []" by (rule hv(3))
      then show ?thesis
        using v'(1) hv(2) h None by (auto simp: inHigh_def t_def st_def key_le_iff split: if_splits)
    next
      case (Some s)
      then obtain y where x: "x = s # y" using hv(5) [OF Some] by (elim exE)
      have ua: "units_above s h" by (rule b [OF Some h])
      have below: "key_less (v' @ x) (h @ z)" if "key_less v' h" for z
        using sep_below [OF that ua] x by simp
      have "urank s < urank (above_sep s)" using urank_above [OF f [OF Some]] by simp
      then have "key_less (h @ x) (h @ [above_sep s])" using x by simp
      then have "key_less (v' @ x) t"
        using hv(2) h Some below [of "[]"] below [of "[above_sep s]"]
        by (auto simp: inHigh_def t_def key_le_iff split: if_splits)
      then show ?thesis using v'(1) by simp
    qed
  qed
  ultimately show ?thesis by simp
qed

section \<open>A placement never passes a matching key\<close>

lemma literal_passes:
  assumes "k = q @ r" "prefix t r \<and> (w \<longrightarrow> r = t)"
  shows "placeFields k reverse before (LiteralField t w # fs) (length q) =
    placeFields k reverse ((LiteralField t w, 0) # before) fs (length (q @ t))"
  using assms starts_at_drop [of q k t w] by simp

lemma literal_fails:
  assumes "k = q @ r" "\<not> (prefix t r \<and> (w \<longrightarrow> r = t))" "\<not> high_unit t"
    and "\<not> w \<longrightarrow> prefixEnd t = Some t'"
  shows "placeFields k reverse before (LiteralField t w # fs) (length q) =
    (if key_less r t then (if reverse then skipBack k reverse before else Seek (q @ t) False)
     else if \<not> reverse then skipBack k reverse before
     else if w then Seek (q @ t) False
     else Seek (q @ t') True)"
proof -
  have "\<not> (starts_at k t (length q) \<and> (\<not> w \<or> length k = length q + length t))"
    using starts_at_drop [of q k t w] assms(1,2) by simp
  moreover have "slice_to k 0 (length q) = q" "slice_from k (length q) = r"
    using assms(1) by (simp_all add: slice_to_def slice_from_def)
  ultimately show ?thesis
    using assms(4) unitCompare_order [OF assms(3)] by (simp add: Let_def)
qed

lemma literal_end:
  assumes "fields_ok (LiteralField t w # fs)"
  shows "\<not> high_unit t"
    "\<not> w \<Longrightarrow> \<exists>n c. t = n @ [c] \<and> prefixEnd t = Some (n @ [above_sep c]) \<and> urank c < urank (above_sep c)"
  using assms prefixEnd_snoc urank_above by fastforce+

declare placeFields.simps(2,3) [simp del]

lemma place_forward:
  assumes "fields_ok fs" "prefix q k" "rest_ok fs (drop (length q) k)"
    and "passed False k q before fs k'" "key_less k k'"
  shows "ahead False (placeFields k False before fs (length q)) k'"
  using assms
proof (induction fs arbitrary: q before)
  case Nil
  then show ?case by simp
next
  case (Cons fd fs)
  obtain r where r: "k = q @ r" using Cons.prems(2) by (auto simp: prefix_def)
  show ?case
  proof (cases fd)
    case [simp]: (LiteralField t w)
    note t = literal_end [OF Cons.prems(1) [unfolded LiteralField]]
    show ?thesis
    proof (cases "prefix t r \<and> (w \<longrightarrow> r = t)")
      case True
      have "ahead False (placeFields k False ((LiteralField t w, 0) # before) fs (length (q @ t))) k'"
      proof (rule Cons.IH)
        show "prefix (q @ t) k" using True r by auto
        show "rest_ok fs (drop (length (q @ t)) k)" using Cons.prems(3) True r by simp
        show "passed False k (q @ t) ((LiteralField t w, 0) # before) fs k'"
          using passed_literal Cons.prems(4) by simp
      qed (use Cons.prems in simp_all)
      then show ?thesis using literal_passes [OF r True] by simp
    next
      case False
      obtain t' where "\<not> w \<longrightarrow> prefixEnd t = Some t'" using t(2) by blast
      note place = literal_fails [OF r False t(1) this]
      show ?thesis
      proof (cases "key_less r t")
        case True
        have "ahead False (Seek (q @ t) False) k'"
          by (rule outside_above [OF Cons.prems(2,5,4)]) (auto simp: prefix_def)
        then show ?thesis using True by (simp add: place)
      next
        case below: False
        have "ahead False (skipBack k False before) k'"
        proof (rule passed_skip [OF Cons.prems(4)])
          assume "prefix q k'" "matchRest (fd # fs) (drop (length q) k')"
          then obtain r' where "k' = q @ r'" "prefix t r'" "w \<longrightarrow> r' = t"
            by (auto simp: prefix_def)
          then show False
            using literal_not_below [OF below False] Cons.prems(5) r key_less_asym by auto
        qed
        then show ?thesis using below by (simp add: place)
      qed
    qed
  next
    case [simp]: (ValueField f)
    have f: "cmp_exact f" "single_ok f" "fields_ok fs" "\<And>s. vf_sep f = Some s \<Longrightarrow> sep_ok s"
      "vf_sep f = None \<Longrightarrow> fs = []"
      using Cons.prems(1) by simp_all
    have "rest_ok (ValueField f # fs) r" using Cons.prems(3) r by simp
    from place_value [OF r this] obtain v short e where v:
      "prefix v r" "\<And>s. vf_sep f = Some s \<Longrightarrow> units_above s v"
      "\<And>s. vf_sep f = Some s \<Longrightarrow> \<not> short \<Longrightarrow>
        \<exists>w. r = v @ s # w \<and> s \<notin> set v \<and> e = length (q @ v) \<and> rest_ok fs w"
      "vf_sep f = None \<Longrightarrow> \<not> short \<and> v = r"
      and place: "placeFields k False before (ValueField f # fs) (length q) =
      (case checkLow k False before f (length q) v of Some p \<Rightarrow> p | None \<Rightarrow>
        (case checkHigh k False before f (length q) v of Some p \<Rightarrow> p | None \<Rightarrow>
          if short then Step else placeFields k False ((ValueField f, e) # before) fs
            (e + (case vf_sep f of None \<Rightarrow> 0 | Some _ \<Rightarrow> 1))))"
      by metis
    note k' = Cons.prems(4) [unfolded ValueField] Cons.prems(5)
    show ?thesis
    proof (cases "checkLow k False before f (length q) v")
      case (Some p)
      then show ?thesis using low_forward [OF r f(1,4) Some k'] by (simp add: place)
    next
      case low: None
      show ?thesis
      proof (cases "checkHigh k False before f (length q) v")
        case (Some p)
        then have "\<not> inHigh f v" using checkHigh_None [OF f(1)] by (metis option.distinct(1))
        then have "ahead False p k'"
          using high_forward [OF r v(1,2) _ _ Some k'] v(4) by blast
        then show ?thesis using low Some by (simp add: place)
      next
        case high: None
        have in': "inLow f v" "inHigh f v"
          using low high checkLow_None [OF f(1)] checkHigh_None [OF f(1)] by blast+
        show ?thesis
        proof (cases "short \<or> vf_sep f = None")
          case True
          then show ?thesis using low high f(5) by (auto simp: place)
        next
          case False
          then obtain s w where s: "vf_sep f = Some s" "r = v @ s # w" "s \<notin> set v"
              "e = length (q @ v)" "rest_ok fs w"
            using v(3) by blast
          have "ahead False (placeFields k False ((ValueField f, length (q @ v)) # before) fs
              (length (q @ v @ [s]))) k'"
          proof (rule Cons.IH [OF f(3)])
            show "prefix (q @ v @ [s]) k" "rest_ok fs (drop (length (q @ v @ [s])) k)"
              using r s by simp_all
            show "passed False k (q @ v @ [s]) ((ValueField f, length (q @ v)) # before) fs k'"
              using passed_value_forward [of k q v s w f before fs k'] r s v(2) f in' k' by blast
          qed (rule k'(2))
          then show ?thesis using low high False s by (simp add: place)
        qed
      qed
    qed
  qed
qed

text \<open>Walking in reverse, the upper bounds must hold only units their parameter may.\<close>

fun bounds_ok :: "field list \<Rightarrow> bool" where
  "bounds_ok [] = True"
| "bounds_ok (LiteralField t w # fs) = bounds_ok fs"
| "bounds_ok (ValueField f # fs) =
     ((case (vf_sep f, vf_hi f) of (Some s, Some h) \<Rightarrow> units_above s h | _ \<Rightarrow> True) \<and> bounds_ok fs)"

lemma place_back:
  assumes "fields_ok fs" "bounds_ok fs" "prefix q k" "rest_ok fs (drop (length q) k)"
    and "passed True k q before fs k'" "key_less k' k"
  shows "ahead True (placeFields k True before fs (length q)) k'"
  using assms
proof (induction fs arbitrary: q before)
  case Nil
  then show ?case by simp
next
  case (Cons fd fs)
  obtain r where r: "k = q @ r" using Cons.prems(3) by (auto simp: prefix_def)
  show ?case
  proof (cases fd)
    case [simp]: (LiteralField t w)
    note t = literal_end [OF Cons.prems(1) [unfolded LiteralField]]
    show ?thesis
    proof (cases "prefix t r \<and> (w \<longrightarrow> r = t)")
      case True
      have "ahead True (placeFields k True ((LiteralField t w, 0) # before) fs (length (q @ t))) k'"
      proof (rule Cons.IH)
        show "prefix (q @ t) k" using True r by auto
        show "rest_ok fs (drop (length (q @ t)) k)" using Cons.prems(4) True r by simp
        show "passed True k (q @ t) ((LiteralField t w, 0) # before) fs k'"
          using passed_literal Cons.prems(5) by simp
      qed (use Cons.prems in simp_all)
      then show ?thesis using literal_passes [OF r True] by simp
    next
      case False
      obtain t' where t': "\<not> w \<longrightarrow> prefixEnd t = Some t'"
          "\<not> w \<longrightarrow> (\<exists>n c. t = n @ [c] \<and> t' = n @ [above_sep c] \<and> urank c < urank (above_sep c))"
        using t(2) by blast
      note place = literal_fails [OF r False t(1) t'(1)]
      have out: "\<exists>r'. k' = q @ r' \<and> prefix t r' \<and> (w \<longrightarrow> r' = t)"
        if "prefix q k'" "matchRest (fd # fs) (drop (length q) k')"
        using that by (auto simp: prefix_def)
      show ?thesis
      proof (cases "key_less r t")
        case True
        have "ahead True (skipBack k True before) k'"
        proof (rule passed_skip [OF Cons.prems(5)])
          assume "prefix q k'" "matchRest (fd # fs) (drop (length q) k')"
          from out [OF this] obtain r' where "k' = q @ r'" "prefix t r'" by blast
          then show False
            using below_literal [OF True] Cons.prems(6) r key_less_asym by auto
        qed
        then show ?thesis using True by (simp add: place)
      next
        case above: False
        show ?thesis
        proof (cases w)
          case w: True
          have "ahead True (Seek (q @ t) False) k'"
            by (rule outside_below [OF Cons.prems(3,6,5)]) (use out w in auto)
          then show ?thesis unfolding LiteralField place using above w by simp
        next
          case w: False
          then obtain n c where n: "t = n @ [c]" "t' = n @ [above_sep c]" "urank c < urank (above_sep c)"
            using t'(2) by blast
          have "ahead True (Seek (q @ t') True) k'"
          proof (rule outside_below [OF Cons.prems(3,6,5)])
            assume "prefix q k'" "matchRest (fd # fs) (drop (length q) k')"
            from out [OF this] obtain r' where "k' = q @ r'" "prefix t r'" by blast
            then show "key_less k' (q @ t') \<or> k' = q @ t' \<and> \<not> True"
              using n by (auto simp: prefix_def)
          qed
          then show ?thesis unfolding LiteralField place using above w by simp
        qed
      qed
    qed
  next
    case [simp]: (ValueField f)
    have f: "cmp_exact f" "single_ok f" "fields_ok fs" "\<And>s. vf_sep f = Some s \<Longrightarrow> sep_ok s"
      "vf_sep f = None \<Longrightarrow> fs = []"
      using Cons.prems(1) by simp_all
    have b: "bounds_ok fs" "\<And>s h. vf_sep f = Some s \<Longrightarrow> vf_hi f = Some h \<Longrightarrow> units_above s h"
      using Cons.prems(2) by simp_all
    have "rest_ok (ValueField f # fs) r" using Cons.prems(4) r by simp
    from place_value [OF r this] obtain v short e where v:
      "prefix v r" "\<And>s. vf_sep f = Some s \<Longrightarrow> units_above s v"
      "\<And>s. vf_sep f = Some s \<Longrightarrow> \<not> short \<Longrightarrow>
        \<exists>w. r = v @ s # w \<and> s \<notin> set v \<and> e = length (q @ v) \<and> rest_ok fs w"
      "vf_sep f = None \<Longrightarrow> \<not> short \<and> v = r" "short \<Longrightarrow> v = r"
      and place: "placeFields k True before (ValueField f # fs) (length q) =
      (case checkLow k True before f (length q) v of Some p \<Rightarrow> p | None \<Rightarrow>
        (case checkHigh k True before f (length q) v of Some p \<Rightarrow> p | None \<Rightarrow>
          if short then Step else placeFields k True ((ValueField f, e) # before) fs
            (e + (case vf_sep f of None \<Rightarrow> 0 | Some _ \<Rightarrow> 1))))"
      by metis
    note k' = Cons.prems(5) [unfolded ValueField] Cons.prems(6)
    show ?thesis
    proof (cases "checkLow k True before f (length q) v")
      case (Some p)
      then have "\<not> inLow f v" using checkLow_None [OF f(1)] by (metis option.distinct(1))
      then have "ahead True p k'"
        using low_back [OF r, of short f v before p fs k'] Some k' v(3,4,5) by blast
      then show ?thesis using Some by (simp add: place)
    next
      case low: None
      show ?thesis
      proof (cases "checkHigh k True before f (length q) v")
        case (Some p)
        have "ahead True p k'" by (rule high_back [OF r b(2) f(4) Some k'])
        then show ?thesis using low Some by (simp add: place)
      next
        case high: None
        have in': "inLow f v" "inHigh f v"
          using low high checkLow_None [OF f(1)] checkHigh_None [OF f(1)] by blast+
        show ?thesis
        proof (cases "short \<or> vf_sep f = None")
          case True
          then show ?thesis using low high f(5) by (auto simp: place)
        next
          case False
          then obtain s w where s: "vf_sep f = Some s" "r = v @ s # w" "s \<notin> set v"
              "e = length (q @ v)" "rest_ok fs w"
            using v(3) by blast
          have "ahead True (placeFields k True ((ValueField f, length (q @ v)) # before) fs
              (length (q @ v @ [s]))) k'"
          proof (rule Cons.IH [OF f(3) b(1)])
            show "prefix (q @ v @ [s]) k" "rest_ok fs (drop (length (q @ v @ [s])) k)"
              using r s by simp_all
            show "passed True k (q @ v @ [s]) ((ValueField f, length (q @ v)) # before) fs k'"
              using passed_value_back [of k q v s w f before fs k'] r s v(2) f in' k' by blast
          qed (rule k'(2))
          then show ?thesis using low high False s by (simp add: place)
        qed
      qed
    qed
  qed
qed

end
