(* ===== verification/Utf8.thy ===== *)
theory Utf8
  imports KeyOrder
begin

text \<open>
  What the key order is for: the code points of a well-formed string and its UTF-8 bytes, which a
  store on disk compares. \<open>points\<close> and \<open>utf8\<close> are the encoding forms of the Unicode standard.
  The lemmas show that \<open>krank\<close> orders well-formed strings as their code points and as their
  UTF-8 do, that \<open>utf8Length\<close> measures the encoding, and that \<open>prefixEnd\<close> bounds a prefix.
\<close>

section \<open>Code points and UTF-8\<close>

fun well_formed :: "jsstr \<Rightarrow> bool" where
  "well_formed [] = True"
| "well_formed (u # s) =
     (if lead_unit u then (case s of [] \<Rightarrow> False | d # s' \<Rightarrow> trail_unit d \<and> well_formed s')
      else \<not> trail_unit u \<and> well_formed s)"

fun points :: "jsstr \<Rightarrow> int list" where
  "points [] = []"
| "points [u] = [uint u]"
| "points (u # d # s) =
     (if lead_unit u \<and> trail_unit d then pair_point u d # points s else uint u # points (d # s))"

definition utf8_point :: "int \<Rightarrow> int list" where
  "utf8_point c =
     (if c < 0x80 then [c]
      else if c < 0x800 then [0xc0 + c div 64, 0x80 + c mod 64]
      else if c < 0x10000 then [0xe0 + c div 4096, 0x80 + c div 64 mod 64, 0x80 + c mod 64]
      else [0xf0 + c div 262144, 0x80 + c div 4096 mod 64, 0x80 + c div 64 mod 64, 0x80 + c mod 64])"

definition utf8 :: "jsstr \<Rightarrow> int list" where
  "utf8 s = concat (map utf8_point (points s))"

definition plain_unit :: "unit16 \<Rightarrow> bool" where
  "plain_unit u = (\<not> lead_unit u \<and> \<not> trail_unit u)"

lemma unit_kinds:
  obtains "lead_unit u" "\<not> trail_unit u" | "trail_unit u" "\<not> lead_unit u"
        | "plain_unit u" "\<not> lead_unit u" "\<not> trail_unit u"
  by (auto simp: lead_unit_def trail_unit_def plain_unit_def)

lemma wf_plain [simp]: "plain_unit u \<Longrightarrow> well_formed (u # s) = well_formed s"
  by (simp add: plain_unit_def)

lemma wf_pair [simp]: "lead_unit u \<Longrightarrow> trail_unit d \<Longrightarrow> well_formed (u # d # s) = well_formed s"
  by simp

lemma wf_cases [consumes 1, case_names Nil plain pair]:
  assumes "well_formed s"
  obtains "s = []" | u s' where "s = u # s'" "plain_unit u" "well_formed s'"
        | u d s' where "s = u # d # s'" "lead_unit u" "trail_unit d" "well_formed s'"
  using assms by (cases s) (auto simp: plain_unit_def split: if_splits list.splits)

declare well_formed.simps(2) [simp del]

lemma wf_induct [consumes 1, case_names Nil plain pair]:
  assumes "well_formed s" "P []"
    and "\<And>u s. plain_unit u \<Longrightarrow> well_formed s \<Longrightarrow> P s \<Longrightarrow> P (u # s)"
    and "\<And>u d s. lead_unit u \<Longrightarrow> trail_unit d \<Longrightarrow> well_formed s \<Longrightarrow> P s \<Longrightarrow> P (u # d # s)"
  shows "P s"
  using assms(1)
proof (induction s rule: length_induct)
  case (1 s)
  from 1(2) show ?case
    by (cases s rule: wf_cases) (use 1(1) assms(2-4) in auto)
qed

lemma points_plain [simp]: "plain_unit u \<Longrightarrow> points (u # s) = uint u # points s"
  by (cases s) (auto simp: plain_unit_def)

lemma points_pair [simp]:
  "lead_unit u \<Longrightarrow> trail_unit d \<Longrightarrow> points (u # d # s) = pair_point u d # points s"
  by simp

lemma pair_bounds:
  assumes "lead_unit u" "trail_unit d"
  shows "0x10000 \<le> pair_point u d" "pair_point u d \<le> 0x10ffff"
  using assms by (auto simp: pair_point_def lead_unit_def trail_unit_def)

lemma plain_bounds:
  assumes "plain_unit u"
  shows "0 \<le> uint u" "uint u < 0x10000" "uint u < 0xd800 \<or> 0xe000 \<le> uint u"
  using assms uint_bound16 [of u] by (auto simp: plain_unit_def lead_unit_def trail_unit_def)

definition valid_point :: "int \<Rightarrow> bool" where
  "valid_point c = (0 \<le> c \<and> c \<le> 0x10ffff \<and> (c < 0xd800 \<or> 0xe000 \<le> c))"

lemma points_valid: "well_formed s \<Longrightarrow> c \<in> set (points s) \<Longrightarrow> valid_point c"
proof (induction s rule: wf_induct)
  case Nil
  then show ?case by simp
next
  case (plain u s)
  then show ?case using plain_bounds [of u] by (auto simp: valid_point_def)
next
  case (pair u d s)
  then show ?case using pair_bounds [of u d] by (auto simp: valid_point_def)
qed

section \<open>Code-point order\<close>

lemma plain_rank: "plain_unit u \<Longrightarrow> plain_unit v \<Longrightarrow> urank u < urank v \<longleftrightarrow> uint u < uint v"
  using plain_bounds [of u] plain_bounds [of v]
  by (cases u rule: urank_cases; cases v rule: urank_cases) auto

lemma lead_rank: "lead_unit u \<Longrightarrow> urank u = uint u + 0x2000"
  and trail_rank: "trail_unit u \<Longrightarrow> urank u = uint u + 0x2000"
  by (auto simp: lead_unit_def trail_unit_def urank_def lift_unit_def)

lemma plain_below_lead: "plain_unit u \<Longrightarrow> lead_unit v \<Longrightarrow> urank u < urank v"
  using plain_bounds [of u]
  by (cases u rule: urank_cases) (auto simp: lead_rank lead_unit_def)

lemma pair_less:
  assumes "lead_unit u" "trail_unit d" "lead_unit v" "trail_unit e"
  shows "pair_point u d < pair_point v e \<longleftrightarrow> uint u < uint v \<or> (u = v \<and> uint d < uint e)"
  using assms
  by (auto simp: pair_point_def lead_unit_def trail_unit_def word_uint_eq_iff)

lemma pair_eq:
  assumes "lead_unit u" "trail_unit d" "lead_unit v" "trail_unit e"
  shows "pair_point u d = pair_point v e \<longleftrightarrow> u = v \<and> d = e"
proof
  assume "pair_point u d = pair_point v e"
  then have "\<not> pair_point u d < pair_point v e" "\<not> pair_point v e < pair_point u d" by simp_all
  then have "uint u = uint v" "u = v \<Longrightarrow> uint d = uint e"
    using pair_less [of u d v e] pair_less [of v e u d] assms by auto
  then show "u = v \<and> d = e" by (simp add: word_uint_eq_iff)
qed simp

lemma points_less:
  assumes "well_formed a" "well_formed b"
  shows "key_less a b \<longleftrightarrow> points a < points b"
  using assms
proof (induction a arbitrary: b rule: wf_induct)
  case Nil
  then show ?case by (cases b rule: wf_cases) (auto simp: key_less_def)
next
  case (plain u s)
  from plain.prems show ?case
  proof (cases b rule: wf_cases)
    case Nil
    then show ?thesis using plain by (simp add: key_less_def)
  next
    case (plain v t)
    have "key_less s t \<longleftrightarrow> points s < points t" using plain.IH plain(3) by blast
    then show ?thesis
      using \<open>plain_unit u\<close> plain plain_rank [of u v] by (auto simp: key_less_def word_uint_eq_iff)
  next
    case (pair v e t)
    then show ?thesis
      using \<open>plain_unit u\<close> plain_below_lead [of u v] pair_bounds [of v e] plain_bounds [of u]
      by (auto simp: key_less_def)
  qed
next
  case (pair u d s)
  from pair.prems show ?case
  proof (cases b rule: wf_cases)
    case Nil
    then show ?thesis using pair by (simp add: key_less_def)
  next
    case (plain v t)
    then show ?thesis
      using \<open>lead_unit u\<close> \<open>trail_unit d\<close> plain_below_lead [of v u] pair_bounds [of u d]
        plain_bounds [of v]
      by (auto simp: key_less_def)
  next
    case (pair v e t)
    have IH: "key_less s t \<longleftrightarrow> points s < points t" using pair.IH pair(4) by blast
    show ?thesis
      using IH \<open>lead_unit u\<close> \<open>trail_unit d\<close> pair pair_less [of u d v e] pair_eq [of u d v e]
      by (auto simp: key_less_def lead_rank trail_rank word_uint_eq_iff)
  qed
qed

lemma points_inj: "well_formed a \<Longrightarrow> well_formed b \<Longrightarrow> points a = points b \<longleftrightarrow> a = b"
  using points_less [of a b] points_less [of b a] key_less_linear [of a b] by auto

lemma points_le:
  "well_formed a \<Longrightarrow> well_formed b \<Longrightarrow> key_le a b \<longleftrightarrow> points a \<le> points b"
  using points_less [of b a] by (auto simp: key_not_less [symmetric])

section \<open>UTF-8 order\<close>

lemma div_mod_less:
  fixes c d :: int
  assumes "c < d" "0 < m"
  shows "c div m < d div m \<or> (c div m = d div m \<and> c mod m < d mod m)"
proof -
  have "c div m \<le> d div m" using assms by (intro zdiv_mono1) auto
  moreover have "c mod m < d mod m" if "c div m = d div m"
  proof -
    have "c = m * (c div m) + c mod m" by simp
    moreover have "d = m * (c div m) + d mod m" unfolding that by simp
    ultimately show ?thesis using assms(1) by linarith
  qed
  ultimately show ?thesis by linarith
qed

lemma div_div_less:
  fixes c d :: int
  assumes "c div 64 < d div 64"
  shows "c div 4096 < d div 4096 \<or>
    (c div 4096 = d div 4096 \<and> c div 64 mod 64 < d div 64 mod 64)"
  using div_mod_less [OF assms, of 64] by (simp add: zdiv_zmult2_eq [symmetric])

lemma div_div_div_less:
  fixes c d :: int
  assumes "c div 4096 < d div 4096"
  shows "c div 262144 < d div 262144 \<or>
    (c div 262144 = d div 262144 \<and> c div 4096 mod 64 < d div 4096 mod 64)"
  using div_mod_less [OF assms, of 64] by (simp add: zdiv_zmult2_eq [symmetric])

lemma div_eq_64:
  fixes c d :: int
  assumes "c div 64 = d div 64"
  shows "c div 4096 = d div 4096" "c div 262144 = d div 262144"
proof -
  have "x div 4096 = x div 64 div 64" "x div 262144 = x div 64 div 4096" for x :: int
    by (simp_all add: zdiv_zmult2_eq [symmetric])
  with assms show "c div 4096 = d div 4096" "c div 262144 = d div 262144" by simp_all
qed

lemma div_eq_4096:
  fixes c d :: int
  assumes "c div 4096 = d div 4096"
  shows "c div 262144 = d div 262144"
proof -
  have "x div 262144 = x div 4096 div 64" for x :: int
    by (simp add: zdiv_zmult2_eq [symmetric])
  with assms show ?thesis by simp
qed

text \<open>The first byte tells the length of the encoding; within one length the bytes order the points.\<close>

lemma utf8_point_cases:
  assumes "0 \<le> c"
  obtains (one) "c < 0x80" "utf8_point c = [c]"
    | (two) "0x80 \<le> c" "c < 0x800" "utf8_point c = [0xc0 + c div 64, 0x80 + c mod 64]"
        "0xc0 \<le> 0xc0 + c div 64" "0xc0 + c div 64 < 0xe0"
    | (three) "0x800 \<le> c" "c < 0x10000"
        "utf8_point c = [0xe0 + c div 4096, 0x80 + c div 64 mod 64, 0x80 + c mod 64]"
        "0xe0 \<le> 0xe0 + c div 4096" "0xe0 + c div 4096 < 0xf0"
    | (four) "0x10000 \<le> c" "utf8_point c =
          [0xf0 + c div 262144, 0x80 + c div 4096 mod 64, 0x80 + c div 64 mod 64, 0x80 + c mod 64]"
        "0xf0 \<le> 0xf0 + c div 262144"
proof -
  have n: "0 \<le> c div 64" "0 \<le> c div 4096" "0 \<le> c div 262144"
    using assms by (simp_all add: pos_imp_zdiv_nonneg_iff)
  consider "c < 0x80" | "0x80 \<le> c" "c < 0x800" | "0x800 \<le> c" "c < 0x10000" | "0x10000 \<le> c"
    by linarith
  then show ?thesis
  proof cases
    case 1
    then show ?thesis by (intro one) (simp_all add: utf8_point_def)
  next
    case 2
    moreover from 2 have "c div 64 < 32" by linarith
    ultimately show ?thesis using n by (intro two) (simp_all add: utf8_point_def)
  next
    case 3
    moreover from 3 have "c div 4096 < 16" by linarith
    ultimately show ?thesis using n by (intro three) (simp_all add: utf8_point_def)
  next
    case 4
    then show ?thesis using n by (intro four) (simp_all add: utf8_point_def)
  qed
qed

lemma four_less:
  fixes a b e f :: int
  assumes "a < a' \<or> a = a' \<and> (b < b' \<or> b = b' \<and> (e < e' \<or> e = e' \<and> f < f'))"
  shows "[0xf0 + a, 0x80 + b, 0x80 + e, 0x80 + f] @ x < [0xf0 + a', 0x80 + b', 0x80 + e', 0x80 + f'] @ y"
  using assms by auto

lemma three_less:
  fixes a b e :: int
  assumes "a < a' \<or> a = a' \<and> (b < b' \<or> b = b' \<and> e < e')"
  shows "[0xe0 + a, 0x80 + b, 0x80 + e] @ x < [0xe0 + a', 0x80 + b', 0x80 + e'] @ y"
  using assms by auto

lemma utf8_point_less:
  assumes "0 \<le> c" "c < d"
  shows "utf8_point c @ x < utf8_point d @ y"
proof -
  have d0: "0 \<le> d" using assms by linarith
  have m: "c div 64 < d div 64 \<or> (c div 64 = d div 64 \<and> c mod 64 < d mod 64)"
    using div_mod_less [OF assms(2), of 64] by simp
  show ?thesis using assms(1)
  proof (cases c rule: utf8_point_cases)
    case c: one
    from d0 show ?thesis
    proof (cases d rule: utf8_point_cases)
      case d: one
      show ?thesis unfolding c(2) d(2) using assms by simp
    next
      case d: two
      show ?thesis unfolding c(2) d(3) using c(1) d(4) by simp
    next
      case d: three
      show ?thesis unfolding c(2) d(3) using c(1) d(4) by simp
    next
      case d: four
      show ?thesis unfolding c(2) d(2) using c(1) d(3) by simp
    qed
  next
    case c: two
    from d0 show ?thesis
    proof (cases d rule: utf8_point_cases)
      case d: two
      show ?thesis unfolding c(3) d(3) using m by auto
    next
      case d: three
      show ?thesis unfolding c(3) d(3) using c(5) d(4) by simp
    next
      case d: four
      show ?thesis unfolding c(3) d(2) using c(5) d(3) by simp
    next
      case d: one
      show ?thesis using c(1) d(1) assms(2) by simp
    qed
  next
    case c: three
    from d0 show ?thesis
    proof (cases d rule: utf8_point_cases)
      case d: three
      have "c div 64 < d div 64 \<Longrightarrow> c div 4096 < d div 4096 \<or>
          (c div 4096 = d div 4096 \<and> c div 64 mod 64 < d div 64 mod 64)" by (rule div_div_less)
      moreover note m div_eq_64 [of c d]
      ultimately show ?thesis unfolding c(3) d(3) by (intro three_less) metis
    next
      case d: four
      show ?thesis unfolding c(3) d(2) using c(5) d(3) by simp
    next
      case d: one
      show ?thesis using c(1) d(1) assms(2) by simp
    next
      case d: two
      show ?thesis using c(1) d(2) assms(2) by simp
    qed
  next
    case c: four
    from d0 show ?thesis
    proof (cases d rule: utf8_point_cases)
      case d: four
      have "c div 64 < d div 64 \<Longrightarrow> c div 4096 < d div 4096 \<or>
          (c div 4096 = d div 4096 \<and> c div 64 mod 64 < d div 64 mod 64)" by (rule div_div_less)
      moreover have "c div 4096 < d div 4096 \<Longrightarrow> c div 262144 < d div 262144 \<or>
          (c div 262144 = d div 262144 \<and> c div 4096 mod 64 < d div 4096 mod 64)"
        by (rule div_div_div_less)
      moreover note m div_eq_64 [of c d] div_eq_4096 [of c d]
      ultimately show ?thesis unfolding c(2) d(2) by (intro four_less) metis
    next
      case d: one
      show ?thesis using c(1) d(1) assms(2) by simp
    next
      case d: two
      show ?thesis using c(1) d(2) assms(2) by simp
    next
      case d: three
      show ?thesis using c(1) d(2) assms(2) by simp
    qed
  qed
qed

lemma utf8_point_nonempty [simp]: "utf8_point c \<noteq> []"
  by (simp add: utf8_point_def)

lemma utf8_points_less:
  assumes "\<forall>c \<in> set ps. 0 \<le> c" "\<forall>c \<in> set qs. 0 \<le> c" "ps < qs"
  shows "concat (map utf8_point ps) < concat (map utf8_point qs)"
  using assms
proof (induction ps arbitrary: qs)
  case Nil
  then obtain q qs' where "qs = q # qs'" by (cases qs) auto
  then have "concat (map utf8_point qs) \<noteq> []" by simp
  then show ?case by (cases "concat (map utf8_point qs)") auto
next
  case (Cons p ps)
  then obtain q qs' where q: "qs = q # qs'" by (cases qs) auto
  show ?case
  proof (cases "p = q")
    case True
    then show ?thesis using Cons q by simp
  next
    case False
    then have "p < q" using Cons.prems(3) q by auto
    then show ?thesis using utf8_point_less [of p q] Cons.prems(1) q by simp
  qed
qed

lemma utf8_less:
  assumes "well_formed a" "well_formed b"
  shows "key_less a b \<longleftrightarrow> utf8 a < utf8 b"
proof -
  have pos: "\<forall>c \<in> set (points s). 0 \<le> c" if "well_formed s" for s
    using points_valid [OF that] by (auto simp: valid_point_def)
  have mono: "key_less x y \<Longrightarrow> utf8 x < utf8 y" if "well_formed x" "well_formed y" for x y
    unfolding utf8_def using points_less [OF that] pos that by (auto intro: utf8_points_less)
  show ?thesis
    using mono [OF assms] mono [OF assms(2,1)] key_less_linear [of a b] by auto
qed

section \<open>Lengths\<close>

lemma high_mask: "push_bit 10 (mask 6) = (0xfc00 :: unit16)"
  by (simp add: mask_eq_exp_minus_1)

lemma and_high_push: "and (d :: unit16) 0xfc00 = push_bit 10 (drop_bit 10 d)"
  unfolding high_mask [symmetric] by (intro bit_word_eqI) (auto simp: bit_simps)

lemma drop_push_10: "drop_bit 10 (push_bit 10 (drop_bit 10 (d :: unit16))) = drop_bit 10 d"
  by (intro bit_word_eqI) (auto simp: bit_simps dest: bit_imp_le_length)

lemma trail_mask: "and (d :: unit16) 0xfc00 = 0xdc00 \<longleftrightarrow> trail_unit d"
proof -
  have "and d 0xfc00 = 0xdc00 \<longleftrightarrow> drop_bit 10 d = 0x37"
  proof
    assume "and d 0xfc00 = 0xdc00"
    then have "drop_bit 10 (push_bit 10 (drop_bit 10 d)) = drop_bit 10 (0xdc00 :: unit16)"
      unfolding and_high_push by simp
    then show "drop_bit 10 d = 0x37" unfolding drop_push_10 by simp
  next
    assume "drop_bit 10 d = 0x37"
    then show "and d 0xfc00 = 0xdc00" unfolding and_high_push by simp
  qed
  also have "\<dots> \<longleftrightarrow> uint d div 1024 = 55"
    by (simp add: word_uint_eq_iff drop_bit_eq_div uint_div_distrib)
  also have "\<dots> \<longleftrightarrow> trail_unit d"
    by (auto simp: trail_unit_def)
  finally show ?thesis .
qed

lemma utf8Length_Cons:
  "utf8Length (u # s) =
     (if lead_unit u \<and> s \<noteq> [] \<and> trail_unit (hd s) then 4 + utf8Length (tl s)
      else (if uint u < 0x80 then 1 else if uint u < 0x800 then 2 else 3) + utf8Length s)"
proof (cases s)
  case Nil
  then show ?thesis by simp
next
  case (Cons d t)
  have "lead_unit u \<Longrightarrow> \<not> uint u < 0x80 \<and> \<not> uint u < 0x800" by (simp add: lead_unit_def)
  then show ?thesis
    by (simp only: utf8Length.simps(2) Let_def Cons list.case trail_mask list.sel
        lead_unit_def [symmetric] conj_assoc [symmetric]) auto
qed

declare utf8Length.simps(2) [simp del]

lemma length_utf8_point_unit:
  "length (utf8_point (uint (u :: unit16))) =
     (if uint u < 0x80 then 1 else if uint u < 0x800 then 2 else 3)"
  using uint_bound16 [of u] by (simp add: utf8_point_def)

lemma utf8Length_utf8: "utf8Length s = length (utf8 s)"
proof (induction s rule: points.induct)
  case 1
  show ?case by (simp add: utf8_def)
next
  case (2 u)
  show ?case by (simp add: utf8_def utf8Length_Cons length_utf8_point_unit)
next
  case (3 u d s)
  show ?case
  proof (cases "lead_unit u \<and> trail_unit d")
    case True
    then have "length (utf8_point (pair_point u d)) = 4"
      using pair_bounds [of u d] by (simp add: utf8_point_def)
    with True 3 show ?thesis by (simp add: utf8_def utf8Length_Cons [of u "d # s"])
  next
    case False
    then show ?thesis
      using 3 by (auto simp: utf8_def utf8Length_Cons [of u "d # s"] length_utf8_point_unit)
  qed
qed

section \<open>The end of a prefix\<close>

lemma wf_append [simp]: "well_formed t \<Longrightarrow> well_formed (t @ x) = well_formed x"
  by (induction t rule: wf_induct) auto

lemma points_append [simp]: "well_formed t \<Longrightarrow> points (t @ x) = points t @ points x"
  by (induction t rule: wf_induct) auto

lemma wf_last [consumes 2, case_names plain pair]:
  assumes "well_formed s" "s \<noteq> []"
  obtains t u where "s = t @ [u]" "plain_unit u" "well_formed t"
        | t h l where "s = t @ [h, l]" "lead_unit h" "trail_unit l" "well_formed t"
proof -
  have "s \<noteq> [] \<longrightarrow> (\<exists>t u. s = t @ [u] \<and> plain_unit u \<and> well_formed t) \<or>
    (\<exists>t h l. s = t @ [h, l] \<and> lead_unit h \<and> trail_unit l \<and> well_formed t)"
    using assms(1)
  proof (induction s rule: wf_induct)
    case Nil
    show ?case by simp
  next
    case (plain u s)
    show ?case
    proof (cases "s = []")
      case True
      then have "u # s = [] @ [u]" by simp
      then show ?thesis using plain(1) well_formed.simps(1) by blast
    next
      case False
      with plain.IH show ?thesis
      proof (elim impE disjE exE conjE)
        fix t v assume "s = t @ [v]" "plain_unit v" "well_formed t"
        then have "u # s = (u # t) @ [v]" "well_formed (u # t)" using plain(1) by auto
        then show ?thesis using \<open>plain_unit v\<close> by blast
      next
        fix t h l assume "s = t @ [h, l]" "lead_unit h" "trail_unit l" "well_formed t"
        then have "u # s = (u # t) @ [h, l]" "well_formed (u # t)" using plain(1) by auto
        then show ?thesis using \<open>lead_unit h\<close> \<open>trail_unit l\<close> by blast
      qed auto
    qed
  next
    case (pair u d s)
    show ?case
    proof (cases "s = []")
      case True
      then have "u # d # s = [] @ [u, d]" by simp
      then show ?thesis using pair(1,2) well_formed.simps(1) by blast
    next
      case False
      with pair.IH show ?thesis
      proof (elim impE disjE exE conjE)
        fix t v assume "s = t @ [v]" "plain_unit v" "well_formed t"
        then have "u # d # s = (u # d # t) @ [v]" "well_formed (u # d # t)" using pair(1,2) by auto
        then show ?thesis using \<open>plain_unit v\<close> by blast
      next
        fix t h l assume "s = t @ [h, l]" "lead_unit h" "trail_unit l" "well_formed t"
        then have "u # d # s = (u # d # t) @ [h, l]" "well_formed (u # d # t)" using pair(1,2) by auto
        then show ?thesis using \<open>lead_unit h\<close> \<open>trail_unit l\<close> by blast
      qed auto
    qed
  qed
  with assms(2) show ?thesis using that by blast
qed

lemma prefix_points:
  assumes "well_formed p" "well_formed s"
  shows "prefix p s \<longleftrightarrow> prefix (points p) (points s)"
  using assms
proof (induction p arbitrary: s rule: wf_induct)
  case Nil
  then show ?case by simp
next
  case (plain u p)
  from plain.prems show ?case
  proof (cases s rule: wf_cases)
    case Nil
    then show ?thesis using plain by simp
  next
    case p2: (plain v t)
    then show ?thesis using plain by (simp add: word_uint_eq_iff)
  next
    case (pair v e t)
    then have "u \<noteq> v" "uint u \<noteq> pair_point v e"
      using \<open>plain_unit u\<close> plain_bounds [of u] pair_bounds [of v e] by (auto simp: plain_unit_def)
    then show ?thesis using pair \<open>plain_unit u\<close> by simp
  qed
next
  case (pair u d p)
  from pair.prems show ?case
  proof (cases s rule: wf_cases)
    case Nil
    then show ?thesis using pair by simp
  next
    case (plain v t)
    then have "v \<noteq> u" "uint v \<noteq> pair_point u d"
      using \<open>lead_unit u\<close> \<open>trail_unit d\<close> plain_bounds [of v] pair_bounds [of u d]
      by (auto simp: plain_unit_def)
    then show ?thesis using plain pair(1,2) by simp
  next
    case p2: (pair v e t)
    then show ?thesis using pair pair_eq [of u d v e] by auto
  qed
qed

definition next_point :: "int \<Rightarrow> int" where
  "next_point c = (if c = 0xd7ff then 0xe000 else c + 1)"

lemma next_point_valid:
  "valid_point c \<Longrightarrow> c < 0x10ffff \<Longrightarrow> valid_point (next_point c)"
  by (auto simp: valid_point_def next_point_def)

lemma next_point_less: "valid_point c \<Longrightarrow> valid_point d \<Longrightarrow> d < next_point c \<longleftrightarrow> d \<le> c"
  by (auto simp: valid_point_def next_point_def)

lemma fromCodePoint_points:
  assumes "valid_point c"
  shows "well_formed (fromCodePoint c)" "points (fromCodePoint c) = [c]"
proof -
  have "well_formed (fromCodePoint c) \<and> points (fromCodePoint c) = [c]"
  proof (cases "c \<le> 0xffff")
    case True
    have u: "uint (word_of_int c :: unit16) = c"
      using assms True by (simp add: valid_point_def uint_word_of_int)
    then have "plain_unit (word_of_int c)"
      using assms by (auto simp: plain_unit_def lead_unit_def trail_unit_def valid_point_def)
    with True u show ?thesis by (simp add: fromCodePoint_def)
  next
    case False
    define h where "h = 0xd800 + (c - 0x10000) div 0x400"
    define l where "l = 0xdc00 + (c - 0x10000) mod 0x400"
    have "0 \<le> (c - 0x10000) div 0x400" "(c - 0x10000) div 0x400 < 0x400"
      using assms False by (auto simp: valid_point_def pos_imp_zdiv_nonneg_iff)
    then have h: "0xd800 \<le> h" "h < 0xdc00" by (auto simp: h_def)
    have "0 \<le> (c - 0x10000) mod 0x400" "(c - 0x10000) mod 0x400 < 0x400" by simp_all
    then have l: "0xdc00 \<le> l" "l < 0xe000" unfolding l_def by linarith+
    have u: "uint (word_of_int h :: unit16) = h" "uint (word_of_int l :: unit16) = l"
      using h l by (simp_all add: uint_word_of_int)
    have k: "lead_unit (word_of_int h)" "trail_unit (word_of_int l)"
      using h l by (auto simp: lead_unit_def trail_unit_def u)
    have "(h - 0xd800) * 0x400 + (l - 0xdc00) = c - 0x10000"
      unfolding h_def l_def by (simp add: mult.commute)
    then have "pair_point (word_of_int h) (word_of_int l) = c"
      unfolding pair_point_def u by simp
    with False k show ?thesis by (simp add: fromCodePoint_def h_def [symmetric] l_def [symmetric])
  qed
  then show "well_formed (fromCodePoint c)" "points (fromCodePoint c) = [c]" by auto
qed

lemma max_point_facts: "lead_unit 0xdbff" "trail_unit 0xdfff" "pair_point 0xdbff 0xdfff = 0x10ffff"
  by (simp_all add: lead_unit_def trail_unit_def pair_point_def)

lemma strip_max_points:
  assumes "well_formed p"
  shows "well_formed (strip_max p) \<and> \<not> ends_with (strip_max p) max_point \<and>
    (\<exists>n. points p = points (strip_max p) @ replicate n 0x10ffff)"
  using assms
proof (induction p rule: strip_max.induct)
  case (1 s)
  show ?case
  proof (cases "ends_with s max_point")
    case True
    then obtain r where r: "s = r @ [0xdbff, 0xdfff]"
      by (auto simp: ends_with_append max_point_def)
    from r have "s \<noteq> []" by simp
    with "1.prems" have "well_formed r"
    proof (cases s rule: wf_last)
      case (pair t h l)
      then show ?thesis using r by simp
    next
      case (plain t u)
      then show ?thesis using r max_point_facts(2) by (simp add: plain_unit_def)
    qed
    moreover have "strip_max s = strip_max r"
      using True r by (subst strip_max.simps) simp
    moreover have "take (length s - 2) s = r" using r by simp
    ultimately obtain n where
      "well_formed (strip_max r)" "\<not> ends_with (strip_max r) max_point"
      "points r = points (strip_max r) @ replicate n 0x10ffff"
      using "1.IH" [OF True] by auto
    moreover have "points s = points r @ [0x10ffff]"
      using r \<open>well_formed r\<close> max_point_facts by simp
    ultimately have "points s = points (strip_max r) @ replicate (Suc n) 0x10ffff"
      by (simp add: replicate_append_same)
    then show ?thesis
      using \<open>well_formed (strip_max r)\<close> \<open>\<not> ends_with (strip_max r) max_point\<close> \<open>strip_max s = strip_max r\<close>
      by metis
  next
    case False
    then have "strip_max s = s" by (subst strip_max.simps) simp
    moreover have "points s = points s @ replicate 0 0x10ffff" by simp
    ultimately show ?thesis using False "1.prems" by metis
  qed
qed

text \<open>What \<open>prefixEnd\<close> computes, in code points.\<close>

lemma prefixEnd_points:
  assumes "well_formed p"
  shows "case prefixEnd p of
      None \<Rightarrow> \<exists>n. points p = replicate n 0x10ffff
    | Some e \<Rightarrow> well_formed e \<and>
        (\<exists>t c n. valid_point c \<and> c < 0x10ffff \<and> points p = t @ [c] @ replicate n 0x10ffff \<and>
          points e = t @ [next_point c])"
proof -
  define e where "e = strip_max p"
  obtain n where e: "well_formed e" "\<not> ends_with e max_point"
      "points p = points e @ replicate n 0x10ffff"
    using strip_max_points [OF assms] unfolding e_def by blast
  show ?thesis
  proof (cases "e = []")
    case True
    then have "prefixEnd p = None" by (simp add: prefixEnd_def e_def)
    with e(3) True show ?thesis by auto
  next
    case False
    from e(1) False show ?thesis
    proof (cases e rule: wf_last)
      case (plain t u)
      define c where "c = uint u"
      have c: "valid_point c" "c < 0x10ffff"
        using plain(2) plain_bounds [of u] by (auto simp: c_def valid_point_def)
      have "\<not> codePointAt e (length e - 2) > 0xffff" if "length e \<ge> 2"
      proof -
        have "Suc (length e - 2) = length t" using that plain(1) by simp
        then have "\<not> trail_unit (e ! Suc (length e - 2))"
          using plain(1,2) by (simp add: nth_append plain_unit_def)
        then show ?thesis
          using uint_bound16(2) [of "e ! (length e - 2)"] by (simp add: codePointAt_def)
      qed
      moreover have "codePointAt e (length e - 1) = c"
        using plain(1,2) by (simp add: codePointAt_def nth_append plain_unit_def c_def)
      ultimately have "prefixEnd p = Some (t @ fromCodePoint (next_point c))"
        using False plain(1) by (auto simp: prefixEnd_def e_def [symmetric] Let_def slice_to_def next_point_def)
      moreover have "points p = t' @ [c] @ replicate n 0x10ffff" if "t' = points t" for t'
        using that e(3) plain c_def by simp
      ultimately show ?thesis
        using c plain(3) next_point_valid [OF c] fromCodePoint_points [OF next_point_valid [OF c]]
        by auto
    next
      case (pair t h l)
      define c where "c = pair_point h l"
      have "c \<noteq> 0x10ffff"
        using pair_eq [OF pair(2,3) max_point_facts(1,2)] max_point_facts(3) e(2) pair(1)
        by (auto simp: c_def ends_with_append max_point_def)
      then have c: "valid_point c" "c < 0x10ffff"
        using pair_bounds [OF pair(2,3)] by (auto simp: c_def valid_point_def)
      have "codePointAt e (length e - 2) = c"
        using pair(1,2,3) by (simp add: codePointAt_def nth_append c_def)
      moreover have "c > 0xffff" using pair_bounds [OF pair(2,3)] by (simp add: c_def)
      ultimately have "prefixEnd p = Some (t @ fromCodePoint (next_point c))"
        using False pair(1) by (auto simp: prefixEnd_def e_def [symmetric] Let_def slice_to_def next_point_def)
      moreover have "points p = t' @ [c] @ replicate n 0x10ffff" if "t' = points t" for t'
        using that e(3) pair c_def by simp
      ultimately show ?thesis
        using c pair(4) next_point_valid [OF c] fromCodePoint_points [OF next_point_valid [OF c]]
        by auto
    qed
  qed
qed

lemma max_run_prefix:
  "\<forall>c \<in> set s. c \<le> m \<Longrightarrow> replicate n m \<le> s \<Longrightarrow> prefix (replicate n m) (s :: int list)"
proof (induction n arbitrary: s)
  case 0
  then show ?case by simp
next
  case (Suc n)
  then show ?case by (cases s) auto
qed

lemma between_prefix:
  fixes s t :: "int list"
  assumes "\<forall>d \<in> set s. valid_point d" "valid_point c"
  shows "prefix (t @ [c] @ replicate n 0x10ffff) s \<longleftrightarrow>
    t @ [c] @ replicate n 0x10ffff \<le> s \<and> s < t @ [next_point c]" (is "prefix ?p s \<longleftrightarrow> _")
proof
  assume pre: "prefix ?p s"
  then obtain r where r: "s = ?p @ r" by (auto simp: prefix_def)
  have "c < next_point c" by (simp add: next_point_def)
  then have "s < t @ [next_point c]" unfolding r by simp
  with prefix_le [OF pre] show "?p \<le> s \<and> s < t @ [next_point c]" by simp
next
  assume b: "?p \<le> s \<and> s < t @ [next_point c]"
  then have "prefix t s"
    by (intro prefix_convex [of ?p s "t @ [next_point c]"]) auto
  then obtain r where r: "s = t @ r" by (auto simp: prefix_def)
  with b have br: "c # replicate n 0x10ffff \<le> r" "r < [next_point c]" by auto
  then obtain d q where d: "r = d # q" by (cases r) auto
  with br assms r have "d = c"
    using next_point_less [of c d] by auto
  with br d have "replicate n 0x10ffff \<le> q" by simp
  then have "prefix (replicate n 0x10ffff) q"
    using assms(1) r d by (intro max_run_prefix) (auto simp: valid_point_def)
  then show "prefix ?p s" using r d \<open>d = c\<close> by simp
qed

lemma prefixEnd_prefix:
  assumes "well_formed p" "well_formed s"
  shows "prefix p s \<longleftrightarrow>
    key_le p s \<and> (case prefixEnd p of None \<Rightarrow> True | Some e \<Rightarrow> key_less s e)"
proof (cases "prefixEnd p")
  case None
  then obtain n where n: "points p = replicate n 0x10ffff"
    using prefixEnd_points [OF assms(1)] by auto
  have "\<forall>c \<in> set (points s). c \<le> 0x10ffff"
    using points_valid [OF assms(2)] by (auto simp: valid_point_def)
  then have "prefix (points p) (points s) \<longleftrightarrow> points p \<le> points s"
    unfolding n using max_run_prefix prefix_le by blast
  then show ?thesis using None assms by (simp add: prefix_points points_le)
next
  case (Some e)
  then obtain t c n where "well_formed e" "valid_point c"
      "points p = t @ [c] @ replicate n 0x10ffff" "points e = t @ [next_point c]"
    using prefixEnd_points [OF assms(1)] by auto
  then show ?thesis
    using Some assms between_prefix [of "points s" c t n] points_valid [OF assms(2)]
    by (simp add: prefix_points points_le points_less)
qed

end
