(* ===== verification/KeyMatch.thy ===== *)
theory KeyMatch
  imports KeySkip Utf8
begin

text \<open>
  What a compiled pattern matches: the loop over the fields answers \<open>Match\<close> exactly for the keys
  that hold them, walking either way, and a compiled pattern's fields satisfy what the skip scan
  relies on.
\<close>

section \<open>Matching is the same in both directions\<close>

lemma skipBack_no_match: "skipBack k reverse before \<noteq> Match \<and> skipBack k reverse before \<noteq> Step"
  by (induction k reverse before rule: skipBack.induct) auto

lemma check_no_match:
  "checkLow k reverse before f pos v = Some p \<Longrightarrow> p \<noteq> Match"
  "checkHigh k reverse before f pos v = Some p \<Longrightarrow> p \<noteq> Match"
  using skipBack_no_match [of k reverse before]
  by (auto simp: checkLow_def checkHigh_def Let_def split: option.splits if_splits)

lemma placeFields_match:
  assumes "fields_ok fs" "k = q @ r"
  shows "placeFields k reverse before fs (length q) = Match \<longleftrightarrow> matchRest fs r"
  using assms
proof (induction fs arbitrary: q r before)
  case Nil
  then show ?case by simp
next
  case (Cons fd fs)
  show ?case
  proof (cases fd)
    case [simp]: (LiteralField t w)
    show ?thesis
    proof (cases "prefix t r \<and> (w \<longrightarrow> r = t)")
      case True
      then obtain r' where r': "r = t @ r'" by (auto simp: prefix_def)
      have "placeFields k reverse ((LiteralField t w, 0) # before) fs (length (q @ t)) = Match
          \<longleftrightarrow> matchRest fs r'"
        by (rule Cons.IH) (use Cons.prems r' in simp_all)
      then show ?thesis
        using literal_passes [OF Cons.prems(2) True, of reverse before fs] True r' by simp
    next
      case False
      have "\<not> (starts_at k t (length q) \<and> (\<not> w \<or> length k = length q + length t))"
        using starts_at_drop [of q k t w] Cons.prems(2) False by simp
      then have "placeFields k reverse before (fd # fs) (length q) \<noteq> Match"
        using skipBack_no_match [of k reverse before] by (auto simp: placeFields.simps(2) Let_def)
      moreover have "\<not> matchRest (fd # fs) r" using False by auto
      ultimately show ?thesis by blast
    qed
  next
    case [simp]: (ValueField f)
    have f: "cmp_exact f" "fields_ok fs" "vf_sep f = None \<Longrightarrow> fs = []"
      using Cons.prems(1) by simp_all
    have low: "checkLow k reverse before f (length q) v = None \<longleftrightarrow> inLow f v" for v
      by (rule checkLow_None [OF f(1)])
    have high: "checkHigh k reverse before f (length q) v = None \<longleftrightarrow> inHigh f v" for v
      by (rule checkHigh_None [OF f(1)])
    have nm: "(case checkLow k reverse before f (length q) v of Some p \<Rightarrow> p | None \<Rightarrow>
        (case checkHigh k reverse before f (length q) v of Some p \<Rightarrow> p | None \<Rightarrow> X)) = Match
      \<longleftrightarrow> inLow f v \<and> inHigh f v \<and> X = Match" for v X
      using low [of v] high [of v] check_no_match [of k reverse before f "length q" v]
      by (auto split: option.splits)
    have ve: "slice_to k (length q) (length q + i) = take i r" for i
      using Cons.prems(2) by (simp add: slice_to_def)
    have k: "length k = length q + length r" "drop (length q) k = r"
      using Cons.prems(2) by simp_all
    show ?thesis
    proof (cases "vf_sep f")
      case None
      then show ?thesis
        using ve [of "length r"] f(3) k nm [where v = r]
        by (simp add: placeFields.simps(3) Let_def cong: option.case_cong)
    next
      case (Some s)
      show ?thesis
      proof (cases "index_unit s r")
        case None
        then show ?thesis
          using Some ve [of "length r"] k nm [where v = r]
          by (simp add: placeFields.simps(3) Let_def index_of_def cong: option.case_cong)
      next
        case i: (Some i)
        then have len: "i < length r" by (simp add: index_unit_Some)
        have split: "r = take i r @ s # drop (Suc i) r" by (rule index_unit_split(1) [OF i])
        have "placeFields k reverse ((ValueField f, length q + i) # before) fs
            (length (q @ take i r @ [s])) = Match \<longleftrightarrow> matchRest fs (drop (Suc i) r)"
          by (rule Cons.IH) (use Cons.prems(2) f split in simp_all)
        then show ?thesis
          using Some i len ve [of i] k nm [where v = "take i r"]
          by (simp add: placeFields.simps(3) Let_def index_of_def cong: option.case_cong)
      qed
    qed
  qed
qed

section \<open>What compilation gives\<close>

lemma exactFor_exact:
  assumes "Some b \<in> set bs"
  shows "sgn (exactFor bs v b) = sgn (compareKeys v b)"
  using assms exactFor_sgn by blast

lemma valueField_ok:
  "cmp_exact (valueField m s) \<and> single_ok (valueField m s) \<and> vf_sep (valueField m s) = s"
  by (cases m)
    (auto simp: cmp_exact_def single_ok_def blankField_def Let_def split: option.splits
      intro!: exactFor_exact)

lemma paramFields_ok:
  assumes "case e of None \<Rightarrow> fs = [] | Some s \<Rightarrow> sep_ok s" "fields_ok fs"
  shows "fields_ok (paramFields ms e @ fs)"
  using assms
proof (induction ms e rule: paramFields.induct)
  case (2 m e)
  then show ?case using valueField_ok [of m e] by (cases e) simp_all
next
  case (3 m m' ms e)
  then show ?case using valueField_ok [of m "Some comma"] by (simp add: sep_ok_def)
qed simp

text \<open>Local template names are names of the model, in units below the surrogates.\<close>

definition name_ok :: "key_pattern \<Rightarrow> bool" where
  "name_ok p = (\<forall>n. kp_name p = Some n \<longrightarrow> \<not> high_unit n)"

lemma compile_shape:
  assumes "compilePattern p = Inr c"
  obtains (every) "c = \<lparr>cp_head = [], cp_fields = []\<rparr>"
    | (slice) n s fs where "cp_head c = n @ [s]" "s = bang \<or> s = colon"
      "cp_fields c = fs @ (case kp_name p of None \<Rightarrow> [] | Some m \<Rightarrow>
         LiteralField (if kp_local p \<noteq> [] then m @ [colon] else m) (kp_local p = []) #
           paramFields (kp_local p) None)"
      "fs = [] \<or> (\<exists>ms. fs = paramFields ms (Some bang))"
proof (cases "kp_slice p")
  case EverySlice
  then show ?thesis using assms that(1) by (auto simp: compilePattern_def split: if_splits)
next
  case (OneSlice n)
  then show ?thesis using assms
    by (intro that(2) [of n bang "[]"])
      (auto simp: compilePattern_def Let_def split: option.splits if_splits)
next
  case (Family n ms)
  show ?thesis
  proof (cases ms)
    case Nil
    then show ?thesis using assms Family
      by (intro that(2) [of n bang "[]"])
        (auto simp: compilePattern_def Let_def split: option.splits if_splits)
  next
    case (Cons m ms')
    then show ?thesis using assms Family
      by (intro that(2) [of n colon "paramFields ms (Some bang)"])
        (auto simp: compilePattern_def Let_def split: option.splits if_splits)
  qed
qed

lemma compile_ok:
  assumes c: "compilePattern p = Inr c" and n: "name_ok p"
  shows "fields_ok (cp_fields c)"
  using c
proof (cases rule: compile_shape)
  case every
  then show ?thesis by simp
next
  case (slice hd' s fs)
  have tail: "fields_ok (case kp_name p of None \<Rightarrow> [] | Some m \<Rightarrow>
      LiteralField (if kp_local p \<noteq> [] then m @ [colon] else m) (kp_local p = []) #
        paramFields (kp_local p) None)"
  proof (cases "kp_name p")
    case (Some m)
    then have "\<not> high_unit m" using n by (simp add: name_ok_def)
    then show ?thesis
      using Some paramFields_ok [where e = None and fs = "[]" and ms = "kp_local p"]
      by (simp add: high_unit_def sep_ok_def)
  qed simp
  from slice(4) show ?thesis
  proof (elim disjE exE)
    fix ms assume "fs = paramFields ms (Some bang)"
    then show ?thesis using paramFields_ok [OF _ tail, of "Some bang" ms] slice(3)
      by (simp add: sep_ok_def)
  qed (use tail slice(3) in simp)
qed

lemma compile_head:
  assumes "compilePattern p = Inr c"
  shows "cp_head c = [] \<or> (\<exists>n s. cp_head c = n @ [s] \<and> sep_ok s)"
  using assms by (cases rule: compile_shape) (auto simp: sep_ok_def)

definition holds :: "compiled_pattern \<Rightarrow> jsstr \<Rightarrow> bool" where
  "holds c k = (prefix (cp_head c) k \<and> matchRest (cp_fields c) (drop (length (cp_head c)) k))"

lemma placeKey_match:
  assumes "compilePattern p = Inr c" "name_ok p"
  shows "placeKey c k reverse = Match \<longleftrightarrow> holds c k"
proof (cases "prefix (cp_head c) k")
  case True
  then obtain r where r: "k = cp_head c @ r" by (auto simp: prefix_def)
  show ?thesis
    using placeFields_match [OF compile_ok [OF assms] r] True r
    by (simp add: placeKey_def holds_def starts_with_prefix)
qed (simp add: placeKey_def holds_def starts_with_prefix)

lemma matchesPattern_holds:
  "compilePattern p = Inr c \<Longrightarrow> name_ok p \<Longrightarrow> matchesPattern c k \<longleftrightarrow> holds c k"
  by (simp add: matchesPattern_def placeKey_match)

section \<open>A placement never passes a matching key\<close>

text \<open>The rule for keys, for the fields of one pattern.\<close>

definition key_rule :: "compiled_pattern \<Rightarrow> jsstr \<Rightarrow> bool" where
  "key_rule c k = (prefix (cp_head c) k \<longrightarrow> rest_ok (cp_fields c) (drop (length (cp_head c)) k))"

lemma place_sound_forward:
  assumes c: "compilePattern p = Inr c" "name_ok p"
    and k: "key_rule c k" "key_le (cp_head c) k"
    and k': "key_rule c k'" "holds c k'" "key_less k k'"
  shows "ahead False (placeKey c k False) k'"
proof -
  have pre: "prefix (cp_head c) k"
    using k'(2) key_prefix_convex [OF k(2) key_less_imp_le [OF k'(3)]] by (simp add: holds_def)
  have "passed False k (cp_head c) [] (cp_fields c) k'"
    using k'(1,2) by (simp add: passed_def holds_def key_rule_def)
  then have "ahead False (placeFields k False [] (cp_fields c) (length (cp_head c))) k'"
    using place_forward [OF compile_ok [OF c] pre] k(1) k'(3) pre by (simp add: key_rule_def)
  then show ?thesis using pre by (simp add: placeKey_def)
qed

text \<open>The keys below \<open>prefixEnd\<close> of the head, where a reverse walk starts.\<close>

definition below_head :: "compiled_pattern \<Rightarrow> jsstr \<Rightarrow> bool" where
  "below_head c k = (case prefixEnd (cp_head c) of None \<Rightarrow> True | Some e \<Rightarrow> key_less k e)"

lemma prefixEnd_Nil: "prefixEnd [] = None"
  by (simp add: prefixEnd_def strip_max.simps max_point_def ends_with_def)

lemma below_snoc:
  assumes "key_le (n @ [s]) k" "key_less k (n @ [above_sep s])" "sep_ok s"
  shows "prefix (n @ [s]) k"
proof -
  have "prefix n k"
    using key_prefix_convex [OF assms(1) key_less_imp_le [OF assms(2)], of n] by simp
  then obtain r where r: "k = n @ r" by (auto simp: prefix_def)
  with assms(1,2) have "key_le [s] r" "key_less r [above_sep s]" by simp_all
  then show ?thesis
    using r urank_above [OF assms(3)] by (cases r) (auto simp: key_le_iff)
qed

lemma head_prefix:
  assumes "compilePattern p = Inr c" "below_head c k" "key_le (cp_head c) k"
  shows "prefix (cp_head c) k"
  using compile_head [OF assms(1)]
proof (elim disjE exE conjE)
  fix n s assume "cp_head c = n @ [s]" "sep_ok s"
  then show ?thesis using below_snoc assms(2,3) by (auto simp: below_head_def prefixEnd_snoc)
qed simp

lemma holds_below_head:
  assumes "compilePattern p = Inr c" "prefix (cp_head c) k"
  shows "below_head c k \<and> key_le (cp_head c) k"
  using compile_head [OF assms(1)]
proof (elim disjE exE conjE)
  fix n s assume h: "cp_head c = n @ [s]" "sep_ok s"
  then have "key_less (n @ [s]) (n @ [above_sep s])" using urank_above [OF h(2)] by simp
  then show ?thesis
    using h assms(2) urank_above [OF h(2)] key_le_self [of "[s]"]
    by (auto simp: below_head_def prefixEnd_snoc prefix_def)
qed (use assms(2) in \<open>simp add: below_head_def prefixEnd_Nil\<close>)

lemma place_sound_back:
  assumes c: "compilePattern p = Inr c" "name_ok p" "bounds_ok (cp_fields c)"
    and k: "key_rule c k" "below_head c k"
    and k': "key_rule c k'" "holds c k'" "key_less k' k"
  shows "ahead True (placeKey c k True) k'"
proof -
  have "key_le (cp_head c) k"
    using k'(2,3) holds_below_head [OF c(1)]
    by (auto simp: holds_def intro: key_less_imp_le key_le_less_trans)
  then have pre: "prefix (cp_head c) k" using head_prefix [OF c(1) k(2)] by blast
  have "passed True k (cp_head c) [] (cp_fields c) k'"
    using k'(1,2) by (simp add: passed_def holds_def key_rule_def)
  then have "ahead True (placeFields k True [] (cp_fields c) (length (cp_head c))) k'"
    using place_back [OF compile_ok [OF c(1,2)] c(3) pre] k(1) k'(3) pre by (simp add: key_rule_def)
  then show ?thesis using pre by (simp add: placeKey_def)
qed

section \<open>Patterns on keys of a template\<close>

text \<open>What a match on a parameter says.\<close>

fun inMatch :: "param_match \<Rightarrow> jsstr \<Rightarrow> bool" where
  "inMatch AnyValue v = True"
| "inMatch (Eq x) v = (v = x)"
| "inMatch (Prefix p) v = prefix p v"
| "inMatch (Range r) v =
     ((case rm_gte r of None \<Rightarrow> True | Some b \<Rightarrow> key_le b v) \<and>
      (case rm_gt r of None \<Rightarrow> True | Some b \<Rightarrow> key_less b v) \<and>
      (case rm_lte r of None \<Rightarrow> True | Some b \<Rightarrow> key_le v b) \<and>
      (case rm_lt r of None \<Rightarrow> True | Some b \<Rightarrow> key_less v b))"

text \<open>A prefix is told by the string after it, which is one for well-formed text.\<close>

definition match_text :: "param_match \<Rightarrow> jsstr \<Rightarrow> bool" where
  "match_text m v = (\<forall>p. m = Prefix p \<longrightarrow> well_formed p \<and> well_formed v)"

lemma range_low:
  "inLow (valueField (Range r) s) v \<longleftrightarrow>
    (case rm_gte r of None \<Rightarrow> True | Some b \<Rightarrow> key_le b v) \<and>
    (case rm_gt r of None \<Rightarrow> True | Some b \<Rightarrow> key_less b v)"
  by (auto simp: inLow_def blankField_def Let_def key_not_le split: option.splits
      dest: key_le_less_trans key_less_le_trans key_less_imp_le intro: key_le_trans)

lemma range_high:
  "inHigh (valueField (Range r) s) v \<longleftrightarrow>
    (case rm_lte r of None \<Rightarrow> True | Some b \<Rightarrow> key_le v b) \<and>
    (case rm_lt r of None \<Rightarrow> True | Some b \<Rightarrow> key_less v b)"
  by (auto simp: inHigh_def blankField_def Let_def key_not_le split: option.splits
      dest: key_le_less_trans key_less_le_trans key_less_imp_le intro: key_le_trans)

lemma valueField_match:
  assumes "match_text m v"
  shows "inLow (valueField m s) v \<and> inHigh (valueField m s) v \<longleftrightarrow> inMatch m v"
proof (cases m)
  case AnyValue
  then show ?thesis by (simp add: inLow_def inHigh_def blankField_def)
next
  case (Eq x)
  then show ?thesis
    by (auto simp: inLow_def inHigh_def blankField_def intro: key_le_antisym)
next
  case (Prefix p)
  show ?thesis
  proof (cases "p = []")
    case True
    then show ?thesis using Prefix by (simp add: inLow_def inHigh_def blankField_def)
  next
    case False
    have "well_formed p" "well_formed v" using assms Prefix by (auto simp: match_text_def)
    from prefixEnd_prefix [OF this] show ?thesis
      using Prefix False by (auto simp: inLow_def inHigh_def blankField_def split: option.splits)
  qed
next
  case (Range r)
  then show ?thesis using range_low [of r s v] range_high [of r s v] by auto
qed

section \<open>The keys of a template\<close>

text \<open>Parameters put end to end, \<open>,\<close> between them, and the key of a template's parameters.\<close>

fun joinParams :: "jsstr list \<Rightarrow> jsstr" where
  "joinParams [] = []"
| "joinParams [v] = v"
| "joinParams (v # v' # vs) = v @ comma # joinParams (v' # vs)"

definition sliceText :: "jsstr \<Rightarrow> jsstr list \<Rightarrow> jsstr" where
  "sliceText f vs = (if vs = [] then f @ [bang] else f @ colon # joinParams vs @ [bang])"

definition localText :: "jsstr \<Rightarrow> jsstr list \<Rightarrow> jsstr" where
  "localText n ws = (if ws = [] then n else n @ colon # joinParams ws)"

text \<open>A parameter holds no separator that may follow it.\<close>

fun apart :: "unit16 option \<Rightarrow> jsstr list \<Rightarrow> bool" where
  "apart e [] = True"
| "apart e [v] = (case e of None \<Rightarrow> True | Some s \<Rightarrow> s \<notin> set v)"
| "apart e (v # v' # vs) = (comma \<notin> set v \<and> apart e (v' # vs))"

lemma index_unit_sep: "s \<notin> set v \<Longrightarrow> index_unit s (v @ s # w) = Some (length v)"
  by (rule index_unit_append)

lemma match_params_sep:
  assumes "list_all2 match_text ms vs" "apart (Some s) vs" "ms \<noteq> []"
  shows "matchRest (paramFields ms (Some s) @ fs) (joinParams vs @ s # r) \<longleftrightarrow>
    list_all2 inMatch ms vs \<and> matchRest fs r"
  using assms
proof (induction ms "Some s" arbitrary: vs rule: paramFields.induct)
  case (2 m)
  then obtain v where v: "vs = [v]" "match_text m v" "s \<notin> set v"
    by (auto simp: list_all2_Cons1)
  have "vf_sep (valueField m (Some s)) = Some s" using valueField_ok by blast
  then show ?case
    using v index_unit_sep [OF v(3), of r] valueField_match [OF v(2), of "Some s"] by auto
next
  case (3 m m' ms)
  then obtain v v' vs' where v: "vs = v # v' # vs'" "match_text m v" "comma \<notin> set v"
      "list_all2 match_text (m' # ms) (v' # vs')" "apart (Some s) (v' # vs')"
    by (auto simp: list_all2_Cons1)
  have "vf_sep (valueField m (Some comma)) = Some comma" using valueField_ok by blast
  then show ?case
    using v(1) index_unit_sep [OF v(3), of "joinParams (v' # vs') @ s # r"]
      valueField_match [OF v(2), of "Some comma"] 3(1) [OF v(4,5)] by auto
qed simp

lemma match_params_end:
  assumes "list_all2 match_text ms vs" "apart None vs" "ms \<noteq> []"
  shows "matchRest (paramFields ms None) (joinParams vs) \<longleftrightarrow> list_all2 inMatch ms vs"
  using assms
proof (induction ms "None :: unit16 option" arbitrary: vs rule: paramFields.induct)
  case (2 m)
  then obtain v where v: "vs = [v]" "match_text m v"
    by (auto simp: list_all2_Cons1)
  have "vf_sep (valueField m None) = None" using valueField_ok by blast
  then show ?case using v valueField_match [OF v(2), of None] by auto
next
  case (3 m m' ms)
  then obtain v v' vs' where v: "vs = v # v' # vs'" "match_text m v" "comma \<notin> set v"
      "list_all2 match_text (m' # ms) (v' # vs')" "apart None (v' # vs')"
    by (auto simp: list_all2_Cons1)
  have "vf_sep (valueField m (Some comma)) = Some comma" using valueField_ok by blast
  then show ?case
    using v(1) index_unit_sep [OF v(3), of "joinParams (v' # vs')"]
      valueField_match [OF v(2), of "Some comma"] 3(1) [OF v(4,5)] by auto
qed simp

lemma match_local:
  assumes "list_all2 match_text ls ws" "apart None ws"
  shows "matchRest (LiteralField (if ls \<noteq> [] then n @ [colon] else n) (ls = []) # paramFields ls None)
      (localText n ws) \<longleftrightarrow> list_all2 inMatch ls ws"
proof (cases "ls = []")
  case True
  then show ?thesis using assms by (simp add: localText_def)
next
  case False
  then have "ws \<noteq> []" using assms(1) by auto
  then show ?thesis using False match_params_end [OF assms False] by (auto simp: localText_def)
qed

lemma template_match:
  assumes c: "compilePattern \<lparr>kp_slice = Family f ms, kp_name = Some n, kp_local = ls\<rparr> = Inr c"
    and n: "\<not> high_unit n"
    and vs: "list_all2 match_text ms vs" "apart (Some bang) vs"
    and ws: "list_all2 match_text ls ws" "apart None ws"
  shows "matchesPattern c (sliceText f vs @ localText n ws) \<longleftrightarrow>
    list_all2 inMatch ms vs \<and> list_all2 inMatch ls ws"
proof -
  let ?tail = "LiteralField (if ls \<noteq> [] then n @ [colon] else n) (ls = []) # paramFields ls None"
  have tail: "matchRest ?tail (localText n ws) \<longleftrightarrow> list_all2 inMatch ls ws"
    by (rule match_local [OF ws])
  have m: "matchesPattern c k \<longleftrightarrow> holds c k" for k
    by (rule matchesPattern_holds [OF c]) (use n in \<open>simp add: name_ok_def\<close>)
  show ?thesis
  proof (cases "ms = []")
    case True
    then have "c = \<lparr>cp_head = f @ [bang], cp_fields = ?tail\<rparr>" "vs = []"
      using c vs(1) by (auto simp: compilePattern_def Let_def)
    then show ?thesis unfolding m using tail True by (simp add: holds_def sliceText_def)
  next
    case False
    then have "c = \<lparr>cp_head = f @ [colon], cp_fields = paramFields ms (Some bang) @ ?tail\<rparr>"
      using c by (cases ms) (auto simp: compilePattern_def Let_def)
    moreover have "vs \<noteq> []" using False vs(1) by auto
    ultimately show ?thesis
      unfolding m using match_params_sep [OF vs False, of ?tail "localText n ws"] tail False
      by (simp add: holds_def sliceText_def)
  qed
qed

end
