(* ===== verification/KeyCursor.thy ===== *)
theory KeyCursor
  imports KeyMatch
begin

text \<open>
  Cursors and the walk (typespec/ts/assets/skeleton.ts, \<open>KeyCursor\<close> and \<open>walkPattern\<close>). The
  interface of a cursor is a locale: the keys left in walk order, which \<open>seek\<close>, \<open>key\<close> and \<open>step\<close>
  read and shorten. Over any cursor, the walk returns and visits exactly the matching keys, in
  walk order.
\<close>

section \<open>The walk\<close>

text \<open>A key not yet at a seek's target; \<open>past\<close> of the walk is its negation.\<close>

definition beforeTarget :: "bool \<Rightarrow> jsstr \<Rightarrow> bool \<Rightarrow> jsstr \<Rightarrow> bool" where
  "beforeTarget reverse t strict k =
     ((if reverse then key_less t k else key_less k t) \<or> (k = t \<and> strict))"

definition pastTarget :: "bool \<Rightarrow> jsstr \<Rightarrow> bool \<Rightarrow> jsstr \<Rightarrow> bool" where
  "pastTarget reverse t strict k =
     (let d = (if reverse then exactFor [Some t] t k else exactFor [Some t] k t)
      in d > 0 \<or> (d = 0 \<and> \<not> strict))"

text \<open>The interface \<open>KeyCursor\<close>: the operations of a cursor over a state of type \<open>'c\<close>.\<close>

record 'c cursor_ops =
  co_key :: "'c \<Rightarrow> jsstr option"
  co_seek :: "'c \<Rightarrow> jsstr option \<Rightarrow> bool \<Rightarrow> 'c"
  co_step :: "'c \<Rightarrow> 'c"

text \<open>Up to \<open>budget\<close> steps toward a target: the walk ended, a key past the target, or a seek is due.\<close>

datatype 'c stepped = Ended | Reached 'c | Spent 'c

fun stepToward :: "'c cursor_ops \<Rightarrow> (jsstr \<Rightarrow> bool) \<Rightarrow> nat \<Rightarrow> 'c \<Rightarrow> 'c stepped" where
  "stepToward ops past 0 cur = Spent cur"
| "stepToward ops past (Suc n) cur =
     (let cur' = co_step ops cur in
      case co_key ops cur' of
        None \<Rightarrow> Ended
      | Some k \<Rightarrow> if past k then Reached cur' else stepToward ops past n cur')"

text \<open>
  One turn of the walk's loop: the walk is over, with what the visits made of \<open>s\<close>, or it goes on
  from another position.
\<close>

datatype ('c, 's) turn = Over 's | On 'c 's

definition walkTurn ::
  "'c cursor_ops \<Rightarrow> compiled_pattern \<Rightarrow> bool \<Rightarrow> nat \<Rightarrow> ('s \<Rightarrow> jsstr \<Rightarrow> 's \<times> bool) \<Rightarrow> 'c \<Rightarrow> 's \<Rightarrow>
   ('c, 's) turn"
where
  "walkTurn ops c reverse budget visit cur s =
     (case co_key ops cur of
        None \<Rightarrow> Over s
      | Some k \<Rightarrow>
          (case placeKey c k reverse of
             Done \<Rightarrow> Over s
           | Match \<Rightarrow>
               (case visit s k of (s', go) \<Rightarrow> if go then On (co_step ops cur) s' else Over s')
           | Step \<Rightarrow> On (co_step ops cur) s
           | Seek t strict \<Rightarrow>
               if pastTarget reverse t strict k then On (co_step ops cur) s
               else
                 (case stepToward ops (pastTarget reverse t strict) budget cur of
                    Ended \<Rightarrow> Over s
                  | Reached cur' \<Rightarrow> On cur' s
                  | Spent cur' \<Rightarrow> On (co_seek ops cur' (Some t) strict) s)))"

text \<open>The loop itself: its turns, \<open>None\<close> when it would never end.\<close>

partial_function (option) walkLoop :: "('c \<Rightarrow> 's \<Rightarrow> ('c, 's) turn) \<Rightarrow> 'c \<Rightarrow> 's \<Rightarrow> 's option" where
  "walkLoop turn cur s =
     (case turn cur s of Over s' \<Rightarrow> Some s' | On cur' s' \<Rightarrow> walkLoop turn cur' s')"

definition walkStart :: "'c cursor_ops \<Rightarrow> compiled_pattern \<Rightarrow> bool \<Rightarrow> jsstr option \<Rightarrow> 'c \<Rightarrow> 'c" where
  "walkStart ops c reverse after cur =
     (case after of
        Some a \<Rightarrow> co_seek ops cur (Some a) True
      | None \<Rightarrow>
          if \<not> reverse then co_seek ops cur (Some (cp_head c)) False
          else let end' = prefixEnd (cp_head c) in co_seek ops cur end' (end' \<noteq> None))"

definition walkPattern ::
  "'c cursor_ops \<Rightarrow> compiled_pattern \<Rightarrow> bool \<Rightarrow> jsstr option \<Rightarrow> nat \<Rightarrow> ('s \<Rightarrow> jsstr \<Rightarrow> 's \<times> bool) \<Rightarrow> 'c \<Rightarrow>
   's \<Rightarrow> 's option"
where
  "walkPattern ops c reverse after budget visit cur s =
     walkLoop (walkTurn ops c reverse budget visit) (walkStart ops c reverse after cur) s"

section \<open>Walk order\<close>

definition walks :: "bool \<Rightarrow> jsstr \<Rightarrow> jsstr \<Rightarrow> bool" where
  "walks reverse a b = (if reverse then key_less b a else key_less a b)"

lemma walks_trans: "walks r a b \<Longrightarrow> walks r b c \<Longrightarrow> walks r a c"
  by (auto simp: walks_def intro: key_less_trans split: if_splits)

definition seekList :: "bool \<Rightarrow> jsstr list \<Rightarrow> jsstr option \<Rightarrow> bool \<Rightarrow> jsstr list" where
  "seekList reverse ks t strict =
     (case t of None \<Rightarrow> ks | Some t \<Rightarrow> dropWhile (beforeTarget reverse t strict) ks)"

lemma pastTarget: "pastTarget reverse t strict k \<longleftrightarrow> \<not> beforeTarget reverse t strict k"
proof -
  have "exactFor [Some t] k t > 0 \<longleftrightarrow> key_less t k" "exactFor [Some t] k t = 0 \<longleftrightarrow> k = t"
    "exactFor [Some t] t k > 0 \<longleftrightarrow> key_less k t" "exactFor [Some t] t k = 0 \<longleftrightarrow> t = k"
    by (rule exactFor_order; simp)+
  then show ?thesis
    using key_less_linear [of k t]
    by (auto simp: pastTarget_def beforeTarget_def Let_def dest: key_less_asym)
qed

lemma beforeTarget_ahead:
  "ahead reverse (Seek t strict) k \<longleftrightarrow> \<not> beforeTarget reverse t strict k"
  using key_less_linear [of k t] by (auto simp: beforeTarget_def dest: key_less_asym)

lemma beforeTarget_down: "walks r a b \<Longrightarrow> beforeTarget r t st b \<Longrightarrow> beforeTarget r t st a"
  by (auto simp: walks_def beforeTarget_def intro: key_less_trans split: if_splits)

lemma dropWhile_suffix:
  assumes "sorted_wrt (walks r) (pre @ k # v)" "beforeTarget r t st k"
  shows "dropWhile (beforeTarget r t st) (pre @ k # v) = dropWhile (beforeTarget r t st) v"
proof -
  have "\<forall>a \<in> set pre. beforeTarget r t st a"
    using assms beforeTarget_down by (auto simp: sorted_wrt_append)
  with assms(2) show ?thesis by (simp add: dropWhile_append)
qed

section \<open>The interface of a cursor\<close>

text \<open>The keys a walk hands to \<open>visit\<close>, until it answers false.\<close>

fun visitAll :: "('s \<Rightarrow> jsstr \<Rightarrow> 's \<times> bool) \<Rightarrow> jsstr list \<Rightarrow> 's \<Rightarrow> 's" where
  "visitAll visit [] s = s"
| "visitAll visit (k # ks) s = (let (s', go) = visit s k in if go then visitAll visit ks s' else s')"

text \<open>Placements that pass no matching key, for a list of keys in walk order.\<close>

definition sound_for :: "compiled_pattern \<Rightarrow> bool \<Rightarrow> jsstr list \<Rightarrow> bool" where
  "sound_for c reverse ks = sorted_wrt
     (\<lambda>k k'. placeKey c k' reverse = Match \<longrightarrow> ahead reverse (placeKey c k reverse) k') ks"

lemma sound_append: "sound_for c reverse (a @ b) \<Longrightarrow> sound_for c reverse b"
  by (simp add: sound_for_def sorted_wrt_append)

lemma sound_skip:
  assumes "sound_for c r (k # v)" "placeKey c k r = Seek t st"
  shows "filter (\<lambda>k. placeKey c k r = Match) (dropWhile (beforeTarget r t st) v) =
    filter (\<lambda>k. placeKey c k r = Match) v"
proof -
  have ah: "ahead r (Seek t st) k'" if "k' \<in> set v" "placeKey c k' r = Match" for k'
    using assms that by (simp add: sound_for_def)
  have "placeKey c k' r \<noteq> Match" if "k' \<in> set (takeWhile (beforeTarget r t st) v)" for k'
    using ah [of k'] set_takeWhileD [OF that] beforeTarget_ahead by blast
  then have "filter (\<lambda>k. placeKey c k r = Match) (takeWhile (beforeTarget r t st) v) = []"
    by (simp add: filter_empty_conv)
  then show ?thesis
    using filter_append [of "\<lambda>k. placeKey c k r = Match" "takeWhile (beforeTarget r t st) v"
      "dropWhile (beforeTarget r t st) v"] by simp
qed

lemma sound_done:
  assumes "sound_for c r (k # v)" "placeKey c k r = Done"
  shows "filter (\<lambda>k. placeKey c k r = Match) v = []"
  using assms by (auto simp: sound_for_def filter_empty_conv)

section \<open>Where a walk starts\<close>

definition start_view :: "compiled_pattern \<Rightarrow> bool \<Rightarrow> jsstr option \<Rightarrow> jsstr list \<Rightarrow> jsstr list" where
  "start_view c reverse after ks =
     (case after of
        Some a \<Rightarrow> seekList reverse ks (Some a) True
      | None \<Rightarrow>
          if \<not> reverse then seekList reverse ks (Some (cp_head c)) False
          else let end' = prefixEnd (cp_head c) in seekList reverse ks end' (end' \<noteq> None))"

text \<open>The keys of a walk: those the pattern picks out, past \<open>after\<close> when there is one.\<close>

definition walk_keys :: "compiled_pattern \<Rightarrow> bool \<Rightarrow> jsstr option \<Rightarrow> jsstr list \<Rightarrow> jsstr list" where
  "walk_keys c reverse after ks = filter (matchesPattern c) (seekList reverse ks after True)"

lemma seekList_suffix: "\<exists>pre. ks = pre @ seekList r ks t st"
  by (cases t) (auto simp: seekList_def intro: takeWhile_dropWhile_id [symmetric])

lemma seekList_sorted: "sorted_wrt (walks r) ks \<Longrightarrow> sorted_wrt (walks r) (seekList r ks t st)"
  using seekList_suffix [of ks r t st] by (metis sorted_wrt_append)

lemma seekList_member:
  assumes "sorted_wrt (walks r) ks" "k \<in> set (seekList r ks (Some t) st)"
  shows "\<not> beforeTarget r t st k"
proof
  assume b: "beforeTarget r t st k"
  define v where "v = dropWhile (beforeTarget r t st) ks"
  have v: "k \<in> set v" "sorted_wrt (walks r) v"
    using assms seekList_sorted [OF assms(1)] by (simp_all add: v_def seekList_def)
  then obtain h w where h: "v = h # w" by (cases v) auto
  then have nb: "\<not> beforeTarget r t st h" unfolding v_def by (simp add: dropWhile_eq_Cons_conv)
  have "h = k \<or> walks r h k" using v h by auto
  then show False using nb b beforeTarget_down by blast
qed

lemma filter_seekList:
  assumes "\<And>k. k \<in> set ks \<Longrightarrow> beforeTarget r t st k \<Longrightarrow> \<not> P k"
  shows "filter P (seekList r ks (Some t) st) = filter P ks"
proof -
  have "\<not> P k" if "k \<in> set (takeWhile (beforeTarget r t st) ks)" for k
    using assms that set_takeWhileD by metis
  then have "filter P (takeWhile (beforeTarget r t st) ks) = []"
    by (simp add: filter_empty_conv)
  then show ?thesis
    using filter_append [of P "takeWhile (beforeTarget r t st) ks" "dropWhile (beforeTarget r t st) ks"]
    by (simp add: seekList_def)
qed

lemma start_bound:
  assumes c: "compilePattern p = Inr c" and ks: "sorted_wrt (walks r) ks"
    and after: "\<And>a. after = Some a \<Longrightarrow> prefix (cp_head c) a"
    and k: "k \<in> set (start_view c r after ks)"
  shows "if r then below_head c k else key_le (cp_head c) k"
proof (cases after)
  case (Some a)
  have "\<not> beforeTarget r a True k"
    using seekList_member [OF ks] k Some by (simp add: start_view_def)
  moreover have "below_head c a \<and> key_le (cp_head c) a"
    using holds_below_head [OF c after [OF Some]] .
  ultimately show ?thesis
    by (auto simp: beforeTarget_def below_head_def key_not_less split: option.splits if_splits
        intro: key_le_less_trans key_le_trans)
next
  case None
  show ?thesis
  proof (cases r)
    case False
    then show ?thesis
      using seekList_member [OF ks, of k "cp_head c" False] k None
      by (simp add: start_view_def beforeTarget_def key_not_less)
  next
    case True
    show ?thesis
    proof (cases "prefixEnd (cp_head c)")
      case None
      then show ?thesis using True by (simp add: below_head_def)
    next
      case (Some e)
      then have "\<not> beforeTarget r e True k"
        using seekList_member [OF ks, of k e True] k None True by (simp add: start_view_def)
      then show ?thesis
        using True Some by (auto simp: below_head_def beforeTarget_def key_not_less key_le_iff)
    qed
  qed
qed

lemma start_sound:
  assumes c: "compilePattern p = Inr c" "name_ok p" "r \<Longrightarrow> bounds_ok (cp_fields c)"
    and ks: "sorted_wrt (walks r) ks" "\<And>k. k \<in> set ks \<Longrightarrow> key_rule c k"
    and after: "\<And>a. after = Some a \<Longrightarrow> prefix (cp_head c) a"
  shows "sound_for c r (start_view c r after ks)"
proof -
  define v where "v = start_view c r after ks"
  have "\<exists>t st. v = seekList r ks t st"
    unfolding v_def start_view_def Let_def by (cases after; cases r) auto
  then obtain pre where pre: "ks = pre @ v" using seekList_suffix [of ks r] by metis
  have v: "sorted_wrt (walks r) v" using ks(1) pre by (simp add: sorted_wrt_append)
  have rule: "key_rule c k" if "k \<in> set v" for k using ks(2) pre that by auto
  have bound: "if r then below_head c k else key_le (cp_head c) k" if "k \<in> set v" for k
    using start_bound [OF c(1) ks(1) after] that unfolding v_def by blast
  have step: "ahead r (placeKey c k r) k'"
    if "k \<in> set v" "k' \<in> set v" "walks r k k'" "placeKey c k' r = Match" for k k'
  proof -
    have h: "holds c k'" using that(4) placeKey_match [OF c(1,2)] by blast
    show ?thesis
    proof (cases r)
      case True
      then show ?thesis
        using place_sound_back [OF c(1,2) c(3) [OF True] rule [OF that(1)] _ rule [OF that(2)] h]
          bound [OF that(1)] that(3) by (simp add: walks_def)
    next
      case False
      then show ?thesis
        using place_sound_forward [OF c(1,2) rule [OF that(1)] _ rule [OF that(2)] h]
          bound [OF that(1)] that(3) by (simp add: walks_def)
    qed
  qed
  have "sorted_wrt (\<lambda>k k'. placeKey c k' r = Match \<longrightarrow> ahead r (placeKey c k r) k') v"
    by (rule sorted_wrt_mono_rel [OF _ v]) (use step in blast)
  then show ?thesis by (simp add: sound_for_def v_def)
qed

lemma start_keys:
  assumes c: "compilePattern p = Inr c" "name_ok p"
  shows "filter (\<lambda>k. placeKey c k r = Match) (start_view c r after ks) = walk_keys c r after ks"
proof -
  have m: "placeKey c k r = Match \<longleftrightarrow> holds c k" for k r by (rule placeKey_match [OF c])
  have m': "matchesPattern c = holds c" using matchesPattern_holds [OF c] by blast
  have head: "filter (holds c) (seekList r ks (Some t) st) = filter (holds c) ks"
    if "\<And>k. beforeTarget r t st k \<Longrightarrow> below_head c k \<Longrightarrow> key_le (cp_head c) k \<Longrightarrow> False" for t st
    by (rule filter_seekList) (use that holds_below_head [OF c(1)] in \<open>auto simp: holds_def\<close>)
  show ?thesis
  proof (cases after)
    case (Some a)
    then show ?thesis by (simp add: start_view_def walk_keys_def m m')
  next
    case None
    show ?thesis
    proof (cases r)
      case False
      have "filter (holds c) (seekList r ks (Some (cp_head c)) False) = filter (holds c) ks"
        by (rule head) (use False in \<open>auto simp: beforeTarget_def key_not_less [symmetric]\<close>)
      then show ?thesis
        using None False by (simp add: start_view_def walk_keys_def m m' seekList_def)
    next
      case True
      show ?thesis
      proof (cases "prefixEnd (cp_head c)")
        case None
        then show ?thesis using \<open>after = None\<close> True
          by (simp add: start_view_def walk_keys_def m m' seekList_def)
      next
        case (Some e)
        have "filter (holds c) (seekList r ks (Some e) True) = filter (holds c) ks"
          by (rule head)
            (use True Some in \<open>auto simp: beforeTarget_def below_head_def dest: key_less_asym\<close>)
        then show ?thesis using \<open>after = None\<close> True Some
          by (simp add: start_view_def walk_keys_def m m' seekList_def)
      qed
    qed
  qed
qed

locale key_cursor =
  fixes ops :: "'c cursor_ops"
    and valid :: "'c \<Rightarrow> bool"
    and placed :: "'c \<Rightarrow> bool"
    and backward :: "'c \<Rightarrow> bool"
    and every :: "'c \<Rightarrow> jsstr list"
    and view :: "'c \<Rightarrow> jsstr list"
  assumes every_sorted: "valid c \<Longrightarrow> sorted_wrt (walks (backward c)) (every c)"
    and seek_valid: "valid c \<Longrightarrow> valid (co_seek ops c t st) \<and> placed (co_seek ops c t st)"
    and seek_same: "valid c \<Longrightarrow> backward (co_seek ops c t st) = backward c \<and> every (co_seek ops c t st) = every c"
    and seek_view: "valid c \<Longrightarrow> view (co_seek ops c t st) = seekList (backward c) (every c) t st"
    and key_view: "valid c \<Longrightarrow> placed c \<Longrightarrow> co_key ops c = (case view c of [] \<Rightarrow> None | k # v \<Rightarrow> Some k)"
    and step_valid: "valid c \<Longrightarrow> placed c \<Longrightarrow> view c \<noteq> [] \<Longrightarrow> valid (co_step ops c) \<and> placed (co_step ops c)"
    and step_same: "valid c \<Longrightarrow> placed c \<Longrightarrow> view c \<noteq> [] \<Longrightarrow>
      backward (co_step ops c) = backward c \<and> every (co_step ops c) = every c"
    and step_view: "valid c \<Longrightarrow> placed c \<Longrightarrow> view c \<noteq> [] \<Longrightarrow> view (co_step ops c) = tl (view c)"
    and view_suffix: "valid c \<Longrightarrow> placed c \<Longrightarrow> \<exists>pre. every c = pre @ view c"
begin

text \<open>A cursor at a view \<open>v\<close>, walking one way over the same keys.\<close>

definition at :: "'c \<Rightarrow> bool \<Rightarrow> jsstr list \<Rightarrow> jsstr list \<Rightarrow> bool" where
  "at c r ks v = (valid c \<and> placed c \<and> backward c = r \<and> every c = ks \<and> view c = v)"

lemma at_step: "at c r ks (k # v) \<Longrightarrow> at (co_step ops c) r ks v"
  using step_valid [of c] step_same [of c] step_view [of c] by (auto simp: at_def)

lemma at_key: "at c r ks v \<Longrightarrow> co_key ops c = (case v of [] \<Rightarrow> None | k # v \<Rightarrow> Some k)"
  using key_view [of c] by (auto simp: at_def)

lemma at_seek: "at c r ks v \<Longrightarrow> at (co_seek ops c t st) r ks (seekList r ks t st)"
  using seek_valid [of c] seek_same [of c] seek_view [of c] by (auto simp: at_def)

lemma at_suffix:
  assumes "at c r ks v"
  obtains pre where "ks = pre @ v" "sorted_wrt (walks r) ks"
  using assms view_suffix [of c] every_sorted [of c] by (auto simp: at_def)

lemma at_seek_ahead:
  assumes "at c r ks (k # v)" "beforeTarget r t st k"
  shows "at (co_seek ops c (Some t) st) r ks (dropWhile (beforeTarget r t st) v)"
proof -
  obtain pre where "ks = pre @ k # v" "sorted_wrt (walks r) ks" using at_suffix assms(1) by blast
  then have "seekList r ks (Some t) st = dropWhile (beforeTarget r t st) v"
    using dropWhile_suffix assms(2) by (simp add: seekList_def)
  then show ?thesis using at_seek [OF assms(1)] by metis
qed

lemma toward:
  assumes "at c r ks (k # v)" "beforeTarget r t st k"
  shows "case stepToward ops (pastTarget r t st) n c of
      Ended \<Rightarrow> dropWhile (beforeTarget r t st) v = []
    | Reached c' \<Rightarrow> at c' r ks (dropWhile (beforeTarget r t st) v)
    | Spent c' \<Rightarrow> at (co_seek ops c' (Some t) st) r ks (dropWhile (beforeTarget r t st) v)"
  using assms
proof (induction n arbitrary: c k v)
  case 0
  then show ?case using at_seek_ahead by simp
next
  case (Suc n)
  have next': "at (co_step ops c) r ks v" by (rule at_step [OF Suc.prems(1)])
  show ?case
  proof (cases v)
    case Nil
    then show ?thesis using at_key [OF next'] by (simp add: Let_def)
  next
    case (Cons k' v')
    then show ?thesis
      using at_key [OF next'] Suc.IH [of "co_step ops c" k' v'] next'
      by (simp add: Let_def pastTarget cong: stepped.case_cong)
  qed
qed

text \<open>The walk over any cursor: it returns, and visits the matching keys in walk order.\<close>

lemma walkLoop_visits:
  assumes "at cur r ks v" "sound_for c r v"
  shows "walkLoop (walkTurn ops c r budget visit) cur s =
    Some (visitAll visit (filter (\<lambda>k. placeKey c k r = Match) v) s)"
  using assms
proof (induction "length v" arbitrary: cur v s rule: less_induct)
  case less
  note key = at_key [OF less.prems(1)]
  show ?case
  proof (cases v)
    case Nil
    then show ?thesis using key by (subst walkLoop.simps) (simp add: walkTurn_def)
  next
    case (Cons k w)
    have next': "at (co_step ops cur) r ks w" using at_step less.prems(1) Cons by blast
    have sound: "sound_for c r (k # w)" "sound_for c r w"
      using less.prems(2) sound_append [of c r "[k]" w] Cons by simp_all
    have IHw: "walkLoop (walkTurn ops c r budget visit) (co_step ops cur) s' =
        Some (visitAll visit (filter (\<lambda>k. placeKey c k r = Match) w) s')" for s'
      by (rule less.hyps) (use Cons next' sound in simp_all)
    show ?thesis
    proof (cases "placeKey c k r")
      case Match
      then show ?thesis using key Cons IHw by (subst walkLoop.simps) (simp add: walkTurn_def split: prod.split)
    next
      case Step
      then show ?thesis using key Cons IHw by (subst walkLoop.simps) (simp add: walkTurn_def)
    next
      case Done
      then show ?thesis
        using key Cons sound_done [OF sound(1) Done] by (subst walkLoop.simps) (simp add: walkTurn_def)
    next
      case (Seek t st)
      show ?thesis
      proof (cases "beforeTarget r t st k")
        case False
        then show ?thesis
          using key Cons IHw Seek by (subst walkLoop.simps) (simp add: walkTurn_def pastTarget)
      next
        case True
        define w' where "w' = dropWhile (beforeTarget r t st) w"
        have len: "length w' < length v"
          unfolding w'_def using Cons length_dropWhile_le [of "beforeTarget r t st" w] by simp
        have "w = takeWhile (beforeTarget r t st) w @ w'" by (simp add: w'_def)
        then have sound': "sound_for c r w'" using sound(2) sound_append by metis
        have IHw': "walkLoop (walkTurn ops c r budget visit) cur' s =
            Some (visitAll visit (filter (\<lambda>k. placeKey c k r = Match) w') s)"
          if "at cur' r ks w'" for cur'
          by (rule less.hyps [OF len that sound'])
        have same: "filter (\<lambda>k. placeKey c k r = Match) w' = filter (\<lambda>k. placeKey c k r = Match) w"
          unfolding w'_def by (rule sound_skip [OF sound(1) Seek])
        have "at cur r ks (k # w)" using less.prems(1) Cons by simp
        from toward [OF this True, of budget, folded w'_def] show ?thesis
          using key Cons Seek True IHw' same
          by (subst walkLoop.simps) (auto simp: walkTurn_def pastTarget split: stepped.splits)
      qed
    qed
  qed
qed
lemma at_start:
  assumes "valid cur"
  shows "at (walkStart ops c r after cur) (backward cur) (every cur)
    (start_view c r after (every cur)) \<or> r \<noteq> backward cur"
  using seek_valid [OF assms] seek_same [OF assms] seek_view [OF assms]
  by (auto simp: at_def walkStart_def start_view_def Let_def split: option.splits)

text \<open>The contract of a scan over any cursor.\<close>

lemma walkPattern_visits:
  assumes c: "compilePattern p = Inr c" "name_ok p" "r \<Longrightarrow> bounds_ok (cp_fields c)"
    and cur: "valid cur" "backward cur = r" "\<And>k. k \<in> set (every cur) \<Longrightarrow> key_rule c k"
    and after: "\<And>a. after = Some a \<Longrightarrow> prefix (cp_head c) a"
  shows "walkPattern ops c r after budget visit cur s =
    Some (visitAll visit (walk_keys c r after (every cur)) s)"
proof -
  have "at (walkStart ops c r after cur) r (every cur) (start_view c r after (every cur))"
    using at_start [OF cur(1), of c r after] cur(2) by simp
  moreover have "sound_for c r (start_view c r after (every cur))"
    using start_sound [OF c _ cur(3) after] every_sorted [OF cur(1)] cur(2) by simp
  ultimately show ?thesis
    unfolding walkPattern_def start_keys [OF c(1,2), symmetric] by (rule walkLoop_visits)
qed

end

end
