(* ===== verification/Cursors.thy ===== *)
theory Cursors
  imports KeyCursor "HOL-Library.While_Combinator"
begin

text \<open>
  The cursors over a sorted array, with keys hidden, and over two cursors at once
  (typespec/ts/assets/skeleton.ts, \<open>bisect\<close>, \<open>arrayCursor\<close>, \<open>filterCursor\<close>, \<open>mergeCursors\<close>), each
  an instance of the cursor's interface.
\<close>

section \<open>Binary search\<close>

text \<open>Indices stay below \<open>2 ^ 31\<close>, so the source's \<open>>>> 1\<close> halves.\<close>

function bisectLoop :: "(nat \<Rightarrow> bool) \<Rightarrow> nat \<Rightarrow> nat \<Rightarrow> nat" where
  "bisectLoop before lo hi =
     (if lo < hi then
        let mid = (lo + hi) div 2 in
        if before mid then bisectLoop before (mid + 1) hi else bisectLoop before lo mid
      else lo)"
  by auto
termination
  by (relation "measure (\<lambda>(before, lo, hi). hi - lo)") auto

definition bisect :: "nat \<Rightarrow> (nat \<Rightarrow> bool) \<Rightarrow> nat" where
  "bisect n before = bisectLoop before 0 n"

declare bisectLoop.simps [simp del]

lemma bisectLoop_threshold:
  assumes "\<And>i. i < n \<Longrightarrow> before i \<longleftrightarrow> i < t" "lo \<le> t" "t \<le> hi" "hi \<le> n"
  shows "bisectLoop before lo hi = t"
  using assms
proof (induction before lo hi rule: bisectLoop.induct)
  case (1 before lo hi)
  show ?case
  proof (cases "lo < hi")
    case False
    then show ?thesis using "1.prems" by (simp add: bisectLoop.simps)
  next
    case True
    have "before ((lo + hi) div 2) \<longleftrightarrow> (lo + hi) div 2 < t"
      using "1.prems"(1) [of "(lo + hi) div 2"] True "1.prems"(4) by simp
    then show ?thesis
      using True "1.prems" "1.IH" by (subst bisectLoop.simps) (auto simp: Let_def)
  qed
qed

text \<open>The search finds the first index where \<open>before\<close> turns false.\<close>

lemma bisect_threshold:
  "(\<And>i. i < n \<Longrightarrow> before i \<longleftrightarrow> i < t) \<Longrightarrow> t \<le> n \<Longrightarrow> bisect n before = t"
  unfolding bisect_def by (rule bisectLoop_threshold [where n = n]) auto

lemma bisect_list:
  assumes "sorted_wrt (\<lambda>x y. P y \<longrightarrow> P x) xs"
  shows "bisect (length xs) (\<lambda>i. P (xs ! i)) = length (takeWhile P xs)"
proof (rule bisect_threshold)
  fix i assume i: "i < length xs"
  show "P (xs ! i) \<longleftrightarrow> i < length (takeWhile P xs)"
  proof
    assume "i < length (takeWhile P xs)"
    then show "P (xs ! i)" by (metis nth_mem set_takeWhileD takeWhile_nth)
  next
    assume pi: "P (xs ! i)"
    have "P (xs ! j)" if "j < Suc i" for j
    proof (cases "j = i")
      case False
      then have "P (xs ! i) \<longrightarrow> P (xs ! j)"
        using sorted_wrt_nth_less [OF assms, of j i] that i by simp
      then show ?thesis using pi by simp
    qed (use pi in simp)
    then have "Suc i \<le> length (takeWhile P xs)"
      using i by (intro length_takeWhile_less_P_nth) auto
    then show "i < length (takeWhile P xs)" by simp
  qed
qed (rule length_takeWhile_le)

text \<open>\<open>before\<close> of a seek: the keys under its target, the target with them when \<open>strict\<close>.\<close>

definition seekBefore :: "jsstr \<Rightarrow> bool \<Rightarrow> jsstr \<Rightarrow> bool" where
  "seekBefore t strict k = (let d = exactFor [Some t] k t in d < 0 \<or> (strict \<and> d = 0))"

lemma seekBefore: "seekBefore t strict k \<longleftrightarrow> key_less k t \<or> (strict \<and> k = t)"
proof -
  have "exactFor [Some t] k t < 0 \<longleftrightarrow> key_less k t" "exactFor [Some t] k t = 0 \<longleftrightarrow> k = t"
    by (rule exactFor_order; simp)+
  then show ?thesis by (simp add: seekBefore_def Let_def)
qed

lemma seekBefore_down: "key_less x y \<Longrightarrow> seekBefore t strict y \<Longrightarrow> seekBefore t strict x"
  by (auto simp: seekBefore intro: key_less_trans)

lemma ascending_seek: "ascending ks \<Longrightarrow> sorted_wrt (\<lambda>x y. seekBefore t st y \<longrightarrow> seekBefore t st x) ks"
  by (rule sorted_wrt_mono_rel [where P = key_less]) (use seekBefore_down in blast)+

text \<open>Either way of walking an ascending list, in terms of the number of keys before the target.\<close>

lemma seek_forward:
  "seekList False ks (Some t) st = drop (length (takeWhile (seekBefore t st) ks)) ks"
proof -
  have "beforeTarget False t st = seekBefore t st"
    by (auto simp: beforeTarget_def seekBefore fun_eq_iff)
  then show ?thesis by (simp add: seekList_def dropWhile_eq_drop)
qed

lemma seek_back:
  assumes "ascending ks"
  shows "seekList True (rev ks) (Some t) st = rev (take (length (takeWhile (seekBefore t (\<not> st)) ks)) ks)"
proof -
  let ?P = "seekBefore t (\<not> st)"
  have b: "beforeTarget True t st k \<longleftrightarrow> \<not> ?P k" for k
    using key_less_linear [of k t] by (auto simp: beforeTarget_def seekBefore dest: key_less_asym)
  have "dropWhile (\<lambda>k. \<not> ?P k) (rev ks) = rev (takeWhile ?P ks)"
    using ascending_seek [OF assms, of t "\<not> st"]
  proof (induction ks)
    case (Cons k ks)
    show ?case
    proof (cases "?P k")
      case True
      then have "dropWhile (\<lambda>k. \<not> ?P k) (rev ks @ [k]) = dropWhile (\<lambda>k. \<not> ?P k) (rev ks) @ [k]"
        by (induction "rev ks" arbitrary: ks rule: list.induct) (simp_all add: dropWhile_append)
      then show ?thesis using Cons True by simp
    next
      case False
      then have "\<not> ?P x" if "x \<in> set ks" for x using Cons.prems that by auto
      then have "dropWhile (\<lambda>k. \<not> ?P k) (rev ks) = []" by (simp add: dropWhile_eq_Nil_conv)
      then show ?thesis using False by (simp add: dropWhile_append)
    qed
  qed simp
  moreover have "take (length (takeWhile ?P ks)) ks = takeWhile ?P ks"
    by (metis takeWhile_eq_take)
  ultimately show ?thesis by (simp add: seekList_def b [abs_def])
qed

section \<open>A cursor over a sorted array\<close>

record array_cursor =
  ac_keys :: "jsstr list"
  ac_reverse :: bool
  ac_j :: int

definition arrayStart :: "jsstr list \<Rightarrow> bool \<Rightarrow> array_cursor" where
  "arrayStart keys reverse = \<lparr>ac_keys = keys, ac_reverse = reverse, ac_j = 0\<rparr>"

definition arrayKey :: "array_cursor \<Rightarrow> jsstr option" where
  "arrayKey c =
     (if 0 \<le> ac_j c \<and> ac_j c < int (length (ac_keys c)) then Some (ac_keys c ! nat (ac_j c)) else None)"

definition arraySeek :: "array_cursor \<Rightarrow> jsstr option \<Rightarrow> bool \<Rightarrow> array_cursor" where
  "arraySeek c target strict =
     (case target of
        None \<Rightarrow> c\<lparr>ac_j := if ac_reverse c then int (length (ac_keys c)) - 1 else 0\<rparr>
      | Some t \<Rightarrow>
          let before = (\<lambda>k. let d = exactFor [Some t] k t in d < 0 \<or> (d = 0 \<and> strict \<noteq> ac_reverse c)) in
          c\<lparr>ac_j := int (bisect (length (ac_keys c)) (\<lambda>i. before (ac_keys c ! i))) -
             (if ac_reverse c then 1 else 0)\<rparr>)"

definition arrayStep :: "array_cursor \<Rightarrow> array_cursor" where
  "arrayStep c = c\<lparr>ac_j := ac_j c + (if ac_reverse c then -1 else 1)\<rparr>"

definition arrayCursor :: "array_cursor cursor_ops" where
  "arrayCursor = \<lparr>co_key = arrayKey, co_seek = arraySeek, co_step = arrayStep\<rparr>"

text \<open>A position in an ascending list, either way, and the keys it leaves.\<close>

definition walk_view :: "bool \<Rightarrow> jsstr list \<Rightarrow> int \<Rightarrow> jsstr list" where
  "walk_view r ks j = (if r then rev (take (nat (j + 1)) ks) else drop (nat j) ks)"

definition walk_every :: "bool \<Rightarrow> jsstr list \<Rightarrow> jsstr list" where
  "walk_every r ks = (if r then rev ks else ks)"

definition walk_placed :: "bool \<Rightarrow> jsstr list \<Rightarrow> int \<Rightarrow> bool" where
  "walk_placed r ks j = (if r then -1 \<le> j \<and> j < int (length ks) else 0 \<le> j \<and> j \<le> int (length ks))"

lemma walk_every_sorted: "ascending ks \<Longrightarrow> sorted_wrt (walks r) (walk_every r ks)"
  by (simp add: walk_every_def walks_def [abs_def] sorted_wrt_rev)

lemma walk_seek:
  assumes "ascending ks"
  shows "seekList r (walk_every r ks) (Some t) st =
    walk_view r ks (int (length (takeWhile (seekBefore t (st \<noteq> r)) ks)) - (if r then 1 else 0))"
  using seek_forward [of ks t st] seek_back [OF assms, of t st]
  by (simp add: walk_every_def walk_view_def)

lemma walk_first: "walk_every r ks = walk_view r ks (if r then int (length ks) - 1 else 0)"
  by (simp add: walk_every_def walk_view_def)

lemma walk_placed_first: "walk_placed r ks (if r then int (length ks) - 1 else 0)"
  by (simp add: walk_placed_def)

lemma walk_placed_seek:
  "walk_placed r ks (int (length (takeWhile P ks)) - (if r then 1 else 0))"
  using length_takeWhile_le [of P ks] by (auto simp: walk_placed_def)

lemma walk_key:
  assumes "walk_placed r ks j"
  shows "(case walk_view r ks j of [] \<Rightarrow> None | k # v \<Rightarrow> Some k) =
    (if 0 \<le> j \<and> j < int (length ks) then Some (ks ! nat j) else None)"
proof (cases r)
  case False
  then have "drop (nat j) ks = (if j < int (length ks) then ks ! nat j # drop (Suc (nat j)) ks else [])"
    using assms by (auto simp: walk_placed_def Cons_nth_drop_Suc)
  then show ?thesis using False assms by (simp add: walk_view_def walk_placed_def)
next
  case True
  then have j: "-1 \<le> j" "j < int (length ks)" using assms by (simp_all add: walk_placed_def)
  show ?thesis
  proof (cases "j = -1")
    case False
    with j have n: "nat (j + 1) = Suc (nat j)" "nat j < length ks" by auto
    have "take (Suc (nat j)) ks = take (nat j) ks @ [ks ! nat j]"
      by (rule take_Suc_conv_app_nth [OF n(2)])
    then show ?thesis using True False j n by (simp add: walk_view_def)
  qed (use True in \<open>simp add: walk_view_def\<close>)
qed

lemma walk_step:
  assumes "walk_placed r ks j" "walk_view r ks j \<noteq> []"
  shows "walk_view r ks (j + (if r then -1 else 1)) = tl (walk_view r ks j)"
    "walk_placed r ks (j + (if r then -1 else 1))"
proof -
  show "walk_view r ks (j + (if r then -1 else 1)) = tl (walk_view r ks j)"
  proof (cases r)
    case False
    then have "nat (j + 1) = Suc (nat j)" using assms(1) by (auto simp: walk_placed_def)
    then show ?thesis using False by (simp add: walk_view_def drop_Suc tl_drop)
  next
    case True
    then have j: "0 \<le> j" "nat j < length ks" and n: "nat (j + 1) = Suc (nat j)"
      using assms by (auto simp: walk_placed_def walk_view_def)
    then show ?thesis
      using True take_Suc_conv_app_nth [OF j(2)] by (simp add: walk_view_def)
  qed
  show "walk_placed r ks (j + (if r then -1 else 1))"
    using assms by (auto simp: walk_placed_def walk_view_def split: if_splits)
qed

lemma walk_suffix: "\<exists>pre. walk_every r ks = pre @ walk_view r ks j"
proof (cases r)
  case True
  have "rev ks = rev (drop (nat (j + 1)) ks) @ rev (take (nat (j + 1)) ks)"
    by (metis append_take_drop_id rev_append)
  then show ?thesis using True by (auto simp: walk_every_def walk_view_def)
next
  case False
  have "ks = take (nat j) ks @ drop (nat j) ks" by simp
  then show ?thesis using False unfolding walk_every_def walk_view_def by metis
qed

definition arrayValid :: "array_cursor \<Rightarrow> bool" where
  "arrayValid c = ascending (ac_keys c)"

definition arrayPlaced :: "array_cursor \<Rightarrow> bool" where
  "arrayPlaced c = walk_placed (ac_reverse c) (ac_keys c) (ac_j c)"

definition arrayView :: "array_cursor \<Rightarrow> jsstr list" where
  "arrayView c = walk_view (ac_reverse c) (ac_keys c) (ac_j c)"

definition arrayEvery :: "array_cursor \<Rightarrow> jsstr list" where
  "arrayEvery c = walk_every (ac_reverse c) (ac_keys c)"

lemma arraySeek_at:
  assumes "arrayValid c"
  shows "arraySeek c target strict =
    c\<lparr>ac_j := case target of None \<Rightarrow> if ac_reverse c then int (length (ac_keys c)) - 1 else 0
      | Some t \<Rightarrow> int (length (takeWhile (seekBefore t (strict \<noteq> ac_reverse c)) (ac_keys c))) -
          (if ac_reverse c then 1 else 0)\<rparr>"
proof (cases target)
  case (Some t)
  have "bisect (length (ac_keys c)) (\<lambda>i. seekBefore t (strict \<noteq> ac_reverse c) (ac_keys c ! i)) =
      length (takeWhile (seekBefore t (strict \<noteq> ac_reverse c)) (ac_keys c))"
    using assms by (intro bisect_list ascending_seek) (simp add: arrayValid_def)
  then show ?thesis
    using Some by (simp add: arraySeek_def seekBefore_def Let_def conj_commute)
qed (simp add: arraySeek_def)

lemmas array_defs = arrayCursor_def arrayValid_def arrayPlaced_def arrayView_def arrayEvery_def

interpretation array: key_cursor arrayCursor arrayValid arrayPlaced ac_reverse arrayEvery arrayView
proof
  fix c t st assume v: "arrayValid c"
  then have asc: "ascending (ac_keys c)" by (simp add: arrayValid_def)
  show "sorted_wrt (walks (ac_reverse c)) (arrayEvery c)"
    unfolding arrayEvery_def by (rule walk_every_sorted [OF asc])
  show "arrayValid (co_seek arrayCursor c t st) \<and> arrayPlaced (co_seek arrayCursor c t st)"
    using asc walk_placed_first walk_placed_seek
    by (cases t) (simp_all add: arraySeek_at [OF v] array_defs)
  show "ac_reverse (co_seek arrayCursor c t st) = ac_reverse c \<and>
      arrayEvery (co_seek arrayCursor c t st) = arrayEvery c"
    by (simp add: arraySeek_at [OF v] array_defs)
  show "arrayView (co_seek arrayCursor c t st) = seekList (ac_reverse c) (arrayEvery c) t st"
    using walk_seek [OF asc] walk_first
    by (cases t) (simp_all add: arraySeek_at [OF v] array_defs seekList_def [of _ _ None])
  assume p: "arrayPlaced c"
  show "co_key arrayCursor c = (case arrayView c of [] \<Rightarrow> None | k # v \<Rightarrow> Some k)"
    using p walk_key by (simp add: array_defs arrayKey_def)
  show "\<exists>pre. arrayEvery c = pre @ arrayView c"
    unfolding arrayEvery_def arrayView_def by (rule walk_suffix)
  assume w: "arrayView c \<noteq> []"
  show "arrayValid (co_step arrayCursor c) \<and> arrayPlaced (co_step arrayCursor c)"
    using asc p w walk_step(2) by (simp add: array_defs arrayStep_def)
  show "ac_reverse (co_step arrayCursor c) = ac_reverse c \<and>
      arrayEvery (co_step arrayCursor c) = arrayEvery c"
    by (simp add: array_defs arrayStep_def)
  show "arrayView (co_step arrayCursor c) = tl (arrayView c)"
    using p w walk_step(1) by (simp add: array_defs arrayStep_def)
qed

section \<open>A cursor that hides keys\<close>

definition skipHidden :: "'c cursor_ops \<Rightarrow> (jsstr \<Rightarrow> bool) \<Rightarrow> 'c \<Rightarrow> 'c" where
  "skipHidden inner hide =
     while (\<lambda>c. case co_key inner c of None \<Rightarrow> False | Some k \<Rightarrow> hide k) (co_step inner)"

definition filterCursor :: "'c cursor_ops \<Rightarrow> (jsstr \<Rightarrow> bool) \<Rightarrow> 'c cursor_ops" where
  "filterCursor inner hide =
     \<lparr>co_key = co_key inner,
      co_seek = (\<lambda>c target strict. skipHidden inner hide (co_seek inner c target strict)),
      co_step = (\<lambda>c. skipHidden inner hide (co_step inner c))\<rparr>"

lemma seekList_filter:
  assumes "sorted_wrt (walks r) ks"
  shows "filter P (seekList r ks t st) = seekList r (filter P ks) t st"
proof (cases t)
  case (Some t')
  have "filter P (dropWhile (beforeTarget r t' st) ks) = dropWhile (beforeTarget r t' st) (filter P ks)"
    using assms
  proof (induction ks)
    case (Cons k ks)
    show ?case
    proof (cases "beforeTarget r t' st k")
      case True
      then show ?thesis using Cons by simp
    next
      case False
      then have "\<not> beforeTarget r t' st x" if "x \<in> set ks" for x
        using Cons.prems beforeTarget_down that by auto
      then have "dropWhile (beforeTarget r t' st) (filter P ks) = filter P ks"
        by (simp add: dropWhile_eq_self_iff) (meson filter_is_subset list.set_sel(1) subsetD)
      then show ?thesis using False by simp
    qed
  qed simp
  then show ?thesis using Some by (simp add: seekList_def)
qed (simp add: seekList_def)

context key_cursor
begin

definition shown :: "(jsstr \<Rightarrow> bool) \<Rightarrow> 'c \<Rightarrow> bool" where
  "shown hide c = (placed c \<and> (case view c of [] \<Rightarrow> True | k # v \<Rightarrow> \<not> hide k))"

lemma skipHidden_at:
  assumes "at c r ks v"
  shows "at (skipHidden ops hide c) r ks (dropWhile hide v)"
  using assms
proof (induction v arbitrary: c)
  case Nil
  then show ?case
    using at_key [OF Nil] unfolding skipHidden_def by (subst while_unfold) simp
next
  case (Cons k v)
  have key: "co_key ops c = Some k" using at_key [OF Cons.prems] by simp
  show ?case
  proof (cases "hide k")
    case True
    then have "skipHidden ops hide c = skipHidden ops hide (co_step ops c)"
      using key unfolding skipHidden_def by (subst while_unfold) simp
    then show ?thesis using Cons.IH [OF at_step [OF Cons.prems]] True by simp
  next
    case False
    then have "skipHidden ops hide c = c"
      using key unfolding skipHidden_def by (subst while_unfold) simp
    then show ?thesis using Cons.prems False by simp
  qed
qed

lemma hidden_filter:
  "filter (\<lambda>k. \<not> hide k) (dropWhile hide v) = filter (\<lambda>k. \<not> hide k) v"
  by (induction v) auto

lemma at_self: "valid c \<Longrightarrow> placed c \<Longrightarrow> at c (backward c) (every c) (view c)"
  by (simp add: at_def)

lemma at_shown:
  assumes "at c r ks (dropWhile hide v)"
  shows "valid c" "shown hide c" "backward c = r" "every c = ks"
    "filter (\<lambda>k. \<not> hide k) (view c) = filter (\<lambda>k. \<not> hide k) v"
  using assms hidden_filter [of hide v]
  by (auto simp: at_def shown_def dropWhile_eq_Cons_conv split: list.split)

text \<open>Hiding keys keeps the contract: what is left is the keys not hidden.\<close>

lemma filterCursor_cursor:
  "key_cursor (filterCursor ops hide) valid (shown hide) backward
    (\<lambda>c. filter (\<lambda>k. \<not> hide k) (every c)) (\<lambda>c. filter (\<lambda>k. \<not> hide k) (view c))"
proof
  fix c t st assume v: "valid c"
  show "sorted_wrt (walks (backward c)) (filter (\<lambda>k. \<not> hide k) (every c))"
    by (rule sorted_wrt_filter [OF every_sorted [OF v]])
  have "at (co_seek ops c t st) (backward c) (every c) (seekList (backward c) (every c) t st)"
    using seek_valid [OF v] seek_same [OF v] seek_view [OF v] by (simp add: at_def)
  from at_shown [OF skipHidden_at [OF this, of hide]]
  have s: "valid (co_seek (filterCursor ops hide) c t st)"
      "shown hide (co_seek (filterCursor ops hide) c t st)"
      "backward (co_seek (filterCursor ops hide) c t st) = backward c"
      "every (co_seek (filterCursor ops hide) c t st) = every c"
      "filter (\<lambda>k. \<not> hide k) (view (co_seek (filterCursor ops hide) c t st)) =
        filter (\<lambda>k. \<not> hide k) (seekList (backward c) (every c) t st)"
    by (simp_all add: filterCursor_def)
  show "valid (co_seek (filterCursor ops hide) c t st) \<and>
      shown hide (co_seek (filterCursor ops hide) c t st)"
    using s by simp
  show "backward (co_seek (filterCursor ops hide) c t st) = backward c \<and>
      filter (\<lambda>k. \<not> hide k) (every (co_seek (filterCursor ops hide) c t st)) =
      filter (\<lambda>k. \<not> hide k) (every c)"
    using s by simp
  show "filter (\<lambda>k. \<not> hide k) (view (co_seek (filterCursor ops hide) c t st)) =
      seekList (backward c) (filter (\<lambda>k. \<not> hide k) (every c)) t st"
    using s(5) seekList_filter [OF every_sorted [OF v]] by simp
  assume p: "shown hide c"
  then have placed: "placed c" by (simp add: shown_def)
  show "co_key (filterCursor ops hide) c =
      (case filter (\<lambda>k. \<not> hide k) (view c) of [] \<Rightarrow> None | k # v \<Rightarrow> Some k)"
    using key_view [OF v placed] p by (auto simp: filterCursor_def shown_def split: list.splits)
  show "\<exists>pre. filter (\<lambda>k. \<not> hide k) (every c) = pre @ filter (\<lambda>k. \<not> hide k) (view c)"
    using view_suffix [OF v placed] by (metis filter_append)
  assume w: "filter (\<lambda>k. \<not> hide k) (view c) \<noteq> []"
  then obtain k ks where k: "view c = k # ks" "\<not> hide k"
    using p by (cases "view c") (auto simp: shown_def)
  have "at (co_step ops c) (backward c) (every c) ks"
    using at_step at_self [OF v placed] k by metis
  from at_shown [OF skipHidden_at [OF this, of hide]]
  have s: "valid (co_step (filterCursor ops hide) c)"
      "shown hide (co_step (filterCursor ops hide) c)"
      "backward (co_step (filterCursor ops hide) c) = backward c"
      "every (co_step (filterCursor ops hide) c) = every c"
      "filter (\<lambda>k. \<not> hide k) (view (co_step (filterCursor ops hide) c)) =
        filter (\<lambda>k. \<not> hide k) ks"
    by (simp_all add: filterCursor_def)
  show "valid (co_step (filterCursor ops hide) c) \<and> shown hide (co_step (filterCursor ops hide) c)"
    using s by simp
  show "backward (co_step (filterCursor ops hide) c) = backward c \<and>
      filter (\<lambda>k. \<not> hide k) (every (co_step (filterCursor ops hide) c)) =
      filter (\<lambda>k. \<not> hide k) (every c)"
    using s by simp
  show "filter (\<lambda>k. \<not> hide k) (view (co_step (filterCursor ops hide) c)) =
      tl (filter (\<lambda>k. \<not> hide k) (view c))"
    using s(5) k by simp
qed

end

section \<open>A cursor over two cursors\<close>

definition mergeKey :: "'a cursor_ops \<Rightarrow> 'b cursor_ops \<Rightarrow> bool \<Rightarrow> 'a \<times> 'b \<Rightarrow> jsstr option" where
  "mergeKey a b reverse c =
     (case (co_key a (fst c), co_key b (snd c)) of
        (Some ka, Some kb) \<Rightarrow>
          let d = compareKeys ka kb in
          if (if reverse then d > 0 else d < 0) then Some ka else Some kb
      | (Some ka, None) \<Rightarrow> Some ka
      | (None, kb) \<Rightarrow> kb)"

definition mergeCursors :: "'a cursor_ops \<Rightarrow> 'b cursor_ops \<Rightarrow> bool \<Rightarrow> ('a \<times> 'b) cursor_ops" where
  "mergeCursors a b reverse =
     \<lparr>co_key = mergeKey a b reverse,
      co_seek = (\<lambda>c target strict. (co_seek a (fst c) target strict, co_seek b (snd c) target strict)),
      co_step = (\<lambda>c. if co_key a (fst c) = mergeKey a b reverse c
                     then (co_step a (fst c), snd c) else (fst c, co_step b (snd c)))\<rparr>"

fun mergeLists :: "bool \<Rightarrow> jsstr list \<Rightarrow> jsstr list \<Rightarrow> jsstr list" where
  "mergeLists r [] ys = ys"
| "mergeLists r xs [] = xs"
| "mergeLists r (x # xs) (y # ys) =
     (if walks r x y then x # mergeLists r xs (y # ys) else y # mergeLists r (x # xs) ys)"

lemma mergeLists_Nil [simp]: "mergeLists r xs [] = xs"
  by (cases xs) auto

lemma set_mergeLists [simp]: "set (mergeLists r xs ys) = set xs \<union> set ys"
  by (induction r xs ys rule: mergeLists.induct) auto

lemma walks_linear: "walks r x y \<or> x = y \<or> walks r y x"
  using key_less_linear [of x y] by (auto simp: walks_def)

lemma sorted_mergeLists:
  "sorted_wrt (walks r) xs \<Longrightarrow> sorted_wrt (walks r) ys \<Longrightarrow> set xs \<inter> set ys = {} \<Longrightarrow>
    sorted_wrt (walks r) (mergeLists r xs ys)"
proof (induction r xs ys rule: mergeLists.induct)
  case (3 r x xs y ys)
  then show ?case using walks_linear [of r x y] by (auto intro: walks_trans)
qed auto

lemma seekList_merge:
  assumes "sorted_wrt (walks r) xs" "sorted_wrt (walks r) ys"
  shows "seekList r (mergeLists r xs ys) t st =
    mergeLists r (seekList r xs t st) (seekList r ys t st)"
proof (cases t)
  case (Some t')
  have "dropWhile (beforeTarget r t' st) (mergeLists r xs ys) =
    mergeLists r (dropWhile (beforeTarget r t' st) xs) (dropWhile (beforeTarget r t' st) ys)"
    using assms
  proof (induction r xs ys rule: mergeLists.induct)
    case (3 r x xs y ys)
    show ?case
    proof (cases "walks r x y")
      case True
      then show ?thesis using 3 beforeTarget_down [OF True, of t' st] by auto
    next
      case False
      then have "beforeTarget r t' st x \<Longrightarrow> beforeTarget r t' st y"
        using walks_linear [of r x y] beforeTarget_down by blast
      then show ?thesis using 3 False by auto
    qed
  qed auto
  then show ?thesis using Some by (simp add: seekList_def)
qed (simp add: seekList_def)

locale merged_cursors =
  a: key_cursor opsa valida placeda backa everya viewa +
  b: key_cursor opsb validb placedb backb everyb viewb
  for opsa :: "'a cursor_ops" and valida placeda backa everya viewa
    and opsb :: "'b cursor_ops" and validb placedb backb everyb viewb
begin

definition both_valid :: "bool \<Rightarrow> 'a \<times> 'b \<Rightarrow> bool" where
  "both_valid r c = (valida (fst c) \<and> validb (snd c) \<and> backa (fst c) = r \<and> backb (snd c) = r \<and>
     set (everya (fst c)) \<inter> set (everyb (snd c)) = {})"

definition both_every :: "bool \<Rightarrow> 'a \<times> 'b \<Rightarrow> jsstr list" where
  "both_every r c = mergeLists r (everya (fst c)) (everyb (snd c))"

definition both_view :: "bool \<Rightarrow> 'a \<times> 'b \<Rightarrow> jsstr list" where
  "both_view r c = mergeLists r (viewa (fst c)) (viewb (snd c))"

definition both_placed :: "bool \<Rightarrow> 'a \<times> 'b \<Rightarrow> bool" where
  "both_placed r c = (placeda (fst c) \<and> placedb (snd c) \<and>
     (\<exists>pre. both_every r c = pre @ both_view r c))"

lemmas both_defs = both_valid_def both_every_def both_view_def

lemma merge_walks: "(if r then compareKeys x y > 0 else compareKeys x y < 0) \<longleftrightarrow> walks r x y"
  by (auto simp: walks_def)

lemma merge_key:
  assumes "both_valid r c" "both_placed r c"
  shows "mergeKey opsa opsb r c = (case both_view r c of [] \<Rightarrow> None | k # v \<Rightarrow> Some k)"
  using a.key_view [of "fst c"] b.key_view [of "snd c"] assms
  by (cases "viewa (fst c)"; cases "viewb (snd c)")
    (auto simp: mergeKey_def both_defs both_placed_def Let_def merge_walks)

lemma merge_apart:
  assumes "both_valid r c" "both_placed r c" "k \<in> set (viewa (fst c))"
  shows "k \<notin> set (viewb (snd c))"
proof -
  have "k \<in> set (everya (fst c))" "set (viewb (snd c)) \<subseteq> set (everyb (snd c))"
    using a.view_suffix [of "fst c"] b.view_suffix [of "snd c"] assms
    by (auto simp: both_valid_def both_placed_def)
  then show ?thesis using assms(1) by (auto simp: both_valid_def)
qed

lemma merge_step:
  assumes v: "both_valid r c" and p: "both_placed r c" and w: "both_view r c \<noteq> []"
  shows "both_valid r (co_step (mergeCursors opsa opsb r) c)"
    "both_every r (co_step (mergeCursors opsa opsb r) c) = both_every r c"
    "both_view r (co_step (mergeCursors opsa opsb r) c) = tl (both_view r c)"
    "placeda (fst (co_step (mergeCursors opsa opsb r) c)) \<and>
      placedb (snd (co_step (mergeCursors opsa opsb r) c))"
proof -
  have va: "valida (fst c)" "placeda (fst c)" and vb: "validb (snd c)" "placedb (snd c)"
    using v p by (simp_all add: both_valid_def both_placed_def)
  note ka = a.key_view [OF va] and kb = b.key_view [OF vb]
  define first where "first = (viewa (fst c) \<noteq> [] \<and>
    (viewb (snd c) = [] \<or> walks r (hd (viewa (fst c))) (hd (viewb (snd c)))))"
  have eq: "co_key opsa (fst c) = mergeKey opsa opsb r c \<longleftrightarrow> first"
    using merge_key [OF v p] ka merge_apart [OF v p, of "hd (viewa (fst c))"] w
    by (cases "viewa (fst c)"; cases "viewb (snd c)") (auto simp: first_def both_view_def)
  have step: "co_step (mergeCursors opsa opsb r) c =
      (if first then (co_step opsa (fst c), snd c) else (fst c, co_step opsb (snd c)))"
    by (simp add: mergeCursors_def eq)
  have ne: "first \<Longrightarrow> viewa (fst c) \<noteq> []" "\<not> first \<Longrightarrow> viewb (snd c) \<noteq> []"
    using w by (auto simp: first_def both_view_def)
  note sa = a.step_valid [OF va ne(1)] a.step_same [OF va ne(1)] a.step_view [OF va ne(1)]
  note sb = b.step_valid [OF vb ne(2)] b.step_same [OF vb ne(2)] b.step_view [OF vb ne(2)]
  show "both_valid r (co_step (mergeCursors opsa opsb r) c)"
    using v sa sb by (simp add: step both_valid_def)
  show "both_every r (co_step (mergeCursors opsa opsb r) c) = both_every r c"
    using sa sb by (simp add: step both_every_def)
  show "placeda (fst (co_step (mergeCursors opsa opsb r) c)) \<and>
      placedb (snd (co_step (mergeCursors opsa opsb r) c))"
    using va vb sa sb by (simp add: step)
  show "both_view r (co_step (mergeCursors opsa opsb r) c) = tl (both_view r c)"
    using sa sb by (cases "viewa (fst c)"; cases "viewb (snd c)")
      (auto simp: step both_view_def first_def)
qed

lemma mergeCursors_cursor:
  "key_cursor (mergeCursors opsa opsb r) (both_valid r) (both_placed r) (\<lambda>c. r) (both_every r)
    (both_view r)"
proof
  fix c t st assume v: "both_valid r c"
  have va: "valida (fst c)" "backa (fst c) = r" and vb: "validb (snd c)" "backb (snd c) = r"
    and apart: "set (everya (fst c)) \<inter> set (everyb (snd c)) = {}"
    using v by (simp_all add: both_valid_def)
  note sorted = a.every_sorted [OF va(1)] b.every_sorted [OF vb(1)]
  note sa = a.seek_valid [OF va(1), of t st] a.seek_same [OF va(1), of t st] a.seek_view [OF va(1), of t st]
  note sb = b.seek_valid [OF vb(1), of t st] b.seek_same [OF vb(1), of t st] b.seek_view [OF vb(1), of t st]
  show "sorted_wrt (walks r) (both_every r c)"
    using sorted_mergeLists [OF _ _ apart] sorted va vb by (simp add: both_every_def)
  have view: "both_view r (co_seek (mergeCursors opsa opsb r) c t st) = seekList r (both_every r c) t st"
    using sa sb va vb sorted seekList_merge
    by (simp add: both_view_def both_every_def mergeCursors_def)
  then show "both_view r (co_seek (mergeCursors opsa opsb r) c t st) =
      seekList r (both_every r c) t st" .
  have every: "both_every r (co_seek (mergeCursors opsa opsb r) c t st) = both_every r c"
    using sa sb by (simp add: both_every_def mergeCursors_def)
  then show "r = r \<and> both_every r (co_seek (mergeCursors opsa opsb r) c t st) = both_every r c"
    by simp
  have "both_valid r (co_seek (mergeCursors opsa opsb r) c t st)"
    using v sa sb by (simp add: both_valid_def mergeCursors_def)
  moreover have "\<exists>pre. both_every r c = pre @ seekList r (both_every r c) t st"
    by (rule seekList_suffix)
  ultimately show "both_valid r (co_seek (mergeCursors opsa opsb r) c t st) \<and>
      both_placed r (co_seek (mergeCursors opsa opsb r) c t st)"
    unfolding both_placed_def every view using sa sb by (simp add: mergeCursors_def)
  assume p: "both_placed r c"
  show "co_key (mergeCursors opsa opsb r) c = (case both_view r c of [] \<Rightarrow> None | k # v \<Rightarrow> Some k)"
    using merge_key [OF v p] by (simp add: mergeCursors_def)
  show suffix: "\<exists>pre. both_every r c = pre @ both_view r c"
    using p by (simp add: both_placed_def)
  assume w: "both_view r c \<noteq> []"
  note step = merge_step [OF v p w]
  show "both_view r (co_step (mergeCursors opsa opsb r) c) = tl (both_view r c)" by (rule step(3))
  show "r = r \<and> both_every r (co_step (mergeCursors opsa opsb r) c) = both_every r c"
    using step(2) by simp
  have "\<exists>pre. both_every r c = pre @ tl (both_view r c)"
    using suffix w by (metis append.assoc append_Cons append_Nil list.collapse)
  then show "both_valid r (co_step (mergeCursors opsa opsb r) c) \<and>
      both_placed r (co_step (mergeCursors opsa opsb r) c)"
    unfolding both_placed_def step(2,3) using step(1,4) by simp
qed

end

end
