(* ===== verification/KeyList.thy ===== *)
theory KeyList
  imports Cursors
begin

text \<open>
  The sorted list of keys in blocks (typespec/ts/assets/skeleton.ts, \<open>KeyList\<close>): building, insertion,
  removal, search and its cursor, and the contract the in-memory store relies on, an ordered set of
  keys.
\<close>

section \<open>Operations\<close>

type_synonym blocks = "jsstr list list"

definition BLOCK :: nat where "BLOCK = 1024"

definition STEP_BUDGET :: nat where "STEP_BUDGET = 8"

definition ceil_div :: "nat \<Rightarrow> nat \<Rightarrow> nat" where
  "ceil_div a b = (a + b - 1) div b"

function chunks :: "nat \<Rightarrow> 'a list \<Rightarrow> 'a list list" where
  "chunks n xs = (if xs = [] \<or> n = 0 then [] else take n xs # chunks n (drop n xs))"
  by auto
termination by (relation "measure (\<lambda>(n, xs). length xs)") auto

declare chunks.simps [simp del]

definition klOf :: "jsstr list \<Rightarrow> blocks" where
  "klOf keys =
     (if length keys = 0 then []
      else chunks (ceil_div (length keys) (ceil_div (length keys) BLOCK)) keys)"

definition lastKey :: "jsstr list \<Rightarrow> jsstr" where
  "lastKey block = block ! (length block - 1)"

definition klSeek :: "blocks \<Rightarrow> jsstr \<Rightarrow> bool \<Rightarrow> nat \<times> nat" where
  "klSeek blocks key strict =
     (let before = seekBefore key strict;
          b = bisect (length blocks) (\<lambda>j. before (lastKey (blocks ! j)))
      in if b = length blocks then (b, 0)
         else let block = blocks ! b in (b, bisect (length block) (\<lambda>j. before (block ! j))))"

definition klAdd :: "blocks \<Rightarrow> jsstr \<Rightarrow> blocks" where
  "klAdd blocks key =
     (if length blocks = 0 then [[key]]
      else
        let (b0, i0) = klSeek blocks key False;
            (b, i) = (if b0 = length blocks then (b0 - 1, length (blocks ! (b0 - 1))) else (b0, i0));
            block = take i (blocks ! b) @ key # drop i (blocks ! b)
        in if length block > 2 * BLOCK
           then take b blocks @ [take (length block div 2) block, drop (length block div 2) block] @
                drop (b + 1) blocks
           else blocks[b := block])"

datatype keylist_error = HoldsNo jsstr

text \<open>The end of \<open>remove\<close>: the block \<open>b\<close> has become \<open>block\<close>, and joins a neighbour when too short.\<close>

definition klRejoin :: "blocks \<Rightarrow> nat \<Rightarrow> jsstr list \<Rightarrow> blocks" where
  "klRejoin blocks b block =
     (let blocks' = blocks[b := block] in
      if length block \<ge> BLOCK div 4 then blocks'
      else if length blocks' = 1 then (if length block = 0 then [] else blocks')
      else
        let x = (if b + 1 < length blocks' then b else b - 1);
            joined = blocks' ! x @ blocks' ! (x + 1)
        in if length joined > 2 * BLOCK
           then let half = length joined div 2 in
                take x blocks' @ [take half joined, drop half joined] @ drop (x + 2) blocks'
           else take x blocks' @ [joined] @ drop (x + 2) blocks')"

definition klRemove :: "blocks \<Rightarrow> jsstr \<Rightarrow> keylist_error + blocks" where
  "klRemove blocks key =
     (let (b, i) = klSeek blocks key False in
      if \<not> (b < length blocks \<and> i < length (blocks ! b) \<and> blocks ! b ! i = key) then Inl (HoldsNo key)
      else Inr (klRejoin blocks b (take i (blocks ! b) @ drop (i + 1) (blocks ! b))))"

section \<open>Well-formed blocks\<close>

definition kl_ok :: "blocks \<Rightarrow> bool" where
  "kl_ok blocks = (ascending (concat blocks) \<and> (\<forall>b \<in> set blocks. b \<noteq> [] \<and> length b \<le> 2 * BLOCK))"

lemma ascending_append:
  "ascending (xs @ ys) \<longleftrightarrow> ascending xs \<and> ascending ys \<and> (\<forall>x \<in> set xs. \<forall>y \<in> set ys. key_less x y)"
  by (simp add: sorted_wrt_append)

lemma lastKey_in [simp]: "b \<noteq> [] \<Longrightarrow> lastKey b \<in> set b"
  by (simp add: lastKey_def)

lemma block_below:
  assumes "ascending b" "x \<in> set b" "seekBefore k st (lastKey b)"
  shows "seekBefore k st x"
proof -
  obtain i where i: "i < length b" "x = b ! i" using assms(2) by (auto simp: in_set_conv_nth)
  show ?thesis
  proof (cases "i = length b - 1")
    case False
    then have "key_less x (lastKey b)"
      using sorted_wrt_nth_less [OF assms(1), of i "length b - 1"] i by (simp add: lastKey_def)
    then show ?thesis using assms(3) by (rule seekBefore_down)
  qed (use i assms(3) in \<open>simp add: lastKey_def\<close>)
qed

lemma block_lasts:
  assumes "ascending (concat blocks)" "\<forall>b \<in> set blocks. b \<noteq> []"
  shows "sorted_wrt (\<lambda>x y. seekBefore k st (lastKey y) \<longrightarrow> seekBefore k st (lastKey x)) blocks"
  using assms
proof (induction blocks)
  case (Cons b bs)
  have "key_less (lastKey b) (lastKey y)" if "y \<in> set bs" for y
  proof -
    have "b \<noteq> []" "y \<noteq> []" using Cons.prems(2) that by auto
    then have "lastKey b \<in> set b" "lastKey y \<in> set y" by simp_all
    then show ?thesis using Cons.prems(1) that by (auto simp: ascending_append)
  qed
  then have "seekBefore k st (lastKey b)" if "y \<in> set bs" "seekBefore k st (lastKey y)" for y
    using that seekBefore_down by blast
  then show ?case using Cons by (simp add: ascending_append)
qed simp

text \<open>Where \<open>#seek\<close> lands: the keys before it are those before the target.\<close>

lemma klSeek_cases:
  assumes "ascending (concat blocks)" "\<forall>b \<in> set blocks. b \<noteq> []"
  obtains (past) "klSeek blocks k st = (length blocks, 0)" "\<forall>x \<in> set (concat blocks). seekBefore k st x"
  | (inside) pre bl post where "blocks = pre @ bl # post"
      "klSeek blocks k st = (length pre, length (takeWhile (seekBefore k st) bl))"
      "\<forall>x \<in> set (concat pre). seekBefore k st x" "bl \<noteq> []" "\<not> seekBefore k st (lastKey bl)"
      "length (takeWhile (seekBefore k st) bl) < length bl"
proof -
  let ?P = "seekBefore k st" and ?Q = "\<lambda>b. seekBefore k st (lastKey b)"
  have asc: "ascending b" if "b \<in> set blocks" for b
    using assms(1) that by (induction blocks) (auto simp: ascending_append)
  have idx: "bisect (length blocks) (\<lambda>j. ?Q (blocks ! j)) = length (takeWhile ?Q blocks)"
    by (rule bisect_list [OF block_lasts [OF assms]])
  have below: "?P x" if "b \<in> set (takeWhile ?Q blocks)" "x \<in> set b" for b x
    using set_takeWhileD [OF that(1)] asc that(2) block_below by metis
  show thesis
  proof (cases "dropWhile ?Q blocks")
    case Nil
    then have tw: "takeWhile ?Q blocks = blocks" by (metis append_Nil2 takeWhile_dropWhile_id)
    have "klSeek blocks k st = (length blocks, 0)"
      using idx [unfolded tw] by (simp add: klSeek_def Let_def)
    moreover have "\<forall>x \<in> set (concat blocks). ?P x" using below [unfolded tw] by auto
    ultimately show thesis by (rule past)
  next
    case (Cons bl post)
    define pre where "pre = takeWhile ?Q blocks"
    have b: "blocks = pre @ bl # post" unfolding pre_def using Cons by (metis takeWhile_dropWhile_id)
    have bl: "\<not> ?Q bl" using Cons by (simp add: dropWhile_eq_Cons_conv)
    have mem: "bl \<in> set blocks" unfolding b by simp
    have "bisect (length bl) (\<lambda>j. ?P (bl ! j)) = length (takeWhile ?P bl)"
      by (rule bisect_list [OF ascending_seek [OF asc [OF mem]]])
    moreover have "blocks ! length pre = bl" unfolding b by simp
    moreover have "length pre \<noteq> length blocks" unfolding b by simp
    ultimately have seek: "klSeek blocks k st = (length pre, length (takeWhile ?P bl))"
      unfolding klSeek_def Let_def idx [folded pre_def] by simp
    have ne: "bl \<noteq> []" using assms(2) mem by blast
    have "takeWhile ?P bl \<noteq> bl"
    proof
      assume "takeWhile ?P bl = bl"
      then have "\<forall>x \<in> set bl. ?P x" by (simp add: takeWhile_eq_all_conv)
      then show False using bl ne by simp
    qed
    moreover have "take (length (takeWhile ?P bl)) bl = takeWhile ?P bl"
      by (rule takeWhile_eq_take [symmetric])
    ultimately have "\<not> length bl \<le> length (takeWhile ?P bl)" using take_all by metis
    then have "length (takeWhile ?P bl) < length bl" by simp
    then show thesis using inside [OF b seek _ ne bl] below [folded pre_def] by auto
  qed
qed

text \<open>The flat position of \<open>#seek\<close>.\<close>

lemma klSeek_flat:
  assumes "ascending (concat blocks)" "\<forall>b \<in> set blocks. b \<noteq> []"
  shows "case klSeek blocks k st of (b, i) \<Rightarrow>
    b \<le> length blocks \<and> (if b = length blocks then i = 0 else i < length (blocks ! b)) \<and>
    concat (take b blocks) @ (if b = length blocks then [] else take i (blocks ! b)) =
      takeWhile (seekBefore k st) (concat blocks)"
  using assms
proof (cases rule: klSeek_cases [of blocks k st])
  case past
  then show ?thesis by (simp add: takeWhile_eq_all_conv [THEN iffD2])
next
  case (inside pre bl post)
  have "takeWhile (seekBefore k st) (bl @ concat post) = takeWhile (seekBefore k st) bl"
  proof (rule takeWhile_append1)
    show "lastKey bl \<in> set bl" "\<not> seekBefore k st (lastKey bl)" using inside by simp_all
  qed
  moreover have "takeWhile (seekBefore k st) (concat pre @ bl @ concat post) =
      concat pre @ takeWhile (seekBefore k st) (bl @ concat post)"
    by (rule takeWhile_append2) (use inside in blast)
  ultimately have "takeWhile (seekBefore k st) (concat blocks) =
      concat pre @ takeWhile (seekBefore k st) bl"
    using inside(1) by simp
  moreover have "take (length (takeWhile (seekBefore k st) bl)) bl = takeWhile (seekBefore k st) bl"
    by (metis takeWhile_eq_take)
  ultimately show ?thesis using inside by simp
qed

section \<open>Insertion\<close>

lemma concat_update:
  "b < length blocks \<Longrightarrow> concat (blocks[b := x]) = concat (take b blocks) @ x @ concat (drop (Suc b) blocks)"
  by (simp add: upd_conv_take_nth_drop)

text \<open>The list with a key put in its place.\<close>

definition insert_key :: "jsstr \<Rightarrow> jsstr list \<Rightarrow> jsstr list" where
  "insert_key k ks = takeWhile (seekBefore k False) ks @ k # dropWhile (seekBefore k False) ks"

lemma set_insert_key [simp]: "set (insert_key k ks) = insert k (set ks)"
  by (simp add: insert_key_def) (metis set_append takeWhile_dropWhile_id)

lemma ascending_insert_key:
  assumes "ascending ks" "k \<notin> set ks"
  shows "ascending (insert_key k ks)"
proof -
  let ?P = "seekBefore k False"
  have a: "ascending (takeWhile ?P ks @ dropWhile ?P ks)" using assms(1) by simp
  have below: "key_less x k" if "x \<in> set (takeWhile ?P ks)" for x
    using set_takeWhileD [OF that] by (simp add: seekBefore)
  have above: "key_less k x" if "x \<in> set (dropWhile ?P ks)" for x
  proof -
    have "\<not> ?P x"
    proof
      assume px: "?P x"
      have "dropWhile ?P ks \<noteq> []" using that by (metis empty_iff list.set(1))
      then obtain h w where d: "dropWhile ?P ks = h # w" by (metis neq_Nil_conv)
      then have h: "dropWhile ?P ks = h # w" "\<not> ?P h" "h = x \<or> x \<in> set w"
        using that hd_dropWhile [of ?P ks] by auto
      then have "key_less h x \<or> h = x" using a by (auto simp: ascending_append)
      then show False using px h(2) seekBefore_down by blast
    qed
    moreover have "x \<noteq> k" using assms(2) that set_dropWhileD by metis
    ultimately show ?thesis using key_less_linear by (auto simp: seekBefore)
  qed
  have "key_less x y" if "x \<in> set (takeWhile ?P ks)" "y \<in> set (dropWhile ?P ks)" for x y
    using below [OF that(1)] above [OF that(2)] by (rule key_less_trans)
  then show ?thesis using a below above
    by (simp add: insert_key_def ascending_append)
qed

lemma splice_half:
  assumes "b < length blocks"
  shows "concat (take b blocks @ [take h x, drop h x] @ drop (b + 1) blocks) = concat (blocks[b := x])"
  using assms by (simp add: concat_update flip: append_assoc)

text \<open>Adding a key: one block takes it in its place, and splits when it is too long.\<close>

lemma klAdd_shape:
  assumes ok: "ascending (concat blocks)" "\<forall>b \<in> set blocks. b \<noteq> []" and ne: "blocks \<noteq> []"
  obtains b block where "b < length blocks" "length block = Suc (length (blocks ! b))"
    "concat (blocks[b := block]) = insert_key k (concat blocks)"
    "klAdd blocks k = (if length block > 2 * BLOCK
      then take b blocks @ [take (length block div 2) block, drop (length block div 2) block] @
        drop (b + 1) blocks
      else blocks[b := block])"
proof -
  obtain b0 i0 where s: "klSeek blocks k False = (b0, i0)" by force
  define b where "b = (if b0 = length blocks then b0 - 1 else b0)"
  define i where "i = (if b0 = length blocks then length (blocks ! (b0 - 1)) else i0)"
  define block where "block = take i (blocks ! b) @ k # drop i (blocks ! b)"
  have bl: "b < length blocks" using klSeek_flat [OF ok, of k False] s ne by (auto simp: b_def)
  have split: "take b blocks @ blocks ! b # drop (Suc b) blocks = blocks"
    using bl by (simp add: id_take_nth_drop [symmetric])
  have tw: "concat (take b blocks) @ take i (blocks ! b) = takeWhile (seekBefore k False) (concat blocks)"
  proof (cases "b0 = length blocks")
    case True
    then have "Suc b = length blocks" using ne by (simp add: b_def)
    then have "blocks = take b blocks @ [blocks ! b]" using bl by (simp add: take_Suc_conv_app_nth [symmetric])
    then have "concat blocks = concat (take b blocks) @ blocks ! b" by (metis concat.simps concat_append append_Nil2)
    then show ?thesis using klSeek_flat [OF ok, of k False] s True by (simp add: b_def i_def)
  qed (use klSeek_flat [OF ok, of k False] s in \<open>simp add: b_def i_def\<close>)
  have "concat (take b blocks @ blocks ! b # drop (Suc b) blocks) =
      (concat (take b blocks) @ take i (blocks ! b)) @
      (drop i (blocks ! b) @ concat (drop (Suc b) blocks))"
    by simp
  then have "(concat (take b blocks) @ take i (blocks ! b)) @
      (drop i (blocks ! b) @ concat (drop (Suc b) blocks)) =
      takeWhile (seekBefore k False) (concat blocks) @ dropWhile (seekBefore k False) (concat blocks)"
    unfolding split by simp
  then have dw: "drop i (blocks ! b) @ concat (drop (Suc b) blocks) =
      dropWhile (seekBefore k False) (concat blocks)"
    unfolding tw same_append_eq .
  show thesis
  proof (rule that [OF bl])
    show "length block = Suc (length (blocks ! b))" by (simp add: block_def)
    show "concat (blocks[b := block]) = insert_key k (concat blocks)"
      using tw dw by (simp add: concat_update [OF bl] block_def insert_key_def)
    show "klAdd blocks k = (if length block > 2 * BLOCK
        then take b blocks @ [take (length block div 2) block, drop (length block div 2) block] @
          drop (b + 1) blocks
        else blocks[b := block])"
      using ne unfolding klAdd_def s by (simp add: Let_def b_def i_def block_def)
  qed
qed

lemma klAdd_concat:
  assumes "ascending (concat blocks)" "\<forall>b \<in> set blocks. b \<noteq> []"
  shows "concat (klAdd blocks k) = insert_key k (concat blocks)"
proof (cases "blocks = []")
  case True
  then show ?thesis by (simp add: klAdd_def insert_key_def)
next
  case False
  from klAdd_shape [OF assms False, of k] obtain b block where s: "b < length blocks"
    "concat (blocks[b := block]) = insert_key k (concat blocks)"
    "klAdd blocks k = (if length block > 2 * BLOCK
      then take b blocks @ [take (length block div 2) block, drop (length block div 2) block] @
        drop (b + 1) blocks
      else blocks[b := block])" by metis
  show ?thesis unfolding s(3) s(2) [symmetric] using splice_half [OF s(1)] by presburger
qed

text \<open>A property of the lengths of blocks that holds of each part the update makes.\<close>

lemma klAdd_lengths:
  assumes "ascending (concat blocks)" "\<forall>b \<in> set blocks. b \<noteq> []"
    and all: "\<And>b. b \<in> set blocks \<Longrightarrow> Q (length b)" and first: "blocks = [] \<Longrightarrow> Q 1"
    and fits: "\<And>b. b \<in> set blocks \<Longrightarrow> Suc (length b) \<le> 2 * BLOCK \<Longrightarrow> Q (Suc (length b))"
    and halves: "\<And>b. b \<in> set blocks \<Longrightarrow> 2 * BLOCK < Suc (length b) \<Longrightarrow>
      Q (Suc (length b) div 2) \<and> Q (Suc (length b) - Suc (length b) div 2)"
    and x: "x \<in> set (klAdd blocks k)"
  shows "Q (length x)"
proof (cases "blocks = []")
  case True
  then show ?thesis using x first by (simp add: klAdd_def)
next
  case False
  from klAdd_shape [OF assms(1,2) False, of k] obtain b block where s: "b < length blocks"
    "length block = Suc (length (blocks ! b))"
    "klAdd blocks k = (if length block > 2 * BLOCK
      then take b blocks @ [take (length block div 2) block, drop (length block div 2) block] @
        drop (b + 1) blocks
      else blocks[b := block])" by metis
  have mem: "blocks ! b \<in> set blocks" using s(1) by simp
  show ?thesis
  proof (cases "length block > 2 * BLOCK")
    case True
    then have "x \<in> set blocks \<or> x = take (length block div 2) block \<or> x = drop (length block div 2) block"
      using x s(3) by (auto dest: in_set_takeD in_set_dropD)
    then show ?thesis using all halves [OF mem] True s(2) by auto
  next
    case short: False
    then have "x \<in> set blocks \<or> x = block"
      using x s(3) set_update_subset_insert [of blocks b block] by auto
    then show ?thesis using short s(2) all fits [OF mem] by auto
  qed
qed

definition kl_low :: "blocks \<Rightarrow> bool" where
  "kl_low blocks = (length blocks \<le> 1 \<or> (\<forall>b \<in> set blocks. BLOCK div 4 \<le> length b))"

lemma kl_okD:
  "kl_ok blocks \<Longrightarrow> ascending (concat blocks)" "kl_ok blocks \<Longrightarrow> \<forall>b \<in> set blocks. b \<noteq> []"
  "kl_ok blocks \<Longrightarrow> b \<in> set blocks \<Longrightarrow> length b \<le> 2 * BLOCK"
  by (auto simp: kl_ok_def)

lemma klAdd_ok:
  assumes "kl_ok blocks" "k \<notin> set (concat blocks)"
  shows "kl_ok (klAdd blocks k)"
  unfolding kl_ok_def
proof (intro conjI ballI)
  show "ascending (concat (klAdd blocks k))"
    unfolding klAdd_concat [OF kl_okD(1,2) [OF assms(1)]]
    by (rule ascending_insert_key [OF kl_okD(1) [OF assms(1)] assms(2)])
  fix x assume x: "x \<in> set (klAdd blocks k)"
  have "0 < length x \<and> length x \<le> 2 * BLOCK"
  proof (rule klAdd_lengths [OF kl_okD(1,2) [OF assms(1)], where Q = "\<lambda>n. 0 < n \<and> n \<le> 2 * BLOCK"])
    fix b assume b: "b \<in> set blocks"
    have len: "length b \<le> 2 * BLOCK" by (rule kl_okD(3) [OF assms(1) b])
    show "0 < length b \<and> length b \<le> 2 * BLOCK" using len kl_okD(2) [OF assms(1)] b by auto
    assume "2 * BLOCK < Suc (length b)"
    then have "length b = 2048" using len by (simp add: BLOCK_def)
    then show "(0 < Suc (length b) div 2 \<and> Suc (length b) div 2 \<le> 2 * BLOCK) \<and>
        0 < Suc (length b) - Suc (length b) div 2 \<and> Suc (length b) - Suc (length b) div 2 \<le> 2 * BLOCK"
      by (simp add: BLOCK_def)
  qed (use x in \<open>simp_all add: BLOCK_def\<close>)
  then show "x \<noteq> []" "length x \<le> 2 * BLOCK" by auto
qed

lemma klAdd_low:
  assumes "kl_ok blocks" "kl_low blocks"
  shows "kl_low (klAdd blocks k)"
proof (cases "length blocks \<le> 1")
  case False
  then have low: "BLOCK div 4 \<le> length b" if "b \<in> set blocks" for b
    using assms(2) that by (auto simp: kl_low_def)
  have "BLOCK div 4 \<le> length x" if x: "x \<in> set (klAdd blocks k)" for x
  proof (rule klAdd_lengths [OF kl_okD(1,2) [OF assms(1)] _ _ _ _ x, where Q = "\<lambda>n. BLOCK div 4 \<le> n"])
    fix b assume b: "b \<in> set blocks"
    show "BLOCK div 4 \<le> length b" by (rule low [OF b])
    then show "BLOCK div 4 \<le> Suc (length b)" by simp
  qed (use False in \<open>auto simp: BLOCK_def\<close>)
  then show ?thesis by (simp add: kl_low_def)
next
  case True
  then consider "blocks = []" | b where "blocks = [b]"
    by (cases blocks) auto
  then show ?thesis
  proof cases
    case 2
    have "blocks \<noteq> []" using 2 by simp
    from klAdd_shape [OF kl_okD(1,2) [OF assms(1)] this, of k] obtain i block where
      i: "i < length blocks" and s: "klAdd blocks k = (if length block > 2 * BLOCK
        then take i blocks @ [take (length block div 2) block, drop (length block div 2) block] @
          drop (i + 1) blocks
        else blocks[i := block])" by metis
    have "i = 0" using i 2 by simp
    then have "klAdd blocks k = (if length block > 2 * BLOCK
        then [take (length block div 2) block, drop (length block div 2) block] else [block])"
      using s 2 by simp
    then show ?thesis by (auto simp: kl_low_def BLOCK_def)
  qed (simp add: klAdd_def kl_low_def)
qed

section \<open>Removal\<close>

lemma concat_two:
  assumes "x + 1 < length bs"
  shows "concat (take x bs @ [p, q] @ drop (x + 2) bs) =
    concat (take x bs) @ p @ q @ concat (drop (x + 2) bs)"
    "concat bs = concat (take x bs) @ bs ! x @ bs ! (x + 1) @ concat (drop (x + 2) bs)"
proof -
  have "bs = take x bs @ bs ! x # bs ! (x + 1) # drop (x + 2) bs"
    using assms by (metis Cons_nth_drop_Suc Suc_eq_plus1 Suc_lessD add_2_eq_Suc' append_take_drop_id)
  then show "concat bs = concat (take x bs) @ bs ! x @ bs ! (x + 1) @ concat (drop (x + 2) bs)"
    by (metis concat.simps(2) concat_append)
qed simp

text \<open>The neighbour a short block joins.\<close>

lemma klRejoin_cases:
  assumes "b < length blocks"
  obtains (kept) "BLOCK div 4 \<le> length block" "klRejoin blocks b block = blocks[b := block]"
  | (only) "length blocks = 1" "klRejoin blocks b block = (if block = [] then [] else [block])"
  | (split) x joined where "x + 1 < length blocks" "b = x \<or> b = x + 1" "length block < BLOCK div 4"
      "joined = blocks[b := block] ! x @ blocks[b := block] ! (x + 1)" "2 * BLOCK < length joined"
      "klRejoin blocks b block = take x (blocks[b := block]) @
        [take (length joined div 2) joined, drop (length joined div 2) joined] @
        drop (x + 2) (blocks[b := block])"
  | (joined) x joined where "x + 1 < length blocks" "b = x \<or> b = x + 1" "length block < BLOCK div 4"
      "joined = blocks[b := block] ! x @ blocks[b := block] ! (x + 1)" "length joined \<le> 2 * BLOCK"
      "klRejoin blocks b block = take x (blocks[b := block]) @ [joined] @ drop (x + 2) (blocks[b := block])"
proof -
  define blocks' where "blocks' = blocks[b := block]"
  define x where "x = (if b + 1 < length blocks then b else b - 1)"
  define j where "j = blocks' ! x @ blocks' ! (x + 1)"
  have len: "length blocks' = length blocks" by (simp add: blocks'_def)
  consider "BLOCK div 4 \<le> length block" | "length block < BLOCK div 4" "length blocks = 1"
    | "length block < BLOCK div 4" "length blocks \<noteq> 1" "2 * BLOCK < length j"
    | "length block < BLOCK div 4" "length blocks \<noteq> 1" "length j \<le> 2 * BLOCK" by linarith
  then show thesis
  proof cases
    case 1
    then show thesis by (intro kept) (simp_all add: klRejoin_def Let_def)
  next
    case 2
    then have "blocks[b := block] = [block]" using assms by (cases blocks) auto
    then show thesis using 2 by (intro only) (simp_all add: klRejoin_def Let_def)
  next
    case 3
    have x: "x + 1 < length blocks" "b = x \<or> b = x + 1" using 3 assms by (auto simp: x_def)
    show thesis
      by (rule split [OF x 3(1) j_def [unfolded blocks'_def] 3(3)])
        (use 3 in \<open>simp add: klRejoin_def Let_def blocks'_def j_def x_def\<close>)
  next
    case 4
    have x: "x + 1 < length blocks" "b = x \<or> b = x + 1" using 4 assms by (auto simp: x_def)
    show thesis
      by (rule joined [OF x 4(1) j_def [unfolded blocks'_def] 4(3)])
        (use 4 in \<open>simp add: klRejoin_def Let_def blocks'_def j_def x_def\<close>)
  qed
qed

lemma klRejoin_concat:
  assumes "b < length blocks"
  shows "concat (klRejoin blocks b block) = concat (blocks[b := block])"
  using assms
proof (cases rule: klRejoin_cases [of b blocks block])
  case only
  then have "blocks[b := block] = [block]" using assms by (cases blocks) auto
  then show ?thesis using only by simp
next
  case (split x joined)
  then have "x + 1 < length (blocks[b := block])" by simp
  from concat_two(1) [OF this] concat_two(2) [OF this] split(4,6) show ?thesis
    by (metis append_assoc append_take_drop_id)
next
  case (joined x joined)
  then have "x + 1 < length (blocks[b := block])" by simp
  from concat_two(2) [OF this] joined(4,6) show ?thesis by simp
qed (use assms in simp)
text \<open>The lengths of the blocks after a removal, from those before it.\<close>

lemma klRejoin_lengths:
  assumes b: "b < length blocks"
    and sizes: "\<And>x. x \<in> set blocks \<Longrightarrow> m \<le> length x \<and> length x \<le> 2 * BLOCK" "length block \<le> 2 * BLOCK"
    and m: "0 < m" "m \<le> BLOCK div 4" "length blocks = 1 \<Longrightarrow> m = 1"
    and x: "x \<in> set (klRejoin blocks b block)"
  shows "m \<le> length x \<and> length x \<le> 2 * BLOCK"
  using b
proof (cases rule: klRejoin_cases [of b blocks block])
  case kept
  then have "x \<in> set blocks \<or> x = block"
    using x set_update_subset_insert [of blocks b block] by auto
  then show ?thesis using sizes m kept(1) by auto
next
  case only
  then show ?thesis using x m(3) sizes(2) by (cases "block = []") (auto simp: Suc_le_eq)
next
  case (split i joined)
  have other: "x \<in> set blocks \<or> x \<in> {take (length joined div 2) joined, drop (length joined div 2) joined}"
  proof -
    have "x \<in> set (take i (blocks[b := block])) \<union> set (drop (i + 2) (blocks[b := block])) \<union>
        {take (length joined div 2) joined, drop (length joined div 2) joined}"
      using x split(6) by auto
    moreover have "set (take i (blocks[b := block])) \<subseteq> set blocks"
      using split(2) set_take_subset [of i blocks] by (auto simp: take_update_cancel)
    moreover have "set (drop (i + 2) (blocks[b := block])) \<subseteq> set blocks"
      using split(2) set_drop_subset [of "i + 2" blocks] by (auto simp: drop_update_cancel)
    ultimately show ?thesis by blast
  qed
  have "length joined < BLOCK div 4 + 2 * BLOCK + 1"
  proof (cases "b = i")
    case True
    have "length (blocks ! (i + 1)) \<le> 2 * BLOCK" using sizes(1) [of "blocks ! (i + 1)"] split(1) by simp
    then show ?thesis using split True by simp
  next
    case False
    then have "length (blocks ! i) \<le> 2 * BLOCK" using sizes(1) [of "blocks ! i"] split(1) by simp
    then show ?thesis using split False by simp
  qed
  then show ?thesis using other sizes(1) split(5) m(2) by (auto simp: BLOCK_def)
next
  case (joined i joined)
  have other: "x \<in> set blocks \<or> x = joined"
  proof -
    have "x \<in> set (take i (blocks[b := block])) \<union> set (drop (i + 2) (blocks[b := block])) \<union> {joined}"
      using x joined(6) by auto
    moreover have "set (take i (blocks[b := block])) \<subseteq> set blocks"
      using joined(2) set_take_subset [of i blocks] by (auto simp: take_update_cancel)
    moreover have "set (drop (i + 2) (blocks[b := block])) \<subseteq> set blocks"
      using joined(2) set_drop_subset [of "i + 2" blocks] by (auto simp: drop_update_cancel)
    ultimately show ?thesis by blast
  qed
  have "m \<le> length joined"
  proof (cases "b = i")
    case True
    have "m \<le> length (blocks ! (i + 1))" using sizes(1) [of "blocks ! (i + 1)"] joined(1) by simp
    then show ?thesis using joined True by simp
  next
    case False
    then have "m \<le> length (blocks ! i)" using sizes(1) [of "blocks ! i"] joined(1) by simp
    then show ?thesis using joined False by simp
  qed
  then show ?thesis using other sizes(1) joined(5) by auto
qed

text \<open>Where \<open>remove\<close> looks.\<close>

lemma found_key:
  assumes "ascending ks" "k \<in> set ks"
  shows "dropWhile (seekBefore k False) ks = k # tl (dropWhile (seekBefore k False) ks) \<and>
    filter (\<lambda>x. x \<noteq> k) ks = takeWhile (seekBefore k False) ks @ tl (dropWhile (seekBefore k False) ks)"
  using assms
proof (induction ks)
  case (Cons x xs)
  have less: "key_less x y" if "y \<in> set xs" for y using Cons.prems(1) that by simp
  show ?case
  proof (cases "x = k")
    case True
    then have "k \<notin> set xs" using less [of k] by auto
    then have "filter (\<lambda>x. x \<noteq> k) xs = xs" by (auto simp: filter_id_conv)
    then show ?thesis using True by (simp add: seekBefore)
  next
    case False
    then have "key_less x k" using Cons.prems(2) less by auto
    then show ?thesis using Cons False by (simp add: seekBefore)
  qed
qed simp

lemma klRemove_shape:
  assumes ok: "ascending (concat blocks)" "\<forall>b \<in> set blocks. b \<noteq> []"
  shows "k \<notin> set (concat blocks) \<Longrightarrow> klRemove blocks k = Inl (HoldsNo k)"
    "k \<in> set (concat blocks) \<Longrightarrow> \<exists>b block. b < length blocks \<and> Suc (length block) = length (blocks ! b) \<and>
      concat (blocks[b := block]) = filter (\<lambda>x. x \<noteq> k) (concat blocks) \<and>
      klRemove blocks k = Inr (klRejoin blocks b block)"
proof -
  obtain b i where s: "klSeek blocks k False = (b, i)" by force
  note flat = klSeek_flat [OF ok, of k False, unfolded s, simplified]
  show "klRemove blocks k = Inl (HoldsNo k)" if "k \<notin> set (concat blocks)"
  proof -
    have "\<not> (b < length blocks \<and> i < length (blocks ! b) \<and> blocks ! b ! i = k)"
      using that nth_mem by fastforce
    then show ?thesis by (auto simp: klRemove_def s)
  qed
  assume k: "k \<in> set (concat blocks)"
  define before where "before = takeWhile (seekBefore k False) (concat blocks)"
  have b: "b < length blocks"
  proof (rule ccontr)
    assume "\<not> b < length blocks"
    then have "concat blocks = before" using flat by (auto simp: before_def)
    then have "seekBefore k False k" using k unfolding before_def by (metis set_takeWhileD)
    then show False by (simp add: seekBefore)
  qed
  then have i: "i < length (blocks ! b)" and tw: "concat (take b blocks) @ take i (blocks ! b) = before"
    using flat by (auto simp: before_def)
  have "concat (take b blocks @ blocks ! b # drop (Suc b) blocks) =
      (concat (take b blocks) @ take i (blocks ! b)) @
      (drop i (blocks ! b) @ concat (drop (Suc b) blocks))"
    by simp
  then have "(concat (take b blocks) @ take i (blocks ! b)) @
      (drop i (blocks ! b) @ concat (drop (Suc b) blocks)) =
      before @ dropWhile (seekBefore k False) (concat blocks)"
    using b by (simp add: id_take_nth_drop [symmetric] before_def)
  then have dw: "drop i (blocks ! b) @ concat (drop (Suc b) blocks) =
      dropWhile (seekBefore k False) (concat blocks)"
    unfolding tw same_append_eq .
  have di: "drop i (blocks ! b) = blocks ! b ! i # drop (Suc i) (blocks ! b)"
    by (rule Cons_nth_drop_Suc [OF i, symmetric])
  note found = conjunct1 [OF found_key [OF ok(1) k]] conjunct2 [OF found_key [OF ok(1) k]]
  have at: "blocks ! b ! i = k"
    "drop (Suc i) (blocks ! b) @ concat (drop (Suc b) blocks) =
      tl (dropWhile (seekBefore k False) (concat blocks))"
    using dw [unfolded di] found(1) by (metis append_Cons list.sel(1), metis append_Cons list.sel(3))
  let ?block = "take i (blocks ! b) @ drop (Suc i) (blocks ! b)"
  have "Suc (length ?block) = length (blocks ! b)" using i by simp
  moreover have "concat (blocks[b := ?block]) = filter (\<lambda>x. x \<noteq> k) (concat blocks)"
    unfolding found(2) at(2) [symmetric] before_def [symmetric] tw [symmetric]
    by (simp add: concat_update [OF b])
  moreover have "klRemove blocks k = Inr (klRejoin blocks b ?block)"
    using b i at(1) by (simp add: klRemove_def s)
  ultimately show "\<exists>b block. b < length blocks \<and> Suc (length block) = length (blocks ! b) \<and>
      concat (blocks[b := block]) = filter (\<lambda>x. x \<noteq> k) (concat blocks) \<and>
      klRemove blocks k = Inr (klRejoin blocks b block)"
    using b by blast
qed

text \<open>Removing a key the list holds: the flat list loses it, the blocks stay within their sizes.\<close>

lemma klRemove_ok:
  assumes ok: "kl_ok blocks" and k: "k \<in> set (concat blocks)"
  shows "\<exists>blocks'. klRemove blocks k = Inr blocks' \<and> kl_ok blocks' \<and>
    concat blocks' = filter (\<lambda>x. x \<noteq> k) (concat blocks) \<and> (kl_low blocks \<longrightarrow> kl_low blocks')"
proof -
  note okd = kl_okD(1,2) [OF ok]
  from klRemove_shape(2) [OF okd k] obtain b block where s: "b < length blocks"
    "Suc (length block) = length (blocks ! b)"
    "concat (blocks[b := block]) = filter (\<lambda>x. x \<noteq> k) (concat blocks)"
    "klRemove blocks k = Inr (klRejoin blocks b block)" by blast
  define blocks' where "blocks' = klRejoin blocks b block"
  have block: "length block \<le> 2 * BLOCK"
    using kl_okD(3) [OF ok nth_mem [OF s(1)]] s(2) by linarith
  have flat: "concat blocks' = filter (\<lambda>x. x \<noteq> k) (concat blocks)"
    unfolding blocks'_def klRejoin_concat [OF s(1)] by (rule s(3))
  have sizes: "1 \<le> length x \<and> length x \<le> 2 * BLOCK" if "x \<in> set blocks" for x
    using kl_okD(2,3) [OF ok] that by (auto simp: Suc_le_eq)
  have sizes': "1 \<le> length x \<and> length x \<le> 2 * BLOCK" if "x \<in> set blocks'" for x
    by (rule klRejoin_lengths [OF s(1) sizes block _ _ _ that [unfolded blocks'_def]])
      (simp_all add: BLOCK_def)
  have ok': "kl_ok blocks'"
    unfolding kl_ok_def flat using sizes' okd(1) by (fastforce intro: sorted_wrt_filter)
  have low: "kl_low blocks'" if "kl_low blocks"
  proof (cases "length blocks = 1")
    case True
    then have "length blocks' \<le> 1"
      unfolding blocks'_def using s(1) by (auto simp: klRejoin_def Let_def)
    then show ?thesis by (simp add: kl_low_def)
  next
    case False
    then have "1 < length blocks" using s(1) by simp
    then have "BLOCK div 4 \<le> length x" if "x \<in> set blocks" for x
      using \<open>kl_low blocks\<close> that by (auto simp: kl_low_def)
    then have "BLOCK div 4 \<le> length x \<and> length x \<le> 2 * BLOCK" if "x \<in> set blocks" for x
      using sizes that by blast
    then have "BLOCK div 4 \<le> length x" if "x \<in> set blocks'" for x
      using klRejoin_lengths [OF s(1) _ block, of "BLOCK div 4" x] that False
      by (simp add: blocks'_def BLOCK_def)
    then show ?thesis by (simp add: kl_low_def)
  qed
  show ?thesis using s(4) ok' flat low unfolding blocks'_def by blast
qed
section \<open>Building from a sorted list\<close>

lemma chunks_concat: "0 < n \<Longrightarrow> concat (chunks n xs) = xs"
proof (induction n xs rule: chunks.induct)
  case (1 n xs)
  then show ?case by (cases "xs = []") (simp_all add: chunks.simps)
qed

lemma chunks_length: "x \<in> set (chunks n xs) \<Longrightarrow> x \<noteq> [] \<and> length x \<le> n"
proof (induction n xs rule: chunks.induct)
  case (1 n xs)
  then show ?case by (cases "xs = [] \<or> n = 0") (auto simp: chunks.simps [of n xs])
qed

lemma ceil_div_pos: "0 < a \<Longrightarrow> 0 < b \<Longrightarrow> 0 < ceil_div a b"
  by (simp add: ceil_div_def div_greater_zero_iff)

lemma ceil_div_le: "0 < b \<Longrightarrow> a \<le> b * c \<Longrightarrow> ceil_div a b \<le> c"
proof -
  assume b: "0 < b" and a: "a \<le> b * c"
  have "a + b - 1 < b * Suc c" using a b by simp
  then have "(a + b - 1) div b < Suc c" using b by (simp add: less_mult_imp_div_less mult.commute)
  then show ?thesis by (simp add: ceil_div_def)
qed

lemma ceil_div_ge: "0 < b \<Longrightarrow> a \<le> b * ceil_div a b"
proof -
  assume b: "0 < b"
  have "a + b - 1 < b * Suc ((a + b - 1) div b)"
    using dividend_less_div_times [OF b, of "a + b - 1"] by (simp add: mult.commute)
  then show ?thesis using b by (simp add: ceil_div_def)
qed

lemma klOf_size:
  assumes "keys \<noteq> []"
  shows "0 < ceil_div (length keys) (ceil_div (length keys) BLOCK)"
    "ceil_div (length keys) (ceil_div (length keys) BLOCK) \<le> BLOCK"
proof -
  have B: "0 < BLOCK" by (simp add: BLOCK_def)
  have n: "0 < ceil_div (length keys) BLOCK" using ceil_div_pos [OF _ B] assms by simp
  then show "0 < ceil_div (length keys) (ceil_div (length keys) BLOCK)"
    using ceil_div_pos assms by simp
  show "ceil_div (length keys) (ceil_div (length keys) BLOCK) \<le> BLOCK"
    using ceil_div_le [OF n, of "length keys" BLOCK] ceil_div_ge [OF B, of "length keys"]
    by (simp add: mult.commute)
qed

lemma klOf_concat: "concat (klOf keys) = keys"
  using chunks_concat [OF klOf_size(1)] by (cases "keys = []") (simp_all add: klOf_def)

lemma klOf_ok: "ascending keys \<Longrightarrow> kl_ok (klOf keys)"
  using klOf_concat [of keys] chunks_length klOf_size(2) [of keys]
  by (fastforce simp: kl_ok_def klOf_def BLOCK_def)

section \<open>The contract: an ordered set of keys\<close>

text \<open>What a holder of keys promises to one that adds and removes them.\<close>

locale ordered_keys =
  fixes ok :: "'l \<Rightarrow> bool" and flat :: "'l \<Rightarrow> jsstr list"
    and add :: "'l \<Rightarrow> jsstr \<Rightarrow> 'l" and remove :: "'l \<Rightarrow> jsstr \<Rightarrow> 'e + 'l"
    and build :: "jsstr list \<Rightarrow> 'l"
  assumes flat_ascending: "ok l \<Longrightarrow> ascending (flat l)"
    and add_flat: "ok l \<Longrightarrow> k \<notin> set (flat l) \<Longrightarrow> ok (add l k) \<and> set (flat (add l k)) = insert k (set (flat l))"
    and remove_flat: "ok l \<Longrightarrow> k \<in> set (flat l) \<Longrightarrow>
      \<exists>l'. remove l k = Inr l' \<and> ok l' \<and> set (flat l') = set (flat l) - {k}"
    and build_flat: "ascending ks \<Longrightarrow> ok (build ks) \<and> flat (build ks) = ks"
begin

lemma same_keys: "ok l \<Longrightarrow> ok l' \<Longrightarrow> set (flat l) = set (flat l') \<Longrightarrow> flat l = flat l'"
  using ascending_unique flat_ascending by blast

text \<open>An add and a removal of it cancel.\<close>

lemma add_remove:
  assumes "ok l" "k \<notin> set (flat l)"
  shows "\<exists>l'. remove (add l k) k = Inr l' \<and> flat l' = flat l"
proof -
  have a: "ok (add l k)" "set (flat (add l k)) = insert k (set (flat l))"
    using add_flat [OF assms] by auto
  then obtain l' where "remove (add l k) k = Inr l'" "ok l'" "set (flat l') = set (flat l)"
    using remove_flat [of "add l k" k] assms(2) by auto
  then show ?thesis using same_keys [OF _ assms(1)] by blast
qed

end

interpretation kl: ordered_keys kl_ok concat klAdd klRemove klOf
proof
  fix l k
  assume ok: "kl_ok l"
  show "ascending (concat l)" by (rule kl_okD(1) [OF ok])
  show "kl_ok (klAdd l k) \<and> set (concat (klAdd l k)) = insert k (set (concat l))"
    if "k \<notin> set (concat l)"
    using klAdd_ok [OF ok that] klAdd_concat [OF kl_okD(1,2) [OF ok]] by simp
  show "\<exists>l'. klRemove l k = Inr l' \<and> kl_ok l' \<and> set (concat l') = set (concat l) - {k}"
    if k: "k \<in> set (concat l)"
  proof -
    obtain l' where l': "klRemove l k = Inr l'" "kl_ok l'" "concat l' = filter (\<lambda>x. x \<noteq> k) (concat l)"
      using klRemove_ok [OF ok k] by blast
    have "set (concat l') = set (concat l) - {k}" unfolding l'(3) by auto
    then show ?thesis using l'(1,2) by blast
  qed
next
  show "kl_ok (klOf ks) \<and> concat (klOf ks) = ks" if "ascending ks" for ks
    using klOf_ok [OF that] klOf_concat by blast
qed

section \<open>The cursor\<close>

record kl_cursor =
  kc_blocks :: blocks
  kc_reverse :: bool
  kc_b :: int
  kc_i :: nat

definition klCursor :: "blocks \<Rightarrow> bool \<Rightarrow> kl_cursor" where
  "klCursor blocks reverse = \<lparr>kc_blocks = blocks, kc_reverse = reverse, kc_b = 0, kc_i = 0\<rparr>"

definition klKey :: "kl_cursor \<Rightarrow> jsstr option" where
  "klKey c =
     (if kc_b c \<ge> 0 \<and> kc_b c < int (length (kc_blocks c)) then
        let block = kc_blocks c ! nat (kc_b c) in
        if kc_i c < length block then Some (block ! kc_i c) else None
      else None)"

definition klBack :: "kl_cursor \<Rightarrow> kl_cursor" where
  "klBack c =
     (if kc_i c > 0 then c\<lparr>kc_i := kc_i c - 1\<rparr>
      else
        let b = kc_b c - 1 in
        c\<lparr>kc_b := b, kc_i := if b \<ge> 0 then length (kc_blocks c ! nat b) - 1 else 0\<rparr>)"

definition klSeekTo :: "kl_cursor \<Rightarrow> jsstr option \<Rightarrow> bool \<Rightarrow> kl_cursor" where
  "klSeekTo c target strict =
     (let (b, i) =
        (case target of
           None \<Rightarrow> if kc_reverse c then (length (kc_blocks c), 0) else (0, 0)
         | Some t \<Rightarrow> klSeek (kc_blocks c) t (strict \<noteq> kc_reverse c));
          c' = c\<lparr>kc_b := int b, kc_i := i\<rparr>
      in if kc_reverse c then klBack c' else c')"

definition klStep :: "kl_cursor \<Rightarrow> kl_cursor" where
  "klStep c =
     (if kc_reverse c then klBack c
      else if kc_i c + 1 = length (kc_blocks c ! nat (kc_b c)) then c\<lparr>kc_b := kc_b c + 1, kc_i := 0\<rparr>
      else c\<lparr>kc_i := kc_i c + 1\<rparr>)"

definition klOps :: "kl_cursor cursor_ops" where
  "klOps = \<lparr>co_key = klKey, co_seek = klSeekTo, co_step = klStep\<rparr>"

text \<open>The cursor's place in the flat list; \<open>-1\<close> off the front.\<close>

definition klPos :: "kl_cursor \<Rightarrow> int" where
  "klPos c = (if kc_b c < 0 then -1
     else int (length (concat (take (nat (kc_b c)) (kc_blocks c))) + kc_i c))"

definition klValid :: "kl_cursor \<Rightarrow> bool" where
  "klValid c = kl_ok (kc_blocks c)"

definition inBlocks :: "kl_cursor \<Rightarrow> bool" where
  "inBlocks c = (kc_b c \<ge> 0 \<and> kc_b c < int (length (kc_blocks c)) \<and>
     kc_i c < length (kc_blocks c ! nat (kc_b c)))"

definition klPlaced :: "kl_cursor \<Rightarrow> bool" where
  "klPlaced c = (inBlocks c \<or>
     (kc_i c = 0 \<and> kc_b c = (if kc_reverse c then -1 else int (length (kc_blocks c)))))"

definition klView :: "kl_cursor \<Rightarrow> jsstr list" where
  "klView c = walk_view (kc_reverse c) (concat (kc_blocks c)) (klPos c)"

definition klEvery :: "kl_cursor \<Rightarrow> jsstr list" where
  "klEvery c = walk_every (kc_reverse c) (concat (kc_blocks c))"
lemma concat_nth_block:
  "b < length bs \<Longrightarrow> i < length (bs ! b) \<Longrightarrow>
    concat bs ! (length (concat (take b bs)) + i) = bs ! b ! i \<and>
    length (concat (take b bs)) + i < length (concat bs)"
proof -
  assume b: "b < length bs" and i: "i < length (bs ! b)"
  have "concat bs = concat (take b bs @ bs ! b # drop (Suc b) bs)"
    using b by (simp add: id_take_nth_drop [symmetric])
  then have "concat bs = concat (take b bs) @ bs ! b @ concat (drop (Suc b) bs)" by simp
  then show ?thesis using i by (simp add: nth_append)
qed

lemma length_concat_take_Suc:
  "b < length bs \<Longrightarrow> length (concat (take (Suc b) bs)) = length (concat (take b bs)) + length (bs ! b)"
  by (simp add: take_Suc_conv_app_nth)

lemma inBlocks_pos:
  assumes "inBlocks c"
  shows "0 \<le> klPos c" "klPos c < int (length (concat (kc_blocks c)))"
    "concat (kc_blocks c) ! nat (klPos c) = kc_blocks c ! nat (kc_b c) ! kc_i c"
proof -
  have b: "nat (kc_b c) < length (kc_blocks c)" "kc_i c < length (kc_blocks c ! nat (kc_b c))"
      "0 \<le> kc_b c"
    using assms by (auto simp: inBlocks_def)
  have pos: "klPos c = int (length (concat (take (nat (kc_b c)) (kc_blocks c))) + kc_i c)"
    using b(3) by (simp add: klPos_def)
  note nth = concat_nth_block [OF b(1,2)]
  show "0 \<le> klPos c" unfolding pos by simp
  show "klPos c < int (length (concat (kc_blocks c)))" unfolding pos using nth by linarith
  show "concat (kc_blocks c) ! nat (klPos c) = kc_blocks c ! nat (kc_b c) ! kc_i c"
    unfolding pos nat_int using nth by blast
qed

lemma klBack_pos:
  assumes "inBlocks c \<or> (kc_b c = int (length (kc_blocks c)) \<and> kc_i c = 0)"
    and ne: "\<forall>b \<in> set (kc_blocks c). b \<noteq> []"
  shows "klPos (klBack c) = klPos c - 1"
    "inBlocks (klBack c) \<or> (kc_b (klBack c) = -1 \<and> kc_i (klBack c) = 0)"
proof -
  have b: "0 \<le> kc_b c" using assms(1) by (auto simp: inBlocks_def)
  have "klPos (klBack c) = klPos c - 1 \<and>
    (inBlocks (klBack c) \<or> (kc_b (klBack c) = -1 \<and> kc_i (klBack c) = 0))"
  proof (cases "kc_i c > 0")
    case True
    then show ?thesis using assms(1) b by (auto simp: klBack_def klPos_def inBlocks_def)
  next
    case i: False
    show ?thesis
    proof (cases "kc_b c = 0")
      case True
      then show ?thesis using i by (simp add: klBack_def klPos_def)
    next
      case False
      define m where "m = nat (kc_b c) - 1"
      have m: "nat (kc_b c) = Suc m" "nat (kc_b c - 1) = m" "m < length (kc_blocks c)" "kc_b c - 1 = int m"
        using False b assms(1) by (auto simp: m_def inBlocks_def)
      have "kc_blocks c ! m \<noteq> []" using ne m(3) by simp
      then have len: "0 < length (kc_blocks c ! m)" by simp
      then have one: "int (length (kc_blocks c ! m) - Suc 0) = int (length (kc_blocks c ! m)) - 1" by linarith
      have "klPos c = int (length (concat (take m (kc_blocks c))) + length (kc_blocks c ! m))"
        using i b m length_concat_take_Suc [OF m(3)] by (simp add: klPos_def)
      then show ?thesis
        using i m len one by (simp add: klBack_def klPos_def inBlocks_def)
    qed
  qed
  then show "klPos (klBack c) = klPos c - 1"
    "inBlocks (klBack c) \<or> (kc_b (klBack c) = -1 \<and> kc_i (klBack c) = 0)" by auto
qed

lemma klBack_same [simp]:
  "kc_blocks (klBack c) = kc_blocks c" "kc_reverse (klBack c) = kc_reverse c"
  by (simp_all add: klBack_def Let_def)

lemma klStep_same [simp]:
  "kc_blocks (klStep c) = kc_blocks c" "kc_reverse (klStep c) = kc_reverse c"
  by (simp_all add: klStep_def)

lemma klStep_forward:
  assumes c: "inBlocks c" "\<not> kc_reverse c" and ne: "\<forall>b \<in> set (kc_blocks c). b \<noteq> []"
  shows "klPos (klStep c) = klPos c + 1" "klPlaced (klStep c)"
proof -
  have b: "0 \<le> kc_b c" "nat (kc_b c) < length (kc_blocks c)" "kc_i c < length (kc_blocks c ! nat (kc_b c))"
    using c(1) by (auto simp: inBlocks_def)
  have n: "nat (kc_b c + 1) = Suc (nat (kc_b c))" using b(1) by simp
  show "klPos (klStep c) = klPos c + 1"
    using c(2) b n length_concat_take_Suc [OF b(2)] by (simp add: klStep_def klPos_def)
  have "0 < length (kc_blocks c ! Suc (nat (kc_b c)))" if "Suc (nat (kc_b c)) < length (kc_blocks c)"
    using ne that by simp
  moreover have "kc_b c + 1 = int (Suc (nat (kc_b c)))" using b(1) by simp
  ultimately show "klPlaced (klStep c)"
    using c(2) b n by (cases "Suc (nat (kc_b c)) < length (kc_blocks c)")
      (auto simp: klStep_def klPlaced_def inBlocks_def)
qed

lemma klPlaced_walk:
  assumes "klPlaced c"
  shows "walk_placed (kc_reverse c) (concat (kc_blocks c)) (klPos c)"
    "klKey c = (if 0 \<le> klPos c \<and> klPos c < int (length (concat (kc_blocks c)))
      then Some (concat (kc_blocks c) ! nat (klPos c)) else None)"
proof -
  have out: "klPos c = (if kc_reverse c then -1 else int (length (concat (kc_blocks c))))"
    if "\<not> inBlocks c" using assms that by (auto simp: klPlaced_def klPos_def)
  show "walk_placed (kc_reverse c) (concat (kc_blocks c)) (klPos c)"
    using inBlocks_pos [of c] out by (cases "inBlocks c") (auto simp: walk_placed_def)
  show "klKey c = (if 0 \<le> klPos c \<and> klPos c < int (length (concat (kc_blocks c)))
      then Some (concat (kc_blocks c) ! nat (klPos c)) else None)"
  proof (cases "inBlocks c")
    case True
    then show ?thesis using inBlocks_pos [OF True] by (simp add: klKey_def inBlocks_def Let_def)
  next
    case False
    then have "klKey c = None" by (auto simp: klKey_def inBlocks_def Let_def)
    then show ?thesis using out [OF False] by (simp split: if_splits)
  qed
qed

lemma klPlaced_view: "klPlaced c \<Longrightarrow> klView c \<noteq> [] \<Longrightarrow> inBlocks c"
  by (auto simp: klPlaced_def klView_def walk_view_def klPos_def split: if_splits)

lemma klSeekTo_pos:
  assumes ok: "klValid c"
  shows "klPlaced (klSeekTo c t st)"
    "klPos (klSeekTo c t st) = (case t of
        None \<Rightarrow> if kc_reverse c then int (length (concat (kc_blocks c))) - 1 else 0
      | Some t \<Rightarrow> int (length (takeWhile (seekBefore t (st \<noteq> kc_reverse c)) (concat (kc_blocks c)))) -
          (if kc_reverse c then 1 else 0))"
proof -
  note okd = kl_okD(1,2) [OF ok [unfolded klValid_def]]
  define p where "p = (case t of None \<Rightarrow> if kc_reverse c then (length (kc_blocks c), 0) else (0, 0)
    | Some t \<Rightarrow> klSeek (kc_blocks c) t (st \<noteq> kc_reverse c))"
  define c' where "c' = c\<lparr>kc_b := int (fst p), kc_i := snd p\<rparr>"
  have to: "klSeekTo c t st = (if kc_reverse c then klBack c' else c')"
    by (simp add: klSeekTo_def p_def c'_def case_prod_beta)
  have at: "inBlocks c' \<or> (kc_b c' = int (length (kc_blocks c')) \<and> kc_i c' = 0)"
  proof (cases t)
    case None
    show ?thesis
    proof (cases "kc_reverse c \<or> kc_blocks c = []")
      case False
      then have "kc_blocks c ! 0 \<noteq> []" using okd(2) by simp
      then show ?thesis using None False by (simp add: c'_def p_def inBlocks_def)
    qed (use None in \<open>auto simp: c'_def p_def\<close>)
  next
    case (Some t')
    then show ?thesis
      using klSeek_flat [OF okd, of t' "st \<noteq> kc_reverse c"]
      by (auto simp: c'_def p_def inBlocks_def split: prod.splits if_splits)
  qed
  have pos: "klPos c' = (case t of None \<Rightarrow> if kc_reverse c then int (length (concat (kc_blocks c))) else 0
      | Some t \<Rightarrow> int (length (takeWhile (seekBefore t (st \<noteq> kc_reverse c)) (concat (kc_blocks c)))))"
  proof (cases t)
    case (Some t')
    obtain b i where bi: "klSeek (kc_blocks c) t' (st \<noteq> kc_reverse c) = (b, i)" by force
    note flat = klSeek_flat [OF okd, of t' "st \<noteq> kc_reverse c", unfolded bi, simplified]
    have "length (if b = length (kc_blocks c) then [] else take i (kc_blocks c ! b)) = i"
      using flat by (auto split: if_splits)
    then have "length (concat (take b (kc_blocks c)) @ (if b = length (kc_blocks c) then []
        else take i (kc_blocks c ! b))) = length (concat (take b (kc_blocks c))) + i"
      by (simp only: length_append)
    moreover have "concat (take b (kc_blocks c)) @ (if b = length (kc_blocks c) then []
        else take i (kc_blocks c ! b)) = takeWhile (seekBefore t' (st \<noteq> kc_reverse c)) (concat (kc_blocks c))"
      using flat by auto
    ultimately have "length (takeWhile (seekBefore t' (st \<noteq> kc_reverse c)) (concat (kc_blocks c))) =
        length (concat (take b (kc_blocks c))) + i" by metis
    then show ?thesis using Some bi by (simp add: klPos_def c'_def p_def)
  qed (simp add: klPos_def c'_def p_def)
  have ne: "\<forall>b \<in> set (kc_blocks c'). b \<noteq> []" using okd(2) by (simp add: c'_def)
  have rev: "kc_reverse c' = kc_reverse c" by (simp add: c'_def)
  show "klPlaced (klSeekTo c t st)"
    using at klBack_pos(2) [OF at ne] rev by (auto simp: to klPlaced_def)
  show "klPos (klSeekTo c t st) = (case t of
        None \<Rightarrow> if kc_reverse c then int (length (concat (kc_blocks c))) - 1 else 0
      | Some t \<Rightarrow> int (length (takeWhile (seekBefore t (st \<noteq> kc_reverse c)) (concat (kc_blocks c)))) -
          (if kc_reverse c then 1 else 0))"
    using pos klBack_pos(1) [OF at ne] by (auto simp: to split: option.split)
qed

lemma klSeekTo_same [simp]:
  "kc_blocks (klSeekTo c t st) = kc_blocks c" "kc_reverse (klSeekTo c t st) = kc_reverse c"
  by (simp_all add: klSeekTo_def case_prod_beta)

lemmas kl_defs = klOps_def klValid_def klView_def klEvery_def

interpretation klc: key_cursor klOps klValid klPlaced kc_reverse klEvery klView
proof
  fix c t st assume v: "klValid c"
  then have asc: "ascending (concat (kc_blocks c))" and ne: "\<forall>b \<in> set (kc_blocks c). b \<noteq> []"
    using kl_okD by (auto simp: klValid_def)
  show "sorted_wrt (walks (kc_reverse c)) (klEvery c)"
    unfolding klEvery_def by (rule walk_every_sorted [OF asc])
  show "klValid (co_seek klOps c t st) \<and> klPlaced (co_seek klOps c t st)"
    using klSeekTo_pos(1) [OF v] v by (simp add: klOps_def klValid_def)
  show "kc_reverse (co_seek klOps c t st) = kc_reverse c \<and> klEvery (co_seek klOps c t st) = klEvery c"
    by (simp add: kl_defs)
  show "klView (co_seek klOps c t st) = seekList (kc_reverse c) (klEvery c) t st"
  proof (cases t)
    case None
    then show ?thesis
      using walk_first [of "kc_reverse c" "concat (kc_blocks c)"] klSeekTo_pos(2) [OF v, of t st]
      by (simp add: kl_defs seekList_def)
  next
    case (Some a)
    then show ?thesis
      unfolding klOps_def klView_def klEvery_def Some walk_seek [OF asc]
      using klSeekTo_pos(2) [OF v, of "Some a" st] by simp
  qed
  assume p: "klPlaced c"
  show "co_key klOps c = (case klView c of [] \<Rightarrow> None | k # v \<Rightarrow> Some k)"
    using klPlaced_walk [OF p] walk_key by (simp add: kl_defs)
  show "\<exists>pre. klEvery c = pre @ klView c"
    unfolding klEvery_def klView_def by (rule walk_suffix)
  assume w: "klView c \<noteq> []"
  have i: "inBlocks c" by (rule klPlaced_view [OF p w])
  have "klPos (klStep c) = klPos c + (if kc_reverse c then -1 else 1) \<and> klPlaced (klStep c)"
  proof (cases "kc_reverse c")
    case True
    then have "klStep c = klBack c" by (simp add: klStep_def)
    then show ?thesis
      using klBack_pos [OF disjI1 [OF i] ne] True by (auto simp: klPlaced_def)
  next
    case False
    then show ?thesis using klStep_forward [OF i False ne] by simp
  qed
  then have step: "klPos (klStep c) = klPos c + (if kc_reverse c then -1 else 1)" "klPlaced (klStep c)"
    by auto
  show "klValid (co_step klOps c) \<and> klPlaced (co_step klOps c)"
    using v step(2) by (simp add: kl_defs)
  show "kc_reverse (co_step klOps c) = kc_reverse c \<and> klEvery (co_step klOps c) = klEvery c"
    by (simp add: kl_defs)
  show "klView (co_step klOps c) = tl (klView c)"
    using walk_step(1) [OF klPlaced_walk(1) [OF p]] w step(1) by (simp add: kl_defs)
qed

end
