(* ===== verification/Names.thy ===== *)
theory Names
  imports KeyMatch
begin

text \<open>
  Slice names, selectors and keys (typespec/ts/assets/skeleton.ts): the checks of a template's
  parameters, the slice of a key, what a selector covers, the keys of parked edits, snapshot pages
  and outbox mutations, and the parameters a key parses back to.
\<close>

section \<open>Parameters\<close>

definition segment_unit :: "unit16 \<Rightarrow> bool" where
  "segment_unit u = ((0x41 \<le> u \<and> u \<le> 0x5a) \<or> (0x61 \<le> u \<and> u \<le> 0x7a) \<or> (0x30 \<le> u \<and> u \<le> 0x39) \<or>
     u = 0x5f \<or> u = 0x2d)"

definition slice_rest_unit :: "unit16 \<Rightarrow> bool" where
  "slice_rest_unit u = (segment_unit u \<or> u = 0x2e \<or> u = 0x7e)"

definition SEGMENT_RE :: "jsstr \<Rightarrow> bool" where
  "SEGMENT_RE s = (s \<noteq> [] \<and> list_all segment_unit s)"

definition SLICE_REST_RE :: "jsstr \<Rightarrow> bool" where
  "SLICE_REST_RE s = (s \<noteq> [] \<and> list_all slice_rest_unit s)"

datatype name_error =
  NotSegment jsstr jsstr jsstr
  | NotSliceRest jsstr jsstr jsstr
  | LoneSurrogate jsstr jsstr jsstr
  | NoBang jsstr

definition asSegment :: "jsstr \<Rightarrow> jsstr \<Rightarrow> jsstr \<Rightarrow> name_error + jsstr" where
  "asSegment v accessor param =
     (if \<not> SEGMENT_RE v then Inl (NotSegment accessor param v) else Inr v)"

definition asSliceRest :: "jsstr \<Rightarrow> jsstr \<Rightarrow> jsstr \<Rightarrow> name_error + jsstr" where
  "asSliceRest v accessor param =
     (if \<not> SLICE_REST_RE v then Inl (NotSliceRest accessor param v) else Inr v)"

text \<open>The regular expression \<open>LONE_SURROGATE\<close>; \<open>p\<close> tells whether the unit before was a high surrogate.\<close>

fun loneFrom :: "bool \<Rightarrow> jsstr \<Rightarrow> bool" where
  "loneFrom p [] = False"
| "loneFrom p (u # s) =
     ((\<not> p \<and> trail_unit u) \<or>
      (lead_unit u \<and> (case s of [] \<Rightarrow> True | d # _ \<Rightarrow> \<not> trail_unit d)) \<or>
      loneFrom (lead_unit u) s)"

definition LONE_SURROGATE :: "jsstr \<Rightarrow> bool" where
  "LONE_SURROGATE s = loneFrom False s"

datatype scan_match = ScanText jsstr | ScanRange range_match | ScanPrefix jsstr

definition range_values :: "range_match \<Rightarrow> jsstr list" where
  "range_values r =
     concat (map (\<lambda>x. case x of None \<Rightarrow> [] | Some v \<Rightarrow> [v]) [rm_gte r, rm_gt r, rm_lte r, rm_lt r])"

text \<open>The parameter's check is \<open>None\<close> for a terminal local parameter, which may hold anything.\<close>

definition wellFormedAll :: "jsstr \<Rightarrow> jsstr \<Rightarrow> jsstr list \<Rightarrow> name_error + unit" where
  "wellFormedAll accessor param vs =
     (case filter LONE_SURROGATE vs of
        [] \<Rightarrow> Inr ()
      | v # _ \<Rightarrow> Inl (LoneSurrogate accessor param v))"

definition paramMatch ::
  "jsstr \<Rightarrow> jsstr \<Rightarrow> scan_match option \<Rightarrow> (jsstr \<Rightarrow> jsstr \<Rightarrow> jsstr \<Rightarrow> name_error + jsstr) option \<Rightarrow>
   name_error + param_match"
where
  "paramMatch accessor param m check =
     (case m of
        None \<Rightarrow> Inr AnyValue
      | Some (ScanText t) \<Rightarrow>
          (case wellFormedAll accessor param [t] of
             Inl e \<Rightarrow> Inl e
           | Inr _ \<Rightarrow>
               (case check of
                  None \<Rightarrow> Inr (Eq t)
                | Some f \<Rightarrow> (case f t accessor param of Inl e \<Rightarrow> Inl e | Inr v \<Rightarrow> Inr (Eq v))))
      | Some (ScanRange r) \<Rightarrow>
          (case wellFormedAll accessor param (range_values r) of
             Inl e \<Rightarrow> Inl e
           | Inr _ \<Rightarrow> Inr (Range r))
      | Some (ScanPrefix p) \<Rightarrow>
          (case wellFormedAll accessor param [p] of Inl e \<Rightarrow> Inl e | Inr _ \<Rightarrow> Inr (Prefix p)))"

section \<open>Slices and selectors\<close>

abbreviation star :: unit16 where "star \<equiv> 0x2a"

definition sliceOf :: "jsstr \<Rightarrow> name_error + jsstr" where
  "sliceOf key = (case index_of key bang 0 of None \<Rightarrow> Inl (NoBang key) | Some i \<Rightarrow> Inr (slice_to key 0 i))"

definition selectorCovers :: "jsstr \<Rightarrow> jsstr \<Rightarrow> bool" where
  "selectorCovers selector name =
     (if ends_with selector [star] then starts_with name (butlast selector) else name = selector)"

definition selectorPrefix :: "jsstr \<Rightarrow> jsstr" where
  "selectorPrefix selector =
     (if ends_with selector [star] then butlast selector else selector @ [bang])"

section \<open>The Engine's own keys\<close>

text \<open>\<open>String(n)\<close> of a non-negative integer, and \<open>Number(s)\<close> of a run of digits.\<close>

fun decimal :: "nat \<Rightarrow> jsstr" where
  "decimal n = (if n < 10 then [0x30 + of_nat n] else decimal (n div 10) @ [0x30 + of_nat (n mod 10)])"

declare decimal.simps [simp del]

definition digit_unit :: "unit16 \<Rightarrow> bool" where
  "digit_unit u = (0x30 \<le> u \<and> u \<le> 0x39)"

definition readDigits :: "jsstr \<Rightarrow> nat" where
  "readDigits s = foldl (\<lambda>n u. n * 10 + unat (u - 0x30)) 0 s"

definition parseNumber :: "jsstr \<Rightarrow> nat option" where
  "parseNumber s = (if s \<noteq> [] \<and> list_all digit_unit s then Some (readDigits s) else None)"

definition padStart :: "nat \<Rightarrow> unit16 \<Rightarrow> jsstr \<Rightarrow> jsstr" where
  "padStart n u s = replicate (n - length s) u @ s"

definition padded :: "nat \<Rightarrow> jsstr" where
  "padded n = padStart 20 0x30 (decimal n)"

definition PARK_EDIT :: jsstr where "PARK_EDIT = lit ''!park-edit:''"
definition PARK_SNAP :: jsstr where "PARK_SNAP = lit ''!park-snap:''"
definition MUTATION :: jsstr where "MUTATION = lit ''!mutation:''"

definition parkedEditKey :: "jsstr \<Rightarrow> nat \<Rightarrow> jsstr" where
  "parkedEditKey sl seq = PARK_EDIT @ sl @ [bang] @ padded seq"

definition parkedPageKey :: "jsstr \<Rightarrow> nat \<Rightarrow> jsstr" where
  "parkedPageKey selector offset = PARK_SNAP @ selector @ [bang] @ padded offset"

definition mutationKey :: "nat \<Rightarrow> jsstr" where
  "mutationKey ordinal = MUTATION @ padded ordinal"

definition engineKeys :: "jsstr \<Rightarrow> param_match \<Rightarrow> key_pattern" where
  "engineKeys name m = \<lparr>kp_slice = OneSlice [], kp_name = Some name, kp_local = [m]\<rparr>"

text \<open>\<open>indexOf\<close> answers -1 when there is no \<open>!\<close>, and the slices then count from the end and from 0.\<close>

definition parsePark :: "jsstr \<Rightarrow> jsstr \<times> nat option" where
  "parsePark key =
     (let from = length PARK_EDIT in
      case index_of key bang from of
        Some b \<Rightarrow> (slice_to key from b, parseNumber (slice_from key (b + 1)))
      | None \<Rightarrow> (slice_to key from (length key - 1), parseNumber key))"

section \<open>The parameters of a key\<close>

text \<open>\<open>s.split(',')\<close> and \<open>parts.join(',')\<close>\<close>

fun split_on :: "unit16 \<Rightarrow> jsstr \<Rightarrow> jsstr list" where
  "split_on c [] = [[]]"
| "split_on c (u # s) =
     (if u = c then [] # split_on c s
      else (case split_on c s of [] \<Rightarrow> [[u]] | p # ps \<Rightarrow> (u # p) # ps))"

text \<open>\<open>slice(0, n - 1)\<close> and \<open>slice(n - 1)\<close> of the parts, for \<open>n\<close> above 0.\<close>

definition localParams :: "jsstr \<Rightarrow> jsstr option \<Rightarrow> nat \<Rightarrow> jsstr list" where
  "localParams local name n =
     (case name of
        None \<Rightarrow> [local]
      | Some m \<Rightarrow>
          if n = 0 then []
          else let parts = split_on comma (slice_from local (length m + 1)) in
            take (n - 1) parts @ [joinParams (drop (n - 1) parts)])"

text \<open>\<open>parse\<close> of \<open>scanEach\<close>; a key of the slices matched holds a \<open>!\<close>.\<close>

definition parseKey :: "key_pattern \<Rightarrow> jsstr \<Rightarrow> jsstr list" where
  "parseKey p key =
     (case kp_slice p of
        EverySlice \<Rightarrow> [key]
      | s \<Rightarrow>
          let b = (case index_of key bang 0 of Some i \<Rightarrow> i | None \<Rightarrow> length key);
              sl = (case s of
                  Family f (m # ms) \<Rightarrow> split_on comma (slice_to key (length f + 1) b)
                | _ \<Rightarrow> [])
          in sl @ localParams (slice_from key (b + 1)) (kp_name p) (length (kp_local p)))"

section \<open>Well-formed text\<close>

lemma loneFrom_wf:
  "loneFrom p s \<longleftrightarrow> \<not> (if p then (case s of [] \<Rightarrow> True | d # s' \<Rightarrow> trail_unit d \<longrightarrow> well_formed s')
      \<and> (case s of d # s' \<Rightarrow> \<not> trail_unit d \<longrightarrow> well_formed s | [] \<Rightarrow> True) else well_formed s)"
proof (induction s arbitrary: p)
  case Nil
  then show ?case by simp
next
  case (Cons u s)
  have excl: "\<not> (lead_unit u \<and> trail_unit u)" by (auto simp: lead_unit_def trail_unit_def)
  show ?case
    using Cons excl by (cases s) (auto simp: well_formed.simps(2) split: if_splits)
qed

lemma LONE_SURROGATE_wf: "LONE_SURROGATE s \<longleftrightarrow> \<not> well_formed s"
  by (simp add: LONE_SURROGATE_def loneFrom_wf)

section \<open>Decimal numbers\<close>

lemma digit_of: "d < 10 \<Longrightarrow> digit_unit (0x30 + of_nat d) \<and> unat ((0x30 + of_nat d :: unit16) - 0x30) = d"
proof -
  assume d: "d < 10"
  then have "d = 0 \<or> d = 1 \<or> d = 2 \<or> d = 3 \<or> d = 4 \<or> d = 5 \<or> d = 6 \<or> d = 7 \<or> d = 8 \<or> d = 9" by arith
  then show ?thesis by (elim disjE) (simp_all add: digit_unit_def)
qed

lemma decimal_digits: "list_all digit_unit (decimal n) \<and> decimal n \<noteq> [] \<and> readDigits (decimal n) = n"
proof (induction n rule: decimal.induct)
  case (1 n)
  show ?case
  proof (cases "n < 10")
    case True
    then show ?thesis using digit_of [OF True] by (simp add: decimal.simps [of n] readDigits_def)
  next
    case False
    have d: "n mod 10 < 10" by simp
    show ?thesis
      using False 1 digit_of [OF d] by (subst (1 2 3) decimal.simps) (simp add: readDigits_def)
  qed
qed

lemma decimal_length: "n < 10 ^ Suc k \<Longrightarrow> length (decimal n) \<le> Suc k"
proof (induction k arbitrary: n)
  case 0
  then show ?case by (simp add: decimal.simps [of n])
next
  case (Suc k)
  show ?case
  proof (cases "n < 10")
    case True
    then show ?thesis by (simp add: decimal.simps [of n])
  next
    case False
    have "n div 10 < 10 ^ Suc k" using Suc.prems by (simp add: less_mult_imp_div_less mult.commute)
    then show ?thesis using Suc.IH False by (subst decimal.simps) simp
  qed
qed

lemma readDigits_acc: "foldl (\<lambda>n u. n * 10 + unat ((u :: unit16) - 0x30)) a s =
    a * 10 ^ length s + readDigits s"
proof (induction s arbitrary: a)
  case (Cons u s)
  show ?case
    unfolding readDigits_def foldl_Cons Cons.IH [of "a * 10 + unat (u - 0x30)"]
      Cons.IH [of "0 * 10 + unat (u - 0x30)"]
    by (simp add: algebra_simps)
qed (simp add: readDigits_def)

lemma readDigits_Cons: "readDigits (u # s) = unat (u - 0x30) * 10 ^ length s + readDigits s"
proof -
  have "readDigits (u # s) = foldl (\<lambda>n u. n * 10 + unat ((u :: unit16) - 0x30)) (0 * 10 + unat (u - 0x30)) s"
    by (simp only: readDigits_def foldl_Cons)
  then show ?thesis unfolding readDigits_acc by simp
qed

lemma digit_value:
  assumes "digit_unit u"
  shows "unat (u - 0x30) < 10" "urank u = 0x30 + int (unat (u - 0x30))"
proof -
  have "0x30 \<le> uint u" "uint u \<le> 0x39"
    using assms by (simp_all add: digit_unit_def word_le_def)
  moreover have "uint (u - 0x30) = uint u - 0x30" using calculation by (simp add: uint_word_ariths)
  ultimately show "unat (u - 0x30) < 10" "urank u = 0x30 + int (unat (u - 0x30))"
    by (simp_all add: unat_eq_nat_uint urank_def)
qed

lemma readDigits_bound: "list_all digit_unit s \<Longrightarrow> readDigits s < 10 ^ length s"
proof (induction s)
  case (Cons u s)
  then have "unat (u - 0x30) \<le> 9" using digit_value(1) [of u] by simp
  then have "unat (u - 0x30) * 10 ^ length s \<le> 9 * 10 ^ length s" by (rule mult_le_mono1)
  moreover have "readDigits s < 10 ^ length s" using Cons by simp
  ultimately have "unat (u - 0x30) * 10 ^ length s + readDigits s < 9 * 10 ^ length s + 10 ^ length s"
    by (rule add_le_less_mono)
  then show ?case unfolding readDigits_Cons by simp
qed (simp add: readDigits_def)

text \<open>Runs of digits of one length order as keys the way their numbers do.\<close>

lemma digits_less:
  assumes "list_all digit_unit a" "list_all digit_unit b" "length a = length b" "readDigits a < readDigits b"
  shows "key_less a b"
  using assms
proof (induction a arbitrary: b)
  case Nil
  then show ?case by simp
next
  case (Cons x a)
  then obtain y b' where b: "b = y # b'" by (cases b) auto
  have dx: "digit_unit x" and dy: "digit_unit y" using Cons.prems b by simp_all
  note v = digit_value [OF dx] digit_value [OF dy]
  have bound: "readDigits b' < 10 ^ length a" using readDigits_bound [of b'] Cons.prems b by simp
  have less: "unat (x - 0x30) * 10 ^ length a + readDigits a < unat (y - 0x30) * 10 ^ length a + readDigits b'"
    using Cons.prems(3,4) b by (simp add: readDigits_Cons)
  have "unat (x - 0x30) \<le> unat (y - 0x30)"
  proof (rule ccontr)
    assume "\<not> unat (x - 0x30) \<le> unat (y - 0x30)"
    then have "Suc (unat (y - 0x30)) * 10 ^ length a \<le> unat (x - 0x30) * 10 ^ length a"
      by (intro mult_le_mono1) simp
    then show False using less bound by simp
  qed
  then show ?case
  proof (cases "unat (x - 0x30) = unat (y - 0x30)")
    case True
    then have "x - 0x30 = y - 0x30" by (simp add: word_unat_eq_iff)
    then have "x = y" by simp
    then show ?thesis using Cons b less by simp
  next
    case False
    then have "int (unat (x - 0x30)) < int (unat (y - 0x30))"
      using \<open>unat (x - 0x30) \<le> unat (y - 0x30)\<close> by linarith
    then have "urank x < urank y" using v(2,4) by linarith
    then show ?thesis using b by simp
  qed
qed

lemma padded_digits:
  "list_all digit_unit (padded n)" "readDigits (padded n) = n" "padded n \<noteq> []"
  "n < 10 ^ 20 \<Longrightarrow> length (padded n) = 20"
proof -
  have z: "digit_unit 0x30" by (simp add: digit_unit_def)
  have all0: "list_all digit_unit (replicate k 0x30)" for k by (induction k) (simp_all add: z)
  then show "list_all digit_unit (padded n)" using decimal_digits [of n] by (simp add: padded_def padStart_def)
  have zeros: "readDigits (replicate k 0x30 @ s) = readDigits s" for k s
    by (induction k) (simp_all add: readDigits_Cons)
  then show "readDigits (padded n) = n" using decimal_digits [of n] by (simp add: padded_def padStart_def)
  show "padded n \<noteq> []" using decimal_digits [of n] by (simp add: padded_def padStart_def)
  show "n < 10 ^ 20 \<Longrightarrow> length (padded n) = 20"
    using decimal_length [of n 19] by (simp add: padded_def padStart_def)
qed

lemma padded_less: "m < 10 ^ 20 \<Longrightarrow> n < 10 ^ 20 \<Longrightarrow> key_less (padded m) (padded n) \<longleftrightarrow> m < n"
proof -
  assume mn: "m < 10 ^ 20" "n < 10 ^ 20"
  have less: "i < j \<Longrightarrow> i < 10 ^ 20 \<Longrightarrow> j < 10 ^ 20 \<Longrightarrow> key_less (padded i) (padded j)" for i j
    by (rule digits_less) (simp_all add: padded_digits)
  show ?thesis
  proof
    assume l: "key_less (padded m) (padded n)"
    show "m < n"
    proof (rule ccontr)
      assume "\<not> m < n"
      then have "m = n \<or> n < m" by auto
      then show False using l less mn key_less_asym by auto
    qed
  qed (use less mn in blast)
qed

section \<open>Parked keys\<close>

lemma bang_not_digit: "list_all digit_unit s \<Longrightarrow> bang \<notin> set s"
  by (auto simp: list_all_iff digit_unit_def)

lemma parkedEditKey_less:
  "m < 10 ^ 20 \<Longrightarrow> n < 10 ^ 20 \<Longrightarrow> key_less (parkedEditKey s m) (parkedEditKey s n) \<longleftrightarrow> m < n"
  by (simp add: parkedEditKey_def padded_less)

lemma mutationKey_less:
  "m < 10 ^ 20 \<Longrightarrow> n < 10 ^ 20 \<Longrightarrow> key_less (mutationKey m) (mutationKey n) \<longleftrightarrow> m < n"
  by (simp add: mutationKey_def padded_less)

lemma parsePark_parkedEditKey:
  assumes "bang \<notin> set s"
  shows "parsePark (parkedEditKey s n) = (s, Some n)"
proof -
  have "index_unit bang (s @ bang # padded n) = Some (length s)"
    by (rule index_unit_append [OF assms])
  then have "index_of (parkedEditKey s n) bang (length PARK_EDIT) = Some (length PARK_EDIT + length s)"
    by (simp add: index_of_def parkedEditKey_def)
  moreover have "parseNumber (padded n) = Some n"
    using padded_digits by (simp add: parseNumber_def)
  ultimately show ?thesis
    by (simp add: parsePark_def parkedEditKey_def slice_to_def slice_from_def)
qed

section \<open>Slices and selectors\<close>

lemma sliceOf_key: "bang \<notin> set x \<Longrightarrow> sliceOf (x @ bang # r) = Inr x"
  using index_unit_append [of bang x r] by (simp add: sliceOf_def index_of_def slice_to_def)

lemma sliceOf_split:
  assumes "sliceOf key = Inr x"
  obtains r where "key = x @ bang # r" "bang \<notin> set x"
proof -
  from assms obtain i where "index_unit bang key = Some i" "x = take i key"
    by (auto simp: sliceOf_def index_of_def slice_to_def split: option.splits)
  then show thesis using index_unit_split that by metis
qed

text \<open>
  A selector covers a slice exactly when the keys of the slice start with the selector's prefix; the
  text of a selector, up to its star, holds no \<open>!\<close>.
\<close>

lemma prefix_before_bang:
  assumes "bang \<notin> set p" "bang \<notin> set x"
  shows "prefix p (x @ bang # r) \<longleftrightarrow> prefix p x"
proof
  assume "prefix p (x @ bang # r)"
  then have "prefix p x \<or> (\<exists>t. p = x @ t \<and> prefix t (bang # r))"
    by (auto simp: prefix_append)
  then show "prefix p x"
  proof (elim disjE exE conjE)
    fix t assume t: "p = x @ t" "prefix t (bang # r)"
    then have "t = []" using assms(1) by (cases t) auto
    then show ?thesis using t by simp
  qed
qed auto

lemma selector_keys:
  assumes "bang \<notin> set selector" "bang \<notin> set x"
  shows "starts_with (x @ bang # r) (selectorPrefix selector) \<longleftrightarrow> selectorCovers selector x"
proof (cases "ends_with selector [star]")
  case True
  have "bang \<notin> set (butlast selector)" using assms(1) by (auto dest: in_set_butlastD)
  then show ?thesis
    using True prefix_before_bang assms(2) by (simp add: selectorPrefix_def selectorCovers_def)
next
  case False
  have "prefix (selector @ [bang]) (x @ bang # r) \<longleftrightarrow> x = selector"
  proof
    assume "prefix (selector @ [bang]) (x @ bang # r)"
    then obtain w where "x @ bang # r = selector @ bang # w" by (auto simp: prefix_def)
    then show "x = selector" using same_sep(1) assms by metis
  qed auto
  then show ?thesis using False by (simp add: selectorPrefix_def selectorCovers_def)
qed

section \<open>Parsing back the keys of a template\<close>

lemma split_on_ne: "split_on c s \<noteq> []"
  by (cases s) (auto split: list.split)

lemma split_on_plain: "c \<notin> set s \<Longrightarrow> split_on c s = [s]"
  by (induction s) auto

lemma split_on_sep: "c \<notin> set v \<Longrightarrow> split_on c (v @ c # w) = v # split_on c w"
  by (induction v) auto

lemma join_split: "joinParams (split_on comma s) = s"
proof (induction s)
  case (Cons u s)
  obtain p ps where s: "split_on comma s = p # ps" using split_on_ne by (metis neq_Nil_conv)
  show ?case using Cons s by (cases ps) auto
qed simp

lemma split_join:
  "vs \<noteq> [] \<Longrightarrow> \<forall>v \<in> set vs. comma \<notin> set v \<Longrightarrow> split_on comma (joinParams vs) = vs"
  by (induction vs rule: joinParams.induct) (auto simp: split_on_plain split_on_sep)

lemma split_params:
  assumes "apart None ws" "ws \<noteq> []"
  shows "take (length ws - 1) (split_on comma (joinParams ws)) = butlast ws \<and>
    joinParams (drop (length ws - 1) (split_on comma (joinParams ws))) = last ws"
  using assms
proof (induction "None :: unit16 option" ws rule: apart.induct)
  case (2 v)
  then show ?case by (simp add: join_split)
next
  case (3 v v' vs)
  then have "split_on comma (v @ comma # joinParams (v' # vs)) = v # split_on comma (joinParams (v' # vs))"
    by (intro split_on_sep) simp
  then show ?case using 3 by simp
qed simp

text \<open>The parameters of a key of a template parse back, the terminal one whatever it holds.\<close>

lemma localParams_localText:
  assumes "apart None ws"
  shows "localParams (localText n ws) (Some n) (length ws) = ws"
proof (cases "ws = []")
  case True
  then show ?thesis by (simp add: localParams_def)
next
  case False
  then show ?thesis
    using split_params [OF assms False]
    by (simp add: localParams_def localText_def slice_from_def Let_def)
qed

lemma parseKey_template:
  assumes p: "kp_slice p = Family f ms" "kp_name p = Some n" "length (kp_local p) = length ws"
    "length ms = length vs"
    and f: "bang \<notin> set f" and vs: "\<forall>v \<in> set vs. comma \<notin> set v \<and> bang \<notin> set v" and ws: "apart None ws"
  shows "parseKey p (sliceText f vs @ localText n ws) = vs @ ws"
proof (cases "vs = []")
  case True
  then have "index_unit bang (f @ bang # localText n ws) = Some (length f)" "ms = []"
    using index_unit_append [OF f] p(4) by auto
  then show ?thesis
    using True p localParams_localText [OF ws]
    by (simp add: parseKey_def sliceText_def index_of_def slice_from_def Let_def)
next
  case False
  have nb: "bang \<notin> set (joinParams vs)" using vs
    by (induction vs rule: joinParams.induct) auto
  have key: "sliceText f vs @ localText n ws = (f @ colon # joinParams vs) @ bang # localText n ws"
    using False by (simp add: sliceText_def)
  have "index_unit bang ((f @ colon # joinParams vs) @ bang # localText n ws) =
      Some (length (f @ colon # joinParams vs))"
    by (rule index_unit_append) (use f nb in simp)
  moreover obtain m ms' where "ms = m # ms'" using False p(4) by (cases ms) auto
  moreover have "split_on comma (joinParams vs) = vs" by (rule split_join [OF False]) (use vs in blast)
  ultimately show ?thesis
    unfolding key using p localParams_localText [OF ws]
    by (simp add: parseKey_def index_of_def slice_from_def slice_to_def Let_def)
qed

section \<open>Keys of a template order by their parameters\<close>

text \<open>Lists of parameters in the order of their first difference, the shorter first.\<close>

fun params_less :: "jsstr list \<Rightarrow> jsstr list \<Rightarrow> bool" where
  "params_less vs [] = False"
| "params_less [] ws = True"
| "params_less (v # vs) (w # ws) = (key_less v w \<or> (v = w \<and> params_less vs ws))"

lemma join_less:
  assumes "length vs = length ws" "vs \<noteq> []"
    and "\<forall>v \<in> set vs. units_above comma v" "\<forall>w \<in> set ws. units_above comma w"
    and "units_above e (last vs)" "units_above e (last ws)" "params_less vs ws"
  shows "key_less (joinParams vs @ e # r) (joinParams ws @ e # r')"
  using assms
proof (induction vs arbitrary: ws rule: joinParams.induct)
  case (2 v)
  then obtain w where w: "ws = [w]" by (cases ws) auto
  then show ?case using 2 sep_below [of v w e r "e # r'"] by auto
next
  case (3 v v' vs)
  then obtain w w' ws' where w: "ws = w # w' # ws'"
    by (cases ws; cases "tl ws") auto
  show ?case
  proof (cases "key_less v w")
    case True
    then have "key_less (v @ comma # (joinParams (v' # vs) @ e # r)) (w @ comma # (joinParams (w' # ws') @ e # r'))"
      by (rule sep_below) (use 3 w in simp)
    then show ?thesis using w by simp
  next
    case False
    then have "v = w" "params_less (v' # vs) (w' # ws')" using 3 w by auto
    then show ?thesis using 3 w by simp
  qed
qed simp

end
