(* ===== verification/KeyProperties.thy ===== *)
theory KeyProperties
  imports KeyMatch KeyList Names
begin

text \<open>
  What the keys promise: the order of keys is the order of their UTF-8 bytes, a prefix is a range
  of keys, a pattern picks out the keys whose parameters are inside its matches, a seek of a skip
  scan passes no key of the pattern, and the reserved keys of the Engine read back what was
  written in them. Each property has an instance beside it, on the keys of a small template.
\<close>

section \<open>A template to instantiate the properties on\<close>

definition samplePattern :: key_pattern where
  "samplePattern =
     \<lparr>kp_slice = Family (lit ''l'') [Range \<lparr>rm_gte = Some (lit ''b''), rm_gt = None, rm_lte = None, rm_lt = Some (lit ''d'')\<rparr>],
      kp_name = Some (lit ''t''), kp_local = [AnyValue]\<rparr>"

definition sampleCompiled :: compiled_pattern where
  "sampleCompiled =
     \<lparr>cp_head = lit ''l:'',
      cp_fields =
        [ValueField \<lparr>vf_lo = Some (lit ''b''), vf_loOpen = False, vf_hi = Some (lit ''d''), vf_hiOpen = True,
           vf_cmp = unitCompare, vf_single = False, vf_sep = Some bang\<rparr>,
         LiteralField (lit ''t:'') False, ValueField (blankField None)]\<rparr>"

lemma sample_compiles: "compilePattern samplePattern = Inr sampleCompiled"
  by (simp add: compilePattern_def samplePattern_def sampleCompiled_def blankField_def exactFor_def high_unit_def)

lemma sample_name: "name_ok samplePattern"
  by (simp add: name_ok_def samplePattern_def high_unit_def)

lemma sample_bounds: "bounds_ok (cp_fields sampleCompiled)"
  by (simp add: sampleCompiled_def blankField_def units_above_def urank_def)

lemma sample_rule: "key_rule sampleCompiled (lit ''l:a!t:x'')" "key_rule sampleCompiled (lit ''l:c!t:y'')"
    "key_rule sampleCompiled (lit ''l:d!t:y'')"
  by (simp_all add: key_rule_def sampleCompiled_def blankField_def units_above_def urank_def)

lemmas place_eval = placeKey_def placeFields.simps matchesPattern_def starts_with_def starts_at_def index_of_def
  checkLow_def checkHigh_def slice_to_def slice_from_def unitCompare_def blankField_def unit_cmp_def
  key_le_def key_less_def krank_def urank_def

section \<open>The order of keys\<close>

text \<open>
  C25: \<open>compareKeys\<close> orders well-formed keys as their UTF-8 bytes are ordered, and finds two keys
  equal only when they are.
\<close>

theorem compareKeys_bytes:
  assumes "well_formed a" "well_formed b"
  shows "(compareKeys a b < 0 \<longleftrightarrow> utf8 a < utf8 b) \<and> (compareKeys a b = 0 \<longleftrightarrow> a = b)"
  by (simp_all add: utf8_less [OF assms])

theorem compareKeys_bytes_witness:
  "(compareKeys [0xd83d, 0xde00] [0xff5e] < 0 \<longleftrightarrow> utf8 [0xd83d, 0xde00] < utf8 [0xff5e]) \<and>
     (compareKeys [0xd83d, 0xde00] [0xff5e] = 0 \<longleftrightarrow> [0xd83d, 0xde00] = [0xff5e :: unit16])"
  by (rule compareKeys_bytes) (simp_all add: well_formed.simps lead_unit_def trail_unit_def)

text \<open>
  \<open>utf8Length\<close> counts the bytes of the UTF-8 encoding of any string, lone surrogates included.\<close>

theorem utf8Length_bytes: "utf8Length s = length (utf8 s)"
  by (rule utf8Length_utf8)

text \<open>
  The keys that start with a prefix are those from the prefix up to \<open>prefixEnd\<close>, or all keys
  from it on where \<open>prefixEnd\<close> has no answer.
\<close>

theorem prefixEnd_range:
  assumes "well_formed p" "well_formed s"
  shows "prefix p s \<longleftrightarrow> compareKeys p s \<le> 0 \<and> (case prefixEnd p of None \<Rightarrow> True | Some e \<Rightarrow> compareKeys s e < 0)"
  using prefixEnd_prefix [OF assms] by (simp split: option.splits)

theorem prefixEnd_range_witness:
  "prefix (lit ''ab'') (lit ''abc'') \<longleftrightarrow> compareKeys (lit ''ab'') (lit ''abc'') \<le> 0 \<and>
     (case prefixEnd (lit ''ab'') of None \<Rightarrow> True | Some e \<Rightarrow> compareKeys (lit ''abc'') e < 0)"
  by (rule prefixEnd_range) (simp_all add: well_formed.simps lead_unit_def trail_unit_def)

text \<open>
  \<open>sortKeys\<close> returns the same keys in the order of \<open>compareKeys\<close>, on either of its two paths.\<close>

theorem sortKeys_sorts:
  "set (sortKeys keys) = set keys \<and> length (sortKeys keys) = length keys \<and>
   sorted_wrt (\<lambda>a b. compareKeys a b \<le> 0) (sortKeys keys)"
  using sortKeys_sorted [of keys] by simp

section \<open>Patterns\<close>

text \<open>
  C28: the key a template makes of its parameters matches the pattern just when each parameter is
  inside its match, for parameters free of the separators that follow them, well formed where a prefix is
  matched.
\<close>

theorem matches_parameters:
  assumes "compilePattern \<lparr>kp_slice = Family f ms, kp_name = Some n, kp_local = ls\<rparr> = Inr c" "\<not> high_unit n"
    and "list_all2 match_text ms vs" "apart (Some bang) vs"
    and "list_all2 match_text ls ws" "apart None ws"
  shows "matchesPattern c (sliceText f vs @ localText n ws) \<longleftrightarrow> list_all2 inMatch ms vs \<and> list_all2 inMatch ls ws"
  by (rule template_match) (fact assms)+

theorem matches_parameters_witness:
  "matchesPattern sampleCompiled (sliceText (lit ''l'') [lit ''c''] @ localText (lit ''t'') [lit ''x'']) \<longleftrightarrow>
     list_all2 inMatch [Range \<lparr>rm_gte = Some (lit ''b''), rm_gt = None, rm_lte = None, rm_lt = Some (lit ''d'')\<rparr>] [lit ''c''] \<and>
     list_all2 inMatch [AnyValue] [lit ''x'']"
  by (rule matches_parameters [OF sample_compiles [unfolded samplePattern_def]])
    (simp_all add: high_unit_def match_text_def)

text \<open>
  C26: a forward skip scan passes no key of the pattern: where \<open>placeKey\<close> sends the walk from a
  key, no matching key lies between.
\<close>

theorem placeKey_forward:
  assumes "compilePattern p = Inr c" "name_ok p"
    and "key_rule c k" "key_le (cp_head c) k"
    and "key_rule c k'" "matchesPattern c k'" "compareKeys k k' < 0"
  shows "ahead False (placeKey c k False) k'"
  using assms by (intro place_sound_forward [OF assms(1,2)]) (simp_all add: matchesPattern_holds)

theorem placeKey_forward_witness:
  "ahead False (placeKey sampleCompiled (lit ''l:a!t:x'') False) (lit ''l:c!t:y'')"
  by (rule placeKey_forward [OF sample_compiles sample_name sample_rule(1)])
    (simp_all only: sample_rule, simp_all add: sampleCompiled_def place_eval)

text \<open>
  C27: a reverse skip scan passes no key of the pattern either, provided the upper bounds of its
  matches hold only units above the separator that follows them.
\<close>

theorem placeKey_back:
  assumes "compilePattern p = Inr c" "name_ok p" "bounds_ok (cp_fields c)"
    and "key_rule c k" "below_head c k"
    and "key_rule c k'" "matchesPattern c k'" "compareKeys k' k < 0"
  shows "ahead True (placeKey c k True) k'"
  using assms by (intro place_sound_back [OF assms(1,2,3)]) (simp_all add: matchesPattern_holds)

theorem placeKey_back_witness:
  "ahead True (placeKey sampleCompiled (lit ''l:d!t:y'') True) (lit ''l:c!t:y'')"
  by (rule placeKey_back [OF sample_compiles sample_name sample_bounds sample_rule(3)])
    (simp_all only: sample_rule, simp_all add: sampleCompiled_def place_eval below_head_def prefixEnd_def strip_max.simps
      ends_with_def max_point_def codePointAt_def lead_unit_def trail_unit_def fromCodePoint_def)

text \<open>
  C29: without that provision it does. Let the first parameter be followed by a separator and have only an
  upper bound, in which a unit below the separator follows the string \<open>x\<close>. From any key whose parameter is
  above the bound, a reverse scan seeks to a target below every key whose parameter is \<open>x\<close>, though these
  match and are still to come.
\<close>

theorem placeKey_back_skips:
  assumes "compilePattern p = Inr c" "cp_fields c = ValueField f # fs" "vf_sep f = Some s" "vf_lo f = None"
    and "vf_hi f = Some (x @ u # y)" "urank u < urank s"
    and "s \<notin> set v" "vf_cmp f v (x @ u # y) > 0"
    and "matchesPattern c (cp_head c @ x @ s # m)" "compareKeys (cp_head c @ x @ s # m) (cp_head c @ v @ s # r) < 0"
  shows "\<exists>target strict. placeKey c (cp_head c @ v @ s # r) True = Seek target strict \<and>
    compareKeys target (cp_head c @ x @ s # m) < 0"
proof -
  define k where "k = cp_head c @ v @ s # r"
  have i: "index_of k s (length (cp_head c)) = Some (length (cp_head c) + length v)"
    using index_unit_append [OF assms(7), of r] by (simp add: index_of_def k_def)
  have v: "slice_to k (length (cp_head c)) (length (cp_head c) + length v) = v" "slice_to k 0 (length (cp_head c)) = cp_head c"
    by (simp_all add: slice_to_def k_def)
  have "placeKey c k True = (let at = cp_head c @ x @ u # y in
      if vf_hiOpen f then Seek at True else Seek (at @ [above_sep s]) True)"
  proof -
    have "starts_with k (cp_head c)" by (simp add: k_def starts_with_prefix)
    then show ?thesis
      unfolding placeKey_def assms(2) placeFields.simps assms(3) option.case i
      using assms(4,5,8) v by (simp add: checkLow_def checkHigh_def assms(3) Let_def split: if_split)
  qed
  moreover have "key_less (cp_head c @ x @ u # z) (cp_head c @ x @ s # m)" for z
    using assms(6) by (simp add: key_less_def krank_def)
  ultimately show ?thesis unfolding k_def by (auto simp: Let_def)
qed

definition spacePattern :: key_pattern where
  "spacePattern =
     \<lparr>kp_slice = Family (lit ''f'') [Range \<lparr>rm_gte = None, rm_gt = None, rm_lte = None, rm_lt = Some (lit ''a b'')\<rparr>, AnyValue],
      kp_name = Some (lit ''n''), kp_local = []\<rparr>"

theorem placeKey_back_skips_witness:
  "\<exists>c target strict. compilePattern spacePattern = Inr c \<and> placeKey c (lit ''f:b,y!n'') True = Seek target strict \<and>
     compareKeys target (lit ''f:a,x!n'') < 0"
proof -
  obtain c where c: "compilePattern spacePattern = Inr c" "cp_head c = lit ''f:''"
    and f: "\<exists>f fs. cp_fields c = ValueField f # fs \<and> vf_sep f = Some comma \<and> vf_lo f = None \<and>
      vf_hi f = Some (lit ''a b'') \<and> vf_cmp f (lit ''b'') (lit ''a b'') > 0"
    and m: "matchesPattern c (lit ''f:a,x!n'')"
    by (simp add: compilePattern_def spacePattern_def exactFor_def high_unit_def place_eval)
  obtain g gs where g: "cp_fields c = ValueField g # gs" "vf_sep g = Some comma" "vf_lo g = None"
    "vf_hi g = Some (lit ''a b'')" "vf_cmp g (lit ''b'') (lit ''a b'') > 0" using f by blast
  have "\<exists>target strict. placeKey c (cp_head c @ lit ''b'' @ comma # lit ''y!n'') True = Seek target strict \<and>
      compareKeys target (cp_head c @ lit ''a'' @ comma # lit ''x!n'') < 0"
    by (rule placeKey_back_skips [OF c(1) g(1-3), where u = "0x20" and y = "lit ''b''"])
      (use g(4,5) m c(2) in \<open>simp_all add: urank_def key_less_def krank_def unit_cmp_def\<close>)
  then show ?thesis using c by (simp add: c(2))
qed

section \<open>The sorted key list\<close>

text \<open>
  C33: adding a key the list lacks inserts it in order, and keeps every block non-empty, at most
  twice \<open>BLOCK\<close> long, and at least a quarter of it where there are several.
\<close>

theorem klAdd_inserts:
  assumes "kl_ok blocks" "k \<notin> set (concat blocks)"
  shows "concat (klAdd blocks k) = insert_key k (concat blocks) \<and> kl_ok (klAdd blocks k) \<and>
    (kl_low blocks \<longrightarrow> kl_low (klAdd blocks k))"
  using klAdd_concat [OF kl_okD(1,2) [OF assms(1)]] klAdd_ok [OF assms] klAdd_low [OF assms(1)] by simp

theorem klAdd_inserts_witness:
  "concat (klAdd [[lit ''a'', lit ''c'']] (lit ''b'')) = insert_key (lit ''b'') (concat [[lit ''a'', lit ''c'']]) \<and>
     kl_ok (klAdd [[lit ''a'', lit ''c'']] (lit ''b'')) \<and> kl_low (klAdd [[lit ''a'', lit ''c'']] (lit ''b''))"
proof -
  have "kl_ok [[lit ''a'', lit ''c'']]" "lit ''b'' \<notin> set (concat [[lit ''a'', lit ''c'']])" "kl_low [[lit ''a'', lit ''c'']]"
    by (simp_all add: kl_low_def) (simp_all add: kl_ok_def key_less_def krank_def urank_def BLOCK_def)
  then show ?thesis using klAdd_inserts by blast
qed

text \<open>
  Removing a key the list holds leaves the other keys in order and the same bounds on the
  blocks, and removing one it lacks is an error that names the key.
\<close>

theorem klRemove_removes:
  assumes "kl_ok blocks"
  shows "if k \<in> set (concat blocks)
     then \<exists>blocks'. klRemove blocks k = Inr blocks' \<and> kl_ok blocks' \<and>
       concat blocks' = filter (\<lambda>x. x \<noteq> k) (concat blocks) \<and> (kl_low blocks \<longrightarrow> kl_low blocks')
     else klRemove blocks k = Inl (HoldsNo k)"
  using klRemove_shape(1) [OF kl_okD(1,2) [OF assms]] klRemove_ok [OF assms] by auto

theorem klRemove_removes_witness:
  "klRemove [[lit ''a'', lit ''c'']] (lit ''b'') = Inl (HoldsNo (lit ''b'')) \<and>
   (\<exists>blocks'. klRemove [[lit ''a'', lit ''c'']] (lit ''c'') = Inr blocks' \<and> kl_ok blocks' \<and>
      concat blocks' = filter (\<lambda>x. x \<noteq> lit ''c'') (concat [[lit ''a'', lit ''c'']]))"
proof -
  have ok: "kl_ok [[lit ''a'', lit ''c'']]" by (simp add: kl_ok_def key_less_def krank_def urank_def BLOCK_def)
  show ?thesis
    using klRemove_removes [OF ok, of "lit ''b''"] klRemove_removes [OF ok, of "lit ''c''"] by auto
qed

section \<open>Keys the Engine writes and reads back\<close>

text \<open>
  The row of a parked edit gives back the slice and the sequence number it was made of.\<close>

theorem parkedEditKey_reads_back:
  assumes "bang \<notin> set s"
  shows "parsePark (parkedEditKey s n) = (s, Some n)"
  by (rule parsePark_parkedEditKey) (fact assms)

theorem parkedEditKey_reads_back_witness: "parsePark (parkedEditKey (lit ''list:a'') 42) = (lit ''list:a'', Some 42)"
  by (rule parkedEditKey_reads_back) simp

text \<open>
  C34: the rows of a slice's parked edits, and those of the outbox, are in the order of their
  numbers, so that a scan reads them as they were made.
\<close>

theorem numbered_keys_ordered:
  assumes "m < 10 ^ 20" "n < 10 ^ 20"
  shows "(compareKeys (parkedEditKey s m) (parkedEditKey s n) < 0 \<longleftrightarrow> m < n) \<and>
    (compareKeys (mutationKey m) (mutationKey n) < 0 \<longleftrightarrow> m < n)"
  by (simp_all add: parkedEditKey_less [OF assms] mutationKey_less [OF assms])

theorem numbered_keys_ordered_witness:
  "(compareKeys (parkedEditKey (lit ''a'') 9) (parkedEditKey (lit ''a'') 10) < 0 \<longleftrightarrow> (9::nat) < 10) \<and>
   (compareKeys (mutationKey 9) (mutationKey 10) < 0 \<longleftrightarrow> (9::nat) < 10)"
  by (rule numbered_keys_ordered) simp_all

text \<open>C35: \<open>parseKey\<close> gives back the parameters a template's key was made of.\<close>

theorem parseKey_reads_back:
  assumes "kp_slice p = Family f ms" "kp_name p = Some n" "length (kp_local p) = length ws" "length ms = length vs"
    and "bang \<notin> set f" "\<forall>v \<in> set vs. comma \<notin> set v \<and> bang \<notin> set v" "apart None ws"
  shows "parseKey p (sliceText f vs @ localText n ws) = vs @ ws"
  by (rule parseKey_template) (fact assms)+

theorem parseKey_reads_back_witness:
  "parseKey samplePattern (sliceText (lit ''l'') [lit ''c''] @ localText (lit ''t'') [lit ''x,y'']) = [lit ''c''] @ [lit ''x,y'']"
  by (rule parseKey_reads_back [where ms = "[Range \<lparr>rm_gte = Some (lit ''b''), rm_gt = None, rm_lte = None, rm_lt = Some (lit ''d'')\<rparr>]"])
    (simp_all add: samplePattern_def)

text \<open>
  The keys of the slices a selector covers are those that start with the selector's prefix:
  scanning that prefix reads the slices' keys and no other slice's.
\<close>

theorem selector_reads_its_slices:
  assumes "bang \<notin> set selector" "bang \<notin> set x"
  shows "starts_with (x @ bang # r) (selectorPrefix selector) \<longleftrightarrow> selectorCovers selector x"
  by (rule selector_keys) (fact assms)+

theorem selector_reads_its_slices_witness:
  "starts_with (lit ''list:a'' @ bang # lit ''t'') (selectorPrefix (lit ''list:*'')) \<longleftrightarrow>
     selectorCovers (lit ''list:*'') (lit ''list:a'')"
  by (rule selector_reads_its_slices) simp_all

text \<open>
  Joined parameters order as the lists of them do, for parameters of units above the
  separators: the keys of a template sort by its parameters.
\<close>

theorem joined_parameters_ordered:
  assumes "length vs = length ws" "vs \<noteq> []"
    and "\<forall>v \<in> set vs. units_above comma v" "\<forall>w \<in> set ws. units_above comma w"
    and "units_above e (last vs)" "units_above e (last ws)" "params_less vs ws"
  shows "compareKeys (joinParams vs @ e # r) (joinParams ws @ e # r') < 0"
  unfolding compareKeys_less by (rule join_less) (fact assms)+

theorem joined_parameters_ordered_witness:
  "compareKeys (joinParams [lit ''a'', lit ''b''] @ bang # lit ''x'') (joinParams [lit ''a0'', lit ''a''] @ bang # lit ''x'') < 0"
  by (rule joined_parameters_ordered) (simp_all add: units_above_def key_less_def krank_def urank_def)

text \<open>
  \<open>LONE_SURROGATE\<close> finds a lone surrogate in just the strings that are not well formed.\<close>

theorem lone_surrogate_found: "LONE_SURROGATE s \<longleftrightarrow> \<not> well_formed s"
  by (rule LONE_SURROGATE_wf)

end
