(* ===== verification/Store.thy ===== *)
theory Store
  imports KeyList Names
begin

text \<open>
  The in-memory store and its transactions (typespec/ts/assets/skeleton.ts, \<open>InMemStore\<close> and
  \<open>InMemTxn\<close>): layers of values with the pending updates of a transaction over them, the commit
  that folds updates into the values and the key list, reads, scans, and the application of edits
  and snapshot pages.
\<close>

section \<open>Layers\<close>

datatype rep = JS | HOST | MSGPACK

text \<open>A value in one of its representations: a JS value, the host's, or msgpack bytes.\<close>

datatype ('js, 'host) rval = JsVal 'js | HostVal 'host | ByteVal bytes

datatype lifecycle = Normal | Birth | Death

record edit_envelope =
  ee_position :: int
  ee_slice :: jsstr
  ee_seq :: nat
  ee_id :: jsstr
  ee_servertime :: int
  ee_lifecycle :: lifecycle

text \<open>
  The Registry a store is built on. \<open>reg_js\<close>, \<open>reg_out\<close> and \<open>reg_raw\<close> are its \<open>convert\<close> to JS, from
  JS, and from the bytes of a reserved type; \<open>reg_env\<close> is \<open>convert('.edits', _, MSGPACK, JS)\<close>.
\<close>

record ('js, 'host) registry =
  reg_js :: "jsstr \<Rightarrow> ('js, 'host) rval \<Rightarrow> jsstr + 'js"
  reg_out :: "jsstr \<Rightarrow> 'js \<Rightarrow> rep \<Rightarrow> jsstr + ('js, 'host) rval"
  reg_raw :: "jsstr \<Rightarrow> bytes \<Rightarrow> rep \<Rightarrow> jsstr + ('js, 'host) rval"
  reg_env :: "bytes \<Rightarrow> jsstr + edit_envelope"
  reg_ops :: "bytes \<Rightarrow> bool \<Rightarrow> jsstr + (jsstr \<times> bytes option) list"

datatype 'js cell = Packed bytes | Plain 'js

type_synonym 'js layer = "(jsstr \<times> 'js cell) list"
type_synonym 'v updates = "(jsstr \<times> 'v option) list"

datatype store_error =
  ConvertError jsstr
  | StoredError jsstr jsstr
  | NameError name_error
  | KeysError keylist_error
  | PatternError pattern_error
  | ForeignWrite lifecycle jsstr jsstr
  | SnapshotHolds jsstr jsstr
  | HoldsNoBytes jsstr
  | EveryKeyValues
  | LimitTooLow
  | WholeSlices jsstr
  | OverlayRefuses

definition layerGet :: "(jsstr \<times> 'v) list \<Rightarrow> 'v updates \<Rightarrow> jsstr \<Rightarrow> 'v option" where
  "layerGet data updates key = (case map_of updates key of Some v \<Rightarrow> v | None \<Rightarrow> map_of data key)"

fun layerWalk :: "(jsstr \<Rightarrow> bool) \<Rightarrow> 'v updates \<Rightarrow> jsstr list \<times> jsstr list \<Rightarrow> jsstr list \<times> jsstr list" where
  "layerWalk keep [] (seen, keys) = (seen, keys)"
| "layerWalk keep ((k, v) # layer) (seen, keys) =
     (if k \<in> set seen then layerWalk keep layer (seen, keys)
      else layerWalk keep layer (k # seen, if v \<noteq> None \<and> keep k then keys @ [k] else keys))"

definition layerKeys :: "'v updates list \<Rightarrow> (jsstr \<Rightarrow> bool) \<Rightarrow> jsstr list" where
  "layerKeys layers keep = sortKeys (snd (fold (layerWalk keep) (rev layers) ([], [])))"

section \<open>A transaction\<close>

record 'js mem_txn =
  mt_values :: "'js layer"
  mt_keys :: blocks
  mt_updates :: "'js cell updates"

record scan_request =
  sr_pattern :: key_pattern
  sr_reverse :: bool
  sr_after :: "jsstr option"
  sr_limit :: nat
  sr_values :: "(jsstr \<times> rep) option"

definition layerIn :: "('js, 'host) registry \<Rightarrow> jsstr \<Rightarrow> ('js, 'host) rval \<Rightarrow> store_error + 'js" where
  "layerIn reg type v =
     (case v of
        JsVal x \<Rightarrow> Inr x
      | _ \<Rightarrow> (case reg_js reg type v of Inl e \<Rightarrow> Inl (ConvertError e) | Inr x \<Rightarrow> Inr x))"

definition layerOut :: "('js, 'host) registry \<Rightarrow> jsstr \<Rightarrow> 'js \<Rightarrow> rep \<Rightarrow> store_error + ('js, 'host) rval" where
  "layerOut reg type js rep =
     (if rep = JS then Inr (JsVal js)
      else (case reg_out reg type js rep of Inl e \<Rightarrow> Inl (ConvertError e) | Inr v \<Rightarrow> Inr v))"

definition RAW_TYPES :: "jsstr list" where
  "RAW_TYPES = [lit ''.edits'', lit ''.page'']"

text \<open>Bytes that do not decode are an error in a dev bundle, and absent in production.\<close>

definition decodeStored ::
  "bool \<Rightarrow> ('js, 'host) registry \<Rightarrow> jsstr \<Rightarrow> jsstr \<Rightarrow> bytes \<Rightarrow> store_error + 'js option" where
  "decodeStored DEV reg key type bs =
     (case reg_js reg type (ByteVal bs) of
        Inr x \<Rightarrow> Inr (Some x)
      | Inl e \<Rightarrow> if \<not> DEV then Inr None else Inl (StoredError key e))"

text \<open>\<open>#out\<close>: a read, which puts the decoded value in place of the bytes.\<close>

definition mtOut ::
  "bool \<Rightarrow> ('js, 'host) registry \<Rightarrow> 'js mem_txn \<Rightarrow> jsstr \<Rightarrow> jsstr \<Rightarrow> rep \<Rightarrow>
   (store_error + ('js, 'host) rval option) \<times> 'js mem_txn"
where
  "mtOut DEV reg t key type rep =
     (case layerGet (mt_values t) (mt_updates t) key of
        None \<Rightarrow> (Inr None, t)
      | Some (Plain js) \<Rightarrow> (map_sum id Some (layerOut reg type js rep), t)
      | Some (Packed bs) \<Rightarrow>
          if rep = MSGPACK then (Inr (Some (ByteVal bs)), t)
          else if type \<in> set RAW_TYPES then (map_sum ConvertError Some (reg_raw reg type bs rep), t)
          else
            (case decodeStored DEV reg key type bs of
               Inl e \<Rightarrow> (Inl e, t)
             | Inr None \<Rightarrow> (Inr None, t)
             | Inr (Some js) \<Rightarrow>
                 (map_sum id Some (layerOut reg type js rep),
                  if key \<in> fst ` set (mt_updates t)
                  then t\<lparr>mt_updates := AList.update key (Some (Plain js)) (mt_updates t)\<rparr>
                  else t\<lparr>mt_values := AList.update key (Plain js) (mt_values t)\<rparr>)))"

definition mtSet ::
  "('js, 'host) registry \<Rightarrow> 'js mem_txn \<Rightarrow> jsstr \<Rightarrow> jsstr \<Rightarrow> ('js, 'host) rval \<Rightarrow> store_error + 'js mem_txn"
where
  "mtSet reg t key type v =
     (case v of
        ByteVal bs \<Rightarrow> Inr (t\<lparr>mt_updates := AList.update key (Some (Packed bs)) (mt_updates t)\<rparr>)
      | _ \<Rightarrow>
          (case layerIn reg type v of
             Inl e \<Rightarrow> Inl e
           | Inr js \<Rightarrow> Inr (t\<lparr>mt_updates := AList.update key (Some (Plain js)) (mt_updates t)\<rparr>)))"

definition mtDel :: "'js mem_txn \<Rightarrow> jsstr \<Rightarrow> 'js mem_txn" where
  "mtDel t key = t\<lparr>mt_updates := AList.update key None (mt_updates t)\<rparr>"

section \<open>The live keys of a transaction\<close>

text \<open>
  \<open>#cursor\<close> answers one of three cursors; what is done with it is done here in each case, the
  operation given for each kind.
\<close>

definition hides :: "'v updates \<Rightarrow> jsstr \<Rightarrow> bool" where
  "hides updates k = (k \<in> fst ` set updates)"

definition pendingKeys :: "'v updates \<Rightarrow> jsstr \<Rightarrow> jsstr list" where
  "pendingKeys updates p = layerKeys [updates] (\<lambda>k. starts_with k p)"

definition mtWalk ::
  "'js mem_txn \<Rightarrow> compiled_pattern \<Rightarrow> bool \<Rightarrow> jsstr option \<Rightarrow> ('s \<Rightarrow> jsstr \<Rightarrow> 's \<times> bool) \<Rightarrow> 's \<Rightarrow> 's option"
where
  "mtWalk t c reverse after visit s =
     (let stored = klCursor (mt_keys t) reverse;
          shown = filterCursor klOps (hides (mt_updates t));
          pending = pendingKeys (mt_updates t) (cp_head c)
      in if mt_updates t = [] then walkPattern klOps c reverse after STEP_BUDGET visit stored s
         else if pending = [] then walkPattern shown c reverse after STEP_BUDGET visit stored s
         else walkPattern (mergeCursors shown arrayCursor reverse) c reverse after STEP_BUDGET visit
           (stored, arrayStart pending reverse) s)"

text \<open>\<open>#keysUnder\<close>: from a seek to the prefix, every key that starts with it.\<close>

definition collectUnder :: "'c cursor_ops \<Rightarrow> jsstr \<Rightarrow> 'c \<Rightarrow> jsstr list" where
  "collectUnder ops p c =
     snd (while (\<lambda>(c, ks). case co_key ops c of None \<Rightarrow> False | Some k \<Rightarrow> starts_with k p)
       (\<lambda>(c, ks). (co_step ops c, ks @ [the (co_key ops c)])) (co_seek ops c (Some p) False, []))"

definition keysUnder :: "'js mem_txn \<Rightarrow> jsstr \<Rightarrow> jsstr list" where
  "keysUnder t p =
     (let stored = klCursor (mt_keys t) False;
          shown = filterCursor klOps (hides (mt_updates t));
          pending = pendingKeys (mt_updates t) p
      in if mt_updates t = [] then collectUnder klOps p stored
         else if pending = [] then collectUnder shown p stored
         else collectUnder (mergeCursors shown arrayCursor False) p (stored, arrayStart pending False))"

definition mtDelPrefix :: "'js mem_txn \<Rightarrow> jsstr \<Rightarrow> jsstr list \<times> 'js mem_txn" where
  "mtDelPrefix t p = (let keys = keysUnder t p in (keys, fold (\<lambda>k t. mtDel t k) keys t))"

section \<open>Scans\<close>

definition pushKey :: "nat \<Rightarrow> jsstr list \<Rightarrow> jsstr \<Rightarrow> jsstr list \<times> bool" where
  "pushKey limit keys k = (keys @ [k], length (keys @ [k]) < limit)"

text \<open>The batch's entries, a value that reads as absent left out.\<close>

fun mtEntries ::
  "bool \<Rightarrow> ('js, 'host) registry \<Rightarrow> (jsstr \<times> rep) option \<Rightarrow> jsstr list \<Rightarrow> 'js mem_txn \<Rightarrow>
   (store_error + (jsstr \<times> ('js, 'host) rval option) list) \<times> 'js mem_txn"
where
  "mtEntries DEV reg v [] t = (Inr [], t)"
| "mtEntries DEV reg None (k # ks) t =
     (let (r, t') = mtEntries DEV reg None ks t in (map_sum id (\<lambda>es. (k, None) # es) r, t'))"
| "mtEntries DEV reg (Some (type, rep)) (k # ks) t =
     (case mtOut DEV reg t k type rep of
        (Inl e, t') \<Rightarrow> (Inl e, t')
      | (Inr value, t') \<Rightarrow>
          (let (r, t'') = mtEntries DEV reg (Some (type, rep)) ks t' in
           (map_sum id (\<lambda>es. if value = None then es else (k, value) # es) r, t'')))"

text \<open>The outer \<open>None\<close> is a walk that never ends.\<close>

definition mtScan ::
  "bool \<Rightarrow> ('js, 'host) registry \<Rightarrow> 'js mem_txn \<Rightarrow> scan_request \<Rightarrow>
   ((store_error + (jsstr \<times> ('js, 'host) rval option) list \<times> jsstr option) \<times> 'js mem_txn) option"
where
  "mtScan DEV reg t req =
     (case compilePattern (sr_pattern req) of
        Inl e \<Rightarrow> Some (Inl (PatternError e), t)
      | Inr c \<Rightarrow>
          if sr_values req \<noteq> None \<and> kp_name (sr_pattern req) = None then Some (Inl EveryKeyValues, t)
          else if \<not> sr_limit req \<ge> 1 then Some (Inl LimitTooLow, t)
          else
            (case mtWalk t c (sr_reverse req) (sr_after req) (pushKey (sr_limit req)) [] of
               None \<Rightarrow> None
             | Some keys \<Rightarrow>
                 let (entries, t') = mtEntries DEV reg (sr_values req) keys t in
                 Some (map_sum id
                   (\<lambda>es. (es, if length keys = sr_limit req then Some (keys ! (length keys - 1)) else None))
                   entries, t')))"

section \<open>Applying edits and snapshots\<close>

record wire_edit = edit_envelope +
  we_raw :: bytes

text \<open>\<open>#write\<close>: the changed keys are a JavaScript \<open>Set\<close>, in insertion order.\<close>

definition add_key :: "jsstr \<Rightarrow> jsstr list \<Rightarrow> jsstr list" where
  "add_key k s = (if k \<in> set s then s else s @ [k])"

definition mtWrite ::
  "'js mem_txn \<Rightarrow> jsstr \<Rightarrow> bytes option \<Rightarrow> jsstr list \<Rightarrow> 'js mem_txn \<times> jsstr list" where
  "mtWrite t key value changed =
     (t\<lparr>mt_updates := AList.update key (map_option Packed value) (mt_updates t)\<rparr>, add_key key changed)"

fun mtOps ::
  "jsstr \<Rightarrow> lifecycle \<Rightarrow> (jsstr \<times> bytes option) list \<Rightarrow> 'js mem_txn \<Rightarrow> jsstr list \<Rightarrow>
   store_error + ('js mem_txn \<times> jsstr list)"
where
  "mtOps sl life [] t changed = Inr (t, changed)"
| "mtOps sl life ((key, value) # ops) t changed =
     (if life = Death then Inl (ForeignWrite life sl key)
      else
        (case sliceOf key of
           Inl e \<Rightarrow> Inl (NameError e)
         | Inr x \<Rightarrow>
             if x \<noteq> sl then Inl (ForeignWrite life sl key)
             else let (t', changed') = mtWrite t key value changed in mtOps sl life ops t' changed'))"

definition mtApplyEdit ::
  "('js, 'host) registry \<Rightarrow> jsstr \<Rightarrow> lifecycle \<Rightarrow> bytes \<Rightarrow> 'js mem_txn \<Rightarrow> jsstr list \<Rightarrow>
   store_error + ('js mem_txn \<times> jsstr list)"
where
  "mtApplyEdit reg sl life bs t changed =
     (let (t', changed') =
        (if life \<noteq> Normal
         then let (keys, t1) = mtDelPrefix t (sl @ [bang]) in (t1, fold add_key keys changed)
         else (t, changed))
      in case reg_ops reg bs True of
           Inl e \<Rightarrow> Inl (ConvertError e)
         | Inr ops \<Rightarrow> mtOps sl life ops t' changed')"

fun mtApplyEdits ::
  "('js, 'host) registry \<Rightarrow> wire_edit list \<Rightarrow> 'js mem_txn \<Rightarrow> jsstr list \<Rightarrow>
   store_error + ('js mem_txn \<times> jsstr list)"
where
  "mtApplyEdits reg [] t changed = Inr (t, changed)"
| "mtApplyEdits reg (e # es) t changed =
     (case mtApplyEdit reg (ee_slice e) (ee_lifecycle e) (we_raw e) t changed of
        Inl err \<Rightarrow> Inl err
      | Inr (t', changed') \<Rightarrow> mtApplyEdits reg es t' changed')"

definition mtBytes :: "'js mem_txn \<Rightarrow> jsstr \<Rightarrow> store_error + bytes" where
  "mtBytes t key =
     (case layerGet (mt_values t) (mt_updates t) key of
        Some (Packed bs) \<Rightarrow> Inr bs
      | _ \<Rightarrow> Inl (HoldsNoBytes key))"

fun mtParkedLoop ::
  "('js, 'host) registry \<Rightarrow> jsstr \<Rightarrow> jsstr \<Rightarrow> jsstr list \<Rightarrow> 'js mem_txn \<Rightarrow> jsstr list \<Rightarrow>
   store_error + ('js mem_txn \<times> jsstr list)"
where
  "mtParkedLoop reg sl lower [] t changed = Inr (t, changed)"
| "mtParkedLoop reg sl lower (key # keys) t changed =
     (if compareKeys key lower < 0 then mtParkedLoop reg sl lower keys t changed
      else
        (case mtBytes t key of
           Inl e \<Rightarrow> Inl e
         | Inr bs \<Rightarrow>
             (case reg_env reg bs of
                Inl e \<Rightarrow> Inl (ConvertError e)
              | Inr env \<Rightarrow>
                  (case mtApplyEdit reg sl (ee_lifecycle env) bs t changed of
                     Inl e \<Rightarrow> Inl e
                   | Inr (t', changed') \<Rightarrow> mtParkedLoop reg sl lower keys t' changed'))))"

definition mtApplyParked ::
  "('js, 'host) registry \<Rightarrow> jsstr \<Rightarrow> nat \<Rightarrow> 'js mem_txn \<Rightarrow> store_error + ('js mem_txn \<times> jsstr list)"
where
  "mtApplyParked reg sl fromSeq t =
     mtParkedLoop reg sl (parkedEditKey sl fromSeq) (keysUnder t (PARK_EDIT @ sl @ [bang])) t []"

fun mtPage ::
  "jsstr \<Rightarrow> jsstr list \<Rightarrow> (jsstr \<times> bytes option) list \<Rightarrow> 'js mem_txn \<Rightarrow> jsstr list \<Rightarrow>
   store_error + ('js mem_txn \<times> jsstr list)"
where
  "mtPage selector skip [] t changed = Inr (t, changed)"
| "mtPage selector skip ((key, value) # ops) t changed =
     (if \<not> starts_with key (selectorPrefix selector) then Inl (SnapshotHolds selector key)
      else
        (case sliceOf key of
           Inl e \<Rightarrow> Inl (NameError e)
         | Inr x \<Rightarrow>
             if x \<in> set skip then mtPage selector skip ops t changed
             else let (t', changed') = mtWrite t key value changed in mtPage selector skip ops t' changed'))"

fun mtPages ::
  "('js, 'host) registry \<Rightarrow> jsstr \<Rightarrow> jsstr list \<Rightarrow> jsstr list \<Rightarrow> 'js mem_txn \<Rightarrow> jsstr list \<Rightarrow>
   store_error + ('js mem_txn \<times> jsstr list)"
where
  "mtPages reg selector skip [] t changed = Inr (t, changed)"
| "mtPages reg selector skip (page # pages) t changed =
     (case mtBytes t page of
        Inl e \<Rightarrow> Inl e
      | Inr bs \<Rightarrow>
          (case reg_ops reg bs False of
             Inl e \<Rightarrow> Inl (ConvertError e)
           | Inr ops \<Rightarrow>
               (case mtPage selector skip ops t changed of
                  Inl e \<Rightarrow> Inl e
                | Inr (t', changed') \<Rightarrow> mtPages reg selector skip pages t' changed')))"

definition mtApplySnapshot ::
  "('js, 'host) registry \<Rightarrow> jsstr \<Rightarrow> jsstr list \<Rightarrow> 'js mem_txn \<Rightarrow> store_error + ('js mem_txn \<times> jsstr list)"
where
  "mtApplySnapshot reg selector skip t =
     mtPages reg selector skip (keysUnder t (PARK_SNAP @ selector @ [bang])) t []"

section \<open>Commit\<close>

record 'js mem_store =
  ms_values :: "'js layer"
  ms_keys :: blocks

fun commitValues ::
  "'js cell updates \<Rightarrow> 'js layer \<Rightarrow> jsstr list \<Rightarrow> jsstr list \<Rightarrow> 'js layer \<times> jsstr list \<times> jsstr list"
where
  "commitValues [] values added removed = (values, added, removed)"
| "commitValues ((key, None) # us) values added removed =
     (if key \<in> fst ` set values then commitValues us (AList.delete key values) added (removed @ [key])
      else commitValues us values added removed)"
| "commitValues ((key, Some v) # us) values added removed =
     commitValues us (AList.update key v values)
       (if key \<notin> fst ` set values then added @ [key] else added) removed"

fun removeAllKeys :: "('l \<Rightarrow> jsstr \<Rightarrow> 'e + 'l) \<Rightarrow> jsstr list \<Rightarrow> 'l \<Rightarrow> 'e + 'l" where
  "removeAllKeys remove [] l = Inr l"
| "removeAllKeys remove (k # ks) l =
     (case remove l k of Inl e \<Rightarrow> Inl e | Inr l' \<Rightarrow> removeAllKeys remove ks l')"

definition msCommit :: "'js mem_store \<Rightarrow> 'js cell updates \<Rightarrow> store_error + 'js mem_store" where
  "msCommit s updates =
     (let (values, added, removed) = commitValues updates (ms_values s) [] [] in
      if 8 * (length added + length removed) > length values
      then Inr \<lparr>ms_values = values, ms_keys = klOf (sortKeys (map fst values))\<rparr>
      else
        (case removeAllKeys klRemove removed (ms_keys s) of
           Inl e \<Rightarrow> Inl (KeysError e)
         | Inr blocks \<Rightarrow> Inr \<lparr>ms_values = values, ms_keys = fold (\<lambda>k bs. klAdd bs k) added blocks\<rparr>))"

definition msTxn :: "'js mem_store \<Rightarrow> 'js mem_txn" where
  "msTxn s = \<lparr>mt_values = ms_values s, mt_keys = ms_keys s, mt_updates = []\<rparr>"

text \<open>
  \<open>#withTxn\<close>: a throw drops the updates, and keeps what reads decoded in place. A read transaction
  is the same with a function that only reads.
\<close>

definition msWith ::
  "('js mem_txn \<Rightarrow> (store_error + 'a) \<times> 'js mem_txn) \<Rightarrow> 'js mem_store \<Rightarrow> (store_error + 'a) \<times> 'js mem_store"
where
  "msWith fn s =
     (let (r, t) = fn (msTxn s); s' = s\<lparr>ms_values := mt_values t\<rparr> in
      case r of
        Inl e \<Rightarrow> (Inl e, s')
      | Inr a \<Rightarrow>
          (case msCommit s' (mt_updates t) of
             Inl e \<Rightarrow> (Inl e, s')
           | Inr s'' \<Rightarrow> (Inr a, s'')))"

end
