(* ===== verification/StoreReads.thy ===== *)
theory StoreReads
  imports Store
begin

text \<open>
  What a transaction of the in-memory store reads: its cursors walk exactly the live keys, the stored
  ones no update shadows and the updates' own, so a scan is the first keys of the walk and a prefix
  lists every live key under it.
\<close>

section \<open>Layers\<close>

lemma layerWalk_keys:
  assumes "distinct keys" "set keys \<subseteq> set seen"
  shows "distinct (snd (layerWalk keep layer (seen, keys))) \<and>
    set (fst (layerWalk keep layer (seen, keys))) = set seen \<union> fst ` set layer \<and>
    set (snd (layerWalk keep layer (seen, keys))) =
      set keys \<union> {k. k \<notin> set seen \<and> keep k \<and> (\<exists>v. map_of layer k = Some (Some v))}"
  using assms
proof (induction keep layer "(seen, keys)" arbitrary: seen keys rule: layerWalk.induct)
  case (2 keep k v layer seen keys)
  show ?case
  proof (cases "k \<in> set seen")
    case True
    then show ?thesis using 2 by auto
  next
    case False
    have d: "distinct (if v \<noteq> None \<and> keep k then keys @ [k] else keys)"
      "set (if v \<noteq> None \<and> keep k then keys @ [k] else keys) \<subseteq> set (k # seen)"
      using 2 False by auto
    note IH = "2.hyps"(2) [OF False d]
    show ?thesis using False IH by (auto split: if_splits)
  qed
qed simp

lemma layerKeys_one:
  "ascending (layerKeys [u] keep)"
  "set (layerKeys [u] keep) = {k. keep k \<and> (\<exists>v. map_of u k = Some (Some v))}"
  using layerWalk_keys [of "[]" "[]" keep u] by (auto simp: layerKeys_def intro: sortKeys_ascending)

lemma layerKeys_two:
  "ascending (layerKeys [d, u] keep)"
  "set (layerKeys [d, u] keep) = {k. keep k \<and>
     (case map_of u k of Some v \<Rightarrow> v \<noteq> None | None \<Rightarrow> \<exists>v. map_of d k = Some (Some v))}"
proof -
  obtain seen keys where s: "layerWalk keep u ([], []) = (seen, keys)" by force
  have one: "distinct keys" "set seen = fst ` set u"
    "set keys = {k. keep k \<and> (\<exists>v. map_of u k = Some (Some v))}"
    using layerWalk_keys [of "[]" "[]" keep u] s by auto
  have "set keys \<subseteq> set seen" using one by (force dest: map_of_SomeD)
  note two = layerWalk_keys [OF one(1) this, of keep d]
  show "ascending (layerKeys [d, u] keep)"
    using two s by (auto simp: layerKeys_def intro: sortKeys_ascending)
  have dom: "k \<in> set seen \<longleftrightarrow> map_of u k \<noteq> None" for k
    using one(2) by (simp add: map_of_eq_None_iff)
  show "set (layerKeys [d, u] keep) = {k. keep k \<and>
     (case map_of u k of Some v \<Rightarrow> v \<noteq> None | None \<Rightarrow> \<exists>v. map_of d k = Some (Some v))}"
    using two s one(3) dom by (auto simp: layerKeys_def split: option.splits)
qed

section \<open>The live keys\<close>

text \<open>A transaction's state: its key list holds the keys of its values.\<close>

definition mem_ok :: "'js mem_txn \<Rightarrow> bool" where
  "mem_ok t = (kl_ok (mt_keys t) \<and> set (concat (mt_keys t)) = fst ` set (mt_values t))"

definition mtLive :: "'js mem_txn \<Rightarrow> jsstr \<Rightarrow> 'js cell option" where
  "mtLive t = layerGet (mt_values t) (mt_updates t)"

text \<open>Every live key, in order.\<close>

definition liveKeys :: "'js mem_txn \<Rightarrow> jsstr list" where
  "liveKeys t = sortKeys (remdups (filter (\<lambda>k. mtLive t k \<noteq> None)
     (map fst (mt_values t) @ map fst (mt_updates t))))"

lemma liveKeys_set: "set (liveKeys t) = {k. mtLive t k \<noteq> None}"
proof -
  have "k \<in> fst ` set (mt_values t) \<union> fst ` set (mt_updates t)" if "mtLive t k \<noteq> None" for k
  proof (rule ccontr)
    assume "\<not> ?thesis"
    then have "map_of (mt_values t) k = None" "map_of (mt_updates t) k = None"
      by (simp_all add: map_of_eq_None_iff)
    then show False using that by (simp add: mtLive_def layerGet_def)
  qed
  then show ?thesis by (auto simp: liveKeys_def)
qed

lemma liveKeys_ascending: "ascending (liveKeys t)"
  by (simp add: liveKeys_def sortKeys_ascending)

lemma pendingKeys: "ascending (pendingKeys u p)"
  "set (pendingKeys u p) = {k. prefix p k \<and> (\<exists>v. map_of u k = Some (Some v))}"
  using layerKeys_one [of u "\<lambda>k. starts_with k p"] by (simp_all add: pendingKeys_def)

text \<open>The keys the cursors of a transaction walk, for keys under \<open>p\<close>.\<close>

definition shownKeys :: "'js mem_txn \<Rightarrow> jsstr list" where
  "shownKeys t = filter (\<lambda>k. \<not> hides (mt_updates t) k) (concat (mt_keys t))"

lemma shownKeys:
  assumes "mem_ok t"
  shows "ascending (shownKeys t)"
    "set (shownKeys t) = {k. map_of (mt_updates t) k = None \<and> mtLive t k \<noteq> None}"
proof -
  show "ascending (shownKeys t)"
    using assms kl_okD(1) by (auto simp: shownKeys_def mem_ok_def intro: sorted_wrt_filter)
  have u: "hides (mt_updates t) k \<longleftrightarrow> map_of (mt_updates t) k \<noteq> None" for k
    by (simp add: hides_def map_of_eq_None_iff)
  have v: "k \<in> set (concat (mt_keys t)) \<longleftrightarrow> map_of (mt_values t) k \<noteq> None" for k
    using assms unfolding mem_ok_def map_of_eq_None_iff by blast
  show "set (shownKeys t) = {k. map_of (mt_updates t) k = None \<and> mtLive t k \<noteq> None}"
    unfolding shownKeys_def set_filter v u by (auto simp: mtLive_def layerGet_def)
qed

lemma ascending_filter_eq:
  "ascending a \<Longrightarrow> ascending b \<Longrightarrow> (\<And>k. P k \<Longrightarrow> k \<in> set a \<longleftrightarrow> k \<in> set b) \<Longrightarrow> filter P a = filter P b"
  by (rule ascending_unique) (auto intro: sorted_wrt_filter)

lemma mergeLists_forward:
  "ascending a \<Longrightarrow> ascending b \<Longrightarrow> set a \<inter> set b = {} \<Longrightarrow> ascending (mergeLists False a b)"
  using sorted_mergeLists [of False a b] by (simp add: walks_def [abs_def])

lemma mergeLists_rev:
  assumes "ascending a" "ascending b" "set a \<inter> set b = {}"
  shows "mergeLists True (rev a) (rev b) = rev (mergeLists False a b)"
proof -
  have r: "sorted_wrt (walks True) (rev ks) \<longleftrightarrow> ascending ks" for ks
    by (simp add: walks_def [abs_def] sorted_wrt_rev)
  have "sorted_wrt (walks True) (mergeLists True (rev a) (rev b))"
    by (rule sorted_mergeLists) (use assms r in simp_all)
  then have "ascending (rev (mergeLists True (rev a) (rev b)))" using r by (metis rev_rev_ident)
  moreover have "ascending (mergeLists False a b)" by (rule mergeLists_forward [OF assms])
  ultimately have "rev (mergeLists True (rev a) (rev b)) = mergeLists False a b"
    by (rule ascending_unique) simp
  then show ?thesis by (metis rev_rev_ident)
qed

lemma merge_every:
  assumes "ascending a" "ascending b" "set a \<inter> set b = {}"
  shows "mergeLists r (walk_every r a) (walk_every r b) = walk_every r (mergeLists False a b)"
  using mergeLists_rev [OF assms] by (simp add: walk_every_def)

section \<open>The three cursors\<close>

text \<open>The stored keys with some hidden, merged with a sorted array.\<close>

interpretation merge_kl: merged_cursors
  "filterCursor klOps h" klValid "klc.shown h" kc_reverse
  "\<lambda>c. filter (\<lambda>k. \<not> h k) (klEvery c)" "\<lambda>c. filter (\<lambda>k. \<not> h k) (klView c)"
  arrayCursor arrayValid arrayPlaced ac_reverse arrayEvery arrayView
  for h :: "jsstr \<Rightarrow> bool"
  by (intro merged_cursors.intro klc.filterCursor_cursor array.key_cursor_axioms)

text \<open>What the three cursors of a transaction walk.\<close>

definition cursorKeys :: "'js mem_txn \<Rightarrow> jsstr \<Rightarrow> jsstr list" where
  "cursorKeys t p =
     (if mt_updates t = [] then concat (mt_keys t)
      else if pendingKeys (mt_updates t) p = [] then shownKeys t
      else mergeLists False (shownKeys t) (pendingKeys (mt_updates t) p))"

lemma shown_pending: "mem_ok t \<Longrightarrow> set (shownKeys t) \<inter> set (pendingKeys (mt_updates t) p) = {}"
  using shownKeys(2) [of t] pendingKeys(2) [of "mt_updates t" p] by auto

lemma cursorKeys_live:
  assumes "mem_ok t"
  shows "ascending (cursorKeys t p)" "prefix p k \<Longrightarrow> k \<in> set (cursorKeys t p) \<longleftrightarrow> k \<in> set (liveKeys t)"
proof -
  have one: "concat (mt_keys t) = shownKeys t" if "mt_updates t = []"
    using that by (simp add: shownKeys_def hides_def)
  show "ascending (cursorKeys t p)"
    using shownKeys(1) [OF assms] one mergeLists_forward [OF shownKeys(1) [OF assms] pendingKeys(1)
      shown_pending [OF assms]]
    by (simp add: cursorKeys_def)
  have live: "k \<in> set (liveKeys t) \<longleftrightarrow> k \<in> set (shownKeys t) \<or> (\<exists>v. map_of (mt_updates t) k = Some (Some v))" for k
    using shownKeys(2) [OF assms] by (auto simp: liveKeys_set mtLive_def layerGet_def split: option.splits)
  show "prefix p k \<Longrightarrow> k \<in> set (cursorKeys t p) \<longleftrightarrow> k \<in> set (liveKeys t)"
    using one live pendingKeys(2) [of "mt_updates t" p]
    by (cases "mt_updates t = []"; cases "pendingKeys (mt_updates t) p = []") (auto simp: cursorKeys_def)
qed

lemma cursorKeys_matches:
  assumes "mem_ok t" "compilePattern p = Inr c" "name_ok p"
  shows "walk_keys c r after (walk_every r (cursorKeys t (cp_head c))) =
    walk_keys c r after (walk_every r (liveKeys t))"
proof -
  have "filter (matchesPattern c) (cursorKeys t (cp_head c)) = filter (matchesPattern c) (liveKeys t)"
  proof (rule ascending_filter_eq [OF cursorKeys_live(1) [OF assms(1)] liveKeys_ascending])
    fix k assume "matchesPattern c k"
    then have "prefix (cp_head c) k"
      using matchesPattern_holds [OF assms(2,3)] by (simp add: holds_def)
    then show "k \<in> set (cursorKeys t (cp_head c)) \<longleftrightarrow> k \<in> set (liveKeys t)"
      by (rule cursorKeys_live(2) [OF assms(1)])
  qed
  then have "filter (matchesPattern c) (walk_every r (cursorKeys t (cp_head c))) =
      filter (matchesPattern c) (walk_every r (liveKeys t))"
    by (simp add: walk_every_def rev_filter [symmetric])
  moreover have "walk_keys c r after (walk_every r ks) =
      seekList r (filter (matchesPattern c) (walk_every r ks)) after True" if "ascending ks" for ks
    unfolding walk_keys_def by (rule seekList_filter [OF walk_every_sorted [OF that]])
  ultimately show ?thesis
    using cursorKeys_live(1) [OF assms(1)] liveKeys_ascending by metis
qed

lemma cursorKeys_subset:
  assumes "mem_ok t"
  shows "set (cursorKeys t p) \<subseteq> set (liveKeys t)"
proof -
  have "set (shownKeys t) \<subseteq> set (liveKeys t)" using shownKeys(2) [OF assms] by (auto simp: liveKeys_set)
  moreover have "set (pendingKeys (mt_updates t) p) \<subseteq> set (liveKeys t)"
    using pendingKeys(2) [of "mt_updates t" p] by (auto simp: liveKeys_set mtLive_def layerGet_def)
  moreover have "set (concat (mt_keys t)) = set (shownKeys t)" if "mt_updates t = []"
    using that by (simp add: shownKeys_def hides_def)
  ultimately show ?thesis by (auto simp: cursorKeys_def)
qed

lemma klCursor_simps [simp]:
  "klValid (klCursor bs r) = kl_ok bs" "kc_reverse (klCursor bs r) = r"
  "klEvery (klCursor bs r) = walk_every r (concat bs)"
  by (simp_all add: klCursor_def klValid_def klEvery_def)

lemma arrayStart_simps [simp]:
  "arrayValid (arrayStart ks r) = ascending ks" "ac_reverse (arrayStart ks r) = r"
  "arrayEvery (arrayStart ks r) = walk_every r ks"
  by (simp_all add: arrayStart_def arrayValid_def arrayEvery_def)

lemma filter_walk_every: "filter P (walk_every r ks) = walk_every r (filter P ks)"
  by (simp add: walk_every_def rev_filter)

lemma set_walk_every [simp]: "set (walk_every r ks) = set ks"
  by (simp add: walk_every_def)

lemma both_start:
  assumes "mem_ok t"
  shows "merge_kl.both_valid (hides (mt_updates t)) r
      (klCursor (mt_keys t) r, arrayStart (pendingKeys (mt_updates t) p) r)"
    "merge_kl.both_every (hides (mt_updates t)) r
      (klCursor (mt_keys t) r, arrayStart (pendingKeys (mt_updates t) p) r) =
      walk_every r (mergeLists False (shownKeys t) (pendingKeys (mt_updates t) p))"
proof -
  have ok: "kl_ok (mt_keys t)" using assms by (simp add: mem_ok_def)
  have f: "filter (\<lambda>k. \<not> hides (mt_updates t) k) (walk_every r (concat (mt_keys t))) =
      walk_every r (shownKeys t)"
    unfolding filter_walk_every by (simp only: shownKeys_def)
  show "merge_kl.both_valid (hides (mt_updates t)) r
      (klCursor (mt_keys t) r, arrayStart (pendingKeys (mt_updates t) p) r)"
    unfolding merge_kl.both_valid_def fst_conv snd_conv klCursor_simps arrayStart_simps f
    using ok shown_pending [OF assms] by (simp add: pendingKeys(1))
  show "merge_kl.both_every (hides (mt_updates t)) r
      (klCursor (mt_keys t) r, arrayStart (pendingKeys (mt_updates t) p) r) =
      walk_every r (mergeLists False (shownKeys t) (pendingKeys (mt_updates t) p))"
    unfolding merge_kl.both_every_def fst_conv snd_conv klCursor_simps arrayStart_simps f
    by (rule merge_every [OF shownKeys(1) [OF assms] pendingKeys(1) shown_pending [OF assms]])
qed

text \<open>The walk of a transaction: it returns, and visits the live keys the pattern picks out.\<close>

lemma mtWalk_visits:
  assumes c: "compilePattern p = Inr c" "name_ok p" "r \<Longrightarrow> bounds_ok (cp_fields c)"
    and t: "mem_ok t" "\<And>k. k \<in> set (liveKeys t) \<Longrightarrow> key_rule c k"
    and after: "\<And>a. after = Some a \<Longrightarrow> prefix (cp_head c) a"
  shows "mtWalk t c r after visit s =
    Some (visitAll visit (walk_keys c r after (walk_every r (liveKeys t))) s)"
proof -
  have ok: "kl_ok (mt_keys t)" using t(1) by (simp add: mem_ok_def)
  have rule: "key_rule c k" if "k \<in> set (walk_every r (cursorKeys t (cp_head c)))" for k
    using that cursorKeys_subset [OF t(1)] t(2) by auto
  have f: "filter (\<lambda>k. \<not> hides (mt_updates t) k) (walk_every r (concat (mt_keys t))) =
      walk_every r (shownKeys t)"
    unfolding filter_walk_every by (simp only: shownKeys_def)
  consider (stored) "mt_updates t = []"
    | (shown) "mt_updates t \<noteq> []" "pendingKeys (mt_updates t) (cp_head c) = []"
    | (both) "mt_updates t \<noteq> []" "pendingKeys (mt_updates t) (cp_head c) \<noteq> []" by blast
  then have "mtWalk t c r after visit s =
    Some (visitAll visit (walk_keys c r after (walk_every r (cursorKeys t (cp_head c)))) s)"
  proof cases
    case stored
    then have k: "cursorKeys t (cp_head c) = concat (mt_keys t)" by (simp add: cursorKeys_def)
    have "walkPattern klOps c r after STEP_BUDGET visit (klCursor (mt_keys t) r) s =
      Some (visitAll visit (walk_keys c r after (walk_every r (concat (mt_keys t)))) s)"
      by (rule klc.walkPattern_visits [OF c(1,2), where cur = "klCursor (mt_keys t) r", unfolded klCursor_simps])
        (use c(3) rule [unfolded k] ok after in auto)
    then show ?thesis unfolding mtWalk_def Let_def k using stored by simp
  next
    case shown
    then have k: "cursorKeys t (cp_head c) = shownKeys t" by (simp add: cursorKeys_def)
    have "walkPattern (filterCursor klOps (hides (mt_updates t))) c r after STEP_BUDGET visit
        (klCursor (mt_keys t) r) s =
      Some (visitAll visit (walk_keys c r after (walk_every r (shownKeys t))) s)"
      by (rule merge_kl.a.walkPattern_visits [OF c(1,2), where cur = "klCursor (mt_keys t) r" and
          h = "hides (mt_updates t)", unfolded klCursor_simps f])
        (use c(3) rule [unfolded k] ok after in auto)
    then show ?thesis unfolding mtWalk_def Let_def k using shown by simp
  next
    case both
    then have k: "cursorKeys t (cp_head c) = mergeLists False (shownKeys t) (pendingKeys (mt_updates t) (cp_head c))"
      by (simp add: cursorKeys_def)
    note start = both_start [OF t(1), of r "cp_head c"]
    have "walkPattern (mergeCursors (filterCursor klOps (hides (mt_updates t))) arrayCursor r) c r after
        STEP_BUDGET visit (klCursor (mt_keys t) r, arrayStart (pendingKeys (mt_updates t) (cp_head c)) r) s =
      Some (visitAll visit (walk_keys c r after (walk_every r (mergeLists False (shownKeys t)
        (pendingKeys (mt_updates t) (cp_head c))))) s)"
      by (rule key_cursor.walkPattern_visits [OF merge_kl.mergeCursors_cursor c(1,2) _ start(1), unfolded start(2)])
        (use c(3) rule [unfolded k] after in auto)
    then show ?thesis unfolding mtWalk_def Let_def k using both by simp
  qed
  then show ?thesis unfolding cursorKeys_matches [OF t(1) c(1,2)] .
qed

section \<open>Keys under a prefix\<close>

lemma takeWhile_prefix:
  assumes "ascending ks"
  shows "takeWhile (prefix p) (dropWhile (beforeTarget False p False) ks) = filter (prefix p) ks"
  using assms
proof (induction ks)
  case (Cons k ks)
  have after: "key_less k x" if "x \<in> set ks" for x using Cons.prems that by simp
  show ?case
  proof (cases "beforeTarget False p False k")
    case True
    then have "key_less k p" by (simp add: beforeTarget_def)
    then have "\<not> prefix p k" using key_le_self [of p] key_not_le by (metis prefix_def)
    then show ?thesis using Cons True by simp
  next
    case False
    then have pk: "key_le p k" by (simp add: beforeTarget_def key_not_less)
    show ?thesis
    proof (cases "prefix p k")
      case True
      have "dropWhile (beforeTarget False p False) ks = ks"
      proof (cases ks)
        case (Cons x xs)
        then have "key_less p x" using after [of x] pk key_le_less_trans by auto
        then show ?thesis using Cons key_less_asym by (auto simp: beforeTarget_def)
      qed simp
      then show ?thesis using Cons False True by simp
    next
      case np: False
      have "\<not> prefix p x" if "x \<in> set ks" for x
        using key_prefix_convex [OF pk key_less_imp_le [OF after [OF that]], of p] np by auto
      then show ?thesis using False np by (simp add: filter_empty_conv)
    qed
  qed
qed simp

context key_cursor
begin

lemma collect_loop:
  "at c r ks v \<Longrightarrow> snd (while (\<lambda>(c, ks). case co_key ops c of None \<Rightarrow> False | Some k \<Rightarrow> starts_with k p)
       (\<lambda>(c, ks). (co_step ops c, ks @ [the (co_key ops c)])) (c, acc)) = acc @ takeWhile (prefix p) v"
proof (induction v arbitrary: c acc)
  case Nil
  then show ?case using at_key [OF Nil] by (subst while_unfold) simp
next
  case (Cons k v)
  have key: "co_key ops c = Some k" using at_key [OF Cons.prems] by simp
  show ?case
    using key Cons.IH [OF at_step [OF Cons.prems], of "acc @ [k]"]
    by (subst while_unfold) simp
qed

lemma collectUnder_keys:
  assumes "valid c" "\<not> backward c"
  shows "collectUnder ops p c = filter (prefix p) (every c)"
proof -
  have "at (co_seek ops c (Some p) False) False (every c) (dropWhile (beforeTarget False p False) (every c))"
    using seek_valid [OF assms(1)] seek_same [OF assms(1)] seek_view [OF assms(1)] assms(2)
    by (simp add: at_def seekList_def)
  from collect_loop [OF this, of p "[]"] show ?thesis
    using takeWhile_prefix every_sorted [OF assms(1)] assms(2)
    by (simp add: collectUnder_def walks_def [abs_def])
qed

end

lemma keysUnder_live:
  assumes "mem_ok t"
  shows "keysUnder t p = filter (prefix p) (liveKeys t)"
proof -
  have ok: "kl_ok (mt_keys t)" using assms by (simp add: mem_ok_def)
  have we: "walk_every False ks = ks" for ks by (simp add: walk_every_def)
  consider (stored) "mt_updates t = []"
    | (shown) "mt_updates t \<noteq> []" "pendingKeys (mt_updates t) p = []"
    | (both) "mt_updates t \<noteq> []" "pendingKeys (mt_updates t) p \<noteq> []" by blast
  then have "keysUnder t p = filter (prefix p) (cursorKeys t p)"
  proof cases
    case stored
    then show ?thesis
      using klc.collectUnder_keys [of "klCursor (mt_keys t) False" p] ok
      by (simp add: keysUnder_def cursorKeys_def we)
  next
    case shown
    have "collectUnder (filterCursor klOps (hides (mt_updates t))) p (klCursor (mt_keys t) False) =
        filter (prefix p) (shownKeys t)"
      using merge_kl.a.collectUnder_keys [where c = "klCursor (mt_keys t) False" and h = "hides (mt_updates t)" and p = p] ok
      by (simp only: klCursor_simps we shownKeys_def) simp
    then show ?thesis using shown by (simp add: keysUnder_def cursorKeys_def Let_def)
  next
    case both
    note start = both_start [OF assms, of False p]
    have "collectUnder (mergeCursors (filterCursor klOps (hides (mt_updates t))) arrayCursor False) p
        (klCursor (mt_keys t) False, arrayStart (pendingKeys (mt_updates t) p) False) =
      filter (prefix p) (mergeLists False (shownKeys t) (pendingKeys (mt_updates t) p))"
      using key_cursor.collectUnder_keys [OF merge_kl.mergeCursors_cursor start(1)]
      unfolding start(2) we by simp
    then show ?thesis using both by (simp add: keysUnder_def cursorKeys_def Let_def)
  qed
  also have "\<dots> = filter (prefix p) (liveKeys t)"
    by (rule ascending_filter_eq [OF cursorKeys_live(1) [OF assms] liveKeys_ascending])
      (rule cursorKeys_live(2) [OF assms])
  finally show ?thesis .
qed

section \<open>A batch of a scan\<close>

lemma visit_push:
  "length s < n \<Longrightarrow> visitAll (pushKey n) ks s = s @ take (n - length s) ks"
proof (induction ks arbitrary: s)
  case (Cons k ks)
  show ?case
  proof (cases "length (s @ [k]) < n")
    case True
    then show ?thesis using Cons.IH [of "s @ [k]"] by (simp add: pushKey_def Suc_diff_Suc take_Cons')
  next
    case False
    then have "n - length s = 1" using Cons.prems by simp
    then show ?thesis using False by (simp add: pushKey_def)
  qed
qed simp

text \<open>The keys of a scan's batch, and where the next one starts.\<close>

definition batchKeys :: "compiled_pattern \<Rightarrow> scan_request \<Rightarrow> 'js mem_txn \<Rightarrow> jsstr list" where
  "batchKeys c req t = take (sr_limit req)
     (walk_keys c (sr_reverse req) (sr_after req) (walk_every (sr_reverse req) (liveKeys t)))"

lemma mtScan_keys_only:
  assumes c: "compilePattern (sr_pattern req) = Inr c" "name_ok (sr_pattern req)"
      "sr_reverse req \<Longrightarrow> bounds_ok (cp_fields c)"
    and t: "mem_ok t" "\<And>k. k \<in> set (liveKeys t) \<Longrightarrow> key_rule c k"
    and req: "1 \<le> sr_limit req" "sr_values req = None"
      "\<And>a. sr_after req = Some a \<Longrightarrow> prefix (cp_head c) a"
  shows "mtScan DEV reg t req = Some (Inr (map (\<lambda>k. (k, None)) (batchKeys c req t),
    if length (batchKeys c req t) = sr_limit req then Some (last (batchKeys c req t)) else None), t)"
proof -
  have walk: "mtWalk t c (sr_reverse req) (sr_after req) (pushKey (sr_limit req)) [] =
      Some (batchKeys c req t)"
  proof -
    have "mtWalk t c (sr_reverse req) (sr_after req) (pushKey (sr_limit req)) [] =
      Some (visitAll (pushKey (sr_limit req)) (walk_keys c (sr_reverse req) (sr_after req)
        (walk_every (sr_reverse req) (liveKeys t))) [])"
      by (rule mtWalk_visits [OF c(1,2) _ t]) (use c(3) req(3) in auto)
    then show ?thesis using visit_push [of "[]" "sr_limit req"] req(1) by (simp add: batchKeys_def)
  qed
  have none: "mtEntries DEV reg None ks t = (Inr (map (\<lambda>k. (k, None)) ks), t)" for ks
    by (induction ks) simp_all
  have "ks ! (length ks - 1) = last ks" if "length ks = sr_limit req" for ks :: "jsstr list"
    using that req(1) last_conv_nth [of ks] by (cases "ks = []") simp_all
  then show ?thesis using c(1) req(1,2) walk none by (simp add: mtScan_def)
qed

end
