(* ===== verification/StoreScan.thy ===== *)
theory StoreScan
  imports StoreReads
begin

text \<open>
  \<open>scanAll\<close> (typespec/ts/assets/skeleton.ts): every entry a scan picks out, batch by batch, over any
  transaction's \<open>scan\<close>, and what it returns over the in-memory transaction: the batches tile the walk,
  so the loop ends and no key is missed or returned twice, whatever the limit.
\<close>

text \<open>The outer \<open>None\<close> is a batch or a loop that never ends.\<close>

partial_function (option) scanAllLoop ::
  "('t \<Rightarrow> jsstr option \<Rightarrow> ((store_error + 'e list \<times> jsstr option) \<times> 't) option) \<Rightarrow>
   't \<Rightarrow> jsstr option \<Rightarrow> 'e list \<Rightarrow> ((store_error + 'e list) \<times> 't) option"
where
  "scanAllLoop scan t after all =
     (case scan t after of
        None \<Rightarrow> None
      | Some (Inl e, t') \<Rightarrow> Some (Inl e, t')
      | Some (Inr (entries, next'), t') \<Rightarrow>
          (case next' of
             None \<Rightarrow> Some (Inr (all @ entries), t')
           | Some k \<Rightarrow> scanAllLoop scan t' (Some k) (all @ entries)))"

definition mtScanAll ::
  "bool \<Rightarrow> ('js, 'host) registry \<Rightarrow> 'js mem_txn \<Rightarrow> scan_request \<Rightarrow>
   ((store_error + (jsstr \<times> ('js, 'host) rval option) list) \<times> 'js mem_txn) option" where
  "mtScanAll DEV reg t req =
     scanAllLoop (\<lambda>t after. mtScan DEV reg t (req\<lparr>sr_after := after\<rparr>)) t (sr_after req) []"

section \<open>The batches tile the walk\<close>

lemma beforeTarget_strict: "beforeTarget r a True k \<longleftrightarrow> \<not> walks r a k"
  by (auto simp: beforeTarget_def walks_def key_not_less key_le_iff dest: key_less_asym)

lemma sorted_drop_filter:
  assumes "sorted_wrt R xs" "i < length xs" "\<And>x. \<not> R x x" "\<And>x y. R x y \<Longrightarrow> \<not> R y x"
  shows "drop (Suc i) xs = filter (R (xs ! i)) xs"
proof -
  have xs: "xs = take i xs @ xs ! i # drop (Suc i) xs"
    using assms(2) by (rule id_take_nth_drop)
  have s: "sorted_wrt R (take i xs @ xs ! i # drop (Suc i) xs)"
    using assms(1) xs by simp
  then have "\<forall>x \<in> set (take i xs). \<not> R (xs ! i) x" "\<forall>x \<in> set (drop (Suc i) xs). R (xs ! i) x"
    using assms(4) by (auto simp: sorted_wrt_append)
  then have "filter (R (xs ! i)) (take i xs @ xs ! i # drop (Suc i) xs) = drop (Suc i) xs"
    using assms(3) by (simp add: filter_none)
  then show ?thesis using xs by simp
qed

lemma walks_facts: "\<not> walks r x x" "walks r x y \<Longrightarrow> \<not> walks r y x"
  by (auto simp: walks_def dest: key_less_asym)

lemma seekList_after:
  assumes "sorted_wrt (walks r) ks"
  shows "seekList r ks (Some a) True = filter (walks r a) ks"
proof -
  have "dropWhile (beforeTarget r a True) ks = filter (\<lambda>k. \<not> beforeTarget r a True k) ks"
    by (rule dropWhile_sorted [OF assms]) (rule beforeTarget_down)
  then show ?thesis by (simp add: seekList_def beforeTarget_strict)
qed

lemma walk_keys_from:
  assumes s: "sorted_wrt (walks r) ks" and w: "w = walk_keys c r after ks" and i: "i < length w"
  shows "walk_keys c r (Some (w ! i)) ks = drop (Suc i) w"
proof -
  define P where "P = (\<lambda>k. case after of None \<Rightarrow> True | Some b \<Rightarrow> walks r b k)"
  have w': "w = filter (\<lambda>k. P k \<and> matchesPattern c k) ks"
  proof (cases after)
    case None
    then show ?thesis by (simp add: w walk_keys_def P_def seekList_def)
  next
    case (Some a)
    then show ?thesis using s by (simp add: w walk_keys_def P_def seekList_after conj_commute)
  qed
  have in_w: "P (w ! i)" using nth_mem [OF i] by (auto simp: w')
  have sw: "sorted_wrt (walks r) w" using s by (simp add: w' sorted_wrt_filter)
  have "drop (Suc i) w = filter (walks r (w ! i)) w"
    by (rule sorted_drop_filter [OF sw i]) (simp_all add: walks_facts)
  also have "\<dots> = filter (walks r (w ! i)) (filter (\<lambda>k. P k \<and> matchesPattern c k) ks)"
    by (subst (2) w') (rule refl)
  also have "\<dots> = filter (\<lambda>k. walks r (w ! i) k \<and> matchesPattern c k) ks"
  proof -
    have "P k" if "walks r (w ! i) k" for k
      using in_w that walks_trans unfolding P_def by (cases after) auto
    then show ?thesis unfolding filter_filter by (intro filter_cong) auto
  qed
  finally show ?thesis
    using s by (simp add: walk_keys_def seekList_after conj_commute)
qed

lemma walk_keys_head:
  assumes "compilePattern p = Inr c" "name_ok p" "k \<in> set (walk_keys c r after ks)"
  shows "prefix (cp_head c) k"
  using assms matchesPattern_holds [OF assms(1,2)] by (auto simp: walk_keys_def holds_def)

text \<open>The whole walk of a request.\<close>

definition scanKeys :: "compiled_pattern \<Rightarrow> scan_request \<Rightarrow> 'js mem_txn \<Rightarrow> jsstr list" where
  "scanKeys c req t = walk_keys c (sr_reverse req) (sr_after req) (walk_every (sr_reverse req) (liveKeys t))"

lemma batchKeys_scan: "batchKeys c req t = take (sr_limit req) (scanKeys c req t)"
  by (simp add: batchKeys_def scanKeys_def)

lemma scanKeys_next:
  assumes "0 < sr_limit req" "sr_limit req \<le> length (scanKeys c req t)"
  shows "scanKeys c (req\<lparr>sr_after := Some (last (batchKeys c req t))\<rparr>) t = drop (sr_limit req) (scanKeys c req t)"
proof -
  let ?n = "sr_limit req - 1"
  have i: "?n < length (scanKeys c req t)" using assms by simp
  have "last (batchKeys c req t) = scanKeys c req t ! ?n"
    using assms by (subst last_conv_nth) (auto simp: batchKeys_scan)
  then show ?thesis
    using walk_keys_from [OF walk_every_sorted [OF liveKeys_ascending] scanKeys_def i [unfolded scanKeys_def, folded scanKeys_def]]
      assms(1)
    by (simp add: scanKeys_def)
qed

lemma scanAllLoop_keys:
  assumes c: "compilePattern (sr_pattern req) = Inr c" "name_ok (sr_pattern req)"
      "sr_reverse req \<Longrightarrow> bounds_ok (cp_fields c)"
    and t: "mem_ok t" "\<And>k. k \<in> set (liveKeys t) \<Longrightarrow> key_rule c k"
    and req: "1 \<le> sr_limit req" "sr_values req = None"
  shows "(\<And>a. after = Some a \<Longrightarrow> prefix (cp_head c) a) \<Longrightarrow>
    scanAllLoop (\<lambda>t after. mtScan DEV reg t (req\<lparr>sr_after := after\<rparr>)) t after all =
      Some (Inr (all @ map (\<lambda>k. (k, None)) (scanKeys c (req\<lparr>sr_after := after\<rparr>) t)), t)"
proof (induction "length (scanKeys c (req\<lparr>sr_after := after\<rparr>) t)" arbitrary: after all rule: less_induct)
  case less
  let ?req = "req\<lparr>sr_after := after\<rparr>"
  let ?ks = "scanKeys c ?req t"
  have scan: "mtScan DEV reg t ?req = Some (Inr (map (\<lambda>k. (k, None)) (batchKeys c ?req t),
      if length (batchKeys c ?req t) = sr_limit ?req then Some (last (batchKeys c ?req t)) else None), t)"
    by (rule mtScan_keys_only) (use c t req less.prems in auto)
  show ?case
  proof (cases "sr_limit req \<le> length ?ks")
    case False
    then have b: "batchKeys c ?req t = ?ks" "length (batchKeys c ?req t) \<noteq> sr_limit ?req"
      by (simp_all add: batchKeys_scan)
    show ?thesis
      using scan b by (subst scanAllLoop.simps) simp
  next
    case True
    define k where "k = last (batchKeys c ?req t)"
    have len: "length (batchKeys c ?req t) = sr_limit ?req" using True by (simp add: batchKeys_scan)
    have next': "scanKeys c (req\<lparr>sr_after := Some k\<rparr>) t = drop (sr_limit req) ?ks"
      using scanKeys_next [of ?req c t] True req(1) by (simp add: k_def)
    have "k \<in> set (batchKeys c ?req t)" unfolding k_def
      by (rule last_in_set) (use len req(1) in auto)
    then have "k \<in> set ?ks" by (auto simp: batchKeys_scan dest: in_set_takeD)
    then have head: "prefix (cp_head c) k"
      using walk_keys_head [OF c(1,2)] by (auto simp: scanKeys_def)
    have "scanAllLoop (\<lambda>t after. mtScan DEV reg t (req\<lparr>sr_after := after\<rparr>)) t (Some k)
        (all @ map (\<lambda>k. (k, None)) (batchKeys c ?req t)) =
      Some (Inr ((all @ map (\<lambda>k. (k, None)) (batchKeys c ?req t)) @
        map (\<lambda>k. (k, None)) (scanKeys c (req\<lparr>sr_after := Some k\<rparr>) t)), t)"
      by (rule less.hyps) (use next' True req(1) head in auto)
    moreover have "map (\<lambda>k. (k, None)) (batchKeys c ?req t) @
        map (\<lambda>k. (k, None)) (scanKeys c (req\<lparr>sr_after := Some k\<rparr>) t) = map (\<lambda>k. (k, None)) ?ks"
      unfolding next' batchKeys_scan by (simp flip: map_append)
    ultimately show ?thesis
      using scan len unfolding append_assoc by (subst scanAllLoop.simps) (simp add: k_def [symmetric])
  qed
qed

lemma mtScanAll_keys_only:
  assumes "compilePattern (sr_pattern req) = Inr c" "name_ok (sr_pattern req)"
      "sr_reverse req \<Longrightarrow> bounds_ok (cp_fields c)"
    and "mem_ok t" "\<And>k. k \<in> set (liveKeys t) \<Longrightarrow> key_rule c k"
    and "1 \<le> sr_limit req" "sr_values req = None"
      "\<And>a. sr_after req = Some a \<Longrightarrow> prefix (cp_head c) a"
  shows "mtScanAll DEV reg t req = Some (Inr (map (\<lambda>k. (k, None)) (scanKeys c req t)), t)"
  unfolding mtScanAll_def
  using scanAllLoop_keys [OF assms(1-7), where after = "sr_after req" and all = "[]" and DEV = DEV and reg = reg] assms(8)
  by simp


section \<open>Scans of values\<close>

text \<open>A read decodes in place, which changes no live key.\<close>

lemma liveKeys_same: "(\<And>k. mtLive t' k = None \<longleftrightarrow> mtLive t k = None) \<Longrightarrow> liveKeys t' = liveKeys t"
  by (rule ascending_unique [OF liveKeys_ascending liveKeys_ascending]) (simp add: liveKeys_set)

lemma keys_update_same: "k \<in> fst ` set al \<Longrightarrow> fst ` set (AList.update k v al) = fst ` set al"
  by (auto simp: dom_update)

lemma mtOut_same:
  assumes "mtOut DEV reg t k type rep = (r, t')"
  shows "mem_ok t' = mem_ok t \<and> liveKeys t' = liveKeys t"
proof -
  have step: "t' = t \<or> (mtLive t k \<noteq> None \<and> (\<exists>v. t' = (if k \<in> fst ` set (mt_updates t)
      then t\<lparr>mt_updates := AList.update k (Some (Plain v)) (mt_updates t)\<rparr>
      else t\<lparr>mt_values := AList.update k (Plain v) (mt_values t)\<rparr>)))"
  proof (cases "layerGet (mt_values t) (mt_updates t) k")
    case (Some v)
    show ?thesis
    proof (cases v)
      case (Packed bs)
      show ?thesis
      proof (cases "decodeStored DEV reg k type bs")
        case (Inr o')
        then show ?thesis
          using assms unfolding mtOut_def Some Packed option.case cell.case Inr sum.case mtLive_def
          by (cases o') (auto split: if_splits)
      qed (use assms in \<open>simp add: mtOut_def Some Packed split: if_splits\<close>)
    qed (use assms in \<open>simp add: mtOut_def Some\<close>)
  qed (use assms in \<open>simp add: mtOut_def\<close>)
  then have live: "mtLive t k \<noteq> None" if "t' \<noteq> t" using that by blast
  consider (same) "t' = t"
    | (written) v where "k \<in> fst ` set (mt_updates t)" "t' = t\<lparr>mt_updates := AList.update k (Some (Plain v)) (mt_updates t)\<rparr>"
    | (decoded) v where "k \<notin> fst ` set (mt_updates t)" "t' = t\<lparr>mt_values := AList.update k (Plain v) (mt_values t)\<rparr>"
    using step by (cases "k \<in> fst ` set (mt_updates t)") auto
  then show ?thesis
  proof cases
    case (written v)
    then have "mtLive t' j = None \<longleftrightarrow> mtLive t j = None" for j
      using live by (cases "t' = t") (auto simp: mtLive_def layerGet_def update_conv')
    then have "liveKeys t' = liveKeys t" by (rule liveKeys_same)
    then show ?thesis by (simp add: written mem_ok_def)
  next
    case (decoded v)
    then have none: "map_of (mt_updates t) k = None" by (simp add: map_of_eq_None_iff)
    show ?thesis
    proof (cases "t' = t")
      case False
      then have in_values: "map_of (mt_values t) k \<noteq> None"
        using live none by (simp add: mtLive_def layerGet_def)
      then have "k \<in> fst ` set (mt_values t)" by (simp add: map_of_eq_None_iff)
      moreover have "mtLive t' j = None \<longleftrightarrow> mtLive t j = None" for j
        using in_values none decoded by (auto simp: mtLive_def layerGet_def update_conv' split: option.splits)
      ultimately have "liveKeys t' = liveKeys t \<and> fst ` set (mt_values t') = fst ` set (mt_values t)"
        using liveKeys_same [of t' t] by (simp add: decoded keys_update_same)
      then show ?thesis by (simp add: decoded mem_ok_def)
    qed simp
  qed simp
qed

lemma mtEntries_same:
  "mtEntries DEV reg v ks t = (r, t') \<Longrightarrow> mem_ok t' = mem_ok t \<and> liveKeys t' = liveKeys t \<and>
    (\<forall>es. r = Inr es \<longrightarrow> set (map fst es) \<subseteq> set ks)"
proof (induction DEV reg v ks t arbitrary: r t' rule: mtEntries.induct)
  case (3 DEV reg type rep k ks t)
  obtain r1 t1 where o1: "mtOut DEV reg t k type rep = (r1, t1)" by fastforce
  show ?case
  proof (cases r1)
    case (Inr x)
    obtain r2 t2 where e2: "mtEntries DEV reg (Some (type, rep)) ks t1 = (r2, t2)" by fastforce
    have "r = map_sum id (\<lambda>es. if x = None then es else (k, x) # es) r2" "t' = t2"
      using "3.prems" o1 e2 by (auto simp: Inr)
    then show ?thesis
      using "3.IH" [OF o1 [symmetric] Inr e2] mtOut_same [OF o1] by (cases r2) auto
  qed (use "3.prems" o1 mtOut_same [OF o1] in auto)
next
  case (2 DEV reg k ks t)
  obtain r2 t2 where e2: "mtEntries DEV reg None ks t = (r2, t2)" by fastforce
  show ?case using "2.IH" [OF e2] "2.prems" e2 by (cases r2) (auto 4 3 simp: subset_iff image_iff)
qed simp

lemma mtScan_any:
  assumes c: "compilePattern (sr_pattern req) = Inr c" "name_ok (sr_pattern req)"
      "sr_reverse req \<Longrightarrow> bounds_ok (cp_fields c)"
    and t: "mem_ok t" "\<And>k. k \<in> set (liveKeys t) \<Longrightarrow> key_rule c k"
    and req: "1 \<le> sr_limit req" "\<And>a. sr_after req = Some a \<Longrightarrow> prefix (cp_head c) a"
      "kp_name (sr_pattern req) \<noteq> None"
  obtains r t' where "mtScan DEV reg t req = Some (map_sum id (\<lambda>es. (es,
        if length (batchKeys c req t) = sr_limit req then Some (last (batchKeys c req t)) else None)) r, t')"
    "mem_ok t'" "liveKeys t' = liveKeys t" "\<And>es. r = Inr es \<Longrightarrow> set (map fst es) \<subseteq> set (batchKeys c req t)"
proof -
  have walk: "mtWalk t c (sr_reverse req) (sr_after req) (pushKey (sr_limit req)) [] = Some (batchKeys c req t)"
  proof -
    have "mtWalk t c (sr_reverse req) (sr_after req) (pushKey (sr_limit req)) [] =
      Some (visitAll (pushKey (sr_limit req)) (walk_keys c (sr_reverse req) (sr_after req)
        (walk_every (sr_reverse req) (liveKeys t))) [])"
      by (rule mtWalk_visits [OF c(1,2) _ t]) (use c(3) req(2) in auto)
    then show ?thesis using visit_push [of "[]" "sr_limit req"] req(1) by (simp add: batchKeys_def)
  qed
  obtain r t' where e: "mtEntries DEV reg (sr_values req) (batchKeys c req t) t = (r, t')" by fastforce
  have last: "ks ! (length ks - 1) = last ks" if "length ks = sr_limit req" for ks :: "jsstr list"
    using that req(1) last_conv_nth [of ks] by (cases "ks = []") simp_all
  have "mtScan DEV reg t req = Some (map_sum id (\<lambda>es. (es,
      if length (batchKeys c req t) = sr_limit req then Some (last (batchKeys c req t)) else None)) r, t')"
    using c(1) req(1) walk e last [of "batchKeys c req t"] not_None_eq [THEN iffD1, OF req(3)]
    by (auto simp: mtScan_def)
  then show ?thesis using that mtEntries_same [OF e] t(1) by simp
qed

text \<open>A scan of a template's values also ends, and returns no key outside the walk.\<close>

lemma scanAllLoop_ends:
  assumes c: "compilePattern (sr_pattern req) = Inr c" "name_ok (sr_pattern req)"
      "sr_reverse req \<Longrightarrow> bounds_ok (cp_fields c)"
    and req: "1 \<le> sr_limit req" "kp_name (sr_pattern req) \<noteq> None"
  shows "mem_ok t \<Longrightarrow> (\<And>k. k \<in> set (liveKeys t) \<Longrightarrow> key_rule c k) \<Longrightarrow>
    (\<And>a. after = Some a \<Longrightarrow> prefix (cp_head c) a) \<Longrightarrow>
    \<exists>r t'. scanAllLoop (\<lambda>t after. mtScan DEV reg t (req\<lparr>sr_after := after\<rparr>)) t after all = Some (r, t') \<and>
      mem_ok t' \<and> liveKeys t' = liveKeys t \<and>
      (\<forall>es. r = Inr es \<longrightarrow> set (map fst es) \<subseteq> set (map fst all) \<union> set (scanKeys c (req\<lparr>sr_after := after\<rparr>) t))"
proof (induction "length (scanKeys c (req\<lparr>sr_after := after\<rparr>) t)" arbitrary: after all t rule: less_induct)
  case less
  let ?req = "req\<lparr>sr_after := after\<rparr>"
  let ?ks = "scanKeys c ?req t"
  obtain r t1 where scan: "mtScan DEV reg t ?req = Some (map_sum id (\<lambda>es. (es,
        if length (batchKeys c ?req t) = sr_limit ?req then Some (last (batchKeys c ?req t)) else None)) r, t1)"
    and t1: "mem_ok t1" "liveKeys t1 = liveKeys t"
    and es: "\<And>es. r = Inr es \<Longrightarrow> set (map fst es) \<subseteq> set (batchKeys c ?req t)"
    by (rule mtScan_any [of ?req c t DEV reg]) (use c req less.prems in auto)
  have sub: "set (batchKeys c ?req t) \<subseteq> set ?ks" by (simp add: batchKeys_scan set_take_subset)
  show ?case
  proof (cases r)
    case (Inl e)
    then show ?thesis using scan t1 by (subst scanAllLoop.simps) simp
  next
    case (Inr entries)
    show ?thesis
    proof (cases "sr_limit req \<le> length ?ks")
      case False
      then have "length (batchKeys c ?req t) \<noteq> sr_limit ?req" by (simp add: batchKeys_scan)
      then show ?thesis using scan t1 es [OF Inr] sub by (subst scanAllLoop.simps) (auto simp: Inr)
    next
      case True
      define k where "k = last (batchKeys c ?req t)"
      have len: "length (batchKeys c ?req t) = sr_limit ?req" using True by (simp add: batchKeys_scan)
      have rest: "scanKeys c (req\<lparr>sr_after := Some k\<rparr>) t1 = drop (sr_limit req) ?ks"
        using scanKeys_next [of ?req c t] True req(1) by (simp add: k_def scanKeys_def t1(2))
      have "k \<in> set (batchKeys c ?req t)" unfolding k_def
        by (rule last_in_set) (use len req(1) in auto)
      then have head: "prefix (cp_head c) k"
        using sub walk_keys_head [OF c(1,2)] unfolding scanKeys_def by blast
      have shorter: "length ?ks - sr_limit req < length ?ks" using True req(1) by linarith
      obtain r' t' where rec: "scanAllLoop (\<lambda>t after. mtScan DEV reg t (req\<lparr>sr_after := after\<rparr>)) t1 (Some k)
            (all @ entries) = Some (r', t')"
        and ok: "mem_ok t'" "liveKeys t' = liveKeys t1"
        and es': "\<And>es. r' = Inr es \<Longrightarrow> set (map fst es) \<subseteq> set (map fst (all @ entries)) \<union>
            set (scanKeys c (req\<lparr>sr_after := Some k\<rparr>) t1)"
        using less.hyps [of "Some k" t1 "all @ entries"] rest shorter head t1 less.prems(2) by auto
      have "set (map fst es) \<subseteq> set (map fst all) \<union> set ?ks" if "r' = Inr es" for es
        using es' [OF that] es [OF Inr] sub set_drop_subset [of "sr_limit req" ?ks]
        unfolding rest map_append set_append by blast
      then show ?thesis
        using scan len rec ok t1 by (subst scanAllLoop.simps) (simp add: Inr k_def [symmetric])
    qed
  qed
qed

end
