(* ===== verification/StoreWrites.thy ===== *)
theory StoreWrites
  imports StoreReads
begin

text \<open>
  What a transaction of the in-memory store writes, against the map of its live keys: single writes,
  deletion of a prefix, the application of edits, and the commit, which makes the live keys the
  store's own and keeps its key list exact.
\<close>

section \<open>Single writes\<close>

lemma map_of_update [simp]: "map_of (AList.update k v al) = (map_of al)(k \<mapsto> v)"
  by (rule update_conv')

lemma layerGet_update:
  "layerGet data (AList.update k v u) = (layerGet data u)(k := v)"
  by (rule ext) (simp add: layerGet_def)

lemma mtLive_write [simp]:
  "mtLive (t\<lparr>mt_updates := AList.update k v (mt_updates t)\<rparr>) = (mtLive t)(k := v)"
  by (simp add: mtLive_def layerGet_update)

lemma mem_ok_updates [simp]: "mem_ok (t\<lparr>mt_updates := u\<rparr>) = mem_ok t"
  by (simp add: mem_ok_def)

lemma mtDel_live: "mtLive (mtDel t k) = (mtLive t)(k := None)"
  by (simp add: mtDel_def)

lemma mtDel_ok [simp]: "mem_ok (mtDel t k) = mem_ok t"
  by (simp add: mtDel_def)

lemma dels_live: "mtLive (fold (\<lambda>k t. mtDel t k) ks t) k = (if k \<in> set ks then None else mtLive t k)"
  by (induction ks arbitrary: t) (simp_all add: mtDel_live)

lemma dels_ok [simp]: "mem_ok (fold (\<lambda>k t. mtDel t k) ks t) = mem_ok t"
  by (induction ks arbitrary: t) simp_all

text \<open>Deleting a prefix: every key under it goes, no other, and the answer is those that lived.\<close>

lemma mtDelPrefix_live:
  assumes "mem_ok t" "mtDelPrefix t p = (keys, t')"
  shows "mtLive t' = (\<lambda>k. if prefix p k then None else mtLive t k)"
    "set keys = {k. prefix p k \<and> mtLive t k \<noteq> None}" "ascending keys" "mem_ok t'"
    "mt_values t' = mt_values t" "mt_keys t' = mt_keys t"
proof -
  have k: "keys = filter (prefix p) (liveKeys t)" and t': "t' = fold (\<lambda>k t. mtDel t k) keys t"
    using assms keysUnder_live [OF assms(1)] by (auto simp: mtDelPrefix_def Let_def)
  show s: "set keys = {k. prefix p k \<and> mtLive t k \<noteq> None}"
    unfolding k by (auto simp: liveKeys_set)
  show "mtLive t' = (\<lambda>k. if prefix p k then None else mtLive t k)"
    unfolding t' using s by (auto simp: dels_live fun_eq_iff)
  show "ascending keys" unfolding k by (rule sorted_wrt_filter [OF liveKeys_ascending])
  show "mem_ok t'" unfolding t' using assms(1) by simp
  have same: "mt_values (fold (\<lambda>k t. mtDel t k) ks t) = mt_values t \<and>
      mt_keys (fold (\<lambda>k t. mtDel t k) ks t) = mt_keys t" for ks
    by (induction ks arbitrary: t) (simp_all add: mtDel_def)
  then show "mt_values t' = mt_values t" "mt_keys t' = mt_keys t" unfolding t' by simp_all
qed

section \<open>Edits\<close>

text \<open>What an edit does to the map of live keys: a reset clears the slice, then its operations apply.\<close>

fun opsMap :: "(jsstr \<times> bytes option) list \<Rightarrow> (jsstr \<Rightarrow> 'js cell option) \<Rightarrow> jsstr \<Rightarrow> 'js cell option" where
  "opsMap [] m = m"
| "opsMap ((k, v) # ops) m = opsMap ops (m(k := map_option Packed v))"

definition clearSlice :: "jsstr \<Rightarrow> (jsstr \<Rightarrow> 'js cell option) \<Rightarrow> jsstr \<Rightarrow> 'js cell option" where
  "clearSlice sl m = (\<lambda>k. if prefix (sl @ [bang]) k then None else m k)"

definition editMap ::
  "jsstr \<Rightarrow> lifecycle \<Rightarrow> (jsstr \<times> bytes option) list \<Rightarrow> (jsstr \<Rightarrow> 'js cell option) \<Rightarrow> jsstr \<Rightarrow> 'js cell option"
where
  "editMap sl life ops m = opsMap ops (if life = Normal then m else clearSlice sl m)"

lemma add_key_set [simp]: "set (add_key k s) = insert k (set s)"
  by (auto simp: add_key_def)

lemma add_keys_set [simp]: "set (fold add_key ks s) = set ks \<union> set s"
  by (induction ks arbitrary: s) auto

lemma mtWrite_live:
  assumes "mtWrite t k v changed = (t', changed')"
  shows "mtLive t' = (mtLive t)(k := map_option Packed v)" "mem_ok t' = mem_ok t"
    "changed' = add_key k changed"
  using assms by (auto simp: mtWrite_def)

lemma mtOps_live:
  assumes "mtOps sl life ops t changed = Inr (t', changed')"
  shows "mtLive t' = opsMap ops (mtLive t)" "mem_ok t' = mem_ok t"
    "set changed' = set changed \<union> fst ` set ops"
    "\<forall>k \<in> fst ` set ops. sliceOf k = Inr sl" "life = Death \<longrightarrow> ops = []"
proof -
  have "mtLive t' = opsMap ops (mtLive t) \<and> mem_ok t' = mem_ok t \<and>
    set changed' = set changed \<union> fst ` set ops \<and> (\<forall>k \<in> fst ` set ops. sliceOf k = Inr sl) \<and>
    (life = Death \<longrightarrow> ops = [])"
    using assms
  proof (induction sl life ops t changed rule: mtOps.induct)
    case (2 sl life key v ops t changed)
    obtain t1 c1 where w: "mtWrite t key v changed = (t1, c1)" by force
    from "2.prems" w have s: "life \<noteq> Death" "sliceOf key = Inr sl" "mtOps sl life ops t1 c1 = Inr (t', changed')"
      by (auto split: if_splits sum.splits)
    then show ?case
      using "2.IH" [OF s(1,2)] w mtWrite_live [OF w] by (auto simp: fun_upd_def)
  qed simp
  then show "mtLive t' = opsMap ops (mtLive t)" "mem_ok t' = mem_ok t"
    "set changed' = set changed \<union> fst ` set ops"
    "\<forall>k \<in> fst ` set ops. sliceOf k = Inr sl" "life = Death \<longrightarrow> ops = []" by auto
qed

text \<open>
  An edit that applies leaves the map its meaning gives, changes no key outside its slice, and reports
  every key whose value it changed.
\<close>

lemma opsMap_other: "k \<notin> fst ` set ops \<Longrightarrow> opsMap ops m k = m k"
  by (induction ops arbitrary: m) auto

lemma slice_prefix: "sliceOf k = Inr sl \<Longrightarrow> prefix (sl @ [bang]) k"
  by (erule sliceOf_split) simp

lemma mtApplyEdit_live:
  assumes ok: "mem_ok t" and e: "mtApplyEdit reg sl life bs t changed = Inr (t', changed')"
    and ops: "reg_ops reg bs True = Inr ops"
  shows "mtLive t' = editMap sl life ops (mtLive t)" "mem_ok t'"
    "\<forall>k. \<not> prefix (sl @ [bang]) k \<longrightarrow> mtLive t' k = mtLive t k"
    "\<forall>k. mtLive t' k \<noteq> mtLive t k \<longrightarrow> k \<in> set changed'"
    "life = Death \<longrightarrow> (\<forall>k. prefix (sl @ [bang]) k \<longrightarrow> mtLive t' k = None)"
proof -
  obtain keys t1 where d: "mtDelPrefix t (sl @ [bang]) = (keys, t1)" by force
  note d' = mtDelPrefix_live [OF ok d]
  define t2 where "t2 = (if life \<noteq> Normal then t1 else t)"
  define c2 where "c2 = (if life \<noteq> Normal then fold add_key keys changed else changed)"
  have run: "mtOps sl life ops t2 c2 = Inr (t', changed')"
    using e ops d by (auto simp: mtApplyEdit_def t2_def c2_def split: if_splits)
  note r = mtOps_live [OF run]
  have live2: "mtLive t2 = (if life = Normal then mtLive t else clearSlice sl (mtLive t))"
    using d'(1) by (simp add: t2_def clearSlice_def)
  show m: "mtLive t' = editMap sl life ops (mtLive t)"
    unfolding r(1) live2 editMap_def by simp
  show "mem_ok t'" using r(2) d'(4) ok by (simp add: t2_def)
  have out: "opsMap ops m k = m k" if "\<not> prefix (sl @ [bang]) k" for m :: "jsstr \<Rightarrow> 'a cell option" and k
    using opsMap_other [of k ops m] r(4) slice_prefix that by blast
  then show "\<forall>k. \<not> prefix (sl @ [bang]) k \<longrightarrow> mtLive t' k = mtLive t k"
    by (simp add: m editMap_def clearSlice_def)
  show "\<forall>k. mtLive t' k \<noteq> mtLive t k \<longrightarrow> k \<in> set changed'"
  proof (intro allI impI)
    fix k assume diff: "mtLive t' k \<noteq> mtLive t k"
    show "k \<in> set changed'"
    proof (rule ccontr)
      assume n: "k \<notin> set changed'"
      then have k: "k \<notin> fst ` set ops" "k \<notin> set c2" using r(3) by auto
      have "mtLive t2 k = mtLive t k"
        using k(2) d'(2) by (auto simp: live2 clearSlice_def c2_def split: if_splits)
      moreover have "mtLive t' k = mtLive t2 k" unfolding r(1) by (rule opsMap_other [OF k(1)])
      ultimately show False using diff by simp
    qed
  qed
  show "life = Death \<longrightarrow> (\<forall>k. prefix (sl @ [bang]) k \<longrightarrow> mtLive t' k = None)"
    using r(5) by (auto simp: m editMap_def clearSlice_def)
qed

section \<open>Commit\<close>

lemma keys_delete: "fst ` set (AList.delete k al) = fst ` set al - {k}"
  using delete_keys [of k al] by (auto simp: image_iff AList.delete_eq)

lemma keys_update: "fst ` set (AList.update k v al) = insert k (fst ` set al)"
  using dom_update [of k v al] by (simp add: dom_map_of_conv_image_fst [symmetric])

text \<open>
  What the loop over the updates leaves: the values, the keys that appeared and those that went. The
  updates hold each key once, as a JavaScript \<open>Map\<close> does.
\<close>

lemma commitValues_spec:
  assumes "commitValues us values added removed = (values', added', removed')"
    and "distinct (map fst us)" "distinct added" "distinct removed"
    and "set added \<inter> fst ` set us = {}" "set removed \<inter> fst ` set us = {}"
  shows "map_of values' = layerGet values us \<and>
    distinct added' \<and> distinct removed' \<and>
    set added' = set added \<union> {k. map_of values k = None \<and> (\<exists>v. map_of us k = Some (Some v))} \<and>
    set removed' = set removed \<union> {k. map_of values k \<noteq> None \<and> map_of us k = Some None}"
  using assms
proof (induction us "values" added removed rule: commitValues.induct)
  case (1 vs added removed)
  then show ?case by (auto simp: layerGet_def)
next
  case (2 key us vs added removed)
  have k: "map_of us key = None" "key \<notin> fst ` set us"
    using "2.prems"(2) by (auto simp: map_of_eq_None_iff)
  have dom: "key \<in> fst ` set vs \<longleftrightarrow> map_of vs key \<noteq> None" by (simp add: map_of_eq_None_iff)
  show ?case
  proof (cases "key \<in> fst ` set vs")
    case True
    have IH: "map_of values' = layerGet (AList.delete key vs) us \<and> distinct added' \<and> distinct removed' \<and>
      set added' = set added \<union> {k. map_of (AList.delete key vs) k = None \<and> (\<exists>v. map_of us k = Some (Some v))} \<and>
      set removed' = set (removed @ [key]) \<union> {k. map_of (AList.delete key vs) k \<noteq> None \<and> map_of us k = Some None}"
      by (rule "2.IH"(1)) (use "2.prems" True k in auto)
    then show ?thesis
      using True k dom by (auto simp: layerGet_def fun_eq_iff delete_conv' split: option.splits)
  next
    case False
    have IH: "map_of values' = layerGet vs us \<and> distinct added' \<and> distinct removed' \<and>
      set added' = set added \<union> {k. map_of vs k = None \<and> (\<exists>v. map_of us k = Some (Some v))} \<and>
      set removed' = set removed \<union> {k. map_of vs k \<noteq> None \<and> map_of us k = Some None}"
      by (rule "2.IH"(2)) (use "2.prems" False k in auto)
    then show ?thesis
      using False k dom by (auto simp: layerGet_def fun_eq_iff split: option.splits)
  qed
next
  case (3 key v us vs added removed)
  have k: "map_of us key = None" "key \<notin> fst ` set us"
    using "3.prems"(2) by (auto simp: map_of_eq_None_iff)
  have dom: "key \<in> fst ` set vs \<longleftrightarrow> map_of vs key \<noteq> None" by (simp add: map_of_eq_None_iff)
  have IH: "map_of values' = layerGet (AList.update key v vs) us \<and> distinct added' \<and> distinct removed' \<and>
      set added' = set (if key \<notin> fst ` set vs then added @ [key] else added) \<union>
        {k. map_of (AList.update key v vs) k = None \<and> (\<exists>v. map_of us k = Some (Some v))} \<and>
      set removed' = set removed \<union> {k. map_of (AList.update key v vs) k \<noteq> None \<and> map_of us k = Some None}"
    by (rule "3.IH") (use "3.prems" k in auto)
  then show ?case
    using k dom by (auto simp: layerGet_def fun_eq_iff split: option.splits if_splits)
qed

context ordered_keys
begin

lemma removeAll_flat:
  "ok l \<Longrightarrow> distinct ks \<Longrightarrow> set ks \<subseteq> set (flat l) \<Longrightarrow>
    \<exists>l'. removeAllKeys remove ks l = Inr l' \<and> ok l' \<and> set (flat l') = set (flat l) - set ks"
proof (induction ks arbitrary: l)
  case (Cons k ks)
  then obtain l1 where l1: "remove l k = Inr l1" "ok l1" "set (flat l1) = set (flat l) - {k}"
    using remove_flat [of l k] by auto
  then have "\<exists>l'. removeAllKeys remove ks l1 = Inr l' \<and> ok l' \<and> set (flat l') = set (flat l1) - set ks"
    using Cons by (intro Cons.IH) auto
  then show ?case using l1 by auto
qed simp

lemma addAll_flat:
  "ok l \<Longrightarrow> distinct ks \<Longrightarrow> set ks \<inter> set (flat l) = {} \<Longrightarrow>
    ok (fold (\<lambda>k l. add l k) ks l) \<and> set (flat (fold (\<lambda>k l. add l k) ks l)) = set (flat l) \<union> set ks"
proof (induction ks arbitrary: l)
  case (Cons k ks)
  have a: "ok (add l k) \<and> set (flat (add l k)) = insert k (set (flat l))"
    by (rule add_flat) (use Cons.prems in auto)
  have "ok (fold (\<lambda>k l. add l k) ks (add l k)) \<and>
      set (flat (fold (\<lambda>k l. add l k) ks (add l k))) = set (flat (add l k)) \<union> set ks"
    by (rule Cons.IH) (use Cons.prems a in auto)
  then show ?case using a by auto
qed simp

end

text \<open>The state of the store: each key once, and the key list exact.\<close>

definition store_ok :: "'js mem_store \<Rightarrow> bool" where
  "store_ok s = (distinct (map fst (ms_values s)) \<and> kl_ok (ms_keys s) \<and>
     set (concat (ms_keys s)) = fst ` set (ms_values s))"

lemma commitValues_distinct:
  "commitValues us values added removed = (values', added', removed') \<Longrightarrow>
    distinct (map fst values) \<Longrightarrow> distinct (map fst values')"
  by (induction us "values" added removed rule: commitValues.induct)
    (auto simp: distinct_delete distinct_update split: if_splits)

text \<open>Commit: no error, the store's values are the transaction's live keys, and the state holds.\<close>

lemma msCommit_ok:
  assumes ok: "store_ok s" and u: "distinct (map fst us)"
  shows "\<exists>s'. msCommit s us = Inr s' \<and> store_ok s' \<and> map_of (ms_values s') = layerGet (ms_values s) us"
proof -
  obtain vs added removed where c: "commitValues us (ms_values s) [] [] = (vs, added, removed)"
    using prod_cases3 by blast
  have spec: "map_of vs = layerGet (ms_values s) us" "distinct added" "distinct removed"
    "set added = {k. map_of (ms_values s) k = None \<and> (\<exists>v. map_of us k = Some (Some v))}"
    "set removed = {k. map_of (ms_values s) k \<noteq> None \<and> map_of us k = Some None}"
    using commitValues_spec [OF c u] by auto
  have d: "distinct (map fst vs)"
    using commitValues_distinct [OF c] ok by (simp add: store_ok_def)
  have dom: "fst ` set al = {k. map_of al k \<noteq> None}" for al :: "'a layer"
    by (auto simp: map_of_eq_None_iff)
  have keys: "fst ` set vs = fst ` set (ms_values s) - set removed \<union> set added"
    unfolding dom spec by (auto simp: layerGet_def split: option.splits)
  show ?thesis
  proof (cases "8 * (length added + length removed) > length vs")
    case True
    have "ascending (sortKeys (map fst vs))" using d by (rule sortKeys_ascending)
    then have "kl_ok (klOf (sortKeys (map fst vs)))"
      "concat (klOf (sortKeys (map fst vs))) = sortKeys (map fst vs)"
      using kl.build_flat by blast+
    moreover from this(2) have "set (concat (klOf (sortKeys (map fst vs)))) = fst ` set vs" by simp
    ultimately show ?thesis
      using True c d spec(1) by (simp add: msCommit_def store_ok_def del: set_concat)
  next
    case False
    have flat: "kl_ok (ms_keys s)" "set (concat (ms_keys s)) = fst ` set (ms_values s)"
      using ok by (simp_all add: store_ok_def)
    have "set removed \<subseteq> set (concat (ms_keys s))" unfolding flat(2) dom spec by auto
    from kl.removeAll_flat [OF flat(1) spec(3) this] obtain bs where
      bs: "removeAllKeys klRemove removed (ms_keys s) = Inr bs" "kl_ok bs"
        "set (concat bs) = fst ` set (ms_values s) - set removed"
      unfolding flat(2) by blast
    have "set added \<inter> set (concat bs) = {}" unfolding bs(3) dom spec by auto
    from kl.addAll_flat [OF bs(2) spec(2) this] show ?thesis
      using False c d spec(1) bs keys by (simp add: msCommit_def store_ok_def)
  qed
qed

text \<open>A transaction over the store, and what it leaves behind.\<close>

lemma msTxn_ok: "store_ok s \<Longrightarrow> mem_ok (msTxn s)"
  by (simp add: store_ok_def mem_ok_def msTxn_def)

lemma msTxn_live: "mtLive (msTxn s) = map_of (ms_values s)"
  by (rule ext) (simp add: mtLive_def msTxn_def layerGet_def)

end
