(* ===== verification/StoreProperties.thy ===== *)
theory StoreProperties
  imports KeyProperties StoreScan StoreWrites
begin

text \<open>
  What the in-memory store promises: a scan visits the live keys of its pattern in order and no
  others, batch after batch; deletes, edits and commits leave the map of keys to values their
  operations describe, and the sorted key list agrees with that map.
\<close>

section \<open>A store to instantiate the properties on\<close>

definition sampleTxn :: "unit mem_txn" where
  "sampleTxn =
     \<lparr>mt_values = [(lit ''l:c!t:x'', Packed [1])], mt_keys = [[lit ''l:c!t:x'']],
      mt_updates = [(lit ''l:d!t:y'', Some (Plain ()))]\<rparr>"

definition sampleReg :: "(unit, unit) registry" where
  "sampleReg =
     \<lparr>reg_js = (\<lambda>_ _. Inr ()), reg_out = (\<lambda>_ _ _. Inr (HostVal ())), reg_raw = (\<lambda>_ bs _. Inr (ByteVal bs)),
      reg_env = (\<lambda>_. Inl (lit ''no'')), reg_ops = (\<lambda>bs _. Inr [(lit ''l:c!t:z'', Some bs)])\<rparr>"

definition sampleScan :: scan_request where
  "sampleScan = \<lparr>sr_pattern = samplePattern, sr_reverse = True, sr_after = None, sr_limit = 1, sr_values = None\<rparr>"

lemma sample_mem: "mem_ok sampleTxn"
  by (simp add: mem_ok_def sampleTxn_def kl_ok_def BLOCK_def)

lemma sample_live: "k \<in> set (liveKeys sampleTxn) \<Longrightarrow> key_rule sampleCompiled k"
  by (auto simp: liveKeys_set mtLive_def layerGet_def sampleTxn_def key_rule_def sampleCompiled_def blankField_def
      units_above_def urank_def split: if_splits)

lemma sample_scan:
  "compilePattern (sr_pattern sampleScan) = Inr sampleCompiled" "name_ok (sr_pattern sampleScan)"
  "sr_values sampleScan = None" "sr_limit sampleScan = 1" "sr_after sampleScan = None"
  "kp_name (sr_pattern sampleScan) \<noteq> None"
  by (simp_all add: sampleScan_def sample_compiles sample_name) (simp add: samplePattern_def)

section \<open>Scans\<close>

text \<open>
  C3: a walk of a transaction, forward or reverse, ends, and hands its visitor the live keys that
  match the pattern, in walk order from \<open>after\<close>, the pending updates among them, until the visitor
  stops it. This is for live keys that keep to the pattern's template, an \<open>after\<close> under the pattern's head
  and, where the walk is in reverse, upper bounds that hold only units above the separators that follow
  them: without that a reverse walk may miss keys, as KeyProperties shows.
\<close>

theorem walk_visits_live_matches:
  assumes "compilePattern p = Inr c" "name_ok p" "r \<Longrightarrow> bounds_ok (cp_fields c)"
    and "mem_ok t" "\<And>k. k \<in> set (liveKeys t) \<Longrightarrow> key_rule c k"
    and "\<And>a. after = Some a \<Longrightarrow> prefix (cp_head c) a"
  shows "mtWalk t c r after visit s = Some (visitAll visit (walk_keys c r after (walk_every r (liveKeys t))) s)"
  by (rule mtWalk_visits) (fact assms)+

theorem walk_visits_live_matches_witness:
  "mtWalk sampleTxn sampleCompiled True None (pushKey 5) [] =
     Some (visitAll (pushKey 5) (walk_keys sampleCompiled True None (walk_every True (liveKeys sampleTxn))) [])"
  by (rule walk_visits_live_matches [OF sample_compiles sample_name sample_bounds sample_mem sample_live]) simp_all

text \<open>
  One batch of a scan of keys is the first \<open>limit\<close> of them, and says to go on from the last just
  when it is full.
\<close>

theorem scan_batch:
  assumes "compilePattern (sr_pattern req) = Inr c" "name_ok (sr_pattern req)" "sr_reverse req \<Longrightarrow> bounds_ok (cp_fields c)"
    and "mem_ok t" "\<And>k. k \<in> set (liveKeys t) \<Longrightarrow> key_rule c k"
    and "1 \<le> sr_limit req" "sr_values req = None" "\<And>a. sr_after req = Some a \<Longrightarrow> prefix (cp_head c) a"
  shows "mtScan DEV reg t req =
    Some (Inr (map (\<lambda>k. (k, None)) (batchKeys c req t),
      if length (batchKeys c req t) = sr_limit req then Some (last (batchKeys c req t)) else None), t)"
  by (rule mtScan_keys_only) (fact assms)+

theorem scan_batch_witness:
  "mtScan True sampleReg sampleTxn sampleScan =
    Some (Inr (map (\<lambda>k. (k, None)) (batchKeys sampleCompiled sampleScan sampleTxn),
      if length (batchKeys sampleCompiled sampleScan sampleTxn) = sr_limit sampleScan
      then Some (last (batchKeys sampleCompiled sampleScan sampleTxn)) else None), sampleTxn)"
  by (rule scan_batch [OF sample_scan(1,2) sample_bounds sample_mem sample_live]) (simp_all add: sample_scan)

text \<open>
  C30: the batches of \<open>scanAll\<close> put together are every live key of the pattern past \<open>after\<close>, once
  each and in walk order, whatever the batch's limit of one or more; the loop over the batches ends. The scan
  is of keys alone, the live keys keep to the pattern's template, \<open>after\<close> is under its head, and a scan in
  reverse has upper bounds that hold only units above the separators that follow them.
\<close>

theorem scanAll_every_key:
  assumes "compilePattern (sr_pattern req) = Inr c" "name_ok (sr_pattern req)" "sr_reverse req \<Longrightarrow> bounds_ok (cp_fields c)"
    and "mem_ok t" "\<And>k. k \<in> set (liveKeys t) \<Longrightarrow> key_rule c k"
    and "1 \<le> sr_limit req" "sr_values req = None" "\<And>a. sr_after req = Some a \<Longrightarrow> prefix (cp_head c) a"
  shows "mtScanAll DEV reg t req = Some (Inr (map (\<lambda>k. (k, None)) (scanKeys c req t)), t)"
  by (rule mtScanAll_keys_only) (fact assms)+

theorem scanAll_every_key_witness:
  "mtScanAll False sampleReg sampleTxn sampleScan =
    Some (Inr (map (\<lambda>k. (k, None)) (scanKeys sampleCompiled sampleScan sampleTxn)), sampleTxn)"
  by (rule scanAll_every_key [OF sample_scan(1,2) sample_bounds sample_mem sample_live]) (simp_all add: sample_scan)

text \<open>
  C31: a scan of values ends too, whichever values fail to decode, and returns entries of the
  pattern's live keys only; what it decodes in place changes no key. The pattern names a template to which
  the live keys keep, \<open>after\<close> is under its head, the limit is one or more, and a scan in reverse has upper bounds
  that hold only units above the separators that follow them.
\<close>

theorem scanAll_ends:
  assumes "compilePattern (sr_pattern req) = Inr c" "name_ok (sr_pattern req)" "sr_reverse req \<Longrightarrow> bounds_ok (cp_fields c)"
    and "1 \<le> sr_limit req" "kp_name (sr_pattern req) \<noteq> None"
    and "mem_ok t" "\<And>k. k \<in> set (liveKeys t) \<Longrightarrow> key_rule c k" "\<And>a. sr_after req = Some a \<Longrightarrow> prefix (cp_head c) a"
  shows "\<exists>r t'. mtScanAll DEV reg t req = Some (r, t') \<and> mem_ok t' \<and> liveKeys t' = liveKeys t \<and>
    (case r of Inl _ \<Rightarrow> True | Inr es \<Rightarrow> set (map fst es) \<subseteq> set (scanKeys c req t))"
  using scanAllLoop_ends [OF assms(1-7), where after = "sr_after req" and all = "[]" and DEV = DEV and reg = reg] assms(8)
  by (fastforce simp: mtScanAll_def split: sum.split)

theorem scanAll_ends_witness:
  "\<exists>r t'. mtScanAll True sampleReg sampleTxn (sampleScan\<lparr>sr_values := Some (lit ''T'', JS)\<rparr>) = Some (r, t') \<and>
     mem_ok t' \<and> liveKeys t' = liveKeys sampleTxn \<and>
     (case r of Inl _ \<Rightarrow> True
      | Inr es \<Rightarrow> set (map fst es) \<subseteq> set (scanKeys sampleCompiled (sampleScan\<lparr>sr_values := Some (lit ''T'', JS)\<rparr>) sampleTxn))"
  by (rule scanAll_ends [OF _ _ sample_bounds _ _ sample_mem sample_live]) (simp_all add: sample_scan)

section \<open>Writes\<close>

text \<open>
  \<open>delPrefix\<close> deletes the live keys that start with the prefix, returns just those in order,
  and changes nothing else.
\<close>

theorem delPrefix_deletes:
  assumes "mem_ok t" "mtDelPrefix t p = (keys, t')"
  shows "mtLive t' = (\<lambda>k. if prefix p k then None else mtLive t k) \<and>
    set keys = {k. prefix p k \<and> mtLive t k \<noteq> None} \<and> ascending keys \<and> mem_ok t'"
  by (intro conjI mtDelPrefix_live [OF assms])

theorem delPrefix_deletes_witness:
  "mtLive (snd (mtDelPrefix sampleTxn (lit ''l:c''))) = (\<lambda>k. if prefix (lit ''l:c'') k then None else mtLive sampleTxn k) \<and>
   set (fst (mtDelPrefix sampleTxn (lit ''l:c''))) = {k. prefix (lit ''l:c'') k \<and> mtLive sampleTxn k \<noteq> None}"
proof -
  obtain keys t' where d: "mtDelPrefix sampleTxn (lit ''l:c'') = (keys, t')" by (rule prod.exhaust)
  show ?thesis using delPrefix_deletes [OF sample_mem d] by (simp only: d fst_conv snd_conv)
qed

text \<open>
  C32: an edit applied to a transaction writes what its operations say, after deleting its slice
  when it is a birth or a death; it changes no key of another slice, reports every key it changed,
  and a death leaves its slice empty.
\<close>

theorem applyEdit_applies:
  assumes "mem_ok t" "mtApplyEdit reg sl life bs t changed = Inr (t', changed')" "reg_ops reg bs True = Inr ops"
  shows "mtLive t' = editMap sl life ops (mtLive t) \<and> mem_ok t' \<and>
    (\<forall>k. \<not> prefix (sl @ [bang]) k \<longrightarrow> mtLive t' k = mtLive t k) \<and>
    (\<forall>k. mtLive t' k \<noteq> mtLive t k \<longrightarrow> k \<in> set changed') \<and>
    (life = Death \<longrightarrow> (\<forall>k. prefix (sl @ [bang]) k \<longrightarrow> mtLive t' k = None))"
  by (intro conjI mtApplyEdit_live [OF assms])

theorem applyEdit_applies_witness:
  "\<exists>t' changed'. mtApplyEdit sampleReg (lit ''l:c'') Normal [2] sampleTxn [] = Inr (t', changed') \<and>
     mtLive t' = editMap (lit ''l:c'') Normal [(lit ''l:c!t:z'', Some [2])] (mtLive sampleTxn)"
proof -
  have "reg_ops sampleReg [2] True = Inr [(lit ''l:c!t:z'', Some [2])]" by (simp add: sampleReg_def)
  moreover obtain t' changed' where e: "mtApplyEdit sampleReg (lit ''l:c'') Normal [2] sampleTxn [] = Inr (t', changed')"
    by (auto simp: mtApplyEdit_def sampleReg_def sliceOf_def index_of_def slice_to_def mtWrite_def)
  ultimately show ?thesis using applyEdit_applies [OF sample_mem e] by auto
qed

text \<open>
  C6: a commit leaves the store's map that of the values with the updates over them, and the key
  list sorted and holding just the map's keys, on both of its paths: keys moved one by one, or the
  list built anew.
\<close>

theorem commit_folds:
  assumes "store_ok s" "distinct (map fst us)"
  shows "\<exists>s'. msCommit s us = Inr s' \<and> store_ok s' \<and> map_of (ms_values s') = layerGet (ms_values s) us"
  by (rule msCommit_ok [OF assms])

theorem commit_folds_witness:
  "\<exists>s'. msCommit \<lparr>ms_values = [(lit ''a'', Plain ())], ms_keys = [[lit ''a'']]\<rparr> [(lit ''b'', Some (Plain ()))] = Inr s' \<and>
     store_ok s' \<and> map_of (ms_values s') = layerGet [(lit ''a'', Plain ())] [(lit ''b'', Some (Plain ()))]"
  using commit_folds [of "\<lparr>ms_values = [(lit ''a'', Plain ())], ms_keys = [[lit ''a'']]\<rparr>" "[(lit ''b'', Some (Plain ()))]"]
  by (simp add: store_ok_def kl_ok_def BLOCK_def)

end
