(* ===== verification/EngineState.thy ===== *)
theory EngineState
  imports Store Complex_Main
begin

text \<open>
  The Engine's state (typespec/ts/assets/skeleton.ts, \<open>Engine\<close>): the records it persists, the
  backfills in flight, the outbox and the @online mutations, the connection, and the write
  transaction of its store, an interface every store provides.
\<close>

section \<open>Persisted records\<close>

record view_record =
  vr_token :: jsstr
  vr_position :: int
  vr_selectors :: "jsstr list"

record checkpoint_record =
  cr_epoch :: jsstr
  cr_position :: int
  cr_applied :: int

record backfill_resume =
  br_position :: int
  br_visible :: int
  br_skipBytes :: nat
  br_checksum :: jsstr
  br_fromPosition :: int
  br_snapshotDone :: bool
  br_tailDone :: bool

record backfill_record =
  bf_until :: int
  bf_resume :: "backfill_resume option"

record mutation =
  mu_id :: jsstr
  mu_series :: "jsstr option"
  mu_n :: "nat option"
  mu_data :: bytes

text \<open>The values the Engine writes and reads in JS form.\<close>

datatype engine_value =
  CheckpointV checkpoint_record
  | ViewV view_record
  | SeqV nat
  | SeqsV "(jsstr \<times> nat) list"
  | BackfillV backfill_record
  | MutationV mutation
  | EnvelopeV edit_envelope

section \<open>The write transaction of a store\<close>

text \<open>
  The interface \<open>WTxn\<close>, over a transaction state \<open>'t\<close>; \<open>wt_rows\<close> is \<open>scanAll\<close> over its \<open>scan\<close>,
  with values of a type or keys only.
\<close>

record 't wtxn =
  wt_get :: "jsstr \<Rightarrow> jsstr \<Rightarrow> 't \<Rightarrow> store_error + (engine_value option \<times> 't)"
  wt_set :: "jsstr \<Rightarrow> engine_value \<Rightarrow> 't \<Rightarrow> 't"
  wt_put :: "jsstr \<Rightarrow> bytes \<Rightarrow> 't \<Rightarrow> 't"
  wt_del :: "jsstr \<Rightarrow> 't \<Rightarrow> 't"
  wt_delPrefix :: "jsstr \<Rightarrow> 't \<Rightarrow> jsstr list \<times> 't"
  wt_applyEdits :: "wire_edit list \<Rightarrow> 't \<Rightarrow> store_error + (jsstr list \<times> 't)"
  wt_applyParked :: "jsstr \<Rightarrow> nat \<Rightarrow> 't \<Rightarrow> store_error + (jsstr list \<times> 't)"
  wt_applySnapshot :: "jsstr \<Rightarrow> jsstr list \<Rightarrow> 't \<Rightarrow> store_error + (jsstr list \<times> 't)"
  wt_rows :: "key_pattern \<Rightarrow> jsstr option \<Rightarrow> 't \<Rightarrow> store_error + ((jsstr \<times> engine_value option) list \<times> 't)"

datatype engine_error =
  StoreFailed store_error
  | CursorNoEpoch
  | EpochChanged jsstr "jsstr"
  | BadValue jsstr
  | NoResume jsstr
  | FatalEnd jsstr
  | EncodeFailed jsstr
  | CallbackThrew jsstr

section \<open>The state\<close>

text \<open>
  A backfill in flight. \<open>be_id\<close> names the entry object, which a regrant of the selector replaces; its
  timer runs exactly while \<open>be_retryAt\<close> is set.
\<close>

record backfill_entry =
  be_id :: nat
  be_record :: backfill_record
  be_ready :: bool
  be_attempts :: nat
  be_retryAt :: "real option"
  be_length :: "nat option"
  be_scanned :: int

datatype mutation_result = OkAt int | RejectFor jsstr | ConflictAt "(jsstr \<times> nat) list"

record online_mutation =
  om_ack :: "int option"
  om_seen :: bool

text \<open>What the Engine does to the world outside its store.\<close>

datatype effect =
  AbortBackfill nat
  | SettleOnline jsstr mutation_result
  | RejectOnline jsstr
  | RejectSubmission nat
  | AbortConnection nat
  | StartBackfillCall jsstr nat
  | SendMutations "jsstr list"
  | OpenConnection int "jsstr option" "jsstr list"
  | ResolvePush nat
  | RejectPush nat
  | GraphDirty "jsstr list"
  | RebuildOverlay
  | RunGraph

datatype episode_kind = Boot | Resync | Downloads

record backfill_status =
  bs_selector :: jsstr
  bs_bytes :: nat
  bs_length :: "nat option"
  bs_snapshotDone :: bool
  bs_tail :: "(int \<times> int \<times> int \<times> bool) option"
  bs_retryAt :: "int option"

record episode =
  ep_kind :: episode_kind
  ep_shown :: real
  ep_backfills :: "(jsstr \<times> backfill_status) list"
  ep_since :: int
  ep_held :: "jsstr list"
  ep_resolved :: "jsstr list"
  ep_confirmed :: bool

text \<open>The published status, whose times are dates in whole milliseconds.\<close>

datatype connection_state = ConnectingC | OfflineC | LiveC | SyncingC

record connection_status =
  cs_state :: connection_state
  cs_nextAttemptAt :: "int option"
  cs_hasBase :: bool
  cs_frozen :: bool

record sync_log =
  sl_since :: int
  sl_head :: "int option"
  sl_committed :: int
  sl_applied :: int

record progress_status =
  ps_estimate :: "real option"
  ps_log :: sync_log
  ps_backfills :: "backfill_status list"

datatype status_value = ConnectionS connection_status | ProgressS progress_status | OutboxS int

record 't engine =
  en_txn :: 't
  en_dirty :: "jsstr list"
  en_out :: "effect list"
  en_conn :: nat
  en_connected :: bool
  en_attempt :: nat
  en_nextAttemptAt :: "real option"
  en_retrying :: bool
  en_connectNow :: bool
  en_asked :: bool
  en_since :: int
  en_head :: "int option"
  en_confirmed :: bool
  en_live :: bool
  en_epoch :: "jsstr option"
  en_view :: "view_record option"
  en_checkpoint :: "checkpoint_record option"
  en_applied :: int
  en_slices :: "(jsstr \<times> nat) list"
  en_backfills :: "(jsstr \<times> backfill_entry) list"
  en_nextEntry :: nat
  en_starts :: "(jsstr \<times> nat) list"
  en_outbox :: "(jsstr \<times> nat) list"
  en_nextOrdinal :: nat
  en_nextN :: nat
  en_series :: jsstr
  en_sent :: "jsstr list"
  en_acked :: "(jsstr \<times> int) list"
  en_online :: "(jsstr \<times> online_mutation) list"
  en_outboxChanged :: bool
  en_resend :: bool
  en_newQueries :: bool
  en_episode :: "episode option"
  en_wants :: "jsstr list"
  en_status :: "(jsstr \<times> status_value) list"

definition CHECKPOINT :: jsstr where "CHECKPOINT = lit ''!checkpoint''"
definition VIEW :: jsstr where "VIEW = lit ''!view''"
definition SEQ :: jsstr where "SEQ = lit ''!seq:''"
definition BACKFILL :: jsstr where "BACKFILL = lit ''!backfill:''"
definition BACKFILL_SEQS :: jsstr where "BACKFILL_SEQS = lit ''!backfill-seqs:''"
definition JSON :: jsstr where "JSON = lit ''.json''"
definition MUTATION_TYPE :: jsstr where "MUTATION_TYPE = lit ''.mutation''"
definition EDITS_TYPE :: jsstr where "EDITS_TYPE = lit ''.edits''"

definition en_frozen :: "'t engine \<Rightarrow> bool" where
  "en_frozen e = (en_backfills e \<noteq> [])"

text \<open>The cursor, -1 before the first one.\<close>

definition cursorOf :: "'t engine \<Rightarrow> int" where
  "cursorOf e = (case en_checkpoint e of None \<Rightarrow> -1 | Some c \<Rightarrow> cr_position c)"

text \<open>The operations of the store's transaction, inside the Engine's state.\<close>

definition emit :: "effect \<Rightarrow> 't engine \<Rightarrow> 't engine" where
  "emit x e = e\<lparr>en_out := en_out e @ [x]\<rparr>"

definition setIn :: "'t wtxn \<Rightarrow> jsstr \<Rightarrow> engine_value \<Rightarrow> 't engine \<Rightarrow> 't engine" where
  "setIn ops k v e = e\<lparr>en_txn := wt_set ops k v (en_txn e)\<rparr>"

definition putIn :: "'t wtxn \<Rightarrow> jsstr \<Rightarrow> bytes \<Rightarrow> 't engine \<Rightarrow> 't engine" where
  "putIn ops k b e = e\<lparr>en_txn := wt_put ops k b (en_txn e)\<rparr>"

definition delIn :: "'t wtxn \<Rightarrow> jsstr \<Rightarrow> 't engine \<Rightarrow> 't engine" where
  "delIn ops k e = e\<lparr>en_txn := wt_del ops k (en_txn e)\<rparr>"

definition delPrefixIn :: "'t wtxn \<Rightarrow> jsstr \<Rightarrow> 't engine \<Rightarrow> 't engine" where
  "delPrefixIn ops p e = e\<lparr>en_txn := snd (wt_delPrefix ops p (en_txn e))\<rparr>"

text \<open>\<open>markDirty\<close>: the keys of a record, each once, in the order they first appear.\<close>

definition markDirty :: "jsstr list \<Rightarrow> 't engine \<Rightarrow> 't engine" where
  "markDirty keys e = e\<lparr>en_dirty := fold add_key keys (en_dirty e)\<rparr>"

definition delPrefixDirty :: "'t wtxn \<Rightarrow> jsstr \<Rightarrow> 't engine \<Rightarrow> 't engine" where
  "delPrefixDirty ops p e =
     (let (keys, t) = wt_delPrefix ops p (en_txn e) in markDirty keys (e\<lparr>en_txn := t\<rparr>))"

definition applyIn ::
  "('t \<Rightarrow> store_error + (jsstr list \<times> 't)) \<Rightarrow> 't engine \<Rightarrow> engine_error + 't engine" where
  "applyIn f e =
     (case f (en_txn e) of
        Inl err \<Rightarrow> Inl (StoreFailed err)
      | Inr (keys, t) \<Rightarrow> Inr (markDirty keys (e\<lparr>en_txn := t\<rparr>)))"

definition getIn ::
  "'t wtxn \<Rightarrow> jsstr \<Rightarrow> jsstr \<Rightarrow> 't engine \<Rightarrow> engine_error + (engine_value option \<times> 't engine)" where
  "getIn ops k type e =
     (case wt_get ops k type (en_txn e) of
        Inl err \<Rightarrow> Inl (StoreFailed err)
      | Inr (v, t) \<Rightarrow> Inr (v, e\<lparr>en_txn := t\<rparr>))"

definition rowsIn ::
  "'t wtxn \<Rightarrow> jsstr \<Rightarrow> jsstr option \<Rightarrow> 't engine \<Rightarrow>
   engine_error + ((jsstr \<times> engine_value option) list \<times> 't engine)" where
  "rowsIn ops name type e =
     (case wt_rows ops (engineKeys name AnyValue) type (en_txn e) of
        Inl err \<Rightarrow> Inl (StoreFailed err)
      | Inr (rows, t) \<Rightarrow> Inr (rows, e\<lparr>en_txn := t\<rparr>))"

end
