(* ===== verification/EngineSync.thy ===== *)
theory EngineSync
  imports EngineState
begin

text \<open>
  Synchronization (typespec/ts/assets/skeleton.ts, \<open>Engine\<close>): the cursor and the applied position,
  the edits of a frame, views, the backfills' lives, and the land. Every function is one method of
  the class, over the write transaction of its pass.
\<close>

section \<open>The outbox and the cursor\<close>

definition resolveSlice :: "jsstr \<Rightarrow> 't engine \<Rightarrow> 't engine" where
  "resolveSlice sl e =
     (case en_episode e of
        None \<Rightarrow> e
      | Some ep \<Rightarrow>
          if ep_kind ep = Resync \<and> sl \<in> set (ep_held ep)
          then e\<lparr>en_episode := Some (ep\<lparr>ep_resolved := add_key sl (ep_resolved ep)\<rparr>)\<rparr>
          else e)"

definition releaseOne :: "'t wtxn \<Rightarrow> jsstr \<Rightarrow> 't engine \<Rightarrow> 't engine" where
  "releaseOne ops i e =
     (case map_of (en_outbox e) i of
        None \<Rightarrow> e
      | Some ordinal \<Rightarrow>
          (delIn ops (mutationKey ordinal) e)
            \<lparr>en_outbox := AList.delete i (en_outbox e),
             en_sent := removeAll i (en_sent e),
             en_acked := AList.delete i (en_acked e),
             en_outboxChanged := True\<rparr>)"

definition releaseIn :: "'t wtxn \<Rightarrow> jsstr list \<Rightarrow> 't engine \<Rightarrow> 't engine" where
  "releaseIn ops ids e = fold (releaseOne ops) ids e"

definition releaseThroughIn :: "'t wtxn \<Rightarrow> int \<Rightarrow> 't engine \<Rightarrow> 't engine" where
  "releaseThroughIn ops position e =
     (if position \<le> en_applied e then e
      else releaseIn ops (map fst (filter (\<lambda>(i, p). p \<le> position) (en_acked e)))
             (e\<lparr>en_applied := position\<rparr>))"

definition advanceCursorIn :: "'t wtxn \<Rightarrow> int \<Rightarrow> bool \<Rightarrow> 't engine \<Rightarrow> engine_error + 't engine" where
  "advanceCursorIn ops position applied e =
     (case en_epoch e of
        None \<Rightarrow> Inl CursorNoEpoch
      | Some epoch \<Rightarrow>
          let e1 = (if applied then releaseThroughIn ops position e else e);
              cursor = max position (cursorOf e1)
          in if (case en_checkpoint e1 of None \<Rightarrow> False
                 | Some c \<Rightarrow> cr_position c = cursor \<and> cr_applied c = en_applied e1)
             then Inr e1
             else let c = \<lparr>cr_epoch = epoch, cr_position = cursor, cr_applied = en_applied e1\<rparr> in
               Inr (setIn ops CHECKPOINT (CheckpointV c) (e1\<lparr>en_checkpoint := Some c\<rparr>)))"

definition appliedTo :: "'t wtxn \<Rightarrow> int \<Rightarrow> 't engine \<Rightarrow> 't engine" where
  "appliedTo ops position e =
     (if position \<le> en_applied e then e
      else let e1 = releaseThroughIn ops position e in
        (case en_checkpoint e1 of
           None \<Rightarrow> e1
         | Some c \<Rightarrow> let c' = c\<lparr>cr_applied := position\<rparr> in
             setIn ops CHECKPOINT (CheckpointV c') (e1\<lparr>en_checkpoint := Some c'\<rparr>)))"

definition onCursorIn :: "'t wtxn \<Rightarrow> int \<Rightarrow> 't engine \<Rightarrow> engine_error + 't engine" where
  "onCursorIn ops position e = advanceCursorIn ops position (\<not> en_frozen e) e"

definition roundTrip :: "'t wtxn \<Rightarrow> jsstr \<Rightarrow> 't engine \<Rightarrow> 't engine" where
  "roundTrip ops i e =
     (let e1 = (if i \<in> fst ` set (en_outbox e) then releaseIn ops [i] e else e) in
      case map_of (en_online e1) i of
        None \<Rightarrow> e1
      | Some o' \<Rightarrow> e1\<lparr>en_online := AList.update i (o'\<lparr>om_seen := True\<rparr>) (en_online e1)\<rparr>)"

section \<open>Slices and backfills\<close>

definition forgetIn :: "'t wtxn \<Rightarrow> jsstr \<Rightarrow> 't engine \<Rightarrow> 't engine" where
  "forgetIn ops sl e = delIn ops (SEQ @ sl) (e\<lparr>en_slices := AList.delete sl (en_slices e)\<rparr>)"

definition holdIn :: "'t wtxn \<Rightarrow> jsstr \<Rightarrow> nat \<Rightarrow> 't engine \<Rightarrow> 't engine" where
  "holdIn ops sl s e =
     setIn ops (SEQ @ sl) (SeqV s) (e\<lparr>en_slices := AList.update sl s (en_slices e)\<rparr>)"

text \<open>The \<open>!\<close> after a lookup of a backfill: every caller names one in flight.\<close>

definition onEntry :: "jsstr \<Rightarrow> (backfill_entry \<Rightarrow> backfill_entry) \<Rightarrow> 't engine \<Rightarrow> 't engine" where
  "onEntry selector f e =
     (case map_of (en_backfills e) selector of
        None \<Rightarrow> e
      | Some b \<Rightarrow> e\<lparr>en_backfills := AList.update selector (f b) (en_backfills e)\<rparr>)"

definition startBackfill :: "jsstr \<Rightarrow> 't engine \<Rightarrow> 't engine" where
  "startBackfill selector e =
     (case map_of (en_backfills e) selector of
        None \<Rightarrow> e
      | Some b \<Rightarrow>
          (onEntry selector (\<lambda>b. b\<lparr>be_ready := False\<rparr>) e)
            \<lparr>en_starts := en_starts e @ [(selector, be_id b)]\<rparr>)"

definition newBackfillEntry :: "nat \<Rightarrow> backfill_record \<Rightarrow> backfill_entry" where
  "newBackfillEntry i r =
     \<lparr>be_id = i, be_record = r, be_ready = False, be_attempts = 0, be_retryAt = None,
      be_length = None, be_scanned = -1\<rparr>"

definition addEntry :: "jsstr \<Rightarrow> backfill_record \<Rightarrow> 't engine \<Rightarrow> 't engine" where
  "addEntry selector r e =
     e\<lparr>en_backfills := AList.update selector (newBackfillEntry (en_nextEntry e) r) (en_backfills e),
       en_nextEntry := en_nextEntry e + 1\<rparr>"

definition spawnIn :: "'t wtxn \<Rightarrow> jsstr \<Rightarrow> int \<Rightarrow> 't engine \<Rightarrow> 't engine" where
  "spawnIn ops selector until e =
     (let r = \<lparr>bf_until = until, bf_resume = None\<rparr> in
      startBackfill selector (addEntry selector r (setIn ops (BACKFILL @ selector) (BackfillV r) e)))"

definition restartIn :: "'t wtxn \<Rightarrow> jsstr \<Rightarrow> 't engine \<Rightarrow> 't engine" where
  "restartIn ops selector e =
     (case map_of (en_backfills e) selector of
        None \<Rightarrow> e
      | Some b \<Rightarrow>
          let e1 = delPrefixIn ops (PARK_SNAP @ selector @ [bang]) e;
              e2 = delIn ops (BACKFILL_SEQS @ selector) e1;
              r = (be_record b)\<lparr>bf_resume := None\<rparr>;
              e3 = onEntry selector (\<lambda>b. b\<lparr>be_record := r, be_ready := False, be_attempts := 0\<rparr>) e2
          in startBackfill selector (setIn ops (BACKFILL @ selector) (BackfillV r) e3))"

definition dropBackfillIn :: "'t wtxn \<Rightarrow> jsstr \<Rightarrow> 't engine \<Rightarrow> 't engine" where
  "dropBackfillIn ops selector e =
     (case map_of (en_backfills e) selector of
        None \<Rightarrow> e
      | Some b \<Rightarrow>
          let e1 = emit (AbortBackfill (be_id b)) e;
              e2 = delPrefixIn ops (PARK_SNAP @ selector @ [bang]) e1;
              e3 = delIn ops (BACKFILL @ selector) e2;
              e4 = delIn ops (BACKFILL_SEQS @ selector) e3
          in e4\<lparr>en_backfills := AList.delete selector (en_backfills e4)\<rparr>)"

definition dropSliceIn :: "'t wtxn \<Rightarrow> jsstr \<Rightarrow> 't engine \<Rightarrow> 't engine" where
  "dropSliceIn ops sl e =
     (let e1 = delPrefixDirty ops (sl @ [bang]) e;
          e2 = delIn ops (SEQ @ sl) e1;
          e3 = delPrefixIn ops (PARK_EDIT @ sl @ [bang]) e2
      in e3\<lparr>en_slices := AList.delete sl (en_slices e3)\<rparr>)"

definition dropParkedIn :: "'t wtxn \<Rightarrow> (jsstr \<Rightarrow> bool) \<Rightarrow> 't engine \<Rightarrow> engine_error + 't engine" where
  "dropParkedIn ops keep e =
     andThen (rowsIn ops (lit ''park-edit'') None e) (\<lambda>(rows, e1).
       let gone = fold add_key (filter (\<lambda>sl. \<not> keep sl) (map (fst \<circ> parsePark \<circ> fst) rows)) [] in
       Inr (fold (\<lambda>sl. delPrefixIn ops (PARK_EDIT @ sl @ [bang])) gone e1))"

definition covered :: "jsstr list \<Rightarrow> jsstr \<Rightarrow> bool" where
  "covered selectors x = list_ex (\<lambda>r. selectorCovers r x) selectors"

section \<open>Planning a land\<close>

record blob =
  bl_selector :: jsstr
  bl_cut :: int
  bl_header :: "(jsstr \<times> nat) list"

definition headerOf :: "'t wtxn \<Rightarrow> jsstr \<Rightarrow> 't engine \<Rightarrow> engine_error + ((jsstr \<times> nat) list \<times> 't engine)" where
  "headerOf ops selector e =
     andThen (getIn ops (BACKFILL_SEQS @ selector) JSON e) (\<lambda>(v, e1).
       case v of
         None \<Rightarrow> Inr ([], e1)
       | Some (SeqsV s) \<Rightarrow> Inr (s, e1)
       | Some _ \<Rightarrow> Inl (BadValue (BACKFILL_SEQS @ selector)))"

fun blobsOf ::
  "'t wtxn \<Rightarrow> (jsstr \<times> backfill_entry) list \<Rightarrow> 't engine \<Rightarrow> engine_error + (blob list \<times> 't engine)" where
  "blobsOf ops [] e = Inr ([], e)"
| "blobsOf ops ((selector, b) # bs) e =
     (case bf_resume (be_record b) of
        None \<Rightarrow> Inl (NoResume selector)
      | Some r \<Rightarrow>
          andThen (headerOf ops selector e) (\<lambda>(h, e1).
            andThen (blobsOf ops bs e1) (\<lambda>(blobs, e2).
              Inr (\<lparr>bl_selector = selector, bl_cut = br_position r, bl_header = h\<rparr> # blobs, e2))))"

definition winner :: "blob list \<Rightarrow> jsstr \<Rightarrow> blob option" where
  "winner blobs sl =
     fold (\<lambda>b best.
       if selectorCovers (bl_selector b) sl \<and>
          (case best of None \<Rightarrow> True | Some w \<Rightarrow> bl_cut b > bl_cut w)
       then Some b else best) blobs None"

text \<open>The parked envelopes by slice, each slice's in the order of the rows.\<close>

fun groupParked :: "edit_envelope list \<Rightarrow> (jsstr \<times> edit_envelope list) list \<Rightarrow> (jsstr \<times> edit_envelope list) list"
where
  "groupParked [] m = m"
| "groupParked (env # envs) m =
     groupParked envs
       (AList.update (ee_slice env)
         ((case map_of m (ee_slice env) of None \<Rightarrow> [] | Some l \<Rightarrow> l) @ [env]) m)"

text \<open>One envelope of a slice's run: the last seq, the run so far, and whether a gap broke it.\<close>

fun planStep ::
  "int \<Rightarrow> edit_envelope \<Rightarrow> nat option \<times> edit_envelope list \<times> bool \<Rightarrow> nat option \<times> edit_envelope list \<times> bool"
where
  "planStep cutAt env (last', run, gap) =
     (if ee_position env \<le> cutAt \<or> (case last' of None \<Rightarrow> False | Some l \<Rightarrow> ee_seq env \<le> l)
      then (last', run, gap)
      else if ee_lifecycle env \<noteq> Normal then (Some (ee_seq env), [env], False)
      else if gap \<or> (case last' of None \<Rightarrow> True | Some l \<Rightarrow> ee_seq env \<noteq> l + 1)
      then (Some (ee_seq env), [], True)
      else (Some (ee_seq env), run @ [env], gap))"

record plan =
  pl_blob :: bool
  pl_seq :: "nat option"
  pl_run :: "edit_envelope list"
  pl_gap :: bool

definition planSlice ::
  "blob list \<Rightarrow> int \<Rightarrow> (jsstr \<times> nat) list \<Rightarrow> edit_envelope list \<Rightarrow> jsstr \<Rightarrow> plan" where
  "planSlice blobs applied slices parked sl =
     (let w = winner blobs sl;
          held = map_of slices sl;
          named = (case w of None \<Rightarrow> None | Some b \<Rightarrow> map_of (bl_header b) sl);
          newer = (case (w, held) of
              (Some b, Some h) \<Rightarrow> bl_cut b \<le> applied \<or> (case named of None \<Rightarrow> False | Some n \<Rightarrow> h \<ge> n)
            | _ \<Rightarrow> False);
          blob = (w \<noteq> None \<and> \<not> newer);
          cutAt = (case w of Some b \<Rightarrow> if blob then bl_cut b else -1 | None \<Rightarrow> -1);
          seq = (if blob then named else held);
          (_, run, gap) = fold (planStep cutAt) parked (seq, [], False)
      in \<lparr>pl_blob = blob, pl_seq = seq, pl_run = run, pl_gap = gap\<rparr>)"

definition touchedSlices ::
  "blob list \<Rightarrow> (jsstr \<times> nat) list \<Rightarrow> (jsstr \<times> edit_envelope list) list \<Rightarrow> jsstr list" where
  "touchedSlices blobs slices parked =
     fold add_key (filter (\<lambda>sl. winner blobs sl \<noteq> None) (map fst slices))
       (fold add_key (concat (map (\<lambda>b. map fst (bl_header b)) blobs))
         (fold add_key (map fst parked) []))"

definition plansOf ::
  "blob list \<Rightarrow> int \<Rightarrow> (jsstr \<times> nat) list \<Rightarrow> (jsstr \<times> edit_envelope list) list \<Rightarrow> (jsstr \<Rightarrow> bool) \<Rightarrow>
   (jsstr \<times> plan) list" where
  "plansOf blobs applied slices parked inView =
     map (\<lambda>sl. (sl, planSlice blobs applied slices
                 (case map_of parked sl of None \<Rightarrow> [] | Some l \<Rightarrow> l) sl))
       (filter inView (touchedSlices blobs slices parked))"

definition brokenOf :: "(jsstr \<times> plan) list \<Rightarrow> jsstr list" where
  "brokenOf plans = map fst (filter (\<lambda>(sl, p). pl_gap p) plans)"

fun envelopesOf :: "(jsstr \<times> engine_value option) list \<Rightarrow> engine_error + edit_envelope list" where
  "envelopesOf [] = Inr []"
| "envelopesOf ((k, v) # rows) =
     (case v of
        Some (EnvelopeV env) \<Rightarrow> andThen (envelopesOf rows) (\<lambda>envs. Inr (env # envs))
      | _ \<Rightarrow> Inl (BadValue k))"

section \<open>Landing\<close>

text \<open>One slice of the plan: its run applies, and the slice is held at its last seq or forgotten.\<close>

definition landSlice :: "'t wtxn \<Rightarrow> jsstr \<times> plan \<Rightarrow> 't engine \<Rightarrow> engine_error + 't engine" where
  "landSlice ops sp e =
     (let sl = fst sp; p = snd sp in
      andThen
        (case pl_run p of
           [] \<Rightarrow> Inr e
         | first # rest \<Rightarrow>
             andThen (applyIn (wt_applyParked ops sl (ee_seq first)) e) (\<lambda>e1.
               Inr (fold (\<lambda>env. roundTrip ops (ee_id env)) (first # rest) e1)))
        (\<lambda>e2.
          let seq = (if pl_run p = [] then pl_seq p
                     else let env = last (pl_run p) in
                       if ee_lifecycle env = Death then None else Some (ee_seq env))
          in Inr (resolveSlice sl (case seq of None \<Rightarrow> forgetIn ops sl e2 | Some s \<Rightarrow> holdIn ops sl s e2))))"

definition snapshotSkip :: "blob list \<Rightarrow> (jsstr \<times> plan) list \<Rightarrow> blob \<Rightarrow> jsstr list" where
  "snapshotSkip blobs plans b =
     filter (\<lambda>sl.
         (case winner blobs sl of None \<Rightarrow> True | Some w \<Rightarrow> bl_selector w \<noteq> bl_selector b) \<or>
         (case map_of plans sl of None \<Rightarrow> True | Some p \<Rightarrow> \<not> pl_blob p))
       (map fst (bl_header b))"

definition applyPlans ::
  "'t wtxn \<Rightarrow> blob list \<Rightarrow> (jsstr \<times> plan) list \<Rightarrow> (jsstr \<Rightarrow> bool) \<Rightarrow> int \<Rightarrow> 't engine \<Rightarrow>
   engine_error + 't engine" where
  "applyPlans ops blobs plans inView cursor e =
     andThen (eachIn (\<lambda>b. applyIn (wt_applySnapshot ops (bl_selector b) (snapshotSkip blobs plans b))) blobs
       (fold (\<lambda>(sl, p) e. if pl_blob p then delPrefixDirty ops (sl @ [bang]) e else e) plans e)) (\<lambda>e1.
     andThen (eachIn (landSlice ops) plans e1) (\<lambda>e2.
       let e3 = fold (\<lambda>sl e. if \<not> inView sl then dropSliceIn ops sl e else e) (map fst (en_slices e2)) e2;
           e4 = delPrefixIn ops PARK_EDIT e3;
           e5 = fold (dropBackfillIn ops) (map fst (en_backfills e4)) e4
       in Inr (appliedTo ops cursor e5)))"

text \<open>A broken slice downloads afresh, past its break.\<close>

definition redownloadIn :: "'t wtxn \<Rightarrow> int \<Rightarrow> jsstr list \<Rightarrow> 't engine \<Rightarrow> 't engine" where
  "redownloadIn ops cursor broken e =
     fold (\<lambda>sl e. if sl \<in> fst ` set (en_backfills e) then restartIn ops sl e
                  else spawnIn ops sl (cursor + 1) e) broken e"

definition landIn :: "'t wtxn \<Rightarrow> 't engine \<Rightarrow> engine_error + 't engine" where
  "landIn ops e =
     (let cursor = cursorOf e;
          selectors = (case en_view e of None \<Rightarrow> [] | Some v \<Rightarrow> vr_selectors v);
          inView = covered selectors
      in andThen (blobsOf ops (en_backfills e) e) (\<lambda>(blobs, e1).
         andThen (rowsIn ops (lit ''park-edit'') (Some EDITS_TYPE) e1) (\<lambda>(rows, e2).
         andThen (envelopesOf rows) (\<lambda>envs.
           let parked = groupParked envs [] in
           if list_ex (\<lambda>env. ee_position env > cursor) (concat (map snd parked)) then Inr e2
           else
             let plans = plansOf blobs (en_applied e2) (en_slices e2) parked inView;
                 broken = brokenOf plans
             in if broken \<noteq> []
                then Inr (redownloadIn ops cursor broken e2)
                else applyPlans ops blobs plans inView cursor e2))))"

text \<open>The land waits for every backfill to be ready and for the cursor to reach each one's \<open>visible\<close>.\<close>

fun landWaits :: "(jsstr \<times> backfill_entry) list \<Rightarrow> int \<Rightarrow> engine_error + bool" where
  "landWaits [] cursor = Inr False"
| "landWaits ((selector, b) # bs) cursor =
     (if \<not> be_ready b then Inr True
      else (case bf_resume (be_record b) of
              None \<Rightarrow> Inl (NoResume selector)
            | Some r \<Rightarrow> if br_visible r > cursor then Inr True else landWaits bs cursor))"

definition tryLandIn :: "'t wtxn \<Rightarrow> 't engine \<Rightarrow> engine_error + 't engine" where
  "tryLandIn ops e =
     andThen (landWaits (en_backfills e) (cursorOf e)) (\<lambda>waits. if waits then Inr e else landIn ops e)"

section \<open>The edits of a frame\<close>

text \<open>The check of a frame: the edits to apply, each slice's seq after them, and those that break.\<close>

definition heldNow :: "(jsstr \<times> nat) list \<Rightarrow> (jsstr \<times> nat option) list \<Rightarrow> jsstr \<Rightarrow> nat option" where
  "heldNow slices seqs sl = (case map_of seqs sl of Some v \<Rightarrow> v | None \<Rightarrow> map_of slices sl)"

fun checkFrame ::
  "(jsstr \<times> nat) list \<Rightarrow> wire_edit list \<Rightarrow> wire_edit list \<times> (jsstr \<times> nat option) list \<times> wire_edit list \<Rightarrow>
   wire_edit list \<times> (jsstr \<times> nat option) list \<times> wire_edit list"
where
  "checkFrame slices [] acc = acc"
| "checkFrame slices (x # xs) (apply', seqs, breaks) =
     (let held = heldNow slices seqs (ee_slice x) in
      if (case held of None \<Rightarrow> False | Some h \<Rightarrow> ee_seq x \<le> h)
      then checkFrame slices xs (apply', seqs, breaks)
      else if ee_lifecycle x = Normal \<and> (case held of None \<Rightarrow> True | Some h \<Rightarrow> ee_seq x \<noteq> h + 1)
      then checkFrame slices xs (apply', seqs, breaks @ [x])
      else checkFrame slices xs
             (apply' @ [x],
              AList.update (ee_slice x) (if ee_lifecycle x = Death then None else Some (ee_seq x)) seqs,
              breaks))"

definition onEditsIn :: "'t wtxn \<Rightarrow> wire_edit list \<Rightarrow> 't engine \<Rightarrow> engine_error + 't engine" where
  "onEditsIn ops edits e =
     (if edits = [] then Inr e
      else
        let last' = ee_position (last edits);
            (apply', seqs, breaks) =
              (if en_frozen e then ([], [], []) else checkFrame (en_slices e) edits ([], [], []))
        in if en_frozen e \<or> breaks \<noteq> []
           then
             let e1 = fold (\<lambda>x e. if ee_slice x \<in> fst ` set (en_backfills e) then e
                                  else spawnIn ops (ee_slice x) (ee_position x) e) breaks e;
                 e2 = fold (\<lambda>x. putIn ops (parkedEditKey (ee_slice x) (ee_seq x)) (we_raw x)) edits e1
             in advanceCursorIn ops last' False e2
           else
             let e1 = fold (\<lambda>x e. resolveSlice (ee_slice x) (roundTrip ops (ee_id x) e)) apply' e
             in andThen (if apply' = [] then Inr e1 else applyIn (wt_applyEdits ops apply') e1) (\<lambda>e2.
                  advanceCursorIn ops last' True
                    (fold (\<lambda>(sl, s) e. case s of None \<Rightarrow> forgetIn ops sl e | Some n \<Rightarrow> holdIn ops sl n e)
                      seqs e2)))"

section \<open>Views\<close>

definition grantIn ::
  "'t wtxn \<Rightarrow> jsstr list \<Rightarrow> jsstr list \<Rightarrow> int \<Rightarrow> jsstr \<Rightarrow> 't engine \<Rightarrow> 't engine" where
  "grantIn ops old atStart position selector e =
     (if list_ex (\<lambda>b. selectorCovers b selector) (map fst (en_backfills e)) then e
      else if covered old selector \<and> \<not> list_ex (\<lambda>b. selectorCovers b selector) atStart then e
      else spawnIn ops selector (position + 1) e)"

definition onViewIn :: "'t wtxn \<Rightarrow> view_record \<Rightarrow> 't engine \<Rightarrow> engine_error + 't engine" where
  "onViewIn ops v e =
     (let old = (case en_view e of None \<Rightarrow> [] | Some o' \<Rightarrow> vr_selectors o');
          atStart = map fst (en_backfills e);
          wasFrozen = en_frozen e;
          e1 = fold (\<lambda>sel e. if \<not> covered (vr_selectors v) sel then dropBackfillIn ops sel e else e) atStart e;
          selectors = sort_key (\<lambda>sel. length (selectorPrefix sel)) (vr_selectors v);
          e2 = fold (grantIn ops old atStart (vr_position v)) selectors e1;
          e3 = (setIn ops VIEW (ViewV v) e2)\<lparr>en_view := Some v\<rparr>
      in andThen (if en_checkpoint e3 = None then advanceCursorIn ops (vr_position v) False e3 else Inr e3) (\<lambda>e4.
           if en_frozen e4 then Inr e4
           else if wasFrozen then landIn ops e4
           else Inr (fold (\<lambda>sl e. if \<not> covered (vr_selectors v) sl then dropSliceIn ops sl e else e)
                  (map fst (en_slices e4)) e4)))"

section \<open>The inbox\<close>

datatype inbound =
  OpenF jsstr int
  | ViewF view_record
  | EditsF "wire_edit list"
  | VouchF int
  | LiveF int
  | EndF "jsstr option"

definition onItemIn :: "'t wtxn \<Rightarrow> inbound \<Rightarrow> 't engine \<Rightarrow> engine_error + 't engine" where
  "onItemIn ops item e0 =
     (let e = (case item of OpenF _ _ \<Rightarrow> e0 | _ \<Rightarrow> e0\<lparr>en_confirmed := True\<rparr>) in
      case item of
        EditsF edits \<Rightarrow> onEditsIn ops edits e
      | OpenF epoch head \<Rightarrow>
          (case en_checkpoint e of
             Some c \<Rightarrow> if cr_epoch c \<noteq> epoch then Inl (EpochChanged epoch (cr_epoch c))
                       else Inr (e\<lparr>en_epoch := Some epoch, en_head := Some head\<rparr>)
           | None \<Rightarrow> Inr (e\<lparr>en_epoch := Some epoch, en_head := Some head\<rparr>))
      | ViewF v \<Rightarrow> onViewIn ops v e
      | VouchF p \<Rightarrow> onCursorIn ops p e
      | LiveF p \<Rightarrow> onCursorIn ops p e
      | EndF _ \<Rightarrow> Inr e)"

definition is_end :: "inbound \<Rightarrow> bool" where
  "is_end item = (case item of EndF _ \<Rightarrow> True | _ \<Rightarrow> False)"

definition is_live :: "inbound \<Rightarrow> bool" where
  "is_live item = (case item of LiveF _ \<Rightarrow> True | _ \<Rightarrow> False)"

text \<open>The frames up to an end, in one transaction; a \<open>live\<close> among them proves every held slice.\<close>

definition onFrames :: "'t wtxn \<Rightarrow> inbound list \<Rightarrow> 't engine \<Rightarrow> engine_error + 't engine" where
  "onFrames ops items e =
     andThen (eachIn (onItemIn ops) items e) (\<lambda>e1.
     andThen (if en_frozen e1 then tryLandIn ops e1 else Inr e1) (\<lambda>e2.
       if list_ex is_live items
       then Inr (fold resolveSlice (map fst (en_slices e2)) (e2\<lparr>en_live := True, en_attempt := 0\<rparr>))
       else Inr e2))"

end
