(* ===== verification/EngineChains.thy ===== *)
theory EngineChains
  imports EngineSync
begin

text \<open>
  Chains of edits: the run a land plans for a slice is exactly the part of its parked edits, from the
  last reset on, that chains onto the slice's base, and a gap is reported exactly when it does not;
  a frame's edits that apply chain on what each slice holds.
\<close>

section \<open>The run of a slice\<close>

text \<open>An edit chains on a seq: the next one, or a reset above it. Nothing held takes a reset alone.\<close>

definition chainsOn :: "nat option \<Rightarrow> lifecycle \<Rightarrow> nat \<Rightarrow> bool" where
  "chainsOn l life s =
     (if life = Normal then l \<noteq> None \<and> s = the l + 1
      else (case l of None \<Rightarrow> True | Some k \<Rightarrow> k < s))"

fun chains :: "nat option \<Rightarrow> edit_envelope list \<Rightarrow> bool" where
  "chains l [] = True"
| "chains l (x # xs) = (chainsOn l (ee_lifecycle x) (ee_seq x) \<and> chains (Some (ee_seq x)) xs)"

text \<open>The part of a list from its last reset on; the whole list when it holds none.\<close>

fun fromReset :: "edit_envelope list \<Rightarrow> edit_envelope list" where
  "fromReset [] = []"
| "fromReset (x # xs) =
     (if list_ex (\<lambda>y. ee_lifecycle y \<noteq> Normal) xs then fromReset xs else x # xs)"

definition above :: "nat option \<Rightarrow> nat \<Rightarrow> bool" where
  "above l s = (case l of None \<Rightarrow> True | Some k \<Rightarrow> k < s)"

lemma chains_append: "chains l (xs @ ys) \<longleftrightarrow> chains l xs \<and>
    chains (if xs = [] then l else Some (ee_seq (last xs))) ys"
  by (induction l xs rule: chains.induct) auto

lemma fromReset_snoc:
  "fromReset (xs @ [y]) = (if ee_lifecycle y \<noteq> Normal then [y] else fromReset xs @ [y])"
proof (induction xs)
  case (Cons x xs)
  then show ?case by (cases "xs = []") auto
qed simp

lemma fromReset_last: "xs \<noteq> [] \<Longrightarrow> last (fromReset xs) = last xs"
proof (induction xs)
  case (Cons x xs)
  then show ?case by (cases "xs = []") auto
qed simp

lemma fromReset_ne [simp]: "fromReset xs = [] \<longleftrightarrow> xs = []"
proof (induction xs)
  case (Cons x xs)
  then show ?case by (cases "xs = []") auto
qed simp

text \<open>The envelopes past the base, in ascending order of seq: what the walk of the parked keys gives.\<close>

definition fresh :: "int \<Rightarrow> nat option \<Rightarrow> edit_envelope list \<Rightarrow> edit_envelope list" where
  "fresh c base xs = filter (\<lambda>x. c < ee_position x \<and> above base (ee_seq x)) xs"

definition ascending_seqs :: "edit_envelope list \<Rightarrow> bool" where
  "ascending_seqs xs = sorted_wrt (\<lambda>x y. ee_seq x < ee_seq y) xs"

text \<open>What the loop holds after a list of fresh envelopes.\<close>

definition endSeq :: "nat option \<Rightarrow> edit_envelope list \<Rightarrow> nat option" where
  "endSeq base xs = (if xs = [] then base else Some (ee_seq (last xs)))"

definition planned :: "nat option \<Rightarrow> edit_envelope list \<Rightarrow> nat option \<times> edit_envelope list \<times> bool" where
  "planned base xs =
     (endSeq base xs, if chains base (fromReset xs) then fromReset xs else [],
      \<not> chains base (fromReset xs))"

lemma endSeq_snoc [simp]: "endSeq base (xs @ [y]) = Some (ee_seq y)"
  by (simp add: endSeq_def)

lemma chains_fromReset_snoc:
  assumes "above base (ee_seq y)"
  shows "chains base (fromReset (xs @ [y])) \<longleftrightarrow>
    ee_lifecycle y \<noteq> Normal \<or>
    (chains base (fromReset xs) \<and> chainsOn (endSeq base xs) Normal (ee_seq y))"
proof (cases "ee_lifecycle y = Normal")
  case False
  then show ?thesis using assms by (simp add: fromReset_snoc chainsOn_def above_def split: option.splits)
next
  case True
  then show ?thesis
    by (auto simp: fromReset_snoc chains_append fromReset_last endSeq_def)
qed

lemma planStep_skip:
  assumes "\<not> (c < ee_position env \<and> above l (ee_seq env))"
  shows "planStep c env (l, run, gap) = (l, run, gap)"
  using assms by (auto simp: above_def split: option.splits)

lemma planStep_cases:
  assumes "c < ee_position env" "above l (ee_seq env)"
  shows "planStep c env (l, run, gap) =
    (Some (ee_seq env),
     if ee_lifecycle env \<noteq> Normal then [env]
     else if gap \<or> \<not> chainsOn l Normal (ee_seq env) then [] else run @ [env],
     ee_lifecycle env = Normal \<and> (gap \<or> \<not> chainsOn l Normal (ee_seq env)))"
  using assms by (cases l) (auto simp: above_def chainsOn_def)

lemma planStep_fresh:
  assumes env: "c < ee_position env" "above base (ee_seq env)" "above (endSeq base xs) (ee_seq env)"
  shows "planStep c env (planned base xs) = planned base (xs @ [env])"
  unfolding planned_def planStep_cases [OF env(1,3)] chains_fromReset_snoc [OF env(2)]
  by (simp add: fromReset_snoc)

lemma fold_planStep:
  assumes "ascending_seqs parked"
  shows "fold (planStep c) parked (base, [], False) = planned base (fresh c base parked)"
  using assms
proof (induction parked rule: rev_induct)
  case Nil
  then show ?case by (simp add: planned_def fresh_def endSeq_def)
next
  case (snoc env parked)
  define f where "f = fresh c base parked"
  have asc: "ascending_seqs parked" "\<And>x. x \<in> set parked \<Longrightarrow> ee_seq x < ee_seq env"
    using snoc.prems by (auto simp: ascending_seqs_def sorted_wrt_append)
  have IH: "fold (planStep c) parked (base, [], False) = planned base f"
    unfolding f_def by (rule snoc.IH [OF asc(1)])
  have f: "f \<noteq> [] \<Longrightarrow> above base (ee_seq (last f)) \<and> ee_seq (last f) < ee_seq env"
    using asc(2) last_in_set [of f] by (auto simp: f_def fresh_def)
  have step: "fold (planStep c) (parked @ [env]) (base, [], False) = planStep c env (planned base f)"
    by (simp add: IH)
  show ?case
  proof (cases "c < ee_position env \<and> above base (ee_seq env)")
    case True
    then have new: "fresh c base (parked @ [env]) = f @ [env]" by (simp add: f_def fresh_def)
    have "above (endSeq base f) (ee_seq env)"
      using True f by (auto simp: endSeq_def above_def)
    then show ?thesis unfolding step new using planStep_fresh True by blast
  next
    case False
    then have same: "fresh c base (parked @ [env]) = f" by (simp add: f_def fresh_def)
    have "\<not> (c < ee_position env \<and> above (endSeq base f) (ee_seq env))"
    proof (cases "f = []")
      case True
      then show ?thesis using False by (simp add: endSeq_def)
    next
      case ne: False
      then have "above base (ee_seq env)"
        using f by (auto simp: above_def split: option.splits)
      then show ?thesis using False by blast
    qed
    then show ?thesis unfolding step same planned_def by (rule planStep_skip)
  qed
qed

text \<open>
  The plan of a slice: its run is what its fresh parked edits hold from their last reset on when that
  chains onto the base, and a gap is what keeps it from chaining.
\<close>

definition planCut :: "blob list \<Rightarrow> plan \<Rightarrow> jsstr \<Rightarrow> int" where
  "planCut blobs p sl = (case winner blobs sl of Some b \<Rightarrow> if pl_blob p then bl_cut b else -1 | None \<Rightarrow> -1)"

lemma planSlice_run:
  assumes asc: "ascending_seqs parked" and p: "p = planSlice blobs applied slices parked sl"
    and f: "f = fresh (planCut blobs p sl) (pl_seq p) parked"
  shows "pl_gap p \<longleftrightarrow> \<not> chains (pl_seq p) (fromReset f)"
    "\<not> pl_gap p \<Longrightarrow> pl_run p = fromReset f"
proof -
  obtain run gap l where r: "fold (planStep (planCut blobs p sl)) parked (pl_seq p, [], False) = (l, run, gap)"
    using prod_cases3 by blast
  have "pl_run p = run \<and> pl_gap p = gap"
    using r unfolding planCut_def p planSlice_def Let_def
    by (auto simp: case_prod_beta split: option.splits)
  then show "pl_gap p \<longleftrightarrow> \<not> chains (pl_seq p) (fromReset f)"
    "\<not> pl_gap p \<Longrightarrow> pl_run p = fromReset f"
    using fold_planStep [OF asc, of "planCut blobs p sl" "pl_seq p"] r
    by (auto simp: planned_def f)
qed

section \<open>Which blob wins\<close>

text \<open>The winner covers the slice, its cut is the newest, and it is the first of those cut there.\<close>

lemma winner_spec:
  "case winner blobs sl of
     None \<Rightarrow> \<forall>b \<in> set blobs. \<not> selectorCovers (bl_selector b) sl
   | Some w \<Rightarrow> w \<in> set blobs \<and> selectorCovers (bl_selector w) sl \<and>
       (\<forall>b \<in> set blobs. selectorCovers (bl_selector b) sl \<longrightarrow> bl_cut b \<le> bl_cut w)"
proof (induction blobs rule: rev_induct)
  case (snoc b bs)
  have step: "winner (bs @ [b]) sl =
    (if selectorCovers (bl_selector b) sl \<and>
        (case winner bs sl of None \<Rightarrow> True | Some w \<Rightarrow> bl_cut b > bl_cut w)
     then Some b else winner bs sl)"
    by (simp add: winner_def)
  show ?case
  proof (cases "winner bs sl")
    case None
    then show ?thesis using snoc.IH step by auto
  next
    case (Some w)
    then show ?thesis using snoc.IH step by (auto simp: not_less)
  qed
qed (simp add: winner_def)

section \<open>The edits of a frame\<close>

text \<open>What a slice holds after an edit of it, and a frame's edits of one slice chaining on it.\<close>

definition seqAfter :: "wire_edit \<Rightarrow> nat option" where
  "seqAfter x = (if ee_lifecycle x = Death then None else Some (ee_seq x))"

fun frameChains :: "(jsstr \<Rightarrow> nat option) \<Rightarrow> wire_edit list \<Rightarrow> bool" where
  "frameChains held [] = True"
| "frameChains held (x # xs) =
     (chainsOn (held (ee_slice x)) (ee_lifecycle x) (ee_seq x) \<and>
      frameChains (held(ee_slice x := seqAfter x)) xs)"

definition holdAfter :: "(jsstr \<Rightarrow> nat option) \<Rightarrow> wire_edit list \<Rightarrow> jsstr \<Rightarrow> nat option" where
  "holdAfter held xs = fold (\<lambda>x h. h(ee_slice x := seqAfter x)) xs held"

lemma frameChains_snoc: "frameChains held (xs @ [y]) \<longleftrightarrow>
    frameChains held xs \<and> chainsOn (holdAfter held xs (ee_slice y)) (ee_lifecycle y) (ee_seq y)"
  by (induction xs arbitrary: held) (auto simp: holdAfter_def)

lemma holdAfter_snoc: "holdAfter held (xs @ [y]) = (holdAfter held xs)(ee_slice y := seqAfter y)"
  by (simp add: holdAfter_def)

lemma heldNow_update: "heldNow slices (AList.update k v seqs) = (heldNow slices seqs)(k := v)"
  by (rule ext) (simp add: heldNow_def update_conv')

text \<open>
  The check of a frame: what applies chains, the seqs are what the slices hold after it, and every
  edit of the frame applies, breaks, or is one the slice holds already.
\<close>

lemma checkFrame_chains:
  assumes "checkFrame slices xs (ap, seqs, br) = (ap', seqs', br')"
    and "frameChains (map_of slices) ap" "heldNow slices seqs = holdAfter (map_of slices) ap"
  shows "frameChains (map_of slices) ap' \<and> heldNow slices seqs' = holdAfter (map_of slices) ap' \<and>
    set ap' \<subseteq> set ap \<union> set xs \<and> set ap \<subseteq> set ap' \<and> set br \<subseteq> set br' \<and> set br' \<subseteq> set br \<union> set xs"
  using assms
proof (induction slices xs "(ap, seqs, br)" arbitrary: ap seqs br rule: checkFrame.induct)
  case (1 slices ap seqs br)
  then show ?case by simp
next
  case (2 slices x xs ap seqs br)
  define held where "held = heldNow slices seqs (ee_slice x)"
  consider (old) "case held of None \<Rightarrow> False | Some h \<Rightarrow> ee_seq x \<le> h"
    | (breaks) "\<not> (case held of None \<Rightarrow> False | Some h \<Rightarrow> ee_seq x \<le> h)" "ee_lifecycle x = Normal"
        "case held of None \<Rightarrow> True | Some h \<Rightarrow> ee_seq x \<noteq> h + 1"
    | (takes) "\<not> (case held of None \<Rightarrow> False | Some h \<Rightarrow> ee_seq x \<le> h)"
        "\<not> (ee_lifecycle x = Normal \<and> (case held of None \<Rightarrow> True | Some h \<Rightarrow> ee_seq x \<noteq> h + 1))" by blast
  then show ?case
  proof cases
    case old
    then have "checkFrame slices xs (ap, seqs, br) = (ap', seqs', br')"
      using "2.prems"(1) by (simp add: held_def Let_def)
    from "2.hyps"(1) [OF held_def _ this "2.prems"(2,3)] old show ?thesis by auto
  next
    case breaks
    then have "checkFrame slices xs (ap, seqs, br @ [x]) = (ap', seqs', br')"
      using "2.prems"(1) by (simp add: held_def Let_def)
    from "2.hyps"(2) [OF held_def _ _ this "2.prems"(2,3)] breaks show ?thesis by auto
  next
    case takes
    have run: "checkFrame slices xs (ap @ [x], AList.update (ee_slice x) (seqAfter x) seqs, br) = (ap', seqs', br')"
      using "2.prems"(1) unfolding checkFrame.simps(2) Let_def held_def [symmetric] if_not_P [OF takes(1)] if_not_P [OF takes(2)]
        seqAfter_def .
    have on: "chainsOn held (ee_lifecycle x) (ee_seq x)"
      using takes by (auto simp: chainsOn_def split: option.splits)
    have c: "frameChains (map_of slices) (ap @ [x])"
      using "2.prems"(2,3) on by (simp add: frameChains_snoc held_def)
    have h: "heldNow slices (AList.update (ee_slice x) (seqAfter x) seqs) = holdAfter (map_of slices) (ap @ [x])"
      using "2.prems"(3) by (simp add: heldNow_update holdAfter_snoc)
    have "frameChains (map_of slices) ap' \<and> heldNow slices seqs' = holdAfter (map_of slices) ap' \<and>
        set ap' \<subseteq> set (ap @ [x]) \<union> set xs \<and> set (ap @ [x]) \<subseteq> set ap' \<and> set br \<subseteq> set br' \<and> set br' \<subseteq> set br \<union> set xs"
      by (rule "2.hyps"(3) [OF held_def]) (use takes run c h in \<open>auto simp: seqAfter_def\<close>)
    then show ?thesis by auto
  qed
qed

end
