(* ===== verification/EngineStatus.thy ===== *)
theory EngineStatus
  imports EngineSync
begin

text \<open>
  The status the Engine publishes (typespec/ts/assets/skeleton.ts): the connection's state, the
  progress of the work in flight with its estimate, and the outbox. JS numbers that are shares or
  times are reals here, exact where JS rounds.
\<close>

section \<open>Backfills\<close>

text \<open>\<open>new Date(ms)\<close> keeps the whole milliseconds.\<close>

definition backfillStatus :: "jsstr \<Rightarrow> backfill_entry \<Rightarrow> backfill_status" where
  "backfillStatus selector b =
     (let r = bf_resume (be_record b) in
      \<lparr>bs_selector = selector,
       bs_bytes = (case r of None \<Rightarrow> 0 | Some x \<Rightarrow> br_skipBytes x),
       bs_length = be_length b,
       bs_snapshotDone = (case r of None \<Rightarrow> False | Some x \<Rightarrow> br_snapshotDone x),
       bs_tail = (case r of None \<Rightarrow> None
         | Some x \<Rightarrow> Some (br_position x, max (br_fromPosition x) (be_scanned b),
                          bf_until (be_record b), br_tailDone x)),
       bs_retryAt = map_option floor (be_retryAt b)\<rparr>)"

definition tailShare :: "backfill_status \<Rightarrow> real" where
  "tailShare b =
     (case bs_tail b of
        None \<Rightarrow> 0
      | Some (cut', scanned, until, done') \<Rightarrow>
          if done' \<or> until \<le> cut' then 1
          else min 1 (max 0 (real_of_int (scanned - cut') / real_of_int (until - cut'))))"

definition downloadCurve :: "nat \<Rightarrow> real" where
  "downloadCurve n = 1 - (1 + real n / 1000000) powr (- log 10 2)"

section \<open>The connection\<close>

definition connectionStatus :: "'t engine \<Rightarrow> connection_status" where
  "connectionStatus e =
     (let state =
        (if \<not> en_connected e then (if en_connectNow e then ConnectingC else OfflineC)
         else if en_epoch e = None then (if en_asked e \<or> en_connectNow e then ConnectingC else OfflineC)
         else if en_live e \<and> \<not> en_frozen e then LiveC else SyncingC)
      in \<lparr>cs_state = state,
          cs_nextAttemptAt = (if state = OfflineC then map_option floor (en_nextAttemptAt e) else None),
          cs_hasBase = (en_applied e \<ge> 0),
          cs_frozen = en_frozen e\<rparr>)"

section \<open>The estimate\<close>

definition episodeDone :: "'t engine \<Rightarrow> episode \<Rightarrow> bool" where
  "episodeDone e ep =
     (case ep_kind ep of
        Boot \<Rightarrow> en_applied e \<ge> 0
      | Resync \<Rightarrow> en_live e \<and> en_backfills e = []
      | Downloads \<Rightarrow> en_backfills e = [])"

definition startEpisode :: "'t engine \<Rightarrow> episode option" where
  "startEpisode e =
     (let kind = (if en_applied e < 0 then Some Boot
                  else if en_connected e \<and> \<not> en_live e then Some Resync
                  else if en_backfills e \<noteq> [] then Some Downloads
                  else None)
      in case kind of
           None \<Rightarrow> None
         | Some k \<Rightarrow> Some \<lparr>ep_kind = k, ep_shown = 0, ep_backfills = [], ep_since = cursorOf e,
             ep_held = (if k = Resync then map fst (en_slices e) else []),
             ep_resolved = [], ep_confirmed = False\<rparr>)"

definition downloadShare :: "'t engine \<Rightarrow> episode \<Rightarrow> jsstr list \<Rightarrow> real" where
  "downloadShare e ep inFlight =
     (if ep_kind ep = Boot \<and> en_view e = None then 0
      else
        let landed = (if ep_kind ep = Boot then en_applied e \<ge> 0 else inFlight = []);
            all = map snd (ep_backfills ep)
        in if all = [] then 0.9 + (if landed then 0.1 else 0)
           else
             let going = (\<lambda>b. bs_selector b \<in> set inFlight);
                 sized = filter (\<lambda>b. \<not> going b \<or> bs_length b \<noteq> None \<or> bs_tail b \<noteq> None) all;
                 sizeOf = (\<lambda>b. case bs_length b of None \<Rightarrow> bs_bytes b | Some n \<Rightarrow> n);
                 total = sum_list (map sizeOf all);
                 got = sum_list (map (\<lambda>b. if going b \<and> \<not> bs_snapshotDone b then bs_bytes b else sizeOf b) all);
                 snapshots =
                   (if list_all (\<lambda>b. \<not> going b \<or> bs_length b \<noteq> None) all
                    then (if total = 0 then 1 else real got / real total)
                    else downloadCurve (sum_list (map bs_bytes all)));
                 tails = sum_list (map (\<lambda>b. if going b then tailShare b else 1) all) / real (length all);
                 download = (snapshots + tails) / 2
             in 0.05 * (real (length sized) / real (length all)) + 0.85 * download
                + 0.1 * (if landed then 1 else 0))"

definition resyncShare :: "'t engine \<Rightarrow> episode \<Rightarrow> jsstr list \<Rightarrow> real" where
  "resyncShare e ep inFlight =
     (let resolved = (if ep_held ep = [] then 1
                      else real (length (ep_resolved ep)) / real (length (ep_held ep)));
          downloaded = (if inFlight \<noteq> []
                        then downloadCurve (sum_list (map (bs_bytes \<circ> snd) (ep_backfills ep))) else 1);
          committed = cursorOf e;
          replay =
            (if en_live e then 1
             else case en_head e of
                 None \<Rightarrow> 0
               | Some h \<Rightarrow> let head = max h committed in
                   if head \<le> ep_since ep then 1
                   else real_of_int (committed - ep_since ep) / real_of_int (head - ep_since ep));
          backfill = (resolved + downloaded) / 2
      in 0.05 * (if ep_confirmed ep then 1 else 0) + 0.2 * backfill + 0.75 * replay)"

definition estimate :: "backfill_status list \<Rightarrow> 't engine \<Rightarrow> real option \<times> 't engine" where
  "estimate backfills e =
     (let current = (case en_episode e of
            None \<Rightarrow> startEpisode e
          | Some ep \<Rightarrow> if episodeDone e ep then startEpisode e else Some ep)
      in case current of
           None \<Rightarrow> (None, e\<lparr>en_episode := None\<rparr>)
         | Some ep \<Rightarrow>
             let ep1 = ep\<lparr>ep_backfills :=
                            fold (\<lambda>b m. AList.update (bs_selector b) b m) backfills (ep_backfills ep),
                          ep_confirmed := ep_confirmed ep \<or> en_confirmed e\<rparr>;
                 inFlight = map bs_selector backfills;
                 share = (if ep_kind ep1 = Resync then resyncShare e ep1 inFlight
                          else downloadShare e ep1 inFlight);
                 shown = max (ep_shown ep1) (min 1 (max 0 share))
             in (Some shown, e\<lparr>en_episode := Some (ep1\<lparr>ep_shown := shown\<rparr>)\<rparr>))"

definition progressStatus :: "'t engine \<Rightarrow> progress_status \<times> 't engine" where
  "progressStatus e =
     (let backfills = map (\<lambda>(selector, b). backfillStatus selector b) (en_backfills e);
          log' = \<lparr>sl_since = en_since e, sl_head = en_head e, sl_committed = cursorOf e,
                  sl_applied = en_applied e\<rparr>;
          (est, e1) = estimate backfills e
      in (\<lparr>ps_estimate = est, ps_log = log', ps_backfills = backfills\<rparr>, e1))"

section \<open>Publishing\<close>

definition STATUS_CONNECTION :: jsstr where "STATUS_CONNECTION = lit ''!status:connection''"
definition STATUS_PROGRESS :: jsstr where "STATUS_PROGRESS = lit ''!status:progress''"
definition STATUS_OUTBOX :: jsstr where "STATUS_OUTBOX = lit ''!status:outbox''"

text \<open>The JSON of a part changes exactly when its value does.\<close>

definition publish :: "'t engine \<Rightarrow> jsstr list \<times> 't engine" where
  "publish e =
     (let (progress, e1) = progressStatus e;
          parts = [(STATUS_CONNECTION, ConnectionS (connectionStatus e)),
                   (STATUS_PROGRESS, ProgressS progress),
                   (STATUS_OUTBOX, OutboxS (int (length (en_outbox e)) - int (length (en_acked e))))];
          changed = filter (\<lambda>(k, v). map_of (en_status e1) k \<noteq> Some v) parts
      in (map fst changed,
          e1\<lparr>en_status := fold (\<lambda>(k, v). AList.update k v) changed (en_status e1)\<rparr>))"

text \<open>An acked @online mutation has made its round trip once the base shows it.\<close>

fun settleLoop :: "(jsstr \<times> online_mutation) list \<Rightarrow> 't engine \<Rightarrow> 't engine" where
  "settleLoop [] e = e"
| "settleLoop ((i, o') # rest) e =
     (case om_ack o' of
        None \<Rightarrow> settleLoop rest e
      | Some p \<Rightarrow>
          if \<not> om_seen o' \<and> p > en_applied e then settleLoop rest e
          else settleLoop rest (emit (SettleOnline i (OkAt p)) (e\<lparr>en_online := AList.delete i (en_online e)\<rparr>)))"

definition settleOnline :: "'t engine \<Rightarrow> 't engine" where
  "settleOnline e = (if en_applied e < 0 \<or> en_frozen e then e else settleLoop (en_online e) e)"

text \<open>
  After a commit: the status, the graph's dirty keys, the overlay or the graph alone, and what
  settles. The rebuild and the run are the overlay's and the graph's work, which Predict and QueryGraph
  model; what the subscribers that they notify ask of the Engine is taken by the turn (\<open>turnOf\<close> of Advancer).
\<close>

definition refresh :: "bool \<Rightarrow> 't engine \<Rightarrow> 't engine" where
  "refresh always e =
     (let dirty = en_dirty e;
          (status, e1) = publish e;
          e2 = emit (GraphDirty status) (emit (GraphDirty dirty) e1);
          outbox = en_outboxChanged e2;
          e3 = e2\<lparr>en_outboxChanged := False, en_dirty := []\<rparr>;
          e4 = (if always \<or> outbox \<or> dirty \<noteq> []
                then (emit RebuildOverlay e3)\<lparr>en_newQueries := False\<rparr>
                else if status \<noteq> [] \<or> en_newQueries e3
                then (emit RunGraph e3)\<lparr>en_newQueries := False\<rparr>
                else e3)
      in settleOnline e4)"

end
