(* ===== verification/EngineWork.thy ===== *)
theory EngineWork
  imports EngineStatus
begin

text \<open>
  The Engine's passes (typespec/ts/assets/skeleton.ts, \<open>Engine\<close>): the app's submissions, the
  answers to them, the pushes and outcomes of backfill calls, the connection's start and end, and
  the load and purge of the first run. The clock, the random draw, the identifiers and the
  conversion of a mutation to its wire bytes are parameters.
\<close>

section \<open>Pushes of a backfill\<close>

datatype backfill_item =
  LengthI nat
  | HeaderI int "(jsstr \<times> nat) list" int
  | PageI bytes nat jsstr
  | PagesDoneI
  | EditsI "wire_edit list" int
  | EditsDoneI
  | OtherI

definition onResume ::
  "jsstr \<Rightarrow> (backfill_resume \<Rightarrow> backfill_resume) \<Rightarrow> backfill_record \<Rightarrow> engine_error + backfill_record" where
  "onResume selector f r =
     (case bf_resume r of None \<Rightarrow> Inl (NoResume selector) | Some x \<Rightarrow> Inr (r\<lparr>bf_resume := Some (f x)\<rparr>))"

text \<open>The record after a push, with what it wrote to the store beside the record.\<close>

definition takeItem ::
  "'t wtxn \<Rightarrow> jsstr \<Rightarrow> backfill_item \<Rightarrow> backfill_record \<Rightarrow> 't engine \<Rightarrow>
   engine_error + (backfill_record \<times> 't engine)" where
  "takeItem ops selector item r e =
     (case item of
        LengthI n \<Rightarrow> Inr (r, e)
      | HeaderI position seqs visible \<Rightarrow>
          let from = (case bf_resume r of None \<Rightarrow> position | Some x \<Rightarrow> max (br_fromPosition x) position)
          in Inr (r\<lparr>bf_resume := Some \<lparr>br_position = position, br_visible = visible, br_skipBytes = 0,
                     br_checksum = [], br_fromPosition = from, br_snapshotDone = False,
                     br_tailDone = False\<rparr>\<rparr>,
                  setIn ops (BACKFILL_SEQS @ selector) (SeqsV seqs) e)
      | PageI page skip checksum \<Rightarrow>
          (case bf_resume r of
             None \<Rightarrow> Inl (NoResume selector)
           | Some x \<Rightarrow> Inr (r\<lparr>bf_resume := Some (x\<lparr>br_skipBytes := skip, br_checksum := checksum\<rparr>)\<rparr>,
                          putIn ops (parkedPageKey selector (br_skipBytes x)) page e))
      | PagesDoneI \<Rightarrow> andThen (onResume selector (\<lambda>x. x\<lparr>br_snapshotDone := True\<rparr>) r) (\<lambda>r1. Inr (r1, e))
      | EditsI edits scanned \<Rightarrow>
          andThen (onResume selector
              (\<lambda>x. x\<lparr>br_fromPosition := fold max (map ee_position edits) (br_fromPosition x)\<rparr>) r) (\<lambda>r1.
            Inr (r1, fold (\<lambda>x. putIn ops (parkedEditKey (ee_slice x) (ee_seq x)) (we_raw x)) edits e))
      | EditsDoneI \<Rightarrow> andThen (onResume selector (\<lambda>x. x\<lparr>br_tailDone := True\<rparr>) r) (\<lambda>r1. Inr (r1, e))
      | OtherI \<Rightarrow> Inl (BadValue selector))"

definition parkPushIn ::
  "'t wtxn \<Rightarrow> jsstr \<Rightarrow> backfill_item \<Rightarrow> 't engine \<Rightarrow> engine_error + 't engine" where
  "parkPushIn ops selector item e =
     (case map_of (en_backfills e) selector of
        None \<Rightarrow> Inl (BadValue selector)
      | Some b \<Rightarrow>
          (case item of
             LengthI n \<Rightarrow> Inr (onEntry selector (\<lambda>b. b\<lparr>be_length := Some n\<rparr>) e)
           | _ \<Rightarrow>
               andThen (takeItem ops selector item (be_record b) e) (\<lambda>(r, e1).
                 case bf_resume r of
                   None \<Rightarrow> Inl (NoResume selector)
                 | Some x \<Rightarrow>
                     let ready = (be_ready b \<or> (br_snapshotDone x \<and> br_tailDone x));
                         scanned = (case item of EditsI _ s \<Rightarrow> max (be_scanned b) s | _ \<Rightarrow> be_scanned b)
                     in Inr (setIn ops (BACKFILL @ selector) (BackfillV r)
                          (onEntry selector
                            (\<lambda>b. b\<lparr>be_record := r, be_ready := ready, be_scanned := scanned\<rparr>) e1)))))"

text \<open>A push names the entry and the connection it belongs to, and the promise it settles.\<close>

record backfill_work =
  bw_selector :: jsstr
  bw_entry :: nat
  bw_conn :: nat
  bw_item :: backfill_item
  bw_promise :: nat

definition current :: "'t engine \<Rightarrow> jsstr \<Rightarrow> nat \<Rightarrow> bool" where
  "current e selector i =
     (case map_of (en_backfills e) selector of None \<Rightarrow> False | Some b \<Rightarrow> be_id b = i)"

definition onBackfillWork :: "'t wtxn \<Rightarrow> backfill_work list \<Rightarrow> 't engine \<Rightarrow> engine_error + 't engine" where
  "onBackfillWork ops works e =
     (let kept = (\<lambda>w. current e (bw_selector w) (bw_entry w) \<and> bw_conn w = en_conn e);
          pushes = filter kept works;
          e1 = fold (\<lambda>w. emit (RejectPush (bw_promise w))) (filter (Not \<circ> kept) works) e
      in if pushes = [] then Inr e1
         else andThen (eachIn (\<lambda>w. parkPushIn ops (bw_selector w) (bw_item w)) pushes e1) (\<lambda>e2.
              andThen (tryLandIn ops e2) (\<lambda>e3.
                Inr (refresh False (fold (\<lambda>w. emit (ResolvePush (bw_promise w))) pushes e3)))))"

section \<open>Outcomes of backfill calls\<close>

definition backoffDelay :: "real \<Rightarrow> nat \<Rightarrow> real" where
  "backoffDelay random attempt =
     (let base = min 30000 (500 * 2 ^ min attempt 10) in base / 2 + random * (base / 2))"

datatype backfill_outcome = DoneO | StaleO | FailedO

text \<open>An outcome, with the clock and the random draw of its turn.\<close>

record outcome_work =
  ow_selector :: jsstr
  ow_entry :: nat
  ow_conn :: nat
  ow_outcome :: backfill_outcome
  ow_now :: real
  ow_random :: real

definition onBackfillOutcome :: "'t wtxn \<Rightarrow> outcome_work \<Rightarrow> 't engine \<Rightarrow> 't engine" where
  "onBackfillOutcome ops w e =
     (let selector = ow_selector w in
      if ow_conn w \<noteq> en_conn e then e
      else case map_of (en_backfills e) selector of
        None \<Rightarrow> e
      | Some b \<Rightarrow>
          if be_id b \<noteq> ow_entry w then e
          else case ow_outcome w of
            DoneO \<Rightarrow> onEntry selector (\<lambda>b. b\<lparr>be_attempts := 0\<rparr>) e
          | StaleO \<Rightarrow>
              let e1 = delPrefixIn ops (PARK_SNAP @ selector @ [bang]) e;
                  r = (be_record b)\<lparr>bf_resume := map_option
                         (\<lambda>x. x\<lparr>br_skipBytes := 0, br_checksum := [], br_snapshotDone := False,
                                br_tailDone := False\<rparr>) (bf_resume (be_record b))\<rparr>;
                  e2 = onEntry selector (\<lambda>b. b\<lparr>be_record := r, be_attempts := 0\<rparr>) e1
              in startBackfill selector (setIn ops (BACKFILL @ selector) (BackfillV r) e2)
          | FailedO \<Rightarrow>
              if AbortBackfill (be_id b) \<in> set (en_out e) \<or> be_ready b then e
              else onEntry selector
                     (\<lambda>b. b\<lparr>be_retryAt := Some (ow_now w + backoffDelay (ow_random w) (be_attempts b)),
                            be_attempts := be_attempts b + 1\<rparr>) e)"

definition onBackfillOutcomes :: "'t wtxn \<Rightarrow> outcome_work list \<Rightarrow> 't engine \<Rightarrow> 't engine" where
  "onBackfillOutcomes ops ws e = fold (onBackfillOutcome ops) ws e"

text \<open>The timer of a failed download fires.\<close>

definition onRetryTimer :: "jsstr \<Rightarrow> nat \<Rightarrow> 't engine \<Rightarrow> 't engine" where
  "onRetryTimer selector i e =
     (if current e selector i
      then startBackfill selector (onEntry selector (\<lambda>b. b\<lparr>be_retryAt := None\<rparr>) e)
      else e)"

definition startCalls :: "'t engine \<Rightarrow> 't engine" where
  "startCalls e =
     fold (\<lambda>(selector, i) e.
         if \<not> en_connected e \<or> \<not> current e selector i then e else emit (StartBackfillCall selector i) e)
       (en_starts e) (e\<lparr>en_starts := []\<rparr>)"

section \<open>The app's mutations\<close>

datatype 'm submission = OutboxM 'm | OnlineM 'm

record call =
  ca_wire :: "mutation list"
  ca_online :: bool

text \<open>The last call takes one more outbox mutation.\<close>

definition joinLast :: "mutation \<Rightarrow> call list \<Rightarrow> call list" where
  "joinLast m calls = butlast calls @ [(last calls)\<lparr>ca_wire := ca_wire (last calls) @ [m]\<rparr>]"

fun resendRows ::
  "'t wtxn \<Rightarrow> nat list \<Rightarrow> 't engine \<Rightarrow> engine_error + (mutation list \<times> 't engine)" where
  "resendRows ops [] e = Inr ([], e)"
| "resendRows ops (o' # os) e =
     andThen (getIn ops (mutationKey o') MUTATION_TYPE e) (\<lambda>(v, e1).
       case v of
         Some (MutationV m) \<Rightarrow>
           andThen (resendRows ops os e1) (\<lambda>(ms, e2). Inr (m # ms, e2))
       | _ \<Rightarrow> Inl (BadValue (mutationKey o')))"

definition pendingOrdinals :: "'t engine \<Rightarrow> nat list" where
  "pendingOrdinals e =
     map snd (sort_key snd (filter (\<lambda>(i, _). i \<notin> set (en_sent e) \<and> i \<notin> fst ` set (en_acked e)) (en_outbox e)))"

text \<open>A mutation takes its identifier and the next number of the series.\<close>

definition mint :: "(nat \<Rightarrow> jsstr) \<Rightarrow> bytes \<Rightarrow> 't engine \<Rightarrow> mutation" where
  "mint uuid data e =
     \<lparr>mu_id = uuid (en_nextN e), mu_series = Some (en_series e), mu_n = Some (en_nextN e), mu_data = data\<rparr>"

fun takeSubmitted ::
  "'t wtxn \<Rightarrow> ('m \<Rightarrow> jsstr + bytes) \<Rightarrow> (nat \<Rightarrow> jsstr) \<Rightarrow> 'm submission list \<Rightarrow> call list \<times> 't engine \<Rightarrow>
   engine_error + (call list \<times> 't engine)" where
  "takeSubmitted ops convert uuid [] ce = Inr ce"
| "takeSubmitted ops convert uuid (s # ss) (calls, e) =
     (case s of
        OnlineM m \<Rightarrow>
          (case convert m of
             Inl err \<Rightarrow> Inl (EncodeFailed err)
           | Inr data \<Rightarrow>
               takeSubmitted ops convert uuid ss
                 (calls @ [\<lparr>ca_wire = [mint uuid data e], ca_online = True\<rparr>, \<lparr>ca_wire = [], ca_online = False\<rparr>],
                  e\<lparr>en_nextN := en_nextN e + 1\<rparr>))
      | OutboxM m \<Rightarrow>
          (case convert m of
             Inl err \<Rightarrow> Inl (EncodeFailed err)
           | Inr data \<Rightarrow>
               let mu = mint uuid data e; ordinal = en_nextOrdinal e in
               takeSubmitted ops convert uuid ss
                 (joinLast mu calls,
                  (setIn ops (mutationKey ordinal) (MutationV mu)
                    (e\<lparr>en_nextN := en_nextN e + 1, en_nextOrdinal := ordinal + 1,
                       en_outbox := AList.update (mu_id mu) ordinal (en_outbox e),
                       en_outboxChanged := True\<rparr>)))))"

definition sendCall :: "call \<Rightarrow> 't engine \<Rightarrow> 't engine" where
  "sendCall c e =
     (if ca_wire c = [] then e
      else
        let ids = map mu_id (ca_wire c);
            e1 = (if ca_online c
                  then e\<lparr>en_online := AList.update (hd ids) \<lparr>om_ack = None, om_seen = False\<rparr> (en_online e)\<rparr>
                  else e\<lparr>en_sent := fold add_key ids (en_sent e)\<rparr>)
        in emit (SendMutations ids) e1)"

definition rejectCall :: "call \<Rightarrow> 't engine \<Rightarrow> 't engine" where
  "rejectCall c e = (if ca_online c then emit (RejectOnline (mu_id (hd (ca_wire c)))) e else e)"

definition onSubmitted ::
  "'t wtxn \<Rightarrow> ('m \<Rightarrow> jsstr + bytes) \<Rightarrow> (nat \<Rightarrow> jsstr) \<Rightarrow> 'm submission list \<Rightarrow> 't engine \<Rightarrow> engine_error + 't engine"
where
  "onSubmitted ops convert uuid submitted e0 =
     (let resend = (en_resend e0 \<and> en_connected e0); e = e0\<lparr>en_resend := False\<rparr> in
      andThen (if resend then resendRows ops (pendingOrdinals e) e else Inr ([], e)) (\<lambda>(rows, e1).
      andThen (takeSubmitted ops convert uuid submitted ([\<lparr>ca_wire = rows, ca_online = False\<rparr>], e1))
        (\<lambda>(calls, e2).
          let e3 = refresh False e2 in
          Inr (if en_connected e3 then fold sendCall calls e3 else fold rejectCall calls e3))))"

section \<open>The answers to mutations\<close>

record mutation_outcome =
  mo_ids :: "jsstr list"
  mo_results :: "mutation_result list option"
  mo_conn :: nat

text \<open>A call that failed: its @online mutations reject, and its connection ends.\<close>

definition rejectFailed :: "jsstr \<Rightarrow> 't engine \<Rightarrow> 't engine" where
  "rejectFailed i e =
     (if i \<in> fst ` set (en_online e)
      then emit (RejectOnline i) (e\<lparr>en_online := AList.delete i (en_online e)\<rparr>)
      else e)"

definition takeAnswer ::
  "jsstr \<times> mutation_result \<Rightarrow> jsstr list \<times> 't engine \<Rightarrow> jsstr list \<times> 't engine" where
  "takeAnswer ir de =
     (let (i, r) = ir; (drop', e) = de in
      case map_of (en_online e) i of
        Some o' \<Rightarrow>
          (case r of
             OkAt p \<Rightarrow> (drop', e\<lparr>en_online := AList.update i (o'\<lparr>om_ack := Some p\<rparr>) (en_online e)\<rparr>)
           | _ \<Rightarrow> (drop', emit (SettleOnline i r) (e\<lparr>en_online := AList.delete i (en_online e)\<rparr>)))
      | None \<Rightarrow>
          if i \<notin> fst ` set (en_outbox e) then (drop', e)
          else case r of
            OkAt p \<Rightarrow>
              let position = min p (case map_of (en_acked e) i of None \<Rightarrow> p | Some q \<Rightarrow> q)
              in (if position \<le> en_applied e then drop' @ [i] else drop',
                  e\<lparr>en_acked := AList.update i position (en_acked e)\<rparr>)
          | _ \<Rightarrow> (drop' @ [i], e))"

definition takeOutcome :: "mutation_outcome \<Rightarrow> jsstr list \<times> 't engine \<Rightarrow> jsstr list \<times> 't engine" where
  "takeOutcome oc de =
     (case mo_results oc of
        None \<Rightarrow>
          (let e1 = fold rejectFailed (mo_ids oc) (snd de)
           in (fst de, if mo_conn oc = en_conn e1 then emit (AbortConnection (mo_conn oc)) e1 else e1))
      | Some rs \<Rightarrow> fold takeAnswer (zip (mo_ids oc) rs) de)"

definition onMutationOutcomes :: "'t wtxn \<Rightarrow> mutation_outcome list \<Rightarrow> 't engine \<Rightarrow> 't engine" where
  "onMutationOutcomes ops outcomes e =
     (let (drop', e1) = fold takeOutcome outcomes ([], e) in refresh False (releaseIn ops drop' e1))"

section \<open>Connections\<close>

definition onConnect :: "'t engine \<Rightarrow> 't engine" where
  "onConnect e =
     (let e1 = e\<lparr>en_asked := en_connectNow e, en_connectNow := False, en_nextAttemptAt := None,
                en_retrying := False, en_since := cursorOf e, en_confirmed := False, en_connected := True\<rparr>;
          e2 = emit (OpenConnection (en_since e1) (map_option vr_token (en_view e1)) (en_wants e1)) e1;
          waiting = filter (\<lambda>(_, b). \<not> be_ready b \<and> be_retryAt b = None) (en_backfills e2)
      in (fold (startBackfill \<circ> fst) waiting e2)\<lparr>en_resend := True\<rparr>)"

definition onEnd :: "real \<Rightarrow> real \<Rightarrow> 't engine \<Rightarrow> 't engine" where
  "onEnd now random e =
     (emit (AbortConnection (en_conn e)) e)
       \<lparr>en_connected := False, en_asked := False, en_conn := en_conn e + 1, en_sent := [],
        en_live := False, en_epoch := None, en_attempt := en_attempt e + 1,
        en_nextAttemptAt := Some (now + backoffDelay random (en_attempt e)), en_retrying := True\<rparr>"

text \<open>
  Every queued @online submission, named by its place in the queue, and every one in flight, rejects.
\<close>

definition onlineAt :: "'m submission list \<Rightarrow> nat list" where
  "onlineAt ss = filter (\<lambda>i. case ss ! i of OnlineM _ \<Rightarrow> True | OutboxM _ \<Rightarrow> False) [0..<length ss]"

definition rejectOnline :: "'m submission list \<Rightarrow> 't engine \<Rightarrow> 't engine" where
  "rejectOnline ss e =
     (fold (\<lambda>i. emit (RejectOnline i)) (map fst (en_online e))
       (fold (\<lambda>i. emit (RejectSubmission i)) (onlineAt ss) e))\<lparr>en_online := []\<rparr>"

text \<open>\<open>promises\<close> are those of the queued pushes.\<close>

definition shutdown :: "'m submission list \<Rightarrow> nat list \<Rightarrow> 't engine \<Rightarrow> 't engine" where
  "shutdown ss promises e =
     rejectOnline ss
       (fold (\<lambda>w. emit (RejectPush w)) promises
         ((emit (AbortConnection (en_conn e)) e)
            \<lparr>en_retrying := False, en_connected := False, en_starts := []\<rparr>))"

section \<open>The first run\<close>

definition slice_after :: "jsstr \<Rightarrow> jsstr \<Rightarrow> jsstr" where
  "slice_after p k = drop (length p) k"

fun loadSlices :: "(jsstr \<times> engine_value option) list \<Rightarrow> (jsstr \<times> nat) list \<Rightarrow>
  engine_error + (jsstr \<times> nat) list" where
  "loadSlices [] m = Inr m"
| "loadSlices ((k, v) # rows) m =
     (case v of Some (SeqV s) \<Rightarrow> loadSlices rows (AList.update (slice_after SEQ k) s m)
      | _ \<Rightarrow> Inl (BadValue k))"

text \<open>A key whose ordinal is no number, which the Engine never writes, is refused.\<close>

fun loadOutbox :: "(jsstr \<times> engine_value option) list \<Rightarrow> (jsstr \<times> nat) list \<times> nat \<Rightarrow>
  engine_error + ((jsstr \<times> nat) list \<times> nat)" where
  "loadOutbox [] acc = Inr acc"
| "loadOutbox ((k, v) # rows) (m, n) =
     (case v of
        Some (MutationV mu) \<Rightarrow>
          (case parseNumber (slice_after MUTATION k) of
             None \<Rightarrow> Inl (BadValue k)
           | Some ordinal \<Rightarrow> loadOutbox rows (AList.update (mu_id mu) ordinal m, ordinal + 1))
      | _ \<Rightarrow> Inl (BadValue k))"

text \<open>A backfill whose download finished before the crash is ready to land.\<close>

definition loadedEntry :: "nat \<Rightarrow> backfill_record \<Rightarrow> backfill_entry" where
  "loadedEntry i r =
     (newBackfillEntry i r)
       \<lparr>be_ready := (case bf_resume r of None \<Rightarrow> False | Some x \<Rightarrow> br_snapshotDone x \<and> br_tailDone x)\<rparr>"

fun loadBackfills :: "(jsstr \<times> engine_value option) list \<Rightarrow> (jsstr \<times> backfill_entry) list \<times> nat \<Rightarrow>
  engine_error + ((jsstr \<times> backfill_entry) list \<times> nat)" where
  "loadBackfills [] acc = Inr acc"
| "loadBackfills ((k, v) # rows) (m, n) =
     (case v of
        Some (BackfillV r) \<Rightarrow>
          loadBackfills rows (AList.update (slice_after BACKFILL k) (loadedEntry n r) m, n + 1)
      | _ \<Rightarrow> Inl (BadValue k))"

definition loadCheckpoint :: "engine_value option \<Rightarrow> engine_error + checkpoint_record option" where
  "loadCheckpoint v =
     (case v of None \<Rightarrow> Inr None | Some (CheckpointV c) \<Rightarrow> Inr (Some c) | _ \<Rightarrow> Inl (BadValue CHECKPOINT))"

definition loadView :: "engine_value option \<Rightarrow> engine_error + view_record option" where
  "loadView v = (case v of None \<Rightarrow> Inr None | Some (ViewV x) \<Rightarrow> Inr (Some x) | _ \<Rightarrow> Inl (BadValue VIEW))"

definition loadIn :: "'t wtxn \<Rightarrow> 't engine \<Rightarrow> engine_error + 't engine" where
  "loadIn ops e =
     andThen (getIn ops CHECKPOINT JSON e) (\<lambda>(c, e).
     andThen (loadCheckpoint c) (\<lambda>checkpoint.
     andThen (getIn ops VIEW JSON e) (\<lambda>(v, e).
     andThen (loadView v) (\<lambda>view.
     andThen (rowsIn ops (lit ''seq'') (Some JSON) e) (\<lambda>(rows, e).
     andThen (loadSlices rows (en_slices e)) (\<lambda>slices.
     andThen (rowsIn ops (lit ''mutation'') (Some MUTATION_TYPE) e) (\<lambda>(rows, e).
     andThen (loadOutbox rows (en_outbox e, en_nextOrdinal e)) (\<lambda>(outbox, ordinal).
     andThen (rowsIn ops (lit ''backfill'') (Some JSON) e) (\<lambda>(rows, e).
     andThen (loadBackfills rows (en_backfills e, en_nextEntry e)) (\<lambda>(backfills, entry).
       Inr (e\<lparr>en_checkpoint := checkpoint, en_view := view, en_slices := slices, en_outbox := outbox,
              en_nextOrdinal := ordinal, en_backfills := backfills, en_nextEntry := entry,
              en_applied := (case checkpoint of None \<Rightarrow> -1 | Some c \<Rightarrow> cr_applied c)\<rparr>)))))))))))"

definition purgeIn :: "'t wtxn \<Rightarrow> 't engine \<Rightarrow> engine_error + 't engine" where
  "purgeIn ops e =
     (let wanted = covered (en_wants e);
          wasFrozen = en_frozen e;
          e1 = fold (\<lambda>sel e. if \<not> wanted sel then dropBackfillIn ops sel e else e) (map fst (en_backfills e)) e;
          e2 = fold (\<lambda>sl e. if \<not> wanted sl then dropSliceIn ops sl e else e) (map fst (en_slices e1)) e1
      in andThen (dropParkedIn ops wanted e2) (\<lambda>e3.
         let e4 = (case en_view e3 of
                None \<Rightarrow> e3
              | Some v \<Rightarrow>
                  if list_all wanted (vr_selectors v) then e3
                  else let v' = v\<lparr>vr_selectors := filter wanted (vr_selectors v)\<rparr> in
                    setIn ops VIEW (ViewV v') (e3\<lparr>en_view := Some v'\<rparr>))
         in if wasFrozen then tryLandIn ops e4 else Inr e4))"

definition initialize :: "'t wtxn \<Rightarrow> 't engine \<Rightarrow> engine_error + 't engine" where
  "initialize ops e =
     andThen (loadIn ops e) (\<lambda>e1.
     andThen (purgeIn ops e1) (\<lambda>e2.
       Inr (refresh True (e2\<lparr>en_connectNow := True, en_dirty := []\<rparr>))))"

end
