(* ===== verification/EngineSafety.thy ===== *)
theory EngineSafety
  imports EngineWork
begin

text \<open>
  What every pass of the Engine keeps: the checkpoint record is the cursor and the applied position
  of memory, the applied position never passes the cursor, neither goes back and the log never
  changes under them; an acked mutation waits in the outbox exactly while its position is past the
  base; and a backfill is ready to land only with a resume point.
\<close>

section \<open>The invariant\<close>

definition sync_ok :: "checkpoint_record option \<Rightarrow> int \<Rightarrow> jsstr option \<Rightarrow> bool" where
  "sync_ok checkpoint applied epoch =
     (case checkpoint of
        None \<Rightarrow> applied = -1
      | Some c \<Rightarrow> cr_applied c = applied \<and> applied \<le> cr_position c \<and> -1 \<le> cr_position c \<and>
          (\<forall>ep. epoch = Some ep \<longrightarrow> cr_epoch c = ep))"

definition outbox_ok ::
  "(jsstr \<times> nat) list \<Rightarrow> (jsstr \<times> int) list \<Rightarrow> int \<Rightarrow> bool" where
  "outbox_ok outbox acked applied =
     (distinct (map fst outbox) \<and> distinct (map fst acked) \<and>
      fst ` set acked \<subseteq> fst ` set outbox \<and>
      (\<forall>(i, p) \<in> set acked. applied < p))"

definition flight_ok :: "(jsstr \<times> backfill_entry) list \<Rightarrow> bool" where
  "flight_ok backfills =
     (distinct (map fst backfills) \<and>
      (\<forall>(sel, b) \<in> set backfills. be_ready b \<longrightarrow> bf_resume (be_record b) \<noteq> None))"

definition eng_inv :: "'t engine \<Rightarrow> bool" where
  "eng_inv e =
     (sync_ok (en_checkpoint e) (en_applied e) (en_epoch e) \<and>
      outbox_ok (en_outbox e) (en_acked e) (en_applied e) \<and>
      flight_ok (en_backfills e))"

text \<open>The log the checkpoint is in.\<close>

definition logOf :: "'t engine \<Rightarrow> jsstr option" where
  "logOf e = map_option cr_epoch (en_checkpoint e)"

text \<open>A step of the Engine: it keeps the invariant, and nothing goes back.\<close>

definition advances :: "'t engine \<Rightarrow> 't engine \<Rightarrow> bool" where
  "advances e e' =
     (eng_inv e \<longrightarrow>
        eng_inv e' \<and> cursorOf e \<le> cursorOf e' \<and> en_applied e \<le> en_applied e' \<and>
        (\<forall>ep. logOf e = Some ep \<longrightarrow> logOf e' = Some ep))"

definition advancesR :: "'t engine \<Rightarrow> 'e + 't engine \<Rightarrow> bool" where
  "advancesR e r = (case r of Inl _ \<Rightarrow> True | Inr e' \<Rightarrow> advances e e')"

text \<open>What the invariant reads.\<close>

definition core where
  "core e = (en_checkpoint e, en_applied e, en_epoch e, en_outbox e, en_acked e, en_backfills e)"

section \<open>Steps compose\<close>

lemma advances_refl [simp, intro]: "advances e e"
  by (simp add: advances_def)

lemma advances_trans [trans]: "advances a b \<Longrightarrow> advances b c \<Longrightarrow> advances a c"
  by (auto simp: advances_def)

lemma advancesI: "(eng_inv e \<Longrightarrow> advances e e') \<Longrightarrow> advances e e'"
  unfolding advances_def by blast

lemma core_inv: "core e' = core e \<Longrightarrow> eng_inv e' = eng_inv e"
  by (simp add: core_def eng_inv_def)

lemma core_cursor: "core e' = core e \<Longrightarrow> cursorOf e' = cursorOf e"
  by (simp add: core_def cursorOf_def)

lemma advances_core: "core e' = core e \<Longrightarrow> advances e e'"
  unfolding advances_def using core_inv [of e' e] core_cursor [of e' e] by (auto simp: core_def logOf_def)

lemma advances_from_core: "core e' = core e \<Longrightarrow> advances e x \<Longrightarrow> advances e' x"
  using advances_core [of e e'] advances_trans by metis

lemma advances_fold: "(\<And>x e. advances e (f x e)) \<Longrightarrow> advances e (fold f xs e)"
  by (induction xs arbitrary: e) (auto intro: advances_trans)

lemma advancesR_Inr [simp]: "advancesR e (Inr e') = advances e e'"
  and advancesR_Inl [simp]: "advancesR e (Inl x)"
  by (simp_all add: advancesR_def)

lemma advancesR_trans: "advances a b \<Longrightarrow> advancesR b r \<Longrightarrow> advancesR a r"
  by (cases r) (auto intro: advances_trans)

lemma advancesR_andThen:
  "(\<And>x. r = Inr x \<Longrightarrow> advances e (proj x) \<and> advancesR (proj x) (f x)) \<Longrightarrow> advancesR e (andThen r f)"
  by (cases r) (auto intro: advancesR_trans)

lemma advancesR_then:
  "advancesR e r \<Longrightarrow> (\<And>e'. r = Inr e' \<Longrightarrow> advancesR e' (f e')) \<Longrightarrow> advancesR e (andThen r f)"
  by (rule advancesR_andThen [of _ _ id]) (auto simp: advancesR_def)

lemma advancesR_eachIn: "(\<And>x e. advancesR e (f x e)) \<Longrightarrow> advancesR e (eachIn f xs e)"
  by (induction xs arbitrary: e) (auto intro!: advancesR_then)

section \<open>Operations outside the invariant\<close>

lemma core_store [simp]:
  "core (emit x e) = core e" "core (setIn ops k v e) = core e" "core (putIn ops k b e) = core e"
  "core (delIn ops k e) = core e" "core (delPrefixIn ops p e) = core e" "core (markDirty ks e) = core e"
  by (simp_all add: core_def emit_def setIn_def putIn_def delIn_def delPrefixIn_def markDirty_def)

lemma core_update [simp]:
  "core (e\<lparr>en_txn := t\<rparr>) = core e" "core (e\<lparr>en_dirty := ks\<rparr>) = core e" "core (e\<lparr>en_out := out\<rparr>) = core e"
  "core (e\<lparr>en_slices := s\<rparr>) = core e" "core (e\<lparr>en_episode := p\<rparr>) = core e" "core (e\<lparr>en_online := om\<rparr>) = core e"
  "core (e\<lparr>en_view := v\<rparr>) = core e" "core (e\<lparr>en_starts := st\<rparr>) = core e" "core (e\<lparr>en_status := su\<rparr>) = core e"
  "core (e\<lparr>en_outboxChanged := b\<rparr>) = core e" "core (e\<lparr>en_newQueries := b\<rparr>) = core e"
  "core (e\<lparr>en_resend := b\<rparr>) = core e" "core (e\<lparr>en_confirmed := b\<rparr>) = core e"
  "core (e\<lparr>en_nextN := n\<rparr>) = core e" "core (e\<lparr>en_nextOrdinal := n\<rparr>) = core e"
  "core (e\<lparr>en_live := b\<rparr>) = core e" "core (e\<lparr>en_attempt := n\<rparr>) = core e"
  "core (e\<lparr>en_sent := ids\<rparr>) = core e"
  "core (e\<lparr>en_connectNow := b\<rparr>) = core e" "core (e\<lparr>en_head := h\<rparr>) = core e"
  by (simp_all add: core_def)

lemma core_delPrefixDirty [simp]: "core (delPrefixDirty ops p e) = core e"
  by (simp add: delPrefixDirty_def case_prod_beta)

lemma core_forgetIn [simp]: "core (forgetIn ops sl e) = core e"
  and core_holdIn [simp]: "core (holdIn ops sl s e) = core e"
  and core_dropSliceIn [simp]: "core (dropSliceIn ops sl e) = core e"
  and core_resolveSlice [simp]: "core (resolveSlice sl e) = core e"
  by (auto simp: forgetIn_def holdIn_def dropSliceIn_def Let_def resolveSlice_def split: option.splits)

lemma core_applyIn: "applyIn f e = Inr e' \<Longrightarrow> core e' = core e"
  by (auto simp: applyIn_def split: sum.splits)

lemma core_getIn: "getIn ops k t e = Inr (v, e') \<Longrightarrow> core e' = core e"
  and core_rowsIn: "rowsIn ops n t' e = Inr (rows, e') \<Longrightarrow> core e' = core e"
  by (auto simp: getIn_def rowsIn_def split: sum.splits)

lemma core_fold: "(\<And>x e. core (f x e) = core e) \<Longrightarrow> core (fold f xs e) = core e"
  by (induction xs arbitrary: e) auto

lemma core_dropParkedIn:
  assumes "dropParkedIn ops keep e = Inr e'"
  shows "core e' = core e"
proof -
  obtain rows e1 where r: "rowsIn ops (lit ''park-edit'') None e = Inr (rows, e1)"
    using assms unfolding dropParkedIn_def andThen_eq_Inr by auto
  show ?thesis
    using assms core_rowsIn [OF r] unfolding dropParkedIn_def r Let_def by (auto simp: core_fold)
qed

lemma core_headerOf:
  assumes "headerOf ops sel e = Inr (h, e')"
  shows "core e' = core e"
proof -
  obtain v e1 where g: "getIn ops (BACKFILL_SEQS @ sel) JSON e = Inr (v, e1)"
    using assms unfolding headerOf_def andThen_eq_Inr by auto
  have "e' = e1"
    using assms unfolding headerOf_def g by (simp split: option.splits engine_value.splits)
  then show ?thesis using core_getIn [OF g] by simp
qed

lemma core_blobsOf: "blobsOf ops bs e = Inr (blobs, e') \<Longrightarrow> core e' = core e"
proof (induction bs arbitrary: e blobs e')
  case (Cons b bs)
  obtain h e1 bl where "headerOf ops (fst b) e = Inr (h, e1)" "blobsOf ops bs e1 = Inr (bl, e')"
    using Cons.prems by (cases b) (auto simp: andThen_eq_Inr split: option.splits)
  then show ?case using Cons.IH core_headerOf by metis
qed simp

section \<open>The outbox and the cursor\<close>

lemma outbox_ok_release:
  assumes "outbox_ok outbox acked applied"
  shows "outbox_ok (AList.delete i outbox) (AList.delete i acked) applied"
proof -
  have keys: "fst ` set (AList.delete i xs) = fst ` set xs - {i}" for xs :: "(jsstr \<times> 'b) list"
    by (auto simp: AList.delete_eq image_iff)
  have d: "distinct (map fst outbox)" "distinct (map fst acked)"
    "fst ` set acked \<subseteq> fst ` set outbox" and late: "\<forall>(i, p) \<in> set acked. applied < p"
    using assms by (simp_all add: outbox_ok_def)
  have "fst ` set acked - {i} \<subseteq> fst ` set outbox - {i}"
    using d by auto
  moreover have "\<forall>(i, p) \<in> set (AList.delete i acked). applied < p"
    using late by (auto simp: AList.delete_eq)
  ultimately show ?thesis
    unfolding outbox_ok_def keys using d by (simp add: distinct_delete)
qed

lemma advances_releaseOne: "advances e (releaseOne ops i e)"
  by (auto simp: advances_def releaseOne_def eng_inv_def delIn_def cursorOf_def
      logOf_def intro: outbox_ok_release split: option.splits)

lemma releaseOne_fields [simp]:
  "en_checkpoint (releaseOne ops i e) = en_checkpoint e" "en_applied (releaseOne ops i e) = en_applied e"
  "en_epoch (releaseOne ops i e) = en_epoch e" "en_backfills (releaseOne ops i e) = en_backfills e"
  by (auto simp: releaseOne_def delIn_def split: option.splits)

lemma releaseIn_fields [simp]:
  "en_checkpoint (releaseIn ops is e) = en_checkpoint e" "en_applied (releaseIn ops is e) = en_applied e"
  "en_epoch (releaseIn ops is e) = en_epoch e" "en_backfills (releaseIn ops is e) = en_backfills e"
  unfolding releaseIn_def by (induction "is" arbitrary: e) auto

lemma advances_releaseIn: "advances e (releaseIn ops is e)"
  unfolding releaseIn_def by (rule advances_fold) (rule advances_releaseOne)


text \<open>What a release leaves acked is past the base: what is at or below it was in the outbox, and goes.\<close>

lemma acked_releaseIn:
  assumes "outbox_ok (en_outbox e) (en_acked e) low"
    and "x \<in> set (en_acked (releaseIn ops is e))"
  shows "x \<in> set (en_acked e) \<and> fst x \<notin> set is"
  using assms
proof (induction "is" arbitrary: e)
  case (Cons i "is")
  let ?e = "releaseOne ops i e"
  have ok: "outbox_ok (en_outbox ?e) (en_acked ?e) low"
    using Cons.prems(1) outbox_ok_release by (auto simp: releaseOne_def delIn_def split: option.splits)
  have x: "x \<in> set (en_acked ?e) \<and> fst x \<notin> set is"
    by (rule Cons.IH [OF ok]) (use Cons.prems(2) in \<open>simp add: releaseIn_def\<close>)
  have "fst ` set (en_acked e) \<subseteq> fst ` set (en_outbox e)"
    using Cons.prems(1) by (simp add: outbox_ok_def)
  then have "x \<in> set (en_acked e) \<and> fst x \<noteq> i"
    using x by (auto simp: releaseOne_def delIn_def AList.delete_eq map_of_eq_None_iff image_iff
        split: option.splits)
  then show ?case using x by simp
qed (simp add: releaseIn_def)

lemma outbox_ok_releaseIn:
  "outbox_ok (en_outbox e) (en_acked e) low \<Longrightarrow>
   outbox_ok (en_outbox (releaseIn ops is e)) (en_acked (releaseIn ops is e)) low"
  unfolding releaseIn_def
proof (induction "is" arbitrary: e)
  case (Cons i "is")
  show ?case
    unfolding fold_Cons comp_def
    by (rule Cons.IH) (use Cons.prems outbox_ok_release in \<open>auto simp: releaseOne_def delIn_def split: option.splits\<close>)
qed simp

lemma outbox_ok_raise:
  assumes "outbox_ok o' a low" "\<And>i p. (i, p) \<in> set a \<Longrightarrow> high < p"
  shows "outbox_ok o' a high"
  using assms by (auto simp: outbox_ok_def)

lemma releaseThroughIn_fields [simp]:
  "en_checkpoint (releaseThroughIn ops p e) = en_checkpoint e" "en_epoch (releaseThroughIn ops p e) = en_epoch e"
  "en_backfills (releaseThroughIn ops p e) = en_backfills e"
  "en_applied (releaseThroughIn ops p e) = max p (en_applied e)"
  by (simp_all add: releaseThroughIn_def)

lemma outbox_ok_releaseThroughIn:
  assumes "outbox_ok (en_outbox e) (en_acked e) (en_applied e)"
  shows "let e' = releaseThroughIn ops p e in
    outbox_ok (en_outbox e') (en_acked e') (en_applied e')"
proof (cases "p \<le> en_applied e")
  case False
  define done' where "done' = map fst (filter (\<lambda>(i, q). q \<le> p) (en_acked e))"
  let ?base = "e\<lparr>en_applied := p\<rparr>"
  let ?e = "releaseIn ops done' ?base"
  have e: "releaseThroughIn ops p e = ?e"
    using False by (simp add: releaseThroughIn_def done'_def)
  have ok: "outbox_ok (en_outbox ?base) (en_acked ?base) (en_applied e)"
    using assms by simp
  have "p < q" if "(i, q) \<in> set (en_acked ?e)" for i q
  proof -
    have "(i, q) \<in> set (en_acked e) \<and> i \<notin> set done'"
      using acked_releaseIn [OF ok that] by simp
    then show ?thesis by (force simp: done'_def)
  qed
  then show ?thesis
    unfolding Let_def e using outbox_ok_raise [OF outbox_ok_releaseIn [OF ok]] by simp
qed (use assms in \<open>simp add: releaseThroughIn_def\<close>)

text \<open>The two ways the cursor and the base move.\<close>

lemma advances_advanceCursorIn: "advancesR e (advanceCursorIn ops p applied e)"
proof (cases "en_epoch e")
  case (Some ep)
  define e1 where "e1 = (if applied then releaseThroughIn ops p e else e)"
  have e1: "en_checkpoint e1 = en_checkpoint e" "en_epoch e1 = en_epoch e" "en_backfills e1 = en_backfills e"
    "en_applied e1 = (if applied then max p (en_applied e) else en_applied e)"
    by (simp_all add: e1_def)
  have ob: "outbox_ok (en_outbox e1) (en_acked e1) (en_applied e1)" if "eng_inv e"
    using that outbox_ok_releaseThroughIn [of e ops p] by (simp add: eng_inv_def e1_def Let_def)
  define c where "c = \<lparr>cr_epoch = ep, cr_position = max p (cursorOf e1), cr_applied = en_applied e1\<rparr>"
  have res: "advanceCursorIn ops p applied e =
      (if (case en_checkpoint e1 of None \<Rightarrow> False
           | Some c \<Rightarrow> cr_position c = max p (cursorOf e1) \<and> cr_applied c = en_applied e1)
       then Inr e1 else Inr (setIn ops CHECKPOINT (CheckpointV c) (e1\<lparr>en_checkpoint := Some c\<rparr>)))"
    by (simp add: advanceCursorIn_def Some Let_def e1_def [symmetric] c_def)
  have inv: "sync_ok (en_checkpoint e1) (en_applied e) (Some ep)" "-1 \<le> cursorOf e1"
      "en_applied e \<le> cursorOf e1" "flight_ok (en_backfills e1)" "logOf e = None \<or> logOf e = Some ep"
    if "eng_inv e"
    using that Some by (auto simp: e1 eng_inv_def sync_ok_def cursorOf_def logOf_def split: option.splits)
  have up: "en_applied e \<le> en_applied e1" "en_applied e1 \<le> max p (en_applied e)" "cursorOf e1 = cursorOf e"
    by (simp_all add: e1 cursorOf_def)
  have same: "advances e e1" if c: "en_checkpoint e1 = Some c" "cr_position c = max p (cursorOf e1)"
      "cr_applied c = en_applied e1" for c
  proof -
    have "sync_ok (en_checkpoint e1) (en_applied e1) (en_epoch e1)" if i: "eng_inv e"
      using c inv [OF i] up e1 Some by (auto simp: sync_ok_def)
    then show ?thesis
      unfolding advances_def using ob inv up e1 by (auto simp: eng_inv_def logOf_def)
  qed
  have new: "advances e (setIn ops k v (e1\<lparr>en_checkpoint := Some c\<rparr>))" for k v
  proof -
    have "sync_ok (Some c) (en_applied e1) (Some ep)" if i: "eng_inv e"
      using inv [OF i] up by (auto simp: sync_ok_def c_def)
    moreover have "cr_position c = max p (cursorOf e)" "cr_epoch c = ep"
      using up by (simp_all add: c_def)
    ultimately show ?thesis
      unfolding advances_def using ob inv up e1 Some
      by (auto simp: eng_inv_def logOf_def setIn_def cursorOf_def)
  qed
  show ?thesis unfolding res using same new by (simp split: option.splits)
qed (simp add: advanceCursorIn_def)

lemma advances_appliedTo:
  assumes "p \<le> cursorOf e"
  shows "advances e (appliedTo ops p e)"
proof (cases "p \<le> en_applied e")
  case False
  show ?thesis
    unfolding advances_def appliedTo_def Let_def
    using False assms outbox_ok_releaseThroughIn [of e ops p]
    by (auto simp: eng_inv_def sync_ok_def cursorOf_def logOf_def setIn_def Let_def split: option.splits)
qed (simp add: appliedTo_def)

lemma cursorOf_appliedTo [simp]: "cursorOf (appliedTo ops p e) = cursorOf e"
  by (auto simp: appliedTo_def Let_def cursorOf_def setIn_def split: option.splits)

lemma advances_onCursorIn: "advancesR e (onCursorIn ops p e)"
  unfolding onCursorIn_def by (rule advances_advanceCursorIn)

lemma advances_roundTrip: "advances e (roundTrip ops i e)"
proof -
  define e1 where "e1 = (if i \<in> fst ` set (en_outbox e) then releaseIn ops [i] e else e)"
  have "advances e e1" by (simp add: e1_def advances_releaseIn)
  moreover have "advances e1 (roundTrip ops i e)"
    unfolding roundTrip_def Let_def e1_def [symmetric] by (auto intro: advances_core split: option.splits)
  ultimately show ?thesis by (rule advances_trans)
qed


section \<open>Backfills\<close>

lemma set_update_sub: "set (AList.update k v m) \<subseteq> insert (k, v) (set m)"
  by (induction m) auto

lemma flight_update:
  assumes "flight_ok m" "be_ready b \<longrightarrow> bf_resume (be_record b) \<noteq> None"
  shows "flight_ok (AList.update k b m)"
  using assms set_update_sub [of k b m] by (auto simp: flight_ok_def distinct_update)

lemma flight_delete: "flight_ok m \<Longrightarrow> flight_ok (AList.delete k m)"
  by (auto simp: flight_ok_def distinct_delete) (auto simp: AList.delete_eq)

lemma flight_lookup: "flight_ok m \<Longrightarrow> map_of m k = Some b \<Longrightarrow> be_ready b \<Longrightarrow> bf_resume (be_record b) \<noteq> None"
  by (auto simp: flight_ok_def dest!: map_of_SomeD)

text \<open>An operation on the backfills alone.\<close>

definition flightOnly :: "'t engine \<Rightarrow> 't engine \<Rightarrow> bool" where
  "flightOnly e e' =
     (en_checkpoint e' = en_checkpoint e \<and> en_applied e' = en_applied e \<and> en_epoch e' = en_epoch e \<and>
      en_outbox e' = en_outbox e \<and> en_acked e' = en_acked e \<and>
      (flight_ok (en_backfills e) \<longrightarrow> flight_ok (en_backfills e')))"

lemma flightOnly_advances: "flightOnly e e' \<Longrightarrow> advances e e'"
  by (auto simp: flightOnly_def advances_def eng_inv_def cursorOf_def logOf_def)

lemma flightOnly_refl [simp]: "flightOnly e e"
  and flightOnly_trans: "flightOnly a b \<Longrightarrow> flightOnly b c \<Longrightarrow> flightOnly a c"
  by (auto simp: flightOnly_def)

lemma flightOnly_core: "core e' = core e \<Longrightarrow> flightOnly e e'"
  by (simp add: core_def flightOnly_def)

lemma flightOnly_onEntry:
  assumes "\<And>b. map_of (en_backfills e) sel = Some b \<Longrightarrow> flight_ok (en_backfills e) \<Longrightarrow>
      be_ready (f b) \<Longrightarrow> bf_resume (be_record (f b)) \<noteq> None"
  shows "flightOnly e (onEntry sel f e)"
  using assms by (auto simp: flightOnly_def onEntry_def intro: flight_update split: option.splits)

lemma flightOnly_startBackfill: "flightOnly e (startBackfill sel e)"
proof (cases "map_of (en_backfills e) sel")
  case (Some b)
  have "flightOnly e (onEntry sel (\<lambda>b. b\<lparr>be_ready := False\<rparr>) e)"
    by (rule flightOnly_onEntry) simp
  then show ?thesis
    using Some by (simp add: startBackfill_def flightOnly_def)
qed (simp add: startBackfill_def)

lemma flightOnly_spawnIn: "flightOnly e (spawnIn ops sel until e)"
proof -
  have "flightOnly e (addEntry sel r (setIn ops k v e))" for r k v
    by (auto simp: flightOnly_def addEntry_def setIn_def newBackfillEntry_def intro: flight_update)
  then show ?thesis
    unfolding spawnIn_def Let_def by (rule flightOnly_trans) (rule flightOnly_startBackfill)
qed

lemma flightOnly_restartIn: "flightOnly e (restartIn ops sel e)"
proof (cases "map_of (en_backfills e) sel")
  case (Some b)
  have "flightOnly e (onEntry sel (\<lambda>b. b\<lparr>be_record := r, be_ready := False, be_attempts := 0\<rparr>)
          (delIn ops k (delPrefixIn ops p e)))" for k p r
    by (rule flightOnly_trans [OF flightOnly_core flightOnly_onEntry]) simp_all
  then show ?thesis
    unfolding restartIn_def Let_def Some option.case
    by (rule flightOnly_trans [OF flightOnly_trans [OF _ flightOnly_core] flightOnly_startBackfill]) simp
qed (simp add: restartIn_def)

lemma flightOnly_dropBackfillIn: "flightOnly e (dropBackfillIn ops sel e)"
  by (auto simp: flightOnly_def dropBackfillIn_def Let_def emit_def delPrefixIn_def delIn_def
      intro: flight_delete split: option.splits)

lemmas flight_steps =
  flightOnly_advances [OF flightOnly_spawnIn] flightOnly_advances [OF flightOnly_restartIn]
  flightOnly_advances [OF flightOnly_dropBackfillIn] flightOnly_advances [OF flightOnly_startBackfill]

section \<open>Landing\<close>

lemma advances_applyIn: "advancesR e (applyIn f e)"
  using core_applyIn [of f e] by (cases "applyIn f e") (auto intro: advances_core)

lemma advances_landSlice: "advancesR e (landSlice ops sp e)"
proof -
  have last: "advances e (resolveSlice sl (case s of None \<Rightarrow> forgetIn ops sl e | Some n \<Rightarrow> holdIn ops sl n e))"
    for e :: "'a engine" and sl s by (auto intro: advances_core split: option.splits)
  have trips: "advances e (fold (\<lambda>env. roundTrip ops (ee_id env)) envs e)" for e :: "'a engine" and envs
    by (rule advances_fold) (rule advances_roundTrip)
  have run: "advancesR e (case pl_run p of [] \<Rightarrow> Inr e
         | first # rest \<Rightarrow> andThen (applyIn (wt_applyParked ops sl (ee_seq first)) e) (\<lambda>e1.
             Inr (fold (\<lambda>env. roundTrip ops (ee_id env)) (first # rest) e1)))" for p sl
  proof (cases "pl_run p")
    case (Cons first rest)
    show ?thesis
      unfolding Cons list.case
      by (rule advancesR_then [OF advances_applyIn]) (simp only: advancesR_Inr trips)
  qed simp
  show ?thesis
    unfolding landSlice_def Let_def by (rule advancesR_then [OF run]) (simp add: last)
qed

text \<open>The land moves the base to the cursor it began with, which is at or below the cursor it ends with.\<close>

lemma advances_appliedTo_start:
  assumes "advances e e'"
  shows "advances e (appliedTo ops (cursorOf e) e')"
proof (rule advancesI)
  assume "eng_inv e"
  then have "cursorOf e \<le> cursorOf e'" using assms by (simp add: advances_def)
  then show "advances e (appliedTo ops (cursorOf e) e')"
    using advances_trans [OF assms] advances_appliedTo by blast
qed

lemma advancesR_from:
  "advances a e \<Longrightarrow> advancesR e r \<Longrightarrow> (\<And>e'. advances a e' \<Longrightarrow> advancesR a (f e')) \<Longrightarrow> advancesR a (andThen r f)"
  by (cases r) (auto intro: advances_trans)

lemma advances_drops: "advances e (fold (\<lambda>sl e. if P sl then dropSliceIn ops sl e else e) xs e)"
  by (rule advances_fold) (auto intro: advances_core)

lemma advances_applyPlans: "advancesR e (applyPlans ops blobs plans inView (cursorOf e) e)"
proof -
  have cleared: "advances e (fold (\<lambda>(sl, p) e. if pl_blob p then delPrefixDirty ops (sl @ [bang]) e else e) plans e)"
    by (rule advances_fold) (auto intro: advances_core split: prod.splits)
  have final: "advances e (appliedTo ops (cursorOf e)
      (fold (dropBackfillIn ops) sels (delPrefixIn ops PARK_EDIT e')))" if "advances e e'" for e' sels
    by (rule advances_appliedTo_start, rule advances_trans [OF that], rule advances_trans,
        rule advances_core, rule core_store, rule advances_fold, rule flight_steps)
  show ?thesis
    unfolding applyPlans_def Let_def
    apply (rule advancesR_from [OF cleared])
     apply (rule advancesR_eachIn, rule advances_applyIn)
    apply (erule advancesR_from)
     apply (rule advancesR_eachIn, rule advances_landSlice)
    apply (simp only: advancesR_Inr)
    apply (rule final)
    apply (erule advances_trans)
    apply (rule advances_drops)
    done
qed

lemma advances_redownloadIn: "advances e (redownloadIn ops cursor broken e)"
  unfolding redownloadIn_def by (rule advances_fold) (auto intro: flight_steps)

text \<open>The three ends of a land: it waits, it downloads a broken slice again, or it applies its plans.\<close>

lemma landIn_cases:
  assumes "landIn ops e = Inr e'"
  obtains e2 where "core e2 = core e" "e' = e2"
  | e2 broken where "core e2 = core e" "broken \<noteq> []" "e' = redownloadIn ops (cursorOf e) broken e2"
  | e2 blobs parked plans inView where "core e2 = core e" "brokenOf plans = []"
      "inView = covered (case en_view e of None \<Rightarrow> [] | Some v \<Rightarrow> vr_selectors v)"
      "plans = plansOf blobs (en_applied e2) (en_slices e2) parked inView"
      "applyPlans ops blobs plans inView (cursorOf e) e2 = Inr e'"
proof -
  obtain blobs e1 where b: "blobsOf ops (en_backfills e) e = Inr (blobs, e1)"
    using assms unfolding landIn_def Let_def by (cases "blobsOf ops (en_backfills e) e") auto
  obtain rows e2 where r: "rowsIn ops (lit ''park-edit'') (Some EDITS_TYPE) e1 = Inr (rows, e2)"
    using assms unfolding landIn_def Let_def b andThen_Inr prod.case
    by (cases "rowsIn ops (lit ''park-edit'') (Some EDITS_TYPE) e1") auto
  obtain envs where en: "envelopesOf rows = Inr envs"
    using assms unfolding landIn_def Let_def b r andThen_Inr prod.case by (cases "envelopesOf rows") auto
  have c: "core e2 = core e" using core_blobsOf [OF b] core_rowsIn [OF r] by simp
  show ?thesis
    using assms c that unfolding landIn_def Let_def b r en andThen_Inr prod.case
    by (auto split: if_splits)
qed

lemma advances_landIn: "advancesR e (landIn ops e)"
proof (cases "landIn ops e")
  case (Inr e')
  from Inr have "advances e e'"
  proof (cases rule: landIn_cases)
    case (1 e2)
    then show ?thesis by (simp add: advances_core)
  next
    case (2 e2 broken)
    then show ?thesis using advances_trans [OF advances_core advances_redownloadIn] by metis
  next
    case (3 e2 blobs parked plans inView)
    have "advances e2 e'"
      using advances_applyPlans [of e2 ops blobs plans inView] 3(5) core_cursor [OF 3(1)] by simp
    then show ?thesis using advances_trans [OF advances_core [OF 3(1)]] by blast
  qed
  then show ?thesis by (simp add: Inr)
qed simp

lemma advances_tryLandIn: "advancesR e (tryLandIn ops e)"
  unfolding tryLandIn_def by (rule advancesR_andThen [of _ _ "\<lambda>_. e"]) (auto intro: advances_landIn)

section \<open>Frames\<close>

lemma advances_onEditsIn: "advancesR e (onEditsIn ops edits e)"
proof -
  define last' where "last' = ee_position (last edits)"
  obtain ap seqs breaks where c: "(if en_frozen e then ([], [], []) else checkFrame (en_slices e) edits ([], [], []))
      = (ap, seqs, breaks)" using prod_cases3 by blast
  define e1 where "e1 = fold (\<lambda>x e. if ee_slice x \<in> fst ` set (en_backfills e) then e
      else spawnIn ops (ee_slice x) (ee_position x) e) breaks e"
  define e2 where "e2 = fold (\<lambda>x. putIn ops (parkedEditKey (ee_slice x) (ee_seq x)) (we_raw x)) edits e1"
  define e3 where "e3 = fold (\<lambda>x e. resolveSlice (ee_slice x) (roundTrip ops (ee_id x) e)) ap e"
  have r: "onEditsIn ops edits e =
      (if edits = [] then Inr e
       else if en_frozen e \<or> breaks \<noteq> [] then advanceCursorIn ops last' False e2
       else andThen (if ap = [] then Inr e3 else applyIn (wt_applyEdits ops ap) e3) (\<lambda>e2.
              advanceCursorIn ops last' True
                (fold (\<lambda>(sl, s) e. case s of None \<Rightarrow> forgetIn ops sl e | Some n \<Rightarrow> holdIn ops sl n e) seqs e2)))"
    unfolding onEditsIn_def Let_def c prod.case last'_def e1_def e2_def e3_def by simp
  have "advances e e1"
    unfolding e1_def by (rule advances_fold) (auto intro: flight_steps)
  then have "advances e e2"
    unfolding e2_def by (rule advances_trans, intro advances_fold advances_core core_store)
  moreover have "advances e e3"
    unfolding e3_def by (rule advances_fold) (auto intro: advances_trans [OF advances_roundTrip advances_core])
  moreover have "advances x (fold (\<lambda>(sl, s) e. case s of None \<Rightarrow> forgetIn ops sl e | Some n \<Rightarrow> holdIn ops sl n e) seqs x)"
    for x :: "'a engine" by (rule advances_fold) (auto intro: advances_core split: option.splits)
  ultimately have parks: "advancesR e (advanceCursorIn ops last' False e2)"
    and e3: "advances e e3"
    and seqs: "\<And>x :: 'a engine. advances x (fold (\<lambda>(sl, s) e. case s of None \<Rightarrow> forgetIn ops sl e
        | Some n \<Rightarrow> holdIn ops sl n e) seqs x)"
    using advancesR_trans advances_advanceCursorIn by blast+
  have "advancesR e (andThen (if ap = [] then Inr e3 else applyIn (wt_applyEdits ops ap) e3) (\<lambda>e2.
      advanceCursorIn ops last' True
        (fold (\<lambda>(sl, s) e. case s of None \<Rightarrow> forgetIn ops sl e | Some n \<Rightarrow> holdIn ops sl n e) seqs e2)))"
    by (rule advancesR_trans [OF e3], rule advancesR_then)
      (auto intro: advances_applyIn advancesR_trans [OF seqs advances_advanceCursorIn])
  with parks show ?thesis unfolding r by simp
qed

lemma advances_grantIn: "advances e (grantIn ops old atStart p sel e)"
  unfolding grantIn_def by (auto intro: flight_steps)

lemma advances_onViewIn: "advancesR e (onViewIn ops v e)"
proof -
  define sels where "sels = sort_key (\<lambda>sel. length (selectorPrefix sel)) (vr_selectors v)"
  define old where "old = (case en_view e of None \<Rightarrow> [] | Some o' \<Rightarrow> vr_selectors o')"
  define starts where "starts = map fst (en_backfills e)"
  define e1 where "e1 = fold (\<lambda>sel e. if \<not> covered (vr_selectors v) sel then dropBackfillIn ops sel e else e) starts e"
  define e2 where "e2 = fold (grantIn ops old starts (vr_position v)) sels e1"
  define e3 where "e3 = (setIn ops VIEW (ViewV v) e2)\<lparr>en_view := Some v\<rparr>"
  have "advances e e1" unfolding e1_def by (rule advances_fold) (auto intro: flight_steps)
  then have "advances e e2"
    unfolding e2_def by (rule advances_trans) (rule advances_fold, rule advances_grantIn)
  then have e3: "advances e e3"
    unfolding e3_def by (rule advances_trans) (simp add: advances_core)
  have r: "onViewIn ops v e =
      andThen (if en_checkpoint e3 = None then advanceCursorIn ops (vr_position v) False e3 else Inr e3) (\<lambda>e4.
           if en_frozen e4 then Inr e4
           else if en_frozen e then landIn ops e4
           else Inr (fold (\<lambda>sl e. if \<not> covered (vr_selectors v) sl then dropSliceIn ops sl e else e)
                  (map fst (en_slices e4)) e4))"
    unfolding onViewIn_def Let_def e3_def e2_def e1_def sels_def old_def starts_def by simp
  show ?thesis
    unfolding r
    by (rule advancesR_trans [OF e3], rule advancesR_then)
      (auto intro: advances_advanceCursorIn advances_landIn advances_drops)
qed

lemma advances_onItemIn: "advancesR e (onItemIn ops item e)"
proof -
  have conf: "advances e (e\<lparr>en_confirmed := True\<rparr>)" by (simp add: advances_core)
  show ?thesis
  proof (cases item)
    case (OpenF ep head)
    then show ?thesis
      by (auto simp: onItemIn_def advances_def eng_inv_def sync_ok_def cursorOf_def logOf_def split: option.splits)
  qed (use conf in \<open>auto simp: onItemIn_def Let_def intro: advancesR_trans advances_onEditsIn advances_onViewIn
        advances_onCursorIn\<close>)
qed

lemma advances_onFrames: "advancesR e (onFrames ops items e)"
proof -
  have l: "advances e (fold resolveSlice ss (e\<lparr>en_live := True, en_attempt := 0\<rparr>))" for e :: "'a engine" and ss
    by (rule advances_trans [OF advances_core advances_fold]) (auto intro: advances_core)
  show ?thesis
    unfolding onFrames_def
    by (rule advancesR_then [OF advancesR_eachIn [OF advances_onItemIn]], rule advancesR_then)
      (auto intro: advances_tryLandIn l)
qed

end
