(* ===== verification/EnginePasses.thy ===== *)
theory EnginePasses
  imports EngineSafety
begin

text \<open>
  The Engine's passes as one step relation, and what holds in every state it reaches: every handler
  keeps the invariant of the checkpoint, the outbox and the backfills, and neither the cursor nor
  the base goes back.
\<close>

section \<open>The refresh\<close>

lemma core_estimate: "core (snd (estimate bs e)) = core e"
  unfolding estimate_def Let_def
  by (cases "case en_episode e of None \<Rightarrow> startEpisode e | Some ep \<Rightarrow> if episodeDone e ep then startEpisode e else Some ep")
    simp_all

lemma core_publish [simp]: "core (snd (publish e)) = core e"
  by (simp add: publish_def progressStatus_def Let_def case_prod_beta core_estimate)

lemma core_settleLoop: "core (settleLoop xs e) = core e"
  by (induction xs e rule: settleLoop.induct) (auto split: option.splits)

lemma core_refresh [simp]: "core (refresh b e) = core e"
  by (simp add: refresh_def Let_def case_prod_beta settleOnline_def core_settleLoop)

section \<open>Pushes and outcomes\<close>

lemma core_takeItem:
  assumes "takeItem ops sel item r e = Inr (r', e')"
  shows "core e' = core e"
  using assms
  by (cases item) (auto simp: takeItem_def onResume_def andThen_eq_Inr core_fold split: option.splits)

lemma advances_parkPushIn: "advancesR e (parkPushIn ops sel item e)"
proof (cases "map_of (en_backfills e) sel")
  case None
  then show ?thesis by (simp add: parkPushIn_def)
next
  case b: (Some b)
  have rest: "advancesR e (andThen (takeItem ops sel item (be_record b) e) (\<lambda>(r, e1).
       case bf_resume r of
         None \<Rightarrow> Inl (NoResume sel)
       | Some x \<Rightarrow> Inr (setIn ops (BACKFILL @ sel) (BackfillV r)
           (onEntry sel (\<lambda>b. b\<lparr>be_record := r, be_ready := ready x, be_scanned := scanned\<rparr>) e1))))"
    for ready scanned
  proof (rule advancesR_andThen [where proj = snd])
    fix re
    assume t: "takeItem ops sel item (be_record b) e = Inr re"
    obtain r e1 where re: "re = (r, e1)" by (cases re)
    have "advances e1 (setIn ops (BACKFILL @ sel) (BackfillV r)
        (onEntry sel (\<lambda>b. b\<lparr>be_record := r, be_ready := ready x, be_scanned := scanned\<rparr>) e1))"
      if "bf_resume r = Some x" for x
      by (rule flightOnly_advances, rule flightOnly_trans [OF flightOnly_onEntry flightOnly_core])
        (use that in simp_all)
    then show "advances e (snd re) \<and> advancesR (snd re) (case re of (r, e1) \<Rightarrow>
        case bf_resume r of None \<Rightarrow> Inl (NoResume sel)
        | Some x \<Rightarrow> Inr (setIn ops (BACKFILL @ sel) (BackfillV r)
           (onEntry sel (\<lambda>b. b\<lparr>be_record := r, be_ready := ready x, be_scanned := scanned\<rparr>) e1)))"
      using core_takeItem [OF t [unfolded re]] by (auto simp: re advances_core split: option.splits)
  qed
  have len: "advances e (onEntry sel (\<lambda>b. b\<lparr>be_length := n\<rparr>) e)" for n
    by (rule flightOnly_advances, rule flightOnly_onEntry) (use flight_lookup in auto)
  show ?thesis
    unfolding parkPushIn_def b Let_def using rest len by (auto split: backfill_item.splits)
qed

lemma advances_emits: "advances e (fold (\<lambda>w. emit (f w)) ws e)"
  by (rule advances_core, rule core_fold) simp

lemma advances_onBackfillWork: "advancesR e (onBackfillWork ops works e)"
proof -
  have done': "advances e (refresh False (fold (\<lambda>w. emit (ResolvePush (bw_promise w))) pushes e))"
    for e :: "'a engine" and pushes
    by (rule advances_core) (simp add: core_fold)
  show ?thesis
    unfolding onBackfillWork_def Let_def
    by (simp add: advances_emits, rule impI, rule advancesR_trans [OF advances_emits], rule advancesR_then,
        rule advancesR_eachIn, rule advances_parkPushIn, rule advancesR_then, rule advances_tryLandIn)
      (simp add: done')
qed

lemma advances_onBackfillOutcome: "advances e (onBackfillOutcome ops w e)"
proof -
  have upd: "flightOnly e (onEntry sel f e)"
    if "\<And>b. be_ready (f b) \<longrightarrow> be_ready b \<and> (bf_resume (be_record b) \<noteq> None \<longrightarrow> bf_resume (be_record (f b)) \<noteq> None)"
    for e :: "'a engine" and sel f
    by (rule flightOnly_onEntry) (use that flight_lookup in blast)
  have stale: "flightOnly e (startBackfill sel (setIn ops k v
      (onEntry sel (\<lambda>b. b\<lparr>be_record := r, be_attempts := 0\<rparr>) (delPrefixIn ops p e))))"
    if b: "map_of (en_backfills e) sel = Some b" and r: "bf_resume (be_record b) \<noteq> None \<longrightarrow> bf_resume r \<noteq> None"
    for sel k v r p b
  proof -
    have "flightOnly (delPrefixIn ops p e) (onEntry sel (\<lambda>b. b\<lparr>be_record := r, be_attempts := 0\<rparr>) (delPrefixIn ops p e))"
      by (rule flightOnly_onEntry)
        (use b r flight_lookup [of "en_backfills e" sel b] in \<open>auto simp: delPrefixIn_def\<close>)
    then show ?thesis
      by (meson core_store flightOnly_core flightOnly_startBackfill flightOnly_trans)
  qed
  show ?thesis
    unfolding onBackfillOutcome_def Let_def
    by (auto split: option.splits backfill_outcome.splits
        intro!: flightOnly_advances stale upd)
qed

lemma advances_onBackfillOutcomes: "advances e (onBackfillOutcomes ops ws e)"
  unfolding onBackfillOutcomes_def by (rule advances_fold) (rule advances_onBackfillOutcome)

lemma advances_onRetryTimer: "advances e (onRetryTimer sel i e)"
proof -
  have "flightOnly e (startBackfill sel (onEntry sel (\<lambda>b. b\<lparr>be_retryAt := None\<rparr>) e))"
    by (rule flightOnly_trans [OF flightOnly_onEntry flightOnly_startBackfill]) (use flight_lookup in auto)
  then show ?thesis by (simp add: onRetryTimer_def flightOnly_advances)
qed

lemma advances_startCalls: "advances e (startCalls e)"
  unfolding startCalls_def
  by (rule advances_core, rule trans, rule core_fold) (auto split: prod.splits)

section \<open>Mutations\<close>

lemma core_resendRows: "resendRows ops os e = Inr (ms, e') \<Longrightarrow> core e' = core e"
proof (induction os arbitrary: e ms e')
  case (Cons o' os)
  obtain v e1 where g: "getIn ops (mutationKey o') MUTATION_TYPE e = Inr (v, e1)"
    using Cons.prems by (cases "getIn ops (mutationKey o') MUTATION_TYPE e") auto
  obtain m where v: "v = Some (MutationV m)"
    using Cons.prems unfolding resendRows.simps g andThen_Inr prod.case
    by (auto split: option.splits engine_value.splits)
  obtain ms' where "resendRows ops os e1 = Inr (ms', e')"
    using Cons.prems unfolding resendRows.simps g v andThen_Inr prod.case option.case engine_value.case
    by (cases "resendRows ops os e1") auto
  then show ?case using Cons.IH core_getIn [OF g] by metis
qed simp

lemma outbox_ok_add: "outbox_ok outbox acked low \<Longrightarrow> outbox_ok (AList.update i n outbox) acked low"
  by (auto simp: outbox_ok_def distinct_update dom_update)

lemma advances_takeSubmitted:
  "takeSubmitted ops convert uuid ss (calls, e) = Inr (calls', e') \<Longrightarrow> advances e e'"
proof (induction ss arbitrary: calls e)
  case (Cons s ss)
  show ?case
  proof (cases s)
    case (OutboxM m)
    obtain data where d: "convert m = Inr data" using Cons.prems OutboxM by (cases "convert m") auto
    define e1 where "e1 = setIn ops (mutationKey (en_nextOrdinal e)) (MutationV (mint uuid data e))
       (e\<lparr>en_nextN := en_nextN e + 1, en_nextOrdinal := en_nextOrdinal e + 1,
          en_outbox := AList.update (mu_id (mint uuid data e)) (en_nextOrdinal e) (en_outbox e),
          en_outboxChanged := True\<rparr>)"
    have "advances e e1"
      by (auto simp: e1_def advances_def eng_inv_def setIn_def cursorOf_def logOf_def intro: outbox_ok_add)
    moreover have "advances e1 e'"
      using Cons.prems Cons.IH by (simp add: OutboxM d Let_def e1_def)
    ultimately show ?thesis by (rule advances_trans)
  next
    case (OnlineM m)
    obtain data where d: "convert m = Inr data" using Cons.prems OnlineM by (cases "convert m") auto
    have "advances (e\<lparr>en_nextN := en_nextN e + 1\<rparr>) e'"
      using Cons.prems Cons.IH by (simp add: OnlineM d)
    moreover have "advances e (e\<lparr>en_nextN := en_nextN e + 1\<rparr>)" by (rule advances_core) simp
    ultimately show ?thesis using advances_trans by blast
  qed
qed simp

lemma core_sendCall [simp]: "core (sendCall c e) = core e" and core_rejectCall [simp]: "core (rejectCall c e) = core e"
  by (simp_all add: sendCall_def rejectCall_def Let_def)

lemma advances_onSubmitted: "advancesR e (onSubmitted ops convert uuid ss e)"
proof (cases "onSubmitted ops convert uuid ss e")
  case (Inr e')
  define e0 where "e0 = e\<lparr>en_resend := False\<rparr>"
  define r where "r = (if en_resend e \<and> en_connected e then resendRows ops (pendingOrdinals e0) e0 else Inr ([], e0))"
  have res: "onSubmitted ops convert uuid ss e = andThen r (\<lambda>(rows, e1).
      andThen (takeSubmitted ops convert uuid ss ([\<lparr>ca_wire = rows, ca_online = False\<rparr>], e1))
        (\<lambda>(calls, e2). let e3 = refresh False e2 in
          Inr (if en_connected e3 then fold sendCall calls e3 else fold rejectCall calls e3)))"
    by (simp add: onSubmitted_def Let_def r_def e0_def)
  obtain rows e1 where r1: "r = Inr (rows, e1)" using Inr unfolding res by (cases r) auto
  have "core e1 = core e"
    using r1 core_resendRows [of ops "pendingOrdinals e0" e0 rows e1] by (auto simp: r_def e0_def split: if_splits)
  moreover obtain calls e2 where t:
    "takeSubmitted ops convert uuid ss ([\<lparr>ca_wire = rows, ca_online = False\<rparr>], e1) = Inr (calls, e2)"
    using Inr unfolding res r1 andThen_Inr prod.case
    by (cases "takeSubmitted ops convert uuid ss ([\<lparr>ca_wire = rows, ca_online = False\<rparr>], e1)") auto
  moreover have "core e' = core e2"
    using Inr unfolding res r1 andThen_Inr prod.case t by (auto simp: Let_def core_fold split: if_splits)
  ultimately have "advances e e'"
    using advances_takeSubmitted [OF t] advances_core by (metis advances_trans)
  then show ?thesis by (simp add: Inr)
qed simp

text \<open>
  Between the answers and the release, an acked mutation may be at or below the base, and is then
  among those to drop.
\<close>

definition answered :: "jsstr list \<Rightarrow> 't engine \<Rightarrow> 't engine \<Rightarrow> bool" where
  "answered drop' a e =
     (en_checkpoint e = en_checkpoint a \<and> en_applied e = en_applied a \<and> en_epoch e = en_epoch a \<and>
      en_backfills e = en_backfills a \<and> en_outbox e = en_outbox a \<and>
      (\<exists>low. outbox_ok (en_outbox e) (en_acked e) low) \<and>
      (\<forall>(i, p) \<in> set (en_acked e). en_applied e < p \<or> i \<in> set drop'))"

lemma outbox_ok_ack:
  assumes "outbox_ok outbox acked low" "i \<in> fst ` set outbox"
  shows "outbox_ok outbox (AList.update i p acked) (min low (p - 1))"
proof -
  have "\<forall>(j, q) \<in> set (AList.update i p acked). min low (p - 1) < q"
    using set_update_sub [of i p acked] assms(1) by (fastforce simp: outbox_ok_def)
  then show ?thesis using assms by (auto simp: outbox_ok_def distinct_update dom_update)
qed

lemma answered_takeAnswer:
  assumes "answered drop' a e" "takeAnswer ir (drop', e) = (drop'', e')"
  shows "answered drop'' a e'"
proof -
  obtain i r where ir: "ir = (i, r)" by (cases ir)
  show ?thesis
  proof (cases "map_of (en_online e) i")
    case (Some o')
    then show ?thesis using assms
      by (auto simp: ir takeAnswer_def answered_def emit_def split: mutation_result.splits)
  next
    case None
    show ?thesis
    proof (cases "i \<in> fst ` set (en_outbox e)")
      case False
      then show ?thesis using assms None by (auto simp: ir takeAnswer_def)
    next
      case in_out: True
      show ?thesis
      proof (cases r)
        case (OkAt p)
        define q where "q = min p (case map_of (en_acked e) i of None \<Rightarrow> p | Some q \<Rightarrow> q)"
        have e': "e' = e\<lparr>en_acked := AList.update i q (en_acked e)\<rparr>"
          and d: "drop'' = (if q \<le> en_applied e then drop' @ [i] else drop')"
          using assms(2) None in_out by (auto simp: ir takeAnswer_def OkAt q_def Let_def)
        have "\<exists>low. outbox_ok (en_outbox e) (AList.update i q (en_acked e)) low"
          using assms(1) in_out outbox_ok_ack unfolding answered_def by blast
        moreover have "\<forall>(j, p) \<in> set (AList.update i q (en_acked e)). en_applied e < p \<or> j \<in> set drop''"
        proof (clarify)
          fix j p
          assume j: "(j, p) \<in> set (AList.update i q (en_acked e))" "j \<notin> set drop''"
          then have "(j, p) = (i, q) \<or> (j, p) \<in> set (en_acked e)"
            using set_update_sub [of i q "en_acked e"] by auto
          then show "en_applied e < p"
            using j(2) assms(1) by (auto simp: answered_def d split: if_splits)
        qed
        ultimately show ?thesis using assms(1) by (simp add: answered_def e')
      qed (use assms None in_out in \<open>auto simp: ir takeAnswer_def answered_def\<close>)
    qed
  qed
qed

lemma answered_takeAnswers:
  "answered drop' a e \<Longrightarrow> fold takeAnswer irs (drop', e) = (drop'', e') \<Longrightarrow> answered drop'' a e'"
proof (induction irs arbitrary: drop' e)
  case (Cons ir irs)
  obtain d1 e1 where t: "takeAnswer ir (drop', e) = (d1, e1)" by fastforce
  show ?case
    by (rule Cons.IH [OF answered_takeAnswer [OF Cons.prems(1) t]]) (use Cons.prems(2) t in simp)
qed simp

lemma rejectFailed_fields: "answered drop' a e \<Longrightarrow> answered drop' a (fold rejectFailed ids e)"
proof (induction ids arbitrary: e)
  case (Cons i ids)
  show ?case
    unfolding fold_Cons comp_def
    by (rule Cons.IH) (use Cons.prems in \<open>auto simp: rejectFailed_def answered_def emit_def\<close>)
qed simp

lemma answered_takeOutcome:
  assumes "answered drop' a e" "takeOutcome oc (drop', e) = (drop'', e')"
  shows "answered drop'' a e'"
proof (cases "mo_results oc")
  case None
  then have "drop'' = drop'" "e' = fold rejectFailed (mo_ids oc) e \<or>
      e' = emit (AbortConnection (mo_conn oc)) (fold rejectFailed (mo_ids oc) e)"
    using assms(2) by (auto simp: takeOutcome_def Let_def split: if_splits)
  moreover have "answered drop' a (emit x e) = answered drop' a e" for x and e :: "'a engine"
    by (simp add: answered_def emit_def)
  ultimately show ?thesis using rejectFailed_fields [OF assms(1), of "mo_ids oc"] by auto
next
  case (Some rs)
  then show ?thesis using assms answered_takeAnswers by (simp add: takeOutcome_def)
qed

lemma answered_takeOutcomes:
  "answered drop' a e \<Longrightarrow> fold takeOutcome ocs (drop', e) = (drop'', e') \<Longrightarrow> answered drop'' a e'"
proof (induction ocs arbitrary: drop' e)
  case (Cons oc ocs)
  obtain d1 e1 where t: "takeOutcome oc (drop', e) = (d1, e1)" by fastforce
  show ?case
    by (rule Cons.IH [OF answered_takeOutcome [OF Cons.prems(1) t]]) (use Cons.prems(2) t in simp)
qed simp

lemma advances_onMutationOutcomes: "advances e (onMutationOutcomes ops outcomes e)"
proof (rule advancesI)
  assume inv: "eng_inv e"
  obtain drop' e1 where f: "fold takeOutcome outcomes ([], e) = (drop', e1)" by fastforce
  define e2 where "e2 = releaseIn ops drop' e1"
  have "answered [] e e" using inv by (auto simp: answered_def eng_inv_def outbox_ok_def)
  then have an: "answered drop' e e1" using f by (rule answered_takeOutcomes)
  then obtain low where low: "outbox_ok (en_outbox e1) (en_acked e1) low" by (auto simp: answered_def)
  have "en_applied e1 < p" if "(i, p) \<in> set (en_acked e2)" for i p
    using acked_releaseIn [OF low that [unfolded e2_def]] an by (auto simp: answered_def)
  then have "outbox_ok (en_outbox e2) (en_acked e2) (en_applied e2)"
    using outbox_ok_raise [OF outbox_ok_releaseIn [OF low]] by (simp add: e2_def)
  then have "advances e e2"
    using an inv by (simp add: answered_def advances_def eng_inv_def cursorOf_def logOf_def e2_def)
  then show "advances e (onMutationOutcomes ops outcomes e)"
    by (rule advances_trans) (simp add: onMutationOutcomes_def f e2_def advances_core)
qed

section \<open>Connections and the first run\<close>

lemma advances_onConnect: "advances e (onConnect e)"
proof -
  define e1 where "e1 = e\<lparr>en_asked := en_connectNow e, en_connectNow := False, en_nextAttemptAt := None,
      en_retrying := False, en_since := cursorOf e, en_confirmed := False, en_connected := True\<rparr>"
  define e2 where "e2 = emit (OpenConnection (en_since e1) (map_option vr_token (en_view e1)) (en_wants e1)) e1"
  have "advances e e2" by (rule advances_core) (simp add: e2_def, simp add: e1_def core_def)
  also have "advances e2 (fold (startBackfill \<circ> fst) ws e2)" for ws
    by (rule advances_fold) (simp add: flight_steps)
  finally have "advances e (fold (startBackfill \<circ> fst) ws e2)" for ws .
  then have "advances e ((fold (startBackfill \<circ> fst) ws e2)\<lparr>en_resend := True\<rparr>)" for ws
    by (rule advances_trans [where b = "fold (startBackfill \<circ> fst) ws e2"]) (simp_all add: advances_core)
  then show ?thesis unfolding onConnect_def Let_def e1_def e2_def .
qed

lemma advances_onEnd: "advances e (onEnd now random e)"
  by (auto simp: onEnd_def emit_def advances_def eng_inv_def sync_ok_def cursorOf_def logOf_def split: option.splits)

lemma core_rejectOnline [simp]: "core (rejectOnline ss e) = core e"
  by (simp add: rejectOnline_def core_fold)

lemma core_shutdown [simp]: "core (shutdown ss promises e) = core e"
proof -
  have "core (e\<lparr>en_retrying := a, en_connected := b, en_starts := st\<rparr>) = core e"
    for e :: "'a engine" and a b st by (simp add: core_def)
  then show ?thesis by (simp add: shutdown_def core_fold)
qed

lemma advances_purgeIn: "advancesR e (purgeIn ops e)"
proof -
  define wanted where "wanted = covered (en_wants e)"
  define e1 where "e1 = fold (\<lambda>sel e. if \<not> wanted sel then dropBackfillIn ops sel e else e)
      (map fst (en_backfills e)) e"
  define e2 where "e2 = fold (\<lambda>sl e. if \<not> wanted sl then dropSliceIn ops sl e else e) (map fst (en_slices e1)) e1"
  have "advances e e1" unfolding e1_def by (rule advances_fold) (auto intro: flight_steps)
  also have "advances e1 e2" unfolding e2_def by (rule advances_drops)
  finally have e2: "advances e e2" .
  have r: "purgeIn ops e = andThen (dropParkedIn ops wanted e2) (\<lambda>e3.
         let e4 = (case en_view e3 of
                None \<Rightarrow> e3
              | Some v \<Rightarrow>
                  if list_all wanted (vr_selectors v) then e3
                  else let v' = v\<lparr>vr_selectors := filter wanted (vr_selectors v)\<rparr> in
                    setIn ops VIEW (ViewV v') (e3\<lparr>en_view := Some v'\<rparr>))
         in if en_frozen e then tryLandIn ops e4 else Inr e4)"
    unfolding purgeIn_def Let_def e2_def e1_def wanted_def by simp
  have v: "advances x (case en_view x of None \<Rightarrow> x | Some v \<Rightarrow>
        if list_all wanted (vr_selectors v) then x
        else let v' = v\<lparr>vr_selectors := filter wanted (vr_selectors v)\<rparr> in
          setIn ops VIEW (ViewV v') (x\<lparr>en_view := Some v'\<rparr>))" for x :: "'a engine"
    by (auto simp: Let_def split: option.splits intro: advances_core)
  show ?thesis
    unfolding r
  proof (rule advancesR_trans [OF e2], rule advancesR_andThen [where proj = id])
    fix e3 assume d: "dropParkedIn ops wanted e2 = Inr e3"
    have land: "advancesR e3 (tryLandIn ops e4)" if "advances e3 e4" for e4
      using that advances_tryLandIn by (rule advancesR_trans)
    show "advances e2 (id e3) \<and> advancesR (id e3) (let e4 = (case en_view e3 of
                None \<Rightarrow> e3
              | Some v \<Rightarrow>
                  if list_all wanted (vr_selectors v) then e3
                  else let v' = v\<lparr>vr_selectors := filter wanted (vr_selectors v)\<rparr> in
                    setIn ops VIEW (ViewV v') (e3\<lparr>en_view := Some v'\<rparr>))
         in if en_frozen e then tryLandIn ops e4 else Inr e4)"
      using advances_core [OF core_dropParkedIn [OF d]] v [of e3] land [OF v [of e3]]
      unfolding Let_def id_apply by simp
  qed
qed


text \<open>The first run: a stored checkpoint whose base does not pass its cursor gives the invariant.\<close>

definition checkpoint_ok :: "checkpoint_record \<Rightarrow> bool" where
  "checkpoint_ok c = (cr_applied c \<le> cr_position c \<and> -1 \<le> cr_position c)"

lemma loadOutbox_distinct:
  "loadOutbox rows (m, n) = Inr (m', n') \<Longrightarrow> distinct (map fst m) \<Longrightarrow> distinct (map fst m')"
proof (induction rows arbitrary: m n)
  case (Cons r rows)
  obtain k v where r: "r = (k, v)" by (cases r)
  obtain mu where v: "v = Some (MutationV mu)"
    using Cons.prems(1) by (auto simp: r split: option.splits engine_value.splits)
  obtain ordinal where n: "parseNumber (slice_after MUTATION k) = Some ordinal"
    using Cons.prems(1) by (auto simp: r v split: option.splits)
  show ?case
    using Cons.prems Cons.IH by (simp add: r v n distinct_update)
qed simp

lemma loadBackfills_flight:
  "loadBackfills rows (m, n) = Inr (m', n') \<Longrightarrow> flight_ok m \<Longrightarrow> flight_ok m'"
proof (induction rows arbitrary: m n)
  case (Cons r rows)
  obtain k v where r: "r = (k, v)" by (cases r)
  obtain b where v: "v = Some (BackfillV b)"
    using Cons.prems(1) by (auto simp: r split: option.splits engine_value.splits)
  have "flight_ok (AList.update (slice_after BACKFILL k) (loadedEntry n b) m)"
    by (rule flight_update [OF Cons.prems(2)]) (auto simp: loadedEntry_def newBackfillEntry_def split: option.splits)
  then show ?case using Cons.prems(1) Cons.IH by (simp add: r v)
qed simp

end
