(* ===== verification/Advancer.thy ===== *)
theory Advancer
  imports EnginePasses
begin

text \<open>
  The Engine's main loop (typespec/ts/assets/skeleton.ts, \<open>#advancer\<close>): the queues of work, the pass
  each turn takes by the priority of the branches, and the run until none is left. The app's callbacks
  and the transport's hooks may call the Engine while a turn runs; a run ends once they stop to.
\<close>

section \<open>The queues\<close>

text \<open>What the loop draws from outside: the store's operations, and the conversions and draws of its passes.\<close>

record ('t, 'm) world =
  wd_ops :: "'t wtxn"
  wd_convert :: "'m \<Rightarrow> jsstr + bytes"
  wd_uuid :: "nat \<Rightarrow> jsstr"
  wd_now :: "nat \<Rightarrow> real"
  wd_random :: "nat \<Rightarrow> real"

record ('t, 'm) advancer =
  ad_engine :: "'t engine"
  ad_submitted :: "'m submission list"
  ad_inbox :: "inbound list"
  ad_answers :: "mutation_outcome list"
  ad_outcomes :: "outcome_work list"
  ad_work :: "backfill_work list"
  ad_scheduled :: bool
  ad_aborted :: bool
  ad_ended :: bool
  ad_initialized :: bool

text \<open>
  A queue is emptied as its pass takes it; the inbox up to the first end, or an end alone. The clock
  and the draw of an end are those of its connection.
\<close>

definition onInbox :: "('t, 'm) world \<Rightarrow> ('t, 'm) advancer \<Rightarrow> engine_error + ('t, 'm) advancer" where
  "onInbox w a =
     (let e = ad_engine a in
      case ad_inbox a of
        EndF fatal # rest \<Rightarrow>
          (case fatal of
             Some err \<Rightarrow> Inl (FatalEnd err)
           | None \<Rightarrow> Inr (a\<lparr>ad_inbox := rest,
               ad_engine := onEnd (wd_now w (en_conn e)) (wd_random w (en_conn e)) e\<rparr>))
      | items \<Rightarrow>
          andThen (onFrames (wd_ops w) (takeWhile (Not \<circ> is_end) items) e) (\<lambda>e'.
            Inr (a\<lparr>ad_inbox := dropWhile (Not \<circ> is_end) items, ad_engine := refresh False e'\<rparr>)))"

definition canConnect :: "'t engine \<Rightarrow> bool" where
  "canConnect e = (\<not> en_connected e \<and> (en_connectNow e \<or> \<not> en_retrying e))"

text \<open>The @online submissions and the pushes that an ended Engine rejects.\<close>

definition shutdownIn :: "('t, 'm) advancer \<Rightarrow> ('t, 'm) advancer" where
  "shutdownIn a =
     a\<lparr>ad_engine := shutdown (ad_submitted a) (map bw_promise (ad_work a)) (ad_engine a), ad_work := [],
       ad_ended := True\<rparr>"

definition onEngine :: "('t engine \<Rightarrow> 't engine) \<Rightarrow> ('t, 'm) advancer \<Rightarrow> ('t, 'm) advancer" where
  "onEngine f a = a\<lparr>ad_engine := f (ad_engine a)\<rparr>"

definition onEngineR ::
  "('t engine \<Rightarrow> engine_error + 't engine) \<Rightarrow> ('t, 'm) advancer \<Rightarrow> engine_error + ('t, 'm) advancer" where
  "onEngineR f a = andThen (f (ad_engine a)) (\<lambda>e. Inr (a\<lparr>ad_engine := e\<rparr>))"

section \<open>Calls from outside\<close>

text \<open>\<open>#schedule\<close>: the timer of the next run is set, once.\<close>

definition scheduleRun :: "('t, 'm) advancer \<Rightarrow> ('t, 'm) advancer" where
  "scheduleRun a = a\<lparr>ad_scheduled := True\<rparr>"

definition sendMutation :: "'m \<Rightarrow> ('t, 'm) advancer \<Rightarrow> ('t, 'm) advancer" where
  "sendMutation m a = scheduleRun (a\<lparr>ad_submitted := ad_submitted a @ [OutboxM m]\<rparr>)"

text \<open>An ended Engine rejects the submission, named by the place it would have had.\<close>

definition sendOnlineMutation :: "'m \<Rightarrow> ('t, 'm) advancer \<Rightarrow> ('t, 'm) advancer" where
  "sendOnlineMutation m a =
     (if ad_ended a \<or> ad_aborted a then onEngine (emit (RejectSubmission (length (ad_submitted a)))) a
      else scheduleRun (a\<lparr>ad_submitted := ad_submitted a @ [OnlineM m]\<rparr>))"

definition reconnectNow :: "('t, 'm) advancer \<Rightarrow> ('t, 'm) advancer" where
  "reconnectNow a = scheduleRun (onEngine (\<lambda>e. e\<lparr>en_connectNow := True\<rparr>) a)"

definition newQuery :: "('t, 'm) advancer \<Rightarrow> ('t, 'm) advancer" where
  "newQuery a = scheduleRun (onEngine (\<lambda>e. e\<lparr>en_newQueries := True\<rparr>) a)"

text \<open>A hook of a connection: one since replaced, or of an ended Engine, is dropped.\<close>

definition receive :: "nat \<Rightarrow> inbound \<Rightarrow> ('t, 'm) advancer \<Rightarrow> ('t, 'm) advancer" where
  "receive conn item a =
     (if ad_ended a \<or> en_conn (ad_engine a) \<noteq> conn then a
      else scheduleRun (a\<lparr>ad_inbox := ad_inbox a @ [item]\<rparr>))"

definition answer :: "mutation_outcome \<Rightarrow> ('t, 'm) advancer \<Rightarrow> ('t, 'm) advancer" where
  "answer oc a = scheduleRun (a\<lparr>ad_answers := ad_answers a @ [oc]\<rparr>)"

definition pushWork :: "backfill_work \<Rightarrow> ('t, 'm) advancer \<Rightarrow> ('t, 'm) advancer" where
  "pushWork w a =
     (if ad_ended a then onEngine (emit (RejectPush (bw_promise w))) a
      else scheduleRun (a\<lparr>ad_work := ad_work a @ [w]\<rparr>))"

definition backfillEnds :: "outcome_work \<Rightarrow> ('t, 'm) advancer \<Rightarrow> ('t, 'm) advancer" where
  "backfillEnds w a = scheduleRun (a\<lparr>ad_outcomes := ad_outcomes a @ [w]\<rparr>)"

text \<open>The timers: of the next connection, and of a failed download.\<close>

definition connectTimer :: "('t, 'm) advancer \<Rightarrow> ('t, 'm) advancer" where
  "connectTimer a = scheduleRun (onEngine (\<lambda>e. e\<lparr>en_retrying := False\<rparr>) a)"

definition retryTimer :: "jsstr \<Rightarrow> nat \<Rightarrow> ('t, 'm) advancer \<Rightarrow> ('t, 'm) advancer" where
  "retryTimer selector i a =
     (if ad_ended a \<or> ad_aborted a \<or> \<not> current (ad_engine a) selector i then a
      else scheduleRun (onEngine (onRetryTimer selector i) a))"

text \<open>A signal aborts once.\<close>

definition abortEngine :: "('t, 'm) advancer \<Rightarrow> ('t, 'm) advancer" where
  "abortEngine a = (if ad_aborted a then a else scheduleRun (a\<lparr>ad_aborted := True\<rparr>))"

datatype 'm event =
  Submits 'm
| SubmitsOnline 'm
| Reconnects
| Queries
| Receives nat inbound
| Answers mutation_outcome
| Pushes backfill_work
| BackfillEnds outcome_work
| ConnectTimes
| RetryTimes jsstr nat
| Aborts

fun occur :: "'m event \<Rightarrow> ('t, 'm) advancer \<Rightarrow> ('t, 'm) advancer" where
  "occur (Submits m) = sendMutation m"
| "occur (SubmitsOnline m) = sendOnlineMutation m"
| "occur Reconnects = reconnectNow"
| "occur Queries = newQuery"
| "occur (Receives conn item) = receive conn item"
| "occur (Answers oc) = answer oc"
| "occur (Pushes w) = pushWork w"
| "occur (BackfillEnds w) = backfillEnds w"
| "occur ConnectTimes = connectTimer"
| "occur (RetryTimes selector i) = retryTimer selector i"
| "occur Aborts = abortEngine"

lemmas event_defs = sendMutation_def sendOnlineMutation_def reconnectNow_def newQuery_def receive_def answer_def
  pushWork_def backfillEnds_def connectTimer_def retryTimer_def abortEngine_def scheduleRun_def onEngine_def

section \<open>One turn\<close>

text \<open>
  What calls the Engine while a turn runs: the hooks of the calls it starts, among which are counted those
  that the connection's signal sets off as an end aborts it; then, within its pass, the
  subscribers that the graph's callback notifies and the hooks of a connection being made. The queues
  they add to and the flags they set are not read or written again by the pass that called them, which
  calls the graph and the transport last of all that touches these, so the calls of a pass are put at
  its end. A callback that throws takes its pass with it. Predictors and queries, which are the app's code too,
  are taken to read and write only what their contexts give them, and a shutdown's signals to call nothing.
\<close>

record 'm during =
  du_starting :: "'m event list"
  du_passing :: "'m event list"
  du_throws :: "jsstr option"

text \<open>The pass of the first branch that has work, and whether the loop goes on.\<close>

definition passOf :: "('t, 'm) world \<Rightarrow> ('t, 'm) advancer \<Rightarrow> engine_error + (('t, 'm) advancer \<times> bool)" where
  "passOf w a =
     (let e = ad_engine a; ops = wd_ops w; go = (\<lambda>r. andThen r (\<lambda>a. Inr (a, True)))
      in if ad_submitted a \<noteq> [] \<or> en_resend e
         then go (onEngineR (onSubmitted ops (wd_convert w) (wd_uuid w) (ad_submitted a)) (a\<lparr>ad_submitted := []\<rparr>))
         else if en_newQueries e then Inr (onEngine (refresh False) a, True)
         else if ad_inbox a \<noteq> [] then go (onInbox w a)
         else if ad_answers a \<noteq> []
         then Inr (onEngine (onMutationOutcomes ops (ad_answers a)) (a\<lparr>ad_answers := []\<rparr>), True)
         else if ad_outcomes a \<noteq> []
         then Inr (onEngine (onBackfillOutcomes ops (ad_outcomes a)) (a\<lparr>ad_outcomes := []\<rparr>), True)
         else if ad_work a \<noteq> []
         then go (onEngineR (onBackfillWork ops (ad_work a)) (a\<lparr>ad_work := []\<rparr>))
         else if canConnect e then Inr (onEngine onConnect a, True)
         else Inr (onEngine (refresh False) a, False))"

definition turnOf ::
  "('t, 'm) world \<Rightarrow> 'm during \<Rightarrow> ('t, 'm) advancer \<Rightarrow> engine_error + (('t, 'm) advancer \<times> bool)" where
  "turnOf w d a =
     (if ad_aborted a then Inr (shutdownIn a, False)
      else
        andThen (passOf w (fold occur (du_starting d) (onEngine startCalls a))) (\<lambda>(a', go).
        case du_throws d of
          Some what \<Rightarrow> Inl (CallbackThrew what)
        | None \<Rightarrow> Inr (fold occur (du_passing d) a', go)))"

section \<open>The fields the loop's end rests on\<close>

definition flow where
  "flow e = (en_connected e, en_connectNow e, en_retrying e, en_resend e)"

lemma flow_canConnect: "flow e' = flow e \<Longrightarrow> canConnect e' = canConnect e"
  by (simp add: flow_def canConnect_def)

lemma flow_simps [simp]:
  "flow (emit x e) = flow e" "flow (setIn ops k v e) = flow e"
  "flow (e\<lparr>en_txn := t\<rparr>) = flow e" "flow (e\<lparr>en_dirty := ks\<rparr>) = flow e"
  "flow (e\<lparr>en_online := om\<rparr>) = flow e" "flow (e\<lparr>en_status := su\<rparr>) = flow e" "flow (e\<lparr>en_episode := ep\<rparr>) = flow e"
  "flow (e\<lparr>en_outboxChanged := b\<rparr>) = flow e" "flow (e\<lparr>en_newQueries := b\<rparr>) = flow e"
  "flow (e\<lparr>en_nextN := n\<rparr>) = flow e" "flow (e\<lparr>en_sent := ids\<rparr>) = flow e" "flow (e\<lparr>en_starts := st\<rparr>) = flow e"
  by (simp_all add: flow_def emit_def setIn_def)

lemma fold_keeps: "(\<And>x e. q (f x e) = q e) \<Longrightarrow> q (fold f xs e) = q e"
  by (induction xs arbitrary: e) auto

lemmas flow_fold = fold_keeps [where q = flow]

lemma flow_estimate [simp]: "flow (snd (estimate bs e)) = flow e"
  unfolding estimate_def Let_def
  by (cases "case en_episode e of None \<Rightarrow> startEpisode e | Some ep \<Rightarrow> if episodeDone e ep then startEpisode e else Some ep")
    simp_all

lemma flow_publish [simp]: "flow (snd (publish e)) = flow e"
  by (simp add: publish_def progressStatus_def Let_def case_prod_beta)

lemma flow_settleLoop: "flow (settleLoop xs e) = flow e"
  by (induction xs e rule: settleLoop.induct) (auto split: option.splits)

lemma flow_refresh [simp]: "flow (refresh b e) = flow e"
  by (simp add: refresh_def Let_def case_prod_beta settleOnline_def flow_settleLoop)

lemma newQueries_settleLoop: "en_newQueries (settleLoop xs e) = en_newQueries e"
  by (induction xs e rule: settleLoop.induct) (auto simp: emit_def split: option.splits)

lemma newQueries_refresh [simp]: "\<not> en_newQueries (refresh b e)"
  by (auto simp: refresh_def Let_def case_prod_beta settleOnline_def newQueries_settleLoop emit_def)

lemma flow_startCalls [simp]: "flow (startCalls e) = flow e"
proof -
  have "flow (fold (\<lambda>(selector, i) e. if \<not> en_connected e \<or> \<not> current e selector i then e
      else emit (StartBackfillCall selector i) e) xs e) = flow e" for xs and e :: "'a engine"
    by (rule flow_fold) (simp split: prod.split)
  then show ?thesis by (simp add: startCalls_def)
qed

lemma newQueries_startCalls [simp]: "en_newQueries (startCalls e) = en_newQueries e"
proof -
  have "en_newQueries (fold (\<lambda>(selector, i) e. if \<not> en_connected e \<or> \<not> current e selector i then e
      else emit (StartBackfillCall selector i) e) xs e) = en_newQueries e" for xs and e :: "'a engine"
    by (rule fold_keeps) (simp add: emit_def split: prod.split)
  then show ?thesis by (simp add: startCalls_def)
qed

lemma flow_resendRows: "resendRows ops os e = Inr (ms, e') \<Longrightarrow> flow e' = flow e"
proof (induction os arbitrary: e ms e')
  case (Cons o' os)
  obtain v e1 where g: "getIn ops (mutationKey o') MUTATION_TYPE e = Inr (v, e1)"
    using Cons.prems by (cases "getIn ops (mutationKey o') MUTATION_TYPE e") auto
  obtain m where v: "v = Some (MutationV m)"
    using Cons.prems unfolding resendRows.simps g andThen_Inr prod.case
    by (auto split: option.splits engine_value.splits)
  obtain ms' where "resendRows ops os e1 = Inr (ms', e')"
    using Cons.prems unfolding resendRows.simps g v andThen_Inr prod.case option.case engine_value.case
    by (cases "resendRows ops os e1") auto
  moreover have "flow e1 = flow e" using g by (auto simp: getIn_def split: sum.splits)
  ultimately show ?case using Cons.IH by metis
qed simp

lemma flow_takeSubmitted:
  "takeSubmitted ops convert uuid ss (calls, e) = Inr (calls', e') \<Longrightarrow> flow e' = flow e"
proof (induction ss arbitrary: calls e)
  case (Cons s ss)
  show ?case
  proof (cases s)
    case (OutboxM m)
    then obtain data where d: "convert m = Inr data" using Cons.prems by (cases "convert m") auto
    show ?thesis using Cons.prems Cons.IH by (fastforce simp: OutboxM d Let_def flow_def setIn_def)
  next
    case (OnlineM m)
    then obtain data where d: "convert m = Inr data" using Cons.prems by (cases "convert m") auto
    show ?thesis using Cons.prems Cons.IH by (fastforce simp: OnlineM d)
  qed
qed simp

lemma flow_calls [simp]: "flow (sendCall c e) = flow e" "flow (rejectCall c e) = flow e"
  by (simp_all add: sendCall_def rejectCall_def Let_def)

lemma flow_onSubmitted:
  assumes "onSubmitted ops convert uuid ss e = Inr e'"
  shows "flow e' = flow (e\<lparr>en_resend := False\<rparr>)"
proof -
  define e0 where "e0 = e\<lparr>en_resend := False\<rparr>"
  define r where "r = (if en_resend e \<and> en_connected e then resendRows ops (pendingOrdinals e0) e0 else Inr ([], e0))"
  have res: "onSubmitted ops convert uuid ss e = andThen r (\<lambda>(rows, e1).
      andThen (takeSubmitted ops convert uuid ss ([\<lparr>ca_wire = rows, ca_online = False\<rparr>], e1))
        (\<lambda>(calls, e2). let e3 = refresh False e2 in
          Inr (if en_connected e3 then fold sendCall calls e3 else fold rejectCall calls e3)))"
    by (simp add: onSubmitted_def Let_def r_def e0_def)
  obtain rows e1 where r1: "r = Inr (rows, e1)" using assms unfolding res by (cases r) auto
  have "flow e1 = flow e0"
    using r1 flow_resendRows [of ops "pendingOrdinals e0" e0 rows e1] by (auto simp: r_def split: if_splits)
  moreover obtain calls e2 where t:
    "takeSubmitted ops convert uuid ss ([\<lparr>ca_wire = rows, ca_online = False\<rparr>], e1) = Inr (calls, e2)"
    using assms unfolding res r1 andThen_Inr prod.case
    by (cases "takeSubmitted ops convert uuid ss ([\<lparr>ca_wire = rows, ca_online = False\<rparr>], e1)") auto
  moreover have "flow e' = flow e2"
    using assms unfolding res r1 andThen_Inr prod.case t by (auto simp: Let_def flow_fold split: if_splits)
  ultimately show ?thesis using flow_takeSubmitted [OF t] by (simp add: e0_def)
qed

lemma connected_startBackfills: "en_connected (fold (startBackfill \<circ> fst) ws e) = en_connected e"
  by (induction ws arbitrary: e) (auto simp: startBackfill_def onEntry_def split: option.splits)

lemma canConnect_onConnect: "\<not> canConnect (onConnect e)"
  by (simp add: onConnect_def Let_def canConnect_def emit_def connected_startBackfills)

section \<open>A run of the loop\<close>

definition b2n :: "bool \<Rightarrow> nat" where "b2n b = (if b then 1 else 0)"

text \<open>
  What each turn lowers, first to last: the four queues of outside work, then a connection to make,
  then what is to be sent, then new queries.
\<close>

definition loopRank :: "('t, 'm) advancer \<Rightarrow> nat list" where
  "loopRank a =
     [length (ad_inbox a) + length (ad_answers a) + length (ad_outcomes a) + length (ad_work a),
      b2n (canConnect (ad_engine a)),
      b2n (ad_submitted a \<noteq> []) + b2n (en_resend (ad_engine a)),
      b2n (en_newQueries (ad_engine a))]"

lemma loopRank_less:
  "(loopRank a', loopRank a) \<in> lex less_than \<longleftrightarrow>
    (let w = (\<lambda>a. length (ad_inbox a) + length (ad_answers a) + length (ad_outcomes a) + length (ad_work a));
         c = (\<lambda>a. b2n (canConnect (ad_engine a)));
         s = (\<lambda>a. b2n (ad_submitted a \<noteq> []) + b2n (en_resend (ad_engine a)));
         q = (\<lambda>a. b2n (en_newQueries (ad_engine a)))
     in w a' < w a \<or> w a' = w a \<and> (c a' < c a \<or> c a' = c a \<and> (s a' < s a \<or> s a' = s a \<and> q a' < q a)))"
  by (simp add: loopRank_def Let_def)

lemma onInbox_shorter:
  assumes "onInbox w a = Inr a'" "ad_inbox a \<noteq> []"
  shows "length (ad_inbox a') < length (ad_inbox a) \<and> ad_answers a' = ad_answers a \<and>
    ad_outcomes a' = ad_outcomes a \<and> ad_work a' = ad_work a"
proof -
  obtain i rest where i: "ad_inbox a = i # rest" using assms(2) by (cases "ad_inbox a") auto
  show ?thesis
  proof (cases "is_end i")
    case True
    then obtain fatal where "i = EndF fatal" by (cases i) (auto simp: is_end_def)
    then show ?thesis using assms(1) i by (auto simp: onInbox_def Let_def split: option.splits)
  next
    case False
    then have r: "onInbox w a = andThen (onFrames (wd_ops w) (takeWhile (Not \<circ> is_end) (ad_inbox a)) (ad_engine a))
        (\<lambda>e'. Inr (a\<lparr>ad_inbox := dropWhile (Not \<circ> is_end) (ad_inbox a), ad_engine := refresh False e'\<rparr>))"
      using i by (cases i) (auto simp: onInbox_def Let_def is_end_def)
    obtain e' where "onFrames (wd_ops w) (takeWhile (Not \<circ> is_end) (ad_inbox a)) (ad_engine a) = Inr e'"
      using assms(1) unfolding r andThen_eq_Inr by blast
    then have "ad_inbox a' = dropWhile (Not \<circ> is_end) (ad_inbox a)"
      "ad_answers a' = ad_answers a" "ad_outcomes a' = ad_outcomes a" "ad_work a' = ad_work a"
      using assms(1) unfolding r by auto
    moreover have "length (dropWhile (Not \<circ> is_end) (ad_inbox a)) < length (ad_inbox a)"
      using False i length_dropWhile_le [of "Not \<circ> is_end" rest] by (simp add: le_imp_less_Suc)
    ultimately show ?thesis by simp
  qed
qed

lemma passOf_lowers:
  assumes t: "passOf w (onEngine startCalls a) = Inr (a', True)"
  shows "(loopRank a', loopRank a) \<in> lex less_than"
proof -
  define b where "b = onEngine startCalls a"
  define e where "e = ad_engine b"
  note t = t [folded b_def]
  note defs = passOf_def Let_def e_def [symmetric]
  have same: "ad_submitted b = ad_submitted a" "ad_inbox b = ad_inbox a" "ad_answers b = ad_answers a"
    "ad_outcomes b = ad_outcomes a" "ad_work b = ad_work a" by (simp_all add: b_def onEngine_def)
  have fl: "flow e = flow (ad_engine a)" "en_newQueries e = en_newQueries (ad_engine a)"
    by (simp_all add: e_def b_def onEngine_def)
  have cc: "canConnect e = canConnect (ad_engine a)" "en_resend e = en_resend (ad_engine a)"
    using flow_canConnect [OF fl(1)] fl(1) by (simp_all add: flow_def)
  show ?thesis
  proof (cases "ad_submitted b \<noteq> [] \<or> en_resend e")
    case True
    then obtain e' where s: "onSubmitted (wd_ops w) (wd_convert w) (wd_uuid w) (ad_submitted b) e = Inr e'"
      and a': "a' = b\<lparr>ad_submitted := [], ad_engine := e'\<rparr>"
      using t unfolding defs by (auto simp: onEngineR_def andThen_eq_Inr e_def)
    have "flow e' = flow (e\<lparr>en_resend := False\<rparr>)" by (rule flow_onSubmitted [OF s])
    then have "canConnect e' = canConnect e" "\<not> en_resend e'" by (simp_all add: flow_def canConnect_def)
    then show ?thesis
      using True unfolding loopRank_less by (auto simp: a' same cc b2n_def Let_def)
  next
    case ns: False
    show ?thesis
    proof (cases "en_newQueries e")
      case True
      then have a': "a' = onEngine (refresh False) b" using t ns unfolding defs by simp
      have "flow (refresh False e) = flow e" by simp
      then have "canConnect (refresh False e) = canConnect e" "en_resend (refresh False e) = en_resend e"
        by (simp_all add: flow_def canConnect_def)
      then show ?thesis
        using True unfolding loopRank_less a' by (simp add: onEngine_def e_def [symmetric] same cc fl b2n_def Let_def)
    next
      case nq: False
      show ?thesis
      proof (cases "ad_inbox b = []")
        case False
        then have "onInbox w b = Inr a'" using t ns nq unfolding defs by (auto simp: andThen_eq_Inr)
        then show ?thesis
          using onInbox_shorter [OF _ False] unfolding loopRank_less Let_def same [symmetric] by fastforce
      next
        case ni: True
        have "ad_inbox a' = [] \<and> (length (ad_answers a') + length (ad_outcomes a') + length (ad_work a') <
              length (ad_answers b) + length (ad_outcomes b) + length (ad_work b)) \<or>
            a' = onEngine onConnect b \<and> canConnect e"
          using t ns nq ni unfolding defs
          by (auto simp: onEngine_def onEngineR_def andThen_eq_Inr split: if_splits)
        then show ?thesis
          using ni canConnect_onConnect [of e] unfolding loopRank_less Let_def
          by (auto simp: onEngine_def same e_def [symmetric] b2n_def cc)
      qed
    qed
  qed
qed

definition still :: "'m during \<Rightarrow> bool" where
  "still d = (du_starting d = [] \<and> du_passing d = [])"

lemma turnOf_lowers:
  assumes "turnOf w d a = Inr (a', True)" "still d"
  shows "(loopRank a', loopRank a) \<in> lex less_than"
  using assms passOf_lowers [of w a a'] by (auto simp: turnOf_def still_def andThen_eq_Inr split: if_splits option.splits)

text \<open>The loop, turn by turn from the \<open>n\<close>th; \<open>None\<close> is a run that never returns.\<close>

partial_function (option) advancerLoop ::
  "('t, 'm) world \<Rightarrow> (nat \<Rightarrow> 'm during) \<Rightarrow> nat \<Rightarrow> ('t, 'm) advancer \<Rightarrow> (engine_error + ('t, 'm) advancer) option" where
  "advancerLoop w during n a =
     (case turnOf w (during n) a of
        Inl err \<Rightarrow> Some (Inl err)
      | Inr (a', go) \<Rightarrow> if go then advancerLoop w during (n + 1) a' else Some (Inr a'))"

lemma advancerLoop_turn:
  "turnOf w (during n) a = Inr (b, go) \<Longrightarrow>
    advancerLoop w during n a = (if go then advancerLoop w during (n + 1) b else Some (Inr b))"
  by (subst advancerLoop.simps) simp

text \<open>A run ends once no callback or hook calls the Engine any more.\<close>

lemma advancerLoop_still:
  assumes "\<And>k. n \<le> k \<Longrightarrow> still (during k)"
  shows "\<exists>r. advancerLoop w during n a = Some r"
  using assms
proof (induction "loopRank a" arbitrary: a n rule: wf_induct_rule [OF wf_lex [OF wf_less_than]])
  case 1
  show ?case
  proof (cases "turnOf w (during n) a")
    case (Inl err)
    then show ?thesis by (simp add: advancerLoop.simps)
  next
    case (Inr r)
    obtain b go where t: "turnOf w (during n) a = Inr (b, go)" using Inr by (cases r) auto
    show ?thesis
    proof (cases go)
      case True
      have "(loopRank b, loopRank a) \<in> lex less_than" using turnOf_lowers [OF _ 1(2) [of n]] t True by simp
      then show ?thesis using 1(1) [of b "n + 1"] 1(2) advancerLoop_turn [of w during n, OF t] True by simp
    qed (simp add: advancerLoop_turn [of w during n, OF t])
  qed
qed

lemma advancerLoop_returns:
  assumes "\<And>k. N \<le> k \<Longrightarrow> still (during k)"
  shows "\<exists>r. advancerLoop w during n a = Some r"
proof (induction "N - n" arbitrary: n a)
  case 0
  then show ?case using assms by (intro advancerLoop_still) simp
next
  case (Suc m)
  have next': "\<exists>r. advancerLoop w during (n + 1) b = Some r" for b using Suc(1) [of "n + 1"] Suc(2) by simp
  show ?case using next' by (subst advancerLoop.simps) (auto split: sum.splits)
qed

text \<open>\<open>#run\<close>, of the timer that was set: the first run initializes; an ended Engine runs no more.\<close>

definition advance ::
  "('t, 'm) world \<Rightarrow> (nat \<Rightarrow> 'm during) \<Rightarrow> ('t, 'm) advancer \<Rightarrow> (engine_error + ('t, 'm) advancer) option" where
  "advance w during a0 =
     (let a = a0\<lparr>ad_scheduled := False\<rparr> in
      if ad_ended a then Some (Inr a)
      else if ad_initialized a then advancerLoop w during 0 a
      else
        (case initialize (wd_ops w) (ad_engine a) of
           Inl err \<Rightarrow> Some (Inl err)
         | Inr e \<Rightarrow> advancerLoop w during 0 (a\<lparr>ad_engine := e, ad_initialized := True\<rparr>)))"

end
