(* ===== verification/AdvancerSafety.thy ===== *)
theory AdvancerSafety
  imports Advancer
begin

text \<open>
  What the main loop keeps and where it ends (typespec/ts/assets/skeleton.ts, \<open>Engine\<close>): the load of
  the first run gives an Engine that satisfies the invariant, every run of the loop keeps it, and so does
  every state the app, the transport and the timers can bring the Engine to, between runs and within
  them; and whatever is left to do, a run is set to do it.
\<close>

section \<open>What a run leaves to do\<close>

definition idle :: "('t, 'm) advancer \<Rightarrow> bool" where
  "idle a =
     (ad_submitted a = [] \<and> ad_inbox a = [] \<and> ad_answers a = [] \<and> ad_outcomes a = [] \<and> ad_work a = [] \<and>
      en_starts (ad_engine a) = [] \<and> \<not> en_resend (ad_engine a) \<and> \<not> en_newQueries (ad_engine a) \<and>
      \<not> canConnect (ad_engine a) \<and> \<not> ad_aborted a)"

definition woken :: "('t, 'm) advancer \<Rightarrow> bool" where
  "woken a = (ad_ended a \<or> ad_scheduled a \<or> idle a)"

lemma woken_occur: "woken a \<Longrightarrow> woken (occur ev a)"
  by (cases ev) (auto simp: woken_def idle_def canConnect_def event_defs emit_def)

lemma woken_occurs: "woken a \<Longrightarrow> woken (fold occur evs a)"
  by (induction evs arbitrary: a) (auto intro: woken_occur)

definition started :: "('t, 'm) advancer \<Rightarrow> bool" where
  "started a = (ad_scheduled a \<or> \<not> ad_aborted a \<and> en_starts (ad_engine a) = [])"

lemma started_occur: "started a \<Longrightarrow> started (occur ev a)"
  by (cases ev) (auto simp: started_def event_defs emit_def)

lemma started_occurs: "started a \<Longrightarrow> started (fold occur evs a)"
  by (induction evs arbitrary: a) (auto intro: started_occur)

lemma starts_startCalls: "en_starts (startCalls e) = []"
proof -
  have "en_starts (fold (\<lambda>(selector, i) e. if \<not> en_connected e \<or> \<not> current e selector i then e
      else emit (StartBackfillCall selector i) e) xs e) = en_starts e" for xs and e :: "'a engine"
    by (rule fold_keeps) (simp add: emit_def split: prod.split)
  then show ?thesis by (simp add: startCalls_def)
qed

lemma starts_settleLoop: "en_starts (settleLoop xs e) = en_starts e"
  by (induction xs e rule: settleLoop.induct) (auto simp: emit_def split: option.splits)

lemma starts_estimate: "en_starts (snd (estimate bs e)) = en_starts e"
  unfolding estimate_def Let_def
  by (cases "case en_episode e of None \<Rightarrow> startEpisode e | Some ep \<Rightarrow> if episodeDone e ep then startEpisode e else Some ep")
    simp_all

lemma starts_refresh: "en_starts (refresh b e) = en_starts e"
  by (simp add: refresh_def publish_def progressStatus_def Let_def case_prod_beta settleOnline_def starts_settleLoop
      starts_estimate emit_def)

lemma passOf_stops:
  assumes "passOf w a = Inr (a', False)" "started a"
  shows "woken a'"
proof -
  define e where "e = ad_engine a"
  have q: "ad_submitted a = []" "\<not> en_resend e" "\<not> en_newQueries e" "ad_inbox a = []" "ad_answers a = []"
    "ad_outcomes a = []" "ad_work a = []" "\<not> canConnect e" "a' = onEngine (refresh False) a"
    using assms(1) unfolding passOf_def Let_def e_def [symmetric]
    by (auto simp: andThen_eq_Inr split: if_splits)
  have "flow (refresh False e) = flow e" by simp
  then have "canConnect (refresh False e) = canConnect e" "en_resend (refresh False e) = en_resend e"
    by (simp_all add: flow_def canConnect_def)
  then show ?thesis
    using q assms(2) by (auto simp: woken_def idle_def started_def onEngine_def e_def [symmetric] starts_refresh)
qed

lemma turnOf_stops:
  assumes "turnOf w d a = Inr (a', False)"
  shows "woken a'"
proof (cases "ad_aborted a")
  case True
  then show ?thesis using assms by (auto simp: turnOf_def shutdownIn_def woken_def)
next
  case False
  obtain b where p: "passOf w (fold occur (du_starting d) (onEngine startCalls a)) = Inr (b, False)"
    and a': "a' = fold occur (du_passing d) b"
    using assms False by (auto simp: turnOf_def andThen_eq_Inr split: option.splits)
  have "started (onEngine startCalls a)" using False by (simp add: started_def onEngine_def starts_startCalls)
  then show ?thesis unfolding a' by (intro woken_occurs passOf_stops [OF p] started_occurs)
qed

text \<open>A run that returns goes from turn to turn, to one that stops.\<close>

lemma advancerLoop_induct:
  assumes "advancerLoop w during n a = Some (Inr a')"
    and "\<And>n a a'. turnOf w (during n) a = Inr (a', False) \<Longrightarrow> P a a'"
    and "\<And>n a b a'. turnOf w (during n) a = Inr (b, True) \<Longrightarrow> P b a' \<Longrightarrow> P a a'"
  shows "P a a'"
proof -
  have "\<forall>a'. r = Inr a' \<longrightarrow> v = w \<longrightarrow> dr = during \<longrightarrow> P a a'" if "advancerLoop v dr n a = Some r" for v dr n a r
  proof (rule advancerLoop.raw_induct [of "\<lambda>v dr n a r. \<forall>a'. r = Inr a' \<longrightarrow> v = w \<longrightarrow> dr = during \<longrightarrow> P a a'", OF _ that],
      intro allI impI)
    fix loop :: "('a, 'b) world \<Rightarrow> (nat \<Rightarrow> 'b during) \<Rightarrow> nat \<Rightarrow> ('a, 'b) advancer \<Rightarrow> (engine_error + ('a, 'b) advancer) option"
      and v dr n a r a'
    assume IH: "\<And>v dr n a r. loop v dr n a = Some r \<Longrightarrow> \<forall>a'. r = Inr a' \<longrightarrow> v = w \<longrightarrow> dr = during \<longrightarrow> P a a'"
      and r: "(case turnOf v (dr n) a of Inl err \<Rightarrow> Some (Inl err)
        | Inr (a', go) \<Rightarrow> if go then loop v dr (n + 1) a' else Some (Inr a')) = Some r"
      and e: "r = Inr a'" "v = w" "dr = during"
    obtain b go where t: "turnOf w (during n) a = Inr (b, go)"
      using r e by (cases "turnOf w (during n) a") auto
    show "P a a'"
    proof (cases go)
      case True
      then have "loop w during (n + 1) b = Some (Inr a')" using r e t by simp
      from IH [OF this] have "P b a'" by simp
      then show ?thesis using assms(3) t True by simp
    next
      case False
      then have "b = a'" using r e t by simp
      then show ?thesis using assms(2) t False by simp
    qed
  qed
  then show ?thesis using assms(1) by simp
qed

lemma advancerLoop_woken: "advancerLoop w during n a = Some (Inr a') \<Longrightarrow> woken a'"
  by (erule advancerLoop_induct) (auto intro: turnOf_stops)

text \<open>What every turn keeps of an Engine, the whole run keeps.\<close>

lemma advancerLoop_keeps:
  assumes "\<And>x. R x x" "\<And>x y z. R x y \<Longrightarrow> R y z \<Longrightarrow> R x z" "\<And>x y d go. turnOf w d x = Inr (y, go) \<Longrightarrow> R x y"
    and "advancerLoop w during n a = Some (Inr a')"
  shows "R a a'"
  by (rule advancerLoop_induct [OF assms(4)]) (metis assms(2,3))+

lemma advance_woken: "advance w during a = Some (Inr a') \<Longrightarrow> woken a'"
  by (auto simp: advance_def woken_def Let_def dest: advancerLoop_woken [unfolded woken_def] split: if_splits sum.splits)

section \<open>A run keeps the invariant\<close>

lemma advances_shutdownIn: "advances (ad_engine a) (ad_engine (shutdownIn a))"
  by (simp add: shutdownIn_def advances_core)

lemma advances_refresh: "advances e (refresh b e)"
  by (simp add: advances_core)

lemma advances_onInbox:
  assumes "onInbox w a = Inr a'"
  shows "advances (ad_engine a) (ad_engine a')"
proof (cases "\<exists>fatal rest. ad_inbox a = EndF fatal # rest")
  case True
  then show ?thesis using assms advances_onEnd by (auto simp: onInbox_def Let_def split: option.splits)
next
  case False
  then have "onInbox w a =
      andThen (onFrames (wd_ops w) (takeWhile (Not \<circ> is_end) (ad_inbox a)) (ad_engine a)) (\<lambda>e'.
        Inr (a\<lparr>ad_inbox := dropWhile (Not \<circ> is_end) (ad_inbox a), ad_engine := refresh False e'\<rparr>))"
    by (auto simp: onInbox_def Let_def split: list.splits inbound.splits)
  note r = this
  obtain e' where e': "onFrames (wd_ops w) (takeWhile (Not \<circ> is_end) (ad_inbox a)) (ad_engine a) = Inr e'"
    "ad_engine a' = refresh False e'"
    using assms unfolding r andThen_eq_Inr by auto
  have "advances (ad_engine a) e'"
    using advances_onFrames [of "ad_engine a" "wd_ops w" "takeWhile (Not \<circ> is_end) (ad_inbox a)"] e' by simp
  then show ?thesis using e' advances_refresh advances_trans by metis
qed

lemma advances_onEngineR:
  assumes "onEngineR f a = Inr a'" "advancesR (ad_engine a) (f (ad_engine a))"
  shows "advances (ad_engine a) (ad_engine a')"
  using assms by (auto simp: onEngineR_def andThen_eq_Inr)

lemma advances_passOf:
  assumes "passOf w a = Inr (a', go)"
  shows "advances (ad_engine a) (ad_engine a')"
  using assms unfolding passOf_def Let_def
  by (auto simp: andThen_eq_Inr onEngine_def
      intro: advances_refresh advances_onInbox advances_onMutationOutcomes advances_onBackfillOutcomes advances_onConnect
      dest!: advances_onEngineR split: if_splits
      simp: advances_onSubmitted advances_onBackfillWork)

lemma core_event:
  "core (e\<lparr>en_connectNow := x\<rparr>) = core e" "core (e\<lparr>en_newQueries := x\<rparr>) = core e" "core (e\<lparr>en_retrying := x\<rparr>) = core e"
  by (simp_all add: core_def)

lemma advances_occur: "advances (ad_engine a) (ad_engine (occur ev a))"
  by (cases ev) (auto simp: event_defs advances_onRetryTimer intro!: advances_core core_event)

lemma advances_occurs: "advances (ad_engine a) (ad_engine (fold occur evs a))"
  by (induction evs arbitrary: a) (auto intro: advances_core advances_trans advances_occur)

lemma advances_turnOf:
  assumes "turnOf w d a = Inr (a', go)"
  shows "advances (ad_engine a) (ad_engine a')"
proof (cases "ad_aborted a")
  case True
  then show ?thesis using assms advances_shutdownIn by (auto simp: turnOf_def)
next
  case False
  define c where "c = fold occur (du_starting d) (onEngine startCalls a)"
  obtain b where p: "passOf w c = Inr (b, go)" and a': "a' = fold occur (du_passing d) b"
    using assms False by (auto simp: turnOf_def c_def andThen_eq_Inr split: option.splits)
  have "advances (ad_engine a) (ad_engine (onEngine startCalls a))"
    by (simp add: onEngine_def advances_startCalls)
  moreover have "advances (ad_engine (onEngine startCalls a)) (ad_engine c)" unfolding c_def by (rule advances_occurs)
  ultimately show ?thesis
    using advances_passOf [OF p] advances_occurs [of b "du_passing d"] advances_trans unfolding a' by metis
qed

lemma advances_advancerLoop: "advancerLoop w during n a = Some (Inr a') \<Longrightarrow> advances (ad_engine a) (ad_engine a')"
  by (erule advancerLoop_keeps [where R = "\<lambda>x y. advances (ad_engine x) (ad_engine y)", rotated -1])
    (auto intro: advances_core advances_trans advances_turnOf)

section \<open>The load of the first run\<close>

text \<open>An Engine as its constructor leaves it, and a stored checkpoint the Engine may have written.\<close>

definition blank :: "'t engine \<Rightarrow> bool" where
  "blank e =
     (en_checkpoint e = None \<and> en_applied e = -1 \<and> en_epoch e = None \<and> en_outbox e = [] \<and> en_acked e = [] \<and>
      en_backfills e = [])"

definition stored_ok :: "'t wtxn \<Rightarrow> 't \<Rightarrow> bool" where
  "stored_ok ops t =
     (case wt_get ops CHECKPOINT JSON t of Inr (Some (CheckpointV c), _) \<Rightarrow> checkpoint_ok c | _ \<Rightarrow> True)"

lemma blank_core: "core e' = core e \<Longrightarrow> blank e' = blank e"
  by (simp add: core_def blank_def)

lemma loadIn_inv:
  assumes "loadIn ops e = Inr e'" "blank e" "stored_ok ops (en_txn e)"
  shows "eng_inv e'"
proof -
  obtain c e1 checkpoint v e2 vw r3 e3 slices r4 e4 outbox ordinal r5 e5 backfills entry where
    c: "getIn ops CHECKPOINT JSON e = Inr (c, e1)" "loadCheckpoint c = Inr checkpoint"
    and v: "getIn ops VIEW JSON e1 = Inr (v, e2)"
    and s: "rowsIn ops (lit ''seq'') (Some JSON) e2 = Inr (r3, e3)"
    and o': "rowsIn ops (lit ''mutation'') (Some MUTATION_TYPE) e3 = Inr (r4, e4)"
      "loadOutbox r4 (en_outbox e4, en_nextOrdinal e4) = Inr (outbox, ordinal)"
    and b: "rowsIn ops (lit ''backfill'') (Some JSON) e4 = Inr (r5, e5)"
      "loadBackfills r5 (en_backfills e5, en_nextEntry e5) = Inr (backfills, entry)"
    and e': "e' = e5\<lparr>en_checkpoint := checkpoint, en_view := vw, en_slices := slices, en_outbox := outbox,
              en_nextOrdinal := ordinal, en_backfills := backfills, en_nextEntry := entry,
              en_applied := (case checkpoint of None \<Rightarrow> -1 | Some c \<Rightarrow> cr_applied c)\<rparr>"
    using assms(1) unfolding loadIn_def by (auto simp: andThen_eq_Inr)
  have core: "core e5 = core e" "core e4 = core e"
    using core_getIn [OF c(1)] core_getIn [OF v] core_rowsIn [OF s] core_rowsIn [OF o'(1)] core_rowsIn [OF b(1)] by simp_all
  have blank: "blank e5" "blank e4" using core assms(2) blank_core by metis+
  have "checkpoint_ok x" if "checkpoint = Some x" for x
    using assms(3) c that
    by (auto simp: stored_ok_def getIn_def loadCheckpoint_def split: sum.splits option.splits engine_value.splits)
  then have "sync_ok checkpoint (en_applied e') (en_epoch e')"
    using blank by (auto simp: sync_ok_def e' blank_def checkpoint_ok_def split: option.splits)
  moreover have "distinct (map fst outbox)"
    using loadOutbox_distinct [OF o'(2)] blank by (simp add: blank_def)
  moreover have "flight_ok backfills"
    using loadBackfills_flight [OF b(2)] blank by (simp add: blank_def flight_ok_def)
  ultimately show ?thesis using blank by (simp add: eng_inv_def e' outbox_ok_def blank_def)
qed

lemma initialize_inv:
  assumes "initialize ops e = Inr e'" "blank e" "stored_ok ops (en_txn e)"
  shows "eng_inv e'"
proof -
  obtain e1 e2 where l: "loadIn ops e = Inr e1" and p: "purgeIn ops e1 = Inr e2"
    and e': "e' = refresh True (e2\<lparr>en_connectNow := True, en_dirty := []\<rparr>)"
    using assms(1) unfolding initialize_def by (auto simp: andThen_eq_Inr)
  have "advances e1 e2" using advances_purgeIn [of e1 ops] p by simp
  moreover have "eng_inv e1" by (rule loadIn_inv [OF l assms(2,3)])
  moreover have "core e' = core e2" by (simp add: e')
  ultimately show ?thesis using core_inv by (metis advances_def)
qed

section \<open>What happens between runs\<close>

text \<open>An Engine runs, or a throw out of a run ended it; nothing of its memory is read again then.\<close>

datatype ('t, 'm) app = Running "('t, 'm) advancer" | Failed engine_error

inductive appStep :: "('t, 'm) world \<Rightarrow> ('t, 'm) app \<Rightarrow> ('t, 'm) app \<Rightarrow> bool" for w where
  Event: "appStep w (Running a) (Running (occur ev a))"
| Run: "advance w during a = Some (Inr a') \<Longrightarrow> appStep w (Running a) (Running a')"
| Throw: "advance w during a = Some (Inl err) \<Longrightarrow> appStep w (Running a) (Failed err)"

inductive_cases appStep_FailedE: "appStep w (Failed err) s"
inductive_cases appStep_RunningE: "appStep w (Running a) s"

inductive reaches :: "('t, 'm) world \<Rightarrow> ('t, 'm) app \<Rightarrow> ('t, 'm) app \<Rightarrow> bool" for w where
  Start: "reaches w s s"
| Next: "reaches w s s' \<Longrightarrow> appStep w s' s'' \<Longrightarrow> reaches w s s''"

text \<open>Before its first run an Engine is blank over the store it will load; after it the invariant holds.\<close>

definition app_ok :: "('t, 'm) world \<Rightarrow> ('t, 'm) app \<Rightarrow> bool" where
  "app_ok w s =
     (case s of
        Failed _ \<Rightarrow> True
      | Running a \<Rightarrow>
          if ad_initialized a then eng_inv (ad_engine a)
          else blank (ad_engine a) \<and> stored_ok (wd_ops w) (en_txn (ad_engine a)))"

lemma onInbox_fields:
  assumes "onInbox w a = Inr a'"
  obtains q e where "a' = a\<lparr>ad_inbox := q, ad_engine := e\<rparr>"
proof (cases "\<exists>fatal rest. ad_inbox a = EndF fatal # rest")
  case True
  then show ?thesis using assms that by (auto simp: onInbox_def Let_def split: option.splits)
next
  case False
  then have r: "onInbox w a =
      andThen (onFrames (wd_ops w) (takeWhile (Not \<circ> is_end) (ad_inbox a)) (ad_engine a)) (\<lambda>e'.
        Inr (a\<lparr>ad_inbox := dropWhile (Not \<circ> is_end) (ad_inbox a), ad_engine := refresh False e'\<rparr>))"
    by (auto simp: onInbox_def Let_def split: list.splits inbound.splits)
  show ?thesis using assms that unfolding r andThen_eq_Inr by auto
qed

lemma initialized_onInbox: "onInbox w a = Inr a' \<Longrightarrow> ad_initialized a' = ad_initialized a"
  by (erule onInbox_fields) simp

lemma initialized_onEngine: "ad_initialized (onEngine f a) = ad_initialized a"
  by (simp add: onEngine_def)

lemma initialized_onEngineR: "onEngineR f a = Inr a' \<Longrightarrow> ad_initialized a' = ad_initialized a"
  by (auto simp: onEngineR_def andThen_eq_Inr)

lemma initialized_occur [simp]: "ad_initialized (occur ev a) = ad_initialized a"
  by (cases ev) (simp_all add: event_defs)

lemma initialized_occurs [simp]: "ad_initialized (fold occur evs a) = ad_initialized a"
  by (rule fold_keeps) simp

lemma initialized_passOf:
  assumes "passOf w a = Inr (a', go)"
  shows "ad_initialized a' = ad_initialized a"
proof -
  have "(\<exists>f c. onEngineR f c = Inr a' \<and> ad_initialized c = ad_initialized a) \<or> onInbox w a = Inr a' \<or>
      (\<exists>f c. a' = onEngine f c \<and> ad_initialized c = ad_initialized a)"
    using assms unfolding passOf_def Let_def
    by (auto simp: andThen_eq_Inr split: if_splits) fastforce+
  then show ?thesis
    using initialized_onInbox initialized_onEngineR by (metis initialized_onEngine)
qed

lemma initialized_turnOf:
  assumes "turnOf w d a = Inr (a', go)"
  shows "ad_initialized a' = ad_initialized a"
proof (cases "ad_aborted a")
  case True
  then show ?thesis using assms by (auto simp: turnOf_def shutdownIn_def)
next
  case False
  then obtain b where "passOf w (fold occur (du_starting d) (onEngine startCalls a)) = Inr (b, go)"
    and "a' = fold occur (du_passing d) b"
    using assms by (auto simp: turnOf_def andThen_eq_Inr split: option.splits)
  then show ?thesis using initialized_passOf by (fastforce simp: initialized_onEngine)
qed

lemma initialized_advancerLoop: "advancerLoop w during n a = Some (Inr a') \<Longrightarrow> ad_initialized a' = ad_initialized a"
  by (erule advancerLoop_keeps [where R = "\<lambda>x y. ad_initialized y = ad_initialized x", rotated -1])
    (auto dest: initialized_turnOf)

lemma advance_inv:
  assumes "advance w during a = Some (Inr a')" "app_ok w (Running a)" "\<not> ad_ended a"
  shows "eng_inv (ad_engine a') \<and> ad_initialized a'"
proof (cases "ad_initialized a")
  case True
  then have l: "advancerLoop w during 0 (a\<lparr>ad_scheduled := False\<rparr>) = Some (Inr a')"
    using assms(1,3) by (simp add: advance_def)
  then show ?thesis
    using advances_advancerLoop [OF l] initialized_advancerLoop [OF l] True assms(2) by (simp add: app_ok_def advances_def)
next
  case False
  then obtain e where i: "initialize (wd_ops w) (ad_engine a) = Inr e"
    and l: "advancerLoop w during 0 (a\<lparr>ad_scheduled := False, ad_engine := e, ad_initialized := True\<rparr>) = Some (Inr a')"
    using assms(1,3) by (auto simp: advance_def split: sum.splits)
  have "eng_inv e" using initialize_inv [OF i] assms(2) False by (simp add: app_ok_def)
  then show ?thesis
    using advances_advancerLoop [OF l] initialized_advancerLoop [OF l] by (simp add: advances_def)
qed

lemma onRetryTimer_blank: "blank e \<Longrightarrow> onRetryTimer selector i e = e"
  by (simp add: onRetryTimer_def current_def blank_def)

lemma blank_occur:
  assumes "blank (ad_engine a)"
  shows "blank (ad_engine (occur ev a)) \<and> en_txn (ad_engine (occur ev a)) = en_txn (ad_engine a)"
  using assms onRetryTimer_blank [OF assms] by (cases ev) (auto simp: event_defs blank_def emit_def)

lemma app_ok_step: "appStep w s s' \<Longrightarrow> app_ok w s \<Longrightarrow> app_ok w s'"
proof (induction rule: appStep.induct)
  case (Event a ev)
  then show ?case
    using advances_occur [of a ev] blank_occur [of a ev] by (auto simp: app_ok_def advances_def)
next
  case (Run during a a')
  show ?case
  proof (cases "ad_ended a")
    case True
    then show ?thesis using Run by (auto simp: advance_def app_ok_def)
  next
    case False
    then show ?thesis using advance_inv [OF Run(1,2)] by (simp add: app_ok_def)
  qed
qed (simp add: app_ok_def)

lemma app_ok_reaches: "reaches w s s' \<Longrightarrow> app_ok w s \<Longrightarrow> app_ok w s'"
  by (induction rule: reaches.induct) (auto intro: app_ok_step)

text \<open>Once loaded, no step takes the cursor or the applied position back, or changes the log.\<close>

lemma advance_advances:
  "advance w during a = Some (Inr a') \<Longrightarrow> ad_initialized a \<Longrightarrow> advances (ad_engine a) (ad_engine a') \<and> ad_initialized a'"
  using advances_advancerLoop [of w during 0 "a\<lparr>ad_scheduled := False\<rparr>" a'] initialized_advancerLoop [of w during 0 "a\<lparr>ad_scheduled := False\<rparr>" a']
  by (auto simp: advance_def Let_def intro: advances_core split: if_splits)

lemma appStep_advances:
  assumes "appStep w (Running a) (Running a')" "ad_initialized a"
  shows "advances (ad_engine a) (ad_engine a') \<and> ad_initialized a'"
  using assms(1)
proof cases
  case (Event ev)
  then show ?thesis using assms(2) advances_occur by simp
next
  case (Run during)
  then show ?thesis using advance_advances [OF Run assms(2)] by simp
qed

text \<open>Once loaded, an Engine that has work has a run set to do it, unless it ended.\<close>

lemma reaches_woken:
  assumes "reaches w s s'" "\<And>a. s = Running a \<Longrightarrow> \<not> ad_initialized a" "s' = Running a" "ad_initialized a"
  shows "woken a"
  using assms
proof (induction arbitrary: a rule: reaches.induct)
  case (Next s s' s'')
  from Next.hyps(2) Next.prems(2,3) show ?case
  proof cases
    case (Event b ev)
    then have "woken b" using Next by simp
    then show ?thesis using Event Next.prems(2) woken_occur by simp
  next
    case (Run during b b')
    then show ?thesis using Next.prems(2) advance_woken by simp
  qed simp
qed auto

section \<open>A run with nothing queued\<close>

text \<open>Nothing is queued and the outbox is empty: no turn of such a run throws, and it ends connected.\<close>

definition quiet :: "('t, 'm) advancer \<Rightarrow> bool" where
  "quiet a =
     (ad_submitted a = [] \<and> ad_inbox a = [] \<and> ad_answers a = [] \<and> ad_outcomes a = [] \<and> ad_work a = [] \<and>
      en_outbox (ad_engine a) = [])"

lemma outbox_core: "core e' = core e \<Longrightarrow> en_outbox e' = en_outbox e"
  by (simp add: core_def)

lemma outbox_startCalls [simp]: "en_outbox (startCalls e) = en_outbox e"
proof -
  have "en_outbox (fold (\<lambda>(selector, i) e. if \<not> en_connected e \<or> \<not> current e selector i then e
      else emit (StartBackfillCall selector i) e) xs e) = en_outbox e" for xs and e :: "'a engine"
    by (rule fold_keeps) (simp add: emit_def split: prod.split)
  then show ?thesis by (simp add: startCalls_def)
qed

lemma outbox_starts: "en_outbox (fold (startBackfill \<circ> fst) ws e) = en_outbox e"
  by (rule fold_keeps) (simp add: startBackfill_def onEntry_def split: option.splits)

lemma outbox_onConnect [simp]: "en_outbox (onConnect e) = en_outbox e"
  by (simp add: onConnect_def Let_def emit_def outbox_starts)

lemma onSubmitted_quiet:
  assumes "en_outbox e = []"
  shows "\<exists>e'. onSubmitted ops convert uuid [] e = Inr e' \<and> en_outbox e' = []"
proof -
  define e1 where "e1 = refresh False (e\<lparr>en_resend := False\<rparr>)"
  have "en_outbox e1 = []"
    using assms outbox_core [OF core_refresh, of False "e\<lparr>en_resend := False\<rparr>"] by (simp add: e1_def)
  moreover have "onSubmitted ops convert uuid [] e =
      Inr (if en_connected e1 then sendCall \<lparr>ca_wire = [], ca_online = False\<rparr> e1
           else rejectCall \<lparr>ca_wire = [], ca_online = False\<rparr> e1)"
    using assms by (simp add: onSubmitted_def Let_def pendingOrdinals_def e1_def)
  ultimately show ?thesis by (auto simp: sendCall_def rejectCall_def)
qed

definition silent :: "'m during" where
  "silent = \<lparr>du_starting = [], du_passing = [], du_throws = None\<rparr>"

lemma quiet_turn:
  assumes "quiet a" "\<not> ad_aborted a"
  shows "\<exists>a' go. turnOf w silent a = Inr (a', go) \<and> quiet a' \<and> \<not> ad_aborted a' \<and> ad_ended a' = ad_ended a"
proof -
  define e where "e = startCalls (ad_engine a)"
  have o': "en_outbox e = []" using assms by (simp add: e_def quiet_def)
  obtain e' where s: "onSubmitted (wd_ops w) (wd_convert w) (wd_uuid w) [] e = Inr e'" "en_outbox e' = []"
    using onSubmitted_quiet [OF o'] by blast
  have r: "en_outbox (refresh False e) = []" using o' outbox_core [OF core_refresh] by metis
  show ?thesis
    using assms s r o' unfolding turnOf_def passOf_def Let_def
    by (auto simp: quiet_def onEngine_def onEngineR_def silent_def e_def [symmetric])
qed

lemma advancerLoop_quiet:
  "quiet a \<Longrightarrow> \<not> ad_aborted a \<Longrightarrow> \<exists>a'. advancerLoop w (\<lambda>_. silent) n a = Some (Inr a') \<and> ad_ended a' = ad_ended a"
proof (induction "loopRank a" arbitrary: a n rule: wf_induct_rule [OF wf_lex [OF wf_less_than]])
  case 1
  obtain b go where t: "turnOf w silent a = Inr (b, go)" and b: "quiet b" "\<not> ad_aborted b" "ad_ended b = ad_ended a"
    using quiet_turn [OF 1(2,3)] by blast
  note turn = advancerLoop_turn [of w "\<lambda>_. silent" n, OF t]
  show ?case
  proof (cases go)
    case True
    have "(loopRank b, loopRank a) \<in> lex less_than" by (rule turnOf_lowers [of w silent]) (use t True in \<open>simp_all add: still_def silent_def\<close>)
    then show ?thesis using 1(1) [OF _ b(1,2)] b(3) turn True by metis
  next
    case False
    then show ?thesis using turn b by simp
  qed
qed

end
