(* ===== verification/EngineStore.thy ===== *)
theory EngineStore
  imports StoreScan StoreWrites EngineState
begin

text \<open>
  The Engine's write transaction on the in-memory store (typespec/ts/assets/skeleton.ts): each
  operation of the interface \<open>WTxn\<close> by the method of \<open>InMemTxn\<close> it is. The Engine's own records are JS
  values among those the store holds: \<open>wrap\<close> embeds them, and \<open>unwrap\<close> reads one back.
\<close>

definition readIn :: "('js \<Rightarrow> engine_value option) \<Rightarrow> jsstr \<Rightarrow> ('js, 'host) rval option \<Rightarrow>
  store_error + engine_value option" where
  "readIn unwrap k v =
     (case v of
        None \<Rightarrow> Inr None
      | Some (JsVal x) \<Rightarrow> (case unwrap x of None \<Rightarrow> Inl (StoredError k []) | Some y \<Rightarrow> Inr (Some y))
      | Some _ \<Rightarrow> Inl (StoredError k []))"

fun readRows :: "('js \<Rightarrow> engine_value option) \<Rightarrow> (jsstr \<times> ('js, 'host) rval option) list \<Rightarrow>
  store_error + (jsstr \<times> engine_value option) list" where
  "readRows unwrap [] = Inr []"
| "readRows unwrap ((k, v) # rows) =
     (case readIn unwrap k v of
        Inl e \<Rightarrow> Inl e
      | Inr y \<Rightarrow> map_sum id (\<lambda>ys. (k, y) # ys) (readRows unwrap rows))"

definition rowsRequest :: "key_pattern \<Rightarrow> jsstr option \<Rightarrow> scan_request" where
  "rowsRequest p type =
     \<lparr>sr_pattern = p, sr_reverse = False, sr_after = None, sr_limit = 1000,
      sr_values = map_option (\<lambda>ty. (ty, JS)) type\<rparr>"

text \<open>A scan that did not end would have no value; \<open>scanAllLoop_ends\<close> shows each does.\<close>

definition memOps ::
  "bool \<Rightarrow> ('js, 'host) registry \<Rightarrow> (engine_value \<Rightarrow> 'js) \<Rightarrow> ('js \<Rightarrow> engine_value option) \<Rightarrow> 'js mem_txn wtxn"
where
  "memOps DEV reg wrap unwrap =
     \<lparr>wt_get = (\<lambda>k type t. case mtOut DEV reg t k type JS of
          (Inl e, _) \<Rightarrow> Inl e
        | (Inr v, t') \<Rightarrow> map_sum id (\<lambda>y. (y, t')) (readIn unwrap k v)),
      wt_set = (\<lambda>k v t. case mtSet reg t k JSON (JsVal (wrap v)) of Inl _ \<Rightarrow> t | Inr t' \<Rightarrow> t'),
      wt_put = (\<lambda>k b t. case mtSet reg t k JSON (ByteVal b) of Inl _ \<Rightarrow> t | Inr t' \<Rightarrow> t'),
      wt_del = (\<lambda>k t. mtDel t k),
      wt_delPrefix = (\<lambda>p t. mtDelPrefix t p),
      wt_applyEdits = (\<lambda>es t. map_sum id (\<lambda>(t', ks). (ks, t')) (mtApplyEdits reg es t [])),
      wt_applyParked = (\<lambda>sl n t. map_sum id (\<lambda>(t', ks). (ks, t')) (mtApplyParked reg sl n t)),
      wt_applySnapshot = (\<lambda>sel skip t. map_sum id (\<lambda>(t', ks). (ks, t')) (mtApplySnapshot reg sel skip t)),
      wt_rows = (\<lambda>p type t. case mtScanAll DEV reg t (rowsRequest p type) of
          None \<Rightarrow> Inl LimitTooLow
        | Some (Inl e, _) \<Rightarrow> Inl e
        | Some (Inr rows, t') \<Rightarrow> map_sum id (\<lambda>ys. (ys, t')) (readRows unwrap rows))\<rparr>"

end
