(* ===== verification/EngineProperties.thy ===== *)
theory EngineProperties
  imports EngineChains AdvancerSafety EngineStore
begin

text \<open>
  What the Engine promises: the edits it applies chain on what each slice holds, every pass and
  every run of its main loop keeps its invariant and takes nothing back, a run returns once the app's
  callbacks call the Engine no more, work left over has a run set to do it, and the load of a store it wrote gives an Engine that satisfies the invariant.
\<close>

section \<open>An Engine to instantiate the properties on\<close>

text \<open>A store that holds nothing, and takes every write.\<close>

definition emptyOps :: "unit wtxn" where
  "emptyOps =
     \<lparr>wt_get = (\<lambda>k type t. Inr (None, t)), wt_set = (\<lambda>k v t. t), wt_put = (\<lambda>k b t. t), wt_del = (\<lambda>k t. t),
      wt_delPrefix = (\<lambda>p t. ([], t)), wt_applyEdits = (\<lambda>es t. Inr (map ee_slice es, t)),
      wt_applyParked = (\<lambda>sl n t. Inr ([], t)), wt_applySnapshot = (\<lambda>sel skip t. Inr ([], t)),
      wt_rows = (\<lambda>p type t. Inr ([], t))\<rparr>"

definition newEngine :: "'t \<Rightarrow> jsstr \<Rightarrow> jsstr list \<Rightarrow> 't engine" where
  "newEngine txn series wants =
     \<lparr>en_txn = txn, en_dirty = [], en_out = [], en_conn = 0, en_connected = False, en_attempt = 0,
      en_nextAttemptAt = None, en_retrying = False, en_connectNow = False, en_asked = False, en_since = -1,
      en_head = None, en_confirmed = False, en_live = False, en_epoch = None, en_view = None,
      en_checkpoint = None, en_applied = -1, en_slices = [], en_backfills = [], en_nextEntry = 0,
      en_starts = [], en_outbox = [], en_nextOrdinal = 0, en_nextN = 1, en_series = series, en_sent = [],
      en_acked = [], en_online = [], en_outboxChanged = False, en_resend = False, en_newQueries = False,
      en_episode = None, en_wants = wants, en_status = []\<rparr>"

definition newAdvancer :: "'t engine \<Rightarrow> ('t, 'm) advancer" where
  "newAdvancer e =
     \<lparr>ad_engine = e, ad_submitted = [], ad_inbox = [], ad_answers = [], ad_outcomes = [], ad_work = [],
      ad_scheduled = False,
      ad_aborted = False, ad_ended = False, ad_initialized = False\<rparr>"

definition emptyWorld :: "(unit, nat) world" where
  "emptyWorld =
     \<lparr>wd_ops = emptyOps, wd_convert = (\<lambda>m. Inr [of_nat m]), wd_uuid = (\<lambda>n. [of_nat n]), wd_now = (\<lambda>n. 0),
      wd_random = (\<lambda>n. 0)\<rparr>"

definition sampleEngine :: "unit engine" where
  "sampleEngine = newEngine () (lit ''s'') [lit ''list:*'']"

lemma newEngine_blank: "blank (newEngine t s ws)"
  by (simp add: blank_def newEngine_def)

lemma newEngine_inv: "eng_inv (newEngine t s ws)"
  by (simp add: eng_inv_def newEngine_def sync_ok_def outbox_ok_def flight_ok_def)

lemma sample_ok: "app_ok emptyWorld (Running (newAdvancer sampleEngine))"
  by (simp add: app_ok_def newAdvancer_def sampleEngine_def newEngine_blank stored_ok_def emptyWorld_def emptyOps_def)

lemma sample_loads: "\<exists>e. initialize emptyOps sampleEngine = Inr e \<and> en_outbox e = []"
proof -
  define e where "e = sampleEngine\<lparr>en_connectNow := True\<rparr>"
  have "initialize emptyOps sampleEngine = Inr (refresh True e)"
    by (simp add: sampleEngine_def newEngine_def initialize_def loadIn_def getIn_def rowsIn_def emptyOps_def
        loadCheckpoint_def loadView_def purgeIn_def dropParkedIn_def en_frozen_def Let_def e_def)
  moreover have "en_outbox (refresh True e) = []"
    using outbox_core [OF core_refresh, of True e] by (simp add: e_def sampleEngine_def newEngine_def)
  ultimately show ?thesis by blast
qed

lemma sample_run:
  "\<exists>a. advance emptyWorld (\<lambda>_. silent) (newAdvancer sampleEngine) = Some (Inr a) \<and> \<not> ad_ended a \<and> ad_initialized a"
proof -
  obtain e where e: "initialize emptyOps sampleEngine = Inr e" "en_outbox e = []" using sample_loads by blast
  define b where "b = (newAdvancer sampleEngine :: (unit, nat) advancer)\<lparr>ad_scheduled := False, ad_engine := e, ad_initialized := True\<rparr>"
  have "quiet b" "\<not> ad_aborted b" "\<not> ad_ended b" using e by (simp_all add: quiet_def b_def newAdvancer_def)
  then obtain a where a: "advancerLoop emptyWorld (\<lambda>_. silent) 0 b = Some (Inr a)" "\<not> ad_ended a"
    using advancerLoop_quiet by blast
  have "advance emptyWorld (\<lambda>_. silent) (newAdvancer sampleEngine) = advancerLoop emptyWorld (\<lambda>_. silent) 0 b"
    using e by (simp add: advance_def b_def newAdvancer_def emptyWorld_def)
  moreover have "ad_initialized a" using initialized_advancerLoop [OF a(1)] by (simp add: b_def)
  ultimately show ?thesis using a by simp
qed

lemma sample_reached:
  "\<exists>a. reaches emptyWorld (Running (newAdvancer sampleEngine)) (Running a) \<and> ad_initialized a \<and> \<not> ad_ended a"
  using sample_run reaches.Next [OF reaches.Start appStep.Run] by blast

section \<open>The edits that apply\<close>

text \<open>
  C7: the run a land plans for a slice is the part of its parked edits, from the last reset on, that
  is past what the blob or the slice holds, and the slice has a gap just when that part does not
  chain on it.
\<close>

theorem plan_run_chains:
  assumes "ascending_seqs parked" "p = planSlice blobs applied slices parked sl"
    and "f = fresh (planCut blobs p sl) (pl_seq p) parked"
  shows "(pl_gap p \<longleftrightarrow> \<not> chains (pl_seq p) (fromReset f)) \<and> (\<not> pl_gap p \<longrightarrow> pl_run p = fromReset f)"
  using planSlice_run [OF assms] by blast

definition sampleEnv :: "nat \<Rightarrow> lifecycle \<Rightarrow> edit_envelope" where
  "sampleEnv n life =
     \<lparr>ee_position = int n, ee_slice = lit ''list:a'', ee_seq = n, ee_id = [], ee_servertime = 0, ee_lifecycle = life\<rparr>"

theorem plan_run_chains_witness:
  "let parked = [sampleEnv 3 Normal, sampleEnv 4 Birth, sampleEnv 5 Normal];
       p = planSlice [] 0 [(lit ''list:a'', 2)] parked (lit ''list:a'')
   in \<not> pl_gap p \<and> pl_run p = fromReset (fresh (planCut [] p (lit ''list:a'')) (pl_seq p) parked)"
proof -
  define parked where "parked = [sampleEnv 3 Normal, sampleEnv 4 Birth, sampleEnv 5 Normal]"
  define p where "p = planSlice [] 0 [(lit ''list:a'', 2)] parked (lit ''list:a'')"
  have asc: "ascending_seqs parked" by (simp add: ascending_seqs_def parked_def sampleEnv_def)
  have gap: "\<not> pl_gap p"
    by (simp add: p_def planSlice_def winner_def parked_def sampleEnv_def)
  show ?thesis
    using gap plan_run_chains [OF asc p_def refl] unfolding Let_def parked_def [symmetric] p_def [symmetric] by blast
qed

text \<open>
  Of the blobs that cover a slice, the one a land takes it from has the latest cut; none is
  taken just when none covers it.
\<close>

theorem winner_latest:
  "case winner blobs sl of
     None \<Rightarrow> \<forall>b \<in> set blobs. \<not> selectorCovers (bl_selector b) sl
   | Some w \<Rightarrow> w \<in> set blobs \<and> selectorCovers (bl_selector w) sl \<and>
       (\<forall>b \<in> set blobs. selectorCovers (bl_selector b) sl \<longrightarrow> bl_cut b \<le> bl_cut w)"
  by (rule winner_spec)

theorem winner_latest_witness:
  "case winner [\<lparr>bl_selector = lit ''a'', bl_cut = 3, bl_header = []\<rparr>, \<lparr>bl_selector = lit ''a'', bl_cut = 7, bl_header = []\<rparr>] (lit ''a'') of
     None \<Rightarrow> False | Some w \<Rightarrow> bl_cut w = 7"
  using winner_latest [of "[\<lparr>bl_selector = lit ''a'', bl_cut = 3, bl_header = []\<rparr>, \<lparr>bl_selector = lit ''a'', bl_cut = 7, bl_header = []\<rparr>]" "lit ''a''"]
  by (simp add: winner_def selectorCovers_def ends_with_def)

text \<open>
  C8: the edits of a frame that apply chain, each on what its slice holds after those before it;
  every other edit of the frame is left out or breaks its slice's chain.
\<close>

theorem frame_edits_chain:
  assumes "checkFrame slices xs ([], [], []) = (applied, seqs, breaks)"
  shows "frameChains (map_of slices) applied \<and> heldNow slices seqs = holdAfter (map_of slices) applied \<and>
    set applied \<subseteq> set xs \<and> set breaks \<subseteq> set xs"
proof -
  have "heldNow slices [] = holdAfter (map_of slices) []" by (rule ext) (simp add: heldNow_def holdAfter_def)
  then show ?thesis
    using checkFrame_chains [OF assms] by simp_all
qed

definition sampleEdit :: "nat \<Rightarrow> lifecycle \<Rightarrow> wire_edit" where
  "sampleEdit n life = edit_envelope.extend (sampleEnv n life) \<lparr>we_raw = [1]\<rparr>"

theorem frame_edits_chain_witness:
  "\<exists>applied seqs breaks. checkFrame [(lit ''list:a'', 2)] [sampleEdit 3 Normal, sampleEdit 5 Normal] ([], [], []) =
      (applied, seqs, breaks) \<and> frameChains (map_of [(lit ''list:a'', 2)]) applied \<and>
     set breaks \<subseteq> set [sampleEdit 3 Normal, sampleEdit 5 Normal]"
proof -
  obtain applied seqs breaks where
    c: "checkFrame [(lit ''list:a'', 2)] [sampleEdit 3 Normal, sampleEdit 5 Normal] ([], [], []) = (applied, seqs, breaks)"
    by (metis prod_cases3)
  show ?thesis using c frame_edits_chain [OF c] by blast
qed

section \<open>The invariant\<close>

text \<open>
  C2: the frames of a connection, handled in order and to the end without a failure, keep the Engine's
  invariant; the cursor and the applied position never go back, and the log they count in never changes.
\<close>

theorem frames_advance:
  assumes "eng_inv e" "onFrames ops items e = Inr e'"
  shows "eng_inv e' \<and> cursorOf e \<le> cursorOf e' \<and> en_applied e \<le> en_applied e' \<and>
    (\<forall>ep. logOf e = Some ep \<longrightarrow> logOf e' = Some ep)"
  using advances_onFrames [of e ops items] assms by (auto simp: advances_def)

theorem frames_advance_witness:
  "\<exists>e'. onFrames emptyOps [OpenF (lit ''log'') 5] sampleEngine = Inr e' \<and> eng_inv e' \<and> cursorOf sampleEngine \<le> cursorOf e'"
proof -
  have "\<exists>e'. onFrames emptyOps [OpenF (lit ''log'') 5] sampleEngine = Inr e'"
    by (simp add: onFrames_def onItemIn_def sampleEngine_def newEngine_def is_live_def en_frozen_def)
  then show ?thesis
    using frames_advance [OF newEngine_inv, of emptyOps "[OpenF (lit ''log'') 5]" "()" "lit ''s''" "[lit ''list:*'']"]
    unfolding sampleEngine_def by blast
qed

text \<open>
  C1: every state that the app, the transport, the timers and the runs of the main loop can bring an
  Engine to, from its constructor over a store it may have written, satisfies the invariant from
  its first run on.
\<close>

theorem reached_engine_invariant:
  assumes "reaches w (Running (newAdvancer (newEngine txn series wants))) (Running a)"
    and "stored_ok (wd_ops w) txn" "ad_initialized a"
  shows "eng_inv (ad_engine a)"
proof -
  have "app_ok w (Running (newAdvancer (newEngine txn series wants)))"
    using assms(2) by (simp add: app_ok_def newAdvancer_def newEngine_blank) (simp add: newEngine_def)
  then show ?thesis using app_ok_reaches [OF assms(1)] assms(3) by (simp add: app_ok_def)
qed

theorem reached_engine_invariant_witness:
  "\<exists>a. reaches emptyWorld (Running (newAdvancer sampleEngine)) (Running a) \<and> eng_inv (ad_engine a)"
proof -
  obtain a where r: "reaches emptyWorld (Running (newAdvancer sampleEngine)) (Running a)" and a: "ad_initialized a"
    using sample_reached by blast
  have "eng_inv (ad_engine a)"
    by (rule reached_engine_invariant [OF r [unfolded sampleEngine_def] _ a]) (simp add: stored_ok_def emptyWorld_def emptyOps_def)
  then show ?thesis using r by blast
qed

text \<open>C36: once an Engine has loaded, no step takes its cursor or its applied position back, or changes its log.\<close>

theorem steps_never_go_back:
  assumes "appStep w (Running a) (Running a')" "ad_initialized a" "eng_inv (ad_engine a)"
  shows "cursorOf (ad_engine a) \<le> cursorOf (ad_engine a') \<and> en_applied (ad_engine a) \<le> en_applied (ad_engine a') \<and>
    (\<forall>ep. logOf (ad_engine a) = Some ep \<longrightarrow> logOf (ad_engine a') = Some ep)"
  using appStep_advances [OF assms(1,2)] assms(3) by (auto simp: advances_def)

theorem steps_never_go_back_witness:
  "\<exists>a. appStep emptyWorld (Running a) (Running (reconnectNow a)) \<and>
     cursorOf (ad_engine a) \<le> cursorOf (ad_engine (reconnectNow a))"
proof -
  define a where "a = (newAdvancer sampleEngine :: (unit, nat) advancer)\<lparr>ad_initialized := True\<rparr>"
  have s: "appStep emptyWorld (Running a) (Running (reconnectNow a))" using appStep.Event [of emptyWorld a Reconnects] by simp
  have "eng_inv (ad_engine a)" by (simp add: a_def newAdvancer_def sampleEngine_def newEngine_inv)
  then show ?thesis using steps_never_go_back [OF s] s by (auto simp: a_def)
qed

section \<open>The main loop\<close>

text \<open>
  C9: a run of the main loop returns, whatever is queued and whatever the callbacks and hooks that run
  within it call, provided they call the Engine in finitely many of its turns: a subscriber that
  submits whenever it is notified can keep the loop going for ever.
\<close>

theorem run_returns:
  assumes "\<And>k. N \<le> k \<Longrightarrow> still (during k)"
  shows "\<exists>r. advance w during a = Some r"
proof -
  have "\<exists>r. advancerLoop w during 0 b = Some r" for b by (rule advancerLoop_returns [OF assms])
  then show ?thesis by (auto simp: advance_def Let_def split: sum.split)
qed

theorem run_returns_witness:
  "\<exists>r. advance emptyWorld (\<lambda>k. if k < 2 then silent\<lparr>du_passing := [Submits 7, Queries]\<rparr> else silent) (newAdvancer sampleEngine) = Some r"
  by (rule run_returns [where N = 2]) (simp add: still_def silent_def)

text \<open>
  C10: no work waits for nothing. In every state an Engine reaches after its first run, unless it ended,
  either the timer of the next run is set, or every queue is empty, with no call to start, nothing to
  resend, no new query unanswered, no connection it could make and no abort to see to; also where
  callbacks and hooks add work while a run is at its end.
\<close>

theorem work_is_scheduled:
  assumes "reaches w (Running (newAdvancer e)) (Running a)" "ad_initialized a"
  shows "ad_ended a \<or> ad_scheduled a \<or> idle a"
  using reaches_woken [OF assms(1) _ refl assms(2)] by (simp add: woken_def newAdvancer_def)

theorem work_is_scheduled_witness:
  "\<exists>a. reaches emptyWorld (Running (newAdvancer sampleEngine)) (Running a) \<and> \<not> ad_ended a \<and> (ad_scheduled a \<or> idle a)"
  using sample_reached work_is_scheduled by blast

text \<open>
  The wait before a retry is between half its base and its base, which doubles from 500ms up to 30s.\<close>

theorem backoff_bounds:
  assumes "0 \<le> random" "random < 1"
  shows "250 \<le> backoffDelay random attempt \<and> backoffDelay random attempt < 30000 \<and>
    backoffDelay random attempt < 2 * backoffDelay 0 attempt"
proof -
  define base :: real where "base = min 30000 (500 * 2 ^ min attempt 10)"
  define p where "p = random * (base / 2)"
  have b: "500 \<le> base" "base \<le> 30000" by (simp_all add: base_def min_def)
  have d: "backoffDelay random attempt = base / 2 + p" "backoffDelay 0 attempt = base / 2"
    by (simp_all add: backoffDelay_def base_def p_def Let_def)
  have "random * (base / 2) < 1 * (base / 2)" using assms b by (intro mult_strict_right_mono) simp_all
  then have "0 \<le> p" "p < base / 2" using assms b unfolding p_def by simp_all
  then show ?thesis using b by (simp_all add: d)
qed

theorem backoff_bounds_witness: "250 \<le> backoffDelay (1/2) 20 \<and> backoffDelay (1/2) 20 < 30000"
  using backoff_bounds [of "1/2" 20] by simp

end
