(* ===== verification/WireBytes.thy ===== *)
theory WireBytes
  imports Utf8 "HOL-Library.Log_Nat"
begin

text \<open>
  Bytes on the wire (client/ts/src/msgpack.ts and the vendored msgpack-javascript it builds on):
  big-endian integers as \<open>DataView\<close> reads and writes them, and strings as UTF-8, by the loops for
  short strings and by the language's \<open>TextEncoder\<close> and \<open>TextDecoder\<close> for long ones.
\<close>

unbundle bit_operations_syntax

section \<open>Big-endian integers\<close>

definition byte :: "int \<Rightarrow> 8 word" where "byte v = word_of_int v"

text \<open>\<open>be\<close>: the unsigned integer of n bytes at a position.\<close>

definition be :: "bytes \<Rightarrow> nat \<Rightarrow> nat \<Rightarrow> int" where
  "be buf pos n = foldl (\<lambda>v i. v * 256 + uint (buf ! (pos + i))) 0 [0..<n]"

text \<open>\<open>setUint16\<close>, \<open>setUint32\<close> and the halves of \<open>setUint64\<close>: the low bytes of a number, high byte first.\<close>

fun beBytes :: "nat \<Rightarrow> int \<Rightarrow> bytes" where
  "beBytes 0 v = []"
| "beBytes (Suc n) v = beBytes n (v div 256) @ [byte v]"

definition signed_of :: "nat \<Rightarrow> int \<Rightarrow> int" where
  "signed_of n v = (if v \<ge> 2 ^ (8 * n - 1) then v - 2 ^ (8 * n) else v)"

text \<open>The integer that the double nearest an integer is, ties to even: what a sum of 64 bits rounds to.\<close>

definition nearInt :: "int \<Rightarrow> int" where
  "nearInt i =
     (let n = \<bar>i\<bar> in
      if n < 2 ^ 53 then i
      else
        let sh = floorlog 2 (nat n) - 53; q = n div 2 ^ sh; r = n mod 2 ^ sh;
            q' = (if 2 * r > 2 ^ sh \<or> (2 * r = 2 ^ sh \<and> odd q) then q + 1 else q)
        in (if i < 0 then -1 else 1) * (q' * 2 ^ sh))"

lemma nearInt_safe [simp]: "\<bar>i\<bar> < 2 ^ 53 \<Longrightarrow> nearInt i = i"
  by (simp add: nearInt_def)

definition getInt64 :: "bytes \<Rightarrow> nat \<Rightarrow> int" where
  "getInt64 buf pos =
     (let high = signed_of 4 (be buf pos 4); low = be buf (pos + 4) 4 in nearInt (high * 0x100000000 + low))"

definition getUint64 :: "bytes \<Rightarrow> nat \<Rightarrow> int" where
  "getUint64 buf pos = (let high = be buf pos 4; low = be buf (pos + 4) 4 in nearInt (high * 0x100000000 + low))"

definition setUint64 :: "int \<Rightarrow> bytes" where
  "setUint64 v = beBytes 4 (v div 0x100000000) @ beBytes 4 v"

definition setInt64 :: "int \<Rightarrow> bytes" where
  "setInt64 v = beBytes 4 (v div 0x100000000) @ beBytes 4 v"

text \<open>The value of a list of bytes, high byte first.\<close>

definition beVal :: "bytes \<Rightarrow> int" where
  "beVal bs = foldl (\<lambda>v b. v * 256 + uint b) 0 bs"

lemma uint_byte [simp]: "uint (byte v) = v mod 256"
  by (simp add: byte_def uint_word_of_int)

lemma byte_bounds: "0 \<le> uint (b :: 8 word)" "uint (b :: 8 word) < 256"
  using uint_lt2p [of b] by simp_all

lemma length_beBytes [simp]: "length (beBytes n v) = n"
  by (induction n v rule: beBytes.induct) auto

lemma beVal_snoc [simp]: "beVal (bs @ [b]) = beVal bs * 256 + uint b"
  by (simp add: beVal_def)

lemma beVal_Nil [simp]: "beVal [] = 0"
  by (simp add: beVal_def)

lemma beVal_beBytes [simp]: "beVal (beBytes n v) = v mod 256 ^ n"
proof (induction n v rule: beBytes.induct)
  case (2 n v)
  have "v mod 256 ^ Suc n = v div 256 mod 256 ^ n * 256 + v mod 256"
    by (simp add: mod_mult2_eq' [of v 256 "256 ^ n"] zmod_zmult2_eq)
  then show ?case using 2 by simp
qed simp

lemma be_drop: "be buf pos n = be (drop pos buf) 0 n" if "pos + n \<le> length buf"
  using that by (auto simp: be_def intro!: foldl_cong)

lemma be_list: "n \<le> length bs \<Longrightarrow> be bs 0 n = beVal (take n bs)"
proof (induction n)
  case (Suc n)
  then show ?case by (simp add: be_def take_Suc_conv_app_nth)
qed (simp add: be_def)

lemma be_at:
  assumes "drop pos buf = bs @ rest" "pos \<le> length buf" "length bs = n"
  shows "be buf pos n = beVal bs"
proof -
  have "length (drop pos buf) = n + length rest" using assms(1,3) by simp
  then have "pos + n \<le> length buf" using assms(2) by simp
  then show ?thesis using be_list [of n "drop pos buf"] assms be_drop [of pos n buf] by simp
qed

lemma signed_bytes:
  assumes "- (2 ^ (8 * n - 1)) \<le> v" "v < 2 ^ (8 * n - 1)" "0 < n"
  shows "signed_of n (v mod 256 ^ n) = v"
proof -
  have p: "(256 :: int) ^ n = 2 ^ (8 * n)" by (simp add: power_mult)
  have h: "(2 :: int) ^ (8 * n) = 2 * 2 ^ (8 * n - 1)" using assms(3) by (simp flip: power_Suc)
  show ?thesis
  proof (cases "v < 0")
    case True
    have "v mod 256 ^ n = (v + 2 ^ (8 * n)) mod 2 ^ (8 * n)" using p by simp
    also have "\<dots> = v + 2 ^ (8 * n)" by (rule mod_pos_pos_trivial) (use True assms(1) h in linarith)+
    finally have "v mod 256 ^ n = v + 2 ^ (8 * n)" .
    then show ?thesis using True assms h by (simp add: signed_of_def)
  next
    case False
    then show ?thesis using assms h p by (simp add: signed_of_def mod_pos_pos_trivial)
  qed
qed

section \<open>Strings as UTF-8\<close>

text \<open>\<open>utf8Count\<close> of the vendored code: the bytes of a string, a lone surrogate three.\<close>

fun utf8Count :: "jsstr \<Rightarrow> nat" where
  "utf8Count [] = 0"
| "utf8Count (c # s) =
     (let v = uint c in
      if v AND 0xffffff80 = 0 then 1 + utf8Count s
      else if v AND 0xfffff800 = 0 then 2 + utf8Count s
      else
        let pair = v \<ge> 0xd800 \<and> v \<le> 0xdbff \<and>
              (case s of [] \<Rightarrow> False | d # _ \<Rightarrow> uint d AND 0xfc00 = 0xdc00);
            v' = (if pair then push_bit 10 (v AND 0x3ff) + (uint (hd s) AND 0x3ff) + 0x10000 else v)
        in (if v' AND 0xffff0000 = 0 then 3 else 4) + utf8Count (if pair then tl s else s))"

fun utf8EncodeJs :: "jsstr \<Rightarrow> bytes" where
  "utf8EncodeJs [] = []"
| "utf8EncodeJs (c # s) =
     (let v = uint c in
      if v AND 0xffffff80 = 0 then byte v # utf8EncodeJs s
      else if v AND 0xfffff800 = 0
      then byte ((drop_bit 6 v AND 0x1f) OR 0xc0) # byte ((v AND 0x3f) OR 0x80) # utf8EncodeJs s
      else
        let pair = v \<ge> 0xd800 \<and> v \<le> 0xdbff \<and>
              (case s of [] \<Rightarrow> False | d # _ \<Rightarrow> uint d AND 0xfc00 = 0xdc00);
            v' = (if pair then push_bit 10 (v AND 0x3ff) + (uint (hd s) AND 0x3ff) + 0x10000 else v)
        in (if v' AND 0xffff0000 = 0
            then [byte ((drop_bit 12 v' AND 0x0f) OR 0xe0), byte ((drop_bit 6 v' AND 0x3f) OR 0x80)]
            else [byte ((drop_bit 18 v' AND 0x07) OR 0xf0), byte ((drop_bit 12 v' AND 0x3f) OR 0x80),
                  byte ((drop_bit 6 v' AND 0x3f) OR 0x80)]) @
           byte ((v' AND 0x3f) OR 0x80) # utf8EncodeJs (if pair then tl s else s))"

text \<open>\<open>TextEncoder\<close>: a lone surrogate is written as U+FFFD.\<close>

fun toWellFormed :: "jsstr \<Rightarrow> jsstr" where
  "toWellFormed [] = []"
| "toWellFormed (c # s) =
     (if lead_unit c then
        (case s of
           [] \<Rightarrow> [0xfffd]
         | d # s' \<Rightarrow> if trail_unit d then c # d # toWellFormed s' else 0xfffd # toWellFormed s)
      else if trail_unit c then 0xfffd # toWellFormed s else c # toWellFormed s)"

definition utf8EncodeTE :: "jsstr \<Rightarrow> bytes" where
  "utf8EncodeTE s = map byte (utf8 (toWellFormed s))"

definition utf8Encode :: "jsstr \<Rightarrow> bytes" where
  "utf8Encode s = (if length s > 50 then utf8EncodeTE s else utf8EncodeJs s)"

text \<open>
  \<open>utf8DecodeJs\<close> of \<open>n\<close> bytes at the front of what is left of the buffer: a sequence cut short by
  the \<open>n\<close> reads on into the buffer, and past its end reads 0 (\<open>undefined & 0x3f\<close>).
\<close>

definition after :: "bytes \<Rightarrow> nat \<Rightarrow> int" where
  "after bs i = (if i < length bs then uint (bs ! i) else 0)"

fun utf8DecodeJs :: "nat \<Rightarrow> bytes \<Rightarrow> jsstr" where
  "utf8DecodeJs n bs =
     (if n = 0 then []
      else
        let b1 = after bs 0; b2 = after bs 1 AND 0x3f; b3 = after bs 2 AND 0x3f; b4 = after bs 3 AND 0x3f
        in if b1 AND 0x80 = 0 then word_of_int b1 # utf8DecodeJs (n - 1) (drop 1 bs)
           else if b1 AND 0xe0 = 0xc0
           then word_of_int (push_bit 6 (b1 AND 0x1f) OR b2) # utf8DecodeJs (n - 2) (drop 2 bs)
           else if b1 AND 0xf0 = 0xe0
           then word_of_int (push_bit 12 (b1 AND 0x1f) OR push_bit 6 b2 OR b3) # utf8DecodeJs (n - 3) (drop 3 bs)
           else if b1 AND 0xf8 = 0xf0
           then
             let u = push_bit 18 (b1 AND 0x07) OR push_bit 12 b2 OR push_bit 6 b3 OR b4 in
             (if u > 0xffff
              then [word_of_int ((drop_bit 10 (u - 0x10000) AND 0x3ff) OR 0xd800),
                    word_of_int (0xdc00 OR ((u - 0x10000) AND 0x3ff))]
              else [word_of_int u]) @ utf8DecodeJs (n - 4) (drop 4 bs)
           else word_of_int b1 # utf8DecodeJs (n - 1) (drop 1 bs))"

text \<open>
  \<open>TextDecoder\<close>: the decoder of the Encoding standard, each bad sequence U+FFFD, and a byte order
  mark at the start dropped. \<open>needed\<close> bytes are still to come, the next between \<open>lo\<close> and \<open>hi\<close>.
\<close>

function tdLoop :: "nat \<Rightarrow> int \<Rightarrow> int \<Rightarrow> int \<Rightarrow> bytes \<Rightarrow> jsstr" where
  "tdLoop needed cp lo hi [] = (if needed = 0 then [] else [0xfffd])"
| "tdLoop 0 cp lo hi (b # bs) =
     (let v = uint b in
      if v \<le> 0x7f then word_of_int v # tdLoop 0 0 0x80 0xbf bs
      else if 0xc2 \<le> v \<and> v \<le> 0xdf then tdLoop 1 (v AND 0x1f) 0x80 0xbf bs
      else if 0xe0 \<le> v \<and> v \<le> 0xef
      then tdLoop 2 (v AND 0x0f) (if v = 0xe0 then 0xa0 else 0x80) (if v = 0xed then 0x9f else 0xbf) bs
      else if 0xf0 \<le> v \<and> v \<le> 0xf4
      then tdLoop 3 (v AND 0x07) (if v = 0xf0 then 0x90 else 0x80) (if v = 0xf4 then 0x8f else 0xbf) bs
      else 0xfffd # tdLoop 0 0 0x80 0xbf bs)"
| "tdLoop (Suc n) cp lo hi (b # bs) =
     (let v = uint b in
      if v < lo \<or> hi < v then 0xfffd # tdLoop 0 0 0x80 0xbf (b # bs)
      else
        let cp' = push_bit 6 cp OR (v AND 0x3f) in
        if n = 0 then fromCodePoint cp' @ tdLoop 0 0 0x80 0xbf bs
        else tdLoop n cp' 0x80 0xbf bs)"
  by pat_completeness auto
termination by (relation "measures [\<lambda>(n, _, _, _, bs). length bs, \<lambda>(n, _). n]") auto

definition utf8DecodeTD :: "bytes \<Rightarrow> jsstr" where
  "utf8DecodeTD bs = tdLoop 0 0 0x80 0xbf (if take 3 bs = [0xef, 0xbb, 0xbf] then drop 3 bs else bs)"

definition utf8Decode :: "bytes \<Rightarrow> nat \<Rightarrow> nat \<Rightarrow> jsstr" where
  "utf8Decode buf pos n =
     (if n > 200 then utf8DecodeTD (take n (drop pos buf)) else utf8DecodeJs n (drop pos buf))"

section \<open>Masks and shifts as arithmetic\<close>

lemma and_low: "(v :: int) AND mask n = v mod 2 ^ n"
  by (simp add: take_bit_eq_mask [symmetric] take_bit_eq_mod)

lemma mask_nums:
  "mask 2 = (3 :: int)" "mask 3 = (7 :: int)" "mask 4 = (15 :: int)" "mask 5 = (31 :: int)" "mask 6 = (63 :: int)"
  "mask 8 = (255 :: int)" "mask 10 = (1023 :: int)"
  by (simp_all add: mask_eq_exp_minus_1)

lemma power_nums:
  "2 ^ 2 = (4 :: int)" "2 ^ 3 = (8 :: int)" "2 ^ 4 = (16 :: int)" "2 ^ 5 = (32 :: int)" "2 ^ 6 = (64 :: int)"
  "2 ^ 8 = (256 :: int)" "2 ^ 10 = (1024 :: int)"
  by simp_all

lemmas and_masks =
  and_low [where n = 2, unfolded mask_nums power_nums] and_low [where n = 3, unfolded mask_nums power_nums]
  and_low [where n = 4, unfolded mask_nums power_nums] and_low [where n = 5, unfolded mask_nums power_nums]
  and_low [where n = 6, unfolded mask_nums power_nums] and_low [where n = 8, unfolded mask_nums power_nums]
  and_low [where n = 10, unfolded mask_nums power_nums]

lemma and_high:
  assumes "0 \<le> (v :: int)" "v < 2 ^ (n + m)"
  shows "v AND push_bit n (mask m) = v div 2 ^ n * 2 ^ n"
proof -
  have "v AND push_bit n (mask m) = push_bit n (drop_bit n v AND mask m)"
    by (rule bit_eqI) (auto simp: bit_simps)
  also have "drop_bit n v AND mask m = v div 2 ^ n"
  proof -
    have "v div 2 ^ n < 2 ^ m"
    proof -
      have "v div 2 ^ n * 2 ^ n + v mod 2 ^ n = v" by (rule div_mult_mod_eq)
      moreover have "0 \<le> v mod 2 ^ n" by simp
      moreover have "v < 2 ^ m * 2 ^ n" using assms by (simp add: power_add mult.commute)
      ultimately have "v div 2 ^ n * 2 ^ n < 2 ^ m * 2 ^ n" by linarith
      then show ?thesis by simp
    qed
    then show ?thesis using assms by (simp add: and_low drop_bit_eq_div pos_imp_zdiv_nonneg_iff)
  qed
  finally show ?thesis by (simp add: push_bit_eq_mult)
qed

lemma and_highs:
  assumes "0 \<le> (v :: int)" "v < 0x200000"
  shows "v AND 0xffffff80 = v div 128 * 128" "v AND 0xfffff800 = v div 2048 * 2048"
    "v AND 0xffff0000 = v div 65536 * 65536" 
  using and_high [of v 7 25] and_high [of v 11 21] and_high [of v 16 16] assms
  by (simp_all add: push_bit_eq_mult mask_eq_exp_minus_1)

lemma and_tops:
  assumes "0 \<le> (v :: int)" "v < 256"
  shows "v AND 0x80 = v div 128 * 128" "v AND 0xe0 = v div 32 * 32" "v AND 0xf0 = v div 16 * 16"
    "v AND 0xf8 = v div 8 * 8"
  using and_high [of v 7 1] and_high [of v 5 3] and_high [of v 4 4] and_high [of v 3 5] assms
  by (simp_all add: push_bit_eq_mult mask_eq_exp_minus_1)

lemma and_trail: "0 \<le> (v :: int) \<Longrightarrow> v < 65536 \<Longrightarrow> v AND 0xfc00 = v div 1024 * 1024"
  using and_high [of v 10 6] by (simp add: push_bit_eq_mult mask_eq_exp_minus_1)

lemma or_shift:
  assumes "0 \<le> (x :: int)" "x < 2 ^ n"
  shows "x OR y * 2 ^ n = x + y * 2 ^ n"
proof -
  have "x = take_bit n x" using assms by (simp add: take_bit_eq_mod mod_pos_pos_trivial)
  then have "x AND push_bit n y = take_bit n x AND push_bit n y" by simp
  also have "\<dots> = 0" by (rule bit_eqI) (auto simp: bit_simps)
  finally have "x + push_bit n y = x OR push_bit n y" by (rule disjunctive_add_eq_or)
  then show ?thesis by (simp add: push_bit_eq_mult)
qed

lemma or_leads:
  "0 \<le> x \<Longrightarrow> (x :: int) < 64 \<Longrightarrow> x OR 0x80 = x + 0x80"
  "0 \<le> x \<Longrightarrow> x < 32 \<Longrightarrow> x OR 0xc0 = x + 0xc0"
  "0 \<le> x \<Longrightarrow> x < 16 \<Longrightarrow> x OR 0xe0 = x + 0xe0"
  "0 \<le> x \<Longrightarrow> x < 8 \<Longrightarrow> x OR 0xf0 = x + 0xf0"
  "0 \<le> x \<Longrightarrow> x < 1024 \<Longrightarrow> x OR 0xd800 = x + 0xd800"
  "0 \<le> x \<Longrightarrow> x < 1024 \<Longrightarrow> 0xdc00 OR x = x + 0xdc00"
  "0 \<le> x \<Longrightarrow> x < 16 \<Longrightarrow> 0x90 OR x = x + 0x90"
  "0 \<le> x \<Longrightarrow> x < 16 \<Longrightarrow> 0x80 OR x = x + 0x80"
  "0 \<le> x \<Longrightarrow> x < 32 \<Longrightarrow> 0xa0 OR x = x + 0xa0"
  using or_shift [of x 6 2] or_shift [of x 5 6] or_shift [of x 4 14] or_shift [of x 3 30] or_shift [of x 10 54]
    or_shift [of x 10 55] or_shift [of x 4 9] or_shift [of x 4 8] or_shift [of x 5 5]
  by (simp_all add: or.commute)

lemma uint16_bounds: "0 \<le> uint (u :: unit16)" "uint (u :: unit16) < 65536"
  using uint_lt2p [of u] by simp_all

lemma trail_test: "uint (d :: unit16) AND 0xfc00 = 0xdc00 \<longleftrightarrow> trail_unit d"
  using uint16_bounds [of d] by (auto simp: and_trail trail_unit_def)

end
