(* ===== verification/WireText.thy ===== *)
theory WireText
  imports WireBytes
begin

text \<open>
  The strings of the wire: the vendored encoder writes the UTF-8 of its string, its count is the
  length of what it writes, and the decoder gives the string back, except that a string of more
  than 200 bytes loses a byte order mark at its start to \<open>TextDecoder\<close>.
\<close>

section \<open>Encoding\<close>

lemma pair_value:
  assumes "lead_unit c" "trail_unit d"
  shows "push_bit 10 (uint c AND 0x3ff) + (uint d AND 0x3ff) + 0x10000 = pair_point c d"
proof -
  have m: "(x + k * 1024) mod 1024 = x" if "0 \<le> x" "x < 1024" for x k :: int using that by simp
  have "uint c mod 1024 = uint c - 0xd800" "uint d mod 1024 = uint d - 0xdc00"
    using assms m [of "uint c - 0xd800" 54] m [of "uint d - 0xdc00" 55] by (simp_all add: lead_unit_def trail_unit_def)
  then show ?thesis by (simp add: and_masks pair_point_def push_bit_eq_mult)
qed

lemma utf8_Cons:
  "utf8 (c # s) =
     (if lead_unit c \<and> s \<noteq> [] \<and> trail_unit (hd s) then utf8_point (pair_point c (hd s)) @ utf8 (tl s)
      else utf8_point (uint c) @ utf8 s)"
  by (cases s) (simp_all add: utf8_def)

lemma one_byte: "0 \<le> v \<Longrightarrow> v < 65536 \<Longrightarrow> (v :: int) AND 0xffffff80 = 0 \<longleftrightarrow> v < 128"
  by (auto simp: and_highs zdiv_eq_0_iff)

lemma two_bytes: "0 \<le> v \<Longrightarrow> v < 65536 \<Longrightarrow> (v :: int) AND 0xfffff800 = 0 \<longleftrightarrow> v < 2048"
  by (auto simp: and_highs zdiv_eq_0_iff)

lemma three_bytes: "0 \<le> v \<Longrightarrow> v < 0x200000 \<Longrightarrow> (v :: int) AND 0xffff0000 = 0 \<longleftrightarrow> v < 65536"
  by (auto simp: and_highs zdiv_eq_0_iff)

lemma bytes_of_point:
  assumes "0 \<le> c" "c < 0x110000"
  shows "map byte (utf8_point c) =
     (if c < 0x80 then [byte c]
      else if c < 0x800 then [byte ((drop_bit 6 c AND 0x1f) OR 0xc0), byte ((c AND 0x3f) OR 0x80)]
      else if c < 0x10000
      then [byte ((drop_bit 12 c AND 0x0f) OR 0xe0), byte ((drop_bit 6 c AND 0x3f) OR 0x80), byte ((c AND 0x3f) OR 0x80)]
      else [byte ((drop_bit 18 c AND 0x07) OR 0xf0), byte ((drop_bit 12 c AND 0x3f) OR 0x80),
            byte ((drop_bit 6 c AND 0x3f) OR 0x80), byte ((c AND 0x3f) OR 0x80)])"
proof -
  have "c < 0x800 \<Longrightarrow> c div 64 mod 32 = c div 64" "c < 0x10000 \<Longrightarrow> c div 4096 mod 16 = c div 4096"
    "c div 262144 mod 8 = c div 262144"
    using assms by (auto intro!: mod_pos_pos_trivial simp: div_less_iff_less_mult pos_imp_zdiv_nonneg_iff)
  then show ?thesis
    using assms by (simp add: utf8_point_def and_masks or_leads drop_bit_eq_div add.commute)
qed

lemma utf8EncodeJs_Cons:
  "utf8EncodeJs (c # s) =
     (if lead_unit c \<and> s \<noteq> [] \<and> trail_unit (hd s) then map byte (utf8_point (pair_point c (hd s))) @ utf8EncodeJs (tl s)
      else map byte (utf8_point (uint c)) @ utf8EncodeJs s)"
proof (cases "lead_unit c \<and> s \<noteq> [] \<and> trail_unit (hd s)")
  case True
  then obtain d s' where s: "s = d # s'" "trail_unit d" "lead_unit c" by (cases s) auto
  have big: "\<not> uint c < 128" "\<not> uint c < 2048" using s by (simp_all add: lead_unit_def)
  have p: "0x10000 \<le> pair_point c d" "pair_point c d \<le> 0x10ffff" using pair_bounds s by simp_all
  then show ?thesis
    using s big uint16_bounds [of c] pair_value [OF s(3,2)]
    by (simp add: Let_def one_byte two_bytes trail_test three_bytes lead_unit_def [symmetric] bytes_of_point)
next
  case False
  have no: "(uint c \<ge> 0xd800 \<and> uint c \<le> 0xdbff \<and> (case s of [] \<Rightarrow> False | d # _ \<Rightarrow> uint d AND 0xfc00 = 0xdc00)) = False"
    using False by (cases s) (auto simp: trail_test lead_unit_def)
  show ?thesis
    unfolding utf8EncodeJs.simps Let_def no if_False if_not_P [OF False]
    using uint16_bounds [of c] by (simp add: one_byte two_bytes three_bytes bytes_of_point)
qed

lemma utf8EncodeJs_utf8: "utf8EncodeJs s = map byte (utf8 s)"
proof (induction s rule: length_induct)
  case (1 s)
  show ?case
  proof (cases s)
    case (Cons c s')
    then show ?thesis using 1 unfolding Cons utf8EncodeJs_Cons utf8_Cons by simp
  qed (simp add: utf8_def)
qed

lemma utf8Count_length: "utf8Count s = length (utf8EncodeJs s)"
  by (induction s rule: utf8Count.induct) (simp_all add: Let_def)

lemma toWellFormed_wf: "well_formed s \<Longrightarrow> toWellFormed s = s"
proof (induction s rule: wf_induct)
  case (pair u d s)
  then show ?case using unit_kinds [of u] by simp
qed (simp_all add: plain_unit_def)

lemma surrogate_three: "lead_unit u \<or> trail_unit u \<Longrightarrow> length (utf8_point (uint u)) = 3"
  by (auto simp: length_utf8_point_unit lead_unit_def trail_unit_def)

lemma not_lead_fffd: "\<not> lead_unit 0xfffd"
  by (simp add: lead_unit_def)

text \<open>A lone surrogate and the U+FFFD in its place take three bytes each, so the count holds for both encoders.\<close>

lemma toWellFormed_length: "length (utf8 (toWellFormed s)) = length (utf8 s)"
proof (induction s rule: toWellFormed.induct)
  case (2 c s)
  have f: "length (utf8_point 0xfffd) = 3" by (simp add: utf8_point_def)
  have x: "utf8 (0xfffd # t) = utf8_point 0xfffd @ utf8 t" for t by (simp add: utf8_Cons not_lead_fffd)
  show ?case
  proof (cases s)
    case Nil
    then show ?thesis using f surrogate_three [of c] by (auto simp: utf8_Cons utf8_def)
  next
    case (Cons d s')
    have kinds: "lead_unit c \<Longrightarrow> \<not> trail_unit c" by (auto simp: lead_unit_def trail_unit_def)
    show ?thesis
      using 2 Cons f x surrogate_three [of c] kinds unit_kinds [of c]
      by (auto simp: utf8_Cons [of c])
  qed
qed simp

lemma utf8Encode_length: "length (utf8Encode s) = utf8Count s"
  by (simp add: utf8Encode_def utf8EncodeTE_def utf8EncodeJs_utf8 utf8Count_length toWellFormed_length)

lemma utf8Encode_wf: "well_formed s \<Longrightarrow> utf8Encode s = map byte (utf8 s)"
  by (simp add: utf8Encode_def utf8EncodeTE_def utf8EncodeJs_utf8 toWellFormed_wf)

section \<open>Decoding\<close>

declare utf8DecodeJs.simps [simp del]

lemma utf8DecodeJs_0 [simp]: "utf8DecodeJs 0 bs = []"
  by (subst utf8DecodeJs.simps) simp

lemma fromCodePoint_plain: "fromCodePoint (uint (u :: unit16)) = [u]"
  using uint16_bounds [of u] by (simp add: fromCodePoint_def)

lemma fromCodePoint_pair:
  assumes "lead_unit u" "trail_unit d"
  shows "fromCodePoint (pair_point u d) = [u, d]"
proof -
  have v: "valid_point (pair_point u d)" using pair_bounds [OF assms] by (simp add: valid_point_def)
  have "well_formed [u, d]" "points [u, d] = [pair_point u d]" using assms by simp_all
  then show ?thesis using fromCodePoint_points [OF v] points_inj by metis
qed

lemma utf8_point_parts:
  assumes "0 \<le> c" "c < 0x110000"
  obtains (one) "c < 0x80" "map byte (utf8_point c) = [byte c]"
  | (two) a b where "2 \<le> a" "a < 32" "0 \<le> b" "b < 64" "c = a * 64 + b"
      "map byte (utf8_point c) = [byte (0xc0 + a), byte (0x80 + b)]" "c < 0x800"
  | (three) a b d where "0 \<le> a" "a < 16" "0 \<le> b" "b < 64" "0 \<le> d" "d < 64" "c = (a * 64 + b) * 64 + d"
      "map byte (utf8_point c) = [byte (0xe0 + a), byte (0x80 + b), byte (0x80 + d)]" "0x800 \<le> c" "c < 0x10000"
  | (four) a b d e where "0 \<le> a" "a < 5" "0 \<le> b" "b < 64" "0 \<le> d" "d < 64" "0 \<le> e" "e < 64"
      "c = ((a * 64 + b) * 64 + d) * 64 + e"
      "map byte (utf8_point c) = [byte (0xf0 + a), byte (0x80 + b), byte (0x80 + d), byte (0x80 + e)]" "0x10000 \<le> c"
proof (cases "c < 0x80")
  case True
  then show ?thesis using one by (simp add: utf8_point_def)
next
  case f1: False
  define x1 x2 x3 where x: "x1 = c div 64" "x2 = c div 64 div 64" "x3 = c div 64 div 64 div 64"
  define r0 r1 r2 where r: "r0 = c mod 64" "r1 = c div 64 mod 64" "r2 = c div 64 div 64 mod 64"
  have eqs: "c = x1 * 64 + r0" "x1 = x2 * 64 + r1" "x2 = x3 * 64 + r2" unfolding x r by simp_all
  have bounds: "0 \<le> r0" "r0 < 64" "0 \<le> r1" "r1 < 64" "0 \<le> r2" "r2 < 64" unfolding r by simp_all
  have d: "c div 4096 = x2" "c div 262144 = x3" "c div 4096 mod 64 = r2" "c div 64 mod 64 = r1" "c mod 64 = r0" "c div 64 = x1"
    "x1 mod 64 = r1" "x2 mod 64 = r2"
    unfolding x r by (simp_all add: zdiv_zmult2_eq [symmetric])
  show ?thesis
  proof (cases "c < 0x800")
    case True
    have "map byte (utf8_point c) = [byte (0xc0 + x1), byte (0x80 + r0)]"
      using f1 True by (simp add: utf8_point_def d)
    then show ?thesis using two [of x1 r0] True f1 eqs bounds by linarith
  next
    case f2: False
    show ?thesis
    proof (cases "c < 0x10000")
      case True
      have "map byte (utf8_point c) = [byte (0xe0 + x2), byte (0x80 + r1), byte (0x80 + r0)]"
        using f1 f2 True by (simp add: utf8_point_def d)
      moreover have "c = (x2 * 64 + r1) * 64 + r0" using eqs by simp
      ultimately show ?thesis using three [of x2 r1 r0] True f2 eqs bounds by linarith
    next
      case False
      have "map byte (utf8_point c) = [byte (0xf0 + x3), byte (0x80 + r2), byte (0x80 + r1), byte (0x80 + r0)]"
        using f1 f2 False by (simp add: utf8_point_def d)
      moreover have "c = ((x3 * 64 + r2) * 64 + r1) * 64 + r0" using eqs by simp
      ultimately show ?thesis using four [of x3 r2 r1 r0] False f2 assms eqs bounds by linarith
    qed
  qed
qed

lemma after_Cons: "after (b # bs) 0 = uint b" "0 < i \<Longrightarrow> after (b # bs) i = after bs (i - 1)"
  by (auto simp: after_def nth_Cons')

lemma lead_bits2: "0 \<le> a \<Longrightarrow> a < 32 \<Longrightarrow>
    (0xc0 + a) AND 0x80 = (0x80 :: int) \<and> (0xc0 + a) AND 0xe0 = 0xc0 \<and> (0xc0 + a) AND 0x1f = a"
proof -
  assume "0 \<le> a" "a < 32"
  moreover have "\<forall>a \<in> set [0..31]. (0xc0 + a) AND 0x80 = (0x80 :: int) \<and> (0xc0 + a) AND 0xe0 = 0xc0 \<and> (0xc0 + a) AND 0x1f = a"
    by code_simp
  ultimately show ?thesis by simp
qed

lemma lead_bits3: "0 \<le> a \<Longrightarrow> a < 16 \<Longrightarrow>
    (0xe0 + a) AND 0x80 = (0x80 :: int) \<and> (0xe0 + a) AND 0xe0 = 0xe0 \<and> (0xe0 + a) AND 0xf0 = 0xe0 \<and>
    (0xe0 + a) AND 0x1f = a \<and> (0xe0 + a) AND 0x0f = a"
proof -
  assume "0 \<le> a" "a < 16"
  moreover have "\<forall>a \<in> set [0..15]. (0xe0 + a) AND 0x80 = (0x80 :: int) \<and> (0xe0 + a) AND 0xe0 = 0xe0 \<and>
      (0xe0 + a) AND 0xf0 = 0xe0 \<and> (0xe0 + a) AND 0x1f = a \<and> (0xe0 + a) AND 0x0f = a"
    by code_simp
  ultimately show ?thesis by simp
qed

lemma lead_bits4: "0 \<le> a \<Longrightarrow> a < 8 \<Longrightarrow>
    (0xf0 + a) AND 0x80 = (0x80 :: int) \<and> (0xf0 + a) AND 0xe0 = 0xe0 \<and> (0xf0 + a) AND 0xf0 = 0xf0 \<and>
    (0xf0 + a) AND 0xf8 = 0xf0 \<and> (0xf0 + a) AND 0x07 = a"
proof -
  assume "0 \<le> a" "a < 8"
  moreover have "\<forall>a \<in> set [0..7]. (0xf0 + a) AND 0x80 = (0x80 :: int) \<and> (0xf0 + a) AND 0xe0 = 0xe0 \<and>
      (0xf0 + a) AND 0xf0 = 0xf0 \<and> (0xf0 + a) AND 0xf8 = 0xf0 \<and> (0xf0 + a) AND 0x07 = a"
    by code_simp
  ultimately show ?thesis by simp
qed

lemma cont_bits: "0 \<le> x \<Longrightarrow> x < 64 \<Longrightarrow> (0x80 + x) AND 0x3f = (x :: int)"
proof -
  assume "0 \<le> x" "x < 64"
  moreover have "\<forall>x \<in> set [0..63]. (0x80 + x) AND 0x3f = (x :: int)" by code_simp
  ultimately show ?thesis by simp
qed

lemma uint_add: "0 \<le> x \<Longrightarrow> k + x < 256 \<Longrightarrow> 0 \<le> k \<Longrightarrow> uint (byte (k + x)) = k + x"
  by simp

lemma join_bits: "0 \<le> y \<Longrightarrow> y < 2 ^ n \<Longrightarrow> push_bit n x OR y = x * 2 ^ n + (y :: int)"
  using or_shift [of y n x] by (simp add: push_bit_eq_mult or.commute add.commute)

lemma point_utf8DecodeJs:
  assumes "0 \<le> c" "c < 0x110000"
  shows "utf8DecodeJs (length (utf8_point c) + n) (map byte (utf8_point c) @ bs) = fromCodePoint c @ utf8DecodeJs n bs"
  using assms
proof (cases c rule: utf8_point_parts)
  case one
  have l: "length (utf8_point c) = 1" using arg_cong [OF one(2), of length] by simp
  have "c mod 256 = c" using assms one by simp
  then show ?thesis
    unfolding l one(2) using assms one
    by (subst utf8DecodeJs.simps) (simp add: after_Cons and_tops zdiv_eq_0_iff fromCodePoint_def)
next
  case (two a b)
  have l: "length (utf8_point c) = 2" using arg_cong [OF two(6), of length] by simp
  have u: "uint (byte (0xc0 + a)) = 0xc0 + a" "uint (byte (0x80 + b)) = 0x80 + b"
    using two by (intro uint_add; simp)+
  have j: "push_bit 6 a OR b = c" using join_bits [of b 6 a] two by simp
  show ?thesis
    unfolding l two(6) using two lead_bits2 [of a] cont_bits [of b]
    by (subst utf8DecodeJs.simps) (simp add: after_Cons u j fromCodePoint_def del: uint_byte)
next
  case (three a b d)
  have l: "length (utf8_point c) = 3" using arg_cong [OF three(8), of length] by simp
  have u: "uint (byte (0xe0 + a)) = 0xe0 + a" "uint (byte (0x80 + b)) = 0x80 + b" "uint (byte (0x80 + d)) = 0x80 + d"
    using three by (intro uint_add; simp)+
  have j: "push_bit 12 a OR push_bit 6 b OR d = c"
  proof -
    have "push_bit 12 a OR push_bit 6 b = push_bit 6 (push_bit 6 a OR b)" by (simp add: push_bit_or)
    then show ?thesis unfolding or.assoc [symmetric]
      using join_bits [of b 6 a] join_bits [of d 6 "a * 64 + b"] three by simp
  qed
  show ?thesis
    unfolding l three(8) using three lead_bits3 [of a] cont_bits [of b] cont_bits [of d]
    by (subst utf8DecodeJs.simps) (simp add: after_Cons u j fromCodePoint_def del: uint_byte)
next
  case (four a b d e)
  have l: "length (utf8_point c) = 4" using arg_cong [OF four(10), of length] by simp
  have u: "uint (byte (0xf0 + a)) = 0xf0 + a" "uint (byte (0x80 + b)) = 0x80 + b" "uint (byte (0x80 + d)) = 0x80 + d"
    "uint (byte (0x80 + e)) = 0x80 + e"
    using four by (intro uint_add; simp)+
  have j: "push_bit 18 a OR push_bit 12 b OR push_bit 6 d OR e = c"
  proof -
    have "(push_bit 18 a OR push_bit 12 b) OR push_bit 6 d = push_bit 6 (push_bit 6 (push_bit 6 a OR b) OR d)"
      by (simp add: push_bit_or)
    then show ?thesis unfolding or.assoc [symmetric]
      using join_bits [of b 6 a] join_bits [of d 6 "a * 64 + b"] join_bits [of e 6 "(a * 64 + b) * 64 + d"] four by simp
  qed
  define k where "k = c - 0x10000"
  have k: "0 \<le> k" "k < 0x100000" using assms four unfolding k_def by simp_all
  have "k div 1024 < 1024" "0 \<le> k div 1024" "0 \<le> k mod 1024" "k mod 1024 < 1024" using k by (auto simp: div_less_iff_less_mult)
  then have s: "(drop_bit 10 k AND 0x3ff) OR 0xd800 = 0xd800 + k div 1024" "0xdc00 OR (k AND 0x3ff) = 0xdc00 + k mod 1024"
    by (simp_all add: and_masks drop_bit_eq_div or_leads add.commute)
  show ?thesis
    unfolding l four(10) using four(1-8,11) lead_bits4 [of a] cont_bits [of b] cont_bits [of d] cont_bits [of e]
    by (subst utf8DecodeJs.simps) (simp add: after_Cons u j s k_def [symmetric] fromCodePoint_def del: uint_byte)
qed

lemma utf8DecodeJs_utf8: "utf8DecodeJs (length (utf8 s)) (map byte (utf8 s) @ bs) = s"
proof (induction s rule: length_induct)
  case (1 s)
  show ?case
  proof (cases s)
    case Nil
    then show ?thesis by (simp add: utf8_def)
  next
    case (Cons c s')
    show ?thesis
    proof (cases "lead_unit c \<and> s' \<noteq> [] \<and> trail_unit (hd s')")
      case True
      then obtain d t where s': "s' = d # t" and t: "trail_unit d" "lead_unit c" by (cases s') auto
      have "0 \<le> pair_point c d" "pair_point c d < 0x110000" using pair_bounds [OF t(2,1)] by simp_all
      then show ?thesis
        using 1 point_utf8DecodeJs [of "pair_point c d" "length (utf8 t)" "map byte (utf8 t) @ bs"] fromCodePoint_pair [OF t(2,1)]
        by (simp add: Cons s' utf8_Cons t)
    next
      case False
      then show ?thesis
        using 1 point_utf8DecodeJs [of "uint c" "length (utf8 s')" "map byte (utf8 s') @ bs"] uint16_bounds [of c]
        by (auto simp: Cons utf8_Cons fromCodePoint_plain)
    qed
  qed
qed

text \<open>\<open>TextDecoder\<close> on one code point of well-formed text.\<close>

lemma uint_heads: "uint (byte 0xe0) = 0xe0" "uint (byte 0xed) = 0xed" "uint (byte 0xf0) = 0xf0" "uint (byte 0xf4) = 0xf4"
  by simp_all

lemma point_tdLoop:
  assumes "valid_point c"
  shows "tdLoop 0 cp lo hi (map byte (utf8_point c) @ bs) = fromCodePoint c @ tdLoop 0 0 0x80 0xbf bs"
proof -
  have c: "0 \<le> c" "c < 0x110000" "c < 0xd800 \<or> 0xe000 \<le> c" using assms by (auto simp: valid_point_def)
  show ?thesis
    using c(1,2)
  proof (cases c rule: utf8_point_parts)
    case one
    then show ?thesis using c by (simp add: Let_def fromCodePoint_def)
  next
    case (two a b)
    have u: "uint (byte (0xc0 + a)) = 0xc0 + a" "uint (byte (0x80 + b)) = 0x80 + b"
      using two by (intro uint_add; simp)+
    have j: "push_bit 6 a OR b = c" using join_bits [of b 6 a] two by simp
    show ?thesis
      unfolding two(6) using two lead_bits2 [of a] cont_bits [of b]
      by (simp add: Let_def u j del: uint_byte)
  next
    case (three a b d)
    have u: "uint (byte (0xe0 + a)) = 0xe0 + a" "uint (byte (0x80 + b)) = 0x80 + b" "uint (byte (0x80 + d)) = 0x80 + d"
      using three by (intro uint_add; simp)+
    have j: "push_bit 6 (push_bit 6 a OR b) OR d = c"
      using join_bits [of b 6 a] join_bits [of d 6 "a * 64 + b"] three by simp
    have lo: "a = 0 \<longrightarrow> 32 \<le> b" "a = 13 \<longrightarrow> b < 32" using three c(3) by auto
    show ?thesis
      unfolding three(8) using three(1-6) lo lead_bits3 [of a] cont_bits [of b] cont_bits [of d] j
      by (cases "a = 0"; cases "a = 13") (simp_all add: Let_def u uint_heads numeral_2_eq_2 del: uint_byte)
  next
    case (four a b d e)
    have u: "uint (byte (0xf0 + a)) = 0xf0 + a" "uint (byte (0x80 + b)) = 0x80 + b" "uint (byte (0x80 + d)) = 0x80 + d"
      "uint (byte (0x80 + e)) = 0x80 + e"
      using four by (intro uint_add; simp)+
    have j: "push_bit 6 (push_bit 6 (push_bit 6 a OR b) OR d) OR e = c"
      using join_bits [of b 6 a] join_bits [of d 6 "a * 64 + b"] join_bits [of e 6 "(a * 64 + b) * 64 + d"] four by simp
    have lo: "a = 0 \<longrightarrow> 16 \<le> b" "a = 4 \<longrightarrow> b < 16" using four c(2) by auto
    show ?thesis
      unfolding four(10) using four(1-8) lo lead_bits4 [of a] cont_bits [of b] cont_bits [of d] cont_bits [of e] j
      by (cases "a = 0"; cases "a = 4") (simp_all add: Let_def u uint_heads numeral_3_eq_3 del: uint_byte)
  qed
qed

lemma tdLoop_utf8: "well_formed s \<Longrightarrow> tdLoop 0 cp lo hi (map byte (utf8 s)) = s"
proof (induction s arbitrary: cp lo hi rule: wf_induct)
  case (plain u s)
  have "valid_point (uint u)" using plain_bounds [OF plain(1)] by (auto simp: valid_point_def)
  then show ?case
    using plain point_tdLoop [of "uint u" cp lo hi "map byte (utf8 s)"] by (simp add: utf8_def fromCodePoint_plain)
next
  case (pair u d s)
  have "valid_point (pair_point u d)" using pair_bounds [OF pair(1,2)] by (auto simp: valid_point_def)
  then show ?case
    using pair point_tdLoop [of "pair_point u d" cp lo hi "map byte (utf8 s)"]
    by (simp add: utf8_def fromCodePoint_pair)
qed (simp add: utf8_def)

lemma bom_point: "map byte (utf8_point 0xfeff) = [0xef, 0xbb, 0xbf]"
  by (simp add: utf8_point_def byte_def)

lemma tdLoop_bom: "tdLoop 0 cp lo hi (0xef # 0xbb # 0xbf # bs) = 0xfeff # tdLoop 0 0 0x80 0xbf bs"
  using point_tdLoop [of "0xfeff" cp lo hi bs] bom_point by (simp add: valid_point_def fromCodePoint_def)

lemma take3: "take 3 bs = [a, b, c] \<Longrightarrow> bs = a # b # c # drop 3 bs"
  by (metis append_Cons append_Nil append_take_drop_id)

lemma utf8DecodeTD_utf8:
  assumes "well_formed s"
  shows "utf8DecodeTD (map byte (utf8 s)) = (if s \<noteq> [] \<and> hd s = 0xfeff then tl s else s)"
proof (cases "s \<noteq> [] \<and> hd s = 0xfeff")
  case True
  then obtain t where t: "s = 0xfeff # t" by (cases s) auto
  have p: "plain_unit 0xfeff" by (simp add: plain_unit_def lead_unit_def trail_unit_def)
  have "well_formed t" using assms p by (simp add: t)
  moreover have "map byte (utf8 s) = [0xef, 0xbb, 0xbf] @ map byte (utf8 t)"
    using bom_point p by (simp add: t utf8_def)
  ultimately show ?thesis using True tdLoop_utf8 by (simp add: utf8DecodeTD_def t)
next
  case False
  have "take 3 (map byte (utf8 s)) \<noteq> [0xef, 0xbb, 0xbf]"
  proof
    assume "take 3 (map byte (utf8 s)) = [0xef, 0xbb, 0xbf]"
    from take3 [OF this] have "tdLoop 0 0 0 0 (map byte (utf8 s)) = 0xfeff # tdLoop 0 0 0x80 0xbf (drop 3 (map byte (utf8 s)))"
      using tdLoop_bom by metis
    then show False using tdLoop_utf8 [OF assms, of 0 0 0] False by (metis list.sel(1) list.discI)
  qed
  then show ?thesis using False tdLoop_utf8 [OF assms] by (simp only: utf8DecodeTD_def if_False)
qed

text \<open>A well-formed string read back; past 200 bytes \<open>TextDecoder\<close> drops a byte order mark.\<close>

definition keepsText :: "jsstr \<Rightarrow> bool" where
  "keepsText s = (well_formed s \<and> \<not> (utf8Count s > 200 \<and> hd s = 0xfeff))"

lemma utf8Decode_utf8Encode:
  assumes "well_formed s" "drop pos buf = utf8Encode s @ rest"
  shows "utf8Decode buf pos (utf8Count s) = (if utf8Count s > 200 \<and> hd s = 0xfeff then tl s else s)"
proof -
  have e: "utf8Encode s = map byte (utf8 s)" by (rule utf8Encode_wf [OF assms(1)])
  have n: "utf8Count s = length (utf8 s)" by (simp add: utf8Encode_length [symmetric] e)
  have "s \<noteq> []" if "utf8Count s > 200" using that by auto
  then show ?thesis
    using utf8DecodeJs_utf8 [of s rest] utf8DecodeTD_utf8 [OF assms(1)] assms(2)
    by (auto simp: utf8Decode_def e n)
qed

lemma utf8_round: "keepsText s \<Longrightarrow> drop pos buf = utf8Encode s @ rest \<Longrightarrow> utf8Decode buf pos (utf8Count s) = s"
  using utf8Decode_utf8Encode by (auto simp: keepsText_def)

end
