(* ===== verification/Msgpack.thy ===== *)
theory Msgpack
  imports Names WireText
begin

text \<open>
  The msgpack cursor and writer (client/ts/src/msgpack.ts). A \<open>Reader\<close> walks a buffer between a
  position and an end, each read checking that its bytes are there; \<open>measure\<close> finds where a value ends
  without decoding it; a \<open>Writer\<close> writes into a buffer that doubles when it is full. A number is a
  safe integer or the bits of its double; the typed read of an integer is exact past 2^53, where
  JavaScript rounds it.
\<close>

section \<open>Errors and kinds\<close>

datatype kind = NilK | BoolK | IntK | FloatK | StrK | BinK | ArrayK | MapK | ExtK

datatype msg_error =
  Truncated
  | InvalidByte int nat
  | Expected kind int
  | NotTimestamp int
  | TimestampSize nat
  | BadTimestamp
  | TooDeep
  | KeyNotString
  | BinValue
  | TrailingBytes
  | NoForm

definition MAX_DEPTH :: nat where "MAX_DEPTH = 512"

definition kindOf :: "int \<Rightarrow> kind option" where
  "kindOf b =
     (if b \<le> 0x7f \<or> b \<ge> 0xe0 then Some IntK
      else if b \<le> 0x8f then Some MapK
      else if b \<le> 0x9f then Some ArrayK
      else if b \<le> 0xbf then Some StrK
      else if b = 0xc0 then Some NilK
      else if b \<in> {0xc2, 0xc3} then Some BoolK
      else if b \<in> {0xc4, 0xc5, 0xc6} then Some BinK
      else if b \<in> {0xc7, 0xc8, 0xc9, 0xd4, 0xd5, 0xd6, 0xd7, 0xd8} then Some ExtK
      else if b \<in> {0xca, 0xcb} then Some FloatK
      else if b \<in> {0xcc, 0xcd, 0xce, 0xcf, 0xd0, 0xd1, 0xd2, 0xd3} then Some IntK
      else if b \<in> {0xd9, 0xda, 0xdb} then Some StrK
      else if b \<in> {0xdc, 0xdd} then Some ArrayK
      else if b \<in> {0xde, 0xdf} then Some MapK
      else None)"

section \<open>Measuring a value\<close>

text \<open>What a header byte says: the header's size, the payload, the children, and the length field.\<close>

datatype len_kind = LenBytes | LenArray | LenMap

record shape =
  sh_header :: nat
  sh_payload :: nat
  sh_children :: nat
  sh_lenBytes :: nat
  sh_kind :: len_kind

definition shape0 :: shape where
  "shape0 = \<lparr>sh_header = 1, sh_payload = 0, sh_children = 0, sh_lenBytes = 0, sh_kind = LenBytes\<rparr>"

definition shapeOf :: "int \<Rightarrow> shape option" where
  "shapeOf b =
     (if b \<le> 0x7f \<or> b \<ge> 0xe0 then Some shape0
      else if b \<le> 0x8f then Some (shape0\<lparr>sh_children := nat (b AND 0x0f) * 2\<rparr>)
      else if b \<le> 0x9f then Some (shape0\<lparr>sh_children := nat (b AND 0x0f)\<rparr>)
      else if b \<le> 0xbf then Some (shape0\<lparr>sh_payload := nat (b AND 0x1f)\<rparr>)
      else if b \<in> {0xc0, 0xc2, 0xc3} then Some shape0
      else if b \<in> {0xc4, 0xd9} then Some (shape0\<lparr>sh_lenBytes := 1\<rparr>)
      else if b \<in> {0xc5, 0xda} then Some (shape0\<lparr>sh_lenBytes := 2\<rparr>)
      else if b \<in> {0xc6, 0xdb} then Some (shape0\<lparr>sh_lenBytes := 4\<rparr>)
      else if b = 0xc7 then Some (shape0\<lparr>sh_lenBytes := 1, sh_header := 3\<rparr>)
      else if b = 0xc8 then Some (shape0\<lparr>sh_lenBytes := 2, sh_header := 4\<rparr>)
      else if b = 0xc9 then Some (shape0\<lparr>sh_lenBytes := 4, sh_header := 6\<rparr>)
      else if b = 0xca then Some (shape0\<lparr>sh_payload := 4\<rparr>)
      else if b = 0xcb then Some (shape0\<lparr>sh_payload := 8\<rparr>)
      else if b \<in> {0xcc, 0xd0} then Some (shape0\<lparr>sh_payload := 1\<rparr>)
      else if b \<in> {0xcd, 0xd1} then Some (shape0\<lparr>sh_payload := 2\<rparr>)
      else if b \<in> {0xce, 0xd2} then Some (shape0\<lparr>sh_payload := 4\<rparr>)
      else if b \<in> {0xcf, 0xd3} then Some (shape0\<lparr>sh_payload := 8\<rparr>)
      else if b = 0xd4 then Some (shape0\<lparr>sh_payload := 2\<rparr>)
      else if b = 0xd5 then Some (shape0\<lparr>sh_payload := 3\<rparr>)
      else if b = 0xd6 then Some (shape0\<lparr>sh_payload := 5\<rparr>)
      else if b = 0xd7 then Some (shape0\<lparr>sh_payload := 9\<rparr>)
      else if b = 0xd8 then Some (shape0\<lparr>sh_payload := 17\<rparr>)
      else if b = 0xdc then Some (shape0\<lparr>sh_lenBytes := 2, sh_kind := LenArray\<rparr>)
      else if b = 0xdd then Some (shape0\<lparr>sh_lenBytes := 4, sh_kind := LenArray\<rparr>)
      else if b = 0xde then Some (shape0\<lparr>sh_lenBytes := 2, sh_kind := LenMap\<rparr>)
      else if b = 0xdf then Some (shape0\<lparr>sh_lenBytes := 4, sh_kind := LenMap\<rparr>)
      else None)"

text \<open>The size of a value's header and payload, and its children, once its length field is read.\<close>

definition extentOf :: "shape \<Rightarrow> nat \<Rightarrow> nat \<times> nat" where
  "extentOf sh n =
     (if sh_lenBytes sh = 0 then (sh_header sh + sh_payload sh, sh_children sh)
      else
        let header = (if sh_header sh = 1 then 1 + sh_lenBytes sh else sh_header sh) in
        (case sh_kind sh of
           LenArray \<Rightarrow> (header + sh_payload sh, n)
         | LenMap \<Rightarrow> (header + sh_payload sh, n * 2)
         | LenBytes \<Rightarrow> (header + n, sh_children sh)))"

lemma shape_header: "shapeOf b = Some sh \<Longrightarrow> 0 < sh_header sh"
  by (auto simp: shapeOf_def shape0_def split: if_splits)

lemma extentOf_pos: "0 < sh_header sh \<Longrightarrow> 0 < fst (extentOf sh n)"
  by (auto simp: extentOf_def Let_def split: len_kind.splits)

text \<open>\<open>None\<close> is the -1 of a buffer that ends before the value does.\<close>

function measureLoop :: "bytes \<Rightarrow> nat \<Rightarrow> nat \<Rightarrow> nat \<Rightarrow> msg_error + nat option" where
  "measureLoop buf end' pos pending =
     (if pending = 0 then Inr (Some pos)
      else if pos \<ge> end' then Inr None
      else
        (case shapeOf (uint (buf ! pos)) of
           None \<Rightarrow> Inl (InvalidByte (uint (buf ! pos)) pos)
         | Some sh \<Rightarrow>
             if sh_lenBytes sh > 0 \<and> pos + 1 + sh_lenBytes sh > end' then Inr None
             else
               let (size, children) = extentOf sh (nat (be buf (pos + 1) (sh_lenBytes sh))) in
               if pos + size > end' then Inr None
               else measureLoop buf end' (pos + size) (pending + children - 1)))"
  by pat_completeness auto
termination
proof (relation "measure (\<lambda>(_, end', pos, _). end' - pos)")
  fix buf :: bytes and end' pos pending x2 x xa y
  assume "\<not> end' \<le> pos" "shapeOf (uint (buf ! pos)) = Some x2"
    "x = extentOf x2 (nat (be buf (pos + 1) (sh_lenBytes x2)))" "(xa, y) = x" "\<not> end' < pos + xa"
  moreover have "0 < xa" using calculation extentOf_pos shape_header by (metis fst_conv)
  ultimately show "((buf, end', pos + xa, pending + y - 1), buf, end', pos, pending) \<in>
      measure (\<lambda>(_, end', pos, _). end' - pos)" by simp
qed simp

definition measure_value :: "bytes \<Rightarrow> nat \<Rightarrow> nat \<Rightarrow> msg_error + nat option" where
  "measure_value buf pos end' = measureLoop buf end' pos 1"

section \<open>Values\<close>

text \<open>
  A number: a safe integer, or any other double as its bits. \<open>safeOf\<close> is the safe integer that bits
  denote, \<open>roundInt\<close> the double nearest an integer, ties to even, and \<open>widen\<close> the double a 4-byte
  float is.
\<close>

datatype jnum = IntN int | F64 "64 word"

definition minus_zero :: "64 word" where "minus_zero = 0x8000000000000000"

definition safeOf :: "64 word \<Rightarrow> int option" where
  "safeOf b =
     (let n = uint b; sign = (if n \<ge> 2 ^ 63 then -1 else 1); e = n div 2 ^ 52 mod 2048; m = n mod 2 ^ 52 in
      if e = 0 then (if m = 0 then Some 0 else None)
      else if e < 1023 \<or> e > 1075 then None
      else
        let unit = 2 ^ nat (1075 - e) in
        if (2 ^ 52 + m) mod unit = 0 then Some (sign * ((2 ^ 52 + m) div unit)) else None)"

definition ofBits :: "64 word \<Rightarrow> jnum" where
  "ofBits b = (if b = minus_zero then F64 b else case safeOf b of None \<Rightarrow> F64 b | Some i \<Rightarrow> IntN i)"

definition roundInt :: "int \<Rightarrow> 64 word" where
  "roundInt i =
     (let n = \<bar>i\<bar>; sh = floorlog 2 (nat n) - 53; q = n div 2 ^ sh; r = n mod 2 ^ sh;
          q' = (if 2 * r > 2 ^ sh \<or> (2 * r = 2 ^ sh \<and> odd q) then q + 1 else q)
      in word_of_int ((if i < 0 then 2 ^ 63 else 0) + (int sh + 1075) * 2 ^ 52 + (q' - 2 ^ 52)))"

definition ofInt :: "int \<Rightarrow> jnum" where
  "ofInt i = (if \<bar>i\<bar> < 2 ^ 53 then IntN i else F64 (roundInt i))"

definition widen :: "32 word \<Rightarrow> 64 word" where
  "widen b =
     (let n = uint b; s = n div 2 ^ 31; e = n div 2 ^ 23 mod 256; m = n mod 2 ^ 23 in
      word_of_int (s * 2 ^ 63 +
        (if e = 0 then
           if m = 0 then 0
           else let k = floorlog 2 (nat m) - 1 in (int k + 874) * 2 ^ 52 + (m - 2 ^ k) * 2 ^ (52 - k)
         else if e = 255 then 2047 * 2 ^ 52 + m * 2 ^ 29
         else (e + 896) * 2 ^ 52 + m * 2 ^ 29)))"

text \<open>
  \<open>UndefV\<close> is \<open>undefined\<close>, \<open>NoFormV\<close> a value with no msgpack form: a byte array, a Map, a function. A
  Date is its milliseconds, \<open>None\<close> when it is invalid; an object its properties, in their order.
\<close>

datatype jval =
  NullV
  | UndefV
  | BoolV bool
  | NumV jnum
  | StrV jsstr
  | DateV "int option"
  | ArrV "jval list"
  | ObjV "(jsstr \<times> jval) list"
  | NoFormV

text \<open>\<open>new Date(ms)\<close>.\<close>

definition mkDate :: "int \<Rightarrow> int option" where
  "mkDate ms = (if \<bar>ms\<bar> \<le> 8640000000000000 then Some ms else None)"

text \<open>The index a property's name is, if it is one: those come first, in their order.\<close>

definition arrayIndex :: "jsstr \<Rightarrow> nat option" where
  "arrayIndex k =
     (if k \<noteq> [] \<and> list_all digit_unit k \<and> decimal (readDigits k) = k \<and> readDigits k < 2 ^ 32 - 1
      then Some (readDigits k) else None)"

definition indexBelow :: "nat \<Rightarrow> jsstr \<Rightarrow> bool" where
  "indexBelow i k = (case arrayIndex k of None \<Rightarrow> False | Some j \<Rightarrow> j < i)"

definition setEntry :: "(jsstr \<times> jval) list \<Rightarrow> jsstr \<Rightarrow> jval \<Rightarrow> (jsstr \<times> jval) list" where
  "setEntry out key value =
     (if key \<in> fst ` set out then AList.update key value out
      else
        (case arrayIndex key of
           None \<Rightarrow> out @ [(key, value)]
         | Some i \<Rightarrow> takeWhile (indexBelow i \<circ> fst) out @ (key, value) # dropWhile (indexBelow i \<circ> fst) out))"

section \<open>The reader\<close>

record reader =
  rd_buf :: bytes
  rd_pos :: nat
  rd_end :: nat
  rd_key :: "nat \<times> nat"

definition newReader :: "bytes \<Rightarrow> reader" where
  "newReader buf = \<lparr>rd_buf = buf, rd_pos = 0, rd_end = length buf, rd_key = (0, 0)\<rparr>"

definition done_reader :: "reader \<Rightarrow> bool" where "done_reader r = (rd_pos r \<ge> rd_end r)"

definition need :: "nat \<Rightarrow> reader \<Rightarrow> msg_error + unit" where
  "need n r = (if rd_pos r + n > rd_end r then Inl Truncated else Inr ())"

definition here :: "reader \<Rightarrow> int" where "here r = uint (rd_buf r ! rd_pos r)"

definition advanceBy :: "nat \<Rightarrow> reader \<Rightarrow> reader" where "advanceBy n r = r\<lparr>rd_pos := rd_pos r + n\<rparr>"

definition kindAt :: "reader \<Rightarrow> msg_error + kind" where
  "kindAt r = andThen (need 1 r) (\<lambda>_.
     case kindOf (here r) of None \<Rightarrow> Inl (InvalidByte (here r) (rd_pos r)) | Some k \<Rightarrow> Inr k)"

text \<open>\<open>#length\<close>: a count of n bytes after the header byte, consuming both.\<close>

definition lengthAt :: "nat \<Rightarrow> reader \<Rightarrow> msg_error + (nat \<times> reader)" where
  "lengthAt n r = andThen (need (1 + n) r) (\<lambda>_. Inr (nat (be (rd_buf r) (rd_pos r + 1) n), advanceBy (1 + n) r))"

text \<open>\<open>tryMapHeader\<close>, \<open>tryArrayHeader\<close> and \<open>#tryStrHeader\<close>: \<open>None\<close>, consuming nothing, for another value.\<close>

definition tryMapHeader :: "reader \<Rightarrow> msg_error + (nat option \<times> reader)" where
  "tryMapHeader r = andThen (need 1 r) (\<lambda>_.
     let b = here r in
     if b \<ge> 0x80 \<and> b \<le> 0x8f then Inr (Some (nat (b AND 0x0f)), advanceBy 1 r)
     else if b = 0xde then map_sum id (map_prod Some id) (lengthAt 2 r)
     else if b = 0xdf then map_sum id (map_prod Some id) (lengthAt 4 r)
     else Inr (None, r))"

definition tryArrayHeader :: "reader \<Rightarrow> msg_error + (nat option \<times> reader)" where
  "tryArrayHeader r = andThen (need 1 r) (\<lambda>_.
     let b = here r in
     if b \<ge> 0x90 \<and> b \<le> 0x9f then Inr (Some (nat (b AND 0x0f)), advanceBy 1 r)
     else if b = 0xdc then map_sum id (map_prod Some id) (lengthAt 2 r)
     else if b = 0xdd then map_sum id (map_prod Some id) (lengthAt 4 r)
     else Inr (None, r))"

definition tryStrHeader :: "reader \<Rightarrow> msg_error + (nat option \<times> reader)" where
  "tryStrHeader r = andThen (need 1 r) (\<lambda>_.
     let b = here r in
     if b \<ge> 0xa0 \<and> b \<le> 0xbf then Inr (Some (nat (b AND 0x1f)), advanceBy 1 r)
     else if b = 0xd9 then map_sum id (map_prod Some id) (lengthAt 1 r)
     else if b = 0xda then map_sum id (map_prod Some id) (lengthAt 2 r)
     else if b = 0xdb then map_sum id (map_prod Some id) (lengthAt 4 r)
     else Inr (None, r))"

text \<open>\<open>arrayHeader\<close>, \<open>mapHeader\<close> and \<open>#strHeader\<close> throw for another value.\<close>

definition expecting :: "kind \<Rightarrow> (reader \<Rightarrow> msg_error + ('a option \<times> reader)) \<Rightarrow> reader \<Rightarrow> msg_error + ('a \<times> reader)" where
  "expecting k read r = andThen (read r) (\<lambda>(v, r').
     case v of None \<Rightarrow> Inl (Expected k (here r)) | Some x \<Rightarrow> Inr (x, r'))"

definition arrayHeader :: "reader \<Rightarrow> msg_error + (nat \<times> reader)" where
  "arrayHeader = expecting ArrayK tryArrayHeader"

definition mapHeader :: "reader \<Rightarrow> msg_error + (nat \<times> reader)" where
  "mapHeader = expecting MapK tryMapHeader"

definition strHeader :: "reader \<Rightarrow> msg_error + (nat \<times> reader)" where
  "strHeader = expecting StrK tryStrHeader"

definition textAt :: "nat \<Rightarrow> reader \<Rightarrow> msg_error + (jsstr \<times> reader)" where
  "textAt n r = andThen (need n r) (\<lambda>_. Inr (utf8Decode (rd_buf r) (rd_pos r) n, advanceBy n r))"

definition tryStr :: "reader \<Rightarrow> msg_error + (jsstr option \<times> reader)" where
  "tryStr r = andThen (tryStrHeader r) (\<lambda>(n, r1).
     case n of None \<Rightarrow> Inr (None, r1) | Some n \<Rightarrow> map_sum id (map_prod Some id) (textAt n r1))"

definition str :: "reader \<Rightarrow> msg_error + (jsstr \<times> reader)" where
  "str r = andThen (strHeader r) (\<lambda>(n, r1). textAt n r1)"

definition tryBool :: "reader \<Rightarrow> msg_error + (bool option \<times> reader)" where
  "tryBool r = andThen (need 1 r) (\<lambda>_.
     let b = here r in
     if b \<noteq> 0xc2 \<and> b \<noteq> 0xc3 then Inr (None, r) else Inr (Some (b = 0xc3), advanceBy 1 r))"

definition bool :: "reader \<Rightarrow> msg_error + (bool \<times> reader)" where
  "bool = expecting BoolK tryBool"

definition tryNil :: "reader \<Rightarrow> msg_error + (bool \<times> reader)" where
  "tryNil r = andThen (need 1 r) (\<lambda>_. if here r \<noteq> 0xc0 then Inr (False, r) else Inr (True, advanceBy 1 r))"

definition nil :: "reader \<Rightarrow> msg_error + reader" where
  "nil r = andThen (need 1 r) (\<lambda>_. if here r \<noteq> 0xc0 then Inl (Expected NilK (here r)) else Inr (advanceBy 1 r))"

definition bin :: "reader \<Rightarrow> msg_error + (bytes \<times> reader)" where
  "bin r = andThen (need 1 r) (\<lambda>_.
     let b = here r in
     andThen (if b = 0xc4 then lengthAt 1 r else if b = 0xc5 then lengthAt 2 r else if b = 0xc6 then lengthAt 4 r
              else Inl (Expected BinK b)) (\<lambda>(n, r1).
       andThen (need n r1) (\<lambda>_. Inr (take n (drop (rd_pos r1) (rd_buf r1)), advanceBy n r1))))"

text \<open>An integer of \<open>width\<close> bytes after the header byte.\<close>

definition intAt :: "nat \<Rightarrow> (bytes \<Rightarrow> nat \<Rightarrow> int) \<Rightarrow> reader \<Rightarrow> msg_error + (int \<times> reader)" where
  "intAt width get r = andThen (need (1 + width) r) (\<lambda>_. Inr (get (rd_buf r) (rd_pos r + 1), advanceBy (1 + width) r))"

definition int_value :: "reader \<Rightarrow> msg_error + (int \<times> reader)" where
  "int_value r = andThen (need 1 r) (\<lambda>_.
     let b = here r; u = (\<lambda>n buf p. be buf p n); s = (\<lambda>n buf p. signed_of n (be buf p n)) in
     if b \<le> 0x7f then Inr (b, advanceBy 1 r)
     else if b \<ge> 0xe0 then Inr (b - 256, advanceBy 1 r)
     else if b = 0xcc then intAt 1 (u 1) r
     else if b = 0xcd then intAt 2 (u 2) r
     else if b = 0xce then intAt 4 (u 4) r
     else if b = 0xcf then intAt 8 getUint64 r
     else if b = 0xd0 then intAt 1 (s 1) r
     else if b = 0xd1 then intAt 2 (s 2) r
     else if b = 0xd2 then intAt 4 (s 4) r
     else if b = 0xd3 then intAt 8 getInt64 r
     else Inl (Expected IntK b))"

definition float :: "reader \<Rightarrow> msg_error + (jnum \<times> reader)" where
  "float r = andThen (need 1 r) (\<lambda>_.
     let b = here r in
     if b = 0xca
     then andThen (need 5 r) (\<lambda>_. Inr (ofBits (widen (word_of_int (be (rd_buf r) (rd_pos r + 1) 4))), advanceBy 5 r))
     else if b = 0xcb
     then andThen (need 9 r) (\<lambda>_. Inr (ofBits (word_of_int (be (rd_buf r) (rd_pos r + 1) 8)), advanceBy 9 r))
     else Inl (Expected FloatK b))"

text \<open>\<open>None\<close> is the NaN of another value.\<close>

definition tryNumber :: "reader \<Rightarrow> msg_error + (jnum option \<times> reader)" where
  "tryNumber r = andThen (need 1 r) (\<lambda>_.
     let b = here r in
     if b \<le> 0x7f then Inr (Some (IntN b), advanceBy 1 r)
     else if b \<ge> 0xe0 then Inr (Some (IntN (b - 256)), advanceBy 1 r)
     else if b \<ge> 0xcc \<and> b \<le> 0xd3 then map_sum id (map_prod (Some \<circ> ofInt) id) (int_value r)
     else if b = 0xca \<or> b = 0xcb then map_sum id (map_prod Some id) (float r)
     else Inr (None, r))"

definition timestamp :: "reader \<Rightarrow> msg_error + (int option \<times> reader)" where
  "timestamp r = andThen (need 1 r) (\<lambda>_.
     let b = here r; buf = rd_buf r in
     andThen (if b = 0xd6 then Inr (1, 4)
              else if b = 0xd7 then Inr (1, 8)
              else if b = 0xc7 then andThen (need 2 r) (\<lambda>_. Inr (2, nat (uint (buf ! (rd_pos r + 1)))))
              else Inl (Expected ExtK b)) (\<lambda>(header, size).
     andThen (need (header + 1 + size) r) (\<lambda>_.
       let type = signed_of 1 (uint (buf ! (rd_pos r + header))); p = rd_pos r + header + 1 in
       if type \<noteq> -1 then Inl (NotTimestamp type)
       else
         andThen (if size = 4 then Inr (be buf p 4, 0)
                  else if size = 8
                  then let hi = be buf p 4 in Inr ((hi AND 0x3) * 0x100000000 + be buf (p + 4) 4, drop_bit 2 hi)
                  else if size = 12 then Inr (getInt64 buf (p + 4), be buf p 4)
                  else Inl (TimestampSize size)) (\<lambda>(sec, nsec).
           if nsec > 999999999 then Inl BadTimestamp
           else Inr (mkDate (sec * 1000 + nsec div 1000000), r\<lparr>rd_pos := p + size\<rparr>)))))"

definition tryTimestamp :: "reader \<Rightarrow> msg_error + (int option option \<times> reader)" where
  "tryTimestamp r = andThen (need 1 r) (\<lambda>_.
     if here r \<noteq> 0xd6 \<and> here r \<noteq> 0xd7 \<and> here r \<noteq> 0xc7 then Inr (None, r)
     else map_sum id (map_prod Some id) (timestamp r))"

text \<open>\<open>keyIndex\<close>: -1 for no key, -2, consuming nothing, for a value that is not a string.\<close>

definition keySearch :: "bytes list \<Rightarrow> nat \<Rightarrow> bytes \<Rightarrow> int" where
  "keySearch keys hint text =
     (let count = length keys;
          order = map (\<lambda>j. if hint + j < count then hint + j else hint + j - count) [0..<count]
      in case find (\<lambda>i. keys ! i = text) order of None \<Rightarrow> -1 | Some i \<Rightarrow> int i)"

definition keyIndex :: "bytes list \<Rightarrow> nat \<Rightarrow> reader \<Rightarrow> msg_error + (int \<times> reader)" where
  "keyIndex keys hint r = andThen (tryStrHeader r) (\<lambda>(n, r1).
     case n of
       None \<Rightarrow> Inr (-2, r1)
     | Some n \<Rightarrow> andThen (need n r1) (\<lambda>_.
         Inr (keySearch keys hint (take n (drop (rd_pos r1) (rd_buf r1))),
              (advanceBy n r1)\<lparr>rd_key := (rd_pos r1, n)\<rparr>)))"

definition lastKey_text :: "reader \<Rightarrow> jsstr" where
  "lastKey_text r = utf8Decode (rd_buf r) (fst (rd_key r)) (snd (rd_key r))"

definition skip :: "reader \<Rightarrow> msg_error + reader" where
  "skip r = andThen (measure_value (rd_buf r) (rd_pos r) (rd_end r)) (\<lambda>e.
     case e of None \<Rightarrow> Inl Truncated | Some p \<Rightarrow> Inr (r\<lparr>rd_pos := p\<rparr>))"

text \<open>\<open>view\<close> and \<open>raw\<close>: the next value's bytes, undecoded, shared or copied.\<close>

definition view :: "reader \<Rightarrow> msg_error + (bytes \<times> reader)" where
  "view r = andThen (skip r) (\<lambda>r'. Inr (take (rd_pos r' - rd_pos r) (drop (rd_pos r) (rd_buf r)), r'))"

text \<open>\<open>any\<close>: a value with no schema, to a depth.\<close>

function (sequential)
  readAny :: "nat \<Rightarrow> reader \<Rightarrow> msg_error + (jval \<times> reader)" and
  readItems :: "nat \<Rightarrow> nat \<Rightarrow> reader \<Rightarrow> msg_error + (jval list \<times> reader)" and
  readEntries :: "nat \<Rightarrow> nat \<Rightarrow> (jsstr \<times> jval) list \<Rightarrow> reader \<Rightarrow> msg_error + ((jsstr \<times> jval) list \<times> reader)"
where
  "readAny depth r =
     (if depth > MAX_DEPTH then Inl TooDeep
      else
        andThen (kindAt r) (\<lambda>k.
        case k of
          NilK \<Rightarrow> andThen (nil r) (\<lambda>r1. Inr (NullV, r1))
        | BoolK \<Rightarrow> map_sum id (map_prod BoolV id) (bool r)
        | IntK \<Rightarrow> map_sum id (map_prod (NumV \<circ> ofInt) id) (int_value r)
        | FloatK \<Rightarrow> map_sum id (map_prod NumV id) (float r)
        | StrK \<Rightarrow> map_sum id (map_prod StrV id) (str r)
        | ExtK \<Rightarrow> map_sum id (map_prod DateV id) (timestamp r)
        | ArrayK \<Rightarrow> andThen (arrayHeader r) (\<lambda>(n, r1). map_sum id (map_prod ArrV id) (readItems (depth + 1) n r1))
        | MapK \<Rightarrow> andThen (mapHeader r) (\<lambda>(n, r1). map_sum id (map_prod ObjV id) (readEntries (depth + 1) n [] r1))
        | BinK \<Rightarrow> Inl BinValue))"
| "readItems depth 0 r = Inr ([], r)"
| "readItems depth (Suc n) r =
     andThen (readAny depth r) (\<lambda>(x, r1). andThen (readItems depth n r1) (\<lambda>(xs, r2). Inr (x # xs, r2)))"
| "readEntries depth 0 out r = Inr (out, r)"
| "readEntries depth (Suc n) out r =
     andThen (tryStr r) (\<lambda>(key, r1).
       case key of
         None \<Rightarrow> Inl KeyNotString
       | Some k \<Rightarrow> andThen (readAny depth r1) (\<lambda>(x, r2). readEntries depth n (setEntry out k x) r2))"
  by pat_completeness auto
termination
  by (relation "measures [\<lambda>x. case x of Inl (d, _) \<Rightarrow> Suc MAX_DEPTH - d | Inr (Inl (d, _)) \<Rightarrow> Suc MAX_DEPTH - d
        | Inr (Inr (d, _)) \<Rightarrow> Suc MAX_DEPTH - d,
      \<lambda>x. case x of Inl _ \<Rightarrow> 0 | Inr (Inl (_, n, _)) \<Rightarrow> n | Inr (Inr (_, n, _)) \<Rightarrow> n]") auto

definition decodeAny :: "bytes \<Rightarrow> msg_error + jval" where
  "decodeAny bs = andThen (readAny 0 (newReader bs)) (\<lambda>(v, r). if \<not> done_reader r then Inl TrailingBytes else Inr v)"

section \<open>The writer\<close>

record writer =
  wr_buf :: bytes
  wr_pos :: nat

definition newWriter :: writer where
  "newWriter = \<lparr>wr_buf = replicate 1024 0, wr_pos = 0\<rparr>"

text \<open>The size doubles until the bytes fit; a buffer is never empty.\<close>

function growSize :: "nat \<Rightarrow> nat \<Rightarrow> nat" where
  "growSize cap n = (if 0 < cap \<and> cap < n then growSize (cap * 2) n else cap)"
  by pat_completeness auto
termination by (relation "measure (\<lambda>(cap, n). n - cap)") auto

declare growSize.simps [simp del]

definition ensure :: "nat \<Rightarrow> writer \<Rightarrow> writer" where
  "ensure n w =
     (if wr_pos w + n \<le> length (wr_buf w) then w
      else
        let cap = growSize (length (wr_buf w) * 2) (wr_pos w + n) in
        w\<lparr>wr_buf := take (wr_pos w) (wr_buf w) @ replicate (cap - wr_pos w) 0\<rparr>)"

text \<open>\<open>buf[pos++] = b\<close>, and a \<open>DataView\<close> write of several bytes with the step past them.\<close>

definition put1 :: "8 word \<Rightarrow> writer \<Rightarrow> writer" where
  "put1 b w = w\<lparr>wr_buf := (wr_buf w)[wr_pos w := b], wr_pos := wr_pos w + 1\<rparr>"

definition putBytes :: "bytes \<Rightarrow> writer \<Rightarrow> writer" where
  "putBytes bs w = fold put1 bs w"

definition writeHeader :: "nat \<Rightarrow> int \<Rightarrow> int \<Rightarrow> writer \<Rightarrow> writer" where
  "writeHeader n fix wide w0 =
     (let w = ensure 5 w0 in
      if n < 16 then put1 (byte (fix OR int n)) w
      else if n < 0x10000 then putBytes (beBytes 2 (int n)) (put1 (byte wide) w)
      else putBytes (beBytes 4 (int n)) (put1 (byte (wide + 1)) w))"

definition writeArrayHeader :: "nat \<Rightarrow> writer \<Rightarrow> writer" where
  "writeArrayHeader n = writeHeader n 0x90 0xdc"

definition writeMapHeader :: "nat \<Rightarrow> writer \<Rightarrow> writer" where
  "writeMapHeader n = writeHeader n 0x80 0xde"

definition writeStr :: "jsstr \<Rightarrow> writer \<Rightarrow> writer" where
  "writeStr s w0 =
     (let n = utf8Count s; w = ensure (5 + n) w0;
          w1 = (if n < 32 then put1 (byte (0xa0 OR int n)) w
                else if n < 0x100 then put1 (byte (int n)) (put1 (byte 0xd9) w)
                else if n < 0x10000 then putBytes (beBytes 2 (int n)) (put1 (byte 0xda) w)
                else putBytes (beBytes 4 (int n)) (put1 (byte 0xdb) w))
      in putBytes (utf8Encode s) w1)"

definition writeInt :: "int \<Rightarrow> writer \<Rightarrow> writer" where
  "writeInt v w0 =
     (let w = ensure 9 w0 in
      if v \<ge> 0 then
        if v < 0x80 then put1 (byte v) w
        else if v < 0x100 then put1 (byte v) (put1 (byte 0xcc) w)
        else if v < 0x10000 then putBytes (beBytes 2 v) (put1 (byte 0xcd) w)
        else if v < 0x100000000 then putBytes (beBytes 4 v) (put1 (byte 0xce) w)
        else putBytes (setUint64 v) (put1 (byte 0xcf) w)
      else if v \<ge> -0x20 then put1 (byte (v AND 0xff)) w
      else if v \<ge> -0x80 then putBytes (beBytes 1 v) (put1 (byte 0xd0) w)
      else if v \<ge> -0x8000 then putBytes (beBytes 2 v) (put1 (byte 0xd1) w)
      else if v \<ge> -0x80000000 then putBytes (beBytes 4 v) (put1 (byte 0xd2) w)
      else putBytes (setInt64 v) (put1 (byte 0xd3) w))"

definition writeBool :: "bool \<Rightarrow> writer \<Rightarrow> writer" where
  "writeBool v w = put1 (if v then byte 0xc3 else byte 0xc2) (ensure 1 w)"

definition writeBin :: "bytes \<Rightarrow> writer \<Rightarrow> writer" where
  "writeBin b w0 =
     (let n = length b; w = ensure (5 + n) w0;
          w1 = (if n < 0x100 then put1 (byte (int n)) (put1 (byte 0xc4) w)
                else if n < 0x10000 then putBytes (beBytes 2 (int n)) (put1 (byte 0xc5) w)
                else putBytes (beBytes 4 (int n)) (put1 (byte 0xc6) w))
      in putBytes b w1)"

definition writeNil :: "writer \<Rightarrow> writer" where
  "writeNil w = put1 (byte 0xc0) (ensure 1 w)"

definition writeFloat64 :: "64 word \<Rightarrow> writer \<Rightarrow> writer" where
  "writeFloat64 bits w = putBytes (beBytes 8 (uint bits)) (put1 (byte 0xcb) (ensure 9 w))"

text \<open>
  \<open>encodeDateToTimeSpec\<close>: whole seconds and the nanoseconds past them; those of an invalid Date are
  NaN, which compares false with every bound and is written as 0.
\<close>

definition timeSpec :: "int \<Rightarrow> int \<times> int" where
  "timeSpec ms =
     (let sec = ms div 1000; nsec = (ms - sec * 1000) * 1000000; more = nsec div 1000000000
      in (sec + more, nsec - more * 1000000000))"

definition writeTimestamp :: "int option \<Rightarrow> writer \<Rightarrow> writer" where
  "writeTimestamp d w0 =
     (let w = ensure 15 w0; (sec, nsec) = (case d of None \<Rightarrow> (0, 0) | Some ms \<Rightarrow> timeSpec ms) in
      if d \<noteq> None \<and> sec \<ge> 0 \<and> sec \<le> 0x400000000 - 1 then
        if nsec = 0 \<and> sec \<le> 0x100000000 - 1
        then putBytes (beBytes 4 sec) (put1 (byte (-1)) (put1 (byte 0xd6) w))
        else putBytes (beBytes 4 (push_bit 2 nsec OR sec div 0x100000000) @ beBytes 4 sec)
               (put1 (byte (-1)) (put1 (byte 0xd7) w))
      else putBytes (beBytes 4 nsec @ setInt64 sec) (put1 (byte (-1)) (put1 (byte 12) (put1 (byte 0xc7) w))))"

text \<open>A number that is a safe integer is written as one, and so is -0, as 0.\<close>

definition writeNumber :: "jnum \<Rightarrow> writer \<Rightarrow> writer" where
  "writeNumber v w =
     (case v of
        IntN i \<Rightarrow> if \<bar>i\<bar> < 2 ^ 53 then writeInt i w else writeFloat64 (roundInt i) w
      | F64 bits \<Rightarrow> if bits = minus_zero then writeInt 0 w else writeFloat64 bits w)"

fun writeAny :: "jval \<Rightarrow> nat \<Rightarrow> writer \<Rightarrow> msg_error + writer"
  and writeItems :: "jval list \<Rightarrow> nat \<Rightarrow> writer \<Rightarrow> msg_error + writer"
  and writeEntries :: "(jsstr \<times> jval) list \<Rightarrow> nat \<Rightarrow> writer \<Rightarrow> msg_error + writer"
where
  "writeAny v depth w =
     (if depth > MAX_DEPTH then Inl TooDeep
      else
        case v of
          NullV \<Rightarrow> Inr (writeNil w)
        | UndefV \<Rightarrow> Inr (writeNil w)
        | BoolV b \<Rightarrow> Inr (writeBool b w)
        | NumV n \<Rightarrow> Inr (writeNumber n w)
        | StrV s \<Rightarrow> Inr (writeStr s w)
        | DateV d \<Rightarrow> Inr (writeTimestamp d w)
        | ArrV xs \<Rightarrow> writeItems xs (depth + 1) (writeArrayHeader (length xs) w)
        | NoFormV \<Rightarrow> Inl NoForm
        | ObjV es \<Rightarrow>
            let entries = filter (\<lambda>(k, x). x \<noteq> UndefV) es in
            writeEntries es (depth + 1) (writeMapHeader (length entries) w))"
| "writeItems [] depth w = Inr w"
| "writeItems (x # xs) depth w = andThen (writeAny x depth w) (writeItems xs depth)"
| "writeEntries [] depth w = Inr w"
| "writeEntries ((k, x) # es) depth w =
     (if x = UndefV then writeEntries es depth w
      else andThen (writeAny x depth (writeStr k w)) (writeEntries es depth))"

definition writeRaw :: "bytes \<Rightarrow> writer \<Rightarrow> writer" where
  "writeRaw b w = putBytes b (ensure (length b) w)"

definition written :: "writer \<Rightarrow> bytes" where
  "written w = take (wr_pos w) (wr_buf w)"

definition resetWriter :: "writer \<Rightarrow> writer" where
  "resetWriter w = w\<lparr>wr_pos := 0\<rparr>"

definition encodeAny :: "jval \<Rightarrow> msg_error + bytes" where
  "encodeAny v = map_sum id written (writeAny v 0 newWriter)"

end
