(* ===== verification/MsgpackWire.thy ===== *)
theory MsgpackWire
  imports Msgpack
begin

text \<open>
  What a \<open>Writer\<close> writes: the bytes of each value as a function, and the proof that every operation
  appends them, whatever the buffer's size was.
\<close>

section \<open>Appending\<close>

definition wr_ok :: "writer \<Rightarrow> bool" where
  "wr_ok w = (wr_pos w \<le> length (wr_buf w) \<and> wr_buf w \<noteq> [])"

text \<open>An operation that keeps the writer well formed and appends bytes.\<close>

definition appends :: "(writer \<Rightarrow> writer) \<Rightarrow> bytes \<Rightarrow> bool" where
  "appends f bs = (\<forall>w. wr_ok w \<longrightarrow> wr_ok (f w) \<and> written (f w) = written w @ bs)"

lemma appendsD: "appends f bs \<Longrightarrow> wr_ok w \<Longrightarrow> wr_ok (f w)" "appends f bs \<Longrightarrow> wr_ok w \<Longrightarrow> written (f w) = written w @ bs"
  by (simp_all add: appends_def)

lemma appends_comp: "appends f bs \<Longrightarrow> appends g cs \<Longrightarrow> appends (\<lambda>w. g (f w)) (bs @ cs)"
  by (simp add: appends_def)

lemma growSize_enough: "0 < cap \<Longrightarrow> n \<le> growSize cap n \<and> cap \<le> growSize cap n"
proof (induction cap n rule: growSize.induct)
  case (1 cap n)
  show ?case by (subst (1 2) growSize.simps) (use 1 in force)
qed

lemma ensure_room:
  assumes "wr_ok w"
  shows "wr_ok (ensure n w)" "written (ensure n w) = written w" "wr_pos (ensure n w) + n \<le> length (wr_buf (ensure n w))"
proof -
  have "0 < length (wr_buf w) * 2" using assms by (simp add: wr_ok_def)
  from growSize_enough [OF this, of "wr_pos w + n"] assms
  show "wr_ok (ensure n w)" "written (ensure n w) = written w" "wr_pos (ensure n w) + n \<le> length (wr_buf (ensure n w))"
    by (auto simp: ensure_def wr_ok_def written_def Let_def)
qed

lemma putBytes_fits:
  "wr_ok w \<Longrightarrow> wr_pos w + length bs \<le> length (wr_buf w) \<Longrightarrow>
    wr_ok (putBytes bs w) \<and> written (putBytes bs w) = written w @ bs"
proof (induction bs arbitrary: w)
  case (Cons b bs)
  have "written (put1 b w) = written w @ [b]" "wr_ok (put1 b w)"
    using Cons.prems by (auto simp: put1_def written_def wr_ok_def take_Suc_conv_app_nth)
  with Cons.IH [of "put1 b w"] Cons.prems(2) show ?case by (simp add: putBytes_def put1_def)
qed (simp add: putBytes_def)

text \<open>Every write makes room and then puts its bytes.\<close>

lemma appends_put:
  assumes "length bs \<le> n"
  shows "appends (\<lambda>w. putBytes bs (ensure n w)) bs"
  unfolding appends_def
proof (intro allI impI)
  fix w assume w: "wr_ok w"
  have "wr_pos (ensure n w) + length bs \<le> length (wr_buf (ensure n w))" using ensure_room(3) [OF w, of n] assms by simp
  from putBytes_fits [OF ensure_room(1) [OF w] this] ensure_room(2) [OF w]
  show "wr_ok (putBytes bs (ensure n w)) \<and> written (putBytes bs (ensure n w)) = written w @ bs" by simp
qed

lemma put1_bytes: "put1 b w = putBytes [b] w"
  by (simp add: putBytes_def)

lemma putBytes_append: "putBytes cs (putBytes bs w) = putBytes (bs @ cs) w"
  by (simp add: putBytes_def)

lemmas put_simps = put1_bytes putBytes_append

lemma newWriter_ok [simp]: "wr_ok newWriter" "written newWriter = []"
  by (simp_all add: newWriter_def wr_ok_def written_def)

lemma resetWriter_ok: "wr_ok w \<Longrightarrow> wr_ok (resetWriter w) \<and> written (resetWriter w) = []"
  by (auto simp: resetWriter_def wr_ok_def written_def)

section \<open>The bytes of each value\<close>

definition encHeader :: "nat \<Rightarrow> int \<Rightarrow> int \<Rightarrow> bytes" where
  "encHeader n fix wide =
     (if n < 16 then [byte (fix + int n)]
      else if n < 2 ^ 16 then byte wide # beBytes 2 (int n)
      else byte (wide + 1) # beBytes 4 (int n))"

definition encStr :: "jsstr \<Rightarrow> bytes" where
  "encStr s =
     (let n = utf8Count s in
      (if n < 32 then [byte (0xa0 + int n)]
       else if n < 2 ^ 8 then [byte 0xd9, byte (int n)]
       else if n < 2 ^ 16 then byte 0xda # beBytes 2 (int n)
       else byte 0xdb # beBytes 4 (int n)) @ utf8Encode s)"

definition encInt :: "int \<Rightarrow> bytes" where
  "encInt v =
     (if 0 \<le> v then
        if v < 2 ^ 7 then [byte v]
        else if v < 2 ^ 8 then [byte 0xcc, byte v]
        else if v < 2 ^ 16 then byte 0xcd # beBytes 2 v
        else if v < 2 ^ 32 then byte 0xce # beBytes 4 v
        else byte 0xcf # beBytes 8 v
      else if - (2 ^ 5) \<le> v then [byte v]
      else if - (2 ^ 7) \<le> v then [byte 0xd0, byte v]
      else if - (2 ^ 15) \<le> v then byte 0xd1 # beBytes 2 v
      else if - (2 ^ 31) \<le> v then byte 0xd2 # beBytes 4 v
      else byte 0xd3 # beBytes 8 v)"

definition encBool :: "bool \<Rightarrow> bytes" where "encBool v = [if v then 0xc3 else 0xc2]"

definition encFloat64 :: "64 word \<Rightarrow> bytes" where "encFloat64 b = 0xcb # beBytes 8 (uint b)"

definition encBin :: "bytes \<Rightarrow> bytes" where
  "encBin b =
     (let n = length b in
      (if n < 2 ^ 8 then [0xc4, byte (int n)]
       else if n < 2 ^ 16 then 0xc5 # beBytes 2 (int n)
       else 0xc6 # beBytes 4 (int n)) @ b)"

text \<open>A time in milliseconds: 4, 8 or 12 bytes of seconds and nanoseconds.\<close>

definition encTime :: "int \<Rightarrow> bytes" where
  "encTime ms =
     (let sec = ms div 1000; nsec = ms mod 1000 * 1000000 in
      if 0 \<le> sec \<and> sec < 2 ^ 34 then
        if nsec = 0 \<and> sec < 2 ^ 32 then [0xd6, 0xff] @ beBytes 4 sec
        else [0xd7, 0xff] @ beBytes 4 (nsec * 4 + sec div 2 ^ 32) @ beBytes 4 sec
      else [0xc7, 12, 0xff] @ beBytes 4 nsec @ beBytes 8 sec)"

text \<open>An invalid Date is written as a 12-byte time of no seconds.\<close>

definition encTimestamp :: "int option \<Rightarrow> bytes" where
  "encTimestamp d = (case d of None \<Rightarrow> [0xc7, 12, 0xff] @ beBytes 12 0 | Some ms \<Rightarrow> encTime ms)"

definition encNumber :: "jnum \<Rightarrow> bytes" where
  "encNumber v =
     (case v of
        IntN i \<Rightarrow> if \<bar>i\<bar> < 2 ^ 53 then encInt i else encFloat64 (roundInt i)
      | F64 b \<Rightarrow> if b = minus_zero then encInt 0 else encFloat64 b)"

fun enc :: "jval \<Rightarrow> bytes" and encItems :: "jval list \<Rightarrow> bytes" and encEntries :: "(jsstr \<times> jval) list \<Rightarrow> bytes" where
  "enc NullV = [0xc0]"
| "enc UndefV = [0xc0]"
| "enc (BoolV b) = encBool b"
| "enc (NumV n) = encNumber n"
| "enc (StrV s) = encStr s"
| "enc (DateV d) = encTimestamp d"
| "enc (ArrV xs) = encHeader (length xs) 0x90 0xdc @ encItems xs"
| "enc (ObjV es) = encHeader (length (filter (\<lambda>(k, x). x \<noteq> UndefV) es)) 0x80 0xde @ encEntries es"
| "enc NoFormV = []"
| "encItems [] = []"
| "encItems (x # xs) = enc x @ encItems xs"
| "encEntries [] = []"
| "encEntries ((k, x) # es) = (if x = UndefV then [] else encStr k @ enc x) @ encEntries es"

section \<open>The writer writes them\<close>

named_theorems appending

lemma appends_eq: "(\<And>w. f w = putBytes bs (ensure n w)) \<Longrightarrow> length bs \<le> n \<Longrightarrow> appends f bs"
  using appends_put [of bs n] by presburger

lemma appends_writeHeader:
  assumes "fix = 0x90 \<or> fix = 0x80"
  shows "appends (writeHeader n fix wide) (encHeader n fix wide)"
proof (rule appends_eq [of _ _ 5])
  have "fix OR int n = fix + int n" if "n < 16"
    using assms or_leads(7,8) [of "int n"] that by auto
  then show "writeHeader n fix wide w = putBytes (encHeader n fix wide) (ensure 5 w)" for w
    by (simp add: writeHeader_def encHeader_def put_simps Let_def)
qed (simp add: encHeader_def)

lemma appends_writeStr [appending]: "appends (writeStr s) (encStr s)"
proof (rule appends_eq [of _ _ "5 + utf8Count s"])
  have "0xa0 OR int (utf8Count s) = 0xa0 + int (utf8Count s)" if "utf8Count s < 32"
    using or_leads(9) [of "int (utf8Count s)"] that by simp
  then show "writeStr s w = putBytes (encStr s) (ensure (5 + utf8Count s) w)" for w
    by (simp add: writeStr_def encStr_def put_simps Let_def)
qed (simp add: encStr_def Let_def utf8Encode_length)

lemma beBytes_split: "beBytes (m + n) v = beBytes m (v div 256 ^ n) @ beBytes n v"
proof (induction n arbitrary: v)
  case (Suc n)
  have "v div 256 ^ Suc n = v div 256 div 256 ^ n" by (simp add: zdiv_zmult2_eq)
  then show ?case using Suc [of "v div 256"] by simp
qed simp

lemma eight_bytes: "beBytes 4 (v div 0x100000000) @ beBytes 4 v = beBytes 8 v"
  using beBytes_split [of 4 4 v] by simp

lemma byte_and: "byte (v AND 0xff) = byte v"
  using and_low [of v 8] by (simp add: mask_nums byte_def word_uint_eq_iff uint_word_of_int)

lemma appends_writeInt [appending]: "appends (writeInt v) (encInt v)"
proof (rule appends_eq [of _ _ 9])
  show "writeInt v w = putBytes (encInt v) (ensure 9 w)" for w
    by (simp add: writeInt_def encInt_def put_simps Let_def setUint64_def setInt64_def eight_bytes byte_and
        numeral_eq_Suc [of num.One])
qed (simp add: encInt_def)

lemma appends_writeBool [appending]: "appends (writeBool v) (encBool v)"
  by (rule appends_eq [of _ _ 1]) (simp_all add: writeBool_def encBool_def put_simps byte_def)

lemma appends_writeNil [appending]: "appends writeNil [0xc0]"
  by (rule appends_eq [of _ _ 1]) (simp_all add: writeNil_def put_simps byte_def)

lemma appends_writeFloat64 [appending]: "appends (writeFloat64 b) (encFloat64 b)"
  by (rule appends_eq [of _ _ 9]) (simp_all add: writeFloat64_def encFloat64_def put_simps byte_def)

lemma appends_writeBin [appending]: "appends (writeBin b) (encBin b)"
  by (rule appends_eq [of _ _ "5 + length b"])
    (simp_all add: writeBin_def encBin_def put_simps byte_def Let_def)

lemma appends_writeRaw [appending]: "appends (writeRaw b) b"
  by (rule appends_eq [of _ _ "length b"]) (simp_all add: writeRaw_def)

lemma timeSpec_parts: "timeSpec ms = (ms div 1000, ms mod 1000 * 1000000)"
proof -
  have "ms - ms div 1000 * 1000 = ms mod 1000" by (simp add: minus_div_mult_eq_mod)
  moreover have "ms mod 1000 * 1000000 div 1000000000 = 0"
    using pos_mod_bound [of 1000 ms] pos_mod_sign [of 1000 ms] by (simp add: div_pos_pos_trivial)
  ultimately show ?thesis by (simp add: timeSpec_def Let_def)
qed

lemma ext_type: "(-1 :: 8 word) = 0xff"
  by simp

lemma appends_writeTimestamp [appending]: "appends (writeTimestamp d) (encTimestamp d)"
proof (rule appends_eq [of _ _ 15])
  have o: "push_bit 2 n OR sec div 0x100000000 = n * 4 + sec div 0x100000000" if "0 \<le> sec" "sec < 0x400000000" for n sec :: int
    using join_bits [of "sec div 0x100000000" 2 n] that by simp
  show "writeTimestamp d w = putBytes (encTimestamp d) (ensure 15 w)" for w
  proof (cases d)
    case None
    have "beBytes 12 0 = beBytes 4 0 @ beBytes 8 0" using beBytes_split [of 4 8 0] by simp
    then show ?thesis
      by (simp add: None writeTimestamp_def encTimestamp_def put_simps Let_def setInt64_def eight_bytes byte_def ext_type)
  next
    case (Some ms)
    show ?thesis
      using o [of "ms div 1000" "ms mod 1000 * 1000000"]
      by (simp add: Some writeTimestamp_def encTimestamp_def encTime_def timeSpec_parts put_simps Let_def setInt64_def
          eight_bytes byte_def ext_type)
  qed
qed (simp add: encTimestamp_def encTime_def Let_def split: option.split)

lemma appends_writeNumber [appending]: "appends (writeNumber n) (encNumber n)"
  using appending unfolding appends_def by (cases n) (simp_all add: writeNumber_def encNumber_def)

text \<open>Whether a value can be written: no part without a form, none nested too deep.\<close>

fun writable :: "nat \<Rightarrow> jval \<Rightarrow> bool" and writableItems :: "nat \<Rightarrow> jval list \<Rightarrow> bool"
  and writableEntries :: "nat \<Rightarrow> (jsstr \<times> jval) list \<Rightarrow> bool" where
  "writable d v = (d \<le> 512 \<and>
     (case v of ArrV xs \<Rightarrow> writableItems (d + 1) xs | ObjV es \<Rightarrow> writableEntries (d + 1) es | NoFormV \<Rightarrow> False | _ \<Rightarrow> True))"
| "writableItems d [] = True"
| "writableItems d (x # xs) = (writable d x \<and> writableItems d xs)"
| "writableEntries d [] = True"
| "writableEntries d ((k, x) # es) = ((x = UndefV \<or> writable d x) \<and> writableEntries d es)"

text \<open>An operation that may throw: it appends the bytes when it may, and throws when it may not.\<close>

definition appendsIf :: "bool \<Rightarrow> (writer \<Rightarrow> 'e + writer) \<Rightarrow> bytes \<Rightarrow> bool" where
  "appendsIf p f bs = (\<forall>w. wr_ok w \<longrightarrow>
     (if p then \<exists>w'. f w = Inr w' \<and> wr_ok w' \<and> written w' = written w @ bs else \<exists>e. f w = Inl e))"

lemma appendsIf_then:
  "appends f bs \<Longrightarrow> appendsIf p g cs \<Longrightarrow> appendsIf p (\<lambda>w. g (f w)) (bs @ cs)"
  unfolding appendsIf_def appends_def by (cases p) (metis append.assoc)+

lemma appendsIf_andThen:
  "appendsIf p f bs \<Longrightarrow> appendsIf q g cs \<Longrightarrow> appendsIf (p \<and> q) (\<lambda>w. andThen (f w) g) (bs @ cs)"
  unfolding appendsIf_def
  by (cases p; cases q) (metis andThen_Inl andThen_Inr append.assoc)+

lemma appendsIf_appends: "appends f bs \<Longrightarrow> appendsIf True (\<lambda>w. Inr (f w)) bs"
  by (simp add: appendsIf_def appends_def)

lemma appendsIf_Nil: "appendsIf True Inr []"
  by (simp add: appendsIf_def)

lemma appendsIf_throws: "appendsIf False (\<lambda>w. Inl e) bs"
  by (simp add: appendsIf_def)

declare writeAny.simps [simp del] writable.simps [simp del]

lemma appendsIf_eq: "appendsIf p g bs \<Longrightarrow> p = q \<Longrightarrow> (\<And>w. f w = g w) \<Longrightarrow> appendsIf q f bs"
  by (simp add: appendsIf_def)

lemma appendsIf_node:
  assumes "\<And>w. writeAny v d w = (if d > 512 then Inl TooDeep else g (f w))"
    "writable d v = (d \<le> 512 \<and> p)" "appends f bs" "appendsIf p g cs" "enc v = bs @ cs"
  shows "appendsIf (writable d v) (writeAny v d) (enc v)"
proof (cases "d > 512")
  case True
  then show ?thesis using assms(1,2) by (simp add: appendsIf_def)
next
  case False
  then show ?thesis
    using appendsIf_then [OF assms(3,4)] assms(1,2,5) by (auto intro: appendsIf_eq)
qed

lemma appendsIf_leaf:
  assumes "\<And>w. writeAny v d w = (if d > 512 then Inl TooDeep else Inr (f w))" "writable d v = (d \<le> 512)" "appends f (enc v)"
  shows "appendsIf (writable d v) (writeAny v d) (enc v)"
  using assms by (intro appendsIf_node [of v d Inr f True "enc v" "[]"]) (simp_all add: appendsIf_Nil)

lemmas any_simps = writeAny.simps writable.simps MAX_DEPTH_def

lemma appendsIf_any:
  "appendsIf (writable d v) (writeAny v d) (enc v)"
  "appendsIf (writableItems d xs) (writeItems xs d) (encItems xs)"
  "appendsIf (writableEntries d es) (writeEntries es d) (encEntries es)"
proof (induction v and xs and es arbitrary: d and d and d rule: enc_encItems_encEntries.induct)
  case 1
  show ?case by (rule appendsIf_leaf [of _ _ writeNil]) (simp_all add: any_simps appending)
next
  case 2
  show ?case by (rule appendsIf_leaf [of _ _ writeNil]) (simp_all add: any_simps appending)
next
  case (3 b)
  show ?case by (rule appendsIf_leaf [of _ _ "writeBool b"]) (simp_all add: any_simps appending)
next
  case (4 n)
  show ?case by (rule appendsIf_leaf [of _ _ "writeNumber n"]) (simp_all add: any_simps appending)
next
  case (5 s)
  show ?case by (rule appendsIf_leaf [of _ _ "writeStr s"]) (simp_all add: any_simps appending)
next
  case (6 t)
  show ?case by (rule appendsIf_leaf [of _ _ "writeTimestamp t"]) (simp_all add: any_simps appending)
next
  case (7 xs)
  show ?case
    by (rule appendsIf_node [OF _ _ _ 7 [of "d + 1"], of _ _ "writeArrayHeader (length xs)"])
      (simp_all add: any_simps writeArrayHeader_def appends_writeHeader)
next
  case (8 es)
  show ?case
    by (rule appendsIf_node [OF _ _ _ 8 [of "d + 1"], of _ _ "writeMapHeader (length (filter (\<lambda>(k, x). x \<noteq> UndefV) es))"])
      (simp_all add: any_simps writeMapHeader_def appends_writeHeader)
next
  case 9
  show ?case by (simp add: appendsIf_def any_simps)
next
  case (11 x xs)
  show ?case using appendsIf_andThen [OF 11(1) [of d] 11(2) [of d]] by (auto intro: appendsIf_eq)
next
  case (13 k x es)
  show ?case
  proof (cases "x = UndefV")
    case True
    then show ?thesis using 13(2) [of d] by (auto intro: appendsIf_eq)
  next
    case False
    have "appendsIf (writable d x) (\<lambda>w. writeAny x d (writeStr k w)) (encStr k @ enc x)"
      by (rule appendsIf_then [OF appends_writeStr 13(1) [OF False]])
    from appendsIf_andThen [OF this 13(2) [of d]] False show ?thesis by (auto intro: appendsIf_eq)
  qed
qed (simp_all add: appendsIf_Nil appendsIf_eq [OF appendsIf_Nil])

text \<open>\<open>encodeAny\<close> is the bytes of the value, or an error exactly when the value cannot be written.\<close>

lemma encodeAny_enc:
  "writable 0 v \<Longrightarrow> encodeAny v = Inr (enc v)" "\<not> writable 0 v \<Longrightarrow> \<exists>e. encodeAny v = Inl e"
  using appendsIf_any(1) [of 0 v, unfolded appendsIf_def, rule_format, OF newWriter_ok(1)]
  by (auto simp: encodeAny_def)

end
