(* ===== verification/MsgpackRead.thy ===== *)
theory MsgpackRead
  imports MsgpackWire
begin

text \<open>
  What a \<open>Reader\<close> reads: each typed read takes exactly the bytes the writer's form of a value has,
  whatever follows them, and answers the value. The interface \<open>codec\<close> is that promise; what it gives
  (lists of values, whole buffers, unique decoding) is proved once and used for every kind of value.
\<close>

section \<open>The bytes ahead of a reader\<close>

definition rd_ok :: "reader \<Rightarrow> bool" where
  "rd_ok r = (rd_pos r \<le> rd_end r \<and> rd_end r \<le> length (rd_buf r))"

definition unread :: "reader \<Rightarrow> bytes" where
  "unread r = drop (rd_pos r) (take (rd_end r) (rd_buf r))"

lemma length_unread: "rd_ok r \<Longrightarrow> length (unread r) = rd_end r - rd_pos r"
  by (simp add: rd_ok_def unread_def)

lemma advanceBy_simps [simp]:
  "rd_buf (advanceBy n r) = rd_buf r" "rd_end (advanceBy n r) = rd_end r" "rd_pos (advanceBy n r) = rd_pos r + n"
  "rd_key (advanceBy n r) = rd_key r" "advanceBy m (advanceBy n r) = advanceBy (n + m) r" "advanceBy 0 r = r"
  by (simp_all add: advanceBy_def)

lemma unread_advanceBy: "unread (advanceBy n r) = drop n (unread r)"
  by (simp add: unread_def add.commute)

lemma rd_ok_advanceBy: "rd_ok r \<Longrightarrow> n \<le> length (unread r) \<Longrightarrow> rd_ok (advanceBy n r)"
  unfolding length_unread by (simp add: rd_ok_def) arith

lemma buf_unread: "rd_ok r \<Longrightarrow> drop (rd_pos r) (rd_buf r) = unread r @ drop (rd_end r) (rd_buf r)"
  by (simp add: unread_def rd_ok_def drop_take [symmetric]) (metis append_take_drop_id drop_append diff_is_0_eq drop_0 length_take min.absorb2)

lemma need_unread: "rd_ok r \<Longrightarrow> n \<le> length (unread r) \<Longrightarrow> need n r = Inr ()"
  by (auto simp: need_def rd_ok_def length_unread)

lemma here_unread: "rd_ok r \<Longrightarrow> unread r = b # bs \<Longrightarrow> here r = uint b"
  using buf_unread [of r] by (simp add: here_def nth_via_drop)

lemma drop_unread:
  assumes "rd_ok r" "unread r = xs @ ys" "length xs = k"
  shows "drop (rd_pos r + k) (rd_buf r) = ys @ drop (rd_end r) (rd_buf r)"
  using buf_unread [OF assms(1)] assms(2,3) by (metis (no_types) append_assoc append_eq_conv_conj drop_drop add.commute)

lemma be_unread:
  assumes "rd_ok r" "unread r = xs @ ys @ zs" "length xs = k" "length ys = n"
  shows "be (rd_buf r) (rd_pos r + k) n = beVal ys"
proof -
  have "rd_pos r + k \<le> length (rd_buf r)" using length_unread [OF assms(1)] assms(1-3) by (simp add: rd_ok_def) arith
  moreover have "drop (rd_pos r + k) (rd_buf r) = ys @ zs @ drop (rd_end r) (rd_buf r)"
    using drop_unread [OF assms(1-3)] by simp
  ultimately show ?thesis using be_at assms(4) by blast
qed

lemma nth_unread:
  assumes "rd_ok r" "unread r = xs @ y # zs" "length xs = k"
  shows "rd_buf r ! (rd_pos r + k) = y"
  using drop_unread [OF assms] by (simp add: nth_via_drop)

section \<open>Reading a form\<close>

definition reads :: "(reader \<Rightarrow> 'e + ('a \<times> reader)) \<Rightarrow> bytes \<Rightarrow> 'a \<Rightarrow> bool" where
  "reads f bs v = (\<forall>r rest. rd_ok r \<longrightarrow> unread r = bs @ rest \<longrightarrow> f r = Inr (v, advanceBy (length bs) r))"

lemma readsI: "(\<And>r rest. rd_ok r \<Longrightarrow> unread r = bs @ rest \<Longrightarrow> f r = Inr (v, advanceBy (length bs) r)) \<Longrightarrow> reads f bs v"
  by (simp add: reads_def)

lemma readsD: "reads f bs v \<Longrightarrow> rd_ok r \<Longrightarrow> unread r = bs @ rest \<Longrightarrow> f r = Inr (v, advanceBy (length bs) r)"
  by (simp add: reads_def)

lemma reads_map: "reads f bs v \<Longrightarrow> reads (\<lambda>r. map_sum id (map_prod h id) (f r)) bs (h v)"
  by (simp add: reads_def)

lemma reads_bind:
  assumes "reads f bs x" "reads (g x) cs v"
  shows "reads (\<lambda>r. andThen (f r) (\<lambda>(x, r'). g x r')) (bs @ cs) v"
proof (rule readsI)
  fix r rest
  assume r: "rd_ok r" "unread r = (bs @ cs) @ rest"
  then have "f r = Inr (x, advanceBy (length bs) r)" using readsD [OF assms(1)] by simp
  moreover have "rd_ok (advanceBy (length bs) r)" "unread (advanceBy (length bs) r) = cs @ rest"
    using r by (simp_all add: rd_ok_advanceBy unread_advanceBy)
  ultimately show "andThen (f r) (\<lambda>(x, r'). g x r') = Inr (v, advanceBy (length (bs @ cs)) r)"
    using readsD [OF assms(2)] by simp
qed

lemma reads_pure: "reads (\<lambda>r. Inr (v, r)) [] v"
  by (simp add: reads_def)

lemma reads_eq: "reads g bs v \<Longrightarrow> (\<And>r rest. rd_ok r \<Longrightarrow> unread r = bs @ rest \<Longrightarrow> f r = g r) \<Longrightarrow> reads f bs v"
  by (simp add: reads_def)

text \<open>A read decided by the first byte.\<close>

lemma reads_byte:
  assumes "\<And>r. rd_ok r \<Longrightarrow> unread r \<noteq> [] \<Longrightarrow> here r = uint b \<Longrightarrow> f r = g r" "reads g (b # bs) v"
  shows "reads f (b # bs) v"
  using assms by (intro reads_eq [OF assms(2)]) (simp add: here_unread)

lemma reads_lengthAt: "int v < 256 ^ n \<Longrightarrow> reads (lengthAt n) (b # beBytes n (int v)) v"
proof (rule readsI)
  fix r rest
  assume v: "int v < 256 ^ n" and r: "rd_ok r" "unread r = (b # beBytes n (int v)) @ rest"
  then have "be (rd_buf r) (rd_pos r + 1) n = int v"
    using be_unread [of r "[b]" "beBytes n (int v)" rest 1 n] by simp
  moreover have "need (1 + n) r = Inr ()" using r by (intro need_unread) simp_all
  ultimately show "lengthAt n r = Inr (v, advanceBy (length (b # beBytes n (int v))) r)" by (simp add: lengthAt_def)
qed

lemma need1: "rd_ok r \<Longrightarrow> unread r \<noteq> [] \<Longrightarrow> need 1 r = Inr ()" "rd_ok r \<Longrightarrow> unread r \<noteq> [] \<Longrightarrow> need (Suc 0) r = Inr ()"
  by (cases "unread r"; simp add: need_unread)+

lemma reads_short: "reads (\<lambda>r. Inr (v, advanceBy 1 r)) [b] v" "reads (\<lambda>r. Inr (v, advanceBy (Suc 0) r)) [b] v"
  by (simp_all add: reads_def)

section \<open>The typed reads\<close>

named_theorems reading

lemma reads_expecting: "reads f bs (Some v) \<Longrightarrow> reads (expecting k f) bs v"
  unfolding reads_def expecting_def by simp

lemmas header_simps = need1 Let_def

lemma and_fixed: "0 \<le> (x :: int) \<Longrightarrow> x < 2 ^ k \<Longrightarrow> (c * 2 ^ k + x) AND mask k = x"
  unfolding and_low by (simp add: mod_pos_pos_trivial)

lemma and_fix:
  "n < 16 \<Longrightarrow> (0x90 + int n) AND 0x0f = int n" "n < 16 \<Longrightarrow> (0x80 + int n) AND 0x0f = int n"
  "n < 32 \<Longrightarrow> (0xa0 + int n) AND 0x1f = int n"
  using and_fixed [of "int n" 4 9] and_fixed [of "int n" 4 8] and_fixed [of "int n" 5 5] by (simp_all add: mask_nums)

lemma mod_fix: "n < 16 \<Longrightarrow> (0x90 + int n) mod 256 = 0x90 + int n" "n < 16 \<Longrightarrow> (0x80 + int n) mod 256 = 0x80 + int n"
  "n < 32 \<Longrightarrow> (0xa0 + int n) mod 256 = 0xa0 + int n"
  by simp_all

lemma reads_tryArrayHeader:
  assumes "n < 2 ^ 32"
  shows "reads tryArrayHeader (encHeader n 0x90 0xdc) (Some n)"
proof -
  note defs = tryArrayHeader_def encHeader_def
  consider "n < 16" | "16 \<le> n" "n < 2 ^ 16" | "2 ^ 16 \<le> n" by fastforce
  then show ?thesis
  proof cases
    case 1
    show ?thesis
      using 1 by (simp add: defs, intro reads_byte [OF _ reads_short(1)]) (simp add: defs header_simps and_fix mod_fix)
  next
    case 2
    then have "reads (lengthAt 2) (byte 0xdc # beBytes 2 (int n)) n" by (intro reads_lengthAt) simp
    from reads_byte [OF _ reads_map [OF this, of Some]] 2 show ?thesis
      by (simp add: defs header_simps)
  next
    case 3
    then have "reads (lengthAt 4) (byte (0xdc + 1) # beBytes 4 (int n)) n" using assms by (intro reads_lengthAt) simp
    from reads_byte [OF _ reads_map [OF this, of Some]] 3 show ?thesis
      by (simp add: defs header_simps)
  qed
qed

lemma reads_tryMapHeader:
  assumes "n < 2 ^ 32"
  shows "reads tryMapHeader (encHeader n 0x80 0xde) (Some n)"
proof -
  note defs = tryMapHeader_def encHeader_def
  consider "n < 16" | "16 \<le> n" "n < 2 ^ 16" | "2 ^ 16 \<le> n" by fastforce
  then show ?thesis
  proof cases
    case 1
    show ?thesis
      using 1 by (simp add: defs, intro reads_byte [OF _ reads_short(1)]) (simp add: defs header_simps and_fix mod_fix)
  next
    case 2
    then have "reads (lengthAt 2) (byte 0xde # beBytes 2 (int n)) n" by (intro reads_lengthAt) simp
    from reads_byte [OF _ reads_map [OF this, of Some]] 2 show ?thesis
      by (simp add: defs header_simps)
  next
    case 3
    then have "reads (lengthAt 4) (byte (0xde + 1) # beBytes 4 (int n)) n" using assms by (intro reads_lengthAt) simp
    from reads_byte [OF _ reads_map [OF this, of Some]] 3 show ?thesis
      by (simp add: defs header_simps)
  qed
qed

lemma reads_arrayHeader [reading]: "n < 2 ^ 32 \<Longrightarrow> reads arrayHeader (encHeader n 0x90 0xdc) n"
  unfolding arrayHeader_def by (intro reads_expecting reads_tryArrayHeader reads_tryMapHeader) simp_all

lemma reads_mapHeader [reading]: "n < 2 ^ 32 \<Longrightarrow> reads mapHeader (encHeader n 0x80 0xde) n"
  unfolding mapHeader_def by (intro reads_expecting reads_tryArrayHeader reads_tryMapHeader) simp_all

text \<open>A string's header and its text.\<close>

definition encStrHeader :: "nat \<Rightarrow> bytes" where
  "encStrHeader n =
     (if n < 32 then [byte (0xa0 + int n)]
      else if n < 2 ^ 8 then [byte 0xd9, byte (int n)]
      else if n < 2 ^ 16 then byte 0xda # beBytes 2 (int n)
      else byte 0xdb # beBytes 4 (int n))"

lemma encStr_header: "encStr s = encStrHeader (utf8Count s) @ utf8Encode s"
  by (simp add: encStr_def encStrHeader_def Let_def)

lemma reads_tryStrHeader:
  assumes "n < 2 ^ 32"
  shows "reads tryStrHeader (encStrHeader n) (Some n)"
proof -
  note defs = tryStrHeader_def encStrHeader_def
  consider "n < 32" | "32 \<le> n" "n < 2 ^ 8" | "2 ^ 8 \<le> n" "n < 2 ^ 16" | "2 ^ 16 \<le> n" by fastforce
  then show ?thesis
  proof cases
    case 1
    show ?thesis
      using 1 by (simp add: defs, intro reads_byte [OF _ reads_short(1)]) (simp add: defs header_simps and_fix mod_fix)
  next
    case 2
    then have "reads (lengthAt 1) (byte 0xd9 # beBytes 1 (int n)) n" by (intro reads_lengthAt) simp
    from reads_byte [OF _ reads_map [OF this, of Some]] 2 show ?thesis by (simp add: defs header_simps)
  next
    case 3
    then have "reads (lengthAt 2) (byte 0xda # beBytes 2 (int n)) n" by (intro reads_lengthAt) simp
    from reads_byte [OF _ reads_map [OF this, of Some]] 3 show ?thesis by (simp add: defs header_simps)
  next
    case 4
    then have "reads (lengthAt 4) (byte 0xdb # beBytes 4 (int n)) n" using assms by (intro reads_lengthAt) simp
    from reads_byte [OF _ reads_map [OF this, of Some]] 4 show ?thesis by (simp add: defs header_simps)
  qed
qed

lemma reads_textAt:
  assumes "well_formed s"
  shows "reads (textAt (utf8Count s)) (utf8Encode s) (if utf8Count s > 200 \<and> hd s = 0xfeff then tl s else s)"
proof (rule readsI)
  fix r rest
  assume r: "rd_ok r" "unread r = utf8Encode s @ rest"
  have "drop (rd_pos r) (rd_buf r) = utf8Encode s @ rest @ drop (rd_end r) (rd_buf r)"
    using buf_unread [OF r(1)] r(2) by simp
  from utf8Decode_utf8Encode [OF assms this] need_unread [OF r(1), of "utf8Count s"] r(2)
  show "textAt (utf8Count s) r = Inr (if utf8Count s > 200 \<and> hd s = 0xfeff then tl s else s, advanceBy (length (utf8Encode s)) r)"
    by (simp add: textAt_def utf8Encode_length)
qed

lemma reads_text: "keepsText s \<Longrightarrow> reads (textAt (utf8Count s)) (utf8Encode s) s"
  using reads_textAt [of s] by (auto simp: keepsText_def split: if_splits)

lemma reads_tryStr [reading]: "keepsText s \<Longrightarrow> utf8Count s < 2 ^ 32 \<Longrightarrow> reads tryStr (encStr s) (Some s)"
  unfolding encStr_header tryStr_def
  by (rule reads_bind [OF reads_tryStrHeader]) (simp_all add: reads_map reads_text)

lemma reads_str_as:
  "reads (textAt (utf8Count s)) (utf8Encode s) t \<Longrightarrow> utf8Count s < 2 ^ 32 \<Longrightarrow> reads str (encStr s) t"
  unfolding encStr_header str_def strHeader_def
  by (rule reads_bind [where g = textAt and x = "utf8Count s"]) (simp_all add: reads_expecting reads_tryStrHeader)

lemma reads_str [reading]: "keepsText s \<Longrightarrow> utf8Count s < 2 ^ 32 \<Longrightarrow> reads str (encStr s) s"
  by (rule reads_str_as [OF reads_text])

lemma reads_str_marked:
  "well_formed s \<Longrightarrow> hd s = 0xfeff \<Longrightarrow> utf8Count s > 200 \<Longrightarrow> utf8Count s < 2 ^ 32 \<Longrightarrow> reads str (encStr s) (tl s)"
  using reads_str_as [OF reads_textAt, of s] by simp

lemma reads_intAt:
  assumes "\<And>r rest. rd_ok r \<Longrightarrow> unread r = (b # bs) @ rest \<Longrightarrow> get (rd_buf r) (rd_pos r + 1) = v" "length bs = n"
  shows "reads (intAt n get) (b # bs) v"
proof (rule readsI)
  fix r rest assume r: "rd_ok r" "unread r = (b # bs) @ rest"
  then have "need (1 + n) r = Inr ()" using assms(2) by (intro need_unread) simp_all
  then show "intAt n get r = Inr (v, advanceBy (length (b # bs)) r)"
    using assms(1) [OF r] assms(2) by (simp add: intAt_def)
qed

lemma be_after_byte:
  assumes "rd_ok r" "unread r = (b # bs) @ rest" "length bs = n"
  shows "be (rd_buf r) (rd_pos r + 1) n = beVal bs" "be (rd_buf r) (Suc (rd_pos r)) n = beVal bs"
  using be_unread [of r "[b]" bs rest 1 n] assms by simp_all

lemma be_halves:
  assumes "rd_ok r" "unread r = (b # beBytes 8 v) @ rest"
  shows "be (rd_buf r) (rd_pos r + 1) 4 = v div 2 ^ 32 mod 2 ^ 32"
    "be (rd_buf r) (rd_pos r + 1 + 4) 4 = v mod 2 ^ 32"
proof -
  have e: "unread r = [b] @ beBytes 4 (v div 0x100000000) @ beBytes 4 v @ rest"
    "unread r = (b # beBytes 4 (v div 0x100000000)) @ beBytes 4 v @ rest"
    using assms(2) by (simp_all flip: eight_bytes)
  show "be (rd_buf r) (rd_pos r + 1) 4 = v div 2 ^ 32 mod 2 ^ 32" using be_unread [OF assms(1) e(1), of 1 4] by simp
  show "be (rd_buf r) (rd_pos r + 1 + 4) 4 = v mod 2 ^ 32" using be_unread [OF assms(1) e(2), of 5 4] by (simp add: add.commute)
qed

lemma getUint64_at:
  assumes "rd_ok r" "unread r = (b # beBytes 8 v) @ rest" "0 \<le> v" "v < 2 ^ 53"
  shows "getUint64 (rd_buf r) (rd_pos r + 1) = v"
proof -
  have "v div 2 ^ 32 mod 2 ^ 32 = v div 2 ^ 32" using assms(3,4) by (intro mod_pos_pos_trivial) auto
  then show ?thesis using be_halves [OF assms(1,2)] assms(3,4) by (simp add: getUint64_def Let_def)
qed

lemma getInt64_at:
  assumes "rd_ok r" "unread r = (b # beBytes 8 v) @ rest" "\<bar>v\<bar> < 2 ^ 53"
  shows "getInt64 (rd_buf r) (rd_pos r + 1) = v"
proof -
  have "signed_of 4 (v div 2 ^ 32 mod 256 ^ 4) = v div 2 ^ 32" using assms(3) by (intro signed_bytes) auto
  then show ?thesis using be_halves [OF assms(1,2)] assms(3) by (simp add: getInt64_def Let_def)
qed

lemma signed_mod:
  "- (2 ^ 7) \<le> v \<Longrightarrow> v < 2 ^ 7 \<Longrightarrow> signed_of 1 (v mod 256) = v" "- (2 ^ 7) \<le> v \<Longrightarrow> v < 2 ^ 7 \<Longrightarrow> signed_of (Suc 0) (v mod 256) = v"
  "- (2 ^ 15) \<le> v \<Longrightarrow> v < 2 ^ 15 \<Longrightarrow> signed_of 2 (v mod 65536) = v"
  "- (2 ^ 31) \<le> v \<Longrightarrow> v < 2 ^ 31 \<Longrightarrow> signed_of 4 (v mod 4294967296) = v"
  using signed_bytes [of 1 v] signed_bytes [of 2 v] signed_bytes [of 4 v] by simp_all

lemma be_mod:
  assumes "rd_ok r" "unread r = (b # beBytes n v) @ rest"
  shows "be (rd_buf r) (rd_pos r + 1) n = v mod 256 ^ n" 
  using be_after_byte(1) [OF assms] by simp

text \<open>The integer reads, by their first byte.\<close>

lemma int_value_at:
  assumes "rd_ok r" "unread r \<noteq> []"
  shows "here r \<le> 0x7f \<Longrightarrow> int_value r = Inr (here r, advanceBy 1 r)"
    "here r \<ge> 0xe0 \<Longrightarrow> int_value r = Inr (here r - 256, advanceBy 1 r)"
    "here r = 0xcc \<Longrightarrow> int_value r = intAt 1 (\<lambda>buf p. be buf p 1) r"
    "here r = 0xcd \<Longrightarrow> int_value r = intAt 2 (\<lambda>buf p. be buf p 2) r"
    "here r = 0xce \<Longrightarrow> int_value r = intAt 4 (\<lambda>buf p. be buf p 4) r"
    "here r = 0xcf \<Longrightarrow> int_value r = intAt 8 getUint64 r"
    "here r = 0xd0 \<Longrightarrow> int_value r = intAt 1 (\<lambda>buf p. signed_of 1 (be buf p 1)) r"
    "here r = 0xd1 \<Longrightarrow> int_value r = intAt 2 (\<lambda>buf p. signed_of 2 (be buf p 2)) r"
    "here r = 0xd2 \<Longrightarrow> int_value r = intAt 4 (\<lambda>buf p. signed_of 4 (be buf p 4)) r"
    "here r = 0xd3 \<Longrightarrow> int_value r = intAt 8 getInt64 r"
  using need1 [OF assms] by (simp_all add: int_value_def Let_def)

lemma reads_tiny: "uint b \<le> 0x7f \<Longrightarrow> reads int_value [b] (uint b)" "uint b \<ge> 0xe0 \<Longrightarrow> reads int_value [b] (uint b - 256)"
  by (rule reads_byte [OF _ reads_short(1)], simp add: int_value_at)+

lemma reads_wide:
  assumes "\<And>r. rd_ok r \<Longrightarrow> unread r \<noteq> [] \<Longrightarrow> here r = uint b \<Longrightarrow> int_value r = intAt n (\<lambda>buf p. conv (be buf p n)) r"
    "conv (v mod 256 ^ n) = v"
  shows "reads int_value (b # beBytes n v) v"
  by (rule reads_byte [OF assms(1)], assumption+, rule reads_intAt) (simp_all only: be_mod assms(2) length_beBytes)

lemma reads_eight:
  assumes "\<And>r. rd_ok r \<Longrightarrow> unread r \<noteq> [] \<Longrightarrow> here r = uint b \<Longrightarrow> int_value r = intAt 8 get r"
    "\<And>r rest. rd_ok r \<Longrightarrow> unread r = (b # beBytes 8 v) @ rest \<Longrightarrow> get (rd_buf r) (rd_pos r + 1) = v"
  shows "reads int_value (b # beBytes 8 v) v"
  by (rule reads_byte [OF assms(1)], assumption+, rule reads_intAt) (simp_all only: assms(2) length_beBytes)

lemma reads_unsigned:
  assumes "0 \<le> v"
  shows "v < 2 ^ 8 \<Longrightarrow> reads int_value (0xcc # beBytes 1 v) v" "v < 2 ^ 16 \<Longrightarrow> reads int_value (0xcd # beBytes 2 v) v"
    "v < 2 ^ 32 \<Longrightarrow> reads int_value (0xce # beBytes 4 v) v" "v < 2 ^ 53 \<Longrightarrow> reads int_value (0xcf # beBytes 8 v) v"
proof -
  note w = reads_wide [where conv = "\<lambda>x. x"]
  show "v < 2 ^ 8 \<Longrightarrow> reads int_value (0xcc # beBytes 1 v) v" by (rule w) (use int_value_at(3) assms in simp_all)
  show "v < 2 ^ 16 \<Longrightarrow> reads int_value (0xcd # beBytes 2 v) v" by (rule w) (use int_value_at(4) assms in simp_all)
  show "v < 2 ^ 32 \<Longrightarrow> reads int_value (0xce # beBytes 4 v) v" by (rule w) (use int_value_at(5) assms in simp_all)
  show "v < 2 ^ 53 \<Longrightarrow> reads int_value (0xcf # beBytes 8 v) v"
    by (rule reads_eight [where get = getUint64]) (simp add: int_value_at(6), rule getUint64_at, use assms in auto)
qed

lemma reads_signed:
  shows "- (2 ^ 7) \<le> v \<Longrightarrow> v < 2 ^ 7 \<Longrightarrow> reads int_value (0xd0 # beBytes 1 v) v"
    "- (2 ^ 15) \<le> v \<Longrightarrow> v < 2 ^ 15 \<Longrightarrow> reads int_value (0xd1 # beBytes 2 v) v"
    "- (2 ^ 31) \<le> v \<Longrightarrow> v < 2 ^ 31 \<Longrightarrow> reads int_value (0xd2 # beBytes 4 v) v"
    "\<bar>v\<bar> < 2 ^ 53 \<Longrightarrow> reads int_value (0xd3 # beBytes 8 v) v"
proof -
  show "- (2 ^ 7) \<le> v \<Longrightarrow> v < 2 ^ 7 \<Longrightarrow> reads int_value (0xd0 # beBytes 1 v) v"
    by (rule reads_wide [where conv = "signed_of 1"]) (use int_value_at(7) signed_mod in simp_all)
  show "- (2 ^ 15) \<le> v \<Longrightarrow> v < 2 ^ 15 \<Longrightarrow> reads int_value (0xd1 # beBytes 2 v) v"
    by (rule reads_wide [where conv = "signed_of 2"]) (use int_value_at(8) signed_mod in simp_all)
  show "- (2 ^ 31) \<le> v \<Longrightarrow> v < 2 ^ 31 \<Longrightarrow> reads int_value (0xd2 # beBytes 4 v) v"
    by (rule reads_wide [where conv = "signed_of 4"]) (use int_value_at(9) signed_mod in simp_all)
  show "\<bar>v\<bar> < 2 ^ 53 \<Longrightarrow> reads int_value (0xd3 # beBytes 8 v) v"
    by (rule reads_eight [where get = getInt64]) (simp add: int_value_at(10), rule getInt64_at, auto)
qed

lemma beBytes_1: "[byte v] = beBytes 1 v" "[b, byte v] = b # beBytes 1 v"
  by simp_all

lemma byte_lits: "byte 0xcc = 0xcc" "byte 0xcd = 0xcd" "byte 0xce = 0xce" "byte 0xcf = 0xcf"
  "byte 0xd0 = 0xd0" "byte 0xd1 = 0xd1" "byte 0xd2 = 0xd2" "byte 0xd3 = 0xd3"
  by (simp_all add: byte_def)

lemma reads_int [reading]:
  assumes "\<bar>v\<bar> < 2 ^ 53"
  shows "reads int_value (encInt v) v"
proof (cases "0 \<le> v")
  case True
  have "reads int_value [byte v] v" if "v < 2 ^ 7"
    using reads_tiny(1) [of "byte v"] that True by simp
  then show ?thesis
    using reads_unsigned [OF True] True assms
    by (simp add: encInt_def beBytes_1(2) byte_lits del: beBytes.simps)
next
  case False
  have "reads int_value [byte v] v" if "- (2 ^ 5) \<le> v"
  proof -
    have "(v + 256) mod 256 = v + 256" using that False by (intro mod_pos_pos_trivial) auto
    then have "v mod 256 = v + 256" by simp
    then show ?thesis using reads_tiny(2) [of "byte v"] that False by simp
  qed
  then show ?thesis
    using reads_signed [of v] False assms
    by (simp add: encInt_def beBytes_1(2) byte_lits del: beBytes.simps)
qed

lemma reads_bool [reading]: "reads bool (encBool v) v" "reads tryBool (encBool v) (Some v)"
proof -
  show "reads tryBool (encBool v) (Some v)"
    unfolding encBool_def by (rule reads_byte [OF _ reads_short(1)]) (cases v; simp add: tryBool_def need1)
  then show "reads bool (encBool v) v" unfolding bool_def by (rule reads_expecting)
qed

lemma reads_nil [reading]: "reads (\<lambda>r. andThen (nil r) (\<lambda>r1. Inr (v, r1))) [0xc0] v"
  by (rule reads_byte [OF _ reads_short(1)]) (simp add: nil_def need1)

lemma reads_float [reading]: "reads float (encFloat64 b) (ofBits b)"
  unfolding encFloat64_def
proof (rule readsI)
  fix r rest assume r: "rd_ok r" "unread r = (0xcb # beBytes 8 (uint b)) @ rest"
  have "here r = 0xcb" using here_unread [OF r(1)] r(2) by simp
  moreover have "need 9 r = Inr ()" "need 1 r = Inr ()" using r by (simp_all add: need_unread)
  moreover have "be (rd_buf r) (rd_pos r + 1) 8 = uint b"
    using be_mod [OF r] uint_lt2p [of b] by (simp add: mod_pos_pos_trivial)
  ultimately show "float r = Inr (ofBits b, advanceBy (length (0xcb # beBytes 8 (uint b))) r)"
    by (simp add: float_def Let_def)
qed

text \<open>A time: its seconds and nanoseconds are the milliseconds again.\<close>

lemma time_parts: "ms div 1000 * 1000 + ms mod 1000 * 1000000 div 1000000 = (ms :: int)"
  by simp

lemma time_type: "signed_of (Suc 0) 255 = -1" "uint (255 :: 8 word) = 255"
  by (simp_all add: signed_of_def)

lemma reads_four:
  assumes "0 \<le> sec" "sec < 2 ^ 32"
  shows "reads timestamp ([0xd6, 0xff] @ beBytes 4 sec) (mkDate (sec * 1000))"
proof (rule readsI)
  fix r rest assume r: "rd_ok r" "unread r = ([0xd6, 0xff] @ beBytes 4 sec) @ rest"
  then have u: "unread r = [0xd6, 0xff] @ beBytes 4 sec @ rest" by simp
  have t: "rd_buf r ! (rd_pos r + 1) = 0xff" using nth_unread [OF r(1), of "[0xd6]" _ _ 1] u by simp
  have b: "be (rd_buf r) (rd_pos r + 2) 4 = sec" using be_unread [OF r(1) u, of 2 4] assms by simp
  have "need 1 r = Inr ()" "need 6 r = Inr ()" "here r = 0xd6" using r u by (simp_all add: need_unread here_unread)
  then show "timestamp r = Inr (mkDate (sec * 1000), advanceBy (length ([0xd6, 0xff] @ beBytes 4 sec)) r)"
    using t b by (simp add: timestamp_def Let_def time_type advanceBy_def)
qed

lemma reads_eight_bytes:
  assumes "0 \<le> sec" "sec < 2 ^ 34" "0 \<le> nsec" "nsec \<le> 999999999"
  shows "reads timestamp ([0xd7, 0xff] @ beBytes 4 (nsec * 4 + sec div 2 ^ 32) @ beBytes 4 sec)
    (mkDate (sec * 1000 + nsec div 1000000))"
proof (rule readsI)
  define hi where "hi = nsec * 4 + sec div 2 ^ 32"
  fix r rest assume r: "rd_ok r" "unread r = ([0xd7, 0xff] @ beBytes 4 (nsec * 4 + sec div 2 ^ 32) @ beBytes 4 sec) @ rest"
  have s: "sec div 2 ^ 32 < 4" "0 \<le> sec div 2 ^ 32" using assms by auto
  have hb: "0 \<le> hi" "hi < 2 ^ 32" using assms s by (auto simp: hi_def)
  have h: "hi AND 3 = sec div 2 ^ 32" "drop_bit 2 hi = nsec"
    using s and_low [of hi 2] by (simp_all add: hi_def mask_nums drop_bit_int_def mod_add_eq [symmetric])
  have u: "unread r = [0xd7, 0xff] @ beBytes 4 hi @ beBytes 4 sec @ rest" using r(2) by (simp add: hi_def)
  then have u2: "unread r = ([0xd7, 0xff] @ beBytes 4 hi) @ beBytes 4 sec @ rest" by simp
  have t: "rd_buf r ! (rd_pos r + 1) = 0xff" using nth_unread [OF r(1), of "[0xd7]" _ _ 1] u by simp
  have b: "be (rd_buf r) (rd_pos r + 2) 4 = hi" using be_unread [OF r(1) u, of 2 4] hb by simp
  have b2: "be (rd_buf r) (rd_pos r + 6) 4 = sec mod 2 ^ 32" using be_unread [OF r(1) u2, of 6 4] by simp
  have "need 1 r = Inr ()" "need 10 r = Inr ()" "here r = 0xd7" using r u by (simp_all add: need_unread here_unread)
  moreover have "sec div 2 ^ 32 * 0x100000000 + sec mod 2 ^ 32 = sec" by simp
  ultimately show "timestamp r = Inr (mkDate (sec * 1000 + nsec div 1000000),
      advanceBy (length ([0xd7, 0xff] @ beBytes 4 (nsec * 4 + sec div 2 ^ 32) @ beBytes 4 sec)) r)"
    using t b b2 assms(3,4) h by (simp add: timestamp_def Let_def time_type advanceBy_def add.commute [of 6])
qed

lemma drop_exact: "length xs = n \<Longrightarrow> drop n (xs @ ys) = ys"
  by simp

lemma reads_twelve:
  assumes "\<bar>sec\<bar> < 2 ^ 53" "0 \<le> nsec" "nsec \<le> 999999999"
  shows "reads timestamp ([0xc7, 12, 0xff] @ beBytes 4 nsec @ beBytes 8 sec) (mkDate (sec * 1000 + nsec div 1000000))"
proof (rule readsI)
  fix r rest assume r: "rd_ok r" "unread r = ([0xc7, 12, 0xff] @ beBytes 4 nsec @ beBytes 8 sec) @ rest"
  then have u: "unread r = [0xc7, 12, 0xff] @ beBytes 4 nsec @ beBytes 8 sec @ rest" by simp
  have "beBytes 4 nsec = beBytes 3 (nsec div 256) @ [byte nsec]" using beBytes.simps(2) [of 3 nsec] by simp
  with u have "unread r = ([0xc7, 12, 0xff] @ beBytes 3 (nsec div 256)) @ (byte nsec # beBytes 8 sec) @ rest" by simp
  then have u2: "unread (advanceBy 6 r) = (byte nsec # beBytes 8 sec) @ rest"
    using drop_exact [of "[0xc7, 12, 0xff] @ beBytes 3 (nsec div 256)" 6] by (simp add: unread_advanceBy)
  have ok: "rd_ok (advanceBy 6 r)" using r u by (intro rd_ok_advanceBy) simp_all
  from getInt64_at [OF ok u2 assms(1)] have g: "getInt64 (rd_buf r) (rd_pos r + 7) = sec" by (simp add: add.commute)
  have t: "rd_buf r ! (rd_pos r + 2) = 0xff" "rd_buf r ! (rd_pos r + 1) = 12"
    using nth_unread [OF r(1), of "[0xc7, 12]" _ _ 2] nth_unread [OF r(1), of "[0xc7]" _ _ 1] u by simp_all
  have b: "be (rd_buf r) (Suc (Suc (Suc (rd_pos r)))) 4 = nsec"
    using be_unread [OF r(1) u, of 3 4] assms(2,3) by (simp add: numeral_3_eq_3)
  have "need 1 r = Inr ()" "need 2 r = Inr ()" "need 15 r = Inr ()" "here r = 0xc7"
    using r u by (simp_all add: need_unread here_unread)
  then show "timestamp r = Inr (mkDate (sec * 1000 + nsec div 1000000),
      advanceBy (length ([0xc7, 12, 0xff] @ beBytes 4 nsec @ beBytes 8 sec)) r)"
    using t b g assms(2,3)
    by (simp add: timestamp_def Let_def time_type advanceBy_def add.commute [of 7] numeral_2_eq_2 [symmetric])
qed

lemma reads_time:
  assumes "\<bar>ms\<bar> \<le> 8640000000000000"
  shows "reads timestamp (encTime ms) (Some ms)"
proof -
  define sec nsec where "sec = ms div 1000" and "nsec = ms mod 1000 * 1000000"
  have ms: "mkDate (sec * 1000 + nsec div 1000000) = Some ms"
    using assms by (simp add: sec_def nsec_def mkDate_def)
  have "0 \<le> nsec" "nsec \<le> 999999999" using pos_mod_bound [of 1000 ms] by (simp_all add: nsec_def)
  moreover have "\<bar>sec\<bar> < 2 ^ 53" using assms by (auto simp: sec_def)
  moreover have "encTime ms = (if 0 \<le> sec \<and> sec < 2 ^ 34 then
        if nsec = 0 \<and> sec < 2 ^ 32 then [0xd6, 0xff] @ beBytes 4 sec
        else [0xd7, 0xff] @ beBytes 4 (nsec * 4 + sec div 2 ^ 32) @ beBytes 4 sec
      else [0xc7, 12, 0xff] @ beBytes 4 nsec @ beBytes 8 sec)"
    unfolding encTime_def Let_def sec_def nsec_def by (rule refl)
  ultimately show ?thesis
    using reads_four [of sec] reads_eight_bytes [of sec nsec] reads_twelve [of sec nsec] ms by (auto split: if_splits)
qed

text \<open>An invalid Date reads back as time zero.\<close>

definition normDate :: "int option \<Rightarrow> int option" where
  "normDate d = Some (case d of None \<Rightarrow> 0 | Some ms \<Rightarrow> ms)"

lemma reads_timestamp [reading]:
  "case_option True (\<lambda>ms. \<bar>ms\<bar> \<le> 8640000000000000) d \<Longrightarrow> reads timestamp (encTimestamp d) (normDate d)"
proof (cases d)
  case None
  have "beBytes 12 0 = beBytes 4 0 @ beBytes 8 0" using beBytes_split [of 4 8 0] by simp
  then show ?thesis using reads_twelve [of 0 0] by (simp add: None encTimestamp_def normDate_def mkDate_def)
qed (simp add: encTimestamp_def normDate_def reads_time)

text \<open>Bytes and their count.\<close>

lemma reads_take:
  "reads (\<lambda>r. andThen (need (length b) r) (\<lambda>_. Inr (take (length b) (drop (rd_pos r) (rd_buf r)), advanceBy (length b) r))) b b"
  by (rule readsI) (simp add: need_unread buf_unread)

lemma reads_bin [reading]:
  assumes "length b < 2 ^ 32"
  shows "reads bin (encBin b) b"
proof -
  define g where "g n r = andThen (need n r) (\<lambda>_. Inr (take n (drop (rd_pos r) (rd_buf r)), advanceBy n r))" for n and r :: reader
  have t: "reads (g (length b)) b b" unfolding g_def by (rule reads_take)
  have bin: "bin r = andThen (lengthAt w r) (\<lambda>(n, r1). g n r1)"
    if "rd_ok r" "unread r \<noteq> []" "here r = c" "c = 0xc4 \<and> w = 1 \<or> c = 0xc5 \<and> w = 2 \<or> c = 0xc6 \<and> w = 4" for r c w
    using that by (auto simp: bin_def g_def need1 Let_def)
  have step: "reads bin ((c # beBytes w (int (length b))) @ b) b"
    if "int (length b) < 256 ^ w" "uint c = 0xc4 \<and> w = 1 \<or> uint c = 0xc5 \<and> w = 2 \<or> uint c = 0xc6 \<and> w = 4" for c w
  proof -
    have r: "reads (\<lambda>r. andThen (lengthAt w r) (\<lambda>(n, r1). g n r1)) (c # beBytes w (int (length b)) @ b) b"
      using reads_bind [where g = g, OF reads_lengthAt [OF that(1), of c] t] by simp
    have "reads bin (c # beBytes w (int (length b)) @ b) b"
      by (rule reads_byte [OF _ r], rule bin) (use that(2) in auto)
    then show ?thesis by simp
  qed
  consider "length b < 2 ^ 8" | "2 ^ 8 \<le> length b" "length b < 2 ^ 16" | "2 ^ 16 \<le> length b" by fastforce
  then show ?thesis
  proof cases
    case 1
    then show ?thesis using step [of 1 "0xc4"] by (simp add: encBin_def Let_def)
  next
    case 2
    then show ?thesis using step [of 2 "0xc5"] by (simp add: encBin_def Let_def)
  next
    case 3
    then show ?thesis using step [of 4 "0xc6"] assms by (simp add: encBin_def Let_def)
  qed
qed

end
