(* ===== verification/MsgpackRound.thy ===== *)
theory MsgpackRound
  imports MsgpackRead
begin

text \<open>
  Round trips: what \<open>encodeAny\<close> writes, \<open>decodeAny\<close> reads back, up to what msgpack does not keep
  (\<open>undefined\<close>, an invalid Date, -0); and the interface \<open>codec\<close>, whose consequences hold for every
  kind of value.
\<close>

section \<open>The codec interface\<close>

fun readMany :: "(reader \<Rightarrow> msg_error + ('a \<times> reader)) \<Rightarrow> nat \<Rightarrow> reader \<Rightarrow> msg_error + ('a list \<times> reader)" where
  "readMany f 0 r = Inr ([], r)"
| "readMany f (Suc n) r = andThen (f r) (\<lambda>(x, r1). andThen (readMany f n r1) (\<lambda>(xs, r2). Inr (x # xs, r2)))"

lemma unread_newReader [simp]: "rd_ok (newReader bs)" "unread (newReader bs) = bs"
  by (simp_all add: newReader_def rd_ok_def unread_def)

locale codec =
  fixes encode :: "'a \<Rightarrow> bytes"
    and decode :: "reader \<Rightarrow> msg_error + ('a \<times> reader)"
    and sound :: "'a \<Rightarrow> bool"
  assumes reads_back: "sound v \<Longrightarrow> reads decode (encode v) v"
begin

lemma reads_list: "\<forall>v \<in> set vs. sound v \<Longrightarrow> reads (readMany decode (length vs)) (concat (map encode vs)) vs"
proof (induction vs)
  case Nil
  show ?case by (simp add: reads_def)
next
  case (Cons v vs)
  have "reads (\<lambda>r. andThen (readMany decode (length vs) r) (\<lambda>(xs, r2). Inr (v # xs, r2))) (concat (map encode vs) @ []) (v # vs)"
    by (rule reads_bind [where g = "\<lambda>xs r. Inr (v # xs, r)"]) (use Cons reads_pure in auto)
  then have "reads (\<lambda>r. andThen (readMany decode (length vs) r) (\<lambda>(xs, r2). Inr (v # xs, r2))) (concat (map encode vs)) (v # vs)"
    by simp
  from reads_bind [where g = "\<lambda>x r. andThen (readMany decode (length vs) r) (\<lambda>(xs, r2). Inr (x # xs, r2))", OF reads_back this]
  show ?case using Cons.prems by simp
qed

lemma decode_buffer: "sound v \<Longrightarrow> decode (newReader (encode v)) = Inr (v, advanceBy (length (encode v)) (newReader (encode v)))"
  using readsD [OF reads_back, of v "newReader (encode v)" "[]"] by simp

text \<open>No form is a prefix of another, so a stream of values reads one way only.\<close>

lemma unique_decoding:
  assumes "sound v" "sound w" "encode v @ bs = encode w @ cs"
  shows "v = w \<and> bs = cs"
proof -
  let ?r = "newReader (encode v @ bs)"
  have "decode ?r = Inr (v, advanceBy (length (encode v)) ?r)" "decode ?r = Inr (w, advanceBy (length (encode w)) ?r)"
    using readsD [OF reads_back [OF assms(1)], of ?r bs] readsD [OF reads_back [OF assms(2)], of ?r cs] assms(3) by simp_all
  then show ?thesis using assms(3) by simp
qed

end

interpretation texts: codec encStr str "\<lambda>s. keepsText s \<and> utf8Count s < 2 ^ 32"
  by unfold_locales (simp add: reads_str)

interpretation ints: codec encInt int_value "\<lambda>v. \<bar>v\<bar> < 2 ^ 53"
  by unfold_locales (simp add: reads_int)

interpretation times: codec encTimestamp timestamp "\<lambda>d. \<exists>ms. d = Some ms \<and> \<bar>ms\<bar> \<le> 8640000000000000"
  by unfold_locales (auto simp: encTimestamp_def reads_time)

section \<open>What is read back\<close>

definition normNum :: "jnum \<Rightarrow> jnum" where
  "normNum v =
     (case v of IntN i \<Rightarrow> if \<bar>i\<bar> < 2 ^ 53 then IntN i else ofBits (roundInt i)
      | F64 b \<Rightarrow> if b = minus_zero then IntN 0 else ofBits b)"

fun norm :: "jval \<Rightarrow> jval" and normItems :: "jval list \<Rightarrow> jval list"
  and normEntries :: "(jsstr \<times> jval) list \<Rightarrow> (jsstr \<times> jval) list" where
  "norm NullV = NullV"
| "norm UndefV = NullV"
| "norm (BoolV b) = BoolV b"
| "norm (NumV n) = NumV (normNum n)"
| "norm (StrV s) = StrV s"
| "norm (DateV d) = DateV (normDate d)"
| "norm (ArrV xs) = ArrV (normItems xs)"
| "norm (ObjV es) = ObjV (normEntries es)"
| "norm NoFormV = NoFormV"
| "normItems [] = []"
| "normItems (x # xs) = norm x # normItems xs"
| "normEntries [] = []"
| "normEntries ((k, x) # es) = (if x = UndefV then [] else [(k, norm x)]) @ normEntries es"

text \<open>The order JavaScript keeps an object's properties in: array indices first, ascending.\<close>

definition keyBefore :: "jsstr \<Rightarrow> jsstr \<Rightarrow> bool" where
  "keyBefore a b = (a \<noteq> b \<and>
     (case arrayIndex b of None \<Rightarrow> True | Some j \<Rightarrow> (case arrayIndex a of None \<Rightarrow> False | Some i \<Rightarrow> i < j)))"

abbreviation propsOrdered :: "(jsstr \<times> jval) list \<Rightarrow> bool" where
  "propsOrdered es \<equiv> sorted_wrt keyBefore (map fst es)"

abbreviation keyFits :: "jsstr \<Rightarrow> bool" where "keyFits k \<equiv> keepsText k \<and> utf8Count k < 2 ^ 32"

text \<open>Values JavaScript can hold, with texts that decode as they were encoded and counts of 32 bits.\<close>

fun sendable :: "jval \<Rightarrow> bool" and sendableItems :: "jval list \<Rightarrow> bool" and sendableEntries :: "(jsstr \<times> jval) list \<Rightarrow> bool" where
  "sendable (StrV s) = keyFits s"
| "sendable (DateV d) = case_option True (\<lambda>ms. \<bar>ms\<bar> \<le> 8640000000000000) d"
| "sendable (ArrV xs) = (length xs < 2 ^ 32 \<and> sendableItems xs)"
| "sendable (ObjV es) = (length es < 2 ^ 32 \<and> propsOrdered es \<and> sendableEntries es)"
| "sendable v = True"
| "sendableItems [] = True"
| "sendableItems (x # xs) = (sendable x \<and> sendableItems xs)"
| "sendableEntries [] = True"
| "sendableEntries ((k, x) # es) = (keyFits k \<and> sendable x \<and> sendableEntries es)"

lemma keyFits_small: "keepsText s \<and> utf8Count s < 200 \<Longrightarrow> keyFits s"
  by simp

lemma setEntry_last:
  assumes "\<forall>a \<in> set (map fst out). keyBefore a k"
  shows "setEntry out k x = out @ [(k, x)]"
proof -
  have "k \<notin> fst ` set out" using assms by (auto simp: keyBefore_def)
  moreover have "indexBelow i (fst e)" if "arrayIndex k = Some i" "e \<in> set out" for i e
    using assms that by (auto simp: keyBefore_def indexBelow_def split: option.splits)
  ultimately show ?thesis
    by (auto simp: setEntry_def takeWhile_eq_all_conv [THEN iffD2] dropWhile_eq_Nil_conv [THEN iffD2] split: option.split)
qed

text \<open>\<open>setEntry\<close> keeps the order of properties, and sets the one it is given.\<close>

lemma keyBefore_trans: "keyBefore a b \<Longrightarrow> keyBefore b c \<Longrightarrow> a \<noteq> c \<Longrightarrow> keyBefore a c"
  by (auto simp: keyBefore_def split: option.splits)

lemma updated_keys: "k \<in> fst ` set es \<Longrightarrow> map fst (AList.update k x es) = map fst es"
  by (induction es) (auto simp: rev_image_eqI)

lemma arrayIndex_inj: "arrayIndex a = Some i \<Longrightarrow> arrayIndex b = Some i \<Longrightarrow> a = b"
  by (auto simp: arrayIndex_def split: if_splits)

lemma map_of_insert: "k \<notin> fst ` set xs \<Longrightarrow> map_of (xs @ (k, x) # ys) = (map_of (xs @ ys))(k \<mapsto> x)"
  by (induction xs) (auto simp: fun_upd_twist)

lemma setEntry_ordered:
  assumes "propsOrdered out"
  shows "propsOrdered (setEntry out k x)" "set (map fst (setEntry out k x)) = insert k (set (map fst out))"
    "map_of (setEntry out k x) = (map_of out)(k \<mapsto> x)"
proof -
  have "propsOrdered (setEntry out k x) \<and> set (map fst (setEntry out k x)) = insert k (set (map fst out)) \<and>
    map_of (setEntry out k x) = (map_of out)(k \<mapsto> x)"
  proof (cases "k \<in> fst ` set out")
    case True
    then show ?thesis using assms by (simp add: setEntry_def updated_keys insert_absorb AList.update_conv')
  next
    case new: False
    show ?thesis
    proof (cases "arrayIndex k")
      case None
      then have "\<forall>a \<in> set (map fst out). keyBefore a k" using new by (auto simp: keyBefore_def)
      then show ?thesis using assms None new
        by (auto simp: setEntry_def sorted_wrt_append map_add_def map_of_eq_None_iff[THEN iffD2] fun_eq_iff
            split: option.split)
    next
      case (Some i)
      let ?P = "indexBelow i \<circ> fst"
      have s: "sorted_wrt (\<lambda>a b. keyBefore (fst a) (fst b)) out" using assms by (simp add: sorted_wrt_map)
      have down: "?P b \<Longrightarrow> ?P a" if "keyBefore (fst a) (fst b)" for a b :: "jsstr \<times> jval"
        using that by (auto simp: keyBefore_def indexBelow_def split: option.splits)
      have e: "setEntry out k x = filter ?P out @ (k, x) # filter (\<lambda>a. \<not> ?P a) out"
        using dropWhile_sorted [OF s, of ?P] down new Some by (simp add: setEntry_def)
      have before: "keyBefore (fst a) k" if "a \<in> set out" "?P a" for a
        using that Some by (auto simp: keyBefore_def indexBelow_def split: option.splits)
      have after: "keyBefore k (fst b)" if "b \<in> set out" "\<not> ?P b" for b
        using that Some new arrayIndex_inj [of k i "fst b"]
        by (auto simp: keyBefore_def indexBelow_def image_iff split: option.splits) (metis fst_conv linorder_neqE_nat)+
      have across: "keyBefore (fst a) (fst b)" if "a \<in> set out" "?P a" "b \<in> set out" "\<not> ?P b" for a b
        using that by (auto simp: keyBefore_def indexBelow_def split: option.splits)
      have "propsOrdered (setEntry out k x)"
        unfolding e sorted_wrt_map sorted_wrt_append using s before after across
        by (auto simp: sorted_wrt_filter)
      moreover have "map_of (setEntry out k x) = (map_of out)(k \<mapsto> x)"
      proof -
        have "filter ?P out @ filter (\<lambda>a. \<not> ?P a) out = out"
          using dropWhile_sorted [OF s, of ?P] down by (metis takeWhile_dropWhile_id)
        moreover have "k \<notin> fst ` set (filter ?P out)" using new by auto
        ultimately show ?thesis unfolding e using map_of_insert [of k "filter ?P out" x "filter (\<lambda>a. \<not> ?P a) out"] by simp
      qed
      moreover have "set (map fst (setEntry out k x)) = insert k (set (map fst out))" unfolding e by auto
      ultimately show ?thesis by blast
    qed
  qed
  then show "propsOrdered (setEntry out k x)" "set (map fst (setEntry out k x)) = insert k (set (map fst out))"
    "map_of (setEntry out k x) = (map_of out)(k \<mapsto> x)" by blast+
qed

section \<open>The round trip\<close>

lemma normEntries_keys: "set (map fst (normEntries es)) \<subseteq> set (map fst es)"
  "propsOrdered es \<Longrightarrow> propsOrdered (normEntries es)"
proof -
  have a: "p \<in> set (normEntries es) \<Longrightarrow> fst p \<in> fst ` set es" for p es
    by (induction es) (auto split: if_splits)
  then show "set (map fst (normEntries es)) \<subseteq> set (map fst es)" by auto
  show "propsOrdered es \<Longrightarrow> propsOrdered (normEntries es)"
    by (induction es) (fastforce dest!: a split: if_splits)+
qed

text \<open>The first byte tells the kind.\<close>

lemma kindAt_here: "rd_ok r \<Longrightarrow> unread r \<noteq> [] \<Longrightarrow>
    kindAt r = (case kindOf (here r) of None \<Rightarrow> Inl (InvalidByte (here r) (rd_pos r)) | Some k \<Rightarrow> Inr k)"
  by (simp add: kindAt_def need1)

definition startsKind :: "bytes \<Rightarrow> kind \<Rightarrow> bool" where
  "startsKind bs k = (bs \<noteq> [] \<and> kindOf (uint (hd bs)) = Some k)"

lemma kindAt_starts: "startsKind bs k \<Longrightarrow> rd_ok r \<Longrightarrow> unread r = bs @ rest \<Longrightarrow> kindAt r = Inr k"
  by (cases bs) (auto simp: startsKind_def kindAt_here here_unread)

lemma starts_append: "startsKind bs k \<Longrightarrow> startsKind (bs @ cs) k"
  by (simp add: startsKind_def)

lemma starts_simple: "startsKind [0xc0] NilK" "startsKind (encBool b) BoolK" "startsKind (encFloat64 w) FloatK"
  by (simp_all add: startsKind_def kindOf_def encBool_def encFloat64_def)

lemma starts_str: "startsKind (encStr s) StrK"
proof -
  have "(160 + int n) mod 256 = 160 + int n" if "n < 32" for n using that by simp
  then show ?thesis
    by (auto simp: startsKind_def kindOf_def encStr_def Let_def)
qed

lemma starts_int: "startsKind (encInt v) IntK"
proof -
  have "v mod 256 = v" if "0 \<le> v" "v < 128" using that by simp
  moreover have "224 \<le> v mod 256" if "v < 0" "- 32 \<le> v"
  proof -
    have "(v + 256) mod 256 = v + 256" using that by (intro mod_pos_pos_trivial) auto
    then show ?thesis using that by simp
  qed
  ultimately show ?thesis
    by (cases "0 \<le> v") (simp_all add: startsKind_def kindOf_def encInt_def)
qed

lemma starts_time: "startsKind (encTimestamp d) ExtK"
proof (cases d)
  case (Some ms)
  have "encTime ms \<noteq> [] \<and> hd (encTime ms) \<in> {0xd6, 0xd7, 0xc7}" by (simp add: encTime_def Let_def)
  then show ?thesis by (auto simp: startsKind_def kindOf_def encTimestamp_def Some)
qed (simp add: startsKind_def kindOf_def encTimestamp_def)

lemma starts_header: "startsKind (encHeader n 0x90 0xdc) ArrayK" "startsKind (encHeader n 0x80 0xde) MapK"
proof -
  have "(144 + int n) mod 256 = 144 + int n" "(128 + int n) mod 256 = 128 + int n" if "n < 16" using that by simp_all
  then show "startsKind (encHeader n 0x90 0xdc) ArrayK" "startsKind (encHeader n 0x80 0xde) MapK"
    by (auto simp: startsKind_def kindOf_def encHeader_def)
qed

declare readAny.simps [simp del]

lemma reads_kind:
  assumes "d \<le> MAX_DEPTH" "startsKind bs k" "reads f bs v"
    "\<And>r. kindAt r = Inr k \<Longrightarrow> readAny d r = f r"
  shows "reads (readAny d) bs v"
  using assms kindAt_starts [OF assms(2)] by (intro reads_eq [OF assms(3)]) simp

lemma count_entries: "length (filter (\<lambda>(k, x). x \<noteq> UndefV) es) = length (normEntries es)"
  by (induction es) auto

lemma any_at: "d \<le> MAX_DEPTH \<Longrightarrow> kindAt r = Inr k \<Longrightarrow> readAny d r =
    (case k of
       NilK \<Rightarrow> andThen (nil r) (\<lambda>r1. Inr (NullV, r1))
     | BoolK \<Rightarrow> map_sum id (map_prod BoolV id) (bool r)
     | IntK \<Rightarrow> map_sum id (map_prod (NumV \<circ> ofInt) id) (int_value r)
     | FloatK \<Rightarrow> map_sum id (map_prod NumV id) (float r)
     | StrK \<Rightarrow> map_sum id (map_prod StrV id) (str r)
     | ExtK \<Rightarrow> map_sum id (map_prod DateV id) (timestamp r)
     | ArrayK \<Rightarrow> andThen (arrayHeader r) (\<lambda>(n, r1). map_sum id (map_prod ArrV id) (readItems (d + 1) n r1))
     | MapK \<Rightarrow> andThen (mapHeader r) (\<lambda>(n, r1). map_sum id (map_prod ObjV id) (readEntries (d + 1) n [] r1))
     | BinK \<Rightarrow> Inl BinValue)"
  by (subst readAny.simps) (simp split: kind.split)

lemma reads_number:
  assumes "d \<le> MAX_DEPTH"
  shows "reads (readAny d) (encNumber n) (NumV (normNum n))"
proof -
  have f: "reads (readAny d) (encFloat64 b) (NumV (ofBits b))" for b
    by (rule reads_kind [OF assms starts_simple(3) reads_map [OF reads_float]]) (simp add: any_at assms)
  have i: "reads (readAny d) (encInt i) (NumV (IntN i))" if "\<bar>i\<bar> < 2 ^ 53" for i
  proof -
    have "reads int_value (encInt i) i" using that by (intro reads_int) auto
    then have "reads (\<lambda>r. map_sum id (map_prod (NumV \<circ> ofInt) id) (int_value r)) (encInt i) ((NumV \<circ> ofInt) i)"
      by (rule reads_map)
    moreover have "ofInt i = IntN i" using that by (simp add: ofInt_def)
    ultimately show ?thesis by (intro reads_kind [OF assms starts_int]) (simp_all add: any_at assms)
  qed
  show ?thesis
    using f i i [of 0] by (cases n) (simp_all add: encNumber_def normNum_def)
qed

lemma reads_string: "reads str (encStr s) t \<Longrightarrow> d \<le> MAX_DEPTH \<Longrightarrow> reads (readAny d) (encStr s) (StrV t)"
  by (rule reads_kind [OF _ starts_str reads_map]) (simp_all add: any_at)

lemma any_node:
  assumes "writable d v"
  shows "d \<le> MAX_DEPTH"
  using assms by (simp add: writable.simps MAX_DEPTH_def)

lemma reads_any:
  "writable d v \<Longrightarrow> sendable v \<Longrightarrow> reads (readAny d) (enc v) (norm v)"
  "writableItems d xs \<Longrightarrow> sendableItems xs \<Longrightarrow> reads (readItems d (length xs)) (encItems xs) (normItems xs)"
  "writableEntries d es \<Longrightarrow> sendableEntries es \<Longrightarrow> propsOrdered (out @ normEntries es) \<Longrightarrow>
    reads (readEntries d (length (normEntries es)) out) (encEntries es) (out @ normEntries es)"
proof (induction v and xs and es arbitrary: d and d and d out rule: enc_encItems_encEntries.induct)
  case 1
  note d = any_node [OF 1(1)]
  show ?case unfolding enc.simps norm.simps by (rule reads_kind [OF d starts_simple(1) reads_nil]) (simp add: any_at d)
next
  case 2
  note d = any_node [OF 2(1)]
  show ?case unfolding enc.simps norm.simps by (rule reads_kind [OF d starts_simple(1) reads_nil]) (simp add: any_at d)
next
  case (3 b)
  note d = any_node [OF 3(1)]
  show ?case unfolding enc.simps norm.simps
    by (rule reads_kind [OF d starts_simple(2) reads_map [OF reads_bool(1)]]) (simp add: any_at d)
next
  case (4 n)
  show ?case using reads_number [OF any_node [OF 4(1)]] by simp
next
  case (5 s)
  note d = any_node [OF 5(1)]
  show ?case using 5(2) reads_string [OF reads_str d] by simp
next
  case (6 t)
  note d = any_node [OF 6(1)]
  have "reads timestamp (encTimestamp t) (normDate t)" using 6(2) by (intro reads_timestamp) simp
  then show ?case unfolding enc.simps norm.simps
    by (intro reads_kind [OF d starts_time reads_map]) (simp_all add: any_at d)
next
  case (7 xs)
  note d = any_node [OF 7(2)]
  have "writableItems (d + 1) xs" "sendableItems xs" "length xs < 2 ^ 32" using 7(2,3) by (simp_all add: writable.simps)
  note r = reads_bind [where g = "\<lambda>n r. map_sum id (map_prod ArrV id) (readItems (d + 1) n r)",
      OF reads_arrayHeader [OF this(3)] reads_map [OF 7(1) [OF this(1,2)]]]
  show ?case unfolding enc.simps norm.simps
    by (rule reads_kind [OF d starts_append [OF starts_header(1)] r]) (simp add: any_at d)
next
  case (8 es)
  note d = any_node [OF 8(2)]
  have es: "writableEntries (d + 1) es" "sendableEntries es" "length es < 2 ^ 32" "propsOrdered ([] @ normEntries es)"
    using 8(2,3) normEntries_keys(2) by (simp_all add: writable.simps)
  have "length (normEntries es) \<le> length es" unfolding count_entries [symmetric] by (rule length_filter_le)
  then have n: "length (normEntries es) < 2 ^ 32" using es(3) by simp
  note r = reads_bind [where g = "\<lambda>n r. map_sum id (map_prod ObjV id) (readEntries (d + 1) n [] r)",
      OF reads_mapHeader [OF n] reads_map [OF 8(1) [OF es(1,2,4)]]]
  show ?case unfolding enc.simps norm.simps count_entries
    by (rule reads_kind [OF d starts_append [OF starts_header(2)] r [simplified]]) (simp add: any_at d)
next
  case 9
  then show ?case by (simp add: writable.simps)
next
  case 10
  show ?case by (simp add: reads_pure)
next
  case (11 x xs)
  have x: "reads (readAny d) (enc x) (norm x)" "reads (readItems d (length xs)) (encItems xs) (normItems xs)"
    using 11 by simp_all
  have "reads (\<lambda>r. andThen (readItems d (length xs) r) (\<lambda>(xs, r2). Inr (norm x # xs, r2))) (encItems xs @ []) (norm x # normItems xs)"
    by (rule reads_bind [OF x(2) reads_pure])
  then have "reads (\<lambda>r. andThen (readItems d (length xs) r) (\<lambda>(xs, r2). Inr (norm x # xs, r2))) (encItems xs) (norm x # normItems xs)"
    by simp
  from reads_bind [where g = "\<lambda>x r. andThen (readItems d (length xs) r) (\<lambda>(xs, r2). Inr (x # xs, r2))", OF x(1) this]
  show ?case by simp
next
  case 12
  show ?case by (simp add: reads_pure)
next
  case (13 k x es)
  show ?case
  proof (cases "x = UndefV")
    case True
    then show ?thesis using 13 by simp
  next
    case False
    have x: "reads (readAny d) (enc x) (norm x)" using 13(1) [OF False, of d] 13(3,4) False by simp
    have o: "setEntry out k (norm x) = out @ [(k, norm x)]"
      using 13(5) False by (intro setEntry_last) (auto simp: sorted_wrt_append)
    have "reads (readEntries d (length (normEntries es)) (setEntry out k (norm x))) (encEntries es) (out @ (k, norm x) # normEntries es)"
      using 13(2) [of d "out @ [(k, norm x)]"] 13(3-5) False o by simp
    from reads_bind [where g = "\<lambda>y r. readEntries d (length (normEntries es)) (setEntry out k y) r", OF x this]
    have "reads (\<lambda>r1. andThen (readAny d r1) (\<lambda>(y, r2). readEntries d (length (normEntries es)) (setEntry out k y) r2))
      (enc x @ encEntries es) (out @ (k, norm x) # normEntries es)" .
    moreover have "reads tryStr (encStr k) (Some k)" using 13(4) False by (intro reads_tryStr) simp_all
    ultimately show ?thesis
      using reads_bind [where g = "\<lambda>key r1. case key of None \<Rightarrow> Inl KeyNotString
         | Some k \<Rightarrow> andThen (readAny d r1) (\<lambda>(y, r2). readEntries d (length (normEntries es)) (setEntry out k y) r2)"]
        False by simp
  qed
qed

text \<open>Whole buffers: what was encoded is read back, and nothing may follow it.\<close>

lemma readAny_enc:
  assumes "writable 0 v" "sendable v"
  shows "readAny 0 (newReader (enc v @ rest)) = Inr (norm v, advanceBy (length (enc v)) (newReader (enc v @ rest)))"
  by (rule readsD [OF reads_any(1) [OF assms]]) simp_all

lemma done_after: "done_reader (advanceBy (length bs) (newReader (bs @ rest))) \<longleftrightarrow> rest = []"
  by (simp add: done_reader_def newReader_def)

lemma decodeAny_enc:
  assumes "writable 0 v" "sendable v"
  shows "decodeAny (enc v @ rest) = (if rest = [] then Inr (norm v) else Inl TrailingBytes)"
  using readAny_enc [OF assms, of rest] by (simp add: decodeAny_def done_after)

end
