(* ===== verification/MsgpackSkip.thy ===== *)
theory MsgpackSkip
  imports MsgpackRound
begin

text \<open>
  \<open>measure\<close> and the typed reads agree: whatever bytes a reader is on, a value it can decode ends where
  \<open>measure\<close> says, so \<open>skip\<close>, \<open>view\<close> and \<open>raw\<close> step over exactly what \<open>any\<close> reads.
\<close>

declare measureLoop.simps [simp del]

text \<open>k bytes ahead turn a pending values into b.\<close>

definition spans :: "reader \<Rightarrow> nat \<Rightarrow> nat \<Rightarrow> nat \<Rightarrow> bool" where
  "spans r k a b = (rd_pos r + k \<le> rd_end r \<and>
     (\<forall>p. measureLoop (rd_buf r) (rd_end r) (rd_pos r) (a + p) = measureLoop (rd_buf r) (rd_end r) (rd_pos r + k) (b + p)))"

lemma spans_refl: "rd_ok r \<Longrightarrow> spans r 0 a a"
  by (simp add: spans_def rd_ok_def)

lemma spans_more: "spans r k a b \<Longrightarrow> spans r k (a + c) (b + c)"
  by (simp add: spans_def add.assoc)

lemma spans_trans: "spans r k a b \<Longrightarrow> spans (advanceBy k r) l b c \<Longrightarrow> spans r (k + l) a c"
  by (simp add: spans_def add.assoc)

lemma spans_ok: "rd_ok r \<Longrightarrow> spans r k a b \<Longrightarrow> rd_ok (advanceBy k r)"
  by (simp add: spans_def rd_ok_def)

lemma spans_step:
  assumes "rd_pos r < rd_end r" "shapeOf (here r) = Some sh" "sh_lenBytes sh = 0 \<or> rd_pos r + 1 + sh_lenBytes sh \<le> rd_end r"
    "extentOf sh (nat (be (rd_buf r) (rd_pos r + 1) (sh_lenBytes sh))) = (k, b)" "rd_pos r + k \<le> rd_end r"
  shows "spans r k 1 b"
  unfolding spans_def
proof (intro conjI allI assms(5))
  fix p
  show "measureLoop (rd_buf r) (rd_end r) (rd_pos r) (1 + p) = measureLoop (rd_buf r) (rd_end r) (rd_pos r + k) (b + p)"
    using assms by (subst measureLoop.simps) (auto simp: here_def add.commute)
qed

lemma need_ok: "need n r = Inr u \<longleftrightarrow> rd_pos r + n \<le> rd_end r"
  by (simp add: need_def)

lemma need_then: "andThen (need n r) f = Inr x \<longleftrightarrow> rd_pos r + n \<le> rd_end r \<and> f () = Inr x"
  by (simp add: need_def)

lemma map_sum_Inr: "map_sum id f x = Inr y \<longleftrightarrow> (\<exists>z. x = Inr z \<and> y = f z)"
  by (cases x) auto

lemmas inverts = need_then andThen_eq_Inr map_sum_Inr need_ok

text \<open>The shapes of the headers, and the step each makes.\<close>

lemma shape_small: "b \<le> 0x7f \<or> 0xe0 \<le> b \<Longrightarrow> shapeOf b = Some shape0"
  "0x80 \<le> b \<Longrightarrow> b \<le> 0x8f \<Longrightarrow> shapeOf b = Some (shape0\<lparr>sh_children := nat (b AND 0x0f) * 2\<rparr>)"
  "0x90 \<le> b \<Longrightarrow> b \<le> 0x9f \<Longrightarrow> shapeOf b = Some (shape0\<lparr>sh_children := nat (b AND 0x0f)\<rparr>)"
  "0xa0 \<le> b \<Longrightarrow> b \<le> 0xbf \<Longrightarrow> shapeOf b = Some (shape0\<lparr>sh_payload := nat (b AND 0x1f)\<rparr>)"
  by (auto simp: shapeOf_def)

lemma shape_code:
  "shapeOf 0xc0 = Some shape0" "shapeOf 0xc2 = Some shape0" "shapeOf 0xc3 = Some shape0"
  "shapeOf 0xca = Some (shape0\<lparr>sh_payload := 4\<rparr>)" "shapeOf 0xcb = Some (shape0\<lparr>sh_payload := 8\<rparr>)"
  "shapeOf 0xcc = Some (shape0\<lparr>sh_payload := 1\<rparr>)" "shapeOf 0xcd = Some (shape0\<lparr>sh_payload := 2\<rparr>)"
  "shapeOf 0xce = Some (shape0\<lparr>sh_payload := 4\<rparr>)" "shapeOf 0xcf = Some (shape0\<lparr>sh_payload := 8\<rparr>)"
  "shapeOf 0xd0 = Some (shape0\<lparr>sh_payload := 1\<rparr>)" "shapeOf 0xd1 = Some (shape0\<lparr>sh_payload := 2\<rparr>)"
  "shapeOf 0xd2 = Some (shape0\<lparr>sh_payload := 4\<rparr>)" "shapeOf 0xd3 = Some (shape0\<lparr>sh_payload := 8\<rparr>)"
  "shapeOf 0xd6 = Some (shape0\<lparr>sh_payload := 5\<rparr>)" "shapeOf 0xd7 = Some (shape0\<lparr>sh_payload := 9\<rparr>)"
  "shapeOf 0xc7 = Some (shape0\<lparr>sh_lenBytes := 1, sh_header := 3\<rparr>)"
  "shapeOf 0xd9 = Some (shape0\<lparr>sh_lenBytes := 1\<rparr>)" "shapeOf 0xda = Some (shape0\<lparr>sh_lenBytes := 2\<rparr>)"
  "shapeOf 0xdb = Some (shape0\<lparr>sh_lenBytes := 4\<rparr>)"
  "shapeOf 0xdc = Some (shape0\<lparr>sh_lenBytes := 2, sh_kind := LenArray\<rparr>)"
  "shapeOf 0xdd = Some (shape0\<lparr>sh_lenBytes := 4, sh_kind := LenArray\<rparr>)"
  "shapeOf 0xde = Some (shape0\<lparr>sh_lenBytes := 2, sh_kind := LenMap\<rparr>)"
  "shapeOf 0xdf = Some (shape0\<lparr>sh_lenBytes := 4, sh_kind := LenMap\<rparr>)"
  by (simp_all add: shapeOf_def)

lemma spans_plain: "shapeOf (here r) = Some shape0 \<Longrightarrow> rd_pos r < rd_end r \<Longrightarrow> spans r 1 1 0"
  by (rule spans_step [of _ shape0]) (simp_all add: extentOf_def shape0_def)

lemma spans_payload:
  "shapeOf (here r) = Some (shape0\<lparr>sh_payload := n\<rparr>) \<Longrightarrow> rd_pos r + (1 + n) \<le> rd_end r \<Longrightarrow> spans r (1 + n) 1 0"
  by (rule spans_step [of _ "shape0\<lparr>sh_payload := n\<rparr>"]) (simp_all add: extentOf_def shape0_def)

lemma spans_children:
  "shapeOf (here r) = Some (shape0\<lparr>sh_children := n\<rparr>) \<Longrightarrow> rd_pos r < rd_end r \<Longrightarrow> spans r 1 1 n"
  by (rule spans_step [of _ "shape0\<lparr>sh_children := n\<rparr>"]) (simp_all add: extentOf_def shape0_def)

lemma spans_counted:
  assumes "shapeOf (here r) = Some (shape0\<lparr>sh_lenBytes := w, sh_kind := k\<rparr>)" "0 < w" "k \<noteq> LenBytes" "rd_pos r + (1 + w) \<le> rd_end r"
    "n = nat (be (rd_buf r) (rd_pos r + 1) w)"
  shows "spans r (1 + w) 1 (if k = LenMap then n * 2 else n)"
  by (rule spans_step [OF _ assms(1)]) (use assms in \<open>auto simp: extentOf_def shape0_def split: len_kind.split\<close>)

lemma spans_sized:
  assumes "shapeOf (here r) = Some (shape0\<lparr>sh_lenBytes := w\<rparr>)" "0 < w"
    "n = nat (be (rd_buf r) (rd_pos r + 1) w)" "rd_pos r + (1 + w + n) \<le> rd_end r"
  shows "spans r (1 + w + n) 1 0"
  by (rule spans_step [OF _ assms(1)]) (use assms in \<open>auto simp: extentOf_def shape0_def\<close>)

section \<open>What a read that answers has stepped over\<close>

text \<open>The answer of a read: the reader it leaves is some bytes on, and they are the value's.\<close>

definition steps :: "reader \<Rightarrow> reader \<Rightarrow> nat \<Rightarrow> nat \<Rightarrow> bool" where
  "steps r r' a b = (\<exists>k. r' = advanceBy k r \<and> spans r k a b)"

lemma stepsI: "spans r k a b \<Longrightarrow> r' = advanceBy k r \<Longrightarrow> steps r r' a b"
  by (auto simp: steps_def)

lemma steps_refl: "rd_ok r \<Longrightarrow> steps r r a a"
  using spans_refl by (force simp: steps_def)

lemma steps_trans: "steps r s a b \<Longrightarrow> steps s t b c \<Longrightarrow> steps r t a c"
  by (auto simp: steps_def dest: spans_trans)

lemma steps_more: "steps r s a b \<Longrightarrow> steps r s (a + c) (b + c)"
  by (auto simp: steps_def dest: spans_more)

lemma steps_ok: "steps r s a b \<Longrightarrow> rd_ok r \<Longrightarrow> rd_ok s"
  by (auto simp: steps_def dest: spans_ok)

lemma steps_nil: "nil r = Inr r' \<Longrightarrow> steps r r' 1 0"
  by (rule stepsI [OF spans_plain]) (auto simp: nil_def inverts shape_code split: if_splits)

lemma steps_bool: "bool r = Inr (v, r') \<Longrightarrow> steps r r' 1 0"
  by (rule stepsI [OF spans_plain])
    (auto simp: bool_def expecting_def tryBool_def inverts Let_def shape_code split: if_splits option.splits)

lemma steps_intAt:
  "intAt n get r = Inr (v, r') \<Longrightarrow> shapeOf (here r) = Some (shape0\<lparr>sh_payload := n\<rparr>) \<Longrightarrow> steps r r' 1 0"
  by (rule stepsI [OF spans_payload]) (auto simp: intAt_def inverts)

lemma steps_int:
  assumes "int_value r = Inr (v, r')"
  shows "steps r r' 1 0"
proof -
  have "rd_pos r < rd_end r" using assms by (simp add: int_value_def inverts)
  then have tiny: "steps r (advanceBy 1 r) 1 0" if "here r \<le> 0x7f \<or> here r \<ge> 0xe0"
    using that by (intro stepsI [OF spans_plain]) (simp_all add: shape_small)
  have code: "steps r r' 1 0" if "intAt n get r = Inr (v, r')" "here r = c" "shapeOf c = Some (shape0\<lparr>sh_payload := n\<rparr>)" for n get c
    using steps_intAt that by blast
  show ?thesis
    using assms tiny code [OF _ _ shape_code(6)] code [OF _ _ shape_code(7)] code [OF _ _ shape_code(8)] code [OF _ _ shape_code(9)]
      code [OF _ _ shape_code(10)] code [OF _ _ shape_code(11)] code [OF _ _ shape_code(12)] code [OF _ _ shape_code(13)]
    unfolding int_value_def Let_def need_then by (auto split: if_splits)
qed

lemma steps_float: "float r = Inr (v, r') \<Longrightarrow> steps r r' 1 0"
  using spans_payload [of r 4] spans_payload [of r 8]
  by (auto simp: float_def inverts Let_def shape_code split: if_splits intro: stepsI)

lemma spans_ext8:
  assumes "here r = 0xc7" "n = nat (uint (rd_buf r ! (rd_pos r + 1)))" "rd_pos r + (3 + n) \<le> rd_end r"
  shows "spans r (3 + n) 1 0"
  by (rule spans_step [of _ "shape0\<lparr>sh_lenBytes := 1, sh_header := 3\<rparr>"])
    (use assms in \<open>auto simp: shape_code extentOf_def shape0_def be_def\<close>)

lemma steps_timestamp:
  assumes "timestamp r = Inr (v, r')"
  shows "steps r r' 1 0"
proof -
  have pos: "r\<lparr>rd_pos := rd_pos r + k\<rparr> = advanceBy k r" for k by (simp add: advanceBy_def)
  consider "here r = 0xd6" | "here r = 0xd7" | "here r = 0xc7"
    using assms by (auto simp: timestamp_def inverts Let_def split: if_splits)
  then show ?thesis
  proof cases
    case 1
    then show ?thesis using assms spans_payload [of r 5]
      by (auto simp: timestamp_def inverts Let_def pos shape_code split: if_splits intro!: stepsI)
  next
    case 2
    then show ?thesis using assms spans_payload [of r 9]
      by (auto simp: timestamp_def inverts Let_def pos shape_code split: if_splits intro!: stepsI)
  next
    case 3
    let ?n = "nat (uint (rd_buf r ! (rd_pos r + 1)))"
    have r': "r' = advanceBy (3 + ?n) r" "rd_pos r + (3 + ?n) \<le> rd_end r"
      using assms 3 by (auto simp: timestamp_def inverts Let_def advanceBy_def split: if_splits)
    show ?thesis using stepsI [OF spans_ext8 [OF 3 refl r'(2)] r'(1)] .
  qed
qed

section \<open>Texts and containers\<close>

lemma lengthAt_Inr: "lengthAt w r = Inr (n, r') \<longleftrightarrow>
    rd_pos r + (1 + w) \<le> rd_end r \<and> n = nat (be (rd_buf r) (rd_pos r + 1) w) \<and> r' = advanceBy (1 + w) r"
  by (auto simp: lengthAt_def inverts)

lemma steps_sized:
  assumes "lengthAt w r = Inr (n, s)" "shapeOf (here r) = Some (shape0\<lparr>sh_lenBytes := w\<rparr>)" "0 < w" "rd_pos s + n \<le> rd_end s"
  shows "steps r (advanceBy n s) 1 0"
  using stepsI [OF spans_sized [OF assms(2,3) refl]] assms(1,4) by (auto simp: lengthAt_Inr add.assoc)

lemma steps_tryStr:
  assumes "tryStr r = Inr (Some v, r')"
  shows "steps r r' 1 0"
proof -
  obtain n s where h: "tryStrHeader r = Inr (Some n, s)" "rd_pos s + n \<le> rd_end s" "r' = advanceBy n s"
    using assms by (auto simp: tryStr_def textAt_def inverts split: option.splits)
  have short: "steps r r' 1 0" if "0xa0 \<le> here r" "here r \<le> 0xbf" "n = nat (here r AND 0x1f)" "s = advanceBy 1 r"
    using stepsI [OF spans_payload [OF shape_small(4)], of r] that h(2,3) by simp
  have long: "steps r r' 1 0" if "lengthAt w r = Inr (n, s)" "here r = c" "shapeOf c = Some (shape0\<lparr>sh_lenBytes := w\<rparr>)" "0 < w" for w c
    using steps_sized that h(2,3) by blast
  show ?thesis
    using h(1) short long [OF _ _ shape_code(17)] long [OF _ _ shape_code(18)] long [OF _ _ shape_code(19)]
    unfolding tryStrHeader_def Let_def need_then by (auto simp: map_sum_Inr split: if_splits)
qed

lemma str_tryStr: "str r = Inr (v, r') \<Longrightarrow> tryStr r = Inr (Some v, r')"
  by (auto simp: str_def strHeader_def expecting_def tryStr_def inverts split: option.splits) 

lemma steps_arrayHeader:
  assumes "arrayHeader r = Inr (n, r')"
  shows "steps r r' 1 n"
proof -
  have h: "tryArrayHeader r = Inr (Some n, r')"
    using assms by (auto simp: arrayHeader_def expecting_def inverts split: option.splits)
  have short: "steps r (advanceBy 1 r) 1 (nat (here r AND 0x0f))" if "0x90 \<le> here r" "here r \<le> 0x9f" "rd_pos r < rd_end r"
    using stepsI [OF spans_children [OF shape_small(3)], of r] that by simp
  have long: "steps r r' 1 n" if "lengthAt w r = Inr (n, r')" "shapeOf (here r) = Some (shape0\<lparr>sh_lenBytes := w, sh_kind := LenArray\<rparr>)" "0 < w" for w
    using stepsI [OF spans_counted [OF that(2,3) _ _ refl]] that(1) by (auto simp: lengthAt_Inr)
  show ?thesis
    using h short long [of 2] long [of 4] shape_code(20,21)
    unfolding tryArrayHeader_def Let_def need_then by (auto simp: map_sum_Inr split: if_splits)
qed

lemma steps_mapHeader:
  assumes "mapHeader r = Inr (n, r')"
  shows "steps r r' 1 (n * 2)"
proof -
  have h: "tryMapHeader r = Inr (Some n, r')"
    using assms by (auto simp: mapHeader_def expecting_def inverts split: option.splits)
  have short: "steps r (advanceBy 1 r) 1 (nat (here r AND 0x0f) * 2)" if "0x80 \<le> here r" "here r \<le> 0x8f" "rd_pos r < rd_end r"
    using stepsI [OF spans_children [OF shape_small(2)], of r] that by simp
  have long: "steps r r' 1 (n * 2)" if "lengthAt w r = Inr (n, r')" "shapeOf (here r) = Some (shape0\<lparr>sh_lenBytes := w, sh_kind := LenMap\<rparr>)" "0 < w" for w
    using stepsI [OF spans_counted [OF that(2,3) _ _ refl]] that(1) by (auto simp: lengthAt_Inr)
  show ?thesis
    using h short long [of 2] long [of 4] shape_code(22,23)
    unfolding tryMapHeader_def Let_def need_then by (auto simp: map_sum_Inr split: if_splits)
qed

section \<open>Any value\<close>

lemma steps_any:
  "readAny d r = Inr (v, r') \<Longrightarrow> rd_ok r \<Longrightarrow> steps r r' 1 0"
  "readItems d n r = Inr (vs, r') \<Longrightarrow> rd_ok r \<Longrightarrow> steps r r' n 0"
  "readEntries d n out r = Inr (es, r') \<Longrightarrow> rd_ok r \<Longrightarrow> steps r r' (n * 2) 0"
proof (induction d r and d n r and d n out r arbitrary: v r' and vs r' and es r' rule: readAny_readItems_readEntries.induct)
  case (1 depth r)
  then obtain k where k: "kindAt r = Inr k" "depth \<le> MAX_DEPTH"
    by (subst (asm) readAny.simps) (auto simp: inverts split: if_splits)
  show ?case
  proof (cases k)
    case ArrayK
    then obtain n s vs where s: "arrayHeader r = Inr (n, s)" "readItems (depth + 1) n s = Inr (vs, r')"
      using 1(3) any_at [OF k(2,1)] by (auto simp: inverts)
    have h: "steps r s 1 n" by (rule steps_arrayHeader [OF s(1)])
    show ?thesis using steps_trans [OF h 1(1) [OF _ s(2) steps_ok [OF h 1(4)]]] k(2) by simp
  next
    case MapK
    then obtain n s es where s: "mapHeader r = Inr (n, s)" "readEntries (depth + 1) n [] s = Inr (es, r')"
      using 1(3) any_at [OF k(2,1)] by (auto simp: inverts)
    have h: "steps r s 1 (n * 2)" by (rule steps_mapHeader [OF s(1)])
    show ?thesis using steps_trans [OF h 1(2) [OF _ s(2) steps_ok [OF h 1(4)]]] k(2) by simp
  qed (use 1(3) any_at [OF k(2,1)] in \<open>auto simp: inverts simp del: One_nat_def intro: steps_nil steps_bool steps_int steps_float
      steps_timestamp steps_tryStr dest: str_tryStr\<close>)
next
  case (2 depth r)
  then show ?case using steps_refl by auto
next
  case (3 depth n r)
  then obtain x s xs where s: "readAny depth r = Inr (x, s)" "readItems depth n s = Inr (xs, r')" by (auto simp: inverts)
  have h: "steps r s 1 0" by (rule 3(1) [OF s(1) 3(4)])
  show ?case
    using steps_trans [OF steps_more [OF h, of n]] 3(2) [OF s(2) steps_ok [OF h 3(4)]] by simp
next
  case (4 depth out r)
  then show ?case using steps_refl by auto
next
  case (5 depth n out r)
  then obtain k s x t where s: "tryStr r = Inr (Some k, s)" "readAny depth s = Inr (x, t)"
      "readEntries depth n (setEntry out k x) t = Inr (es, r')"
    by (auto simp: inverts split: option.splits)
  have h: "steps r s 1 0" by (rule steps_tryStr [OF s(1)])
  have g: "steps s t 1 0" by (rule 5(1) [OF refl s(2) steps_ok [OF h 5(4)]])
  have e: "steps t r' (n * 2) 0"
    by (rule 5(2) [OF refl s(3) steps_ok [OF g steps_ok [OF h 5(4)]]])
  have hg: "steps r s (Suc n * 2) (1 + n * 2)" "steps s t (1 + n * 2) (n * 2)"
    using steps_more [OF h, of "1 + n * 2"] steps_more [OF g, of "n * 2"] by simp_all
  show ?case by (rule steps_trans [OF steps_trans [OF hg] e])
qed

text \<open>\<open>skip\<close> goes where \<open>any\<close> goes.\<close>

lemma measureLoop_0 [simp]: "measureLoop buf e pos 0 = Inr (Some pos)"
  by (subst measureLoop.simps) simp

lemma skip_any: "readAny d r = Inr (v, r') \<Longrightarrow> rd_ok r \<Longrightarrow> skip r = Inr r'"
  using steps_any(1) [of d r v r'] by (auto simp: steps_def spans_def skip_def measure_value_def advanceBy_def dest: spec [of _ 0])

section \<open>Where a measured value ends\<close>

text \<open>One turn of the loop that ends with a value.\<close>

definition turn_of :: "bytes \<Rightarrow> nat \<Rightarrow> nat \<Rightarrow> shape \<Rightarrow> nat \<Rightarrow> nat \<Rightarrow> bool" where
  "turn_of buf e pos sh k b = (pos < e \<and> shapeOf (uint (buf ! pos)) = Some sh \<and>
     extentOf sh (nat (be buf (pos + 1) (sh_lenBytes sh))) = (k, b) \<and> 0 < k \<and> pos + k \<le> e \<and>
     (sh_lenBytes sh = 0 \<or> 1 + sh_lenBytes sh \<le> k))"

lemma shape_lengths: "shapeOf c = Some sh \<Longrightarrow> sh_header sh = 1 \<or> 1 + sh_lenBytes sh \<le> sh_header sh"
  by (auto simp: shapeOf_def shape0_def split: if_splits)

lemma extent_header: "shapeOf c = Some sh \<Longrightarrow> extentOf sh n = (k, b) \<Longrightarrow> sh_lenBytes sh = 0 \<or> 1 + sh_lenBytes sh \<le> k"
  using shape_lengths [of c sh] by (auto simp: extentOf_def Let_def split: if_splits len_kind.splits)

lemma measureLoop_turn:
  "turn_of buf e pos sh k b \<Longrightarrow> measureLoop buf e pos (Suc n) = measureLoop buf e (pos + k) (n + b)"
  by (subst measureLoop.simps) (auto simp: turn_of_def)

lemma measureLoop_some:
  assumes "measureLoop buf e pos p = Inr (Some q)" "0 < p"
  obtains sh k b where "turn_of buf e pos sh k b" "measureLoop buf e (pos + k) (p - 1 + b) = Inr (Some q)"
proof -
  obtain sh where sh: "shapeOf (uint (buf ! pos)) = Some sh" "pos < e"
    using assms by (subst (asm) measureLoop.simps) (auto split: if_splits option.splits)
  obtain k b where k: "extentOf sh (nat (be buf (pos + 1) (sh_lenBytes sh))) = (k, b)" by fastforce
  have k0: "0 < k" using extentOf_pos [OF shape_header [OF sh(1)]] k by (metis fst_conv)
  have "pos + k \<le> e" using assms sh k by (subst (asm) measureLoop.simps) (auto split: if_splits)
  with k0 sh k extent_header [OF sh(1) k] have t: "turn_of buf e pos sh k b" unfolding turn_of_def by blast
  have "measureLoop buf e (pos + k) (p - 1 + b) = Inr (Some q)" using measureLoop_turn [OF t, of "p - 1"] assms by simp
  with t show ?thesis by (rule that)
qed

lemma measureLoop_bounds:
  "measureLoop buf e pos p = Inr (Some q) \<Longrightarrow> pos \<le> q \<and> (0 < p \<longrightarrow> pos < q \<and> q \<le> e)"
proof (induction "e - pos" arbitrary: pos p rule: less_induct)
  case less
  show ?case
  proof (cases "p = 0")
    case False
    then obtain sh k b where k: "turn_of buf e pos sh k b" "measureLoop buf e (pos + k) (p - 1 + b) = Inr (Some q)"
      using less.prems by (auto elim: measureLoop_some)
    then have t: "0 < k" "pos + k \<le> e" by (simp_all add: turn_of_def)
    then have "e - (pos + k) < e - pos" by arith
    define m where "m = p - 1 + b"
    have "measureLoop buf e (pos + k) m = Inr (Some q)" using k(2) by (simp only: m_def)
    with less.hyps [OF \<open>e - (pos + k) < e - pos\<close> this] t show ?thesis by (cases "m = 0") auto
  qed (use less.prems in simp)
qed

lemma measureLoop_add:
  "measureLoop buf e pos a = Inr (Some q) \<Longrightarrow> measureLoop buf e pos (a + p) = measureLoop buf e q p"
proof (induction "e - pos" arbitrary: pos a rule: less_induct)
  case less
  show ?case
  proof (cases "a = 0")
    case False
    then obtain sh k b where k: "turn_of buf e pos sh k b" "measureLoop buf e (pos + k) (a - 1 + b) = Inr (Some q)"
      using less.prems by (auto elim: measureLoop_some)
    then have "e - (pos + k) < e - pos" unfolding turn_of_def by arith
    then have "measureLoop buf e (pos + k) (a - 1 + b + p) = measureLoop buf e q p" using less.hyps k(2) by blast
    then show ?thesis using measureLoop_turn [OF k(1), of "a - 1 + p"] False by (simp add: ac_simps)
  qed (use less.prems in simp)
qed

text \<open>With fewer bytes at hand the value is measured the same, or does not end yet.\<close>

lemma be_cong: "(\<And>i. i < n \<Longrightarrow> buf' ! (p + i) = buf ! (p + i)) \<Longrightarrow> be buf' p n = be buf p n"
  unfolding be_def by (rule foldl_cong) auto

lemma measureLoop_shorter:
  assumes same: "\<And>i. i < e' \<Longrightarrow> buf' ! i = buf ! i" and e: "e' \<le> e"
  shows "measureLoop buf e pos p = Inr (Some q) \<Longrightarrow>
    measureLoop buf' e' pos p = Inr (if q \<le> e' \<or> p = 0 then Some q else None)"
proof (induction "e - pos" arbitrary: pos p rule: less_induct)
  case less
  show ?case
  proof (cases "p = 0")
    case False
    then obtain sh k b where k: "turn_of buf e pos sh k b" "measureLoop buf e (pos + k) (p - 1 + b) = Inr (Some q)"
      using less.prems by (auto elim: measureLoop_some)
    have q: "pos + k \<le> q" using measureLoop_bounds [OF k(2)] by simp
    show ?thesis
    proof (cases "pos + k \<le> e'")
      case True
      have "uint (buf' ! pos) = uint (buf ! pos)" using same [of pos] True k(1) by (simp add: turn_of_def)
      moreover have "be buf' (pos + 1) (sh_lenBytes sh) = be buf (pos + 1) (sh_lenBytes sh)"
        using True k(1) by (intro be_cong same) (auto simp: turn_of_def)
      ultimately have t: "turn_of buf' e' pos sh k b" using True k(1) by (auto simp: turn_of_def)
      have "e - (pos + k) < e - pos" using k(1) unfolding turn_of_def by arith
      define m where "m = p - 1 + b"
      have m: "measureLoop buf e (pos + k) m = Inr (Some q)" using k(2) by (simp only: m_def)
      have "measureLoop buf' e' pos p = measureLoop buf' e' (pos + k) m"
        using measureLoop_turn [OF t, of "p - 1"] False by (simp add: m_def)
      with less.hyps [OF \<open>e - (pos + k) < e - pos\<close> m] q False True m show ?thesis by (cases "m = 0") auto
    next
      case out: False
      then have n: "\<not> q \<le> e'" using q by simp
      have "measureLoop buf' e' pos p = Inr None"
      proof (cases "pos \<ge> e'")
        case True
        then show ?thesis using False by (subst measureLoop.simps) simp
      next
        case inside: False
        have s: "shapeOf (uint (buf' ! pos)) = Some sh" using same [of pos] inside k(1) by (simp add: turn_of_def)
        show ?thesis
        proof (cases "sh_lenBytes sh > 0 \<and> pos + 1 + sh_lenBytes sh > e'")
          case True
          then show ?thesis using False inside s by (subst measureLoop.simps) simp
        next
          case fits: False
          then have "be buf' (pos + 1) (sh_lenBytes sh) = be buf (pos + 1) (sh_lenBytes sh)"
            by (intro be_cong same) auto
          then have "extentOf sh (nat (be buf' (pos + 1) (sh_lenBytes sh))) = (k, b)" using k(1) by (simp add: turn_of_def)
          then show ?thesis using False inside s fits out by (subst measureLoop.simps) auto
        qed
      qed
      then show ?thesis using n False by simp
    qed
  qed (use less.prems in simp)
qed

text \<open>What \<open>skip\<close> steps over is one value, and is at least a byte.\<close>

lemma steps_skip: "skip r = Inr r' \<Longrightarrow> steps r r' 1 0"
proof -
  assume s: "skip r = Inr r'"
  then obtain p where p: "measureLoop (rd_buf r) (rd_end r) (rd_pos r) 1 = Inr (Some p)" "r' = r\<lparr>rd_pos := p\<rparr>"
    by (auto simp: skip_def measure_value_def inverts split: option.splits)
  have b: "rd_pos r \<le> p" "p \<le> rd_end r" using measureLoop_bounds [OF p(1)] by simp_all
  have "spans r (p - rd_pos r) 1 0" using b measureLoop_add [OF p(1)] by (simp add: spans_def)
  moreover have "r' = advanceBy (p - rd_pos r) r" using p(2) b by (simp add: advanceBy_def)
  ultimately show ?thesis by (rule stepsI)
qed

lemma steps_forward:
  assumes "steps r r' a 0" "0 < a"
  shows "rd_pos r < rd_pos r' \<and> rd_pos r' \<le> rd_end r \<and> rd_end r' = rd_end r \<and> rd_buf r' = rd_buf r"
proof -
  obtain k where k: "r' = advanceBy k r" "spans r k a 0" using assms(1) by (auto simp: steps_def)
  then have "measureLoop (rd_buf r) (rd_end r) (rd_pos r) (a + 0) = Inr (Some (rd_pos r + k))"
    unfolding spans_def by (simp only: measureLoop_0 add_0)
  from measureLoop_bounds [OF this] k assms(2) show ?thesis by (simp add: spans_def)
qed

section \<open>Bytes that are values\<close>

text \<open>The same bytes elsewhere measure the same.\<close>

lemma be_shift: "(\<And>i. i < n \<Longrightarrow> buf' ! (p' + i) = buf ! (p + i)) \<Longrightarrow> be buf' p' n = be buf p n"
  unfolding be_def by (rule foldl_cong) auto

lemma measureLoop_shift:
  "measureLoop buf e pos p = Inr (Some q) \<Longrightarrow> (\<And>i. i < q - pos \<Longrightarrow> buf' ! (pos' + i) = buf ! (pos + i)) \<Longrightarrow>
    pos' + (q - pos) \<le> e' \<Longrightarrow> measureLoop buf' e' pos' p = Inr (Some (pos' + (q - pos)))"
proof (induction "e - pos" arbitrary: pos pos' p rule: less_induct)
  case less
  show ?case
  proof (cases "p = 0")
    case False
    then obtain sh k b where k: "turn_of buf e pos sh k b" "measureLoop buf e (pos + k) (p - 1 + b) = Inr (Some q)"
      using less.prems(1) by (auto elim: measureLoop_some)
    have q: "pos + k \<le> q" using measureLoop_bounds [OF k(2)] by simp
    have k0: "0 < k" using k(1) by (simp add: turn_of_def)
    have "buf' ! pos' = buf ! pos" using less.prems(2) [of 0] q k0 by simp
    moreover have "be buf' (pos' + 1) (sh_lenBytes sh) = be buf (pos + 1) (sh_lenBytes sh)"
    proof (rule be_shift)
      fix i assume "i < sh_lenBytes sh"
      then have "1 + i < q - pos" using q k(1) by (auto simp: turn_of_def)
      from less.prems(2) [OF this] show "buf' ! (pos' + 1 + i) = buf ! (pos + 1 + i)" by (simp add: add.assoc)
    qed
    ultimately have t: "turn_of buf' e' pos' sh k b" using k(1) q less.prems(3) by (auto simp: turn_of_def)
    have s: "measureLoop buf' e' pos' p = measureLoop buf' e' (pos' + k) (p - 1 + b)"
      using measureLoop_turn [OF t, of "p - 1"] False by simp
    have "e - (pos + k) < e - pos" using k(1) by (auto simp: turn_of_def)
    from less.hyps [OF this k(2), of "pos' + k"] less.prems(2,3) q
    have "measureLoop buf' e' (pos' + k) (p - 1 + b) = Inr (Some (pos' + k + (q - (pos + k))))" by (simp add: add.assoc)
    then show ?thesis using s q by simp
  qed (use less.prems in simp)
qed

definition value_bytes :: "bytes \<Rightarrow> bool" where
  "value_bytes bs = (measureLoop bs (length bs) 0 1 = Inr (Some (length bs)))"

lemma value_bytes_ne: "value_bytes bs \<Longrightarrow> bs \<noteq> []"
  using measureLoop_bounds [of bs "length bs" 0 1 "length bs"] by (auto simp: value_bytes_def)

lemma skip_value_bytes:
  assumes "value_bytes bs" "rd_ok r" "unread r = bs @ rest"
  shows "skip r = Inr (advanceBy (length bs) r)"
proof -
  have l: "rd_pos r + length bs \<le> rd_end r" using length_unread [OF assms(2)] assms(2,3) by (auto simp: rd_ok_def)
  have d: "drop (rd_pos r) (rd_buf r) = bs @ rest @ drop (rd_end r) (rd_buf r)" using buf_unread [OF assms(2)] assms(3) by simp
  have "rd_buf r ! (rd_pos r + i) = bs ! i" if "i < length bs" for i
  proof -
    have "rd_buf r ! (rd_pos r + i) = drop (rd_pos r) (rd_buf r) ! i" using l assms(2) by (simp add: rd_ok_def)
    then show ?thesis using that by (simp add: d nth_append)
  qed
  with measureLoop_shift [OF assms(1) [unfolded value_bytes_def], of "rd_buf r" "rd_pos r" "rd_end r"] l
  show ?thesis by (simp add: skip_def measure_value_def advanceBy_def)
qed

lemma reads_skip: "value_bytes bs \<Longrightarrow> reads (\<lambda>r. andThen (skip r) (\<lambda>r'. Inr ((), r'))) bs ()"
  by (rule readsI) (simp add: skip_value_bytes)

lemma reads_view: "value_bytes bs \<Longrightarrow> reads view bs bs"
  by (rule readsI) (simp add: view_def skip_value_bytes buf_unread)

lemma advanceBy_inj: "advanceBy a r = advanceBy b r \<longleftrightarrow> a = b"
  by (auto dest: arg_cong [of _ _ rd_pos])

text \<open>What a read that steps over one value takes whole is the bytes of a value.\<close>

lemma value_bytesI:
  assumes "steps (newReader bs) (advanceBy (length bs) (newReader bs)) 1 0"
  shows "value_bytes bs"
proof -
  obtain k where k: "advanceBy (length bs) (newReader bs) = advanceBy k (newReader bs)" "spans (newReader bs) k 1 0"
    using assms by (auto simp: steps_def)
  then have "k = length bs" by (simp add: advanceBy_inj)
  with k(2) show ?thesis unfolding value_bytes_def spans_def by (auto simp: newReader_def dest: spec [of _ 0])
qed

lemma value_bytes_enc: "writable 0 v \<Longrightarrow> sendable v \<Longrightarrow> value_bytes (enc v)"
  using steps_any(1) [OF readAny_enc [of v "[]"]] by (intro value_bytesI) simp

lemma value_bytes_many: "\<forall>x \<in> set xs. value_bytes x \<Longrightarrow> rd_ok r \<Longrightarrow> unread r = concat xs @ rest \<Longrightarrow>
    spans r (length (concat xs)) (length xs) 0"
proof (induction xs arbitrary: r)
  case Nil
  then show ?case by (simp add: spans_refl)
next
  case (Cons x xs)
  have u: "unread r = x @ concat xs @ rest" using Cons.prems(3) by simp
  have "skip r = Inr (advanceBy (length x) r)" using Cons.prems by (intro skip_value_bytes) auto
  then have h: "spans r (length x) 1 0" using steps_skip [of r "advanceBy (length x) r"] by (auto simp: steps_def advanceBy_inj)
  have "spans (advanceBy (length x) r) (length (concat xs)) (length xs) 0"
    using Cons.IH [of "advanceBy (length x) r"] Cons.prems u by (simp add: rd_ok_advanceBy unread_advanceBy)
  from spans_trans [OF spans_more [OF h, of "length xs"], of _ 0] this show ?case by simp
qed

lemma shape_bin: "shapeOf 0xc4 = Some (shape0\<lparr>sh_lenBytes := 1\<rparr>)" "shapeOf 0xc5 = Some (shape0\<lparr>sh_lenBytes := 2\<rparr>)"
  "shapeOf 0xc6 = Some (shape0\<lparr>sh_lenBytes := 4\<rparr>)"
  by (simp_all add: shapeOf_def)

lemma steps_bin:
  assumes "bin r = Inr (b, r')"
  shows "steps r r' 1 0"
proof -
  have long: "steps r r' 1 0"
    if "andThen (lengthAt w r) (\<lambda>(n, r1). andThen (need n r1) (\<lambda>_. Inr (take n (drop (rd_pos r1) (rd_buf r1)), advanceBy n r1)))
        = Inr (b, r')" "here r = c" "shapeOf c = Some (shape0\<lparr>sh_lenBytes := w\<rparr>)" "0 < w" for w c
    using that steps_sized [of w r] by (auto simp: andThen_eq_Inr need_ok)
  show ?thesis
    using assms long [OF _ _ shape_bin(1)] long [OF _ _ shape_bin(2)] long [OF _ _ shape_bin(3)]
    unfolding bin_def Let_def need_then by (cases "here r = 0xc4"; cases "here r = 0xc5"; cases "here r = 0xc6") simp_all
qed

text \<open>What a read that always steps over one value takes is a value, and an array of values is one.\<close>

lemma value_bytes_read:
  assumes "reads f bs v" "\<And>r v r'. f r = Inr (v, r') \<Longrightarrow> steps r r' 1 0"
  shows "value_bytes bs"
  using readsD [OF assms(1), of "newReader bs" "[]"] assms(2) by (intro value_bytesI) simp

lemma value_bytes_array:
  assumes "length xs = n" "n < 2 ^ 32" "\<forall>x \<in> set xs. value_bytes x"
  shows "value_bytes (encHeader n 0x90 0xdc @ concat xs)"
proof (rule value_bytesI)
  let ?h = "encHeader n 0x90 0xdc" let ?r = "newReader (?h @ concat xs)" let ?s = "advanceBy (length ?h) ?r"
  have "arrayHeader ?r = Inr (n, ?s)" using readsD [OF reads_arrayHeader [OF assms(2)], of ?r "concat xs"] by simp
  then have h: "steps ?r ?s 1 n" by (rule steps_arrayHeader)
  have "spans ?s (length (concat xs)) (length xs) 0"
    using value_bytes_many [OF assms(3), of ?s "[]"] by (simp add: rd_ok_advanceBy unread_advanceBy)
  then have "steps ?s (advanceBy (length (concat xs)) ?s) n 0" using assms(1) by (auto intro: stepsI)
  from steps_trans [OF h this] show "steps ?r (advanceBy (length (?h @ concat xs)) ?r) 1 0" by simp
qed

end
