(* ===== verification/MsgpackTyped.thy ===== *)
theory MsgpackTyped
  imports MsgpackSkip
begin

text \<open>
  What a decoded value is: numbers in their one form, dates in range, properties distinct and in
  JavaScript's order, nothing \<open>undefined\<close> and nothing nested past the limit, so that it can be
  encoded again.
\<close>

section \<open>Numbers\<close>

fun num_ok :: "jnum \<Rightarrow> bool" where
  "num_ok (IntN i) = (\<bar>i\<bar> < 2 ^ 53)"
| "num_ok (F64 b) = (b = minus_zero \<or> safeOf b = None)"

lemma safeOf_bound:
  assumes "safeOf b = Some i"
  shows "\<bar>i\<bar> < 2 ^ 53"
proof -
  define m where "m = uint b mod 2 ^ 52"
  have m: "0 \<le> m" "m < 2 ^ 52" by (simp_all add: m_def)
  have d: "\<bar>(2 ^ 52 + m) div 2 ^ k\<bar> < 2 ^ 53" for k :: nat
  proof -
    have "(2 ^ 52 + m) div 2 ^ k \<le> 2 ^ 52 + m" using zdiv_mono2 [of "2 ^ 52 + m" 1 "2 ^ k"] m by simp
    moreover have "0 \<le> (2 ^ 52 + m) div 2 ^ k" using m by (intro pos_imp_zdiv_nonneg_iff [THEN iffD2]) auto
    ultimately show ?thesis using m by simp
  qed
  define e sign where "e = uint b div 2 ^ 52 mod 2048" and "sign = (if uint b \<ge> 2 ^ 63 then -1 else 1 :: int)"
  have "i = 0 \<or> (\<exists>k. i = sign * ((2 ^ 52 + m) div 2 ^ k))"
    using assms unfolding safeOf_def Let_def m_def [symmetric] e_def [symmetric] sign_def [symmetric]
    by (auto split: if_splits)
  moreover have "\<bar>sign\<bar> = 1" by (simp add: sign_def)
  ultimately show ?thesis using d by (auto simp: abs_mult)
qed

lemma ofBits_ok: "num_ok (ofBits b)"
  using safeOf_bound [of b] by (auto simp: ofBits_def split: option.split)

text \<open>Past 2^53 the rounded integer is a double too big to be a safe integer.\<close>

lemma roundInt_unsafe:
  assumes "2 ^ 53 \<le> \<bar>i\<bar>" "\<bar>i\<bar> \<le> 2 ^ 64"
  shows "safeOf (roundInt i) = None"
proof -
  define n where "n = \<bar>i\<bar>"
  define fl where "fl = floorlog 2 (nat n)"
  define sh where "sh = fl - 53"
  define q where "q = n div 2 ^ sh"
  define q' where "q' = (if 2 * (n mod 2 ^ sh) > 2 ^ sh \<or> (2 * (n mod 2 ^ sh) = 2 ^ sh \<and> odd q) then q + 1 else q)"
  define s :: int where "s = (if i < 0 then 2048 else 0)"
  define X where "X = (s + int sh + 1075) * 2 ^ 52 + (q' - 2 ^ 52)"
  have n: "2 ^ 53 \<le> n" "n < 2 ^ 65" using assms by (simp_all add: n_def)
  then have nn: "2 ^ 53 \<le> nat n" "nat n < 2 ^ 65" by (simp_all add: le_nat_iff nat_less_iff)
  have fl: "54 \<le> fl" "fl \<le> 65"
    using floorlog_ge_SucI [of 2 53 "nat n"] floorlog_leI [of "nat n" 2 65] nn by (simp_all add: fl_def)
  then have sh: "1 \<le> sh" "sh \<le> 12" "fl = sh + 53" by (simp_all add: sh_def)
  have "2 ^ (fl - 1) \<le> nat n \<and> nat n < 2 ^ fl" unfolding fl_def using nn by (intro floorlog_bounds) auto
  then have b: "2 ^ 52 * 2 ^ sh \<le> n" "n < 2 ^ 53 * 2 ^ sh"
    using n(1) unfolding sh(3) by (simp_all add: le_nat_iff nat_less_iff power_add mult.commute)
  have "2 ^ 52 \<le> q" using zdiv_mono1 [OF b(1), of "2 ^ sh"] by (simp add: q_def)
  moreover have "q < 2 ^ 53"
  proof -
    have "q * 2 ^ sh \<le> n" unfolding q_def by (metis mult.commute mult_div_mod_eq zero_less_numeral zero_less_power
        pos_mod_sign le_add_same_cancel1)
    then have "q * 2 ^ sh < 2 ^ 53 * 2 ^ sh" using b(2) by linarith
    then show ?thesis by simp
  qed
  ultimately have q': "2 ^ 52 \<le> q'" "q' \<le> 2 ^ 53" by (auto simp: q'_def)
  have s: "s = 0 \<or> s = 2048" by (simp add: s_def)
  have r: "roundInt i = word_of_int X"
    unfolding roundInt_def Let_def n_def [symmetric] fl_def [symmetric] sh_def [symmetric] q_def [symmetric] q'_def [symmetric] X_def s_def
    by (simp add: algebra_simps)
  have X: "0 \<le> X" "X < 2 ^ 64" using sh(2) q' s by (auto simp: X_def)
  then have u: "uint (roundInt i) = X" unfolding r by (simp add: uint_word_of_int mod_pos_pos_trivial)
  define w where "w = q' - 2 ^ 52"
  have w: "0 \<le> w" "w \<le> 2 ^ 52" using q' by (simp_all add: w_def)
  have m: "(s + c) mod 2048 = c" if "0 \<le> c" "c < 2048" for c
    using s that mod_add_self1 [of 2048 c] by auto
  have "X div 2 ^ 52 = s + (int sh + 1075 + w div 2 ^ 52)" unfolding X_def w_def [symmetric] by simp
  moreover have w1: "w div 2 ^ 52 = 0 \<or> w div 2 ^ 52 = 1" using w by (cases "w = 2 ^ 52") (simp_all add: div_pos_pos_trivial)
  ultimately have "X div 2 ^ 52 mod 2048 = int sh + 1075 + w div 2 ^ 52" using sh(2) by (auto simp only: m)
  then have "X div 2 ^ 52 mod 2048 > 1075" using sh(1) w1 by auto
  then show ?thesis unfolding safeOf_def u Let_def by simp
qed

lemma ofInt_ok: "\<bar>i\<bar> \<le> 2 ^ 64 \<Longrightarrow> num_ok (ofInt i)"
  using roundInt_unsafe [of i] by (auto simp: ofInt_def)

section \<open>Values\<close>

fun typed :: "nat \<Rightarrow> jval \<Rightarrow> bool" and typedItems :: "nat \<Rightarrow> jval list \<Rightarrow> bool"
  and typedEntries :: "nat \<Rightarrow> (jsstr \<times> jval) list \<Rightarrow> bool" where
  "typed d v = (d \<le> 512 \<and>
     (case v of
        UndefV \<Rightarrow> False
      | NoFormV \<Rightarrow> False
      | NumV n \<Rightarrow> num_ok n
      | DateV t \<Rightarrow> case_option True (\<lambda>ms. \<bar>ms\<bar> \<le> 8640000000000000) t
      | ArrV xs \<Rightarrow> typedItems (d + 1) xs
      | ObjV es \<Rightarrow> propsOrdered es \<and> typedEntries (d + 1) es
      | _ \<Rightarrow> True))"
| "typedItems d [] = True"
| "typedItems d (x # xs) = (typed d x \<and> typedItems d xs)"
| "typedEntries d [] = True"
| "typedEntries d ((k, x) # es) = (typed d x \<and> typedEntries d es)"

declare typed.simps [simp del]

lemma typedEntries_append: "typedEntries d (es @ fs) \<longleftrightarrow> typedEntries d es \<and> typedEntries d fs"
  by (induction es) auto

lemma typedEntries_update: "typedEntries d es \<Longrightarrow> typed d x \<Longrightarrow> typedEntries d (AList.update k x es)"
  by (induction es) auto

lemma typedEntries_split: "typedEntries d (takeWhile P es) \<and> typedEntries d (dropWhile P es) \<longleftrightarrow> typedEntries d es"
  by (metis takeWhile_dropWhile_id typedEntries_append)

lemma typedEntries_setEntry: "typedEntries d es \<Longrightarrow> typed d x \<Longrightarrow> typedEntries d (setEntry es k x)"
  using typedEntries_split [of d _ es]
  by (auto simp: setEntry_def typedEntries_update typedEntries_append split: option.split)

text \<open>What is typed can be written.\<close>

lemma typed_writable:
  "typed d v \<Longrightarrow> writable d v" "typedItems d xs \<Longrightarrow> writableItems d xs" "typedEntries d es \<Longrightarrow> writableEntries d es"
proof (induction d v and d xs and d es rule: typed_typedItems_typedEntries.induct)
  case (1 d v)
  then show ?case by (cases v) (auto simp: typed.simps writable.simps)
qed simp_all

section \<open>What is read\<close>

lemma be_bounds: "0 \<le> be buf p n \<and> be buf p n < 256 ^ n"
proof (induction n)
  case (Suc n)
  have "uint (buf ! (p + n)) \<le> 255" using byte_bounds(2) [of "buf ! (p + n)"] by simp
  moreover have "be buf p (Suc n) = be buf p n * 256 + uint (buf ! (p + n))" by (simp add: be_def)
  ultimately show ?case using Suc byte_bounds(1) [of "buf ! (p + n)"] by auto
qed (simp add: be_def)

lemma abs_wrap: "0 < k \<Longrightarrow> 0 \<le> x \<Longrightarrow> x < m \<Longrightarrow> \<bar>if k \<le> x then x - m else x\<bar> < (m :: int)"
  by auto

lemma signed_bound: "0 \<le> x \<Longrightarrow> x < 2 ^ (8 * n) \<Longrightarrow> \<bar>signed_of n x\<bar> < 2 ^ (8 * n)"
  unfolding signed_of_def by (rule abs_wrap) simp_all

lemma nearInt_bound:
  assumes "\<bar>i\<bar> < 2 ^ 64"
  shows "\<bar>nearInt i\<bar> \<le> 2 ^ 64"
proof (cases "\<bar>i\<bar> < 2 ^ 53")
  case True
  then show ?thesis by simp
next
  case False
  define n where "n = \<bar>i\<bar>"
  define sh where "sh = floorlog 2 (nat n) - 53"
  define q where "q = n div 2 ^ sh"
  define q' where "q' = (if 2 * (n mod 2 ^ sh) > 2 ^ sh \<or> (2 * (n mod 2 ^ sh) = 2 ^ sh \<and> odd q) then q + 1 else q)"
  have r: "\<bar>nearInt i\<bar> = \<bar>q' * 2 ^ sh\<bar>"
    using False unfolding nearInt_def Let_def n_def [symmetric] sh_def [symmetric] q_def [symmetric] q'_def [symmetric]
    by (simp add: n_def)
  have nn: "nat n < 2 ^ 64" using assms by (simp add: n_def nat_less_iff)
  have sh: "sh \<le> 11" using floorlog_leI [of "nat n" 2 64] nn by (simp add: sh_def)
  have two: "2 ^ 64 = 2 ^ (64 - sh) * (2 :: int) ^ sh" using sh by (simp flip: power_add)
  have "q * 2 ^ sh \<le> n" by (simp add: q_def) (metis mult.commute mult_div_mod_eq zero_less_numeral zero_less_power
      pos_mod_sign le_add_same_cancel1)
  then have "q * 2 ^ sh < 2 ^ (64 - sh) * 2 ^ sh" using assms two by (simp add: n_def)
  then have "q < 2 ^ (64 - sh)" by simp
  then have "q' \<le> 2 ^ (64 - sh)" by (simp add: q'_def)
  then have "q' * 2 ^ sh \<le> 2 ^ 64" unfolding two by (intro mult_right_mono) simp_all
  moreover have "0 \<le> q'" by (simp add: q'_def q_def n_def pos_imp_zdiv_nonneg_iff)
  ultimately show ?thesis unfolding r by simp
qed

lemma eight_bounds: "\<bar>getUint64 buf p\<bar> \<le> 2 ^ 64" "\<bar>getInt64 buf p\<bar> \<le> 2 ^ 64"
proof -
  note b = be_bounds [of buf p 4] be_bounds [of buf "p + 4" 4]
  show "\<bar>getUint64 buf p\<bar> \<le> 2 ^ 64" unfolding getUint64_def Let_def by (rule nearInt_bound) (use b in auto)
  have "- (2 ^ 31) \<le> signed_of 4 (be buf p 4)" "signed_of 4 (be buf p 4) < 2 ^ 31"
    using b by (auto simp: signed_of_def)
  then show "\<bar>getInt64 buf p\<bar> \<le> 2 ^ 64" unfolding getInt64_def Let_def by (intro nearInt_bound) (use b in auto)
qed

lemma int_value_bound:
  assumes "int_value r = Inr (v, r')"
  shows "\<bar>v\<bar> \<le> 2 ^ 64"
proof -
  have h: "0 \<le> here r" "here r < 256" using byte_bounds by (simp_all add: here_def)
  have u: "\<bar>be buf p n\<bar> \<le> 2 ^ 64" "\<bar>signed_of n (be buf p n)\<bar> \<le> 2 ^ 64" if "n \<le> 4" for buf p n
  proof -
    have "(256 :: int) ^ n = 2 ^ (8 * n)" "(2 :: int) ^ (8 * n) \<le> 2 ^ 32"
      using that power_increasing [of "8 * n" 32 "2 :: int"] by (simp_all add: power_mult)
    then show "\<bar>be buf p n\<bar> \<le> 2 ^ 64" "\<bar>signed_of n (be buf p n)\<bar> \<le> 2 ^ 64"
      using be_bounds [of buf p n] signed_bound [of "be buf p n" n] by auto
  qed
  note bounds = u [of 1] u [of 2] u [of 4] eight_bounds
  show ?thesis
    using assms h bounds unfolding int_value_def Let_def need_then
    by (auto simp: intAt_def need_then split: if_splits)
qed

lemma float_ok: "float r = Inr (v, r') \<Longrightarrow> num_ok v"
  by (auto simp: float_def Let_def inverts ofBits_ok split: if_splits)

lemma timestamp_ok: "timestamp r = Inr (t, r') \<Longrightarrow> case_option True (\<lambda>ms. \<bar>ms\<bar> \<le> 8640000000000000) t"
  by (auto simp: timestamp_def Let_def inverts mkDate_def split: if_splits)

lemma typed_any:
  "readAny d r = Inr (v, r') \<Longrightarrow> typed d v"
  "readItems d n r = Inr (vs, r') \<Longrightarrow> typedItems d vs \<and> length vs = n"
  "readEntries d n out r = Inr (es, r') \<Longrightarrow> typedEntries d out \<Longrightarrow> propsOrdered out \<Longrightarrow>
    typedEntries d es \<and> propsOrdered es"
proof (induction d r and d n r and d n out r arbitrary: v r' and vs r' and es r' rule: readAny_readItems_readEntries.induct)
  case (1 depth r)
  then obtain k where k: "kindAt r = Inr k" "depth \<le> MAX_DEPTH"
    by (subst (asm) readAny.simps) (auto simp: inverts split: if_splits)
  have d: "depth \<le> 512" using k(2) by (simp add: MAX_DEPTH_def)
  show ?case
  proof (cases k)
    case ArrayK
    then obtain n s vs where s: "readItems (depth + 1) n s = Inr (vs, r')" "v = ArrV vs"
      using 1(3) any_at [OF k(2,1)] by (auto simp: inverts)
    show ?thesis using 1(1) [OF _ s(1)] k(2) d s(2) by (simp add: typed.simps)
  next
    case MapK
    then obtain n s es where s: "readEntries (depth + 1) n [] s = Inr (es, r')" "v = ObjV es"
      using 1(3) any_at [OF k(2,1)] by (auto simp: inverts)
    show ?thesis using 1(2) [OF _ s(1)] k(2) d s(2) by (simp add: typed.simps)
  qed (use 1(3) any_at [OF k(2,1)] d in \<open>auto simp: inverts typed.simps ofInt_ok dest: int_value_bound float_ok timestamp_ok\<close>)
next
  case (3 depth n r)
  then show ?case by (force simp: inverts)
next
  case (5 depth n out r)
  then obtain k s x t where s: "tryStr r = Inr (Some k, s)" "readAny depth s = Inr (x, t)"
      "readEntries depth n (setEntry out k x) t = Inr (es, r')"
    by (auto simp: inverts split: option.splits)
  have x: "typed depth x" by (rule 5(1) [OF refl s(2)])
  show ?case
    by (rule 5(2) [OF refl s(3) typedEntries_setEntry [OF 5(4) x] setEntry_ordered(1) [OF 5(5)]])
qed auto

lemma decodeAny_typed: "decodeAny bs = Inr v \<Longrightarrow> typed 0 v"
  using typed_any(1) by (auto simp: decodeAny_def inverts split: if_splits)

end
