(* ===== verification/WireFrames.thy ===== *)
theory WireFrames
  imports MsgpackTyped Store
begin

text \<open>
  What the transport and the Registry read from the wire without decoding a value
  (client/ts/src/uuid.ts, edits.ts and frames.ts): mutation ids, the envelope of an edit, the
  operations of an edit or of a snapshot page, and the frames of a connection.
\<close>

section \<open>Errors\<close>

datatype wire_error =
  Msg msg_error
  | BadUuid jsstr
  | UuidSize nat
  | NoEnvelope
  | ShortEnvelope
  | UnknownLifecycle int
  | UnknownOpcode int
  | EndsInside
  | EmptyFrame
  | UnknownFrame jsstr
  | ShortFrame jsstr

definition lifted :: "msg_error + 'a \<Rightarrow> wire_error + 'a" where
  "lifted r = map_sum Msg id r"

lemma lifted_Inr [simp]: "lifted (Inr a) = Inr a" "lifted r = Inr a \<longleftrightarrow> r = Inr a"
  by (cases r; simp add: lifted_def)+

section \<open>Mutation ids\<close>

definition hex_unit :: "unit16 \<Rightarrow> bool" where
  "hex_unit u = (digit_unit u \<or> 0x61 \<le> u \<and> u \<le> 0x66 \<or> 0x41 \<le> u \<and> u \<le> 0x46)"

definition hexDigit :: "unit16 \<Rightarrow> int" where
  "hexDigit u = (if digit_unit u then uint u - 0x30 else if 0x61 \<le> u then uint u - 0x61 + 10 else uint u - 0x41 + 10)"

text \<open>\<open>parseInt(hex, 16)\<close> of pairs of digits.\<close>

fun hexPairs :: "jsstr \<Rightarrow> bytes" where
  "hexPairs (a # b # s) = byte (hexDigit a * 16 + hexDigit b) # hexPairs s"
| "hexPairs s = []"

definition uuidBytes :: "jsstr \<Rightarrow> wire_error + bytes" where
  "uuidBytes ident =
     (let hex = filter (\<lambda>u. u \<noteq> 0x2d) ident in
      if length hex = 32 \<and> list_all hex_unit hex then Inr (hexPairs hex) else Inl (BadUuid ident))"

definition HEX :: jsstr where "HEX = lit ''0123456789abcdef''"

definition hexByte :: "8 word \<Rightarrow> jsstr" where
  "hexByte b = [HEX ! nat (drop_bit 4 (uint b)), HEX ! nat (uint b AND 0x0f)]"

fun uuidFrom :: "nat \<Rightarrow> bytes \<Rightarrow> jsstr" where
  "uuidFrom i [] = []"
| "uuidFrom i (b # bs) = (if i \<in> {4, 6, 8, 10} then [0x2d] else []) @ hexByte b @ uuidFrom (i + 1) bs"

definition uuidString :: "bytes \<Rightarrow> wire_error + jsstr" where
  "uuidString b = (if length b \<noteq> 16 then Inl (UuidSize (length b)) else Inr (uuidFrom 0 b))"

section \<open>Edits\<close>

record wire_envelope =
  we_position :: int
  we_slice :: jsstr
  we_seq :: int
  we_id :: jsstr
  we_servertime :: "int option"
  we_lifecycle :: lifecycle

definition LIFECYCLES :: "lifecycle list" where "LIFECYCLES = [Normal, Birth, Death]"

fun skipMany :: "nat \<Rightarrow> reader \<Rightarrow> msg_error + reader" where
  "skipMany 0 r = Inr r"
| "skipMany (Suc n) r = andThen (skip r) (skipMany n)"

definition readEnvelope :: "reader \<Rightarrow> wire_error + (wire_envelope \<times> reader)" where
  "readEnvelope r0 =
     andThen (lifted (arrayHeader r0)) (\<lambda>(m, r1).
     if m < 1 then Inl NoEnvelope else
     andThen (lifted (arrayHeader r1)) (\<lambda>(n, r2).
     if n < 6 then Inl ShortEnvelope else
     andThen (lifted (int_value r2)) (\<lambda>(position, r3).
     andThen (lifted (str r3)) (\<lambda>(slice, r4).
     andThen (lifted (int_value r4)) (\<lambda>(seq, r5).
     andThen (lifted (bin r5)) (\<lambda>(b, r6).
     andThen (uuidString b) (\<lambda>ident.
     andThen (lifted (timestamp r6)) (\<lambda>(time, r7).
     andThen (lifted (int_value r7)) (\<lambda>(life, r8).
     if life < 0 \<or> nat life \<ge> length LIFECYCLES then Inl (UnknownLifecycle life) else
     andThen (lifted (skipMany (n - 6) r8)) (\<lambda>r9.
     Inr (\<lparr>we_position = position, we_slice = slice, we_seq = seq, we_id = ident, we_servertime = time,
           we_lifecycle = LIFECYCLES ! nat life\<rparr>, r9)))))))))))"

text \<open>
  One operation: its opcode, its key and, of a set, its value's bytes, and the items it is made of.
\<close>

type_synonym edit_op = "jsstr \<times> bytes option"

definition readOp :: "reader \<Rightarrow> wire_error + ((edit_op \<times> int) \<times> reader)" where
  "readOp r =
     andThen (lifted (int_value r)) (\<lambda>(code, r1).
     if code \<noteq> 0 \<and> code \<noteq> 1 then Inl (UnknownOpcode code) else
     andThen (lifted (str r1)) (\<lambda>(key, r2).
     if code = 0 then andThen (lifted (view r2)) (\<lambda>(bs, r3). Inr (((key, Some bs), 3), r3))
     else Inr (((key, None), 2), r2)))"

text \<open>Each operation takes at least a byte, so a run of them ends with the buffer.\<close>

lemma steps_str: "str r = Inr (v, r') \<Longrightarrow> steps r r' 1 0"
  by (rule steps_tryStr [OF str_tryStr])

lemma readOp_steps:
  assumes "readOp r = Inr ((op, n), r')"
  shows "steps r r' (nat n) 0 \<and> n = (if snd op = None then 2 else 3)"
proof -
  obtain code r1 key r2 where c: "int_value r = Inr (code, r1)" "str r1 = Inr (key, r2)"
      "(if code = 0 then andThen (lifted (view r2)) (\<lambda>(bs, r3). Inr (((key, Some bs), 3), r3))
        else Inr (((key, None), 2), r2)) = Inr ((op, n), r')"
    using assms by (auto simp: readOp_def andThen_eq_Inr split: if_splits)
  have s1: "steps r r1 1 0" by (rule steps_int [OF c(1)])
  have s2: "steps r1 r2 1 0" by (rule steps_str [OF c(2)])
  have s12: "steps r r2 2 0" using steps_trans [OF steps_more [OF s1, of 1], of r2 0] s2 by (simp add: numeral_2_eq_2)
  show ?thesis
  proof (cases "code = 0")
    case True
    then obtain bs where v: "view r2 = Inr (bs, r')" "op = (key, Some bs)" "n = 3"
      using c(3) by (auto simp: andThen_eq_Inr)
    then have "skip r2 = Inr r'" by (auto simp: view_def andThen_eq_Inr)
    from steps_skip [OF this] have "steps r2 r' 1 0" .
    from steps_trans [OF steps_more [OF s12, of 1], of r' 0] this v show ?thesis by (simp add: numeral_3_eq_3)
  qed (use c(3) s12 in auto)
qed

lemma readOp_forward: "readOp r = Inr ((op, n), r') \<Longrightarrow> rd_pos r < rd_pos r' \<and> rd_pos r' \<le> rd_end r \<and> rd_end r' = rd_end r"
  using readOp_steps [of r op n r'] steps_forward [of r r' "nat n"] by (auto split: if_splits)

text \<open>\<open>left\<close> is the number of items of an edit not read yet; a page's, \<open>None\<close>, run to the end.\<close>

function opsLoop :: "int option \<Rightarrow> edit_op list \<Rightarrow> reader \<Rightarrow> wire_error + edit_op list" where
  "opsLoop left out r =
     (if (case left of Some n \<Rightarrow> n > 0 | None \<Rightarrow> \<not> done_reader r) then
        (case readOp r of
           Inl e \<Rightarrow> Inl e
         | Inr ((op, n), r') \<Rightarrow> opsLoop (map_option (\<lambda>l. l - n) left) (out @ [op]) r')
      else if (case left of Some n \<Rightarrow> n < 0 | None \<Rightarrow> False) then Inl EndsInside
      else Inr out)"
  by pat_completeness auto
termination
  by (relation "measure (\<lambda>(left, out, r). rd_end r - rd_pos r)") (auto dest!: readOp_forward [OF sym] readOp_forward)

declare opsLoop.simps [simp del]

definition editOps :: "bytes \<Rightarrow> bool \<Rightarrow> wire_error + edit_op list" where
  "editOps bs edit =
     (let r = newReader bs in
      if \<not> edit then opsLoop None [] r
      else
        andThen (lifted (arrayHeader r)) (\<lambda>(n, r1).
        if int n - 1 < 0 then Inl NoEnvelope
        else andThen (lifted (skip r1)) (opsLoop (Some (int n - 1)) [])))"

section \<open>Frames\<close>

datatype frame =
  EditsFrame "(wire_envelope \<times> bytes) list"
  | LiveFrame int
  | VouchFrame int
  | ViewFrame jsstr int "jsstr list"
  | EndFrame int jsstr

definition strings :: "reader \<Rightarrow> msg_error + (jsstr list \<times> reader)" where
  "strings r = andThen (arrayHeader r) (\<lambda>(n, r1). readMany str n r1)"

text \<open>One edit of a frame: its bytes, and its envelope read from them.\<close>

definition readEdit :: "reader \<Rightarrow> wire_error + ((wire_envelope \<times> bytes) \<times> reader)" where
  "readEdit r =
     andThen (lifted (view r)) (\<lambda>(raw, r1).
     andThen (readEnvelope (newReader raw)) (\<lambda>(env, _). Inr ((env, raw), r1)))"

fun readEdits :: "nat \<Rightarrow> reader \<Rightarrow> wire_error + ((wire_envelope \<times> bytes) list \<times> reader)" where
  "readEdits 0 r = Inr ([], r)"
| "readEdits (Suc n) r =
     andThen (readEdit r) (\<lambda>(x, r1). andThen (readEdits n r1) (\<lambda>(xs, r2). Inr (x # xs, r2)))"

text \<open>What a frame of each tag holds, and how many elements that is, its tag included.\<close>

definition frameBody :: "jsstr \<Rightarrow> reader \<Rightarrow> wire_error + ((frame \<times> nat) \<times> reader)" where
  "frameBody tag r =
     (if tag = lit ''edits'' then
        andThen (lifted (arrayHeader r)) (\<lambda>(m, r1).
        andThen (readEdits m r1) (\<lambda>(edits, r2). Inr ((EditsFrame edits, 2), r2)))
      else if tag = lit ''live'' \<or> tag = lit ''vouch'' then
        andThen (lifted (int_value r)) (\<lambda>(p, r1).
        Inr ((if tag = lit ''live'' then LiveFrame p else VouchFrame p, 2), r1))
      else if tag = lit ''view'' then
        andThen (lifted (str r)) (\<lambda>(token, r1).
        andThen (lifted (int_value r1)) (\<lambda>(p, r2).
        andThen (lifted (strings r2)) (\<lambda>(selectors, r3). Inr ((ViewFrame token p selectors, 4), r3))))
      else if tag = lit ''end'' then
        andThen (lifted (int_value r)) (\<lambda>(code, r1).
        andThen (lifted (str r1)) (\<lambda>(reason, r2). Inr ((EndFrame code reason, 3), r2)))
      else Inl (UnknownFrame tag))"

definition readFrame :: "reader \<Rightarrow> wire_error + (frame \<times> reader)" where
  "readFrame r =
     andThen (lifted (arrayHeader r)) (\<lambda>(n, r1).
     if n < 1 then Inl EmptyFrame else
     andThen (lifted (str r1)) (\<lambda>(tag, r2).
     andThen (frameBody tag r2) (\<lambda>((frame, used), r3).
     if n < used then Inl (ShortFrame tag) else
     andThen (lifted (skipMany (n - used) r3)) (\<lambda>r4. Inr (frame, r4)))))"

definition parseFrame :: "bytes \<Rightarrow> wire_error + frame" where
  "parseFrame bs = map_sum id fst (readFrame (newReader bs))"

end
