(* ===== verification/WireRound.thy ===== *)
theory WireRound
  imports WireFrames
begin

text \<open>
  The forms of edits, pages and frames on the wire, as bytes, and the proofs that the transport's
  readers take them back, with what a later protocol appends skipped.
\<close>

section \<open>Mutation ids\<close>

lemma HEX_digit: "n < 16 \<Longrightarrow> hex_unit (HEX ! n) \<and> hexDigit (HEX ! n) = int n \<and> HEX ! n \<noteq> 0x2d"
proof -
  have "\<forall>n \<in> set [0..<16]. hex_unit (HEX ! n) \<and> hexDigit (HEX ! n) = int n \<and> HEX ! n \<noteq> 0x2d" by code_simp
  then show "n < 16 \<Longrightarrow> hex_unit (HEX ! n) \<and> hexDigit (HEX ! n) = int n \<and> HEX ! n \<noteq> 0x2d" by simp
qed

lemma nibbles: "nat (drop_bit 4 (uint b)) < 16" "nat (uint (b :: 8 word) AND 0x0f) < 16"
  "drop_bit 4 (uint b) * 16 + (uint b AND 0x0f) = uint b" "0 \<le> drop_bit 4 (uint b)" "0 \<le> uint b AND 0x0f"
proof -
  have d: "drop_bit 4 (uint b) = uint b div 16" by (simp add: drop_bit_int_def)
  have m: "uint b AND 0x0f = uint b mod 16" using and_low [of "uint b" 4] by (simp add: mask_nums)
  show "nat (drop_bit 4 (uint b)) < 16" "nat (uint b AND 0x0f) < 16" "drop_bit 4 (uint b) * 16 + (uint b AND 0x0f) = uint b"
    "0 \<le> drop_bit 4 (uint b)" "0 \<le> uint b AND 0x0f"
    using byte_bounds [of b] unfolding d m by (auto simp: pos_imp_zdiv_nonneg_iff)
qed

lemma hexPairs_byte: "hexPairs (hexByte b @ s) = b # hexPairs s"
proof -
  have "byte (uint b) = b" by (simp add: byte_def)
  then show ?thesis using HEX_digit nibbles [of b] by (simp add: hexByte_def)
qed

lemma uuidFrom_hex: "filter (\<lambda>u. u \<noteq> 0x2d) (uuidFrom i bs) = concat (map hexByte bs)"
  using HEX_digit nibbles by (induction i bs rule: uuidFrom.induct) (simp_all add: hexByte_def)

lemma hexPairs_bytes: "hexPairs (concat (map hexByte bs)) = bs"
  by (induction bs) (simp_all add: hexPairs_byte)

lemma hex_bytes: "list_all hex_unit (concat (map hexByte bs)) \<and> length (concat (map hexByte bs)) = 2 * length bs"
  using HEX_digit nibbles by (induction bs) (simp_all add: hexByte_def)

lemma uuid_round: "length b = 16 \<Longrightarrow> \<exists>s. uuidString b = Inr s \<and> uuidBytes s = Inr b"
  using hex_bytes [of b] by (simp add: uuidString_def uuidBytes_def Let_def uuidFrom_hex hexPairs_bytes)

section \<open>Reads that may fail for reasons of their own\<close>

lemma past_form: "rd_ok r \<Longrightarrow> unread r = bs @ rest \<Longrightarrow>
    rd_ok (advanceBy (length bs) r) \<and> unread (advanceBy (length bs) r) = rest"
  by (simp add: rd_ok_advanceBy unread_advanceBy)

lemma reads_lifted: "reads f bs v \<Longrightarrow> reads (\<lambda>r. lifted (f r)) bs v"
  by (simp add: reads_def)

lemma reads_check: "\<not> c \<Longrightarrow> reads f bs v \<Longrightarrow> reads (\<lambda>r. if c then Inl e else f r) bs v"
  by simp

lemma reads_const: "x = Inr y \<Longrightarrow> reads (f y) bs v \<Longrightarrow> reads (\<lambda>r. andThen x (\<lambda>y. f y r)) bs v"
  by simp

lemma reads_skipMany: "\<forall>x \<in> set xs. value_bytes x \<Longrightarrow> length xs = n \<Longrightarrow>
    reads (\<lambda>r. andThen (lifted (skipMany n r)) (\<lambda>r'. Inr (v, r'))) (concat xs) v"
proof (induction xs arbitrary: n)
  case Nil
  then show ?case by (simp add: reads_def)
next
  case (Cons x xs)
  show ?case
  proof (rule readsI)
    fix r rest assume r: "rd_ok r" "unread r = concat (x # xs) @ rest"
    have "skip r = Inr (advanceBy (length x) r)" using Cons.prems(1) r by (intro skip_value_bytes) auto
    moreover have "rd_ok (advanceBy (length x) r)" "unread (advanceBy (length x) r) = concat xs @ rest"
      using r by (simp_all add: rd_ok_advanceBy unread_advanceBy)
    ultimately show "andThen (lifted (skipMany n r)) (\<lambda>r'. Inr (v, r')) = Inr (v, advanceBy (length (concat (x # xs))) r)"
      using readsD [OF Cons.IH [of "length xs"], of "advanceBy (length x) r" rest] Cons.prems by auto
  qed
qed

section \<open>Edits\<close>

text \<open>An envelope: six elements, and what a later protocol appends.\<close>

definition lifeNumber :: "lifecycle \<Rightarrow> int" where
  "lifeNumber l = (case l of Normal \<Rightarrow> 0 | Birth \<Rightarrow> 1 | Death \<Rightarrow> 2)"

definition envelopeBytes :: "wire_envelope \<Rightarrow> bytes \<Rightarrow> bytes list \<Rightarrow> bytes" where
  "envelopeBytes env ident extra =
     encHeader (6 + length extra) 0x90 0xdc @ encInt (we_position env) @ encStr (we_slice env) @ encInt (we_seq env) @
     encBin ident @ encTimestamp (we_servertime env) @ encInt (lifeNumber (we_lifecycle env)) @ concat extra"

definition envelope_ok :: "wire_envelope \<Rightarrow> bytes \<Rightarrow> bytes list \<Rightarrow> bool" where
  "envelope_ok env ident extra =
     (\<bar>we_position env\<bar> < 2 ^ 53 \<and> keyFits (we_slice env) \<and>
      \<bar>we_seq env\<bar> < 2 ^ 53 \<and> uuidString ident = Inr (we_id env) \<and>
      (\<exists>ms. we_servertime env = Some ms \<and> \<bar>ms\<bar> \<le> 8640000000000000) \<and>
      6 + length extra < 2 ^ 32 \<and> (\<forall>x \<in> set extra. value_bytes x))"

lemma reads_envelope:
  assumes ok: "envelope_ok env ident extra" and n: "0 < n" "n < 2 ^ 32"
  shows "reads readEnvelope (encHeader n 0x90 0xdc @ envelopeBytes env ident extra) env"
proof -
  obtain ms where t: "we_servertime env = Some ms" "\<bar>ms\<bar> \<le> 8640000000000000" using ok by (auto simp: envelope_ok_def)
  have idl: "length ident = 16" using ok by (auto simp: envelope_ok_def uuidString_def split: if_splits)
  have life: "\<not> (lifeNumber (we_lifecycle env) < 0 \<or> nat (lifeNumber (we_lifecycle env)) \<ge> length LIFECYCLES)"
    "LIFECYCLES ! nat (lifeNumber (we_lifecycle env)) = we_lifecycle env"
    by (cases "we_lifecycle env"; simp add: lifeNumber_def LIFECYCLES_def)+
  have env: "\<lparr>we_position = we_position env, we_slice = we_slice env, we_seq = we_seq env, we_id = we_id env,
      we_servertime = normDate (we_servertime env), we_lifecycle = LIFECYCLES ! nat (lifeNumber (we_lifecycle env))\<rparr> = env"
    using life(2) t(1) by (cases env) (simp add: normDate_def)
  have ints: "reads int_value (encInt (we_position env)) (we_position env)" "reads int_value (encInt (we_seq env)) (we_seq env)"
    "reads int_value (encInt (lifeNumber (we_lifecycle env))) (lifeNumber (we_lifecycle env))"
    using ok by (auto simp: envelope_ok_def lifeNumber_def split: lifecycle.split intro!: reads_int)
  have strs: "reads str (encStr (we_slice env)) (we_slice env)" using ok by (intro reads_str) (auto simp: envelope_ok_def)
  have bins: "reads bin (encBin ident) ident" using idl by (intro reads_bin) simp
  have times: "reads timestamp (encTimestamp (we_servertime env)) (normDate (we_servertime env))"
    using t by (intro reads_timestamp) simp
  have heads: "reads arrayHeader (encHeader n 0x90 0xdc) n"
    "reads arrayHeader (encHeader (6 + length extra) 0x90 0xdc) (6 + length extra)"
    using n ok by (auto intro!: reads_arrayHeader simp: envelope_ok_def)
  have idr: "uuidString ident = Inr (we_id env)" using ok by (simp add: envelope_ok_def)
  have extra: "reads (\<lambda>r. andThen (lifted (skipMany (6 + length extra - 6) r)) (\<lambda>r'. Inr (env, r'))) (concat extra) env"
    using ok by (intro reads_skipMany) (auto simp: envelope_ok_def)
  show ?thesis
    unfolding envelopeBytes_def readEnvelope_def
    apply (rule reads_bind [OF reads_lifted [OF heads(1)]], rule reads_check, use n in simp)
    apply (rule reads_bind [OF reads_lifted [OF heads(2)]], rule reads_check, simp)
    apply (rule reads_bind [OF reads_lifted [OF ints(1)]], rule reads_bind [OF reads_lifted [OF strs]])
    apply (rule reads_bind [OF reads_lifted [OF ints(2)]], rule reads_bind [OF reads_lifted [OF bins]])
    apply (rule reads_const [OF idr], rule reads_bind [OF reads_lifted [OF times]])
    apply (rule reads_bind [OF reads_lifted [OF ints(3)]], rule reads_check [OF life(1)])
    apply (unfold env)
    by (rule extra)
qed

text \<open>The operations of an edit, each the items it is made of; an edit; and a page of operations.\<close>

definition opItems :: "edit_op \<Rightarrow> bytes list" where
  "opItems op = (case op of (key, Some bs) \<Rightarrow> [encInt 0, encStr key, bs] | (key, None) \<Rightarrow> [encInt 1, encStr key])"

definition op_ok :: "edit_op \<Rightarrow> bool" where
  "op_ok op = (keyFits (fst op) \<and> (\<forall>bs. snd op = Some bs \<longrightarrow> value_bytes bs))"

abbreviation itemsOf :: "edit_op list \<Rightarrow> bytes list" where "itemsOf ops \<equiv> concat (map opItems ops)"

definition editBytes :: "wire_envelope \<Rightarrow> bytes \<Rightarrow> bytes list \<Rightarrow> edit_op list \<Rightarrow> bytes" where
  "editBytes env ident extra ops =
     encHeader (1 + length (itemsOf ops)) 0x90 0xdc @ envelopeBytes env ident extra @ concat (itemsOf ops)"

lemma reads_readOp:
  assumes "op_ok op"
  shows "reads readOp (concat (opItems op)) (op, int (length (opItems op)))"
proof -
  obtain key v where op: "op = (key, v)" by (cases op)
  have s: "reads (\<lambda>r. lifted (str r)) (encStr key) key"
    using assms by (intro reads_lifted reads_str) (auto simp: op op_ok_def)
  have i: "reads (\<lambda>r. lifted (int_value r)) (encInt n) n" if "0 \<le> n" "n \<le> 1" for n
    using that by (intro reads_lifted reads_int) auto
  show ?thesis
  proof (cases v)
    case None
    have "reads readOp (encInt 1 @ encStr key @ []) ((key, None), 2)"
      unfolding readOp_def
      by (rule reads_bind [OF i], simp, simp, rule reads_check, simp, rule reads_bind [OF s]) (simp add: reads_pure)
    then show ?thesis by (simp add: op None opItems_def)
  next
    case (Some bs)
    have v: "reads (\<lambda>r. lifted (view r)) bs bs" using assms by (intro reads_lifted reads_view) (auto simp: op Some op_ok_def)
    have "reads readOp (encInt 0 @ encStr key @ bs @ []) ((key, Some bs), 3)"
      unfolding readOp_def
      by (rule reads_bind [OF i], simp, simp, rule reads_check, simp, rule reads_bind [OF s])
        (simp, rule reads_bind [OF v, of _ "[]", simplified], rule reads_pure)
    then show ?thesis by (simp add: op Some opItems_def)
  qed
qed

lemma opItems_pos: "0 < length (opItems op)" "op_ok op \<Longrightarrow> concat (opItems op) \<noteq> []"
proof -
  show "0 < length (opItems op)" by (auto simp: opItems_def split: prod.split option.split)
  have "encStr k \<noteq> []" for k by (simp add: encStr_def Let_def)
  then show "op_ok op \<Longrightarrow> concat (opItems op) \<noteq> []" by (cases op; cases "snd op") (simp_all add: opItems_def)
qed

lemma opsLoop_ops:
  assumes "\<forall>op \<in> set ops. op_ok op" "rd_ok r" "unread r = concat (itemsOf ops) @ rest"
    "left = None \<and> rest = [] \<or> left = Some (int (length (itemsOf ops)))"
  shows "opsLoop left out r = Inr (out @ ops)"
  using assms
proof (induction ops arbitrary: left out r)
  case Nil
  then have "done_reader r" if "rest = []" using that length_unread [of r] by (simp add: done_reader_def)
  then show ?case using Nil.prems(4) by (subst opsLoop.simps) auto
next
  case (Cons op ops)
  let ?b = "concat (opItems op)" let ?r = "advanceBy (length ?b) r"
  have u: "unread r = ?b @ concat (itemsOf ops) @ rest" using Cons.prems(3) by simp
  have o: "readOp r = Inr ((op, int (length (opItems op))), ?r)"
    using readsD [OF reads_readOp Cons.prems(2) u] Cons.prems(1) by simp
  have "unread r \<noteq> []" using u opItems_pos(2) [of op] Cons.prems(1) by auto
  then have nd: "\<not> done_reader r" using length_unread [OF Cons.prems(2)] by (auto simp: done_reader_def)
  have r: "rd_ok ?r" "unread ?r = concat (itemsOf ops) @ rest"
    using u Cons.prems(2) by (simp_all add: rd_ok_advanceBy unread_advanceBy)
  have go: "case left of Some n \<Rightarrow> n > 0 | None \<Rightarrow> \<not> done_reader r"
  proof -
    have "0 < int (length (itemsOf (op # ops)))" using opItems_pos(1) [of op] by (cases "opItems op") auto
    then show ?thesis using Cons.prems(4) nd by auto
  qed
  have "opsLoop left out r = opsLoop (map_option (\<lambda>l. l - int (length (opItems op))) left) (out @ [op]) ?r"
    using go o by (subst opsLoop.simps) simp
  also have "\<dots> = Inr ((out @ [op]) @ ops)"
    using Cons.prems(1,4) by (intro Cons.IH r) auto
  finally show ?case by simp
qed

lemma editOps_page: "\<forall>op \<in> set ops. op_ok op \<Longrightarrow> editOps (concat (itemsOf ops)) False = Inr ops"
  using opsLoop_ops [of ops "newReader (concat (itemsOf ops))" "[]" None "[]"] by (simp add: editOps_def Let_def)

lemma envelope_value:
  assumes "envelope_ok env ident extra"
  shows "value_bytes (envelopeBytes env ident extra)"
proof -
  obtain ms where t: "we_servertime env = Some ms" "\<bar>ms\<bar> \<le> 8640000000000000" using assms by (auto simp: envelope_ok_def)
  let ?xs = "[encInt (we_position env), encStr (we_slice env), encInt (we_seq env), encBin ident,
      encTimestamp (we_servertime env), encInt (lifeNumber (we_lifecycle env))] @ extra"
  have ints: "value_bytes (encInt n)" if "\<bar>n\<bar> < 2 ^ 53" for n
    by (rule value_bytes_read [OF reads_int [OF that] steps_int])
  have "value_bytes (encStr (we_slice env))"
    using assms by (intro value_bytes_read [OF reads_str steps_str]) (auto simp: envelope_ok_def)
  moreover have "value_bytes (encBin ident)"
    using assms by (intro value_bytes_read [OF reads_bin steps_bin]) (auto simp: envelope_ok_def uuidString_def split: if_splits)
  moreover have "value_bytes (encTimestamp (we_servertime env))"
    using t by (intro value_bytes_read [OF reads_timestamp steps_timestamp]) simp_all
  moreover have "value_bytes (encInt (we_position env))" "value_bytes (encInt (we_seq env))"
      "value_bytes (encInt (lifeNumber (we_lifecycle env)))"
    using assms by (auto simp: envelope_ok_def lifeNumber_def split: lifecycle.split intro!: ints)
  ultimately have "\<forall>x \<in> set ?xs. value_bytes x" using assms by (auto simp: envelope_ok_def)
  from value_bytes_array [OF _ _ this, of "6 + length extra"] assms show ?thesis
    by (simp add: envelopeBytes_def envelope_ok_def)
qed

text \<open>An edit: its envelope and its operations read back, whatever the envelope's extra elements.\<close>

lemma edit_reads_back:
  assumes "envelope_ok env ident extra" "\<forall>op \<in> set ops. op_ok op" "1 + length (itemsOf ops) < 2 ^ 32"
  shows "\<exists>r'. readEnvelope (newReader (editBytes env ident extra ops)) = Inr (env, r')"
    "editOps (editBytes env ident extra ops) True = Inr ops" "value_bytes (editBytes env ident extra ops)"
proof -
  let ?e = "editBytes env ident extra ops" let ?n = "1 + length (itemsOf ops)" let ?h = "encHeader ?n 0x90 0xdc"
  let ?v = "envelopeBytes env ident extra"
  have "unread (newReader ?e) = (?h @ ?v) @ concat (itemsOf ops)" by (simp add: editBytes_def)
  from readsD [OF reads_envelope [OF assms(1) _ assms(3)] _ this]
  show "\<exists>r'. readEnvelope (newReader ?e) = Inr (env, r')" by simp
  let ?r = "advanceBy (length ?h) (newReader ?e)"
  have h: "arrayHeader (newReader ?e) = Inr (?n, ?r)"
    using readsD [OF reads_arrayHeader [OF assms(3)], of "newReader ?e" "?v @ concat (itemsOf ops)"] by (simp add: editBytes_def)
  have r: "rd_ok ?r" "unread ?r = ?v @ concat (itemsOf ops)"
    using past_form [of "newReader ?e" ?h "?v @ concat (itemsOf ops)"] by (simp_all add: editBytes_def)
  have k: "skip ?r = Inr (advanceBy (length ?v) ?r)" by (rule skip_value_bytes [OF envelope_value [OF assms(1)] r])
  have s: "rd_ok (advanceBy (length ?v) ?r)" "unread (advanceBy (length ?v) ?r) = concat (itemsOf ops) @ []"
    using past_form [OF r] by simp_all
  have "opsLoop (Some (int (length (itemsOf ops)))) [] (advanceBy (length ?v) ?r) = Inr ([] @ ops)"
    by (rule opsLoop_ops [OF assms(2) s]) simp
  then show "editOps ?e True = Inr ops" using h k by (simp add: editOps_def Let_def)
  have items: "\<forall>x \<in> set (opItems op). value_bytes x" if "op \<in> set ops" for op
  proof -
    have "keyFits (fst op)" "snd op = Some bs \<Longrightarrow> value_bytes bs" for bs using assms(2) that by (auto simp: op_ok_def)
    then show ?thesis
      by (auto simp: opItems_def split: prod.splits option.splits
          intro!: value_bytes_read [OF reads_int steps_int] value_bytes_read [OF reads_str steps_str])
  qed
  have "value_bytes (encHeader ?n 0x90 0xdc @ concat (?v # itemsOf ops))"
    using items envelope_value [OF assms(1)] by (intro value_bytes_array assms(3)) auto
  then show "value_bytes ?e" by (simp add: editBytes_def)
qed

section \<open>Frames\<close>

text \<open>The elements of a frame, its tag first.\<close>

definition frameElements :: "frame \<Rightarrow> bytes list" where
  "frameElements f =
     (case f of
        EditsFrame es \<Rightarrow> [encStr (lit ''edits''), encHeader (length es) 0x90 0xdc @ concat (map snd es)]
      | LiveFrame p \<Rightarrow> [encStr (lit ''live''), encInt p]
      | VouchFrame p \<Rightarrow> [encStr (lit ''vouch''), encInt p]
      | ViewFrame token p ss \<Rightarrow>
          [encStr (lit ''view''), encStr token, encInt p, encHeader (length ss) 0x90 0xdc @ concat (map encStr ss)]
      | EndFrame code reason \<Rightarrow> [encStr (lit ''end''), encInt code, encStr reason])"

definition frameBytes :: "frame \<Rightarrow> bytes list \<Rightarrow> bytes" where
  "frameBytes f extra =
     encHeader (length (frameElements f) + length extra) 0x90 0xdc @ concat (frameElements f) @ concat extra"

definition wire_int :: "int \<Rightarrow> bool" where "wire_int p = (\<bar>p\<bar> < 2 ^ 53)"

text \<open>An edit of a frame is some value that holds its envelope.\<close>

definition frame_ok :: "frame \<Rightarrow> bool" where
  "frame_ok f =
     (case f of
        EditsFrame es \<Rightarrow> length es < 2 ^ 32 \<and>
          (\<forall>(env, raw) \<in> set es. value_bytes raw \<and> (\<exists>r'. readEnvelope (newReader raw) = Inr (env, r')))
      | LiveFrame p \<Rightarrow> wire_int p
      | VouchFrame p \<Rightarrow> wire_int p
      | ViewFrame token p ss \<Rightarrow> keyFits token \<and> wire_int p \<and> length ss < 2 ^ 32 \<and> (\<forall>s \<in> set ss. keyFits s)
      | EndFrame code reason \<Rightarrow> wire_int code \<and> keyFits reason)"

lemma reads_wire_int: "wire_int p \<Longrightarrow> reads (\<lambda>r. lifted (int_value r)) (encInt p) p"
  by (rule reads_lifted [OF reads_int]) (simp_all add: wire_int_def)

lemma reads_wire_str: "keyFits s \<Longrightarrow> reads (\<lambda>r. lifted (str r)) (encStr s) s"
  by (rule reads_lifted [OF reads_str]) simp_all

lemma reads_readEdit:
  assumes "value_bytes raw" "readEnvelope (newReader raw) = Inr (env, r')"
  shows "reads readEdit raw (env, raw)"
proof -
  have "reads readEdit (raw @ []) (env, raw)"
    unfolding readEdit_def by (rule reads_bind [OF reads_lifted [OF reads_view [OF assms(1)]]]) (simp add: assms(2) reads_pure)
  then show ?thesis by simp
qed

lemma reads_last: "reads f bs x \<Longrightarrow> (\<And>r. g x r = Inr (v, r)) \<Longrightarrow> reads (\<lambda>r. andThen (f r) (\<lambda>(x, r'). g x r')) bs v"
  using reads_bind [of f bs x g "[]" v] by (simp add: reads_def)

lemma reads_bind_pair: "reads f bs (x, y) \<Longrightarrow> reads (g x y) cs v \<Longrightarrow>
    reads (\<lambda>r. andThen (f r) (\<lambda>((x, y), r'). g x y r')) (bs @ cs) v"
  using reads_bind [of f bs "(x, y)" "\<lambda>(x, y). g x y" cs v] by (simp add: split_beta')

lemma reads_readEdits:
  "\<forall>(env, raw) \<in> set es. value_bytes raw \<and> (\<exists>r'. readEnvelope (newReader raw) = Inr (env, r')) \<Longrightarrow>
    reads (readEdits (length es)) (concat (map snd es)) es"
proof (induction es)
  case (Cons e es)
  obtain env raw where e: "e = (env, raw)" by (cases e)
  have r: "reads readEdit raw (env, raw)" using Cons.prems by (auto simp: e intro: reads_readEdit)
  have "reads (\<lambda>r. andThen (readEdits (length es) r) (\<lambda>(xs, r2). Inr ((env, raw) # xs, r2))) (concat (map snd es)) ((env, raw) # es)"
    by (rule reads_last [OF Cons.IH]) (use Cons.prems in auto)
  from reads_bind [where g = "\<lambda>x r. andThen (readEdits (length es) r) (\<lambda>(xs, r2). Inr (x # xs, r2))", OF r this]
  show ?case by (simp add: e)
qed (simp add: reads_def)

lemma reads_strings:
  assumes "length ss < 2 ^ 32" "\<forall>s \<in> set ss. keyFits s"
  shows "reads (\<lambda>r. lifted (strings r)) (encHeader (length ss) 0x90 0xdc @ concat (map encStr ss)) ss"
  unfolding strings_def
  by (rule reads_lifted, rule reads_bind [OF reads_arrayHeader [OF assms(1)]]) (use assms(2) texts.reads_list in auto)

text \<open>The body of a frame, after its tag.\<close>

lemma reads_frameBody:
  assumes "frame_ok f"
  obtains tag where "frameElements f = encStr tag # tl (frameElements f)" "keyFits tag"
    "reads (frameBody tag) (concat (tl (frameElements f))) (f, length (frameElements f))"
proof -
  have tags: "keyFits (lit ''edits'')" "keyFits (lit ''live'')" "keyFits (lit ''vouch'')" "keyFits (lit ''view'')" "keyFits (lit ''end'')"
  proof -
    have k: "\<forall>t \<in> {lit ''edits'', lit ''live'', lit ''vouch'', lit ''view'', lit ''end''}. keepsText t \<and> utf8Count t \<le> 5" by code_simp
    have "(5 :: nat) < 2 ^ 32" by simp
    with k show "keyFits (lit ''edits'')" "keyFits (lit ''live'')" "keyFits (lit ''vouch'')" "keyFits (lit ''view'')" "keyFits (lit ''end'')"
      by (auto intro: le_less_trans)
  qed
  have ne: "lit ''live'' \<noteq> lit ''edits''" "lit ''vouch'' \<noteq> lit ''edits''" "lit ''vouch'' \<noteq> lit ''live''" 
    "lit ''view'' \<noteq> lit ''edits''" "lit ''view'' \<noteq> lit ''live''" "lit ''view'' \<noteq> lit ''vouch''"
    "lit ''end'' \<noteq> lit ''edits''" "lit ''end'' \<noteq> lit ''live''" "lit ''end'' \<noteq> lit ''vouch''" "lit ''end'' \<noteq> lit ''view''"
    by code_simp+
  show thesis
  proof (cases f)
    case (EditsFrame es)
    have len: "length (frameElements f) = 2" by (simp add: frameElements_def EditsFrame)
    have e: "length es < 2 ^ 32" "reads (readEdits (length es)) (concat (map snd es)) es"
      using assms reads_readEdits [of es] by (auto simp: frame_ok_def EditsFrame)
    have "reads (frameBody (lit ''edits'')) (encHeader (length es) 0x90 0xdc @ concat (map snd es)) (f, length (frameElements f))"
      unfolding frameBody_def len unfolding EditsFrame
      by (simp only: if_True refl, rule reads_bind [OF reads_lifted [OF reads_arrayHeader [OF e(1)]]], rule reads_last [OF e(2)]) simp
    then show ?thesis using that [OF _ tags(1)] by (simp add: frameElements_def EditsFrame)
  next
    case (LiveFrame p)
    have len: "length (frameElements f) = 2" by (simp add: frameElements_def LiveFrame)
    have "reads (frameBody (lit ''live'')) (encInt p) (f, length (frameElements f))"
      unfolding frameBody_def len unfolding LiveFrame using assms
      by (simp add: ne frame_ok_def LiveFrame, intro reads_last [OF reads_wire_int]) simp_all
    then show ?thesis using that [OF _ tags(2)] by (simp add: frameElements_def LiveFrame)
  next
    case (VouchFrame p)
    have len: "length (frameElements f) = 2" by (simp add: frameElements_def VouchFrame)
    have "reads (frameBody (lit ''vouch'')) (encInt p) (f, length (frameElements f))"
      unfolding frameBody_def len unfolding VouchFrame using assms
      by (simp add: ne frame_ok_def VouchFrame, intro reads_last [OF reads_wire_int]) simp_all
    then show ?thesis using that [OF _ tags(3)] by (simp add: frameElements_def VouchFrame)
  next
    case (ViewFrame token p ss)
    have len: "length (frameElements f) = 4" by (simp add: frameElements_def ViewFrame)
    have o: "keyFits token" "wire_int p" "length ss < 2 ^ 32" "\<forall>s \<in> set ss. keyFits s"
      using assms by (simp_all add: frame_ok_def ViewFrame)
    have "reads (frameBody (lit ''view'')) (encStr token @ encInt p @ encHeader (length ss) 0x90 0xdc @ concat (map encStr ss)) (f, length (frameElements f))"
      unfolding frameBody_def len unfolding ViewFrame
      by (simp only: ne if_False simp_thms if_True, rule reads_bind [OF reads_wire_str [OF o(1)]],
        rule reads_bind [OF reads_wire_int [OF o(2)]], rule reads_last [OF reads_strings [OF o(3,4)]]) simp
    then show ?thesis using that [OF _ tags(4)] by (simp add: frameElements_def ViewFrame)
  next
    case (EndFrame code reason)
    have len: "length (frameElements f) = 3" by (simp add: frameElements_def EndFrame)
    have o: "wire_int code" "keyFits reason" using assms by (simp_all add: frame_ok_def EndFrame)
    have "reads (frameBody (lit ''end'')) (encInt code @ encStr reason) (f, length (frameElements f))"
      unfolding frameBody_def len unfolding EndFrame
      by (simp only: ne if_False simp_thms if_True, rule reads_bind [OF reads_wire_int [OF o(1)]], rule reads_last [OF reads_wire_str [OF o(2)]]) simp
    then show ?thesis using that [OF _ tags(5)] by (simp add: frameElements_def EndFrame)
  qed
qed

lemma frame_reads_back:
  assumes "frame_ok f" "\<forall>x \<in> set extra. value_bytes x" "length (frameElements f) + length extra < 2 ^ 32"
  shows "parseFrame (frameBytes f extra) = Inr f"
proof -
  obtain tag where t: "frameElements f = encStr tag # tl (frameElements f)" "keyFits tag"
      "reads (frameBody tag) (concat (tl (frameElements f))) (f, length (frameElements f))"
    using reads_frameBody [OF assms(1)] .
  let ?n = "length (frameElements f) + length extra"
  have n: "0 < length (frameElements f)" by (subst t(1)) simp
  have b: "frameBytes f extra = encHeader ?n 0x90 0xdc @ encStr tag @ concat (tl (frameElements f)) @ concat extra"
    unfolding frameBytes_def by (subst (2) t(1)) simp
  define rest where "rest n tag = (\<lambda>frame used r3. if n < used then Inl (ShortFrame tag)
     else andThen (lifted (skipMany (n - used) r3)) (\<lambda>r4. Inr (frame :: frame, r4)))" for n :: nat and tag
  have e: "reads (rest ?n tag f (length (frameElements f))) (concat extra) f"
    unfolding rest_def using reads_skipMany [OF assms(2), of "length extra" f] by simp
  have "reads readFrame (frameBytes f extra) f"
    unfolding readFrame_def b
    by (rule reads_bind [OF reads_lifted [OF reads_arrayHeader [OF assms(3)]]], rule reads_check, use n in simp,
      rule reads_bind [OF reads_wire_str [OF t(2)]], rule reads_bind_pair [where g = "rest ?n tag", OF t(3) e, unfolded rest_def])
  from readsD [OF this, of "newReader (frameBytes f extra)" "[]"] show ?thesis by (simp add: parseFrame_def)
qed

end
