(* ===== verification/Checksum.thy ===== *)
theory Checksum
  imports WireRound
begin

text \<open>
  The checksums of a snapshot blob (client/ts/src/checksum.ts): CRC-32C by a table of 256 entries, and
  FNV-1a 64 on four 16-bit limbs. The proofs: the table's CRC is the bit-by-bit one, the limbs are
  multiplication modulo 2^64, and a running state resumes from its digits.
\<close>

section \<open>CRC-32C\<close>

text \<open>One bit of the division by the reflected polynomial.\<close>

definition crcBit :: "32 word \<Rightarrow> 32 word" where
  "crcBit c = (if c AND 1 \<noteq> 0 then 0x82f63b78 XOR drop_bit 1 c else drop_bit 1 c)"

definition crcTable :: "32 word list" where
  "crcTable = map (\<lambda>i. (crcBit ^^ 8) (of_nat i)) [0..<256]"

definition crcStep :: "8 word \<Rightarrow> 32 word \<Rightarrow> 32 word" where
  "crcStep b c = (crcTable ! unat ((c XOR ucast b) AND 0xff)) XOR drop_bit 8 c"

definition crc32c :: "bytes \<Rightarrow> 32 word \<Rightarrow> 32 word" where
  "crc32c bs crc = NOT (fold crcStep bs (NOT crc))"

text \<open>The reference: every bit of every byte, with no table.\<close>

definition crcByBits :: "bytes \<Rightarrow> 32 word \<Rightarrow> 32 word" where
  "crcByBits bs crc = NOT (fold (\<lambda>b c. (crcBit ^^ 8) (c XOR ucast b)) bs (NOT crc))"

lemma crcBit_xor: "crcBit (a XOR b) = crcBit a XOR crcBit b"
proof -
  have d: "drop_bit 1 (a XOR b) = drop_bit 1 a XOR drop_bit 1 b" by (rule drop_bit_xor)
  have o: "x AND 1 \<noteq> 0 \<longleftrightarrow> bit x 0" for x :: "32 word" by (simp add: and_one_eq flip: odd_iff_mod_2_eq_one) (simp add: bit_0)
  show ?thesis unfolding crcBit_def o bit_xor_iff d
    by (cases "bit a 0"; cases "bit b 0") (simp_all add: ac_simps xor.left_commute)
qed

lemma crcBits_xor: "(crcBit ^^ n) (a XOR b) = (crcBit ^^ n) a XOR (crcBit ^^ n) b"
  by (induction n) (simp_all add: crcBit_xor)

text \<open>While the low bits are 0, a step only shifts.\<close>

lemma crcBits_shift: "(\<And>i. i < n \<Longrightarrow> \<not> bit c i) \<Longrightarrow> (crcBit ^^ n) c = drop_bit n c"
proof (induction n)
  case (Suc n)
  have "\<not> bit (drop_bit n c) 0" using Suc.prems [of n] by (simp add: bit_drop_bit_eq)
  then have "crcBit (drop_bit n c) = drop_bit 1 (drop_bit n c)"
    by (simp add: crcBit_def and_one_eq bit_0 even_iff_mod_2_eq_zero)
  then show ?case using Suc by simp
qed simp

lemma crcTable_at: "i < 256 \<Longrightarrow> crcTable ! i = (crcBit ^^ 8) (of_nat i)"
  by (simp add: crcTable_def)

lemma crcStep_bits: "crcStep b c = (crcBit ^^ 8) (c XOR ucast b)"
proof -
  define x where "x = c XOR ucast b"
  have m: "(0xff :: 32 word) = mask 8" by (simp add: mask_eq_exp_minus_1)
  have t: "x AND mask 8 = take_bit 8 x" by (simp add: take_bit_eq_mask)
  have "unat (x AND mask 8) = unat x mod 2 ^ 8" unfolding t unsigned_take_bit_eq by (rule take_bit_eq_mod)
  then have "unat (x AND mask 8) < 256" by simp
  then have low: "crcTable ! unat (x AND 0xff) = (crcBit ^^ 8) (x AND mask 8)" by (simp add: crcTable_at m)
  have high: "(crcBit ^^ 8) (x AND NOT (mask 8)) = drop_bit 8 (x AND NOT (mask 8))"
    by (rule crcBits_shift) (simp add: bit_simps)
  have "drop_bit 8 (x AND NOT (mask 8)) = drop_bit 8 c"
    unfolding x_def by (rule bit_word_eqI) (auto simp: bit_simps dest: bit_imp_le_length)
  moreover have "x = (x AND mask 8) XOR (x AND NOT (mask 8))" by (rule bit_word_eqI) (auto simp: bit_simps)
  ultimately have "(crcBit ^^ 8) x = (crcBit ^^ 8) (x AND mask 8) XOR drop_bit 8 c"
    using crcBits_xor [of 8 "x AND mask 8" "x AND NOT (mask 8)"] high by metis
  then show ?thesis using low by (simp only: crcStep_def x_def)
qed

lemma crc32c_by_bits: "crc32c bs crc = crcByBits bs crc"
proof -
  have "crcStep = (\<lambda>b c. (crcBit ^^ 8) (c XOR ucast b))" by (intro ext crcStep_bits)
  then show ?thesis by (simp add: crc32c_def crcByBits_def)
qed

text \<open>A checksum goes on from where it stopped.\<close>

lemma crc32c_append: "crc32c (a @ b) crc = crc32c b (crc32c a crc)"
  by (simp add: crc32c_def)

section \<open>FNV-1a 64\<close>

text \<open>The state: four limbs, low first.\<close>

type_synonym limbs = "int \<times> int \<times> int \<times> int"

definition fnvStart :: limbs where "fnvStart = (0x2325, 0x8422, 0x9ce4, 0xcbf2)"

definition fnvByte :: "8 word \<Rightarrow> limbs \<Rightarrow> limbs" where
  "fnvByte b h =
     (case h of (h0', h1, h2, h3) \<Rightarrow>
        let h0 = h0' XOR uint b;
            t0 = h0 * 0x1b3;
            t1 = h1 * 0x1b3;
            t2 = h2 * 0x1b3 + (push_bit 8 h0 AND 0xffff);
            t3 = h3 * 0x1b3 + ((drop_bit 8 h0 OR push_bit 8 h1) AND 0xffff);
            u1 = t1 + drop_bit 16 t0;
            u2 = t2 + drop_bit 16 u1;
            u3 = t3 + drop_bit 16 u2
        in (t0 AND 0xffff, u1 AND 0xffff, u2 AND 0xffff, u3 AND 0xffff))"

definition fnvUpdate :: "bytes \<Rightarrow> limbs \<Rightarrow> limbs" where
  "fnvUpdate bs h = fold fnvByte bs h"

text \<open>The big-endian digest.\<close>

definition fnvDigest :: "limbs \<Rightarrow> bytes" where
  "fnvDigest h =
     (case h of (h0, h1, h2, h3) \<Rightarrow>
        [byte (drop_bit 8 h3), byte (h3 AND 0xff), byte (drop_bit 8 h2), byte (h2 AND 0xff),
         byte (drop_bit 8 h1), byte (h1 AND 0xff), byte (drop_bit 8 h0), byte (h0 AND 0xff)])"

text \<open>The reference: the hash as a 64-bit word.\<close>

definition fnvWord :: "bytes \<Rightarrow> 64 word \<Rightarrow> 64 word" where
  "fnvWord bs h = fold (\<lambda>b h. (h XOR ucast b) * 0x100000001b3) bs h"

definition limbs_ok :: "limbs \<Rightarrow> bool" where
  "limbs_ok h = (case h of (h0, h1, h2, h3) \<Rightarrow>
     0 \<le> h0 \<and> h0 < 2 ^ 16 \<and> 0 \<le> h1 \<and> h1 < 2 ^ 16 \<and> 0 \<le> h2 \<and> h2 < 2 ^ 16 \<and> 0 \<le> h3 \<and> h3 < 2 ^ 16)"

definition limbsValue :: "limbs \<Rightarrow> int" where
  "limbsValue h = (case h of (h0, h1, h2, h3) \<Rightarrow> h0 + h1 * 2 ^ 16 + h2 * 2 ^ 32 + h3 * 2 ^ 48)"

lemma carry_exact:
  fixes t0 t1 t2 t3 :: int
  assumes "t0 = q0 * 65536 + r0" "t1 + q0 = q1 * 65536 + r1" "t2 + q1 = q2 * 65536 + r2" "t3 + q2 = q3 * 65536 + r3"
  shows "t0 + t1 * 2 ^ 16 + t2 * 2 ^ 32 + t3 * 2 ^ 48 = r0 + r1 * 2 ^ 16 + r2 * 2 ^ 32 + r3 * 2 ^ 48 + q3 * 2 ^ 64"
  using assms by simp

lemma carry:
  fixes t0 t1 t2 t3 :: int
  defines "u1 \<equiv> t1 + t0 div 65536"
  defines "u2 \<equiv> t2 + u1 div 65536"
  defines "u3 \<equiv> t3 + u2 div 65536"
  shows "(t0 mod 65536 + u1 mod 65536 * 2 ^ 16 + u2 mod 65536 * 2 ^ 32 + u3 mod 65536 * 2 ^ 48) mod 2 ^ 64
    = (t0 + t1 * 2 ^ 16 + t2 * 2 ^ 32 + t3 * 2 ^ 48) mod 2 ^ 64"
proof -
  have "t0 + t1 * 2 ^ 16 + t2 * 2 ^ 32 + t3 * 2 ^ 48 =
      t0 mod 65536 + u1 mod 65536 * 2 ^ 16 + u2 mod 65536 * 2 ^ 32 + u3 mod 65536 * 2 ^ 48 + u3 div 65536 * 2 ^ 64"
    by (rule carry_exact [of t0 "t0 div 65536" _ t1 "u1 div 65536" _ t2 "u2 div 65536" _ t3])
      (simp_all only: div_mult_mod_eq flip: u1_def u2_def u3_def)
  then show ?thesis by (simp only: mod_mult_self1)
qed

lemma high_bits: "0 \<le> (x :: int) \<Longrightarrow> x < 2 ^ n \<Longrightarrow> n \<le> m \<Longrightarrow> \<not> bit x m"
  by (metis bit_take_bit_iff linorder_not_le take_bit_int_eq_self)

lemma xor_low:
  fixes g b v :: int
  assumes "0 \<le> g" "g < 2 ^ 16" "0 \<le> b" "b < 2 ^ 16"
  shows "(g + v * 2 ^ 16) XOR b = (g XOR b) + v * 2 ^ 16" "0 \<le> g XOR b" "g XOR b < 2 ^ 16"
proof -
  show x: "0 \<le> g XOR b" "g XOR b < 2 ^ 16" using assms XOR_upper [of g 16 b] by simp_all
  have "g OR v * 2 ^ 16 = g OR push_bit 16 v" "(g XOR b) OR v * 2 ^ 16 = (g XOR b) OR push_bit 16 v"
    by (simp_all add: push_bit_int_def)
  moreover have "(g OR push_bit 16 v) XOR b = (g XOR b) OR push_bit 16 v"
  proof (rule bit_eqI)
    fix n
    show "bit ((g OR push_bit 16 v) XOR b) n = bit ((g XOR b) OR push_bit 16 v) n"
      using high_bits [of g 16 n] high_bits [of b 16 n] assms
      by (cases "n < 16") (auto simp: bit_xor_iff bit_or_iff bit_push_bit_iff)
  qed
  ultimately show "(g + v * 2 ^ 16) XOR b = (g XOR b) + v * 2 ^ 16"
    using or_shift [of g 16 v] or_shift [of "g XOR b" 16 v] assms x by metis
qed

text \<open>The multiplication by 0x1b3 + 2^40, limb by limb.\<close>

lemma limbs_times:
  fixes h0 h1 h2 h3 :: int
  assumes "h0 * 256 = h * 65536 + m" "h + h1 * 256 = k * 65536 + s"
  shows "(h0 + h1 * 2 ^ 16 + h2 * 2 ^ 32 + h3 * 2 ^ 48) * 0x100000001b3 =
    h0 * 0x1b3 + h1 * 0x1b3 * 2 ^ 16 + (h2 * 0x1b3 + m) * 2 ^ 32 + (h3 * 0x1b3 + s) * 2 ^ 48
      + (k + h2 * 2 ^ 8 + h3 * 2 ^ 24) * 2 ^ 64"
  using assms by simp

lemma fnvByte_value:
  assumes "limbs_ok h"
  shows "limbs_ok (fnvByte b h)"
    "limbsValue (fnvByte b h) mod 2 ^ 64 = (limbsValue h XOR uint b) * 0x100000001b3 mod 2 ^ 64"
proof -
  obtain g0 h1 h2 h3 where h: "h = (g0, h1, h2, h3)" by (cases h)
  have g: "0 \<le> g0" "g0 < 2 ^ 16" using assms by (simp_all add: limbs_ok_def h)
  have b: "0 \<le> uint b" "uint b < 2 ^ 16" using byte_bounds [of b] by simp_all
  define h0 where "h0 = g0 XOR uint b"
  have h0: "0 \<le> h0" "h0 < 2 ^ 16" using xor_low(2,3) [OF g b] by (simp_all add: h0_def)
  have mask: "v AND 0xffff = v mod 65536" for v :: int using and_low [of v 16] by (simp add: mask_eq_exp_minus_1)
  have d: "drop_bit 16 v = v div 65536" "drop_bit 8 v = v div 256" "push_bit 8 v = v * 256" for v :: int
    by (simp_all add: drop_bit_int_def push_bit_int_def)
  show "limbs_ok (fnvByte b h)" by (simp add: limbs_ok_def fnvByte_def h Let_def mask)
  have v: "limbsValue h XOR uint b = h0 + h1 * 2 ^ 16 + h2 * 2 ^ 32 + h3 * 2 ^ 48"
    using xor_low(1) [OF g b, of "h1 + h2 * 2 ^ 16 + h3 * 2 ^ 32"] by (simp add: limbsValue_def h h0_def algebra_simps)
  have o: "h0 div 256 OR h1 * 256 = h0 div 256 + h1 * 256" using or_shift [of "h0 div 256" 8 h1] h0 by auto
  define t2 t3 where "t2 = h2 * 0x1b3 + h0 * 256 mod 65536" and "t3 = h3 * 0x1b3 + (h0 div 256 + h1 * 256) mod 65536"
  have q: "h0 * 256 div 65536 = h0 div 256" by (simp add: div_mult_mult2 [of 256 h0 256, simplified])
  have "(limbsValue h XOR uint b) * 0x100000001b3 =
      h0 * 0x1b3 + h1 * 0x1b3 * 2 ^ 16 + t2 * 2 ^ 32 + t3 * 2 ^ 48
      + ((h0 div 256 + h1 * 256) div 65536 + h2 * 2 ^ 8 + h3 * 2 ^ 24) * 2 ^ 64"
    unfolding v t2_def t3_def by (rule limbs_times [of _ "h0 div 256"]) (use q div_mult_mod_eq [of "h0 * 256" 65536] in \<open>simp_all only: div_mult_mod_eq\<close>)
  then have m: "(limbsValue h XOR uint b) * 0x100000001b3 mod 2 ^ 64 =
      (h0 * 0x1b3 + h1 * 0x1b3 * 2 ^ 16 + t2 * 2 ^ 32 + t3 * 2 ^ 48) mod 2 ^ 64"
    by (simp only: mod_mult_self1)
  have "fnvByte b h = (let u1 = h1 * 0x1b3 + h0 * 0x1b3 div 65536; u2 = t2 + u1 div 65536; u3 = t3 + u2 div 65536
      in (h0 * 0x1b3 mod 65536, u1 mod 65536, u2 mod 65536, u3 mod 65536))"
    by (simp add: fnvByte_def h Let_def mask d o h0_def [symmetric] t2_def t3_def)
  then show "limbsValue (fnvByte b h) mod 2 ^ 64 = (limbsValue h XOR uint b) * 0x100000001b3 mod 2 ^ 64"
    unfolding m using carry [of "h0 * 0x1b3" "h1 * 0x1b3" t2 t3] by (simp only: limbsValue_def Let_def prod.case)
qed

lemma fnvUpdate_ok: "limbs_ok h \<Longrightarrow> limbs_ok (fnvUpdate bs h)"
  unfolding fnvUpdate_def by (induction bs arbitrary: h) (simp_all add: fnvByte_value)

lemma fnvUpdate_word: "limbs_ok h \<Longrightarrow> word_of_int (limbsValue (fnvUpdate bs h)) = fnvWord bs (word_of_int (limbsValue h))"
proof (induction bs arbitrary: h)
  case (Cons b bs)
  have "word_of_int (limbsValue (fnvByte b h)) = (word_of_int ((limbsValue h XOR uint b) * 0x100000001b3) :: 64 word)"
    using fnvByte_value(2) [OF Cons.prems, of b] unfolding word_of_int_eq_iff take_bit_eq_mod by simp
  also have "\<dots> = (word_of_int (limbsValue h) XOR ucast b) * 0x100000001b3"
    by (simp add: of_int_xor_eq)
  finally show ?case
    using Cons.IH [OF fnvByte_value(1) [OF Cons.prems, of b]] by (simp add: fnvUpdate_def fnvWord_def)
qed (simp add: fnvUpdate_def fnvWord_def)

section \<open>Digests and states\<close>

lemma limb_bytes: "0 \<le> (v :: int) \<Longrightarrow> v < 2 ^ 16 \<Longrightarrow> uint (byte (drop_bit 8 v)) * 256 + uint (byte (v AND 0xff)) = v"
proof -
  assume v: "0 \<le> v" "v < 2 ^ 16"
  have "v AND 0xff = v mod 256" using and_low [of v 8] by (simp add: mask_nums)
  moreover have "v div 256 mod 256 = v div 256" using v by (intro mod_pos_pos_trivial) auto
  ultimately show ?thesis by (simp add: drop_bit_int_def)
qed

lemma fnvDigest_value: "limbs_ok h \<Longrightarrow> beVal (fnvDigest h) = limbsValue h"
proof -
  assume ok: "limbs_ok h"
  obtain h0 h1 h2 h3 where h: "h = (h0, h1, h2, h3)" by (cases h)
  note l = limb_bytes [of h0] limb_bytes [of h1] limb_bytes [of h2] limb_bytes [of h3]
  show ?thesis using ok l unfolding h limbs_ok_def fnvDigest_def limbsValue_def beVal_def by (simp del: uint_byte)
qed

text \<open>\<open>state\<close> and \<open>resume\<close>.\<close>

definition fnvState :: "limbs \<Rightarrow> jsstr" where
  "fnvState h = concat (map hexByte (fnvDigest h))"

definition lower_hex :: "unit16 \<Rightarrow> bool" where
  "lower_hex u = (digit_unit u \<or> 0x61 \<le> u \<and> u \<le> 0x66)"

definition hexValue :: "jsstr \<Rightarrow> int" where
  "hexValue s = foldl (\<lambda>n u. n * 16 + hexDigit u) 0 s"

datatype fnv_error = BadState jsstr

definition fnvResume :: "jsstr \<Rightarrow> fnv_error + limbs" where
  "fnvResume s =
     (if length s = 16 \<and> list_all lower_hex s
      then Inr (hexValue (take 4 (drop 12 s)), hexValue (take 4 (drop 8 s)), hexValue (take 4 (drop 4 s)), hexValue (take 4 s))
      else Inl (BadState s))"

lemma HEX_lower: "n < 16 \<Longrightarrow> lower_hex (HEX ! n)"
proof -
  have "\<forall>n \<in> set [0..<16]. lower_hex (HEX ! n)" by code_simp
  then show "n < 16 \<Longrightarrow> lower_hex (HEX ! n)" by simp
qed

lemma hexByte_value:
  "hexByte b = [x, y] \<Longrightarrow> hexDigit x * 16 + hexDigit y = uint b \<and> lower_hex x \<and> lower_hex y"
  using HEX_digit HEX_lower nibbles [of b] by (auto simp: hexByte_def)

lemma hex_limb:
  assumes "0 \<le> v" "v < 2 ^ 16"
  shows "hexValue (hexByte (byte (drop_bit 8 v)) @ hexByte (byte (v AND 0xff))) = v"
proof -
  obtain a b c d where h: "hexByte (byte (drop_bit 8 v)) = [a, b]" "hexByte (byte (v AND 0xff)) = [c, d]"
    by (simp add: hexByte_def)
  show ?thesis
    using limb_bytes [OF assms] hexByte_value [OF h(1)] hexByte_value [OF h(2)] unfolding h
    by (simp add: hexValue_def algebra_simps del: uint_byte)
qed

lemma quarters:
  assumes "length a = 4" "length b = 4" "length c = 4" "length d = 4"
  shows "take 4 (a @ b @ c @ d) = a" "take 4 (drop 4 (a @ b @ c @ d)) = b"
    "take 4 (drop 8 (a @ b @ c @ d)) = c" "take 4 (drop 12 (a @ b @ c @ d)) = d"
  using assms by simp_all

lemma fnvResume_state: "limbs_ok h \<Longrightarrow> fnvResume (fnvState h) = Inr h"
proof -
  assume ok: "limbs_ok h"
  obtain h0 h1 h2 h3 where h: "h = (h0, h1, h2, h3)" by (cases h)
  let ?g = "\<lambda>v. hexByte (byte (drop_bit 8 v)) @ hexByte (byte (v AND 0xff))"
  have s: "fnvState h = ?g h3 @ ?g h2 @ ?g h1 @ ?g h0" by (simp add: fnvState_def fnvDigest_def h)
  have b: "list_all lower_hex (hexByte b) \<and> length (hexByte b) = 2" for b
    using HEX_lower nibbles [of b] by (simp add: hexByte_def)
  have l: "length (?g v) = 4" "list_all lower_hex (?g v)" for v :: int
    by (simp_all add: b)
  note q = quarters [OF l(1) l(1) l(1) l(1), of h3 h2 h1 h0, folded s]
  have "length (fnvState h) = 16" "list_all lower_hex (fnvState h)"
    unfolding s length_append list_all_append using l by simp_all
  then have "fnvResume (fnvState h) = Inr (hexValue (?g h0), hexValue (?g h1), hexValue (?g h2), hexValue (?g h3))"
    unfolding fnvResume_def q by simp
  moreover have "hexValue (?g h0) = h0" "hexValue (?g h1) = h1" "hexValue (?g h2) = h2" "hexValue (?g h3) = h3"
    using ok by (auto simp only: h limbs_ok_def prod.case intro!: hex_limb)
  ultimately show ?thesis by (simp only: h)
qed

text \<open>So a hash may stop, be kept as text, and go on.\<close>

definition sameBytes :: "bytes \<Rightarrow> bytes \<Rightarrow> bool" where
  "sameBytes a b = (length a = length b \<and> list_all (\<lambda>i. a ! i = b ! i) [0..<length a])"

lemma sameBytes_eq: "sameBytes a b \<longleftrightarrow> a = b"
  by (auto simp: sameBytes_def list_all_iff intro: nth_equalityI)

lemma fnvStart_ok: "limbs_ok fnvStart" "word_of_int (limbsValue fnvStart) = (0xcbf29ce484222325 :: 64 word)"
  by (simp_all add: limbs_ok_def fnvStart_def limbsValue_def)

end
