(* ===== verification/ByteStream.thy ===== *)
theory ByteStream
  imports WireRound
begin

text \<open>
  The buffered reading of a response body (client/ts/src/bytes.ts, \<open>ByteReader\<close>) and the frame loop
  over it (client/ts/src/frames.ts, \<open>frames\<close>). A body is the list of chunks the network brings, which
  an await takes one by one; the proofs show that what is read does not depend on the chunks.
\<close>

section \<open>The reader of a body\<close>

datatype body_error = BodyEnded | TakePast | PeekPast | MidFrame | BodyMsg msg_error | BodyFrame wire_error

record byte_reader =
  br_buf :: bytes
  br_pos :: nat
  br_len :: nat
  br_base :: nat
  br_eof :: bool
  br_body :: "bytes list"

definition newByteReader :: "bytes list \<Rightarrow> nat \<Rightarrow> byte_reader" where
  "newByteReader body base =
     \<lparr>br_buf = replicate (64 * 1024) 0, br_pos = 0, br_len = 0, br_base = base, br_eof = False, br_body = body\<rparr>"

definition offset :: "byte_reader \<Rightarrow> nat" where "offset br = br_base br + br_pos br"

definition available :: "byte_reader \<Rightarrow> nat" where "available br = br_len br - br_pos br"

text \<open>Room for n more bytes: the unread tail moves to the front, of a larger buffer if it must.\<close>

definition makeRoom :: "nat \<Rightarrow> byte_reader \<Rightarrow> byte_reader" where
  "makeRoom n br =
     (if br_len br + n > length (br_buf br) then
        let keep = br_len br - br_pos br;
            tail' = take keep (drop (br_pos br) (br_buf br));
            buf = (if keep + n > length (br_buf br)
                   then tail' @ replicate (max (length (br_buf br) * 2) (keep + n) - keep) 0
                   else tail' @ drop keep (br_buf br))
        in br\<lparr>br_buf := buf, br_base := br_base br + br_pos br, br_pos := 0, br_len := keep\<rparr>
      else br)"

definition append_chunk :: "bytes \<Rightarrow> byte_reader \<Rightarrow> byte_reader" where
  "append_chunk v br =
     br\<lparr>br_buf := take (br_len br) (br_buf br) @ v @ drop (br_len br + length v) (br_buf br), br_len := br_len br + length v\<rparr>"

definition more :: "byte_reader \<Rightarrow> bool \<times> byte_reader" where
  "more br =
     (if br_eof br then (False, br)
      else
        case br_body br of
          [] \<Rightarrow> (False, br\<lparr>br_eof := True\<rparr>)
        | v # body \<Rightarrow> (True, append_chunk v (makeRoom (length v) (br\<lparr>br_body := body\<rparr>))))"

lemma more_body: "more br = (True, br') \<Longrightarrow> length (br_body br') < length (br_body br)"
  by (auto simp: more_def append_chunk_def makeRoom_def Let_def split: if_splits list.splits)

function fill :: "nat \<Rightarrow> byte_reader \<Rightarrow> body_error + byte_reader" where
  "fill n br =
     (if available br < n then
        (case more br of (True, br') \<Rightarrow> fill n br' | (False, br') \<Rightarrow> Inl BodyEnded)
      else Inr br)"
  by pat_completeness auto
termination by (relation "measure (\<lambda>(n, br). length (br_body br))") (simp_all add: more_body)

definition takeBytes :: "nat \<Rightarrow> byte_reader \<Rightarrow> body_error + (bytes \<times> byte_reader)" where
  "takeBytes n br =
     (if available br < n then Inl TakePast
      else Inr (take n (drop (br_pos br) (br_buf br)), br\<lparr>br_pos := br_pos br + n\<rparr>))"

function skipBytes :: "nat \<Rightarrow> byte_reader \<Rightarrow> body_error + byte_reader" where
  "skipBytes n br =
     (if n > 0 then
        let have' = available br in
        if have' \<ge> n then Inr (br\<lparr>br_pos := br_pos br + n\<rparr>)
        else (case more (br\<lparr>br_pos := br_len br\<rparr>) of
                (True, br') \<Rightarrow> skipBytes (n - have') br'
              | (False, br') \<Rightarrow> Inl BodyEnded)
      else Inr br)"
  by pat_completeness auto
termination by (relation "measure (\<lambda>(n, br). length (br_body br))") (auto dest!: more_body [OF sym] more_body)

definition peek :: "byte_reader \<Rightarrow> body_error + 8 word" where
  "peek br = (if br_pos br \<ge> br_len br then Inl PeekPast else Inr (br_buf br ! br_pos br))"

definition tryValue :: "byte_reader \<Rightarrow> body_error + (bytes option \<times> byte_reader)" where
  "tryValue br =
     andThen (map_sum BodyMsg id (measure_value (br_buf br) (br_pos br) (br_len br))) (\<lambda>e.
     case e of
       None \<Rightarrow> Inr (None, br)
     | Some q \<Rightarrow> Inr (Some (take (q - br_pos br) (drop (br_pos br) (br_buf br))), br\<lparr>br_pos := q\<rparr>))"

fun measureMany :: "bytes \<Rightarrow> nat \<Rightarrow> nat \<Rightarrow> nat \<Rightarrow> msg_error + nat option" where
  "measureMany buf e 0 pos = Inr (Some pos)"
| "measureMany buf e (Suc n) pos =
     andThen (measure_value buf pos e) (\<lambda>q. case q of None \<Rightarrow> Inr None | Some p \<Rightarrow> measureMany buf e n p)"

definition tryValues :: "nat \<Rightarrow> byte_reader \<Rightarrow> body_error + (bytes option \<times> byte_reader)" where
  "tryValues n br =
     andThen (map_sum BodyMsg id (measureMany (br_buf br) (br_len br) n (br_pos br))) (\<lambda>e.
     case e of
       None \<Rightarrow> Inr (None, br)
     | Some q \<Rightarrow> Inr (Some (take (q - br_pos br) (drop (br_pos br) (br_buf br))), br\<lparr>br_pos := q\<rparr>))"

declare fill.simps [simp del] skipBytes.simps [simp del]

section \<open>The frame loop\<close>

lemma map_sum_right: "map_sum f id r = Inr a \<longleftrightarrow> r = Inr a"
  by (cases r) auto

lemma tryValue_some: "tryValue br = Inr (Some v, br') \<Longrightarrow>
    br_pos br < br_pos br' \<and> br_pos br' \<le> br_len br \<and> br_len br' = br_len br \<and> br_body br' = br_body br"
  using measureLoop_bounds [of "br_buf br" "br_len br" "br_pos br" 1]
  by (auto simp: tryValue_def measure_value_def andThen_eq_Inr map_sum_right split: option.splits)

lemma tryValue_none: "tryValue br = Inr (None, br') \<Longrightarrow> br' = br"
  by (auto simp: tryValue_def andThen_eq_Inr split: option.splits)

text \<open>\<open>frames\<close>: fn answers whether to go on; the state it leaves, and the error the loop ends with.\<close>

function framesLoop :: "(frame \<Rightarrow> 's \<Rightarrow> bool \<times> 's) \<Rightarrow> byte_reader \<Rightarrow> 's \<Rightarrow> 's \<times> body_error option" where
  "framesLoop fn br s =
     (case tryValue br of
        Inl e \<Rightarrow> (s, Some e)
      | Inr (Some v, br') \<Rightarrow>
          (case parseFrame v of
             Inl e \<Rightarrow> (s, Some (BodyFrame e))
           | Inr f \<Rightarrow> (case fn f s of (True, s') \<Rightarrow> framesLoop fn br' s' | (False, s') \<Rightarrow> (s', None)))
      | Inr (None, br') \<Rightarrow>
          (case more br' of
             (True, br2) \<Rightarrow> framesLoop fn br2 s
           | (False, br2) \<Rightarrow> (s, if available br2 > 0 then Some MidFrame else None)))"
  by pat_completeness auto
termination
  by (relation "measures [\<lambda>(fn, br, s). length (br_body br), \<lambda>(fn, br, s). br_len br - br_pos br]")
    (auto dest!: tryValue_none more_body [OF sym] more_body dest: tryValue_some)

declare framesLoop.simps [simp del]

section \<open>What is read does not depend on the chunks\<close>

text \<open>\<open>ahead\<close>: all that is still to be read, buffered or not.\<close>

definition buffered :: "byte_reader \<Rightarrow> bytes" where
  "buffered br = take (br_len br - br_pos br) (drop (br_pos br) (br_buf br))"

definition ahead :: "byte_reader \<Rightarrow> bytes" where
  "ahead br = buffered br @ concat (br_body br)"

definition br_ok :: "byte_reader \<Rightarrow> bool" where
  "br_ok br = (br_pos br \<le> br_len br \<and> br_len br \<le> length (br_buf br) \<and> (br_eof br \<longrightarrow> br_body br = []))"

lemma newByteReader_ok: "br_ok (newByteReader body base) \<and> ahead (newByteReader body base) = concat body \<and>
    offset (newByteReader body base) = base"
  by (simp add: br_ok_def newByteReader_def ahead_def buffered_def offset_def)

lemma length_buffered: "br_ok br \<Longrightarrow> length (buffered br) = available br"
  by (auto simp: br_ok_def buffered_def available_def)

lemma nth_buffered: "br_ok br \<Longrightarrow> i < available br \<Longrightarrow> buffered br ! i = br_buf br ! (br_pos br + i)"
  by (auto simp: br_ok_def buffered_def available_def)

lemma makeRoom_keeps:
  "br_ok br \<Longrightarrow> br_ok (makeRoom n br) \<and> buffered (makeRoom n br) = buffered br \<and> offset (makeRoom n br) = offset br \<and>
     br_body (makeRoom n br) = br_body br \<and> br_eof (makeRoom n br) = br_eof br \<and>
     br_len (makeRoom n br) + n \<le> length (br_buf (makeRoom n br))"
  by (auto simp: makeRoom_def Let_def br_ok_def buffered_def offset_def)

lemma append_chunk_adds:
  assumes "br_ok br" "br_len br + length v \<le> length (br_buf br)"
  shows "buffered (append_chunk v br) = buffered br @ v \<and> offset (append_chunk v br) = offset br \<and>
    br_body (append_chunk v br) = br_body br \<and> br_eof (append_chunk v br) = br_eof br \<and>
    br_pos (append_chunk v br) \<le> br_len (append_chunk v br) \<and> br_len (append_chunk v br) \<le> length (br_buf (append_chunk v br))"
proof -
  have d: "drop (br_pos br) (take (br_len br) (br_buf br) @ w) = buffered br @ w" for w
    using assms by (simp add: br_ok_def buffered_def drop_take)
  have "br_len br + length v - br_pos br = length (buffered br) + length v"
    using assms by (simp add: length_buffered [OF assms(1)] available_def br_ok_def)
  then show ?thesis using assms d by (auto simp: append_chunk_def buffered_def [of "_\<lparr>br_buf := _, br_len := _\<rparr>"] offset_def br_ok_def)
qed

lemma more_true:
  assumes "more br = (True, br')" "br_ok br"
  shows "br_ok br' \<and> ahead br' = ahead br \<and> offset br' = offset br"
proof -
  obtain v body where b: "\<not> br_eof br" "br_body br = v # body" "br' = append_chunk v (makeRoom (length v) (br\<lparr>br_body := body\<rparr>))"
    using assms(1) by (auto simp: more_def split: if_splits list.splits)
  have ok: "br_ok (br\<lparr>br_body := body\<rparr>)" using assms(2) b(1) by (simp add: br_ok_def)
  note m = makeRoom_keeps [OF ok, of "length v"]
  note a = append_chunk_adds [of "makeRoom (length v) (br\<lparr>br_body := body\<rparr>)" v]
  have "buffered (br\<lparr>br_body := body\<rparr>) = buffered br" "offset (br\<lparr>br_body := body\<rparr>) = offset br"
    by (simp_all add: buffered_def offset_def)
  then show ?thesis using m a b by (simp add: ahead_def br_ok_def)
qed

lemma more_false:
  assumes "more br = (False, br')" "br_ok br"
  shows "br_ok br' \<and> ahead br' = ahead br \<and> offset br' = offset br \<and> available br' = available br \<and> ahead br = buffered br"
  using assms by (auto simp: more_def br_ok_def ahead_def buffered_def offset_def available_def split: if_splits list.splits)

lemma measure_window:
  assumes ok: "br_ok br" and v: "value_bytes v" and a: "buffered br @ x = v @ rest"
  shows "measure_value (br_buf br) (br_pos br) (br_len br) =
    Inr (if length v \<le> available br then Some (br_pos br + length v) else None)"
proof (cases "length v \<le> available br")
  case True
  have "br_buf br ! (br_pos br + i) = v ! i" if "i < length v" for i
  proof -
    have "(buffered br @ x) ! i = v ! i" using that a by (simp add: nth_append)
    then show ?thesis using that True ok by (simp add: nth_append length_buffered nth_buffered)
  qed
  then show ?thesis
    using measureLoop_shift [of v "length v" 0 1 "length v" "br_buf br" "br_pos br" "br_len br"] v True ok
    by (auto simp: value_bytes_def measure_value_def available_def br_ok_def)
next
  case False
  let ?b = "take (br_pos br) (br_buf br) @ v"
  have l: "length (take (br_pos br) (br_buf br)) = br_pos br" using ok by (simp add: br_ok_def)
  have "measureLoop ?b (br_pos br + length v) (br_pos br) 1 = Inr (Some (br_pos br + length v))"
    using measureLoop_shift [of v "length v" 0 1 "length v" ?b "br_pos br" "br_pos br + length v"] v l
    by (simp add: value_bytes_def nth_append)
  moreover have "br_buf br ! i = ?b ! i" if "i < br_len br" for i
  proof (cases "i < br_pos br")
    case False
    have "i - br_pos br < length v" using that \<open>\<not> length v \<le> available br\<close> False by (simp add: available_def)
    then have "(buffered br @ x) ! (i - br_pos br) = v ! (i - br_pos br)" unfolding a by (simp add: nth_append)
    moreover have "i - br_pos br < available br" using that False by (simp add: available_def)
    ultimately show ?thesis using False ok l by (simp add: nth_append length_buffered nth_buffered)
  qed (use ok in \<open>simp add: nth_append br_ok_def\<close>)
  moreover have far: "br_len br < br_pos br + length v" using False ok by (auto simp: available_def br_ok_def)
  ultimately have "measureLoop (br_buf br) (br_len br) (br_pos br) 1 =
      Inr (if br_pos br + length v \<le> br_len br \<or> (1 :: nat) = 0 then Some (br_pos br + length v) else None)"
    by (intro measureLoop_shorter [of "br_len br" _ ?b "br_pos br + length v"]) auto
  then show ?thesis using far False by (simp add: measure_value_def)
qed

lemma tryValue_window:
  assumes "br_ok br" "value_bytes v" "buffered br @ x = v @ rest"
  shows "tryValue br = Inr (if length v \<le> available br then (Some v, br\<lparr>br_pos := br_pos br + length v\<rparr>) else (None, br))"
proof -
  have "take (length v) (drop (br_pos br) (br_buf br)) = v" if "length v \<le> available br"
  proof -
    have "take (length v) (buffered br @ x) = v" using assms(3) by simp
    then have "take (length v) (buffered br) = v" using that by (simp add: length_buffered [OF assms(1)])
    then show ?thesis using that by (simp add: buffered_def available_def min_absorb1)
  qed
  then show ?thesis using measure_window [OF assms] by (simp add: tryValue_def)
qed

lemma advance_keeps:
  assumes "br_ok br" "n \<le> available br"
  shows "br_ok (br\<lparr>br_pos := br_pos br + n\<rparr>) \<and> buffered (br\<lparr>br_pos := br_pos br + n\<rparr>) = drop n (buffered br) \<and>
    ahead (br\<lparr>br_pos := br_pos br + n\<rparr>) = drop n (ahead br)"
  using assms length_buffered [OF assms(1)]
  by (auto simp: br_ok_def buffered_def ahead_def available_def drop_take drop_drop add.commute)

text \<open>Filling and taking n bytes, or skipping them, is taking them off what is ahead.\<close>

lemma fill_ahead:
  "br_ok br \<Longrightarrow>
    (case fill n br of
       Inl e \<Rightarrow> e = BodyEnded \<and> length (ahead br) < n
     | Inr br' \<Rightarrow> br_ok br' \<and> ahead br' = ahead br \<and> offset br' = offset br \<and> n \<le> available br')"
proof (induction n br rule: fill.induct)
  case (1 n br)
  show ?case
  proof (cases "available br < n")
    case True
    show ?thesis
    proof (cases "more br")
      case (Pair going br')
      show ?thesis
      proof (cases going)
        case True
        then have m: "br_ok br' \<and> ahead br' = ahead br \<and> offset br' = offset br" using more_true 1(2) Pair by auto
        have "fill n br = fill n br'" using \<open>available br < n\<close> Pair True by (subst fill.simps) simp
        then show ?thesis using 1(1) [OF \<open>available br < n\<close> Pair [symmetric]] True m by (simp split: sum.splits)
      next
        case False
        then have "length (ahead br) = available br" using more_false [of br br'] 1(2) Pair length_buffered by auto
        then show ?thesis using \<open>available br < n\<close> Pair False by (subst fill.simps) simp
      qed
    qed
  next
    case False
    then show ?thesis using 1(2) by (subst fill.simps) simp
  qed
qed

lemma takeBytes_ahead:
  assumes "br_ok br" "n \<le> available br"
  shows "\<exists>br'. takeBytes n br = Inr (take n (ahead br), br') \<and> br_ok br' \<and> ahead br' = drop n (ahead br) \<and>
    offset br' = offset br + n"
proof -
  have "take n (ahead br) = take n (buffered br)" using assms by (simp add: ahead_def length_buffered)
  also have "\<dots> = take n (drop (br_pos br) (br_buf br))" using assms(2) by (simp add: buffered_def available_def min_absorb1)
  finally show ?thesis using assms advance_keeps [OF assms] by (simp add: takeBytes_def offset_def)
qed

lemma skipBytes_ahead:
  "br_ok br \<Longrightarrow>
    (case skipBytes n br of
       Inl e \<Rightarrow> e = BodyEnded \<and> length (ahead br) < n
     | Inr br' \<Rightarrow> br_ok br' \<and> n \<le> length (ahead br) \<and> ahead br' = drop n (ahead br) \<and> offset br' = offset br + n)"
proof (induction n br rule: skipBytes.induct)
  case (1 n br)
  have l: "available br \<le> length (ahead br)" using length_buffered [OF 1(2)] by (simp add: ahead_def)
  consider (none) "n = 0" | (here) "0 < n" "n \<le> available br" | (far) "0 < n" "\<not> n \<le> available br" by linarith
  then show ?case
  proof cases
    case here
    then show ?thesis using advance_keeps [OF 1(2) here(2)] l by (subst skipBytes.simps) (simp add: Let_def offset_def)
  next
    case far
    let ?b = "br\<lparr>br_pos := br_len br\<rparr>"
    have b: "br_ok ?b" "ahead ?b = drop (available br) (ahead br)" "offset ?b = offset br + available br" "buffered ?b = []"
      using advance_keeps [OF 1(2), of "available br"] 1(2) by (auto simp: available_def br_ok_def offset_def buffered_def)
    show ?thesis
    proof (cases "more ?b")
      case (Pair going br')
      show ?thesis
      proof (cases going)
        case True
        then have m: "br_ok br' \<and> ahead br' = ahead ?b \<and> offset br' = offset ?b" using more_true b(1) Pair by auto
        have "skipBytes n br = skipBytes (n - available br) br'"
          using far Pair True by (subst skipBytes.simps) (simp add: Let_def)
        moreover have "(case skipBytes (n - available br) br' of
             Inl e \<Rightarrow> e = BodyEnded \<and> length (ahead br') < n - available br
           | Inr b2 \<Rightarrow> br_ok b2 \<and> n - available br \<le> length (ahead br') \<and> ahead b2 = drop (n - available br) (ahead br') \<and>
               offset b2 = offset br' + (n - available br))"
          using 1(1) [OF far(1) refl far(2) Pair [symmetric]] True m by simp
        ultimately show ?thesis using m b far l by (auto split: sum.splits)
      next
        case False
        then have "ahead ?b = []" using more_false [of ?b br'] b Pair by auto
        then have "length (ahead br) \<le> available br" using b(2) by simp
        then show ?thesis using far Pair False by (subst skipBytes.simps) (simp add: Let_def)
      qed
    qed
  qed (use 1(2) in \<open>subst skipBytes.simps, simp\<close>)
qed

text \<open>
  The frames of a body: each whole value parsed and handed to fn in order, until fn says stop, a frame
  does not parse, or the body ends, cleanly or inside a value.
\<close>

fun frameRun :: "(frame \<Rightarrow> 's \<Rightarrow> bool \<times> 's) \<Rightarrow> bytes list \<Rightarrow> bytes \<Rightarrow> 's \<Rightarrow> 's \<times> body_error option" where
  "frameRun fn [] part s = (s, if part = [] then None else Some MidFrame)"
| "frameRun fn (v # vs) part s =
     (case parseFrame v of
        Inl e \<Rightarrow> (s, Some (BodyFrame e))
      | Inr f \<Rightarrow> (case fn f s of (True, s') \<Rightarrow> frameRun fn vs part s' | (False, s') \<Rightarrow> (s', None)))"

definition unfinished :: "bytes \<Rightarrow> bool" where
  "unfinished part = (part = [] \<or> (\<exists>x. x \<noteq> [] \<and> value_bytes (part @ x)))"

lemma unfinished_none:
  assumes "br_ok br" "ahead br = part" "unfinished part"
  shows "tryValue br = Inr (None, br)"
proof (cases "part = []")
  case True
  then have "br_pos br = br_len br" using assms(1,2) length_buffered [OF assms(1)] by (auto simp: ahead_def available_def br_ok_def)
  then have "measureLoop (br_buf br) (br_len br) (br_pos br) 1 = Inr None" by (subst measureLoop.simps) simp
  then show ?thesis by (simp add: tryValue_def measure_value_def)
next
  case False
  then obtain x where x: "x \<noteq> []" "value_bytes (part @ x)" using assms(3) by (auto simp: unfinished_def)
  have "available br \<le> length part" using length_buffered [OF assms(1)] assms(2) by (auto simp: ahead_def)
  then have "\<not> length (part @ x) \<le> available br" using x(1) by (cases x) auto
  moreover have "buffered br @ (concat (br_body br) @ x) = (part @ x) @ []" using assms(2) by (simp add: ahead_def)
  ultimately show ?thesis using tryValue_window [OF assms(1) x(2), of "concat (br_body br) @ x" "[]"] by simp
qed

lemma frames_run:
  "br_ok br \<Longrightarrow> ahead br = concat vs @ part \<Longrightarrow> \<forall>v \<in> set vs. value_bytes v \<Longrightarrow> unfinished part \<Longrightarrow>
    framesLoop fn br s = frameRun fn vs part s"
proof (induction fn br s arbitrary: vs rule: framesLoop.induct)
  case (1 fn br s)
  have refill: "framesLoop fn br s = frameRun fn vs part s" if t: "tryValue br = Inr (None, br)" "vs = [] \<or> available br < length (hd vs)"
  proof (cases "more br")
    case (Pair going br')
    show ?thesis
    proof (cases going)
      case True
      then have m: "br_ok br' \<and> ahead br' = ahead br" using more_true [of br br'] 1(3) Pair by auto
      have "framesLoop fn br s = framesLoop fn br' s" using t Pair True by (subst framesLoop.simps) simp
      then show ?thesis using 1(1) [OF t(1) refl refl Pair [symmetric]] True m 1(4-6) by simp
    next
      case False
      then have m: "available br' = available br" "length (ahead br) = available br"
        using more_false [of br br'] 1(3) Pair length_buffered by auto
      have "vs = []"
      proof (rule ccontr)
        assume "vs \<noteq> []"
        then have "length (hd vs) \<le> length (ahead br)" using 1(4) by (cases vs) auto
        then show False using m t(2) \<open>vs \<noteq> []\<close> by simp
      qed
      then show ?thesis using t Pair False m 1(4) by (subst framesLoop.simps) auto
    qed
  qed
  show ?case
  proof (cases vs)
    case Nil
    then show ?thesis using refill unfinished_none [OF 1(3)] 1(4,6) by simp
  next
    case (Cons v ws)
    have "buffered br @ concat (br_body br) = v @ (concat ws @ part)" using 1(4) Cons by (simp add: ahead_def)
    note t = tryValue_window [OF 1(3) _ this]
    show ?thesis
    proof (cases "length v \<le> available br")
      case True
      let ?b = "br\<lparr>br_pos := br_pos br + length v\<rparr>"
      have k: "br_ok ?b" "ahead ?b = concat ws @ part" using advance_keeps [OF 1(3) True] 1(4) Cons by simp_all
      have t': "tryValue br = Inr (Some v, ?b)" using t 1(5) Cons True by simp
      show ?thesis
      proof (cases "parseFrame v")
        case (Inl e)
        then show ?thesis using t' Cons by (subst framesLoop.simps) simp
      next
        case (Inr f)
        show ?thesis
        proof (cases "fn f s")
          case (Pair going s')
          have "framesLoop fn br s = (if going then framesLoop fn ?b s' else (s', None))"
            using t' Inr Pair by (subst framesLoop.simps) (simp split: bool.splits)
          moreover have "framesLoop fn ?b s' = frameRun fn ws part s'" if going
            using 1(2) [OF t' refl refl Inr Pair [symmetric]] that k 1(5,6) Cons by simp
          ultimately show ?thesis using Inr Pair Cons by (simp split: bool.splits)
        qed
      qed
    next
      case False
      then show ?thesis using refill t 1(5) Cons by simp
    qed
  qed
qed

end
