(* ===== verification/WireProperties.thy ===== *)
theory WireProperties
  imports Checksum ByteStream
begin

text \<open>
  What the wire formats promise: msgpack values survive encoding and decoding, \<open>skip\<close> steps over what
  \<open>any\<close> reads, and what is decoded is a value of JavaScript that can be encoded again.
\<close>

section \<open>msgpack\<close>

definition sampleVal :: jval where
  "sampleVal = ObjV [(lit ''2'', ArrV [NumV (IntN (-70000)), UndefV, DateV (Some 1500)]), (lit ''b'', UndefV),
    (lit ''c'', StrV (lit ''hi''))]"

lemma sample_writable: "writable 0 sampleVal"
  by (simp add: writable.simps sampleVal_def)

lemma sample_sendable: "sendable sampleVal"
proof -
  have t: "keepsText (lit ''2'')" "keepsText (lit ''b'')" "keepsText (lit ''c'')" "keepsText (lit ''hi'')" by code_simp+
  have n: "utf8Count (lit ''2'') = 1" "utf8Count (lit ''b'') = 1" "utf8Count (lit ''c'') = 1" "utf8Count (lit ''hi'') = 2"
    by code_simp+
  have k: "arrayIndex (lit ''b'') = None" "arrayIndex (lit ''c'') = None" "lit ''2'' \<noteq> lit ''b''" "lit ''2'' \<noteq> lit ''c''"
    "lit ''b'' \<noteq> lit ''c''"
    by code_simp+
  show ?thesis using t n k by (simp add: sampleVal_def keyBefore_def)
qed

lemma sample_bytes: "enc sampleVal =
    [0x82, 0xa1, 0x32, 0x93, 0xd2, 0xff, 0xfe, 0xee, 0x90, 0xc0, 0xd7, 0xff, 0x77, 0x35, 0x94, 0x00, 0, 0, 0, 1,
     0xa1, 0x63, 0xa2, 0x68, 0x69]"
  unfolding sampleVal_def by code_simp

text \<open>
  C17: a value that can be written is read back from its encoding, up to what msgpack has no form for:
  \<open>undefined\<close> items are null, \<open>undefined\<close> properties are gone, -0 is 0 and an invalid Date is time zero. Bytes
  after it are an error. The value's texts are well formed and none of more than 200 bytes of UTF-8 begins
  with U+FEFF (such a text loses that character, as a later property shows), its texts, arrays and objects
  are of fewer than 2^32 parts, and its dates and properties are as JavaScript has them.
\<close>

theorem encoded_value_reads_back:
  assumes "writable 0 v" "sendable v"
  shows "\<exists>bs. encodeAny v = Inr bs \<and> decodeAny (bs @ rest) = (if rest = [] then Inr (norm v) else Inl TrailingBytes)"
  using encodeAny_enc(1) [OF assms(1)] decodeAny_enc [OF assms] by blast

theorem encoded_value_reads_back_witness:
  "\<exists>bs. encodeAny sampleVal = Inr bs \<and> decodeAny (bs @ [0xc0]) = (if [0xc0 :: 8 word] = [] then Inr (norm sampleVal) else Inl TrailingBytes)"
  by (rule encoded_value_reads_back [OF sample_writable sample_sendable])

text \<open>
  C18: \<open>measure\<close> and the typed reads agree: on whatever bytes, when \<open>any\<close> reads a value, \<open>skip\<close> goes
  exactly as far, and \<open>view\<close> answers the bytes between.
\<close>

theorem skip_goes_where_any_goes:
  assumes "readAny d r = Inr (v, r')" "rd_ok r"
  shows "skip r = Inr r' \<and> view r = Inr (take (rd_pos r' - rd_pos r) (drop (rd_pos r) (rd_buf r)), r')"
  using skip_any [OF assms] by (simp add: view_def)

theorem skip_goes_where_any_goes_witness:
  "skip (newReader (enc sampleVal @ [0xc0])) = Inr (advanceBy (length (enc sampleVal)) (newReader (enc sampleVal @ [0xc0])))"
  using skip_goes_where_any_goes [OF readAny_enc [OF sample_writable sample_sendable]] by simp

text \<open>
  C37: a value encodes just when no part of it is without a msgpack form and none is nested past 512
  levels.
\<close>

theorem encodeAny_throws_exactly:
  "(\<exists>e. encodeAny v = Inl e) = (\<not> writable 0 v)"
  using encodeAny_enc [of v] by (cases "writable 0 v") auto

text \<open>
  C19: what \<open>decodeAny\<close> answers is well typed: numbers in their one form, dates in range, each object's
  properties distinct and in JavaScript's order, nothing \<open>undefined\<close>; and it can be encoded again.
\<close>

theorem decoded_value_typed:
  assumes "decodeAny bs = Inr v"
  shows "typed 0 v \<and> (\<exists>cs. encodeAny v = Inr cs)"
  using decodeAny_typed [OF assms] typed_writable(1) encodeAny_enc(1) by blast

theorem decoded_value_typed_witness:
  "typed 0 (norm sampleVal) \<and> (\<exists>cs. encodeAny (norm sampleVal) = Inr cs)"
  by (rule decoded_value_typed [of "enc sampleVal"])
    (use decodeAny_enc [OF sample_writable sample_sendable, of "[]"] in simp)

text \<open>
  C38: a string of more than 200 bytes of UTF-8 that starts with U+FEFF does not survive: read back, it
  lacks that first character, which \<open>TextDecoder\<close> takes for a byte order mark.
\<close>

theorem long_text_loses_its_mark:
  assumes "well_formed s" "hd s = 0xfeff" "utf8Count s > 200" "utf8Count s < 2 ^ 32"
  shows "\<exists>bs. encodeAny (StrV s) = Inr bs \<and> decodeAny bs = Inr (StrV (tl s))"
proof -
  have w: "writable 0 (StrV s)" by (simp add: writable.simps)
  have "reads str (encStr s) (tl s)" by (rule reads_str_marked) (use assms in simp_all)
  then have "reads (readAny 0) (encStr s) (StrV (tl s))"
    by (rule reads_string) simp
  from readsD [OF this, of "newReader (encStr s)" "[]"] have "decodeAny (enc (StrV s)) = Inr (StrV (tl s))"
    using done_after [of "encStr s" "[]"] by (simp add: decodeAny_def)
  then show ?thesis using encodeAny_enc(1) [OF w] by blast
qed

definition markedText :: jsstr where "markedText = 0xfeff # replicate 200 0x61"

lemma marked_text: "well_formed markedText" "utf8Count markedText = 203"
  unfolding markedText_def by code_simp+

theorem long_text_loses_its_mark_witness:
  "\<exists>bs. encodeAny (StrV markedText) = Inr bs \<and> decodeAny bs = Inr (StrV (tl markedText))"
  by (rule long_text_loses_its_mark) (simp_all add: marked_text, simp add: markedText_def)

section \<open>Frames, edits and bodies\<close>

lemma value_bytes_int: "wire_int p \<Longrightarrow> value_bytes (encInt p)"
  by (rule value_bytes_read [OF reads_int steps_int]) (auto simp: wire_int_def)

lemma value_bytes_str: "keyFits s \<Longrightarrow> value_bytes (encStr s)"
  by (rule value_bytes_read [OF reads_str steps_str]) auto

lemma tag_fits: "keyFits (lit ''edits'')" "keyFits (lit ''live'')" "keyFits (lit ''vouch'')" "keyFits (lit ''view'')"
  "keyFits (lit ''end'')"
  by (rule keyFits_small, code_simp)+

lemma frame_value:
  assumes "frame_ok f" "\<forall>x \<in> set extra. value_bytes x" "length (frameElements f) + length extra < 2 ^ 32"
  shows "value_bytes (frameBytes f extra)"
proof -
  have "\<forall>x \<in> set (frameElements f). value_bytes x"
  proof (cases f)
    case (EditsFrame es)
    then have "value_bytes (encHeader (length es) 0x90 0xdc @ concat (map snd es))"
      using assms(1) by (intro value_bytes_array) (auto simp: frame_ok_def)
    then show ?thesis using EditsFrame tag_fits by (simp add: frameElements_def value_bytes_str)
  next
    case (ViewFrame token p ss)
    then have "value_bytes (encHeader (length ss) 0x90 0xdc @ concat (map encStr ss))"
      using assms(1) by (intro value_bytes_array) (auto simp: frame_ok_def intro: value_bytes_str)
    then show ?thesis using ViewFrame assms(1) tag_fits
      by (auto simp: frameElements_def frame_ok_def intro: value_bytes_str value_bytes_int)
  qed (use assms(1) tag_fits in \<open>auto simp: frameElements_def frame_ok_def intro: value_bytes_str value_bytes_int\<close>)
  then show ?thesis
    using value_bytes_array [of "frameElements f @ extra" "length (frameElements f) + length extra"] assms(2,3)
    by (auto simp: frameBytes_def)
qed

text \<open>
  What a connection does with the frames of its body: fn has each of them in order, and answers
  whether to go on; a body that ends inside a frame is an error.
\<close>

fun handFrames :: "(frame \<Rightarrow> 's \<Rightarrow> bool \<times> 's) \<Rightarrow> frame list \<Rightarrow> bytes \<Rightarrow> 's \<Rightarrow> 's \<times> body_error option" where
  "handFrames fn [] part s = (s, if part = [] then None else Some MidFrame)"
| "handFrames fn (f # fs) part s =
     (case fn f s of (True, s') \<Rightarrow> handFrames fn fs part s' | (False, s') \<Rightarrow> (s', None))"

definition sent_ok :: "frame \<times> bytes list \<Rightarrow> bool" where
  "sent_ok x = (frame_ok (fst x) \<and> list_all value_bytes (snd x) \<and> length (frameElements (fst x)) + length (snd x) < 2 ^ 32)"

definition sentBytes :: "frame \<times> bytes list \<Rightarrow> bytes" where
  "sentBytes x = frameBytes (fst x) (snd x)"

lemma sent_reads: "sent_ok x \<Longrightarrow> value_bytes (sentBytes x) \<and> parseFrame (sentBytes x) = Inr (fst x)"
  using frame_value frame_reads_back by (auto simp: sent_ok_def sentBytes_def list_all_iff)

lemma frameRun_sent:
  "list_all sent_ok fs \<Longrightarrow> frameRun fn (map sentBytes fs) part s = handFrames fn (map fst fs) part s"
  by (induction fs arbitrary: s) (auto simp: sent_reads split: bool.splits prod.splits)

text \<open>
  C22: however the network cuts a connection's body into chunks, the frame loop hands over the frames
  it holds, in order and whole, what a later protocol appends to them skipped, until it is told to
  stop; and it fails just when the body ends inside a frame. The frames' integers are safe ones, below 2^53,
  since the reader rounds others, and their texts keep in UTF-8.
\<close>

theorem body_frames:
  assumes "concat body = concat (map sentBytes fs) @ part" "list_all sent_ok fs" "unfinished part"
  shows "framesLoop fn (newByteReader body base) s = handFrames fn (map fst fs) part s"
  using frames_run [of "newByteReader body base" "map sentBytes fs" part fn s] newByteReader_ok [of body base] assms
    frameRun_sent [OF assms(2)] sent_reads
  by (auto simp: list_all_iff)

text \<open>An edit with two operations, in a frame with an element of a later protocol; and the end.\<close>

definition sampleEnv :: wire_envelope where
  "sampleEnv = \<lparr>we_position = 70000, we_slice = lit ''todo:1'', we_seq = 3,
     we_id = lit ''07070707-0707-0707-0707-070707070707'', we_servertime = Some 1500, we_lifecycle = Normal\<rparr>"

definition sampleOps :: "edit_op list" where
  "sampleOps = [(lit ''a'', Some (enc sampleVal)), (lit ''b'', None)]"

definition sampleEdit :: bytes where
  "sampleEdit = editBytes sampleEnv (replicate 16 7) [encInt 9] sampleOps"

definition sampleSent :: "(frame \<times> bytes list) list" where
  "sampleSent = [(EditsFrame [(sampleEnv, sampleEdit)], [encInt 1]), (EndFrame 4000 (lit ''moved''), [])]"

lemma sample_envelope: "envelope_ok sampleEnv (replicate 16 7) [encInt 9]"
proof -
  have "uuidString (replicate 16 7) = Inr (we_id sampleEnv)" unfolding sampleEnv_def by code_simp
  moreover have "keyFits (we_slice sampleEnv)" unfolding sampleEnv_def by (rule keyFits_small) code_simp
  moreover have "value_bytes (encInt 9)" by (rule value_bytes_int) (simp add: wire_int_def)
  ultimately show ?thesis by (simp add: envelope_ok_def sampleEnv_def)
qed

lemma sample_ops: "\<forall>op \<in> set sampleOps. op_ok op"
proof -
  have "keyFits (lit ''a'')" "keyFits (lit ''b'')" by (rule keyFits_small, code_simp)+
  then show ?thesis using value_bytes_enc [OF sample_writable sample_sendable] by (auto simp: sampleOps_def op_ok_def)
qed

lemma sample_sent: "list_all sent_ok sampleSent"
proof -
  have "keyFits (lit ''moved'')" by (rule keyFits_small) code_simp
  moreover have "length (itemsOf sampleOps) = 5" by (simp add: sampleOps_def opItems_def)
  note edit_reads_back [OF sample_envelope sample_ops, unfolded this, folded sampleEdit_def]
  moreover have "value_bytes (encInt 1)" by (rule value_bytes_int) (simp add: wire_int_def)
  ultimately show ?thesis by (simp add: sampleSent_def sent_ok_def frame_ok_def frameElements_def wire_int_def)
qed

lemma sample_unfinished: "unfinished [0x92]"
proof -
  have "value_bytes (enc (ArrV [NullV, NullV]))" by (rule value_bytes_enc) (simp_all add: writable.simps)
  moreover have "enc (ArrV [NullV, NullV]) = [0x92] @ [0xc0, 0xc0]" by code_simp
  ultimately show ?thesis unfolding unfinished_def by (metis list.distinct(1))
qed

theorem body_frames_witness:
  "framesLoop (\<lambda>f fs. (True, fs @ [f]))
     (newByteReader [take 9 (concat (map sentBytes sampleSent)), [], drop 9 (concat (map sentBytes sampleSent)) @ [0x92]] 0) [] =
   ([EditsFrame [(sampleEnv, sampleEdit)], EndFrame 4000 (lit ''moved'')], Some MidFrame)"
  by (subst body_frames [OF _ sample_sent sample_unfinished]) (simp, simp add: sampleSent_def)

text \<open>
  C23: an edit keeps its envelope and its operations on the wire: read from its bytes, the envelope is
  what was written, elements appended by a later protocol skipped, and the operations are the same in
  an edit and in a snapshot page, each value left as its bytes. The envelope's position and number are
  safe integers, below 2^53, since the reader rounds others; its time is a date's; its texts and the
  operations' keys keep in UTF-8; and the counts are below 2^32.
\<close>

theorem edit_carried:
  assumes "envelope_ok env ident extra" "\<forall>op \<in> set ops. op_ok op" "1 + length (itemsOf ops) < 2 ^ 32"
  shows "(\<exists>r'. readEnvelope (newReader (editBytes env ident extra ops)) = Inr (env, r')) \<and>
    editOps (editBytes env ident extra ops) True = Inr ops \<and> editOps (concat (itemsOf ops)) False = Inr ops \<and>
    uuidBytes (we_id env) = Inr ident"
proof -
  have "uuidString ident = Inr (we_id env)" using assms(1) by (simp add: envelope_ok_def)
  moreover from this have "length ident = 16" by (auto simp: uuidString_def split: if_splits)
  ultimately have "uuidBytes (we_id env) = Inr ident" using uuid_round [of ident] by auto
  then show ?thesis using edit_reads_back [OF assms] editOps_page [OF assms(2)] by blast
qed

theorem edit_carried_witness:
  "editOps sampleEdit True = Inr sampleOps \<and> uuidBytes (we_id sampleEnv) = Inr (replicate 16 7)"
  using edit_carried [OF sample_envelope sample_ops] unfolding sampleEdit_def by (simp add: sampleOps_def opItems_def)

section \<open>Checksums\<close>

text \<open>
  C24: the checksums of a blob are the ones they name: the table's CRC-32C divides bit by bit, the
  digest of the four limbs is FNV-1a with 64-bit multiplication, and hashing that stops, is kept as
  text and resumes ends with the same state.
\<close>

theorem checksums_as_named:
  "crc32c bs crc = crcByBits bs crc \<and>
   word_of_int (beVal (fnvDigest (fnvUpdate bs fnvStart))) = fnvWord bs 0xcbf29ce484222325 \<and>
   map_sum (\<lambda>e. e) (fnvUpdate cs) (fnvResume (fnvState (fnvUpdate bs fnvStart))) = Inr (fnvUpdate (bs @ cs) fnvStart)"
proof -
  have ok: "limbs_ok (fnvUpdate bs fnvStart)" by (rule fnvUpdate_ok [OF fnvStart_ok(1)])
  have "word_of_int (beVal (fnvDigest (fnvUpdate bs fnvStart))) = fnvWord bs 0xcbf29ce484222325"
    unfolding fnvDigest_value [OF ok] fnvUpdate_word [OF fnvStart_ok(1)] fnvStart_ok(2) ..
  then show ?thesis using fnvResume_state [OF ok] by (simp add: crc32c_by_bits fnvUpdate_def)
qed

end
