(* ===== verification/RegistryPlan.thy ===== *)
theory RegistryPlan
  imports WireRound
begin

text \<open>
  The Registry's compiled schema (client/ts/src/registry.ts, with the data of contract.ts): the node
  table of a schema, and the plans it compiles to, linked to each other. The generated tables come
  from types that contain only types made before them, so a plan is a tree here: what two plans share
  is not told apart, since none is ever changed.
\<close>

section \<open>The schema\<close>

text \<open>A literal; a number is one that JavaScript holds exactly.\<close>

datatype lit = StrL jsstr | NumL int | BoolL bool

datatype schema_solution =
  MatchN nat
  | JsonTypeN "(jsstr \<times> schema_solution) list"
  | LiteralN "(lit \<times> schema_solution) list"
  | LengthN "(nat \<times> schema_solution) list" "schema_solution option"
  | IndexN nat schema_solution
  | FieldN jsstr schema_solution
  | HasFieldN "(jsstr \<times> schema_solution) list"

datatype schema_node =
  NullNode
  | IntNode
  | StrNode
  | BoolNode
  | DateNode
  | JsonNode
  | LitNode lit
  | StructNode "jsstr option" "(jsstr \<times> nat \<times> bool) list" int
  | RecordNode "jsstr option" nat
  | ArrayNode "jsstr option" nat
  | TupleNode "jsstr option" "nat list"
  | UnionNode "jsstr option" schema_solution
  | IntakeNode jsstr nat
  | OtherNode jsstr

record schema =
  sc_nodes :: "schema_node list"
  sc_ids :: "(jsstr \<times> nat) list"
  sc_mutations :: "jsstr option"

section \<open>Plans\<close>

text \<open>
  \<open>Plan\<close> and \<open>Sol\<close>, each with the fields its kind uses. Those that only repeat others in another form
  (a key's UTF-8, the bit mask of the required fields, the order fields are written in) are the
  definitions below.
\<close>

datatype plan =
  NullP
  | IntP
  | StrP
  | BoolP
  | DateP
  | JsonP
  | LitP lit
  | StructP "(jsstr \<times> plan \<times> bool) list" int
  | RecordP plan
  | ArrayP plan
  | TupleP "plan list"
  | UnionP sol
  | IntakeP plan
and sol =
  MatchS plan
  | TypeS "(nat \<times> sol) list" "sol option"
  | LiteralS "(lit \<times> sol) list"
  | LengthS "(nat \<times> sol) list" "sol option"
  | IndexS nat sol
  | FieldS jsstr sol
  | HasFieldS "(jsstr \<times> sol) list"

definition JT_NAMES :: "jsstr list" where
  "JT_NAMES = map lit [''null'', ''int'', ''string'', ''boolean'', ''object'', ''array'', ''float'', ''bin'']"

definition JT_NULL :: nat where "JT_NULL = 0"
definition JT_INT :: nat where "JT_INT = 1"
definition JT_STRING :: nat where "JT_STRING = 2"
definition JT_BOOLEAN :: nat where "JT_BOOLEAN = 3"
definition JT_OBJECT :: nat where "JT_OBJECT = 4"
definition JT_ARRAY :: nat where "JT_ARRAY = 5"
definition JT_FLOAT :: nat where "JT_FLOAT = 6"
definition JT_BIN :: nat where "JT_BIN = 7"

lemmas jt_codes = JT_NULL_def JT_INT_def JT_STRING_def JT_BOOLEAN_def JT_OBJECT_def JT_ARRAY_def JT_FLOAT_def JT_BIN_def

definition jtCode :: "jsstr \<Rightarrow> nat option" where
  "jtCode jt = find (\<lambda>i. JT_NAMES ! i = jt) [0..<length JT_NAMES]"

text \<open>The fields of a struct: their keys' UTF-8, the required ones that fit a mask, and the order they are written in.\<close>

definition fieldBytes :: "jsstr list \<Rightarrow> bytes list" where
  "fieldBytes keys = map utf8EncodeTE keys"

definition requiredMask :: "bool list \<Rightarrow> int" where
  "requiredMask optional =
     fold (\<lambda>f m. if optional ! f \<or> f > 30 then m else m OR push_bit f 1) [0..<length optional] 0"

definition writeOrder :: "nat \<Rightarrow> int \<Rightarrow> nat list" where
  "writeOrder nf first =
     (if first < 0 then [0..<nf] else nat first # filter (\<lambda>f. f \<noteq> nat first) [0..<nf])"

fun is_str :: "lit \<Rightarrow> bool" where "is_str (StrL s) = True" | "is_str l = False"

fun litText :: "lit \<Rightarrow> jsstr" where "litText (StrL s) = s" | "litText l = []"

section \<open>Compiling\<close>

datatype schema_error = UnknownNode jsstr | NoNode nat

fun mapAll :: "('a \<Rightarrow> 'e + 'b) \<Rightarrow> 'a list \<Rightarrow> 'e + 'b list" where
  "mapAll f [] = Inr []"
| "mapAll f (x # xs) = andThen (f x) (\<lambda>y. andThen (mapAll f xs) (\<lambda>ys. Inr (y # ys)))"

lemma mapAll_cong [fundef_cong]: "xs = ys \<Longrightarrow> (\<And>x. x \<in> set ys \<Longrightarrow> f x = g x) \<Longrightarrow> mapAll f xs = mapAll g ys"
  by (induction xs arbitrary: ys) auto

text \<open>\<open>set\<close> of a Map, and of \<open>byType\<close>; a name that is no JSON type is nobody's option.\<close>

definition mapSet :: "('k \<times> 'v) list \<Rightarrow> ('k \<times> 'v) list" where
  "mapSet kvs = fold (\<lambda>(k, v) m. AList.update k v m) kvs []"

definition typeOptions :: "(jsstr \<times> sol) list \<Rightarrow> (nat \<times> sol) list" where
  "typeOptions opts = mapSet (List.map_filter (\<lambda>(jt, s). if jt = lit ''*'' then None else map_option (\<lambda>c. (c, s)) (jtCode jt)) opts)"

definition anyOption :: "(jsstr \<times> sol) list \<Rightarrow> sol option" where
  "anyOption opts = map_of (rev opts) (lit ''*'')"

fun compileSol :: "(nat \<Rightarrow> schema_error + plan) \<Rightarrow> schema_solution \<Rightarrow> schema_error + sol" where
  "compileSol plans (MatchN i) = map_sum id MatchS (plans i)"
| "compileSol plans (JsonTypeN opts) =
     andThen (mapAll (\<lambda>(jt, s). map_sum id (Pair jt) (compileSol plans s)) opts) (\<lambda>os.
     Inr (TypeS (typeOptions os) (anyOption os)))"
| "compileSol plans (LiteralN opts) =
     map_sum id LiteralS (mapAll (\<lambda>(l, s). map_sum id (Pair l) (compileSol plans s)) opts)"
| "compileSol plans (LengthN opts dflt) =
     andThen (mapAll (\<lambda>(n, s). map_sum id (Pair n) (compileSol plans s)) opts) (\<lambda>os.
     case dflt of
       None \<Rightarrow> Inr (LengthS (mapSet os) None)
     | Some s \<Rightarrow> map_sum id (LengthS (mapSet os) \<circ> Some) (compileSol plans s))"
| "compileSol plans (IndexN i s) = map_sum id (IndexS i) (compileSol plans s)"
| "compileSol plans (FieldN key s) = map_sum id (FieldS key) (compileSol plans s)"
| "compileSol plans (HasFieldN opts) =
     map_sum id HasFieldS (mapAll (\<lambda>(k, s). map_sum id (Pair k) (compileSol plans s)) opts)"

fun compileNode :: "(nat \<Rightarrow> schema_error + plan) \<Rightarrow> schema_node \<Rightarrow> schema_error + plan" where
  "compileNode plans NullNode = Inr NullP"
| "compileNode plans IntNode = Inr IntP"
| "compileNode plans StrNode = Inr StrP"
| "compileNode plans BoolNode = Inr BoolP"
| "compileNode plans DateNode = Inr DateP"
| "compileNode plans JsonNode = Inr JsonP"
| "compileNode plans (LitNode l) = Inr (LitP l)"
| "compileNode plans (StructNode name fs0 first) =
     map_sum id (\<lambda>fs. StructP fs first) (mapAll (\<lambda>(k, t, opt). map_sum id (\<lambda>p. (k, p, opt)) (plans t)) fs0)"
| "compileNode plans (RecordNode name t) = map_sum id RecordP (plans t)"
| "compileNode plans (ArrayNode name t) = map_sum id ArrayP (plans t)"
| "compileNode plans (TupleNode name ts) = map_sum id TupleP (mapAll plans ts)"
| "compileNode plans (UnionNode name s) = map_sum id UnionP (compileSol plans s)"
| "compileNode plans (IntakeNode name t) = map_sum id IntakeP (plans t)"
| "compileNode plans (OtherNode k) = Inl (UnknownNode k)"

text \<open>The plan of a node, its children's linked to a depth: with fewer levels than nodes, a type would hold itself.\<close>

fun planOf :: "schema_node list \<Rightarrow> nat \<Rightarrow> nat \<Rightarrow> schema_error + plan" where
  "planOf nodes 0 i = Inl (NoNode i)"
| "planOf nodes (Suc depth) i =
     (if i < length nodes then compileNode (planOf nodes depth) (nodes ! i) else Inl (NoNode i))"

definition compile :: "schema_node list \<Rightarrow> schema_error + plan list" where
  "compile nodes = mapAll (planOf nodes (length nodes)) [0..<length nodes]"

end
