(* ===== verification/RegistryRead.thy ===== *)
theory RegistryRead
  imports RegistryPlan
begin

text \<open>
  The walk of the Registry that reads (client/ts/src/registry.ts, \<open>Walk\<close>): a value of a plan from
  msgpack, checked against it, and the look-ahead that tells a union's members apart. The path a walk
  keeps for its errors is an argument; positions in the buffer are the cursor moved there.
\<close>

section \<open>Errors\<close>

datatype step = Key jsstr | Item nat

datatype problem =
  ExpectedNull
  | ExpectedInt
  | ExpectedStr
  | ExpectedBool
  | ExpectedTimestamp
  | ExpectedDate
  | ExpectedLit lit jval
  | ExpectedObject
  | ExpectedKey
  | ExpectedArray
  | ExpectedItems nat nat
  | UnknownField
  | RepeatedField
  | MissingField
  | TypeNotAllowed jsstr
  | UnexpectedValue jval
  | UnexpectedLength nat
  | MissingIndex nat
  | MissingDiscriminator jsstr
  | NoneOf "jsstr list"
  | TrailingValue

text \<open>\<open>fail\<close>, \<open>failMember\<close>, and an error of the cursor's, with the path it finds.\<close>

datatype walk_error =
  Failed "step list" problem
  | UnknownMember "step list" problem
  | Broken "step list" msg_error

datatype policy = Reject | Drop

definition attempt :: "step list \<Rightarrow> msg_error + 'a \<Rightarrow> walk_error + 'a" where
  "attempt path r = map_sum (Broken path) id r"

lemma attempt_Inr [simp]: "attempt path (Inr a) = Inr a" "attempt path r = Inr a \<longleftrightarrow> r = Inr a"
  by (cases r; simp add: attempt_def)+

type_synonym walker = "policy \<Rightarrow> step list \<Rightarrow> reader \<Rightarrow> walk_error + (jval \<times> reader)"

section \<open>Values of JavaScript\<close>

text \<open>\<open>Number.isSafeInteger\<close>, with the integer; \<open>Number.isInteger\<close>; NaN; and \<open>===\<close> with a literal.\<close>

definition safeNum :: "jnum \<Rightarrow> int option" where
  "safeNum n = (case n of IntN i \<Rightarrow> if \<bar>i\<bar> < 2 ^ 53 then Some i else None | F64 b \<Rightarrow> safeOf b)"

definition exponentOf :: "64 word \<Rightarrow> int" where "exponentOf b = uint b div 2 ^ 52 mod 2048"

definition isInteger :: "jnum \<Rightarrow> bool" where
  "isInteger n = (case n of IntN i \<Rightarrow> True | F64 b \<Rightarrow> safeOf b \<noteq> None \<or> 1076 \<le> exponentOf b \<and> exponentOf b < 2047)"

definition isNaN :: "jnum \<Rightarrow> bool" where
  "isNaN n = (case n of IntN i \<Rightarrow> False | F64 b \<Rightarrow> exponentOf b = 2047 \<and> uint b mod 2 ^ 52 \<noteq> 0)"

definition sameLit :: "jval \<Rightarrow> lit \<Rightarrow> bool" where
  "sameLit v l =
     (case l of
        StrL s \<Rightarrow> v = StrV s
      | BoolL b \<Rightarrow> v = BoolV b
      | NumL i \<Rightarrow> (case v of NumV n \<Rightarrow> safeNum n = Some i | _ \<Rightarrow> False))"

definition litIndex :: "lit list \<Rightarrow> jval \<Rightarrow> nat option" where
  "litIndex lits v = find (\<lambda>i. sameLit v (lits ! i)) [0..<length lits]"

text \<open>\<open>out[key] = v\<close>: \<open>__proto__\<close> sets the prototype, and no property.\<close>

definition assignProp :: "(jsstr \<times> jval) list \<Rightarrow> jsstr \<Rightarrow> jval \<Rightarrow> (jsstr \<times> jval) list" where
  "assignProp out key v = (if key = lit ''__proto__'' then out else setEntry out key v)"

section \<open>Scalars\<close>

definition readNull :: walker where
  "readNull pol path r = andThen (attempt path (tryNil r)) (\<lambda>(ok, r1).
     if ok then Inr (NullV, r1) else Inl (Failed path ExpectedNull))"

definition readInt :: walker where
  "readInt pol path r = andThen (attempt path (tryNumber r)) (\<lambda>(n, r1).
     case n of
       None \<Rightarrow> Inl (Failed path ExpectedInt)
     | Some x \<Rightarrow> if safeNum x = None then Inl (Failed path ExpectedInt) else Inr (NumV x, r1))"

definition readString :: walker where
  "readString pol path r = andThen (attempt path (tryStr r)) (\<lambda>(s, r1).
     case s of None \<Rightarrow> Inl (Failed path ExpectedStr) | Some x \<Rightarrow> Inr (StrV x, r1))"

definition readBool :: walker where
  "readBool pol path r = andThen (attempt path (tryBool r)) (\<lambda>(b, r1).
     case b of None \<Rightarrow> Inl (Failed path ExpectedBool) | Some x \<Rightarrow> Inr (BoolV x, r1))"

definition readDate :: walker where
  "readDate pol path r = andThen (attempt path (tryTimestamp r)) (\<lambda>(d, r1).
     case d of None \<Rightarrow> Inl (Failed path ExpectedTimestamp) | Some x \<Rightarrow> Inr (DateV x, r1))"

definition readJson :: walker where
  "readJson pol path r = attempt path (readAny 0 r)"

definition readLiteral :: "lit \<Rightarrow> walker" where
  "readLiteral l pol path r =
     andThen (attempt path
       (case l of
          StrL s \<Rightarrow> map_sum id (\<lambda>(i, r1). (if i = 0 then StrV s else if i = -1 then StrV (lastKey_text r1) else UndefV, r1))
                     (keyIndex [utf8EncodeTE s] 0 r)
        | NumL _ \<Rightarrow> map_sum id (\<lambda>(n, r1). (case n of None \<Rightarrow> UndefV | Some x \<Rightarrow> if isNaN x then UndefV else NumV x, r1))
                     (tryNumber r)
        | BoolL _ \<Rightarrow> map_sum id (\<lambda>(b, r1). (case b of None \<Rightarrow> UndefV | Some x \<Rightarrow> BoolV x, r1)) (tryBool r)))
     (\<lambda>(v, r1). if sameLit v l then Inr (v, r1) else Inl (Failed path (ExpectedLit l v)))"

section \<open>Containers\<close>

text \<open>\<open>readOrDrop\<close>: \<open>None\<close> is \<open>DROPPED\<close>, with the cursor past the value.\<close>

definition readOrDrop :: "walker \<Rightarrow> policy \<Rightarrow> step list \<Rightarrow> reader \<Rightarrow> walk_error + (jval option \<times> reader)" where
  "readOrDrop f pol path r =
     (if pol = Reject then map_sum id (map_prod Some id) (f pol path r)
      else
        case f pol path r of
          Inl (UnknownMember _ _) \<Rightarrow> andThen (attempt path (skip r)) (\<lambda>r1. Inr (None, r1))
        | Inl e \<Rightarrow> Inl e
        | Inr (v, r1) \<Rightarrow> Inr (Some v, r1))"

fun readRecord :: "walker \<Rightarrow> policy \<Rightarrow> step list \<Rightarrow> nat \<Rightarrow> (jsstr \<times> jval) list \<Rightarrow> reader \<Rightarrow>
    walk_error + ((jsstr \<times> jval) list \<times> reader)" where
  "readRecord f pol path 0 out r = Inr (out, r)"
| "readRecord f pol path (Suc n) out r =
     andThen (attempt path (kindAt r)) (\<lambda>k.
     if k \<noteq> StrK then Inl (Failed path ExpectedKey) else
     andThen (attempt path (str r)) (\<lambda>(key, r1).
     andThen (readOrDrop f pol (path @ [Key key]) r1) (\<lambda>(v, r2).
     readRecord f pol path n (case v of None \<Rightarrow> out | Some x \<Rightarrow> setEntry out key x) r2)))"

fun readArray :: "walker \<Rightarrow> policy \<Rightarrow> step list \<Rightarrow> nat \<Rightarrow> nat \<Rightarrow> reader \<Rightarrow> walk_error + (jval list \<times> reader)" where
  "readArray f pol path k 0 r = Inr ([], r)"
| "readArray f pol path k (Suc n) r =
     andThen (readOrDrop f pol (path @ [Item k]) r) (\<lambda>(v, r1).
     andThen (readArray f pol path (k + 1) n r1) (\<lambda>(vs, r2). Inr (case v of None \<Rightarrow> vs | Some x \<Rightarrow> x # vs, r2)))"

fun readTuple :: "walker list \<Rightarrow> policy \<Rightarrow> step list \<Rightarrow> nat \<Rightarrow> reader \<Rightarrow> walk_error + (jval list \<times> reader)" where
  "readTuple [] pol path k r = Inr ([], r)"
| "readTuple (f # fs) pol path k r =
     andThen (f pol (path @ [Item k]) r) (\<lambda>(v, r1).
     andThen (readTuple fs pol path (k + 1) r1) (\<lambda>(vs, r2). Inr (v # vs, r2)))"

text \<open>The fields seen: a bit mask while they fit in one, else a byte for each.\<close>

datatype seen = Mask int | Many "bool list"

definition noneSeen :: "nat \<Rightarrow> seen" where
  "noneSeen nf = (if nf > 31 then Many (replicate nf False) else Mask 0)"

fun sawField :: "nat \<Rightarrow> seen \<Rightarrow> bool" where
  "sawField f (Mask m) = (m AND push_bit f 1 \<noteq> 0)"
| "sawField f (Many ms) = ms ! f"

fun markField :: "nat \<Rightarrow> seen \<Rightarrow> seen" where
  "markField f (Mask m) = Mask (m OR push_bit f 1)"
| "markField f (Many ms) = Many (ms[f := True])"

definition missingField :: "bool list \<Rightarrow> seen \<Rightarrow> nat option" where
  "missingField optional s =
     (if (case s of Mask m \<Rightarrow> m AND requiredMask optional = requiredMask optional | Many _ \<Rightarrow> False) then None
      else find (\<lambda>f. \<not> (sawField f s \<or> optional ! f)) [0..<length optional])"

fun readFields :: "(jsstr \<times> walker \<times> bool) list \<Rightarrow> policy \<Rightarrow> step list \<Rightarrow> nat \<Rightarrow> nat \<Rightarrow> seen \<Rightarrow> (jsstr \<times> jval) list \<Rightarrow>
    reader \<Rightarrow> walk_error + ((seen \<times> (jsstr \<times> jval) list) \<times> reader)" where
  "readFields fs pol path 0 hint s out r = Inr ((s, out), r)"
| "readFields fs pol path (Suc n) hint s out r =
     andThen (attempt path (keyIndex (fieldBytes (map fst fs)) hint r)) (\<lambda>(f, r1).
     if f = -2 then Inl (Failed path ExpectedKey)
     else if f < 0 then
       if pol = Reject then Inl (Failed (path @ [Key (lastKey_text r1)]) UnknownField)
       else andThen (attempt path (skip r1)) (\<lambda>r2. readFields fs pol path n hint s out r2)
     else
       let i = nat f; key = fst (fs ! i); rd = fst (snd (fs ! i)); opt = snd (snd (fs ! i)); inside = path @ [Key key] in
       if sawField i s then Inl (Failed inside RepeatedField)
       else
         andThen (if opt then readOrDrop rd pol inside r1 else map_sum id (map_prod Some id) (rd pol inside r1)) (\<lambda>(v, r2).
         readFields fs pol path n (if i + 1 < length fs then i + 1 else 0) (markField i s)
           (case v of None \<Rightarrow> out | Some x \<Rightarrow> assignProp out key x) r2))"

definition readStruct :: "(jsstr \<times> walker \<times> bool) list \<Rightarrow> walker" where
  "readStruct fs pol path r =
     andThen (attempt path (tryMapHeader r)) (\<lambda>(count, r1).
     case count of
       None \<Rightarrow> Inl (Failed path ExpectedObject)
     | Some n \<Rightarrow>
         andThen (readFields fs pol path n 0 (noneSeen (length fs)) [] r1) (\<lambda>((s, out), r2).
         case missingField (map (snd \<circ> snd) fs) s of
           Some f \<Rightarrow> Inl (Failed (path @ [Key (fst (fs ! f))]) MissingField)
         | None \<Rightarrow> Inr (ObjV out, r2)))"

section \<open>Unions\<close>

definition seek :: "nat \<Rightarrow> reader \<Rightarrow> reader" where "seek pos r = r\<lparr>rd_pos := pos\<rparr>"

text \<open>The JSON type the solver names for the value at a position.\<close>

definition jsonTypeAt :: "reader \<Rightarrow> nat \<Rightarrow> msg_error + nat" where
  "jsonTypeAt r pos =
     andThen (kindAt (seek pos r)) (\<lambda>k.
     case k of
       NilK \<Rightarrow> Inr JT_NULL
     | BoolK \<Rightarrow> Inr JT_BOOLEAN
     | IntK \<Rightarrow> Inr JT_INT
     | FloatK \<Rightarrow> map_sum id (\<lambda>(n, _). if isInteger n then JT_INT else JT_FLOAT) (float (seek pos r))
     | StrK \<Rightarrow> Inr JT_STRING
     | ExtK \<Rightarrow> Inr JT_STRING
     | MapK \<Rightarrow> Inr JT_OBJECT
     | ArrayK \<Rightarrow> Inr JT_ARRAY
     | BinK \<Rightarrow> Inr JT_BIN)"

text \<open>Which of the literals the scalar at a position is.\<close>

definition literalAt :: "reader \<Rightarrow> lit list \<Rightarrow> nat \<Rightarrow> msg_error + nat option" where
  "literalAt r lits pos =
     andThen (kindAt (seek pos r)) (\<lambda>k.
     case k of
       StrK \<Rightarrow>
         if list_all is_str lits
         then map_sum id (\<lambda>(i, _). if i < 0 then None else Some (nat i)) (keyIndex (fieldBytes (map litText lits)) 0 (seek pos r))
         else map_sum id (\<lambda>(s, _). litIndex lits (StrV s)) (str (seek pos r))
     | IntK \<Rightarrow> map_sum id (\<lambda>(i, _). litIndex lits (NumV (ofInt i))) (int_value (seek pos r))
     | FloatK \<Rightarrow> map_sum id (\<lambda>(n, _). litIndex lits (NumV n)) (float (seek pos r))
     | BoolK \<Rightarrow> map_sum id (\<lambda>(b, _). litIndex lits (BoolV b)) (bool (seek pos r))
     | _ \<Rightarrow> Inr None)"

definition valueAt :: "reader \<Rightarrow> nat \<Rightarrow> msg_error + jval" where
  "valueAt r pos = map_sum id fst (readAny 0 (seek pos r))"

text \<open>Where the value of a key is, in the map at a position.\<close>

fun findKey :: "step list \<Rightarrow> bytes \<Rightarrow> nat \<Rightarrow> reader \<Rightarrow> walk_error + nat option" where
  "findKey path key 0 r = Inr None"
| "findKey path key (Suc n) r =
     andThen (attempt path (kindAt r)) (\<lambda>k.
     if k \<noteq> StrK then Inl (Failed path ExpectedKey) else
     andThen (attempt path (keyIndex [key] 0 r)) (\<lambda>(i, r1).
     if i = 0 then Inr (Some (rd_pos r1)) else
     andThen (attempt path (skip r1)) (\<lambda>r2. findKey path key n r2)))"

definition findField :: "step list \<Rightarrow> reader \<Rightarrow> nat \<Rightarrow> bytes \<Rightarrow> walk_error + nat option" where
  "findField path r pos key =
     andThen (attempt path (kindAt (seek pos r))) (\<lambda>k.
     if k \<noteq> MapK then Inr None else
     andThen (attempt path (mapHeader (seek pos r))) (\<lambda>(n, r1). findKey path key n r1))"

text \<open>The first of some keys, in their order, that the map at a position has.\<close>

fun findAnyKey :: "step list \<Rightarrow> bytes list \<Rightarrow> nat \<Rightarrow> int \<Rightarrow> reader \<Rightarrow> walk_error + int" where
  "findAnyKey path keys 0 best r = Inr best"
| "findAnyKey path keys (Suc n) best r =
     andThen (attempt path (kindAt r)) (\<lambda>k.
     if k \<noteq> StrK then Inl (Failed path ExpectedKey) else
     andThen (attempt path (keyIndex keys 0 r)) (\<lambda>(i, r1).
     andThen (attempt path (skip r1)) (\<lambda>r2.
     findAnyKey path keys n (if i \<ge> 0 \<and> (best < 0 \<or> i < best) then i else best) r2)))"

definition findAnyField :: "step list \<Rightarrow> reader \<Rightarrow> nat \<Rightarrow> bytes list \<Rightarrow> walk_error + int" where
  "findAnyField path r pos keys =
     andThen (attempt path (kindAt (seek pos r))) (\<lambda>k.
     if k \<noteq> MapK then Inr (-1) else
     andThen (attempt path (mapHeader (seek pos r))) (\<lambda>(n, r1). findAnyKey path keys n (-1) r1))"

text \<open>The array at a position: its length, and its items.\<close>

definition arrayAt :: "step list \<Rightarrow> reader \<Rightarrow> nat \<Rightarrow> walk_error + (nat \<times> reader)" where
  "arrayAt path r pos =
     andThen (attempt path (kindAt (seek pos r))) (\<lambda>k.
     if k \<noteq> ArrayK then Inl (UnknownMember path ExpectedArray)
     else attempt path (arrayHeader (seek pos r)))"

text \<open>A step of a decision, from the object, the subject and the root it goes on with.\<close>

type_synonym decider = "policy \<Rightarrow> step list \<Rightarrow> nat \<Rightarrow> nat \<Rightarrow> nat \<Rightarrow> reader \<Rightarrow> walk_error + (jval \<times> reader)"

fun readPlan :: "plan \<Rightarrow> walker" and readSol :: "sol \<Rightarrow> decider" where
  "readPlan NullP = readNull"
| "readPlan IntP = readInt"
| "readPlan StrP = readString"
| "readPlan BoolP = readBool"
| "readPlan DateP = readDate"
| "readPlan JsonP = readJson"
| "readPlan (LitP l) = readLiteral l"
| "readPlan (StructP fs first) = readStruct (map (\<lambda>(key, p, opt). (key, readPlan p, opt)) fs)"
| "readPlan (RecordP p) = (\<lambda>pol path r.
     andThen (attempt path (tryMapHeader r)) (\<lambda>(count, r1).
     case count of
       None \<Rightarrow> Inl (Failed path ExpectedObject)
     | Some n \<Rightarrow> map_sum id (map_prod ObjV id) (readRecord (readPlan p) pol path n [] r1)))"
| "readPlan (ArrayP p) = (\<lambda>pol path r.
     andThen (attempt path (tryArrayHeader r)) (\<lambda>(count, r1).
     case count of
       None \<Rightarrow> Inl (Failed path ExpectedArray)
     | Some n \<Rightarrow> map_sum id (map_prod ArrV id) (readArray (readPlan p) pol path 0 n r1)))"
| "readPlan (TupleP ps) = (\<lambda>pol path r.
     andThen (attempt path (tryArrayHeader r)) (\<lambda>(count, r1).
     case count of
       None \<Rightarrow> Inl (Failed path ExpectedArray)
     | Some n \<Rightarrow>
         if n \<noteq> length ps then Inl (Failed path (ExpectedItems (length ps) n))
         else map_sum id (map_prod ArrV id) (readTuple (map readPlan ps) pol path 0 r1)))"
| "readPlan (UnionP s) = (\<lambda>pol path r. readSol s pol path (rd_pos r) (rd_pos r) (rd_pos r) r)"
| "readPlan (IntakeP p) = readPlan p"
| "readSol (MatchS p) = (\<lambda>pol path obj subj root r. readPlan p pol path (seek root r))"
| "readSol (TypeS opts any) = (\<lambda>pol path obj subj root r.
     andThen (attempt path (jsonTypeAt r subj)) (\<lambda>jt.
     case map_of (map (\<lambda>(c, s). (c, readSol s)) opts) jt of
       Some go \<Rightarrow> go pol path obj subj root r
     | None \<Rightarrow>
         (case any of
            Some s \<Rightarrow> readSol s pol path obj subj root r
          | None \<Rightarrow> Inl (UnknownMember path (TypeNotAllowed (JT_NAMES ! jt))))))"
| "readSol (LiteralS opts) = (\<lambda>pol path obj subj root r.
     andThen (attempt path (literalAt r (map fst opts) subj)) (\<lambda>i.
     case i of
       None \<Rightarrow> andThen (attempt path (valueAt r subj)) (\<lambda>v. Inl (UnknownMember path (UnexpectedValue v)))
     | Some i \<Rightarrow> (map (\<lambda>(l, s). readSol s) opts ! i) pol path obj subj root r))"
| "readSol (LengthS opts dflt) = (\<lambda>pol path obj subj root r.
     andThen (arrayAt path r subj) (\<lambda>(len, r1).
     case map_of (map (\<lambda>(n, s). (n, readSol s)) opts) len of
       Some go \<Rightarrow> go pol path obj subj root r
     | None \<Rightarrow>
         (case dflt of
            Some s \<Rightarrow> readSol s pol path obj subj root r
          | None \<Rightarrow> Inl (UnknownMember path (UnexpectedLength len)))))"
| "readSol (IndexS i s) = (\<lambda>pol path obj subj root r.
     andThen (arrayAt path r subj) (\<lambda>(len, r1).
     if i \<ge> len then Inl (UnknownMember path (MissingIndex i))
     else andThen (attempt path (skipMany i r1)) (\<lambda>r2. readSol s pol path (rd_pos r2) (rd_pos r2) root r2)))"
| "readSol (FieldS key s) = (\<lambda>pol path obj subj root r.
     andThen (findField path r obj (utf8EncodeTE key)) (\<lambda>at'.
     case at' of
       None \<Rightarrow> Inl (UnknownMember path (MissingDiscriminator key))
     | Some p \<Rightarrow> readSol s pol path obj p root r))"
| "readSol (HasFieldS opts) = (\<lambda>pol path obj subj root r.
     andThen (findAnyField path r obj (fieldBytes (map fst opts))) (\<lambda>i.
     if i < 0 then Inl (UnknownMember path (NoneOf (map fst opts)))
     else (map (\<lambda>(k, s). readSol s) opts ! nat i) pol path obj obj root r))"

end
