(* ===== verification/RegistryWrite.thy ===== *)
theory RegistryWrite
  imports RegistryRead
begin

text \<open>
  The walk of the Registry that writes, and the Registry's conversions (client/ts/src/registry.ts,
  \<open>Walk\<close> and \<open>Registry_\<close>). An object here is a plain one: its own properties, and those it inherits
  from \<open>Object.prototype\<close>, which a lookup finds too. A value with no form is one that is no object: a
  function, a symbol or a bigint. The inherited properties of arrays and dates are those of objects.
\<close>

section \<open>Properties\<close>

definition inheritedNames :: "jsstr list" where
  "inheritedNames = map lit [''constructor'', ''__defineGetter__'', ''__defineSetter__'', ''hasOwnProperty'',
     ''__lookupGetter__'', ''__lookupSetter__'', ''isPrototypeOf'', ''propertyIsEnumerable'', ''toString'', ''valueOf'',
     ''toLocaleString'']"

text \<open>\<open>o[key]\<close> and \<open>key in o\<close>.\<close>

definition propOf :: "(jsstr \<times> jval) list \<Rightarrow> jsstr \<Rightarrow> jval" where
  "propOf es key =
     (case map_of es key of
        Some v \<Rightarrow> v
      | None \<Rightarrow> if key \<in> set inheritedNames then NoFormV else if key = lit ''__proto__'' then ObjV [] else UndefV)"

definition hasProp :: "(jsstr \<times> jval) list \<Rightarrow> jsstr \<Rightarrow> bool" where
  "hasProp es key = (key \<in> fst ` set es \<or> key \<in> set inheritedNames \<or> key = lit ''__proto__'')"

text \<open>The properties of a value that \<open>typeof\<close> says is an object, and of one that is no array.\<close>

fun propsOf :: "jval \<Rightarrow> (jsstr \<times> jval) list option" where
  "propsOf (ObjV es) = Some es"
| "propsOf (DateV d) = Some []"
| "propsOf (ArrV xs) =
     Some (map (\<lambda>(i, x). (decimal i, x)) (zip [0..<length xs] xs) @ [(lit ''length'', NumV (IntN (int (length xs))))])"
| "propsOf v = None"

fun objectOf :: "jval \<Rightarrow> (jsstr \<times> jval) list option" where
  "objectOf (ObjV es) = Some es"
| "objectOf (DateV d) = Some []"
| "objectOf v = None"

text \<open>The JSON type of a value; -1 is \<open>None\<close>, and \<open>typeof\<close> names those.\<close>

fun jsTypeOf :: "jval \<Rightarrow> nat option" where
  "jsTypeOf NullV = Some JT_NULL"
| "jsTypeOf (ArrV xs) = Some JT_ARRAY"
| "jsTypeOf (BoolV b) = Some JT_BOOLEAN"
| "jsTypeOf (NumV n) = Some (if isInteger n then JT_INT else JT_FLOAT)"
| "jsTypeOf (StrV s) = Some JT_STRING"
| "jsTypeOf (DateV d) = Some JT_STRING"
| "jsTypeOf (ObjV es) = Some JT_OBJECT"
| "jsTypeOf UndefV = None"
| "jsTypeOf NoFormV = None"

definition typeName :: "jval \<Rightarrow> jsstr" where
  "typeName v = (case jsTypeOf v of Some jt \<Rightarrow> JT_NAMES ! jt | None \<Rightarrow> if v = UndefV then lit ''undefined'' else lit ''function'')"

section \<open>Writing\<close>

type_synonym putter = "policy \<Rightarrow> step list \<Rightarrow> jval \<Rightarrow> writer \<Rightarrow> walk_error + writer"

fun writeScalar :: "lit \<Rightarrow> writer \<Rightarrow> writer" where
  "writeScalar (StrL s) w = writeStr s w"
| "writeScalar (NumL i) w = writeInt i w"
| "writeScalar (BoolL b) w = writeBool b w"

definition putNull :: putter where
  "putNull pol path v w = (if v \<noteq> NullV then Inl (Failed path ExpectedNull) else Inr (writeNil w))"

definition putInt :: putter where
  "putInt pol path v w =
     (case (case v of NumV n \<Rightarrow> safeNum n | _ \<Rightarrow> None) of
        None \<Rightarrow> Inl (Failed path ExpectedInt) | Some i \<Rightarrow> Inr (writeInt i w))"

definition putStr :: putter where
  "putStr pol path v w = (case v of StrV s \<Rightarrow> Inr (writeStr s w) | _ \<Rightarrow> Inl (Failed path ExpectedStr))"

definition putBool :: putter where
  "putBool pol path v w = (case v of BoolV b \<Rightarrow> Inr (writeBool b w) | _ \<Rightarrow> Inl (Failed path ExpectedBool))"

definition putDate :: putter where
  "putDate pol path v w =
     (case v of DateV (Some ms) \<Rightarrow> Inr (writeTimestamp (Some ms) w) | _ \<Rightarrow> Inl (Failed path ExpectedDate))"

definition putJson :: putter where
  "putJson pol path v w = attempt path (writeAny v 0 w)"

definition putLiteral :: "lit \<Rightarrow> putter" where
  "putLiteral l pol path v w =
     (if \<not> sameLit v l then Inl (Failed path (ExpectedLit l v)) else Inr (writeScalar l w))"

fun putEntries :: "putter \<Rightarrow> policy \<Rightarrow> step list \<Rightarrow> (jsstr \<times> jval) list \<Rightarrow> writer \<Rightarrow> walk_error + writer" where
  "putEntries f pol path [] w = Inr w"
| "putEntries f pol path ((key, x) # es) w =
     andThen (f pol (path @ [Key key]) x (writeStr key w)) (putEntries f pol path es)"

definition putRecord :: "putter \<Rightarrow> putter" where
  "putRecord f pol path v w =
     (case objectOf v of
        None \<Rightarrow> Inl (Failed path ExpectedObject)
      | Some es \<Rightarrow>
          let entries = filter (\<lambda>(k, x). x \<noteq> UndefV) es in
          putEntries f pol path entries (writeMapHeader (length entries) w))"

fun putItems :: "putter list \<Rightarrow> policy \<Rightarrow> step list \<Rightarrow> nat \<Rightarrow> jval list \<Rightarrow> writer \<Rightarrow> walk_error + writer" where
  "putItems (f # fs) pol path k (x # xs) w = andThen (f pol (path @ [Item k]) x w) (putItems fs pol path (k + 1) xs)"
| "putItems _ pol path k _ w = Inr w"

definition putArray :: "putter \<Rightarrow> putter" where
  "putArray f pol path v w =
     (case v of
        ArrV xs \<Rightarrow> putItems (replicate (length xs) f) pol path 0 xs (writeArrayHeader (length xs) w)
      | _ \<Rightarrow> Inl (Failed path ExpectedArray))"

definition putTuple :: "putter list \<Rightarrow> putter" where
  "putTuple fs pol path v w =
     (case v of
        ArrV xs \<Rightarrow>
          if length xs \<noteq> length fs then Inl (Failed path (ExpectedItems (length fs) (length xs)))
          else putItems fs pol path 0 xs (writeArrayHeader (length xs) w)
      | _ \<Rightarrow> Inl (Failed path ExpectedArray))"

fun putFields :: "(jsstr \<times> putter \<times> bool) list \<Rightarrow> policy \<Rightarrow> step list \<Rightarrow> (jsstr \<times> jval) list \<Rightarrow> nat list \<Rightarrow> writer \<Rightarrow>
    walk_error + writer" where
  "putFields fs pol path es [] w = Inr w"
| "putFields fs pol path es (f # order) w =
     (let key = fst (fs ! f); x = propOf es key in
      if x = UndefV then putFields fs pol path es order w
      else andThen (fst (snd (fs ! f)) pol (path @ [Key key]) x (writeStr key w)) (putFields fs pol path es order))"

definition putStruct :: "(jsstr \<times> putter \<times> bool) list \<Rightarrow> int \<Rightarrow> putter" where
  "putStruct fs first pol path v w =
     (case objectOf v of
        None \<Rightarrow> Inl (Failed path ExpectedObject)
      | Some es \<Rightarrow>
          let foreign = find (\<lambda>(k, x). k \<notin> fst ` set fs \<and> x \<noteq> UndefV) es;
              missing = find (\<lambda>(k, _, opt). propOf es k = UndefV \<and> \<not> opt) fs;
              present = length (filter (\<lambda>(k, _). propOf es k \<noteq> UndefV) fs)
          in
          if pol = Reject \<and> foreign \<noteq> None then Inl (Failed (path @ [Key (fst (the foreign))]) UnknownField)
          else if missing \<noteq> None then Inl (Failed (path @ [Key (fst (the missing))]) MissingField)
          else putFields fs pol path es (writeOrder (length fs) first) (writeMapHeader present w))"

text \<open>The value of a discriminator, and the first of some keys that is there.\<close>

definition discriminator :: "jval \<Rightarrow> jsstr \<Rightarrow> jval" where
  "discriminator v key = (case propsOf v of None \<Rightarrow> UndefV | Some es \<Rightarrow> if hasProp es key then propOf es key else UndefV)"

definition firstKey :: "jsstr list \<Rightarrow> jval \<Rightarrow> nat option" where
  "firstKey keys v = find (\<lambda>i. discriminator v (keys ! i) \<noteq> UndefV) [0..<length keys]"

text \<open>The option of a JSON type, when there is one.\<close>

definition pickType :: "(nat \<times> 'a) list \<Rightarrow> nat option \<Rightarrow> 'a option" where
  "pickType opts jt = (case jt of None \<Rightarrow> None | Some c \<Rightarrow> map_of opts c)"

fun writePlan :: "plan \<Rightarrow> putter"
  and writeSol :: "sol \<Rightarrow> policy \<Rightarrow> step list \<Rightarrow> jval \<Rightarrow> jval \<Rightarrow> jval \<Rightarrow> writer \<Rightarrow> walk_error + writer" where
  "writePlan NullP = putNull"
| "writePlan IntP = putInt"
| "writePlan StrP = putStr"
| "writePlan BoolP = putBool"
| "writePlan DateP = putDate"
| "writePlan JsonP = putJson"
| "writePlan (LitP l) = putLiteral l"
| "writePlan (StructP fs first) = putStruct (map (\<lambda>(key, p, opt). (key, writePlan p, opt)) fs) first"
| "writePlan (RecordP p) = putRecord (writePlan p)"
| "writePlan (ArrayP p) = putArray (writePlan p)"
| "writePlan (TupleP ps) = putTuple (map writePlan ps)"
| "writePlan (UnionP s) = (\<lambda>pol path v w. writeSol s pol path v v v w)"
| "writePlan (IntakeP p) = writePlan p"
| "writeSol (MatchS p) = (\<lambda>pol path obj subj root w. writePlan p pol path root w)"
| "writeSol (TypeS opts any) = (\<lambda>pol path obj subj root w.
     case pickType (map (\<lambda>(c, s). (c, writeSol s)) opts) (jsTypeOf subj) of
       Some go \<Rightarrow> go pol path obj subj root w
     | None \<Rightarrow>
         (case any of
            Some s \<Rightarrow> writeSol s pol path obj subj root w
          | None \<Rightarrow> Inl (Failed path (TypeNotAllowed (typeName subj)))))"
| "writeSol (LiteralS opts) = (\<lambda>pol path obj subj root w.
     case litIndex (map fst opts) subj of
       None \<Rightarrow> Inl (Failed path (UnexpectedValue subj))
     | Some i \<Rightarrow> (map (\<lambda>(l, s). writeSol s) opts ! i) pol path obj subj root w)"
| "writeSol (LengthS opts dflt) = (\<lambda>pol path obj subj root w.
     case subj of
       ArrV xs \<Rightarrow>
         (case map_of (map (\<lambda>(n, s). (n, writeSol s)) opts) (length xs) of
            Some go \<Rightarrow> go pol path obj subj root w
          | None \<Rightarrow>
              (case dflt of
                 Some s \<Rightarrow> writeSol s pol path obj subj root w
               | None \<Rightarrow> Inl (Failed path (UnexpectedLength (length xs)))))
     | _ \<Rightarrow> Inl (Failed path ExpectedArray))"
| "writeSol (IndexS i s) = (\<lambda>pol path obj subj root w.
     case subj of
       ArrV xs \<Rightarrow> if i \<ge> length xs then Inl (Failed path (MissingIndex i)) else writeSol s pol path (xs ! i) (xs ! i) root w
     | _ \<Rightarrow> Inl (Failed path (MissingIndex i)))"
| "writeSol (FieldS key s) = (\<lambda>pol path obj subj root w.
     let x = discriminator obj key in
     if x = UndefV then Inl (Failed path (MissingDiscriminator key)) else writeSol s pol path obj x root w)"
| "writeSol (HasFieldS opts) = (\<lambda>pol path obj subj root w.
     case firstKey (map fst opts) obj of
       None \<Rightarrow> Inl (Failed path (NoneOf (map fst opts)))
     | Some i \<Rightarrow> (map (\<lambda>(k, s). writeSol s) opts ! i) pol path obj obj root w)"

section \<open>The outbox's rows\<close>

record mutation_row =
  mr_id :: jsstr
  mr_numbered :: "(jsstr \<times> int) option"
  mr_data :: bytes

datatype convert_error =
  WalkError walk_error
  | WireError wire_error
  | MalformedRow
  | NoEntry jsstr
  | NeverConverted
  | EditsOneWay
  | NoConversion jsstr rep rep
  | Mismatched

definition wired :: "msg_error + 'a \<Rightarrow> convert_error + 'a" where
  "wired r = map_sum (WireError \<circ> Msg) id r"

lemma wired_Inr [simp]: "wired (Inr a) = Inr a" "wired r = Inr a \<longleftrightarrow> r = Inr a"
  by (cases r; simp add: wired_def)+

definition readMutation :: "bytes \<Rightarrow> convert_error + mutation_row" where
  "readMutation bs =
     andThen (wired (arrayHeader (newReader bs))) (\<lambda>(n, r1).
     if n \<noteq> 4 then Inl MalformedRow else
     andThen (wired (str r1)) (\<lambda>(ident, r2).
     andThen (wired (tryNil r2)) (\<lambda>(null, r3).
     andThen (if null then andThen (wired (nil r3)) (\<lambda>r4. Inr (None, r4))
              else andThen (wired (str r3)) (\<lambda>(series, r4).
                andThen (wired (int_value r4)) (\<lambda>(k, r5). Inr (Some (series, k), r5)))) (\<lambda>(numbered, r5).
     andThen (wired (view r5)) (\<lambda>(data, r6).
     if \<not> done_reader r6 then Inl MalformedRow
     else Inr \<lparr>mr_id = ident, mr_numbered = numbered, mr_data = data\<rparr>)))))"

definition writeMutation :: "mutation_row \<Rightarrow> bytes" where
  "writeMutation m =
     (let w = writeStr (mr_id m) (writeArrayHeader 4 newWriter);
          w1 = (case mr_numbered m of
                  None \<Rightarrow> writeNil (writeNil w)
                | Some (series, k) \<Rightarrow> writeInt k (writeStr series w))
      in written (writeRaw (mr_data m) w1))"

section \<open>The Registry\<close>

record host_registry =
  hr_mutations :: jsstr
  hr_plans :: "(jsstr \<times> plan) list"

definition buildRegistry :: "schema \<Rightarrow> schema_error + host_registry" where
  "buildRegistry sc =
     andThen (compile (sc_nodes sc)) (\<lambda>plans.
     Inr \<lparr>hr_mutations = (case sc_mutations sc of None \<Rightarrow> [] | Some m \<Rightarrow> m),
          hr_plans = mapSet (List.map_filter (\<lambda>(t, i). if i < length plans then Some (t, plans ! i) else None) (sc_ids sc))\<rparr>)"

definition policyOf :: "host_registry \<Rightarrow> jsstr \<Rightarrow> policy" where
  "policyOf reg type = (if type = hr_mutations reg then Reject else Drop)"

text \<open>
  A JS value: one of a plan's, an outbox row, or an edit's envelope; \<open>Mismatched\<close> is a call that
  TypeScript's types rule out, of a value of another kind than its type's.
\<close>

datatype js_value = Val jval | Row mutation_row | Env wire_envelope

definition readWhole :: "plan \<Rightarrow> policy \<Rightarrow> bytes \<Rightarrow> walk_error + jval" where
  "readWhole p pol bs =
     andThen (readPlan p pol [] (newReader bs)) (\<lambda>(v, r).
     if \<not> done_reader r then Inl (Failed [] TrailingValue) else Inr v)"

definition toJs :: "host_registry \<Rightarrow> jsstr \<Rightarrow> bytes \<Rightarrow> convert_error + js_value" where
  "toJs reg type bs =
     (if type = lit ''.json'' then map_sum (WireError \<circ> Msg) Val (decodeAny bs)
      else if type = lit ''.mutation'' then map_sum id Row (readMutation bs)
      else if type = lit ''.edits'' then map_sum WireError (Env \<circ> fst) (readEnvelope (newReader bs))
      else
        case map_of (hr_plans reg) type of
          None \<Rightarrow> Inl (NoEntry type)
        | Some p \<Rightarrow> map_sum WalkError Val (readWhole p (policyOf reg type) bs))"

definition writeWhole :: "plan \<Rightarrow> policy \<Rightarrow> jval \<Rightarrow> walk_error + bytes" where
  "writeWhole p pol v = map_sum id written (writePlan p pol [] v newWriter)"

definition toBytes :: "host_registry \<Rightarrow> jsstr \<Rightarrow> js_value \<Rightarrow> convert_error + bytes" where
  "toBytes reg type v =
     (if type = lit ''.json'' then (case v of Val x \<Rightarrow> map_sum (WireError \<circ> Msg) id (encodeAny x) | _ \<Rightarrow> Inl Mismatched)
      else if type = lit ''.mutation'' then (case v of Row m \<Rightarrow> Inr (writeMutation m) | _ \<Rightarrow> Inl Mismatched)
      else if type = lit ''.edits'' then Inl EditsOneWay
      else
        case map_of (hr_plans reg) type of
          None \<Rightarrow> Inl (NoEntry type)
        | Some p \<Rightarrow>
            (case v of Val x \<Rightarrow> map_sum WalkError id (writeWhole p (policyOf reg type) x) | _ \<Rightarrow> Inl Mismatched))"

definition convert :: "host_registry \<Rightarrow> jsstr \<Rightarrow> (js_value, 'h) rval \<Rightarrow> rep \<Rightarrow> rep \<Rightarrow> convert_error + (js_value, 'h) rval" where
  "convert reg type value from to =
     (if from = to then Inr value
      else if type = lit ''.page'' then Inl NeverConverted
      else
        case (from, to, value) of
          (MSGPACK, JS, ByteVal bs) \<Rightarrow> map_sum id JsVal (toJs reg type bs)
        | (JS, MSGPACK, JsVal v) \<Rightarrow> map_sum id ByteVal (toBytes reg type v)
        | _ \<Rightarrow> Inl (NoConversion type from to))"

end
