(* ===== verification/RegistryWire.thy ===== *)
theory RegistryWire
  imports RegistryWrite
begin

text \<open>
  Looking ahead in bytes is looking into the value they are the form of: where the Registry's walk
  tells a union's members apart by bytes (client/ts/src/registry.ts, \<open>readUnion\<close>), it chooses what the
  same decision chooses over the value.
\<close>

section \<open>Reading a form, whatever key was searched last\<close>

definition takes :: "(reader \<Rightarrow> 'e + ('a \<times> reader)) \<Rightarrow> bytes \<Rightarrow> 'a \<Rightarrow> bool" where
  "takes f bs v = (\<forall>r rest. rd_ok r \<longrightarrow> unread r = bs @ rest \<longrightarrow> (\<exists>k. f r = Inr (v, (advanceBy (length bs) r)\<lparr>rd_key := k\<rparr>)))"

lemma keyed_simps [simp]:
  "rd_ok (r\<lparr>rd_key := k\<rparr>) = rd_ok r" "unread (r\<lparr>rd_key := k\<rparr>) = unread r" "advanceBy n (r\<lparr>rd_key := k\<rparr>) = (advanceBy n r)\<lparr>rd_key := k\<rparr>"
  by (simp_all add: rd_ok_def unread_def advanceBy_def)

lemma takesI: "(\<And>r rest. rd_ok r \<Longrightarrow> unread r = bs @ rest \<Longrightarrow> \<exists>k. f r = Inr (v, (advanceBy (length bs) r)\<lparr>rd_key := k\<rparr>)) \<Longrightarrow> takes f bs v"
  by (simp add: takes_def)

lemma takesD: "takes f bs v \<Longrightarrow> rd_ok r \<Longrightarrow> unread r = bs @ rest \<Longrightarrow>
    \<exists>k. f r = Inr (v, (advanceBy (length bs) r)\<lparr>rd_key := k\<rparr>)"
  by (simp add: takes_def)

lemma same_key: "r = r\<lparr>rd_key := rd_key r\<rparr>"
  by simp

lemma takes_reads: "reads f bs v \<Longrightarrow> takes f bs v"
  unfolding takes_def reads_def by (metis same_key)

lemma takes_map: "takes f bs v \<Longrightarrow> takes (\<lambda>r. map_sum id (map_prod h id) (f r)) bs (h v)"
  unfolding takes_def by fastforce

lemma takes_attempt: "takes f bs v \<Longrightarrow> takes (\<lambda>r. attempt path (f r)) bs v"
  by (simp add: takes_def)

lemma takes_pure: "takes (\<lambda>r. Inr (v, r)) [] v"
  by (rule takes_reads [OF reads_pure])

lemma takes_bind:
  assumes "takes f bs x" "takes (g x) cs v"
  shows "takes (\<lambda>r. andThen (f r) (\<lambda>(x, r'). g x r')) (bs @ cs) v"
proof (rule takesI)
  fix r rest
  assume r: "rd_ok r" "unread r = (bs @ cs) @ rest"
  then obtain k where f: "f r = Inr (x, (advanceBy (length bs) r)\<lparr>rd_key := k\<rparr>)" using takesD [OF assms(1)] by fastforce
  have "rd_ok ((advanceBy (length bs) r)\<lparr>rd_key := k\<rparr>)" "unread ((advanceBy (length bs) r)\<lparr>rd_key := k\<rparr>) = cs @ rest"
    using r by (simp_all add: rd_ok_advanceBy unread_advanceBy)
  from takesD [OF assms(2) this] obtain l where "g x ((advanceBy (length bs) r)\<lparr>rd_key := k\<rparr>) =
      Inr (v, (advanceBy (length cs) ((advanceBy (length bs) r)\<lparr>rd_key := k\<rparr>))\<lparr>rd_key := l\<rparr>)" by blast
  then show "\<exists>k. andThen (f r) (\<lambda>(x, r'). g x r') = Inr (v, (advanceBy (length (bs @ cs)) r)\<lparr>rd_key := k\<rparr>)"
    using f by (cases l) auto
qed

text \<open>A look ahead, which reads nothing, before what reads.\<close>

lemma takes_peek:
  assumes "\<And>r rest. rd_ok r \<Longrightarrow> unread r = bs @ rest \<Longrightarrow> f r = Inr x" "takes (g x) bs v"
  shows "takes (\<lambda>r. andThen (f r) (\<lambda>x. g x r)) bs v"
  using assms unfolding takes_def by auto

lemma takes_check: "\<not> c \<Longrightarrow> takes f bs v \<Longrightarrow> takes (\<lambda>r. if c then Inl e else f r) bs v"
  by simp

section \<open>Keys\<close>

lemma utf8TE_wf: "well_formed k \<Longrightarrow> utf8EncodeTE k = utf8Encode k"
  by (simp add: utf8EncodeTE_def utf8Encode_wf toWellFormed_wf)

lemma utf8Encode_inj: "keepsText a \<Longrightarrow> keepsText b \<Longrightarrow> utf8Encode a = utf8Encode b \<longleftrightarrow> a = b"
proof
  assume k: "keepsText a" "keepsText b" and e: "utf8Encode a = utf8Encode b"
  have c: "utf8Count a = utf8Count b" using arg_cong [OF e, of length] by (simp only: utf8Encode_length)
  let ?r = "newReader (utf8Encode a)"
  have "textAt (utf8Count a) ?r = Inr (a, advanceBy (length (utf8Encode a)) ?r)"
    by (rule readsD [OF reads_text [OF k(1)], of _ "[]"]) simp_all
  moreover have "textAt (utf8Count b) ?r = Inr (b, advanceBy (length (utf8Encode b)) ?r)"
    by (rule readsD [OF reads_text [OF k(2)], of _ "[]"]) (simp_all add: e)
  ultimately show "a = b" unfolding c by simp
qed simp

lemma takes_keyIndex:
  assumes "keyFits s"
  shows "takes (keyIndex keys hint) (encStr s) (keySearch keys hint (utf8Encode s))"
proof (rule takesI)
  fix r rest
  assume r: "rd_ok r" "unread r = encStr s @ rest"
  let ?n = "utf8Count s" let ?h = "encStrHeader ?n"
  have h: "tryStrHeader r = Inr (Some ?n, advanceBy (length ?h) r)"
    using readsD [OF reads_tryStrHeader, of ?n r "utf8Encode s @ rest"] assms r by (simp add: encStr_header)
  let ?s = "advanceBy (length ?h) r"
  have s: "rd_ok ?s" "unread ?s = utf8Encode s @ rest"
    using r by (simp_all add: encStr_header rd_ok_advanceBy unread_advanceBy)
  have "need ?n ?s = Inr ()" using s by (intro need_unread) (simp_all add: utf8Encode_length)
  moreover have "take ?n (drop (rd_pos ?s) (rd_buf ?s)) = utf8Encode s"
    using buf_unread [OF s(1)] s(2) by (simp add: utf8Encode_length)
  ultimately show "\<exists>k. keyIndex keys hint r = Inr (keySearch keys hint (utf8Encode s), (advanceBy (length (encStr s)) r)\<lparr>rd_key := k\<rparr>)"
    using h by (auto simp: keyIndex_def encStr_header utf8Encode_length)
qed

lemma keySearch_first:
  "keySearch keys 0 text = (case find (\<lambda>i. keys ! i = text) [0..<length keys] of None \<Rightarrow> -1 | Some i \<Rightarrow> int i)"
proof -
  have "map (\<lambda>j. if 0 + j < length keys then 0 + j else 0 + j - length keys) [0..<length keys] = [0..<length keys]"
    by (rule map_idI) simp
  then show ?thesis by (simp only: keySearch_def Let_def)
qed

lemma keySearch_none: "text \<notin> set keys \<Longrightarrow> hint < length keys \<or> hint = 0 \<Longrightarrow> keySearch keys hint text = -1"
proof -
  assume t: "text \<notin> set keys" "hint < length keys \<or> hint = 0"
  have "find (\<lambda>i. keys ! i = text) (map (\<lambda>j. if hint + j < length keys then hint + j else hint + j - length keys) [0..<length keys]) = None"
    using t by (auto simp: find_None_iff)
  then show ?thesis by (simp add: keySearch_def Let_def)
qed

lemma keySearch_found:
  assumes "distinct keys" "i < length keys" "keys ! i = text" "hint < length keys"
  shows "keySearch keys hint text = int i"
proof -
  let ?ord = "map (\<lambda>j. if hint + j < length keys then hint + j else hint + j - length keys) [0..<length keys]"
  have only: "keys ! a = text \<longleftrightarrow> a = i" if "a < length keys" for a
    using assms that nth_eq_iff_index_eq by metis
  have inside: "\<forall>a \<in> set ?ord. a < length keys" using assms(4) by auto
  have "i \<in> set ?ord"
  proof (cases "hint \<le> i")
    case True
    then have "?ord ! (i - hint) = i" "i - hint < length ?ord" using assms(2) by auto
    then show ?thesis using nth_mem by metis
  next
    case False
    then have "i + length keys - hint < length keys" "hint + (i + length keys - hint) = i + length keys" using assms(4) by auto
    then have "?ord ! (i + length keys - hint) = i" "i + length keys - hint < length ?ord" by simp_all
    then show ?thesis using nth_mem by metis
  qed
  then have "find (\<lambda>a. keys ! a = text) ?ord \<noteq> None" using assms(3) by (auto simp only: find_None_iff)
  then obtain a where a: "find (\<lambda>a. keys ! a = text) ?ord = Some a" by blast
  then have "a \<in> set ?ord" "keys ! a = text" by (auto simp only: find_Some_iff nth_mem)
  then have "a = i" using only inside by blast
  then show ?thesis using a by (simp only: keySearch_def Let_def option.case)
qed

section \<open>Values on the wire\<close>

text \<open>A value whose form every read takes back: texts and counts that fit, canonical numbers, dates in range.\<close>

fun wire_ok :: "jval \<Rightarrow> bool" where
  "wire_ok (StrV s) = keyFits s"
| "wire_ok (NumV n) = num_ok n"
| "wire_ok (DateV d) = (case d of None \<Rightarrow> False | Some ms \<Rightarrow> \<bar>ms\<bar> \<le> 8640000000000000)"
| "wire_ok (ArrV xs) = (length xs < 2 ^ 32 \<and> (\<forall>x \<in> set xs. wire_ok x))"
| "wire_ok (ObjV es) = (length es < 2 ^ 32 \<and> distinct (map fst es) \<and> (\<forall>e \<in> set es. keyFits (fst e) \<and> wire_ok (snd e)))"
| "wire_ok NoFormV = False"
| "wire_ok v = True"

text \<open>The keys and values of an object, in turn, as they are written.\<close>

definition entryItems :: "(jsstr \<times> jval) list \<Rightarrow> bytes list" where
  "entryItems es = concat (map (\<lambda>(k, x). if x = UndefV then [] else [encStr k, enc x]) es)"

abbreviation kept :: "(jsstr \<times> jval) list \<Rightarrow> (jsstr \<times> jval) list" where "kept es \<equiv> filter (\<lambda>(k, x). x \<noteq> UndefV) es"

lemma entryItems_simps [simp]: "entryItems [] = []"
  "entryItems ((k, x) # es) = (if x = UndefV then [] else [encStr k, enc x]) @ entryItems es"
  by (simp_all add: entryItems_def)

lemma encEntries_items: "encEntries es = concat (entryItems es)"
  by (induction es) auto

lemma encItems_items: "encItems xs = concat (map enc xs)"
  by (induction xs) auto

lemma length_entryItems: "length (entryItems es) = length (kept es) * 2"
  by (induction es) auto

lemma value_bytes_map:
  assumes "length xs = n * 2" "n < 2 ^ 32" "\<forall>x \<in> set xs. value_bytes x"
  shows "value_bytes (encHeader n 0x80 0xde @ concat xs)"
proof (rule value_bytesI)
  let ?h = "encHeader n 0x80 0xde" let ?r = "newReader (?h @ concat xs)" let ?s = "advanceBy (length ?h) ?r"
  have "mapHeader ?r = Inr (n, ?s)" using readsD [OF reads_mapHeader [OF assms(2)], of ?r "concat xs"] by simp
  then have h: "steps ?r ?s 1 (n * 2)" by (rule steps_mapHeader)
  have "spans ?s (length (concat xs)) (length xs) 0"
    using value_bytes_many [OF assms(3), of ?s "[]"] by (simp add: rd_ok_advanceBy unread_advanceBy)
  then have "steps ?s (advanceBy (length (concat xs)) ?s) (n * 2) 0" using assms(1) by (auto intro: stepsI)
  from steps_trans [OF h this] show "steps ?r (advanceBy (length (?h @ concat xs)) ?r) 1 0" by simp
qed

lemma text_value: "keyFits s \<Longrightarrow> value_bytes (encStr s)"
  by (rule value_bytes_read [OF reads_str steps_str]) auto

lemma int_bytes_value: "\<bar>i\<bar> < 2 ^ 53 \<Longrightarrow> value_bytes (encInt i)"
  by (rule value_bytes_read [OF reads_int steps_int]) auto

lemma number_value: "value_bytes (encNumber n)"
proof -
  have f: "value_bytes (encFloat64 b)" for b by (rule value_bytes_read [OF reads_float steps_float])
  show ?thesis using f int_bytes_value int_bytes_value [of 0] by (auto simp: encNumber_def split: jnum.splits)
qed

lemma kept_entries: "length (kept es) \<le> length es"
  by simp

lemma wire_value: "wire_ok x \<Longrightarrow> value_bytes (enc x)"
proof (induction x rule: wire_ok.induct)
  case (3 d)
  then obtain ms where "d = Some ms" "\<bar>ms\<bar> \<le> 8640000000000000" by (auto split: option.splits)
  then show ?case using value_bytes_read [OF reads_timestamp [of d] steps_timestamp] by simp
next
  case (4 xs)
  then show ?case using value_bytes_array [of "map enc xs" "length xs"] by (auto simp: encItems_items)
next
  case (5 es)
  have "\<forall>x \<in> set (entryItems es). value_bytes x"
    using 5 text_value by (auto simp: entryItems_def split: if_splits)
  moreover have "length (kept es) < 2 ^ 32" using 5(2) kept_entries [of es] by (auto simp del: length_filter_le)
  ultimately show ?case using value_bytes_map [of "entryItems es" "length (kept es)"] by (simp add: length_entryItems encEntries_items)
qed (use value_bytes_enc [of NullV] in \<open>auto intro: text_value number_value value_bytes_read [OF reads_bool(1) steps_bool]
      simp: writable.simps\<close>)

section \<open>Looking ahead\<close>

text \<open>A value's form is at a position of the buffer.\<close>

definition sits :: "reader \<Rightarrow> nat \<Rightarrow> jval \<Rightarrow> bool" where
  "sits r pos x = (rd_ok (seek pos r) \<and> (\<exists>rest. unread (seek pos r) = enc x @ rest))"

lemma seek_simps [simp]: "rd_buf (seek p r) = rd_buf r" "rd_end (seek p r) = rd_end r" "rd_pos (seek p r) = p"
  "seek p (seek q r) = seek p r" "seek p (advanceBy n r) = seek p r" "seek (rd_pos r) r = r"
  "rd_key (seek p r) = rd_key r"
  by (simp_all add: seek_def advanceBy_def)

lemma seek_keyed [simp]: "seek p (r\<lparr>rd_key := k\<rparr>) = (seek p r)\<lparr>rd_key := k\<rparr>" "rd_pos (r\<lparr>rd_key := k\<rparr>) = rd_pos r"
  by (simp_all add: seek_def)

lemma sits_key [simp]: "sits (r\<lparr>rd_key := k\<rparr>) p x = sits r p x" "sits (seek q r) p x = sits r p x" "sits (advanceBy n r) p x = sits r p x"
  by (simp_all add: sits_def)

lemma sits_here: "rd_ok r \<Longrightarrow> unread r = enc x @ rest \<Longrightarrow> sits r (rd_pos r) x"
  by (simp add: sits_def)

lemma sits_seek: "sits r pos x \<Longrightarrow> seek pos r = s \<Longrightarrow> rd_ok s \<and> (\<exists>rest. unread s = enc x @ rest)"
  by (simp add: sits_def)

lemma sits_reads: "reads f (enc x) v \<Longrightarrow> sits r pos x \<Longrightarrow> f (seek pos r) = Inr (v, advanceBy (length (enc x)) (seek pos r))"
  using readsD by (auto simp: sits_def)

lemma sits_takes: "takes f (enc x) v \<Longrightarrow> sits r pos x \<Longrightarrow>
    \<exists>k. f (seek pos r) = Inr (v, (advanceBy (length (enc x)) (seek pos r))\<lparr>rd_key := k\<rparr>)"
  using takesD by (auto simp: sits_def)

fun kindFor :: "jval \<Rightarrow> kind" where
  "kindFor NullV = NilK" | "kindFor UndefV = NilK" | "kindFor (BoolV b) = BoolK" | "kindFor (StrV s) = StrK"
| "kindFor (DateV d) = ExtK" | "kindFor (ArrV xs) = ArrayK" | "kindFor (ObjV es) = MapK" | "kindFor NoFormV = NilK"
| "kindFor (NumV n) = (case n of IntN i \<Rightarrow> if \<bar>i\<bar> < 2 ^ 53 then IntK else FloatK | F64 b \<Rightarrow> if b = minus_zero then IntK else FloatK)"

lemma starts_enc: "x \<noteq> NoFormV \<Longrightarrow> startsKind (enc x) (kindFor x)"
  by (cases x) (auto simp: starts_simple starts_str starts_int starts_time starts_header intro: starts_append starts_header
      split: jnum.splits simp: encNumber_def)

lemma kind_sits: "sits r pos x \<Longrightarrow> x \<noteq> NoFormV \<Longrightarrow> kindAt (seek pos r) = Inr (kindFor x)"
  using kindAt_starts [OF starts_enc] by (auto simp: sits_def)

text \<open>The JSON type of a value on the wire, where \<open>undefined\<close> is null.\<close>

definition wireType :: "jval \<Rightarrow> nat" where
  "wireType x = (case jsTypeOf x of Some t \<Rightarrow> t | None \<Rightarrow> JT_NULL)"

lemma num_bytes:
  assumes "num_ok n"
  obtains (safe) i where "\<bar>i\<bar> < 2 ^ 53" "enc (NumV n) = encInt i" "safeNum n = Some i" "isInteger n" "kindFor (NumV n) = IntK"
  | (double) b where "n = F64 b" "enc (NumV n) = encFloat64 b" "ofBits b = n" "kindFor (NumV n) = FloatK"
proof (cases n)
  case (IntN i)
  then show ?thesis using assms by (intro safe [of i]) (simp_all add: encNumber_def safeNum_def isInteger_def)
next
  case (F64 b)
  have "safeOf minus_zero = Some 0" by code_simp
  then show ?thesis using assms F64 safe [of 0] double [of b]
    by (cases "b = minus_zero") (simp_all add: encNumber_def safeNum_def isInteger_def ofBits_def)
qed

lemma jsonTypeAt_sits:
  assumes "sits r pos x" "wire_ok x"
  shows "jsonTypeAt r pos = Inr (wireType x)"
proof (cases x)
  case (NumV n)
  have k: "kindAt (seek pos r) = Inr (kindFor x)" using kind_sits assms by (cases x) auto
  have "num_ok n" using assms(2) NumV by simp
  then show ?thesis
  proof (cases rule: num_bytes)
    case (safe i)
    then show ?thesis using k NumV by (simp add: jsonTypeAt_def wireType_def)
  next
    case (double b)
    then have "float (seek pos r) = Inr (n, advanceBy (length (enc x)) (seek pos r))"
      using sits_reads [OF _ assms(1), of float] reads_float [of b] NumV by simp
    then show ?thesis using k NumV double by (simp add: jsonTypeAt_def wireType_def)
  qed
qed (use kind_sits [OF assms(1)] assms(2) in \<open>simp_all add: jsonTypeAt_def wireType_def\<close>)

fun lit_ok :: "lit \<Rightarrow> bool" where
  "lit_ok (StrL s) = keyFits s"
| "lit_ok (NumL i) = (\<bar>i\<bar> < 2 ^ 53)"
| "lit_ok (BoolL b) = True"

lemma find_cong_upt: "(\<And>i. i < n \<Longrightarrow> P i = Q i) \<Longrightarrow> find P [0..<n] = find Q [0..<n]"
  by (rule find_cong) auto

lemma litIndex_num: "safeNum n = safeNum m \<Longrightarrow> litIndex lits (NumV n) = litIndex lits (NumV m)"
  unfolding litIndex_def by (rule find_cong_upt) (simp add: sameLit_def split: lit.split)

lemma litIndex_none: "\<not> (\<exists>s. v = StrV s) \<Longrightarrow> \<not> (\<exists>n. v = NumV n) \<Longrightarrow> \<not> (\<exists>b. v = BoolV b) \<Longrightarrow> litIndex lits v = None"
  by (cases v) (auto simp: litIndex_def find_None_iff sameLit_def split: lit.splits)

lemma literalAt_sits:
  assumes "sits r pos x" "wire_ok x" "list_all lit_ok lits"
  shows "literalAt r lits pos = Inr (litIndex lits x)"
proof -
  have k: "kindAt (seek pos r) = Inr (kindFor x)" using kind_sits assms by (cases x) auto
  show ?thesis
  proof (cases x)
    case (NumV n)
    have "num_ok n" using assms(2) NumV by simp
    then show ?thesis
    proof (cases rule: num_bytes)
      case (safe i)
      then have "int_value (seek pos r) = Inr (i, advanceBy (length (enc x)) (seek pos r))"
        using sits_reads [OF _ assms(1), of int_value] reads_int [of i] NumV by simp
      moreover have "litIndex lits (NumV (ofInt i)) = litIndex lits x"
        unfolding NumV using safe by (intro litIndex_num) (simp add: ofInt_def safeNum_def)
      ultimately show ?thesis using k NumV safe by (simp add: literalAt_def)
    next
      case (double b)
      then have "float (seek pos r) = Inr (n, advanceBy (length (enc x)) (seek pos r))"
        using sits_reads [OF _ assms(1), of float] reads_float [of b] NumV by simp
      then show ?thesis using k NumV double by (simp add: literalAt_def)
    qed
  next
    case (StrV s)
    have s: "keyFits s" using assms(2) StrV by simp
    have plain: "str (seek pos r) = Inr (s, advanceBy (length (enc x)) (seek pos r))"
      using sits_reads [OF _ assms(1), of str] reads_str s StrV by simp
    have "keySearch (fieldBytes (map litText lits)) 0 (utf8Encode s) = (case litIndex lits x of None \<Rightarrow> -1 | Some i \<Rightarrow> int i)"
      if "list_all is_str lits"
    proof -
      have "(fieldBytes (map litText lits) ! i = utf8Encode s) = sameLit x (lits ! i)" if i: "i < length lits" for i
      proof -
        obtain t where t: "lits ! i = StrL t" using \<open>list_all is_str lits\<close> i by (cases "lits ! i") (auto simp: list_all_length)
        then have "keyFits t" using assms(3) i by (auto simp: list_all_length)
        then show ?thesis using t i s utf8Encode_inj [of t s] StrV
          by (auto simp: fieldBytes_def sameLit_def utf8TE_wf keepsText_def)
      qed
      then have "find (\<lambda>i. fieldBytes (map litText lits) ! i = utf8Encode s) [0..<length lits] = litIndex lits x"
        unfolding litIndex_def by (rule find_cong_upt)
      then show ?thesis by (simp add: keySearch_first fieldBytes_def)
    qed
    moreover obtain q where "keyIndex (fieldBytes (map litText lits)) 0 (seek pos r) =
        Inr (keySearch (fieldBytes (map litText lits)) 0 (utf8Encode s), q)"
      using sits_takes [of "keyIndex (fieldBytes (map litText lits)) 0" x, OF _ assms(1)] takes_keyIndex [OF s] StrV by fastforce
    ultimately have "literalAt r lits pos = Inr (litIndex lits x)" if "list_all is_str lits"
      using that k StrV by (simp add: literalAt_def split: option.splits)
    then show ?thesis using plain k StrV by (cases "list_all is_str lits") (simp_all add: literalAt_def)
  next
    case (BoolV b)
    have "bool (seek pos r) = Inr (b, advanceBy (length (enc x)) (seek pos r))"
      using sits_reads [OF _ assms(1), of bool] reads_bool(1) BoolV by simp
    then show ?thesis using k BoolV by (simp add: literalAt_def)
  qed (use k assms(2) in \<open>simp_all add: literalAt_def litIndex_none\<close>)
qed

text \<open>The value of a property that is written, and the first of some keys that is there.\<close>

definition wireField :: "jval \<Rightarrow> jsstr \<Rightarrow> jval option" where
  "wireField x key = (case x of ObjV es \<Rightarrow> map_of (kept es) key | _ \<Rightarrow> None)"

definition wireKey :: "jsstr list \<Rightarrow> jval \<Rightarrow> nat option" where
  "wireKey keys x = find (\<lambda>i. wireField x (keys ! i) \<noteq> None) [0..<length keys]"

text \<open>One entry of an object ahead of a cursor: its key, and what follows.\<close>

lemma entry_key:
  assumes "rd_ok r" "unread r = encStr k @ enc x @ rest" "keyFits k"
  shows "kindAt r = Inr StrK"
    "\<exists>r1. keyIndex keys 0 r = Inr (keySearch keys 0 (utf8Encode k), r1) \<and> rd_ok r1 \<and> unread r1 = enc x @ rest \<and>
       rd_buf r1 = rd_buf r \<and> rd_end r1 = rd_end r"
proof -
  show "kindAt r = Inr StrK" by (rule kindAt_starts [OF starts_str assms(1,2)])
  obtain q where q: "keyIndex keys 0 r = Inr (keySearch keys 0 (utf8Encode k), (advanceBy (length (encStr k)) r)\<lparr>rd_key := q\<rparr>)"
    using takesD [OF takes_keyIndex [OF assms(3)] assms(1,2)] by blast
  show "\<exists>r1. keyIndex keys 0 r = Inr (keySearch keys 0 (utf8Encode k), r1) \<and> rd_ok r1 \<and> unread r1 = enc x @ rest \<and>
       rd_buf r1 = rd_buf r \<and> rd_end r1 = rd_end r"
    using q assms by (intro exI [of _ "(advanceBy (length (encStr k)) r)\<lparr>rd_key := q\<rparr>"])
      (simp add: rd_ok_advanceBy unread_advanceBy)
qed

lemma sits_same: "rd_buf s = rd_buf r \<Longrightarrow> rd_end s = rd_end r \<Longrightarrow> sits s p x = sits r p x"
  by (simp add: sits_def rd_ok_def unread_def seek_def)

lemma findKey_entries:
  assumes "keyFits key"
  shows "rd_ok r \<Longrightarrow> unread r = concat (entryItems es) @ rest \<Longrightarrow> \<forall>e \<in> set es. keyFits (fst e) \<and> wire_ok (snd e) \<Longrightarrow>
    \<exists>p. findKey path (utf8EncodeTE key) (length (kept es)) r = Inr p \<and>
      (case map_of (kept es) key of None \<Rightarrow> p = None | Some x \<Rightarrow> \<exists>q. p = Some q \<and> sits r q x)"
proof (induction es arbitrary: r)
  case (Cons e es)
  obtain k x where e: "e = (k, x)" by (cases e)
  show ?case
  proof (cases "x = UndefV")
    case True
    then show ?thesis using Cons by (simp add: e)
  next
    case False
    have u: "unread r = encStr k @ enc x @ (concat (entryItems es) @ rest)" using Cons.prems(2) False by (simp add: e)
    have fits: "keyFits k" "wire_ok x" using Cons.prems(3) by (simp_all add: e)
    obtain r1 where r1: "keyIndex [utf8EncodeTE key] 0 r = Inr (keySearch [utf8EncodeTE key] 0 (utf8Encode k), r1)" "rd_ok r1"
        "unread r1 = enc x @ concat (entryItems es) @ rest" and b: "rd_buf r1 = rd_buf r" "rd_end r1 = rd_end r"
      using entry_key(2) [OF Cons.prems(1) u fits(1), of "[utf8EncodeTE key]"] by blast
    have i: "keySearch [utf8EncodeTE key] 0 (utf8Encode k) = (if key = k then 0 else -1)"
      using utf8Encode_inj [of key k] assms fits(1) by (simp add: keySearch_first utf8TE_wf keepsText_def)
    show ?thesis
    proof (cases "key = k")
      case True
      have "sits r (rd_pos r1) x" using r1 sits_here [OF r1(2), of x] sits_same [OF b] by simp
      then show ?thesis using True False r1 i entry_key(1) [OF Cons.prems(1) u fits(1)] by (simp add: e)
    next
      case other: False
      let ?r2 = "advanceBy (length (enc x)) r1"
      have s: "skip r1 = Inr ?r2" using skip_value_bytes [OF wire_value [OF fits(2)] r1(2,3)] .
      have "rd_ok ?r2" "unread ?r2 = concat (entryItems es) @ rest"
        using r1 by (simp_all add: rd_ok_advanceBy unread_advanceBy)
      from Cons.IH [OF this] Cons.prems(3) obtain p where p: "findKey path (utf8EncodeTE key) (length (kept es)) ?r2 = Inr p"
          "case map_of (kept es) key of None \<Rightarrow> p = None | Some x \<Rightarrow> \<exists>q. p = Some q \<and> sits ?r2 q x"
        by auto
      have "sits ?r2 q y = sits r q y" for q y using sits_same [OF b] by simp
      then show ?thesis using p other False r1 s i entry_key(1) [OF Cons.prems(1) u fits(1)] by (simp add: e split: option.splits)
    qed
  qed
qed simp

lemma map_at:
  assumes "sits r pos (ObjV es)" "wire_ok (ObjV es)"
  shows "\<exists>r1. mapHeader (seek pos r) = Inr (length (kept es), r1) \<and> rd_ok r1 \<and>
    (\<exists>rest. unread r1 = concat (entryItems es) @ rest) \<and> rd_buf r1 = rd_buf r \<and> rd_end r1 = rd_end r"
proof -
  let ?h = "encHeader (length (kept es)) 0x80 0xde"
  obtain rest where r: "rd_ok (seek pos r)" "unread (seek pos r) = ?h @ concat (entryItems es) @ rest"
    using assms(1) by (auto simp: sits_def encEntries_items)
  have "length (kept es) < 2 ^ 32" using assms(2) kept_entries [of es] by (auto simp del: length_filter_le)
  from readsD [OF reads_mapHeader [OF this] r] r show ?thesis
    by (intro exI [of _ "advanceBy (length ?h) (seek pos r)"]) (auto simp: rd_ok_advanceBy unread_advanceBy)
qed

lemma findField_sits:
  assumes "sits r pos x" "wire_ok x" "keyFits key"
  shows "\<exists>p. findField path r pos (utf8EncodeTE key) = Inr p \<and>
    (case wireField x key of None \<Rightarrow> p = None | Some y \<Rightarrow> \<exists>q. p = Some q \<and> sits r q y)"
proof -
  have k: "kindAt (seek pos r) = Inr (kindFor x)" using kind_sits assms by (cases x) auto
  show ?thesis
  proof (cases x)
    case (ObjV es)
    obtain r1 rest where r1: "mapHeader (seek pos r) = Inr (length (kept es), r1)" "rd_ok r1"
        "unread r1 = concat (entryItems es) @ rest" "rd_buf r1 = rd_buf r" "rd_end r1 = rd_end r"
      using map_at assms ObjV by blast
    from findKey_entries [OF assms(3) r1(2,3), of path] assms(2) ObjV r1(1) k sits_same [OF r1(4,5)]
    show ?thesis by (auto simp: findField_def wireField_def split: option.splits)
  qed (use k in \<open>simp_all add: findField_def wireField_def split: jnum.split\<close>)
qed

text \<open>A search for any of several keys: the least index of one that is there.\<close>

lemma findAnyKey_entries:
  assumes "\<forall>key \<in> set keys. keyFits key"
  shows "rd_ok r \<Longrightarrow> unread r = concat (entryItems es) @ rest \<Longrightarrow> \<forall>e \<in> set es. keyFits (fst e) \<and> wire_ok (snd e) \<Longrightarrow>
    best < int (length keys) \<Longrightarrow> - 1 \<le> best \<Longrightarrow>
    \<exists>b. findAnyKey path (fieldBytes keys) (length (kept es)) best r = Inr b \<and> - 1 \<le> b \<and> b < int (length keys) \<and>
      (0 \<le> b \<longrightarrow> b = best \<or> keys ! nat b \<in> fst ` set (kept es)) \<and> (0 \<le> best \<longrightarrow> 0 \<le> b \<and> b \<le> best) \<and>
      (\<forall>i < length keys. keys ! i \<in> fst ` set (kept es) \<longrightarrow> 0 \<le> b \<and> b \<le> int i)"
proof (induction es arbitrary: r best)
  case (Cons e es)
  obtain k x where e: "e = (k, x)" by (cases e)
  show ?case
  proof (cases "x = UndefV")
    case True
    then show ?thesis using Cons by (simp add: e)
  next
    case False
    have u: "unread r = encStr k @ enc x @ (concat (entryItems es) @ rest)" using Cons.prems(2) False by (simp add: e)
    have fits: "keyFits k" "wire_ok x" using Cons.prems(3) by (simp_all add: e)
    obtain r1 where r1: "keyIndex (fieldBytes keys) 0 r = Inr (keySearch (fieldBytes keys) 0 (utf8Encode k), r1)" "rd_ok r1"
        "unread r1 = enc x @ concat (entryItems es) @ rest"
      using entry_key(2) [OF Cons.prems(1) u fits(1), of "fieldBytes keys"] by blast
    let ?r2 = "advanceBy (length (enc x)) r1"
    have s: "skip r1 = Inr ?r2" using skip_value_bytes [OF wire_value [OF fits(2)] r1(2,3)] .
    have r2: "rd_ok ?r2" "unread ?r2 = concat (entryItems es) @ rest"
      using r1 by (simp_all add: rd_ok_advanceBy unread_advanceBy)
    define i where "i = keySearch (fieldBytes keys) 0 (utf8Encode k)"
    have "(fieldBytes keys ! j = utf8Encode k) = (keys ! j = k)" if "j < length keys" for j
      using that assms fits(1) utf8Encode_inj [of "keys ! j" k] by (auto simp: fieldBytes_def utf8TE_wf keepsText_def)
    then have "find (\<lambda>j. fieldBytes keys ! j = utf8Encode k) [0..<length keys] = find (\<lambda>j. keys ! j = k) [0..<length keys]"
      by (rule find_cong_upt)
    then have i: "i = (case find (\<lambda>j. keys ! j = k) [0..<length keys] of None \<Rightarrow> -1 | Some j \<Rightarrow> int j)"
      by (simp add: i_def keySearch_first fieldBytes_def)
    have i': "- 1 \<le> i" "i < int (length keys)" "0 \<le> i \<Longrightarrow> keys ! nat i = k" "\<And>j. j < length keys \<Longrightarrow> keys ! j = k \<Longrightarrow> 0 \<le> i \<and> i \<le> int j"
      using i by (auto simp: find_None_iff find_Some_iff split: option.splits) (metis linorder_not_le)+
    define best' where "best' = (if 0 \<le> i \<and> (best < 0 \<or> i < best) then i else best)"
    have b': "best' < int (length keys)" "- 1 \<le> best'" using i' Cons.prems(4,5) by (auto simp: best'_def)
    from Cons.IH [OF r2 _ b'] Cons.prems(3) obtain b where b: "findAnyKey path (fieldBytes keys) (length (kept es)) best' ?r2 = Inr b"
        "- 1 \<le> b" "b < int (length keys)" "0 \<le> b \<longrightarrow> b = best' \<or> keys ! nat b \<in> fst ` set (kept es)" "0 \<le> best' \<longrightarrow> 0 \<le> b \<and> b \<le> best'"
        "\<forall>i < length keys. keys ! i \<in> fst ` set (kept es) \<longrightarrow> 0 \<le> b \<and> b \<le> int i"
      by auto
    have f: "findAnyKey path (fieldBytes keys) (length (kept (e # es))) best r = Inr b"
      using b(1) False r1(1) s entry_key(1) [OF Cons.prems(1) u fits(1)] by (simp add: e best'_def i_def [symmetric])
    have low: "0 \<le> b \<and> b \<le> int j" if "j < length keys" "keys ! j = k" for j
      using i'(4) [OF that] b(5) by (auto simp: best'_def split: if_splits)
    have "0 \<le> b \<longrightarrow> b = best \<or> keys ! nat b \<in> insert k (fst ` set (kept es))"
      using b(4) i'(3) by (auto simp: best'_def split: if_splits)
    moreover have "0 \<le> best \<longrightarrow> 0 \<le> b \<and> b \<le> best" using b(5) by (auto simp: best'_def split: if_splits)
    ultimately show ?thesis using f b low False by (auto simp: e)
  qed
qed simp

lemma findAnyField_sits:
  assumes "sits r pos x" "wire_ok x" "\<forall>key \<in> set keys. keyFits key"
  shows "findAnyField path r pos (fieldBytes keys) = Inr (case wireKey keys x of None \<Rightarrow> -1 | Some i \<Rightarrow> int i)"
proof -
  have k: "kindAt (seek pos r) = Inr (kindFor x)" using kind_sits assms by (cases x) auto
  show ?thesis
  proof (cases x)
    case (ObjV es)
    obtain r1 rest where r1: "mapHeader (seek pos r) = Inr (length (kept es), r1)" "rd_ok r1"
        "unread r1 = concat (entryItems es) @ rest"
      using map_at assms ObjV by blast
    from findAnyKey_entries [OF assms(3) r1(2,3), of "-1" path] assms(2) ObjV obtain b where
      b: "findAnyKey path (fieldBytes keys) (length (kept es)) (-1) r1 = Inr b" "- 1 \<le> b" "b < int (length keys)"
        "0 \<le> b \<longrightarrow> keys ! nat b \<in> fst ` set (kept es)"
        "\<forall>i < length keys. keys ! i \<in> fst ` set (kept es) \<longrightarrow> 0 \<le> b \<and> b \<le> int i"
      by auto
    have w: "wireField x key = None \<longleftrightarrow> key \<notin> fst ` set (kept es)" for key
      using ObjV by (simp add: wireField_def map_of_eq_None_iff)
    have "b = (case wireKey keys x of None \<Rightarrow> -1 | Some i \<Rightarrow> int i)"
    proof (cases "wireKey keys x")
      case None
      then have "keys ! i \<notin> fst ` set (kept es)" if "i < length keys" for i
        using that unfolding w [symmetric] by (simp add: wireKey_def find_None_iff)
      then have "\<not> (0 \<le> b)" using b(3,4) by auto
      then show ?thesis using None b(2) by simp
    next
      case (Some i)
      then have "i < length keys" "wireField x (keys ! i) \<noteq> None" "\<And>j. j < i \<Longrightarrow> wireField x (keys ! j) = None"
        by (auto simp: wireKey_def find_Some_iff)
      then have i: "i < length keys" "keys ! i \<in> fst ` set (kept es)" "\<And>j. j < i \<Longrightarrow> keys ! j \<notin> fst ` set (kept es)"
        unfolding w by blast+
      have "0 \<le> b \<and> b \<le> int i" using b(5) i by blast
      moreover have "\<not> nat b < i" using i(3) b(4) calculation by blast
      ultimately have "b = int i" by linarith
      then show ?thesis using Some by simp
    qed
    then show ?thesis using b(1) r1(1) k ObjV by (simp add: findAnyField_def)
  qed (use k in \<open>simp_all add: findAnyField_def wireKey_def wireField_def find_None_iff [THEN iffD2] split: jnum.split\<close>)
qed

lemma arrayAt_sits:
  assumes "sits r pos x" "wire_ok x"
  shows "(case x of
      ArrV xs \<Rightarrow> \<exists>r1. arrayAt path r pos = Inr (length xs, r1) \<and> rd_ok r1 \<and> (\<exists>rest. unread r1 = concat (map enc xs) @ rest) \<and>
        rd_buf r1 = rd_buf r \<and> rd_end r1 = rd_end r \<and> (\<forall>p. seek p r1 = seek p r)
    | _ \<Rightarrow> arrayAt path r pos = Inl (UnknownMember path ExpectedArray))"
proof -
  have k: "kindAt (seek pos r) = Inr (kindFor x)" using kind_sits assms by (cases x) auto
  show ?thesis
  proof (cases x)
    case (ArrV xs)
    let ?h = "encHeader (length xs) 0x90 0xdc"
    obtain rest where r: "rd_ok (seek pos r)" "unread (seek pos r) = ?h @ concat (map enc xs) @ rest"
      using assms(1) ArrV by (auto simp: sits_def encItems_items)
    have "arrayHeader (seek pos r) = Inr (length xs, advanceBy (length ?h) (seek pos r))"
      using assms(2) ArrV by (intro readsD [OF reads_arrayHeader _ r(2)]) (simp_all add: r)
    then show ?thesis using k r ArrV by (auto simp: arrayAt_def rd_ok_advanceBy unread_advanceBy)
  qed (use k in \<open>simp_all add: arrayAt_def split: jnum.split\<close>)
qed

lemma skipMany_items:
  "\<forall>x \<in> set xs. wire_ok x \<Longrightarrow> rd_ok r \<Longrightarrow> unread r = concat (map enc xs) @ rest \<Longrightarrow> i < length xs \<Longrightarrow>
    \<exists>n. skipMany i r = Inr (advanceBy n r) \<and> sits r (rd_pos r + n) (xs ! i)"
proof (induction i arbitrary: xs r)
  case 0
  then obtain x ys where "xs = x # ys" by (cases xs) auto
  then show ?case using 0 sits_here [of r x] by (auto intro: exI [of _ 0])
next
  case (Suc i)
  then obtain x ys where xs: "xs = x # ys" by (cases xs) auto
  have s: "skip r = Inr (advanceBy (length (enc x)) r)"
    using Suc.prems xs by (intro skip_value_bytes [OF wire_value]) auto
  let ?r = "advanceBy (length (enc x)) r"
  have "rd_ok ?r" "unread ?r = concat (map enc ys) @ rest" using Suc.prems xs by (simp_all add: rd_ok_advanceBy unread_advanceBy)
  from Suc.IH [OF _ this] Suc.prems xs obtain n where "skipMany i ?r = Inr (advanceBy n ?r)" "sits ?r (rd_pos ?r + n) (ys ! i)" by auto
  then show ?case using s xs by (intro exI [of _ "length (enc x) + n"]) (simp add: add.assoc)
qed

section \<open>The decision\<close>

text \<open>The member a solution chooses for a value on the wire.\<close>

fun chooseWire :: "sol \<Rightarrow> jval \<Rightarrow> jval \<Rightarrow> plan option" where
  "chooseWire (MatchS p) = (\<lambda>obj subj. Some p)"
| "chooseWire (TypeS opts any) = (\<lambda>obj subj.
     case map_of (map (\<lambda>(c, s). (c, chooseWire s)) opts) (wireType subj) of
       Some go \<Rightarrow> go obj subj
     | None \<Rightarrow> (case any of Some s \<Rightarrow> chooseWire s obj subj | None \<Rightarrow> None))"
| "chooseWire (LiteralS opts) = (\<lambda>obj subj.
     case litIndex (map fst opts) subj of None \<Rightarrow> None | Some i \<Rightarrow> (map (\<lambda>(l, s). chooseWire s) opts ! i) obj subj)"
| "chooseWire (LengthS opts dflt) = (\<lambda>obj subj.
     case subj of
       ArrV xs \<Rightarrow>
         (case map_of (map (\<lambda>(n, s). (n, chooseWire s)) opts) (length xs) of
            Some go \<Rightarrow> go obj subj
          | None \<Rightarrow> (case dflt of Some s \<Rightarrow> chooseWire s obj subj | None \<Rightarrow> None))
     | _ \<Rightarrow> None)"
| "chooseWire (IndexS i s) = (\<lambda>obj subj.
     case subj of ArrV xs \<Rightarrow> if i < length xs then chooseWire s (xs ! i) (xs ! i) else None | _ \<Rightarrow> None)"
| "chooseWire (FieldS key s) = (\<lambda>obj subj. case wireField obj key of None \<Rightarrow> None | Some x \<Rightarrow> chooseWire s obj x)"
| "chooseWire (HasFieldS opts) = (\<lambda>obj subj.
     case wireKey (map fst opts) obj of None \<Rightarrow> None | Some i \<Rightarrow> (map (\<lambda>(k, s). chooseWire s) opts ! i) obj obj)"

text \<open>The keys and literals of a decision are ones whose UTF-8 tells them apart.\<close>

fun sol_keys_ok :: "sol \<Rightarrow> bool" where
  "sol_keys_ok (MatchS p) = True"
| "sol_keys_ok (TypeS opts any) = ((\<forall>o' \<in> set opts. sol_keys_ok (snd o')) \<and> (case any of None \<Rightarrow> True | Some s \<Rightarrow> sol_keys_ok s))"
| "sol_keys_ok (LiteralS opts) = (\<forall>o' \<in> set opts. lit_ok (fst o') \<and> sol_keys_ok (snd o'))"
| "sol_keys_ok (LengthS opts dflt) = ((\<forall>o' \<in> set opts. sol_keys_ok (snd o')) \<and> (case dflt of None \<Rightarrow> True | Some s \<Rightarrow> sol_keys_ok s))"
| "sol_keys_ok (IndexS i s) = sol_keys_ok s"
| "sol_keys_ok (FieldS key s) = (keyFits key \<and> sol_keys_ok s)"
| "sol_keys_ok (HasFieldS opts) = (\<forall>o' \<in> set opts. keyFits (fst o') \<and> sol_keys_ok (snd o'))"

lemma map_of_second: "map_of (map (\<lambda>(c, s). (c, f s)) opts) k = map_option f (map_of opts k)"
  by (induction opts) auto

lemma wireField_wire: "wire_ok x \<Longrightarrow> wireField x key = Some y \<Longrightarrow> wire_ok y"
  by (cases x) (fastforce simp: wireField_def dest!: map_of_SomeD)+

lemma litIndex_bound: "litIndex lits v = Some i \<Longrightarrow> i < length lits \<and> sameLit v (lits ! i)"
  by (auto simp: litIndex_def find_Some_iff)

lemma wireKey_bound: "wireKey keys v = Some i \<Longrightarrow> i < length keys \<and> wireField v (keys ! i) \<noteq> None"
  by (auto simp: wireKey_def find_Some_iff)

text \<open>What the bytes choose, then, is what the value chooses.\<close>

lemma readSol_chooses:
  "sol_keys_ok s \<Longrightarrow> chooseWire s o' v = Some p \<Longrightarrow> wire_ok o' \<Longrightarrow> wire_ok v \<Longrightarrow> sits r obj o' \<Longrightarrow> sits r subj v \<Longrightarrow>
    readSol s pol path obj subj start r = readPlan p pol path (seek start r)"
proof (induction s arbitrary: o' v r obj subj rule: chooseWire.induct)
  case (1 p)
  then show ?case by simp
next
  case (2 opts any)
  have t: "jsonTypeAt r subj = Inr (wireType v)" using jsonTypeAt_sits 2 by blast
  show ?case
  proof (cases "map_of opts (wireType v)")
    case None
    then obtain s where "any = Some s" "chooseWire s o' v = Some p" using 2(4) by (auto simp: map_of_second split: option.splits)
    then show ?thesis using 2 t None by (simp add: map_of_second)
  next
    case (Some s)
    then have m: "(wireType v, s) \<in> set opts" by (rule map_of_SomeD)
    then show ?thesis using 2(1) [OF m refl] 2(3-) t Some by (auto simp: map_of_second)
  qed
next
  case (3 opts)
  have "list_all lit_ok (map fst opts)" using 3(2) by (simp add: list_all_iff)
  then have t: "literalAt r (map fst opts) subj = Inr (litIndex (map fst opts) v)" using literalAt_sits 3 by blast
  obtain i where i: "litIndex (map fst opts) v = Some i" using 3(3) by (auto split: option.splits)
  then have l: "i < length opts" using litIndex_bound by fastforce
  obtain l' s where o: "opts ! i = (l', s)" by (cases "opts ! i")
  then have m: "(l', s) \<in> set opts" using l nth_mem by force
  then show ?case using 3(1) [OF i m refl] 3(2-) t i o l by auto
next
  case (4 opts dflt)
  obtain xs where v: "v = ArrV xs" using 4(4) by (auto split: jval.splits)
  obtain r1 where r1: "arrayAt path r subj = Inr (length xs, r1)" "\<forall>p. seek p r1 = seek p r"
    using arrayAt_sits [of r subj v path] 4 v by auto
  show ?case
  proof (cases "map_of opts (length xs)")
    case None
    then obtain s where "dflt = Some s" "chooseWire s o' v = Some p" using 4(4) v by (auto simp: map_of_second split: option.splits)
    then show ?thesis using 4 r1 None v by (simp add: map_of_second)
  next
    case (Some s)
    then have m: "(length xs, s) \<in> set opts" by (rule map_of_SomeD)
    then show ?thesis using 4(1) [OF v m refl] 4(3-) r1 Some v by (auto simp: map_of_second)
  qed
next
  case (5 i s)
  obtain xs where v: "v = ArrV xs" and i: "i < length xs" and c: "chooseWire s (xs ! i) (xs ! i) = Some p"
    using 5(3) by (auto split: jval.splits if_splits)
  obtain r1 rest where r1: "arrayAt path r subj = Inr (length xs, r1)" "\<forall>p. seek p r1 = seek p r" "rd_ok r1"
      "unread r1 = concat (map enc xs) @ rest" "rd_buf r1 = rd_buf r" "rd_end r1 = rd_end r"
    using arrayAt_sits [of r subj v path] 5 v by auto
  obtain n where n: "skipMany i r1 = Inr (advanceBy n r1)" "sits r1 (rd_pos r1 + n) (xs ! i)"
    using skipMany_items [OF _ r1(3,4) i] 5(5) v by auto
  have w: "wire_ok (xs ! i)" using 5(5) v i by simp
  show ?case
    using 5(1) [OF i _ c w w, of "advanceBy n r1" "rd_pos r1 + n" "rd_pos r1 + n"] n 5(2) r1 i v by simp
next
  case (6 key s)
  obtain x where x: "wireField o' key = Some x" "chooseWire s o' x = Some p" using 6(3) by (auto split: option.splits)
  then obtain q where "findField path r obj (utf8EncodeTE key) = Inr (Some q)" "sits r q x"
    using findField_sits [of r obj o' key path] 6 by auto
  then show ?case using 6(1) [OF x(1) _ x(2)] 6(2-) wireField_wire [OF 6(4) x(1)] by simp
next
  case (7 opts)
  have "\<forall>key \<in> set (map fst opts). keyFits key" using 7(2) by auto
  note t = findAnyField_sits [OF 7(6) 7(4) this, of path]
  obtain i where i: "wireKey (map fst opts) o' = Some i" using 7(3) by (auto split: option.splits)
  then have l: "i < length opts" using wireKey_bound by fastforce
  obtain l' s where o: "opts ! i = (l', s)" by (cases "opts ! i")
  then have m: "(l', s) \<in> set opts" using l nth_mem by force
  then show ?case using 7(1) [OF i m refl] 7(2-) t i o l by auto
qed

end
