(* ===== verification/RegistryRound.thy ===== *)
theory RegistryRound
  imports RegistryWire
begin

text \<open>
  What the Registry's walk reads of a value's form (client/ts/src/registry.ts): \<open>has\<close> says that a value
  on the wire is one of a plan's, \<open>backOf\<close> what it is read as, and the walk reads just that.
\<close>

section \<open>The values of a plan\<close>

fun litVal :: "lit \<Rightarrow> jval" where
  "litVal (StrL s) = StrV s"
| "litVal (NumL i) = NumV (IntN i)"
| "litVal (BoolL b) = BoolV b"

text \<open>The members of a union.\<close>

fun leaves :: "sol \<Rightarrow> plan list" where
  "leaves (MatchS p) = [p]"
| "leaves (TypeS opts any) = concat (map (\<lambda>(c, s). leaves s) opts) @ (case any of None \<Rightarrow> [] | Some s \<Rightarrow> leaves s)"
| "leaves (LiteralS opts) = concat (map (\<lambda>(l, s). leaves s) opts)"
| "leaves (LengthS opts dflt) = concat (map (\<lambda>(n, s). leaves s) opts) @ (case dflt of None \<Rightarrow> [] | Some s \<Rightarrow> leaves s)"
| "leaves (IndexS i s) = leaves s"
| "leaves (FieldS key s) = leaves s"
| "leaves (HasFieldS opts) = concat (map (\<lambda>(k, s). leaves s) opts)"

lemma option_size: "(k, s) \<in> set opts \<Longrightarrow> size s \<le> size_list (size_prod (\<lambda>x. 0) size) opts"
  using size_list_estimation' [of "(k, s)" opts "size s" "size_prod (\<lambda>x. 0) size"] by simp

lemma options_size: "(\<And>k s. (k, s) \<in> set opts \<Longrightarrow> p \<in> set (leaves s) \<Longrightarrow> size p < size s) \<Longrightarrow>
    p \<in> set (concat (map (\<lambda>(k, s). leaves s) opts)) \<Longrightarrow> size p < size_list (size_prod (\<lambda>x. 0) size) opts"
  by (auto intro!: less_le_trans [OF _ option_size])

lemma leaves_size: "p \<in> set (leaves s) \<Longrightarrow> size p < size s"
proof (induction s rule: leaves.induct)
  case (2 opts any)
  then show ?case using options_size [of opts p] by (fastforce split: option.splits)
next
  case (3 opts)
  then show ?case using options_size [of opts p] by fastforce
next
  case (4 opts dflt)
  then show ?case using options_size [of opts p] by (fastforce split: option.splits)
next
  case (7 opts)
  then show ?case using options_size [of opts p] by fastforce
qed auto

lemma chooseWire_leaf: "chooseWire s o' v = Some p \<Longrightarrow> p \<in> set (leaves s)"
proof (induction s arbitrary: o' v rule: chooseWire.induct)
  case (2 opts any)
  show ?case
  proof (cases "map_of opts (wireType v)")
    case (Some s)
    then have m: "(wireType v, s) \<in> set opts" by (rule map_of_SomeD)
    then show ?thesis using 2(1) [OF m refl, of o' v] 2(3) Some by (auto simp: map_of_second)
  qed (use 2 in \<open>auto simp: map_of_second split: option.splits\<close>)
next
  case (3 opts)
  obtain i where i: "litIndex (map fst opts) v = Some i" using 3(2) by (auto split: option.splits)
  then have l: "i < length opts" using litIndex_bound by fastforce
  obtain k s where o: "opts ! i = (k, s)" by (cases "opts ! i")
  then have m: "(k, s) \<in> set opts" using l nth_mem by force
  then show ?case using 3(1) [OF i m refl, of o' v] 3(2) i l o by auto
next
  case (4 opts dflt)
  obtain xs where v: "v = ArrV xs" using 4(3) by (auto split: jval.splits)
  show ?case
  proof (cases "map_of opts (length xs)")
    case (Some s)
    then have m: "(length xs, s) \<in> set opts" by (rule map_of_SomeD)
    then show ?thesis using 4(1) [OF v m refl, of o' v] 4(3) v Some by (auto simp: map_of_second)
  qed (use 4 v in \<open>auto simp: map_of_second split: option.splits\<close>)
next
  case (7 opts)
  obtain i where i: "wireKey (map fst opts) o' = Some i" using 7(2) by (auto split: option.splits)
  then have l: "i < length opts" using wireKey_bound by fastforce
  obtain k s where o: "opts ! i = (k, s)" by (cases "opts ! i")
  then have m: "(k, s) \<in> set opts" using l nth_mem by force
  then show ?case using 7(1) [OF i m refl, of o' o'] 7(2) i l o by auto
qed (auto split: jval.splits if_splits option.splits)

lemma chooseWire_size: "chooseWire s o' v = Some p \<Longrightarrow> size p < size s"
  by (rule leaves_size [OF chooseWire_leaf])

lemma member_size: "f \<in> set fs \<Longrightarrow> size (fst (snd f)) < Suc (size_list (size_prod (\<lambda>x. 0) (size_prod size (\<lambda>x. 0))) fs)"
  by (cases f) (fastforce dest: size_list_estimation' [of _ _ "size (fst (snd f))" "size_prod (\<lambda>x. 0) (size_prod size (\<lambda>x. 0))"])

lemma zipped_size: "y \<in> set (zip ps xs) \<Longrightarrow> size (fst y) < Suc (size_list size ps)"
  by (cases y) (fastforce dest!: set_zip_leftD dest: size_list_estimation' [of _ ps "size (fst y)" size])

text \<open>A value on the wire that is one of a plan's.\<close>

text \<open>\<open>foreign\<close>: a field the plan does not declare, which the database's data may have, and a mutation may not.\<close>

definition foreign :: "policy \<Rightarrow> jsstr set \<Rightarrow> jsstr \<times> jval \<Rightarrow> bool" where
  "foreign pol known e = (pol = Drop \<and> fst e \<notin> known \<and> keyFits (fst e) \<and> wire_ok (snd e) \<and> snd e \<noteq> UndefV)"

function (sequential) has :: "policy \<Rightarrow> plan \<Rightarrow> jval \<Rightarrow> bool" where
  "has pol NullP x = (x = NullV)"
| "has pol IntP x = (case x of NumV (IntN i) \<Rightarrow> \<bar>i\<bar> < 2 ^ 53 | _ \<Rightarrow> False)"
| "has pol StrP x = (case x of StrV s \<Rightarrow> keyFits s | _ \<Rightarrow> False)"
| "has pol BoolP x = (case x of BoolV b \<Rightarrow> True | _ \<Rightarrow> False)"
| "has pol DateP x = (case x of DateV (Some ms) \<Rightarrow> \<bar>ms\<bar> \<le> 8640000000000000 | _ \<Rightarrow> False)"
| "has pol JsonP x = (writable 0 x \<and> sendable x \<and> wire_ok x \<and> x \<noteq> UndefV)"
| "has pol (LitP l) x = (x = litVal l)"
| "has pol (StructP fs first) x =
     (case x of
        ObjV es \<Rightarrow> length es < 2 ^ 32 \<and> distinct (map fst es) \<and> (\<forall>e \<in> set es. fst e \<in> fst ` set fs \<or> foreign pol (fst ` set fs) e) \<and>
          (\<forall>f \<in> set fs. case map_of es (fst f) of None \<Rightarrow> snd (snd f) | Some y \<Rightarrow> has pol (fst (snd f)) y)
      | _ \<Rightarrow> False)"
| "has pol (RecordP p) x =
     (case x of
        ObjV es \<Rightarrow> length es < 2 ^ 32 \<and> distinct (map fst es) \<and> (\<forall>e \<in> set es. keyFits (fst e) \<and> has pol p (snd e))
      | _ \<Rightarrow> False)"
| "has pol (ArrayP p) x = (case x of ArrV xs \<Rightarrow> length xs < 2 ^ 32 \<and> (\<forall>y \<in> set xs. has pol p y) | _ \<Rightarrow> False)"
| "has pol (TupleP ps) x =
     (case x of
        ArrV xs \<Rightarrow> length xs = length ps \<and> length xs < 2 ^ 32 \<and> (\<forall>y \<in> set (zip ps xs). has pol (fst y) (snd y))
      | _ \<Rightarrow> False)"
| "has pol (UnionP s) x = (case chooseWire s x x of None \<Rightarrow> False | Some p \<Rightarrow> has pol p x)"
| "has pol (IntakeP p) x = has pol p x"
  by pat_completeness auto
termination
  by (relation "measure (size \<circ> fst \<circ> snd)") (auto dest!: member_size zipped_size chooseWire_size)

text \<open>What the walk reads it as: an object's properties in JavaScript's order, a JSON value normalized.\<close>

definition props :: "(jsstr \<times> jval) list \<Rightarrow> (jsstr \<times> jval) list" where
  "props es = fold (\<lambda>(k, x) out. setEntry out k x) es []"

function (sequential) backOf :: "plan \<Rightarrow> jval \<Rightarrow> jval" where
  "backOf JsonP x = norm x"
| "backOf (StructP fs first) (ObjV es) =
     ObjV (props (List.map_filter (\<lambda>(k, x). map_option (\<lambda>pf. (k, backOf (fst pf) x)) (map_of fs k)) es))"
| "backOf (RecordP p) (ObjV es) = ObjV (props (map (\<lambda>(k, x). (k, backOf p x)) es))"
| "backOf (ArrayP p) (ArrV xs) = ArrV (map (backOf p) xs)"
| "backOf (TupleP ps) (ArrV xs) = ArrV (map (\<lambda>y. backOf (fst y) (snd y)) (zip ps xs))"
| "backOf (UnionP s) x = (case chooseWire s x x of None \<Rightarrow> x | Some p \<Rightarrow> backOf p x)"
| "backOf (IntakeP p) x = backOf p x"
| "backOf p x = x"
  by pat_completeness auto
termination
  by (relation "measure (size \<circ> fst)") (auto dest!: map_of_SomeD zipped_size chooseWire_size dest: member_size)

declare has.simps [simp del] backOf.simps [simp del]

text \<open>Plans whose keys and literals keep in UTF-8.\<close>

function (sequential) plan_ok :: "plan \<Rightarrow> bool" where
  "plan_ok (LitP l) = lit_ok l"
| "plan_ok (StructP fs first) =
     (distinct (map fst fs) \<and> length fs < 2 ^ 32 \<and> first < int (length fs) \<and>
      (\<forall>f \<in> set fs. keyFits (fst f) \<and> fst f \<noteq> lit ''__proto__'' \<and> plan_ok (fst (snd f))))"
| "plan_ok (RecordP p) = plan_ok p"
| "plan_ok (ArrayP p) = plan_ok p"
| "plan_ok (TupleP ps) = (\<forall>p \<in> set ps. plan_ok p)"
| "plan_ok (UnionP s) = (sol_keys_ok s \<and> (\<forall>p \<in> set (leaves s). plan_ok p))"
| "plan_ok (IntakeP p) = plan_ok p"
| "plan_ok p = True"
  by pat_completeness auto
termination
  by (relation "measure size") (auto dest!: member_size leaves_size dest: size_list_estimation' simp: less_Suc_eq_le)

declare plan_ok.simps [simp del]

lemma has_union: "has pol (UnionP s) x \<Longrightarrow> \<exists>p. chooseWire s x x = Some p \<and> has pol p x \<and> p \<in> set (leaves s)"
  using chooseWire_leaf by (auto simp: has.simps split: option.splits)

lemma has_defined: "has pol p x \<Longrightarrow> x \<noteq> UndefV"
proof (induction pol p x rule: has.induct)
  case (7 pol l x)
  then show ?case by (cases l) (auto simp: has.simps)
qed (auto simp: has.simps split: option.splits)

text \<open>What a strict reader takes, every reader does.\<close>

lemma has_mono: "has Reject p x \<Longrightarrow> has pol p x"
proof (induction Reject p x rule: has.induct)
  case (8 fs first x)
  then obtain es where x: "x = ObjV es" "length es < 2 ^ 32" "distinct (map fst es)" "\<forall>e \<in> set es. fst e \<in> fst ` set fs"
      "\<forall>f \<in> set fs. case map_of es (fst f) of None \<Rightarrow> snd (snd f) | Some y \<Rightarrow> has Reject (fst (snd f)) y"
    by (auto simp: has.simps foreign_def split: jval.splits)
  have "case map_of es (fst f) of None \<Rightarrow> snd (snd f) | Some y \<Rightarrow> has pol (fst (snd f)) y" if f: "f \<in> set fs" for f
    using x(5) f 8(1) [OF x(1) f] by (auto split: option.splits)
  then show ?case using x by (simp add: has.simps)
qed (auto simp: has.simps split: jval.splits option.splits)

lemma litVal_wire: "lit_ok l \<Longrightarrow> wire_ok (litVal l)"
  by (cases l) auto

lemma has_wire: "has pol p x \<Longrightarrow> plan_ok p \<Longrightarrow> wire_ok x"
proof (induction pol p x rule: has.induct)
  case (8 pol fs first x)
  then obtain es where x: "x = ObjV es" "length es < 2 ^ 32" "distinct (map fst es)" "\<forall>e \<in> set es. fst e \<in> fst ` set fs \<or> foreign pol (fst ` set fs) e"
      "\<forall>f \<in> set fs. case map_of es (fst f) of None \<Rightarrow> snd (snd f) | Some y \<Rightarrow> has pol (fst (snd f)) y"
    by (auto simp: has.simps split: jval.splits)
  have "keyFits (fst e) \<and> wire_ok (snd e)" if e: "e \<in> set es" for e
  proof (cases "fst e \<in> fst ` set fs")
    case False
    then show ?thesis using x(4) [rule_format, OF e] by (simp add: foreign_def)
  next
    case True
    then obtain f where f: "f \<in> set fs" "fst f = fst e" by force
    have m: "map_of es (fst f) = Some (snd e)" using f(2) e x(3) by simp
    then have "has pol (fst (snd f)) (snd e)" using x(5) f(1) by fastforce
    then show ?thesis using 8(1) [OF x(1) f(1) m] 8(3) f by (auto simp: plan_ok.simps)
  qed
  then show ?case using x by simp
next
  case (11 pol ps x)
  then obtain xs where x: "x = ArrV xs" "length xs = length ps" "length xs < 2 ^ 32"
      "\<forall>y \<in> set (zip ps xs). has pol (fst y) (snd y)"
    by (auto simp: has.simps split: jval.splits)
  have "wire_ok (xs ! i)" if i: "i < length xs" for i
  proof -
    have z: "(ps ! i, xs ! i) \<in> set (zip ps xs)" using i x(2) by (auto simp: in_set_zip)
    then show ?thesis using 11(1) [OF x(1) z] x(4) 11(3) i x(2) by (fastforce simp: plan_ok.simps)
  qed
  then show ?case using x by (auto simp: in_set_conv_nth)
next
  case (12 pol s x)
  then show ?case using has_union [of pol s x] by (fastforce simp: plan_ok.simps)
qed (auto simp: has.simps plan_ok.simps litVal_wire in_set_zip Ball_def split: jval.splits jnum.splits option.splits)

lemma kept_all: "\<forall>e \<in> set es. snd e \<noteq> UndefV \<Longrightarrow> kept es = es"
  by (simp add: filter_id_conv split_beta)

section \<open>Scalars\<close>

lemma starts_here: "startsKind bs k \<Longrightarrow> rd_ok r \<Longrightarrow> unread r = bs @ rest \<Longrightarrow> need 1 r = Inr () \<and> kindOf (here r) = Some k"
  by (cases bs) (auto simp: startsKind_def here_unread need1)

lemma kindOf_cases:
  "kindOf b = Some IntK \<Longrightarrow> b \<le> 0x7f \<or> b \<ge> 0xe0 \<or> b \<ge> 0xcc \<and> b \<le> 0xd3"
  "kindOf b = Some FloatK \<Longrightarrow> b = 0xca \<or> b = 0xcb" "kindOf b = Some NilK \<Longrightarrow> b = 0xc0"
  by (auto simp: kindOf_def split: if_splits)

lemma reads_tryInt:
  assumes "\<bar>i\<bar> < 2 ^ 53"
  shows "reads tryNumber (encInt i) (Some (IntN i))"
proof -
  have "reads (\<lambda>r. map_sum id (map_prod (Some \<circ> ofInt) id) (int_value r)) (encInt i) ((Some \<circ> ofInt) i)"
    using assms by (intro reads_map reads_int) auto
  then have "reads tryNumber (encInt i) ((Some \<circ> ofInt) i)"
  proof (rule reads_eq)
    fix r rest assume r: "rd_ok r" "unread r = encInt i @ rest"
    have k: "need 1 r = Inr ()" "kindOf (here r) = Some IntK" using starts_here [OF starts_int r] by simp_all
    have u: "unread r \<noteq> []" using r starts_int by (auto simp: startsKind_def)
    have b: "0 \<le> here r" "here r \<le> 255" unfolding here_def using byte_bounds [of "rd_buf r ! rd_pos r"] by linarith+
    show "tryNumber r = map_sum id (map_prod (Some \<circ> ofInt) id) (int_value r)"
      using kindOf_cases(1) [OF k(2)] k(1) b int_value_at(1,2) [OF r(1) u]
      by (auto simp: tryNumber_def ofInt_def Let_def)
  qed
  then show ?thesis using assms by (simp add: ofInt_def)
qed

lemma reads_tryTime:
  assumes "\<bar>ms\<bar> \<le> 8640000000000000"
  shows "reads tryTimestamp (encTimestamp (Some ms)) (Some (Some ms))"
proof (rule reads_eq [OF reads_map [where h = Some, OF times.reads_back]])
  show "\<exists>k. Some ms = Some k \<and> \<bar>k\<bar> \<le> 8640000000000000" using assms by simp
  fix r rest assume r: "rd_ok r" "unread r = encTimestamp (Some ms) @ rest"
  have h: "encTime ms \<noteq> [] \<and> hd (encTime ms) \<in> {0xd6, 0xd7, 0xc7}" by (simp add: encTime_def Let_def)
  then obtain b bs where b: "encTime ms = b # bs" "b \<in> {0xd6, 0xd7, 0xc7}" by (cases "encTime ms") auto
  then have "here r = uint b" "need 1 r = Inr ()" using r here_unread [OF r(1), of b] need1 [OF r(1)] by (simp_all add: encTimestamp_def)
  then show "tryTimestamp r = map_sum id (map_prod Some id) (timestamp r)" using b(2) by (auto simp: tryTimestamp_def)
qed

lemma reads_tryNil: "reads tryNil [0xc0] True"
  by (rule readsI) (simp add: tryNil_def here_unread need1)

lemma takes_literal:
  assumes "lit_ok l"
  shows "takes (readLiteral l pol path) (enc (litVal l)) (litVal l)"
proof (cases l)
  case (StrL s)
  have s: "keyFits s" using assms StrL by simp
  have "keySearch [utf8EncodeTE s] 0 (utf8Encode s) = 0" using s by (simp add: keySearch_first utf8TE_wf keepsText_def)
  then have "takes (keyIndex [utf8EncodeTE s] 0) (encStr s) 0" using takes_keyIndex [OF s, of "[utf8EncodeTE s]" 0] by simp
  then show ?thesis unfolding takes_def readLiteral_def StrL by (fastforce simp: sameLit_def)
next
  case (NumL i)
  have "reads tryNumber (encInt i) (Some (IntN i))" using assms NumL by (intro reads_tryInt) simp
  then show ?thesis using assms NumL by (intro takes_reads) (simp add: reads_def readLiteral_def sameLit_def safeNum_def isNaN_def encNumber_def)
next
  case (BoolL b)
  then show ?thesis using reads_bool(2) [of b] by (intro takes_reads) (simp add: reads_def readLiteral_def sameLit_def)
qed

lemma takes_scalar:
  "takes (readNull pol path) (enc NullV) NullV"
  "\<bar>i\<bar> < 2 ^ 53 \<Longrightarrow> takes (readInt pol path) (enc (NumV (IntN i))) (NumV (IntN i))"
  "keyFits s \<Longrightarrow> takes (readString pol path) (enc (StrV s)) (StrV s)"
  "takes (readBool pol path) (enc (BoolV b)) (BoolV b)"
  "\<bar>ms\<bar> \<le> 8640000000000000 \<Longrightarrow> takes (readDate pol path) (enc (DateV (Some ms))) (DateV (Some ms))"
  "writable 0 x \<Longrightarrow> sendable x \<Longrightarrow> takes (readJson pol path) (enc x) (norm x)"
proof -
  show "writable 0 x \<Longrightarrow> sendable x \<Longrightarrow> takes (readJson pol path) (enc x) (norm x)"
    unfolding readJson_def by (rule takes_attempt [OF takes_reads [OF reads_any(1)]])
qed (use reads_tryNil reads_tryInt [of i] reads_tryStr [of s] reads_bool(2) [of b] reads_tryTime [of ms] in
    \<open>auto intro!: takes_reads simp: reads_def readNull_def readInt_def readString_def readBool_def readDate_def safeNum_def encNumber_def\<close>)

section \<open>Containers\<close>

lemma takes_orDrop: "takes (f pol path) bs v \<Longrightarrow> takes (readOrDrop f pol path) bs (Some v)"
  unfolding takes_def readOrDrop_def by (cases "pol = Reject") fastforce+

definition putAll :: "(jval \<Rightarrow> jval) \<Rightarrow> (jsstr \<times> jval) list \<Rightarrow> (jsstr \<times> jval) list \<Rightarrow> (jsstr \<times> jval) list" where
  "putAll b es out = fold (\<lambda>(k, x) out. setEntry out k (b x)) es out"

lemma kindAt_str: "rd_ok r \<Longrightarrow> unread r = (encStr k @ bs) @ rest \<Longrightarrow> kindAt r = Inr StrK"
  by (rule kindAt_starts [OF starts_str]) simp_all

lemma takes_record:
  "\<forall>e \<in> set es. keyFits (fst e) \<and> snd e \<noteq> UndefV \<and> (\<forall>path. takes (f pol path) (enc (snd e)) (b (snd e))) \<Longrightarrow>
    takes (readRecord f pol path (length es) out) (concat (entryItems es)) (putAll b es out)"
proof (induction es arbitrary: out)
  case Nil
  show ?case by (simp add: putAll_def takes_pure)
next
  case (Cons e es)
  obtain k x where e: "e = (k, x)" by (cases e)
  let ?rest = "\<lambda>key v r2. readRecord f pol path (length es) (case v of None \<Rightarrow> out | Some x \<Rightarrow> setEntry out key x) r2"
  have rest: "takes (?rest k (Some (b x))) (concat (entryItems es)) (putAll b (e # es) out)"
    using Cons by (simp add: e putAll_def)
  have "takes (\<lambda>r1. andThen (readOrDrop f pol (path @ [Key k]) r1) (\<lambda>(v, r2). ?rest k v r2))
      (enc x @ concat (entryItems es)) (putAll b (e # es) out)"
    by (rule takes_bind [where g = "\<lambda>v r2. ?rest k v r2", OF takes_orDrop rest]) (use Cons.prems e in auto)
  then have "takes (\<lambda>r. andThen (attempt path (str r)) (\<lambda>(key, r1). andThen (readOrDrop f pol (path @ [Key key]) r1)
      (\<lambda>(v, r2). ?rest key v r2))) (encStr k @ (enc x @ concat (entryItems es))) (putAll b (e # es) out)"
    by (rule takes_bind [where g = "\<lambda>key r1. andThen (readOrDrop f pol (path @ [Key key]) r1) (\<lambda>(v, r2). ?rest key v r2)",
          OF takes_attempt [OF takes_reads [OF reads_str]], rotated 2]) (use Cons.prems e in auto)
  from takes_peek [where f = "\<lambda>r. attempt path (kindAt r)" and x = StrK
      and g = "\<lambda>kd r. if kd \<noteq> StrK then Inl (Failed path ExpectedKey) else andThen (attempt path (str r))
        (\<lambda>(key, r1). andThen (readOrDrop f pol (path @ [Key key]) r1) (\<lambda>(v, r2). ?rest key v r2))", OF _ takes_check [OF _ this]]
    kindAt_str
  show ?case using Cons.prems by (auto simp: e)
qed

lemma takes_array:
  "\<forall>x \<in> set xs. \<forall>path. takes (f pol path) (enc x) (b x) \<Longrightarrow>
    takes (readArray f pol path k (length xs)) (concat (map enc xs)) (map b xs)"
proof (induction xs arbitrary: k)
  case Nil
  show ?case by (simp add: takes_pure)
next
  case (Cons x xs)
  let ?g = "\<lambda>v r1. andThen (readArray f pol path (k + 1) (length xs) r1)
    (\<lambda>(vs, r2). Inr (case v of None \<Rightarrow> vs | Some x \<Rightarrow> x # vs, r2))"
  have "takes (\<lambda>r1. andThen (readArray f pol path (k + 1) (length xs) r1)
      (\<lambda>(vs, r2). Inr (case Some (b x) of None \<Rightarrow> vs | Some x \<Rightarrow> x # vs, r2))) (concat (map enc xs) @ []) (b x # map b xs)"
    by (rule takes_bind [OF Cons.IH]) (use Cons.prems takes_pure in auto)
  then have "takes (?g (Some (b x))) (concat (map enc xs)) (b x # map b xs)" by simp
  then have "takes (\<lambda>r. andThen (readOrDrop f pol (path @ [Item k]) r) (\<lambda>(v, r1). ?g v r1)) (enc x @ concat (map enc xs)) (b x # map b xs)"
    by (rule takes_bind [where g = ?g, OF takes_orDrop, rotated]) (use Cons.prems in auto)
  then show ?case by simp
qed

lemma takes_tuple:
  "length fs = length xs \<Longrightarrow> length bs = length xs \<Longrightarrow>
    (\<And>i path. i < length xs \<Longrightarrow> takes ((fs ! i) pol path) (enc (xs ! i)) (bs ! i)) \<Longrightarrow>
    takes (readTuple fs pol path k) (concat (map enc xs)) bs"
proof (induction fs arbitrary: xs bs k)
  case Nil
  then show ?case by (simp add: takes_pure)
next
  case (Cons f fs)
  obtain x ys c cs where xs: "xs = x # ys" "bs = c # cs" using Cons.prems by (cases xs; cases bs) auto
  have "takes (readTuple fs pol path (k + 1)) (concat (map enc ys)) cs"
  proof (rule Cons.IH)
    show "takes ((fs ! i) pol path) (enc (ys ! i)) (cs ! i)" if "i < length ys" for i path
      using Cons.prems(3) [of "Suc i" path] that xs by simp
  qed (use Cons.prems xs in auto)
  then have "takes (\<lambda>r1. andThen (readTuple fs pol path (k + 1) r1) (\<lambda>(vs, r2). Inr (c # vs, r2))) (concat (map enc ys) @ []) (c # cs)"
    by (rule takes_bind) (rule takes_pure)
  then have "takes (\<lambda>r1. andThen (readTuple fs pol path (k + 1) r1) (\<lambda>(vs, r2). Inr (c # vs, r2))) (concat (map enc ys)) bs"
    by (simp add: xs)
  moreover have "takes (f pol (path @ [Item k])) (enc x) c" using Cons.prems(3) [of 0] xs by simp
  ultimately have "takes (\<lambda>r. andThen (f pol (path @ [Item k]) r) (\<lambda>(v, r1). andThen (readTuple fs pol path (k + 1) r1)
      (\<lambda>(vs, r2). Inr (v # vs, r2)))) (enc x @ concat (map enc ys)) bs"
    by (intro takes_bind [where g = "\<lambda>v r1. andThen (readTuple fs pol path (k + 1) r1) (\<lambda>(vs, r2). Inr (v # vs, r2))"])
  then show ?case by (simp add: xs)
qed

section \<open>Structs\<close>

definition seen_ok :: "nat \<Rightarrow> seen \<Rightarrow> bool" where
  "seen_ok nf s = (case s of Mask m \<Rightarrow> nf \<le> 31 | Many ms \<Rightarrow> length ms = nf)"

lemma saw_bit: "sawField f (Mask m) = bit m f"
  by (simp add: and_exp_eq_0_iff_not_bit push_bit_eq_mult)

lemma mark_field:
  assumes "seen_ok nf s" "f < nf"
  shows "seen_ok nf (markField f s)" "i < nf \<Longrightarrow> sawField i (markField f s) = (i = f \<or> sawField i s)"
proof -
  show "seen_ok nf (markField f s)" using assms by (cases s) (auto simp: seen_ok_def)
  show "i < nf \<Longrightarrow> sawField i (markField f s) = (i = f \<or> sawField i s)"
    using assms by (cases s) (auto simp: seen_ok_def saw_bit bit_or_iff bit_exp_iff nth_list_update simp del: sawField.simps(1))
qed

lemma none_seen: "seen_ok nf (noneSeen nf)" "i < nf \<Longrightarrow> \<not> sawField i (noneSeen nf)"
  by (auto simp: noneSeen_def seen_ok_def)

text \<open>The fields read so far are those seen.\<close>

definition saw_keys :: "(jsstr \<times> walker \<times> bool) list \<Rightarrow> jsstr set \<Rightarrow> seen \<Rightarrow> bool" where
  "saw_keys fs done' s = (seen_ok (length fs) s \<and> (\<forall>i < length fs. sawField i s = (fst (fs ! i) \<in> done')))"

text \<open>A field the plan declares, whose walker reads it; those of an object that it declares.\<close>

definition fits_field :: "(jsstr \<times> walker \<times> bool) list \<Rightarrow> policy \<Rightarrow> (jsstr \<Rightarrow> jval \<Rightarrow> jval) \<Rightarrow> jsstr \<times> jval \<Rightarrow> bool" where
  "fits_field fs pol b e = (snd e \<noteq> UndefV \<and> (\<exists>i < length fs. fst (fs ! i) = fst e \<and>
      (\<forall>path. takes (fst (snd (fs ! i)) pol path) (enc (snd e)) (b (fst e) (snd e)))))"

definition declared :: "(jsstr \<times> 'a) list \<Rightarrow> (jsstr \<times> jval) list \<Rightarrow> (jsstr \<times> jval) list" where
  "declared fs es = filter (\<lambda>e. fst e \<in> fst ` set fs) es"

lemma takes_skip:
  assumes "value_bytes bs" "takes g cs v"
  shows "takes (\<lambda>r. andThen (attempt path (skip r)) (\<lambda>r1. g r1)) (bs @ cs) v"
proof (rule takesI)
  fix r rest assume r: "rd_ok r" "unread r = (bs @ cs) @ rest"
  have s: "skip r = Inr (advanceBy (length bs) r)" using skip_value_bytes [OF assms(1) r(1)] r(2) by simp
  have "rd_ok (advanceBy (length bs) r)" "unread (advanceBy (length bs) r) = cs @ rest"
    using r by (simp_all add: rd_ok_advanceBy unread_advanceBy)
  from takesD [OF assms(2) this] s
  show "\<exists>k. andThen (attempt path (skip r)) (\<lambda>r1. g r1) = Inr (v, (advanceBy (length (bs @ cs)) r)\<lparr>rd_key := k\<rparr>)"
    by auto
qed

lemma takes_fields:
  assumes fs: "distinct (map fst fs)" "\<forall>f \<in> set fs. keyFits (fst f) \<and> fst f \<noteq> lit ''__proto__''"
  shows "distinct (map fst es) \<Longrightarrow> fst ` set es \<inter> done' = {} \<Longrightarrow> saw_keys fs done' s \<Longrightarrow> hint < length fs \<or> hint = 0 \<Longrightarrow>
    \<forall>e \<in> set es. foreign pol (fst ` set fs) e \<or> fits_field fs pol b e \<Longrightarrow>
    \<exists>s'. saw_keys fs (done' \<union> fst ` set es) s' \<and>
      takes (readFields fs pol path (length es) hint s out) (concat (entryItems es))
        (s', fold (\<lambda>(k, x) out. setEntry out k (b k x)) (declared fs es) out)"
proof (induction es arbitrary: done' s hint out)
  case Nil
  then show ?case by (auto simp: declared_def intro: takes_pure)
next
  case (Cons e es)
  obtain k x where e: "e = (k, x)" by (cases e)
  have later: "distinct (map fst es)" "fst ` set es \<inter> insert k done' = {}"
      "\<forall>e \<in> set es. foreign pol (fst ` set fs) e \<or> fits_field fs pol b e"
    using Cons.prems(1,2,5) by (auto simp: e)
  let ?keys = "fieldBytes (map fst fs)"
  show ?case
  proof (cases "k \<in> fst ` set fs")
    case False
    then have f: "pol = Drop" "keyFits k" "wire_ok x" "x \<noteq> UndefV"
      using Cons.prems(5) by (auto simp: e foreign_def fits_field_def)
    have "?keys ! i \<noteq> utf8Encode k" if i: "i < length fs" for i
    proof -
      have "keyFits (fst (fs ! i))" "fst (fs ! i) \<noteq> k" using fs(2) i False nth_mem by force+
      then show ?thesis using i f(2) utf8Encode_inj [of "fst (fs ! i)" k] by (simp add: fieldBytes_def utf8TE_wf keepsText_def)
    qed
    moreover have "length ?keys = length fs" by (simp add: fieldBytes_def)
    ultimately have "utf8Encode k \<notin> set ?keys" by (metis in_set_conv_nth)
    then have "keySearch ?keys hint (utf8Encode k) = -1"
      using Cons.prems(4) by (intro keySearch_none) (auto simp: fieldBytes_def)
    then have search: "takes (keyIndex ?keys hint) (encStr k) (- 1)" using takes_keyIndex [OF f(2), of ?keys hint] by simp
    have "saw_keys fs (insert k done') s" using Cons.prems(3) False by (auto simp: saw_keys_def)
    from Cons.IH [OF later(1,2) this Cons.prems(4) later(3), of out] obtain s' where
      s': "saw_keys fs (insert k done' \<union> fst ` set es) s'"
        "takes (readFields fs pol path (length es) hint s out) (concat (entryItems es))
          (s', fold (\<lambda>(k, x) out. setEntry out k (b k x)) (declared fs es) out)" by blast
    have "takes (\<lambda>r1. andThen (attempt path (skip r1)) (\<lambda>r2. readFields fs pol path (length es) hint s out r2))
        (enc x @ concat (entryItems es)) (s', fold (\<lambda>(k, x) out. setEntry out k (b k x)) (declared fs es) out)"
      by (rule takes_skip [OF wire_value [OF f(3)] s'(2)])
    then have "takes (\<lambda>r. readFields fs pol path (Suc (length es)) hint s out r) (encStr k @ (enc x @ concat (entryItems es)))
        (s', fold (\<lambda>(k, x) out. setEntry out k (b k x)) (declared fs es) out)"
      unfolding readFields.simps by (intro takes_bind [OF takes_attempt [OF search]]) (simp add: f(1))
    then show ?thesis using s'(1) f(4) False by (auto simp: e declared_def)
  next
    case True
    then have "fits_field fs pol b e" using Cons.prems(5) by (auto simp: foreign_def e)
    then obtain i where i: "i < length fs" "fst (fs ! i) = k" "\<And>path. takes (fst (snd (fs ! i)) pol path) (enc x) (b k x)"
        and x: "x \<noteq> UndefV"
      by (auto simp: fits_field_def e)
    have k: "keyFits k" "k \<noteq> lit ''__proto__''" using fs(2) i(1,2) nth_mem by force+
    have hint: "hint < length fs" using Cons.prems(4) i(1) by auto
    have d: "distinct ?keys"
      using fs utf8Encode_inj by (auto simp: fieldBytes_def distinct_map inj_on_def utf8TE_wf keepsText_def)
    have "?keys ! i = utf8Encode k" using i k by (simp add: fieldBytes_def utf8TE_wf keepsText_def)
    then have "keySearch ?keys hint (utf8Encode k) = int i"
      using keySearch_found [OF d] i(1) hint by (simp add: fieldBytes_def)
    then have search: "takes (keyIndex ?keys hint) (encStr k) (int i)" using takes_keyIndex [OF k(1), of ?keys hint] by simp
    have unseen: "\<not> sawField i s" using Cons.prems(2,3) i(1,2) by (auto simp: saw_keys_def e)
    have only: "fst (fs ! j) = k \<longleftrightarrow> j = i" if "j < length fs" for j
      using nth_eq_iff_index_eq [OF fs(1), of j i] that i(1,2) by simp
    have "saw_keys fs (insert k done') (markField i s)"
      using Cons.prems(3) mark_field [of "length fs" s i] i(1) only by (simp add: saw_keys_def)
    note ih = Cons.IH [of "insert k done'" "markField i s" "if i + 1 < length fs then i + 1 else 0" "setEntry out k (b k x)",
        OF later(1,2) this _ later(3)]
    have "(if i + 1 < length fs then i + 1 else 0) < length fs \<or> (if i + 1 < length fs then i + 1 else 0) = 0" by simp
    from ih [OF this] obtain s' where s': "saw_keys fs (insert k done' \<union> fst ` set es) s'"
        "takes (readFields fs pol path (length es) (if i + 1 < length fs then i + 1 else 0) (markField i s) (setEntry out k (b k x)))
          (concat (entryItems es)) (s', fold (\<lambda>(k, x) out. setEntry out k (b k x)) (declared fs es) (setEntry out k (b k x)))"
      by blast
    let ?inside = "path @ [Key k]" and ?rd = "fst (snd (fs ! i))"
    let ?rest = "\<lambda>v r2. readFields fs pol path (length es) (if i + 1 < length fs then i + 1 else 0) (markField i s)
             (case v of None \<Rightarrow> out | Some x \<Rightarrow> assignProp out k x) r2"
    let ?all = "(s', fold (\<lambda>(k, x) out. setEntry out k (b k x)) (declared fs (e # es)) out)"
    have "takes (\<lambda>r1. (if snd (snd (fs ! i)) then readOrDrop ?rd pol ?inside r1 else map_sum id (map_prod Some id) (?rd pol ?inside r1)))
        (enc x) (Some (b k x))"
      using takes_orDrop [of ?rd pol ?inside, OF i(3)] takes_map [OF i(3) [of ?inside], of Some] by (cases "snd (snd (fs ! i))") simp_all
    moreover have "takes (?rest (Some (b k x))) (concat (entryItems es)) ?all"
      using s'(2) k(2) True by (simp add: assignProp_def e declared_def)
    ultimately have "takes (\<lambda>r1. andThen (if snd (snd (fs ! i)) then readOrDrop ?rd pol ?inside r1 else map_sum id (map_prod Some id) (?rd pol ?inside r1))
        (\<lambda>(v, r2). ?rest v r2)) (enc x @ concat (entryItems es)) ?all"
      by (rule takes_bind)
    from this [folded i(2)] have "takes (\<lambda>r. readFields fs pol path (Suc (length es)) hint s out r) (encStr k @ (enc x @ concat (entryItems es))) ?all"
      unfolding readFields.simps
      by (intro takes_bind [OF takes_attempt [OF search]])
        (cases "Suc i < length fs"; simp add: Let_def i(1) unseen)
    then show ?thesis using s'(1) x by (auto simp: e)
  qed
qed

lemma fold_map_pairs: "fold (\<lambda>(k, x) out. setEntry out k (b k x)) es out = fold (\<lambda>(k, x) out. setEntry out k x) (map (\<lambda>(k, x). (k, b k x)) es) out"
  by (induction es arbitrary: out) auto

lemma enc_object: "\<forall>e \<in> set es. snd e \<noteq> UndefV \<Longrightarrow> enc (ObjV es) = encHeader (length es) 0x80 0xde @ concat (entryItems es)"
  by (simp add: kept_all encEntries_items)

lemma takes_bind_pair:
  assumes "takes f bs (x, y)" "takes (g x y) cs v"
  shows "takes (\<lambda>r. andThen (f r) (\<lambda>((x, y), r'). g x y r')) (bs @ cs) v"
  using takes_bind [where g = "\<lambda>p. g (fst p) (snd p)", OF assms(1)] assms(2) by (simp add: case_prod_unfold)

lemma takes_struct:
  assumes fs: "distinct (map fst fs)" "\<forall>f \<in> set fs. keyFits (fst f) \<and> fst f \<noteq> lit ''__proto__''"
    and es: "length es < 2 ^ 32" "distinct (map fst es)" "\<forall>e \<in> set es. foreign pol (fst ` set fs) e \<or> fits_field fs pol b e"
    and full: "\<forall>f \<in> set fs. snd (snd f) \<or> fst f \<in> fst ` set es"
  shows "takes (readStruct fs pol path) (enc (ObjV es)) (ObjV (props (map (\<lambda>(k, x). (k, b k x)) (declared fs es))))"
proof -
  let ?b = "props (map (\<lambda>(k, x). (k, b k x)) (declared fs es))"
  have "saw_keys fs {} (noneSeen (length fs))" using none_seen by (auto simp: saw_keys_def)
  then obtain s where s: "saw_keys fs (fst ` set es) s"
      "takes (readFields fs pol path (length es) 0 (noneSeen (length fs)) []) (concat (entryItems es)) (s, ?b)"
    using takes_fields [OF fs es(2), of "{}" "noneSeen (length fs)" 0 pol b path "[]"] es(3)
    by (auto simp: props_def fold_map_pairs [symmetric])
  have "missingField (map (snd \<circ> snd) fs) s = None"
    using s(1) full by (auto simp: missingField_def saw_keys_def find_None_iff)
  then have "takes (\<lambda>r2. case missingField (map (snd \<circ> snd) fs) s of
      Some f \<Rightarrow> Inl (Failed (path @ [Key (fst (fs ! f))]) MissingField) | None \<Rightarrow> Inr (ObjV ?b, r2)) [] (ObjV ?b)"
    by (simp add: takes_pure)
  from takes_bind_pair [where g = "\<lambda>s out r2. case missingField (map (snd \<circ> snd) fs) s of
      Some f \<Rightarrow> Inl (Failed (path @ [Key (fst (fs ! f))]) MissingField) | None \<Rightarrow> Inr (ObjV out, r2)", OF s(2) this]
  have "takes (\<lambda>r1. andThen (readFields fs pol path (length es) 0 (noneSeen (length fs)) [] r1) (\<lambda>((s, out), r2).
      case missingField (map (snd \<circ> snd) fs) s of
        Some f \<Rightarrow> Inl (Failed (path @ [Key (fst (fs ! f))]) MissingField) | None \<Rightarrow> Inr (ObjV out, r2)))
      (concat (entryItems es)) (ObjV ?b)"
    by (simp only: append_Nil2)
  then have "takes (\<lambda>r. readStruct fs pol path r) (encHeader (length es) 0x80 0xde @ concat (entryItems es)) (ObjV ?b)"
    unfolding readStruct_def
    by (intro takes_bind [OF takes_attempt [OF takes_reads [OF reads_tryMapHeader [OF es(1)]]]]) simp
  moreover have "enc (ObjV es) = encHeader (length es) 0x80 0xde @ concat (entryItems es)" by (rule enc_object) (use es(3) in \<open>auto simp: foreign_def fits_field_def\<close>)
  ultimately show ?thesis by (simp only:)
qed

lemma takes_header:
  assumes "reads head hs (Some n)" "takes (\<lambda>r1. map_sum id (map_prod c id) (body n r1)) bs w"
  shows "takes (\<lambda>r. andThen (attempt path (head r)) (\<lambda>(count, r1).
     case count of None \<Rightarrow> Inl e | Some n \<Rightarrow> map_sum id (map_prod c id) (body n r1))) (hs @ bs) w"
  by (rule takes_bind [where x = "Some n" and g = "\<lambda>count r1. case count of None \<Rightarrow> Inl e | Some n \<Rightarrow> map_sum id (map_prod c id) (body n r1)",
        OF takes_attempt [OF takes_reads [OF assms(1)]]]) (simp add: assms(2))

lemma declared_map:
  "List.map_filter (\<lambda>(k, x). map_option (\<lambda>pf. (k, backOf (fst pf) x)) (map_of fs k)) es =
    map (\<lambda>(k, x). (k, case map_of fs k of None \<Rightarrow> x | Some pf \<Rightarrow> backOf (fst pf) x)) (declared fs es)"
proof (induction es)
  case (Cons e es)
  show ?case
  proof (cases "fst e \<in> fst ` set fs")
    case True
    then obtain pf where "map_of fs (fst e) = Some pf" by (metis map_of_eq_None_iff not_None_eq)
    then show ?thesis using Cons True by (simp add: List.map_filter_simps declared_def case_prod_unfold)
  next
    case False
    then have "map_of fs (fst e) = None" by (simp add: map_of_eq_None_iff)
    then show ?thesis using Cons False by (simp add: List.map_filter_simps declared_def case_prod_unfold)
  qed
qed (simp add: List.map_filter_simps declared_def)

theorem takes_plan: "has pol p x \<Longrightarrow> plan_ok p \<Longrightarrow> takes (readPlan p pol path) (enc x) (backOf p x)"
proof (induction pol p x arbitrary: path rule: has.induct)
  case (7 pol l x)
  then show ?case using takes_literal by (simp add: has.simps backOf.simps plan_ok.simps)
next
  case (8 pol fs first x)
  then obtain es where x: "x = ObjV es" "length es < 2 ^ 32" "distinct (map fst es)" "\<forall>e \<in> set es. fst e \<in> fst ` set fs \<or> foreign pol (fst ` set fs) e"
      "\<forall>f \<in> set fs. case map_of es (fst f) of None \<Rightarrow> snd (snd f) | Some y \<Rightarrow> has pol (fst (snd f)) y"
    by (auto simp: has.simps split: jval.splits)
  let ?rs = "map (\<lambda>(key, p, opt). (key, readPlan p, opt)) fs"
  let ?b = "\<lambda>k x. case map_of fs k of None \<Rightarrow> x | Some pf \<Rightarrow> backOf (fst pf) x"
  have fs: "distinct (map fst fs)" "\<forall>f \<in> set fs. keyFits (fst f) \<and> fst f \<noteq> lit ''__proto__'' \<and> plan_ok (fst (snd f))"
    using 8(3) by (auto simp: plan_ok.simps)
  have ks: "map fst ?rs = map fst fs" by (simp add: case_prod_unfold comp_def)
  have field: "foreign pol (fst ` set ?rs) e \<or> fits_field ?rs pol ?b e" if e: "e \<in> set es" for e
  proof (cases "fst e \<in> fst ` set fs")
    case False
    then show ?thesis using x(4) e arg_cong [OF ks, of set] by (simp only: set_map) blast
  next
    case True
    then obtain i where i: "i < length fs" "fst (fs ! i) = fst e" by (metis imageE in_set_conv_nth)
    have f: "fs ! i \<in> set fs" using i(1) by simp
    have m: "map_of es (fst (fs ! i)) = Some (snd e)" using i(2) e x(3) by simp
    then have h: "has pol (fst (snd (fs ! i))) (snd e)" using x(5) f by fastforce
    have "map_of fs (fst e) = Some (snd (fs ! i))" using fs(1) f i(2) by (metis map_of_is_SomeI prod.collapse)
    then have "fits_field ?rs pol ?b e" unfolding fits_field_def
      using 8(1) [OF x(1) f m h] fs(2) f i has_defined [OF h] by (auto intro!: exI [of _ i] simp: case_prod_unfold)
    then show ?thesis ..
  qed
  have "takes (readStruct ?rs pol path) (enc (ObjV es)) (ObjV (props (map (\<lambda>(k, x). (k, ?b k x)) (declared ?rs es))))"
  proof (rule takes_struct [OF _ _ x(2,3)])
    show "distinct (map fst ?rs)" unfolding ks by (rule fs(1))
    show "\<forall>f \<in> set ?rs. keyFits (fst f) \<and> fst f \<noteq> lit ''__proto__''" using fs(2) by fastforce
    show "\<forall>e \<in> set es. foreign pol (fst ` set ?rs) e \<or> fits_field ?rs pol ?b e" using field by blast
    show "\<forall>f \<in> set ?rs. snd (snd f) \<or> fst f \<in> fst ` set es"
    proof
      fix g assume "g \<in> set ?rs"
      then obtain k p opt where g: "g = (k, readPlan p, opt)" "(k, p, opt) \<in> set fs" by auto
      then show "snd (snd g) \<or> fst g \<in> fst ` set es"
        using x(5) [rule_format, OF g(2)] by (cases "map_of es k") (auto dest!: map_of_SomeD simp: image_iff intro: bexI [of _ "(k, _)"])
    qed
  qed
  moreover have "declared ?rs es = declared fs es" using arg_cong [OF ks, of set] by (simp only: declared_def set_map)
  ultimately show ?case unfolding x(1) backOf.simps readPlan.simps declared_map by metis
next
  case (9 pol p x)
  then obtain es where x: "x = ObjV es" "length es < 2 ^ 32" "\<forall>e \<in> set es. keyFits (fst e) \<and> has pol p (snd e)"
    by (auto simp: has.simps split: jval.splits)
  have e: "\<forall>e \<in> set es. keyFits (fst e) \<and> snd e \<noteq> UndefV \<and> (\<forall>path. takes (readPlan p pol path) (enc (snd e)) (backOf p (snd e)))"
  proof
    fix e assume e: "e \<in> set es"
    then have h: "keyFits (fst e)" "has pol p (snd e)" using x(3) by auto
    have "plan_ok p" using 9(3) by (simp add: plan_ok.simps)
    then show "keyFits (fst e) \<and> snd e \<noteq> UndefV \<and> (\<forall>path. takes (readPlan p pol path) (enc (snd e)) (backOf p (snd e)))"
      using 9(1) [OF x(1) e h(2)] h has_defined [OF h(2)] by blast
  qed
  have "putAll (backOf p) es [] = props (map (\<lambda>(k, x). (k, backOf p x)) es)"
    unfolding putAll_def props_def by (rule fold_map_pairs)
  with takes_map [OF takes_record [where f = "readPlan p" and pol = pol and b = "backOf p" and path = path and out = "[]", OF e], of ObjV]
  have "takes (\<lambda>r. map_sum id (map_prod ObjV id) (readRecord (readPlan p) pol path (length es) [] r)) (concat (entryItems es))
      (backOf (RecordP p) x)"
    by (simp add: backOf.simps x(1))
  from takes_header [OF reads_tryMapHeader [OF x(2)], where body = "\<lambda>n. readRecord (readPlan p) pol path n []", OF this]
  show ?case unfolding x(1) readPlan.simps by (subst enc_object) (use e in \<open>auto simp: x(1)\<close>)
next
  case (10 pol p x)
  then obtain xs where x: "x = ArrV xs" "length xs < 2 ^ 32" "\<forall>y \<in> set xs. has pol p y"
    by (auto simp: has.simps split: jval.splits)
  have e: "\<forall>y \<in> set xs. \<forall>path. takes (readPlan p pol path) (enc y) (backOf p y)"
    using 10(1) [OF x(1)] x(3) 10(3) by (simp add: plan_ok.simps)
  from takes_header [OF reads_tryArrayHeader [OF x(2)], where body = "\<lambda>n. readArray (readPlan p) pol path 0 n", OF takes_map [OF takes_array [where f = "readPlan p" and b = "backOf p", OF e]]]
  show ?case by (simp add: x(1) backOf.simps encItems_items)
next
  case (11 pol ps x)
  then obtain xs where x: "x = ArrV xs" "length xs = length ps" "length xs < 2 ^ 32"
      "\<forall>y \<in> set (zip ps xs). has pol (fst y) (snd y)"
    by (auto simp: has.simps split: jval.splits)
  let ?bs = "map (\<lambda>y. backOf (fst y) (snd y)) (zip ps xs)"
  have "takes (readTuple (map readPlan ps) pol path 0) (concat (map enc xs)) ?bs"
  proof (rule takes_tuple)
    fix i path assume i: "i < length xs"
    have z: "(ps ! i, xs ! i) \<in> set (zip ps xs)" using i x(2) by (auto simp: in_set_zip)
    then show "takes ((map readPlan ps ! i) pol path) (enc (xs ! i)) (?bs ! i)"
      using 11(1) [OF x(1) z] x(4) 11(3) i x(2) by (fastforce simp: plan_ok.simps)
  qed (use x in simp_all)
  from takes_map [OF this, of ArrV] have "takes (\<lambda>r1. if length xs \<noteq> length ps then Inl (Failed path (ExpectedItems (length ps) (length xs)))
      else map_sum id (map_prod ArrV id) (readTuple (map readPlan ps) pol path 0 r1)) (concat (map enc xs)) (ArrV ?bs)"
    using x(2) by simp
  from takes_bind [where x = "Some (length xs)" and g = "\<lambda>count r1. case count of None \<Rightarrow> Inl (Failed path ExpectedArray)
      | Some n \<Rightarrow> if n \<noteq> length ps then Inl (Failed path (ExpectedItems (length ps) n))
      else map_sum id (map_prod ArrV id) (readTuple (map readPlan ps) pol path 0 r1)",
      OF takes_attempt [OF takes_reads [OF reads_tryArrayHeader [OF x(3)]]]] this
  show ?case by (simp add: x(1) backOf.simps encItems_items)
next
  case (12 pol s x)
  obtain p where p: "chooseWire s x x = Some p" "has pol p x" "p \<in> set (leaves s)" using has_union 12(2) by blast
  have ok: "plan_ok p" "sol_keys_ok s" using 12(3) p(3) by (auto simp: plan_ok.simps)
  have "takes (readPlan p pol path) (enc x) (backOf p x)" using 12(1) [OF p(1,2) ok(1)] .
  moreover have "readPlan (UnionP s) pol path r = readPlan p pol path r" if r: "rd_ok r" "unread r = enc x @ rest" for r rest
    using readSol_chooses [OF ok(2) p(1) _ _ sits_here [OF r] sits_here [OF r]] has_wire [OF p(2) ok(1)] by simp
  ultimately show ?case unfolding takes_def using p(1) by (simp add: backOf.simps)
qed (auto simp: has.simps backOf.simps plan_ok.simps simp del: enc.simps intro: takes_scalar split: jval.splits jnum.splits option.splits)

text \<open>So a whole value of a plan is read, and nothing may follow it.\<close>

lemma readWhole_form:
  assumes "has pol p x" "plan_ok p"
  shows "readWhole p pol (enc x @ rest) = (if rest = [] then Inr (backOf p x) else Inl (Failed [] TrailingValue))"
proof -
  obtain k where "readPlan p pol [] (newReader (enc x @ rest)) =
      Inr (backOf p x, (advanceBy (length (enc x)) (newReader (enc x @ rest)))\<lparr>rd_key := k\<rparr>)"
    using takesD [OF takes_plan [OF assms, of "[]"], of "newReader (enc x @ rest)" rest] by auto
  then show ?thesis by (auto simp: readWhole_def done_reader_def newReader_def advanceBy_def)
qed

end
