(* ===== verification/RegistryTrip.thy ===== *)
theory RegistryTrip
  imports RegistryRound
begin

text \<open>
  What the Registry's walk writes (client/ts/src/registry.ts): the form of a value of the plan, so that
  what it writes it reads back. A union comes back as the member it was written as when its solution
  tells its members apart, which \<open>tells\<close> states.
\<close>

section \<open>The member a value is written as\<close>

fun chooseJs :: "sol \<Rightarrow> jval \<Rightarrow> jval \<Rightarrow> plan option" where
  "chooseJs (MatchS p) = (\<lambda>obj subj. Some p)"
| "chooseJs (TypeS opts any) = (\<lambda>obj subj.
     case pickType (map (\<lambda>(c, s). (c, chooseJs s)) opts) (jsTypeOf subj) of
       Some go \<Rightarrow> go obj subj
     | None \<Rightarrow> (case any of Some s \<Rightarrow> chooseJs s obj subj | None \<Rightarrow> None))"
| "chooseJs (LiteralS opts) = (\<lambda>obj subj.
     case litIndex (map fst opts) subj of None \<Rightarrow> None | Some i \<Rightarrow> (map (\<lambda>(l, s). chooseJs s) opts ! i) obj subj)"
| "chooseJs (LengthS opts dflt) = (\<lambda>obj subj.
     case subj of
       ArrV xs \<Rightarrow>
         (case map_of (map (\<lambda>(n, s). (n, chooseJs s)) opts) (length xs) of
            Some go \<Rightarrow> go obj subj
          | None \<Rightarrow> (case dflt of Some s \<Rightarrow> chooseJs s obj subj | None \<Rightarrow> None))
     | _ \<Rightarrow> None)"
| "chooseJs (IndexS i s) = (\<lambda>obj subj.
     case subj of ArrV xs \<Rightarrow> if i < length xs then chooseJs s (xs ! i) (xs ! i) else None | _ \<Rightarrow> None)"
| "chooseJs (FieldS key s) = (\<lambda>obj subj.
     if discriminator obj key = UndefV then None else chooseJs s obj (discriminator obj key))"
| "chooseJs (HasFieldS opts) = (\<lambda>obj subj.
     case firstKey (map fst opts) obj of None \<Rightarrow> None | Some i \<Rightarrow> (map (\<lambda>(k, s). chooseJs s) opts ! i) obj obj)"

lemma firstKey_bound: "firstKey keys v = Some i \<Longrightarrow> i < length keys"
  by (auto simp: firstKey_def find_Some_iff)

lemma pickType_second: "pickType (map (\<lambda>(c, s). (c, f s)) opts) t = map_option f (pickType opts t)"
  by (cases t) (simp_all add: pickType_def map_of_second)

lemma pickType_member: "pickType opts t = Some s \<Longrightarrow> \<exists>c. (c, s) \<in> set opts"
  by (cases t) (auto simp: pickType_def dest: map_of_SomeD)

lemma option_at:
  assumes "i < length opts"
  obtains k s where "opts ! i = (k, s)" "(k, s) \<in> set opts"
  using assms nth_mem by (metis prod.exhaust)

lemma writeSol_chooses:
  "writeSol s pol path o' v x w = Inr w' \<Longrightarrow> \<exists>p. chooseJs s o' v = Some p \<and> writePlan p pol path x w = Inr w'"
proof (induction s arbitrary: o' v rule: chooseJs.induct)
  case (2 opts any)
  show ?case
  proof (cases "pickType opts (jsTypeOf v)")
    case None
    then obtain s where s: "any = Some s" "writeSol s pol path o' v x w = Inr w'"
      using 2(3) by (auto simp: pickType_second split: option.splits)
    then show ?thesis using 2(2) [OF _ s, of v] None by (auto simp: pickType_second)
  next
    case (Some s)
    from pickType_member [OF this] obtain c where m: "(c, s) \<in> set opts" by blast
    have "writeSol s pol path o' v x w = Inr w'" using 2(3) Some by (simp add: pickType_second)
    with 2(1) [OF m refl] show ?thesis using m Some by (auto simp: pickType_second)
  qed
next
  case (3 opts)
  obtain i where i: "litIndex (map fst opts) v = Some i" using 3(2) by (auto split: option.splits)
  then have l: "i < length opts" using litIndex_bound by fastforce
  obtain k s where o: "opts ! i = (k, s)" "(k, s) \<in> set opts" using option_at [OF l] by blast
  have "writeSol s pol path o' v x w = Inr w'" using 3(2) i o l by simp
  with 3(1) [OF i o(2) refl] show ?case using i o l by auto
next
  case (4 opts dflt)
  obtain xs where v: "v = ArrV xs" using 4(3) by (auto split: jval.splits)
  show ?case
  proof (cases "map_of opts (length xs)")
    case None
    then obtain s where s: "dflt = Some s" "writeSol s pol path o' v x w = Inr w'"
      using 4(3) v by (auto simp: map_of_second split: option.splits)
    then show ?thesis using 4(2) [OF v _ s] None v by (auto simp: map_of_second)
  next
    case (Some s)
    then have m: "(length xs, s) \<in> set opts" by (rule map_of_SomeD)
    have "writeSol s pol path o' v x w = Inr w'" using 4(3) Some v by (simp add: map_of_second)
    with 4(1) [OF v m refl] show ?thesis using m Some v by (auto simp: map_of_second)
  qed
next
  case (5 i s)
  then show ?case by (auto split: jval.splits if_splits)
next
  case (6 key s)
  then show ?case by (auto simp: Let_def split: if_splits)
next
  case (7 opts)
  obtain i where i: "firstKey (map fst opts) o' = Some i" using 7(2) by (auto split: option.splits)
  then have l: "i < length opts" using firstKey_bound by fastforce
  obtain k s where o: "opts ! i = (k, s)" "(k, s) \<in> set opts" using option_at [OF l] by blast
  have "writeSol s pol path o' o' x w = Inr w'" using 7(2) i o l by simp
  with 7(1) [OF i o(2) refl] show ?case using i o l by auto
qed simp

text \<open>Choosing over a value itself: what is chosen is smaller than the union.\<close>

lemma chooseJs_leaf: "chooseJs s o' v = Some p \<Longrightarrow> p \<in> set (leaves s)"
proof (induction s arbitrary: o' v rule: chooseJs.induct)
  case (2 opts any)
  show ?case
  proof (cases "pickType opts (jsTypeOf v)")
    case (Some s)
    from pickType_member [OF this] obtain c where m: "(c, s) \<in> set opts" by blast
    then show ?thesis using 2(1) [OF m refl, of o' v] 2(3) Some by (auto simp: pickType_second)
  qed (use 2 in \<open>auto simp: pickType_second split: option.splits\<close>)
next
  case (3 opts)
  obtain i where i: "litIndex (map fst opts) v = Some i" using 3(2) by (auto split: option.splits)
  then have l: "i < length opts" using litIndex_bound by fastforce
  obtain k s where o: "opts ! i = (k, s)" "(k, s) \<in> set opts" using option_at [OF l] by blast
  then show ?case using 3(1) [OF i o(2) refl, of o' v] 3(2) i l by auto
next
  case (4 opts dflt)
  obtain xs where v: "v = ArrV xs" using 4(3) by (auto split: jval.splits)
  show ?case
  proof (cases "map_of opts (length xs)")
    case (Some s)
    then have m: "(length xs, s) \<in> set opts" by (rule map_of_SomeD)
    then show ?thesis using 4(1) [OF v m refl, of o' v] 4(3) v Some by (auto simp: map_of_second)
  qed (use 4 v in \<open>auto simp: map_of_second split: option.splits\<close>)
next
  case (7 opts)
  obtain i where i: "firstKey (map fst opts) o' = Some i" using 7(2) by (auto split: option.splits)
  then have l: "i < length opts" using firstKey_bound by fastforce
  obtain k s where o: "opts ! i = (k, s)" "(k, s) \<in> set opts" using option_at [OF l] by blast
  then show ?case using 7(1) [OF i o(2) refl, of o' o'] 7(2) i l by auto
qed (auto split: jval.splits if_splits option.splits)

lemma chooseJs_size: "chooseJs s o' v = Some p \<Longrightarrow> size p < size s"
  by (rule leaves_size [OF chooseJs_leaf])

section \<open>What is written\<close>

function (sequential) wireOf :: "plan \<Rightarrow> jval \<Rightarrow> jval" where
  "wireOf NullP v = NullV"
| "wireOf IntP v = (case v of NumV n \<Rightarrow> (case safeNum n of Some i \<Rightarrow> NumV (IntN i) | None \<Rightarrow> v) | _ \<Rightarrow> v)"
| "wireOf JsonP v = (if v = UndefV then NullV else v)"
| "wireOf (LitP l) v = litVal l"
| "wireOf (StructP fs first) v =
     (case objectOf v of
        None \<Rightarrow> v
      | Some es \<Rightarrow>
          let ws = map (\<lambda>(k, p, opt). (k, wireOf p)) fs in
          ObjV (List.map_filter (\<lambda>f. let k = fst (ws ! f); x = propOf es k in
                  if x = UndefV then None else Some (k, snd (ws ! f) x)) (writeOrder (length fs) first)))"
| "wireOf (RecordP p) v =
     (case objectOf v of None \<Rightarrow> v | Some es \<Rightarrow> ObjV (map (\<lambda>(k, x). (k, wireOf p x)) (kept es)))"
| "wireOf (ArrayP p) (ArrV xs) = ArrV (map (wireOf p) xs)"
| "wireOf (TupleP ps) (ArrV xs) = ArrV (map (\<lambda>y. wireOf (fst y) (snd y)) (zip ps xs))"
| "wireOf (UnionP s) v = (case chooseJs s v v of None \<Rightarrow> v | Some p \<Rightarrow> wireOf p v)"
| "wireOf (IntakeP p) v = wireOf p v"
| "wireOf p v = v"
  by pat_completeness auto
termination
  by (relation "measure (size \<circ> fst)") (auto dest!: zipped_size chooseJs_size dest: member_size)

declare wireOf.simps [simp del]

section \<open>What is read back\<close>

text \<open>
  \<open>agrees p v u\<close>: the value \<open>u\<close> is \<open>v\<close> as the plan \<open>p\<close> sees it. A struct's \<open>u\<close> has those of the plan's fields
  that \<open>v\<close> has, and nothing else; an \<open>undefined\<close> item of a record is gone.
\<close>

function (sequential) agrees :: "plan \<Rightarrow> jval \<Rightarrow> jval \<Rightarrow> bool" where
  "agrees IntP v u = (\<exists>i \<in> set_option (case v of NumV n \<Rightarrow> safeNum n | _ \<Rightarrow> None). u = NumV (IntN i))"
| "agrees JsonP v u = (u = norm v)"
| "agrees (LitP l) v u = (sameLit v l \<and> u = litVal l)"
| "agrees (StructP fs first) v u =
     (case (objectOf v, objectOf u) of
        (Some es, Some us) \<Rightarrow> fst ` set us \<subseteq> fst ` set fs \<and>
          (\<forall>f \<in> set fs. let x = propOf es (fst f) in
             case map_of us (fst f) of None \<Rightarrow> x = UndefV | Some y \<Rightarrow> x \<noteq> UndefV \<and> agrees (fst (snd f)) x y)
      | _ \<Rightarrow> False)"
| "agrees (RecordP p) v u =
     (case (objectOf v, objectOf u) of
        (Some es, Some us) \<Rightarrow> fst ` set us = fst ` set (kept es) \<and>
          (\<forall>e \<in> set (kept es). case map_of us (fst e) of None \<Rightarrow> False | Some y \<Rightarrow> agrees p (snd e) y)
      | _ \<Rightarrow> False)"
| "agrees (ArrayP p) (ArrV xs) (ArrV ys) = (length ys = length xs \<and> (\<forall>z \<in> set (zip xs ys). agrees p (fst z) (snd z)))"
| "agrees (TupleP ps) (ArrV xs) (ArrV ys) =
     (length ys = length xs \<and> (\<forall>z \<in> set (zip ps (zip xs ys)). agrees (fst z) (fst (snd z)) (snd (snd z))))"
| "agrees (UnionP s) v u = (case chooseJs s v v of None \<Rightarrow> False | Some p \<Rightarrow> agrees p v u)"
| "agrees (IntakeP p) v u = agrees p v u"
| "agrees p v u = (u = v)"
  by pat_completeness auto
termination
  by (relation "measure (size \<circ> fst)") (auto dest!: zipped_size chooseJs_size dest: member_size)

declare agrees.simps [simp del]

lemma props_fold: "propsOrdered out \<Longrightarrow> distinct (map fst es) \<Longrightarrow> fst ` set es \<inter> fst ` set out = {} \<Longrightarrow>
    map_of (fold (\<lambda>(k, x) out. setEntry out k x) es out) = map_of out ++ map_of es \<and>
    fst ` set (fold (\<lambda>(k, x) out. setEntry out k x) es out) = fst ` set out \<union> fst ` set es"
proof (induction es arbitrary: out)
  case (Cons e es)
  obtain k x where e: "e = (k, x)" by (cases e)
  note o' = setEntry_ordered [OF Cons.prems(1), of k x]
  have m: "map_of (setEntry out k x) = (map_of out)(k \<mapsto> x)" "fst ` set (setEntry out k x) = insert k (fst ` set out)"
    using o'(2,3) by simp_all
  have "fst ` set es \<inter> fst ` set (setEntry out k x) = {}" using Cons.prems(2,3) m(2) by (auto simp: e)
  with Cons.IH [OF o'(1)] Cons.prems(2) have ih:
    "map_of (fold (\<lambda>(k, x) out. setEntry out k x) es (setEntry out k x)) = (map_of out)(k \<mapsto> x) ++ map_of es"
    "fst ` set (fold (\<lambda>(k, x) out. setEntry out k x) es (setEntry out k x)) = insert k (fst ` set out) \<union> fst ` set es"
    unfolding m by (simp_all add: e fun_upd_def)
  have "(map_of out)(k \<mapsto> x) ++ map_of es = map_of out ++ map_of (e # es)"
    using Cons.prems(2) by (simp add: e map_add_upd_left dom_map_of_conv_image_fst)
  then show ?case using ih by (simp only: e fold_simps prod.case o_apply list.set image_insert fst_conv) blast
qed simp

lemma props_props:
  assumes "distinct (map fst es)"
  shows "map_of (props es) = map_of es" "fst ` set (props es) = fst ` set es"
  using props_fold [of "[]" es] assms by (simp_all add: props_def)

section \<open>The walk writes the form\<close>

definition wrote :: "writer \<Rightarrow> writer \<Rightarrow> bytes \<Rightarrow> bool" where
  "wrote w w' bs = (wr_ok w' \<and> written w' = written w @ bs)"

lemma wrote_appends: "appends f bs \<Longrightarrow> wr_ok w \<Longrightarrow> wrote w (f w) bs"
  by (simp add: wrote_def appendsD)

lemma wrote_trans: "wrote w w1 bs \<Longrightarrow> wrote w1 w2 cs \<Longrightarrow> wrote w w2 (bs @ cs)"
  by (simp add: wrote_def)

text \<open>A JavaScript value the round trip holds for: what it holds keeps on the wire.\<close>

definition js_ok :: "jval \<Rightarrow> bool" where "js_ok v = (sendable v \<and> wire_ok v)"

lemma sendable_members: "sendableItems xs \<longleftrightarrow> (\<forall>x \<in> set xs. sendable x)"
  by (induction xs) simp_all

lemma sendable_entries: "sendableEntries es \<longleftrightarrow> (\<forall>e \<in> set es. keyFits (fst e) \<and> sendable (snd e))"
  by (induction es) auto

lemma js_ok_members:
  "js_ok (ArrV xs) \<Longrightarrow> x \<in> set xs \<Longrightarrow> js_ok x"
  "js_ok (ObjV es) \<Longrightarrow> (k, x) \<in> set es \<Longrightarrow> js_ok x \<and> keyFits k"
  by (auto simp: js_ok_def sendable_members sendable_entries)

lemma js_ok_prop: "js_ok (ObjV es) \<Longrightarrow> k \<noteq> lit ''__proto__'' \<Longrightarrow> propOf es k = NoFormV \<or> propOf es k = UndefV \<or> js_ok (propOf es k)"
  using js_ok_members(2) by (auto simp: propOf_def split: option.splits dest: map_of_SomeD)

lemma objectOf_ok: "js_ok v \<Longrightarrow> objectOf v = Some es \<Longrightarrow> js_ok (ObjV es)"
  by (cases v) (auto simp: js_ok_def)

lemma putEntries_form:
  "putEntries f pol path es w = Inr w' \<Longrightarrow> wr_ok w \<Longrightarrow>
    (\<And>k x path w w'. (k, x) \<in> set es \<Longrightarrow> f pol path x w = Inr w' \<Longrightarrow> wr_ok w \<Longrightarrow> wrote w w' (enc (g x)) \<and> Q x) \<Longrightarrow>
    wrote w w' (concat (map (\<lambda>(k, x). encStr k @ enc (g x)) es)) \<and> (\<forall>e \<in> set es. Q (snd e))"
proof (induction es arbitrary: w)
  case Nil
  then show ?case by (simp add: wrote_def)
next
  case (Cons e es)
  obtain k x where e: "e = (k, x)" by (cases e)
  have s: "wrote w (writeStr k w) (encStr k)" by (rule wrote_appends [OF appends_writeStr Cons.prems(2)])
  then have ok: "wr_ok (writeStr k w)" by (simp add: wrote_def)
  obtain w1 where w1: "f pol (path @ [Key k]) x (writeStr k w) = Inr w1" "putEntries f pol path es w1 = Inr w'"
    using Cons.prems(1) by (auto simp: e andThen_eq_Inr)
  have x: "wrote (writeStr k w) w1 (enc (g x)) \<and> Q x" using Cons.prems(3) [of k x, OF _ w1(1) ok] e by simp
  moreover have "wrote w1 w' (concat (map (\<lambda>(k, x). encStr k @ enc (g x)) es)) \<and> (\<forall>e \<in> set es. Q (snd e))"
  proof (rule Cons.IH [OF w1(2)])
    show "wr_ok w1" using x by (simp add: wrote_def)
    show "wrote v v' (enc (g y)) \<and> Q y" if "(l, y) \<in> set es" "f pol path y v = Inr v'" "wr_ok v" for l y path v v'
      using Cons.prems(3) [of l y] that by simp
  qed
  ultimately show ?case using wrote_trans [OF wrote_trans [OF s, of w1 "enc (g x)"], of w'] by (simp add: e)
qed

lemma putItems_form:
  "putItems fs pol path k xs w = Inr w' \<Longrightarrow> wr_ok w \<Longrightarrow> length fs = length xs \<Longrightarrow>
    (\<And>i path w w'. i < length xs \<Longrightarrow> (fs ! i) pol path (xs ! i) w = Inr w' \<Longrightarrow> wr_ok w \<Longrightarrow> wrote w w' (enc (gs ! i)) \<and> Q i) \<Longrightarrow>
    length gs = length xs \<Longrightarrow> wrote w w' (concat (map enc gs)) \<and> (\<forall>i < length xs. Q i)"
proof (induction fs pol path k xs w arbitrary: gs Q rule: putItems.induct)
  case (1 f fs pol path k x xs w)
  obtain g hs where gs: "gs = g # hs" using 1(6) by (cases gs) auto
  obtain w1 where w1: "f pol (path @ [Item k]) x w = Inr w1" "putItems fs pol path (k + 1) xs w1 = Inr w'"
    using 1(2) by (auto simp: andThen_eq_Inr)
  have x: "wrote w w1 (enc g) \<and> Q 0" using 1(5) [of 0] w1(1) 1(3) gs by simp
  have "wrote w1 w' (concat (map enc hs)) \<and> (\<forall>i < length xs. Q (Suc i))"
  proof (rule 1(1) [OF w1(2)])
    show "wrote v v' (enc (hs ! i)) \<and> Q (Suc i)" if "i < length xs" "(fs ! i) pol path (xs ! i) v = Inr v'" "wr_ok v" for i path v v'
      using 1(5) [of "Suc i" path v v'] that gs by simp
  qed (use x 1(4,6) gs in \<open>auto simp: wrote_def\<close>)
  then show ?case using x wrote_trans [of w w1 "enc g" w'] gs by (auto simp: less_Suc_eq_0_disj)
qed (auto simp: wrote_def)

lemma putFields_form:
  "putFields fs pol path es order w = Inr w' \<Longrightarrow> wr_ok w \<Longrightarrow>
    (\<And>f path w w'. f \<in> set order \<Longrightarrow> propOf es (fst (fs ! f)) \<noteq> UndefV \<Longrightarrow>
      fst (snd (fs ! f)) pol path (propOf es (fst (fs ! f))) w = Inr w' \<Longrightarrow> wr_ok w \<Longrightarrow> wrote w w' (enc (g f)) \<and> Q f) \<Longrightarrow>
    wrote w w' (concat (map (\<lambda>f. if propOf es (fst (fs ! f)) = UndefV then [] else encStr (fst (fs ! f)) @ enc (g f)) order)) \<and>
    (\<forall>f \<in> set order. propOf es (fst (fs ! f)) \<noteq> UndefV \<longrightarrow> Q f)"
proof (induction order arbitrary: w)
  case Nil
  then show ?case by (simp add: wrote_def)
next
  case (Cons f order)
  let ?k = "fst (fs ! f)" let ?x = "propOf es ?k"
  show ?case
  proof (cases "?x = UndefV")
    case True
    then show ?thesis using Cons by (simp add: Let_def)
  next
    case False
    have s: "wrote w (writeStr ?k w) (encStr ?k)" by (rule wrote_appends [OF appends_writeStr Cons.prems(2)])
    then have ok: "wr_ok (writeStr ?k w)" by (simp add: wrote_def)
    obtain w1 where w1: "fst (snd (fs ! f)) pol (path @ [Key ?k]) ?x (writeStr ?k w) = Inr w1" "putFields fs pol path es order w1 = Inr w'"
      using Cons.prems(1) False by (auto simp: Let_def andThen_eq_Inr)
    have x: "wrote (writeStr ?k w) w1 (enc (g f)) \<and> Q f" using Cons.prems(3) [OF _ False w1(1) ok] by simp
    moreover have "wrote w1 w' (concat (map (\<lambda>f. if propOf es (fst (fs ! f)) = UndefV then [] else encStr (fst (fs ! f)) @ enc (g f)) order)) \<and>
        (\<forall>f \<in> set order. propOf es (fst (fs ! f)) \<noteq> UndefV \<longrightarrow> Q f)"
    proof (rule Cons.IH [OF w1(2)])
      show "wr_ok w1" using x by (simp add: wrote_def)
      show "wrote v v' (enc (g h)) \<and> Q h"
        if "h \<in> set order" "propOf es (fst (fs ! h)) \<noteq> UndefV"
          "fst (snd (fs ! h)) pol path (propOf es (fst (fs ! h))) v = Inr v'" "wr_ok v" for h path v v'
        using Cons.prems(3) [of h] that by simp
    qed
    ultimately show ?thesis using wrote_trans [OF wrote_trans [OF s, of w1 "enc (g f)"], of w'] False by simp
  qed
qed

section \<open>Structs\<close>

lemma writeOrder_props:
  assumes "first < int n"
  shows "distinct (writeOrder n first)" "set (writeOrder n first) = {..<n}"
  using assms by (auto simp: writeOrder_def)

lemma length_order:
  assumes "first < int (length fs)"
  shows "length (filter (\<lambda>f. P (fs ! f)) (writeOrder (length fs) first)) = length (filter P fs)"
proof -
  have "length (filter (\<lambda>f. P (fs ! f)) (writeOrder (length fs) first)) = card {i. i < length fs \<and> P (fs ! i)}"
    using writeOrder_props [OF assms] distinct_card [of "filter (\<lambda>f. P (fs ! f)) (writeOrder (length fs) first)"]
    by (simp add: lessThan_def Collect_conj_eq [symmetric] set_filter Int_def)
  then show ?thesis by (simp add: length_filter_conv_card)
qed

abbreviation there :: "(jsstr \<times> plan \<times> bool) list \<Rightarrow> (jsstr \<times> jval) list \<Rightarrow> nat \<Rightarrow> bool" where
  "there fs es f \<equiv> propOf es (fst (fs ! f)) \<noteq> UndefV"

abbreviation written_as :: "(jsstr \<times> plan \<times> bool) list \<Rightarrow> (jsstr \<times> jval) list \<Rightarrow> nat \<Rightarrow> jval" where
  "written_as fs es f \<equiv> wireOf (fst (snd (fs ! f))) (propOf es (fst (fs ! f)))"

lemma wireOf_struct:
  assumes "objectOf v = Some es" "first < int (length fs)"
  shows "wireOf (StructP fs first) v =
    ObjV (map (\<lambda>f. (fst (fs ! f), written_as fs es f)) (filter (there fs es) (writeOrder (length fs) first)))"
proof -
  let ?ws = "map (\<lambda>(k, p, opt). (k, wireOf p)) fs"
  have w: "?ws ! f = (fst (fs ! f), wireOf (fst (snd (fs ! f))))" if "f < length fs" for f
    using that by (simp add: case_prod_unfold)
  have "List.map_filter (\<lambda>f. let k = fst (?ws ! f); x = propOf es k in if x = UndefV then None else Some (k, snd (?ws ! f) x)) order =
    map (\<lambda>f. (fst (fs ! f), written_as fs es f)) (filter (there fs es) order)" if "set order \<subseteq> {..<length fs}" for order
    using that by (induction order) (simp_all add: List.map_filter_simps w Let_def del: nth_map)
  from this [of "writeOrder (length fs) first"] show ?thesis
    using assms writeOrder_props(2) [OF assms(2)] by (simp add: wireOf.simps Let_def)
qed

lemma enc_fields:
  assumes "\<And>f. f \<in> set order \<Longrightarrow> there fs es f \<Longrightarrow> written_as fs es f \<noteq> UndefV"
  shows "encEntries (map (\<lambda>f. (fst (fs ! f), written_as fs es f)) (filter (there fs es) order)) =
    concat (map (\<lambda>f. if propOf es (fst (fs ! f)) = UndefV then [] else encStr (fst (fs ! f)) @ enc (written_as fs es f)) order)"
  using assms by (induction order) auto

lemma putStruct_writes:
  assumes "putStruct fs first pol path v w = Inr w'"
  obtains es where "objectOf v = Some es" "\<forall>(k, _, opt) \<in> set fs. propOf es k \<noteq> UndefV \<or> opt"
    "putFields fs pol path es (writeOrder (length fs) first) (writeMapHeader (length (filter (\<lambda>(k, _). propOf es k \<noteq> UndefV) fs)) w) = Inr w'"
proof -
  obtain es where es: "objectOf v = Some es" using assms by (auto simp: putStruct_def split: option.splits)
  then have "find (\<lambda>(k, _, opt). propOf es k = UndefV \<and> \<not> opt) fs = None"
    "putFields fs pol path es (writeOrder (length fs) first) (writeMapHeader (length (filter (\<lambda>(k, _). propOf es k \<noteq> UndefV) fs)) w) = Inr w'"
    using assms by (simp_all only: putStruct_def Let_def option.case sum.distinct split: if_splits)
  then show ?thesis using es that by (fastforce simp: find_None_iff)
qed

section \<open>What is written is the form\<close>

lemma write_noform: "writePlan p pol path NoFormV w \<noteq> Inr w'"
proof (induction p arbitrary: path rule: measure_induct_rule [of size])
  case (less p)
  have "\<exists>q. size q < size p \<and> writePlan q pol path NoFormV w = Inr w'" if "p = UnionP s" "writePlan p pol path NoFormV w = Inr w'" for s
  proof -
    have "writeSol s pol path NoFormV NoFormV NoFormV w = Inr w'" using that by simp
    then obtain q where q: "chooseJs s NoFormV NoFormV = Some q" "writePlan q pol path NoFormV w = Inr w'"
      using writeSol_chooses by blast
    then show ?thesis using chooseJs_size [OF q(1)] that(1) by (intro exI [of _ q]) simp
  qed
  then show ?case using less
    by (cases p) (auto simp: putNull_def putInt_def putStr_def putBool_def putDate_def putJson_def any_simps putLiteral_def sameLit_def
        putStruct_def putRecord_def putArray_def putTuple_def split: lit.splits)
qed

text \<open>A union tells its members apart: over a member's value, it chooses that member.\<close>

definition tells :: "sol \<Rightarrow> bool" where
  "tells s = (\<forall>q \<in> set (leaves s). \<forall>x. has Reject q x \<longrightarrow> chooseWire s x x = Some q)"

function (sequential) plan_tells :: "plan \<Rightarrow> bool" where
  "plan_tells (StructP fs first) = (\<forall>f \<in> set fs. plan_tells (fst (snd f)))"
| "plan_tells (RecordP p) = plan_tells p"
| "plan_tells (ArrayP p) = plan_tells p"
| "plan_tells (TupleP ps) = (\<forall>p \<in> set ps. plan_tells p)"
| "plan_tells (UnionP s) = (tells s \<and> (\<forall>p \<in> set (leaves s). plan_tells p))"
| "plan_tells (IntakeP p) = plan_tells p"
| "plan_tells p = True"
  by pat_completeness auto
termination
  by (relation "measure size") (auto dest!: member_size leaves_size dest: size_list_estimation' simp: less_Suc_eq_le)

declare plan_tells.simps [simp del]

text \<open>What is written is a form of the plan's, and is read back as a value that agrees with the one written.\<close>

definition fitting :: "plan \<Rightarrow> jval \<Rightarrow> bool" where
  "fitting p v = (has Reject p (wireOf p v) \<and> agrees p v (backOf p (wireOf p v)))"

definition writes_form :: "plan \<Rightarrow> bool" where
  "writes_form p = (\<forall>pol path v w w'. writePlan p pol path v w = Inr w' \<longrightarrow> wr_ok w \<longrightarrow> js_ok v \<longrightarrow>
     wrote w w' (enc (wireOf p v)) \<and> fitting p v)"

lemma writes_formI: "(\<And>pol path v w w'. writePlan p pol path v w = Inr w' \<Longrightarrow> wr_ok w \<Longrightarrow> js_ok v \<Longrightarrow>
     wrote w w' (enc (wireOf p v)) \<and> fitting p v) \<Longrightarrow> writes_form p"
  by (simp add: writes_form_def)

lemma writes_formD: "writes_form p \<Longrightarrow> writePlan p pol path v w = Inr w' \<Longrightarrow> wr_ok w \<Longrightarrow> js_ok v \<Longrightarrow>
     wrote w w' (enc (wireOf p v)) \<and> fitting p v"
  by (simp add: writes_form_def)

lemma scalar_form:
  "writes_form NullP" "writes_form IntP" "writes_form StrP" "writes_form BoolP" "writes_form DateP"
  by (rule writes_formI; auto simp: putNull_def putInt_def putStr_def putBool_def putDate_def wireOf.simps has.simps js_ok_def
      fitting_def agrees.simps backOf.simps safeNum_def wrote_appends [OF appends_writeNil] wrote_appends [OF appends_writeInt] wrote_appends [OF appends_writeStr]
      wrote_appends [OF appends_writeBool] wrote_appends [OF appends_writeTimestamp] encNumber_def
      split: jval.splits option.splits if_splits jnum.splits dest: safeOf_bound)+

lemma json_form: "writes_form JsonP"
proof (rule writes_formI)
  fix pol path v w w' assume a: "writePlan JsonP pol path v w = Inr w'" "wr_ok w" "js_ok v"
  then have "writeAny v 0 w = Inr w'" by (simp add: putJson_def)
  then have "writable 0 v" "wrote w w' (enc v)"
    using appendsIf_any(1) [of 0 v] a(2) by (auto simp: appendsIf_def wrote_def split: if_splits)
  then show "wrote w w' (enc (wireOf JsonP v)) \<and> fitting JsonP v"
    using a(3) by (auto simp: wireOf.simps has.simps fitting_def agrees.simps backOf.simps js_ok_def writable.simps MAX_DEPTH_def)
qed

lemma literal_form: "writes_form (LitP l)"
proof (rule writes_formI)
  fix pol path v w w' assume a: "writePlan (LitP l) pol path v w = Inr w'" "wr_ok w" "js_ok v"
  then have "w' = writeScalar l w" "sameLit v l" by (auto simp: putLiteral_def split: if_splits)
  moreover have "\<bar>i\<bar> < 2 ^ 53" if "l = NumL i" "sameLit v l" for i
    using that safeOf_bound by (auto simp: sameLit_def safeNum_def split: jval.splits jnum.splits if_splits)
  ultimately show "wrote w w' (enc (wireOf (LitP l) v)) \<and> fitting (LitP l) v"
    using a(2) wrote_appends [OF appends_writeStr] wrote_appends [OF appends_writeInt] wrote_appends [OF appends_writeBool]
    by (cases l) (auto simp: wireOf.simps has.simps encNumber_def fitting_def agrees.simps backOf.simps)
qed

lemma header_wrote: "wr_ok w \<Longrightarrow> wrote w (writeMapHeader n w) (encHeader n 0x80 0xde)" "wr_ok w \<Longrightarrow> wrote w (writeArrayHeader n w) (encHeader n 0x90 0xdc)"
  by (simp_all add: writeMapHeader_def writeArrayHeader_def wrote_appends appends_writeHeader)

lemma field_lookup:
  assumes "distinct (map fst fs)" "first < int (length fs)"
  shows "distinct (map fst (map (\<lambda>f. (fst (fs ! f), g f)) (filter (there fs es) (writeOrder (length fs) first))))"
    and "i < length fs \<Longrightarrow> map_of (map (\<lambda>f. (fst (fs ! f), g f)) (filter (there fs es) (writeOrder (length fs) first))) (fst (fs ! i)) =
      (if there fs es i then Some (g i) else None)"
proof -
  let ?order = "filter (there fs es) (writeOrder (length fs) first)"
  let ?es = "map (\<lambda>f. (fst (fs ! f), g f)) ?order"
  have order: "distinct ?order" "set ?order \<subseteq> {..<length fs}" using writeOrder_props [OF assms(2)] by auto
  have keys: "map fst ?es = map (\<lambda>f. fst (fs ! f)) ?order" by simp
  have inj: "inj_on (\<lambda>f. fst (fs ! f)) {..<length fs}"
    using nth_eq_iff_index_eq [OF assms(1)] by (intro inj_onI) simp
  show d: "distinct (map fst ?es)" unfolding keys distinct_map using order inj inj_on_subset by blast
  show "map_of ?es (fst (fs ! i)) = (if there fs es i then Some (g i) else None)" if i: "i < length fs"
  proof (cases "there fs es i")
    case True
    have "i \<in> set (writeOrder (length fs) first)" using writeOrder_props(2) [OF assms(2)] i by simp
    then have "(fst (fs ! i), g i) \<in> set ?es" using True by force
    then show ?thesis using map_of_is_SomeI [OF d] True by presburger
  next
    case False
    have "fst (fs ! j) \<noteq> fst (fs ! i)" if "j \<in> set ?order" for j
      using that order(2) False i nth_eq_iff_index_eq [OF assms(1), of j i] by fastforce
    then have "map_of ?es (fst (fs ! i)) = None" by (force simp: map_of_eq_None_iff)
    then show ?thesis using False by simp
  qed
qed

lemma struct_fits:
  assumes fs: "distinct (map fst fs)" "length fs < 2 ^ 32" "first < int (length fs)" and v: "objectOf v = Some es"
    and full: "\<forall>(k, _, opt) \<in> set fs. propOf es k \<noteq> UndefV \<or> opt"
    and held: "\<forall>f \<in> set (writeOrder (length fs) first). there fs es f \<longrightarrow> fitting (fst (snd (fs ! f))) (propOf es (fst (fs ! f)))"
  shows "fitting (StructP fs first) v"
proof -
  let ?order = "filter (there fs es) (writeOrder (length fs) first)"
  let ?es = "map (\<lambda>f. (fst (fs ! f), written_as fs es f)) ?order"
  let ?us = "map (\<lambda>f. (fst (fs ! f), backOf (fst (snd (fs ! f))) (written_as fs es f))) ?order"
  have order: "set ?order \<subseteq> {..<length fs}" using writeOrder_props [OF fs(3)] by auto
  have h: "fitting (fst (snd (fs ! i))) (propOf es (fst (fs ! i)))" if "i < length fs" "there fs es i" for i
    using held that writeOrder_props(2) [OF fs(3)] by blast
  have opt: "snd (snd (fs ! i))" if "i < length fs" "\<not> there fs es i" for i
    using full that nth_mem [OF that(1)] by (force simp: case_prod_unfold)
  have "length ?order \<le> length (writeOrder (length fs) first)" by simp
  also have "length (writeOrder (length fs) first) = length fs"
    using distinct_card [OF writeOrder_props(1) [OF fs(3)]] writeOrder_props(2) [OF fs(3)] by simp
  finally have l: "length ?es < 2 ^ 32" using fs(2) by simp
  have sub: "fst ` set ?es \<subseteq> fst ` set fs" "fst ` set ?us \<subseteq> fst ` set fs" using order by fastforce+
  have look: "case map_of ?es (fst g) of None \<Rightarrow> snd (snd g) | Some y \<Rightarrow> has Reject (fst (snd g)) y" if g: "g \<in> set fs" for g
  proof -
    obtain i where i: "i < length fs" "fs ! i = g" using g by (auto simp: in_set_conv_nth)
    show ?thesis unfolding i(2) [symmetric] field_lookup(2) [OF fs(1,3) i(1)]
      using h [OF i(1)] opt [OF i(1)] by (simp add: fitting_def)
  qed
  have declared: "fst e \<in> fst ` set fs \<or> foreign Reject (fst ` set fs) e" if "e \<in> set ?es" for e using sub(1) that by blast
  have "has Reject (StructP fs first) (ObjV ?es)"
    unfolding has.simps jval.case by (intro conjI ballI l declared field_lookup(1) [OF fs(1,3)] look)
  moreover have keeps: "declared fs ?es = ?es" unfolding declared_def filter_id_conv using sub(1) by blast
  have "map (\<lambda>(k, x). (k, case map_of fs k of None \<Rightarrow> x | Some pf \<Rightarrow> backOf (fst pf) x)) (declared fs ?es) = ?us"
  proof -
    have "map_of fs (fst (fs ! f)) = Some (snd (fs ! f))" if "f \<in> set ?order" for f
      using that order fs(1) by (intro map_of_is_SomeI) auto
    then show ?thesis unfolding keeps by simp
  qed
  then have comes: "backOf (StructP fs first) (ObjV ?es) = ObjV (props ?us)" by (simp only: backOf.simps declared_map)
  have same: "let x = propOf es (fst g) in
      case map_of (props ?us) (fst g) of None \<Rightarrow> x = UndefV | Some y \<Rightarrow> x \<noteq> UndefV \<and> agrees (fst (snd g)) x y" if g: "g \<in> set fs" for g
  proof -
    obtain i where i: "i < length fs" "fs ! i = g" using g by (auto simp: in_set_conv_nth)
    show ?thesis unfolding i(2) [symmetric] props_props(1) [OF field_lookup(1) [OF fs(1,3)]] field_lookup(2) [OF fs(1,3) i(1)]
      using h [OF i(1)] by (simp add: fitting_def)
  qed
  have "fst ` set (props ?us) \<subseteq> fst ` set fs" unfolding props_props(2) [OF field_lookup(1) [OF fs(1,3)]] by (rule sub(2))
  then have "agrees (StructP fs first) v (ObjV (props ?us))"
    unfolding agrees.simps objectOf.simps v option.case prod.case by (intro conjI ballI same)
  ultimately show ?thesis unfolding fitting_def wireOf_struct [OF v fs(3)] comes by blast
qed

lemma js_ok_absent: "js_ok NoFormV = False"
  by (simp add: js_ok_def)

lemma struct_form:
  assumes IH: "\<And>f. f \<in> set fs \<Longrightarrow> writes_form (fst (snd f))" and ok: "plan_ok (StructP fs first)"
  shows "writes_form (StructP fs first)"
proof (rule writes_formI)
  fix pol path v w w' assume a: "writePlan (StructP fs first) pol path v w = Inr w'" "wr_ok w" "js_ok v"
  let ?fs = "map (\<lambda>(key, p, opt). (key, writePlan p, opt)) fs"
  have fs: "distinct (map fst fs)" "length fs < 2 ^ 32" "first < int (length fs)"
      "\<forall>f \<in> set fs. keyFits (fst f) \<and> fst f \<noteq> lit ''__proto__''"
    using ok by (simp_all add: plan_ok.simps)
  have "putStruct ?fs first pol path v w = Inr w'" using a(1) by simp
  then obtain es where es: "objectOf v = Some es" "\<forall>(k, _, opt) \<in> set ?fs. propOf es k \<noteq> UndefV \<or> opt"
      "putFields ?fs pol path es (writeOrder (length ?fs) first)
         (writeMapHeader (length (filter (\<lambda>(k, _). propOf es k \<noteq> UndefV) ?fs)) w) = Inr w'"
    by (rule putStruct_writes)
  have full: "\<forall>(k, _, opt) \<in> set fs. propOf es k \<noteq> UndefV \<or> opt" using es(2) by auto
  let ?order = "writeOrder (length fs) first"
  let ?es = "map (\<lambda>f. (fst (fs ! f), written_as fs es f)) (filter (there fs es) ?order)"
  define n where "n = length (filter (\<lambda>(k, _). propOf es k \<noteq> UndefV) ?fs)"
  have at: "fst (?fs ! f) = fst (fs ! f)" "fst (snd (?fs ! f)) = writePlan (fst (snd (fs ! f)))" if "f \<in> set ?order" for f
    using that writeOrder_props(2) [OF fs(3)] by (simp_all add: case_prod_unfold)
  have js: "js_ok (ObjV es)" by (rule objectOf_ok [OF a(3) es(1)])
  have h: "wrote w (writeMapHeader n w) (encHeader n 0x80 0xde)" by (rule header_wrote(1) [OF a(2)])
  have step: "wrote u u' (enc (written_as fs es f)) \<and> fitting (fst (snd (fs ! f))) (propOf es (fst (fs ! f)))"
    if f: "f \<in> set ?order" "propOf es (fst (?fs ! f)) \<noteq> UndefV"
      "fst (snd (?fs ! f)) pol path (propOf es (fst (?fs ! f))) u = Inr u'" "wr_ok u" for f path u u'
  proof -
    have m: "fs ! f \<in> set fs" using f(1) writeOrder_props(2) [OF fs(3)] by simp
    have p: "writePlan (fst (snd (fs ! f))) pol path (propOf es (fst (fs ! f))) u = Inr u'" using f(3) unfolding at [OF f(1)] .
    moreover have "js_ok (propOf es (fst (fs ! f)))"
      using js_ok_prop [OF js, of "fst (fs ! f)"] f(1,2) fs(4) m p write_noform at(1) by (metis (no_types, lifting))
    ultimately show ?thesis using writes_formD [OF IH [OF m]] f(4) by blast
  qed
  have same: "map (\<lambda>f. if propOf es (fst (?fs ! f)) = UndefV then [] else encStr (fst (?fs ! f)) @ enc (written_as fs es f)) ?order =
      map (\<lambda>f. if propOf es (fst (fs ! f)) = UndefV then [] else encStr (fst (fs ! f)) @ enc (written_as fs es f)) ?order"
    by (rule map_cong [OF refl]) (unfold at(1), rule refl)
  have "wrote (writeMapHeader n w) w' (concat (map (\<lambda>f. if propOf es (fst (?fs ! f)) = UndefV then [] else
      encStr (fst (?fs ! f)) @ enc (written_as fs es f)) ?order)) \<and>
    (\<forall>f \<in> set ?order. propOf es (fst (?fs ! f)) \<noteq> UndefV \<longrightarrow> fitting (fst (snd (fs ! f))) (propOf es (fst (fs ! f))))"
    by (rule putFields_form [OF es(3) [unfolded length_map, folded n_def]]) (use h step in \<open>auto simp: wrote_def\<close>)
  then have body: "wrote (writeMapHeader n w) w' (concat (map (\<lambda>f. if propOf es (fst (fs ! f)) = UndefV then [] else
      encStr (fst (fs ! f)) @ enc (written_as fs es f)) ?order))"
    and held: "\<forall>f \<in> set ?order. there fs es f \<longrightarrow> fitting (fst (snd (fs ! f))) (propOf es (fst (fs ! f)))"
    using at(1) unfolding same by simp_all
  have "n = length (filter (\<lambda>(k, _). propOf es k \<noteq> UndefV) fs)"
    by (simp add: n_def filter_map comp_def case_prod_unfold)
  then have n: "n = length ?es" using length_order [OF fs(3), of "\<lambda>(k, _). propOf es k \<noteq> UndefV"] by (simp add: case_prod_unfold)
  have there: "\<forall>e \<in> set ?es. snd e \<noteq> UndefV" using held has_defined by (fastforce simp: fitting_def)
  have "enc (ObjV ?es) = encHeader n 0x80 0xde @ encEntries ?es" using kept_all [OF there] n by simp
  moreover have "encEntries ?es = concat (map (\<lambda>f. if propOf es (fst (fs ! f)) = UndefV then [] else
      encStr (fst (fs ! f)) @ enc (written_as fs es f)) ?order)"
    by (rule enc_fields) (use held has_defined fitting_def in blast)
  ultimately have wrote: "wrote w w' (enc (ObjV ?es))" using wrote_trans [OF h body] by simp
  show "wrote w w' (enc (wireOf (StructP fs first) v)) \<and> fitting (StructP fs first) v"
    using wrote struct_fits [OF fs(1-3) es(1) full held] unfolding wireOf_struct [OF es(1) fs(3)] by blast
qed

lemma enc_mapped: "\<forall>e \<in> set es. f (snd e) \<noteq> UndefV \<Longrightarrow>
    encEntries (map (\<lambda>(k, x). (k, f x)) es) = concat (map (\<lambda>(k, x). encStr k @ enc (f x)) es)"
  by (induction es) auto

lemma record_agrees:
  assumes v: "objectOf v = Some es" and d: "distinct (map fst (kept es))" and held: "\<forall>e \<in> set (kept es). fitting p (snd e)"
  shows "agrees (RecordP p) v (backOf (RecordP p) (ObjV (map (\<lambda>(k, x). (k, wireOf p x)) (kept es))))"
proof -
  let ?us = "map (\<lambda>(k, x). (k, backOf p (wireOf p x))) (kept es)"
  have ks: "map fst ?us = map fst (kept es)" by (simp add: case_prod_unfold comp_def)
  have "map (\<lambda>(k, x). (k, backOf p x)) (map (\<lambda>(k, x). (k, wireOf p x)) (kept es)) = ?us" by simp
  then have comes: "backOf (RecordP p) (ObjV (map (\<lambda>(k, x). (k, wireOf p x)) (kept es))) = ObjV (props ?us)" by (simp only: backOf.simps)
  have du: "distinct (map fst ?us)" unfolding ks by (rule d)
  have "case map_of (props ?us) (fst e) of None \<Rightarrow> False | Some y \<Rightarrow> agrees p (snd e) y" if e: "e \<in> set (kept es)" for e
  proof -
    have "(fst e, backOf p (wireOf p (snd e))) \<in> set ?us" using e by force
    from map_of_is_SomeI [OF du this] show ?thesis unfolding props_props(1) [OF du]
      using held [rule_format, OF e] by (simp only: fitting_def option.case)
  qed
  moreover have "fst ` set (props ?us) = fst ` set (kept es)"
    unfolding props_props(2) [OF du] using arg_cong [OF ks, of set] by (simp only: set_map)
  ultimately show ?thesis unfolding comes agrees.simps objectOf.simps v option.case prod.case by blast
qed

lemma record_form:
  assumes "writes_form p"
  shows "writes_form (RecordP p)"
proof (rule writes_formI)
  fix pol path v w w' assume a: "writePlan (RecordP p) pol path v w = Inr w'" "wr_ok w" "js_ok v"
  then obtain es where es: "objectOf v = Some es"
      "putEntries (writePlan p) pol path (kept es) (writeMapHeader (length (kept es)) w) = Inr w'"
    by (auto simp: putRecord_def Let_def split: option.splits)
  have js: "js_ok (ObjV es)" by (rule objectOf_ok [OF a(3) es(1)])
  let ?es = "map (\<lambda>(k, x). (k, wireOf p x)) (kept es)"
  have h: "wrote w (writeMapHeader (length (kept es)) w) (encHeader (length (kept es)) 0x80 0xde)" by (rule header_wrote(1) [OF a(2)])
  have "wrote (writeMapHeader (length (kept es)) w) w' (concat (map (\<lambda>(k, x). encStr k @ enc (wireOf p x)) (kept es))) \<and>
      (\<forall>e \<in> set (kept es). fitting p (snd e))"
  proof (rule putEntries_form [OF es(2)])
    show "wr_ok (writeMapHeader (length (kept es)) w)" using h by (simp add: wrote_def)
    show "wrote u u' (enc (wireOf p x)) \<and> fitting p x"
      if "(k, x) \<in> set (kept es)" "writePlan p pol path x u = Inr u'" "wr_ok u" for k x path u u'
      using writes_formD [OF assms that(2,3)] js_ok_members(2) [OF js, of k x] that(1) by simp
  qed
  then have body: "wrote (writeMapHeader (length (kept es)) w) w' (concat (map (\<lambda>(k, x). encStr k @ enc (wireOf p x)) (kept es)))"
    and held: "\<forall>e \<in> set (kept es). fitting p (snd e)" by blast+
  have defined: "wireOf p x \<noteq> UndefV" if "(k, x) \<in> set es" "x \<noteq> UndefV" for k x
    using held that has_defined [of _ p "wireOf p x"] by (fastforce simp: fitting_def)
  have "encEntries (map (\<lambda>(k, x). (k, wireOf p x)) (kept es)) = concat (map (\<lambda>(k, x). encStr k @ enc (wireOf p x)) (kept es))"
    by (rule enc_mapped) (use defined in auto)
  moreover have "kept ?es = ?es" by (rule kept_all) (use defined in auto)
  ultimately have "enc (ObjV ?es) = encHeader (length (kept es)) 0x80 0xde @ concat (map (\<lambda>(k, x). encStr k @ enc (wireOf p x)) (kept es))"
    by simp
  then have wrote: "wrote w w' (enc (ObjV ?es))" using wrote_trans [OF h body] by simp
  have "length (kept es) \<le> length es" by simp
  then have "length (kept es) < 2 ^ 32" "distinct (map fst es)" "\<forall>e \<in> set es. keyFits (fst e)"
    using js by (auto simp: js_ok_def simp del: length_filter_le)
  moreover have "map fst ?es = map fst (kept es)" by (simp add: case_prod_unfold comp_def)
  moreover have d: "distinct (map fst (kept es))" using calculation(2) distinct_map_filter [of fst es] by blast
  ultimately have "has Reject (RecordP p) (ObjV ?es)"
    using held by (auto simp: has.simps fitting_def simp del: map_map)
  moreover have "agrees (RecordP p) v (backOf (RecordP p) (ObjV ?es))" by (rule record_agrees [OF es(1) d held])
  ultimately show "wrote w w' (enc (wireOf (RecordP p) v)) \<and> fitting (RecordP p) v"
    using wrote es(1) by (simp add: wireOf.simps fitting_def)
qed

lemma array_form:
  assumes "writes_form p"
  shows "writes_form (ArrayP p)"
proof (rule writes_formI)
  fix pol path v w w' assume a: "writePlan (ArrayP p) pol path v w = Inr w'" "wr_ok w" "js_ok v"
  then obtain xs where xs: "v = ArrV xs"
      "putItems (replicate (length xs) (writePlan p)) pol path 0 xs (writeArrayHeader (length xs) w) = Inr w'"
    by (auto simp: putArray_def split: jval.splits)
  have h: "wrote w (writeArrayHeader (length xs) w) (encHeader (length xs) 0x90 0xdc)" by (rule header_wrote(2) [OF a(2)])
  have "wrote (writeArrayHeader (length xs) w) w' (concat (map enc (map (wireOf p) xs))) \<and>
      (\<forall>i < length xs. fitting p (xs ! i))"
  proof (rule putItems_form [OF xs(2)])
    show "wr_ok (writeArrayHeader (length xs) w)" using h by (simp add: wrote_def)
    show "wrote u u' (enc (map (wireOf p) xs ! i)) \<and> fitting p (xs ! i)"
      if "i < length xs" "(replicate (length xs) (writePlan p) ! i) pol path (xs ! i) u = Inr u'" "wr_ok u" for i path u u'
      using writes_formD [OF assms _ that(3)] that(1,2) js_ok_members(1) [OF a(3) [unfolded xs(1)], of "xs ! i"] by simp
  qed simp_all
  then show "wrote w w' (enc (wireOf (ArrayP p) v)) \<and> fitting (ArrayP p) v"
    using wrote_trans [OF h] a(3) by (auto simp: xs(1) wireOf.simps has.simps encItems_items js_ok_def in_set_conv_nth in_set_zip
        fitting_def agrees.simps backOf.simps)
qed

lemma tuple_form:
  assumes "\<And>p. p \<in> set ps \<Longrightarrow> writes_form p"
  shows "writes_form (TupleP ps)"
proof (rule writes_formI)
  fix pol path v w w' assume a: "writePlan (TupleP ps) pol path v w = Inr w'" "wr_ok w" "js_ok v"
  then obtain xs where xs: "v = ArrV xs" "length xs = length ps"
      "putItems (map writePlan ps) pol path 0 xs (writeArrayHeader (length xs) w) = Inr w'"
    by (auto simp: putTuple_def split: jval.splits if_splits)
  let ?xs = "map (\<lambda>y. wireOf (fst y) (snd y)) (zip ps xs)"
  have h: "wrote w (writeArrayHeader (length xs) w) (encHeader (length xs) 0x90 0xdc)" by (rule header_wrote(2) [OF a(2)])
  have "wrote (writeArrayHeader (length xs) w) w' (concat (map enc ?xs)) \<and> (\<forall>i < length xs. fitting (ps ! i) (xs ! i))"
  proof (rule putItems_form [OF xs(3)])
    show "wr_ok (writeArrayHeader (length xs) w)" using h by (simp add: wrote_def)
    show "wrote u u' (enc (?xs ! i)) \<and> fitting (ps ! i) (xs ! i)"
      if "i < length xs" "(map writePlan ps ! i) pol path (xs ! i) u = Inr u'" "wr_ok u" for i path u u'
      using writes_formD [OF assms [of "ps ! i"] _ that(3)] that(1,2) xs(2) js_ok_members(1) [OF a(3) [unfolded xs(1)], of "xs ! i"]
      by simp
  qed (use xs(2) in simp_all)
  then show "wrote w w' (enc (wireOf (TupleP ps) v)) \<and> fitting (TupleP ps) v"
    using wrote_trans [OF h] a(3) xs(2) by (auto simp: xs(1) wireOf.simps has.simps encItems_items js_ok_def in_set_zip
        fitting_def agrees.simps backOf.simps)
qed

lemma union_form:
  assumes "\<And>p. p \<in> set (leaves s) \<Longrightarrow> writes_form p" "tells s"
  shows "writes_form (UnionP s)"
proof (rule writes_formI)
  fix pol path v w w' assume a: "writePlan (UnionP s) pol path v w = Inr w'" "wr_ok w" "js_ok v"
  then have "writeSol s pol path v v v w = Inr w'" by simp
  then obtain p where p: "chooseJs s v v = Some p" "writePlan p pol path v w = Inr w'" using writeSol_chooses by blast
  have l: "p \<in> set (leaves s)" by (rule chooseJs_leaf [OF p(1)])
  then have f: "wrote w w' (enc (wireOf p v)) \<and> fitting p v" using writes_formD [OF assms(1) p(2) a(2,3)] by blast
  then have "chooseWire s (wireOf p v) (wireOf p v) = Some p" using assms(2) l by (auto simp: tells_def fitting_def)
  then show "wrote w w' (enc (wireOf (UnionP s) v)) \<and> fitting (UnionP s) v"
    using f p(1) by (simp add: wireOf.simps has.simps fitting_def agrees.simps backOf.simps)
qed

theorem write_form: "plan_ok p \<Longrightarrow> plan_tells p \<Longrightarrow> writes_form p"
proof (induction p rule: plan_tells.induct)
  case (5 s)
  then show ?case using union_form [of s] by (simp add: plan_ok.simps plan_tells.simps)
next
  case (6 p)
  then have "writes_form p" by (simp add: plan_ok.simps plan_tells.simps)
  then show ?case by (simp add: writes_form_def wireOf.simps has.simps fitting_def agrees.simps backOf.simps)
qed (simp_all add: scalar_form json_form literal_form struct_form record_form array_form tuple_form plan_ok.simps plan_tells.simps)


text \<open>So what the walk writes, it reads back as a value that agrees with the one written.\<close>

lemma writeWhole_reads:
  assumes "writeWhole p pol v = Inr bs" "plan_ok p" "plan_tells p" "js_ok v"
  shows "\<exists>u. readWhole p pol' bs = Inr u \<and> agrees p v u"
proof -
  obtain w where w: "writePlan p pol [] v newWriter = Inr w" "bs = written w"
    using assms(1) by (cases "writePlan p pol [] v newWriter") (simp_all add: writeWhole_def)
  have "wrote newWriter w (enc (wireOf p v)) \<and> fitting p v"
    using writes_formD [OF write_form [OF assms(2,3)] w(1) newWriter_ok(1) assms(4)] .
  then have "bs = enc (wireOf p v)" "has Reject p (wireOf p v)" "agrees p v (backOf p (wireOf p v))"
    using w(2) newWriter_ok by (simp_all add: wrote_def fitting_def)
  then show ?thesis using readWhole_form [OF has_mono assms(2), of "wireOf p v" pol' "[]"] by auto
qed

end
