(* ===== verification/RegistryProperties.thy ===== *)
theory RegistryProperties
  imports RegistryTrip
begin

text \<open>
  What the Registry promises (client/ts/src/registry.ts): a value converted to bytes and back agrees with
  itself, a union's member is told by bytes as by value, and fields a plan does not know are left out of
  data and refused in mutations.
\<close>

section \<open>Samples\<close>

definition putP :: plan where
  "putP = StructP [(lit ''put'', StructP [(lit ''n'', StrP, False), (lit ''m'', IntP, True)] (-1), False)] (-1)"

definition delP :: plan where "delP = StructP [(lit ''del'', StrP, False)] (-1)"

definition sampleUnion :: sol where
  "sampleUnion = TypeS [(JT_OBJECT, HasFieldS [(lit ''put'', MatchS putP), (lit ''del'', MatchS delP)])] None"

definition sampleReg :: host_registry where
  "sampleReg = \<lparr>hr_mutations = lit ''Op'', hr_plans = [(lit ''Op'', UnionP sampleUnion)]\<rparr>"

definition sampleJs :: jval where
  "sampleJs = ObjV [(lit ''put'', ObjV [(lit ''n'', StrV (lit ''x'')), (lit ''m'', UndefV)])]"

lemma sample_texts: "keyFits (lit ''put'')" "keyFits (lit ''del'')" "keyFits (lit ''n'')" "keyFits (lit ''m'')" "keyFits (lit ''x'')"
    "keyFits (lit ''z'')"
  by (rule keyFits_small, code_simp)+

lemma sample_differ: "lit ''put'' \<noteq> lit ''del''" "lit ''del'' \<noteq> lit ''put''" "lit ''n'' \<noteq> lit ''m''" "lit ''m'' \<noteq> lit ''n''"
    "lit ''put'' \<noteq> lit ''__proto__''" "lit ''del'' \<noteq> lit ''__proto__''" "lit ''n'' \<noteq> lit ''__proto__''" "lit ''m'' \<noteq> lit ''__proto__''"
    "lit ''z'' \<noteq> lit ''del''" "lit ''Op'' \<noteq> lit ''.json''" "lit ''Op'' \<noteq> lit ''.mutation''" "lit ''Op'' \<noteq> lit ''.edits''"
    "lit ''Op'' \<noteq> lit ''.page''"
  by code_simp+

lemma sample_plan: "plan_ok (UnionP sampleUnion)" "plan_ok putP" "plan_ok delP"
  using sample_texts sample_differ by (simp_all add: plan_ok.simps sampleUnion_def putP_def delP_def)

text \<open>A struct of one required field has just that.\<close>

lemma has_single: "has Reject (StructP [(k, p, False)] first) x \<Longrightarrow> \<exists>y. x = ObjV [(k, y)] \<and> has Reject p y"
proof -
  assume h: "has Reject (StructP [(k, p, False)] first) x"
  then obtain es where x: "x = ObjV es" "distinct (map fst es)" "\<forall>e \<in> set es. fst e = k"
      "\<exists>y. map_of es k = Some y \<and> has Reject p y"
    by (auto simp: has.simps foreign_def split: jval.splits option.splits)
  then obtain e es' where e: "es = e # es'" by (cases es) auto
  then have "es' = []" using x(2,3) by (cases es') auto
  then show ?thesis using x e by (cases e) auto
qed

lemma sample_told: "has Reject putP x \<Longrightarrow> chooseWire sampleUnion x x = Some putP" "has Reject delP x \<Longrightarrow> chooseWire sampleUnion x x = Some delP"
proof -
  have c: "chooseWire sampleUnion (ObjV [(k, y)]) (ObjV [(k, y)]) = (if k = lit ''put'' then Some putP else if k = lit ''del'' then Some delP else None)"
    if "y \<noteq> UndefV" for k y
    using that sample_differ by (simp add: sampleUnion_def wireType_def wireKey_def wireField_def jt_codes)
  show "has Reject putP x \<Longrightarrow> chooseWire sampleUnion x x = Some putP"
    using has_single [of "lit ''put''"] has_defined c unfolding putP_def [symmetric] by (metis putP_def)
  show "has Reject delP x \<Longrightarrow> chooseWire sampleUnion x x = Some delP"
    using has_single [of "lit ''del''"] has_defined c sample_differ unfolding delP_def [symmetric] by (metis delP_def)
qed


lemma sample_leaves: "leaves sampleUnion = [putP, delP]"
  by (simp add: sampleUnion_def)

lemma sample_tells: "plan_tells (UnionP sampleUnion)"
proof -
  have "tells sampleUnion" using sample_told by (simp add: tells_def sample_leaves)
  moreover have "plan_tells putP" "plan_tells delP" by (simp_all add: plan_tells.simps putP_def delP_def)
  ultimately show ?thesis by (simp add: plan_tells.simps sample_leaves)
qed

lemma sample_js: "js_ok sampleJs"
proof -
  have "arrayIndex (lit ''n'') = None" "arrayIndex (lit ''m'') = None" by code_simp+
  then show ?thesis using sample_texts sample_differ by (simp add: js_ok_def sampleJs_def keyBefore_def)
qed

lemma sample_written: "\<exists>bs. convert sampleReg (lit ''Op'') (JsVal (Val sampleJs) :: (js_value, unit) rval) JS MSGPACK = Inr (ByteVal bs)"
  using sample_differ
  by (simp add: convert_def toBytes_def writeWhole_def sampleReg_def policyOf_def sampleUnion_def sampleJs_def putP_def delP_def
      jt_codes pickType_def firstKey_def discriminator_def hasProp_def propOf_def putStruct_def putStr_def putInt_def
      writeOrder_def inheritedNames_def)

section \<open>Conversions\<close>

text \<open>
  C11: what the Registry converts to bytes it converts back to a value that agrees with the one it was
  given, field by field: under a plan whose unions tell their members apart (each member's forms are taken
  for that member), whose keys and literals keep in UTF-8 and none of whose fields is \<open>__proto__\<close>; and for a value
  without an invalid Date or a part that has no form, whose texts keep in UTF-8. A text keeps that is well
  formed, of fewer than 2^32 bytes, and does not begin with U+FEFF if it has more than 200.
\<close>

theorem registry_round_trip:
  assumes "map_of (hr_plans reg) type = Some p" "plan_ok p" "plan_tells p" "js_ok v"
    and "type \<notin> set (map lit [''.page'', ''.json'', ''.mutation'', ''.edits''])"
    and "convert reg type (JsVal (Val v)) JS MSGPACK = Inr (ByteVal bs)"
  shows "\<exists>u. convert reg type (ByteVal bs) MSGPACK JS = Inr (JsVal (Val u)) \<and> agrees p v u"
proof -
  have n: "type \<noteq> lit ''.page''" "type \<noteq> lit ''.json''" "type \<noteq> lit ''.mutation''" "type \<noteq> lit ''.edits''"
    using assms(5) by auto
  have "toBytes reg type (Val v) = Inr bs" using assms(6) n(1) by (cases "toBytes reg type (Val v)") (simp_all add: convert_def)
  then have "writeWhole p (policyOf reg type) v = Inr bs"
    using assms(1) n by (cases "writeWhole p (policyOf reg type) v") (simp_all add: toBytes_def)
  from writeWhole_reads [OF this assms(2-4), of "policyOf reg type"] show ?thesis
    using assms(1) n by (auto simp: convert_def toJs_def)
qed

theorem registry_round_trip_witness:
  "\<exists>bs u. convert sampleReg (lit ''Op'') (ByteVal bs :: (js_value, unit) rval) MSGPACK JS = Inr (JsVal (Val u)) \<and>
    agrees (UnionP sampleUnion) sampleJs u"
proof -
  obtain bs where w: "convert sampleReg (lit ''Op'') (JsVal (Val sampleJs) :: (js_value, unit) rval) JS MSGPACK = Inr (ByteVal bs)"
    using sample_written by blast
  have "map_of (hr_plans sampleReg) (lit ''Op'') = Some (UnionP sampleUnion)" by (simp add: sampleReg_def)
  from registry_round_trip [OF this sample_plan(1) sample_tells sample_js _ w] show ?thesis using sample_differ by fastforce
qed

text \<open>
  C12: looking ahead in bytes is looking into the value: the walk reads a union's value as the member that
  the same decision chooses over the value itself, for values and decisions whose keys and texts keep in UTF-8.
\<close>

theorem union_told_by_bytes:
  assumes "chooseWire s x x = Some p" "sol_keys_ok s" "wire_ok x" "rd_ok r" "unread r = enc x @ rest"
  shows "readPlan (UnionP s) pol path r = readPlan p pol path r"
  using readSol_chooses [OF assms(2,1,3,3) sits_here [OF assms(4,5)] sits_here [OF assms(4,5)]] by simp

theorem union_told_by_bytes_witness:
  "readPlan (UnionP sampleUnion) Reject [] (newReader (enc (ObjV [(lit ''del'', StrV (lit ''x''))]))) =
    readPlan delP Reject [] (newReader (enc (ObjV [(lit ''del'', StrV (lit ''x''))])))"
proof (rule union_told_by_bytes)
  have "has Reject delP (ObjV [(lit ''del'', StrV (lit ''x''))])"
    using sample_texts by (simp add: has.simps delP_def)
  then show "chooseWire sampleUnion (ObjV [(lit ''del'', StrV (lit ''x''))]) (ObjV [(lit ''del'', StrV (lit ''x''))]) = Some delP"
    by (rule sample_told(2))
  show "sol_keys_ok sampleUnion" using sample_plan(1) by (simp add: plan_ok.simps)
  show "wire_ok (ObjV [(lit ''del'', StrV (lit ''x''))])" using sample_texts by simp
  show "unread (newReader (enc (ObjV [(lit ''del'', StrV (lit ''x''))]))) = enc (ObjV [(lit ''del'', StrV (lit ''x''))]) @ []"
    by simp
qed simp

text \<open>
  C13: data of a newer schema is read under an older one: in what is no mutation, fields a struct does not
  declare are stepped over, at any depth, and what the plan declares is read; bytes after the value are an
  error. The plan's keys and literals keep in UTF-8, and the value is a form of the plan's but for those fields.
\<close>

theorem newer_fields_left_out:
  assumes "has Drop p x" "plan_ok p"
  shows "readWhole p Drop (enc x @ rest) = (if rest = [] then Inr (backOf p x) else Inl (Failed [] TrailingValue))"
  using assms by (rule readWhole_form)

theorem newer_fields_left_out_witness:
  "readWhole delP Drop (enc (ObjV [(lit ''z'', ArrV [NullV]), (lit ''del'', StrV (lit ''x''))]) @ []) =
    Inr (ObjV [(lit ''del'', StrV (lit ''x''))])"
proof -
  let ?x = "ObjV [(lit ''z'', ArrV [NullV]), (lit ''del'', StrV (lit ''x''))]"
  have "has Drop delP ?x" using sample_texts sample_differ by (simp add: has.simps delP_def foreign_def)
  then have "readWhole delP Drop (enc ?x @ []) = Inr (backOf delP ?x)"
    using newer_fields_left_out [of delP ?x "[]"] sample_plan(3) by simp
  moreover have "arrayIndex (lit ''del'') = None" by code_simp
  then have "backOf delP ?x = ObjV [(lit ''del'', StrV (lit ''x''))]"
    using sample_differ by (simp add: delP_def backOf.simps List.map_filter_simps props_def setEntry_def)
  ultimately show ?thesis by metis
qed

text \<open>The part of an outbox row between its id and its data.\<close>

definition numbering :: "mutation_row \<Rightarrow> bytes" where
  "numbering m = (case mr_numbered m of None \<Rightarrow> [0xc0, 0xc0] | Some (series, k) \<Rightarrow> encStr series @ encInt k)"

definition readNumbering :: "reader \<Rightarrow> convert_error + ((jsstr \<times> int) option \<times> reader)" where
  "readNumbering r2 =
     andThen (wired (tryNil r2)) (\<lambda>(null, r3).
     if null then andThen (wired (nil r3)) (\<lambda>r4. Inr (None, r4))
     else andThen (wired (str r3)) (\<lambda>(series, r4).
       andThen (wired (int_value r4)) (\<lambda>(k, r5). Inr (Some (series, k), r5))))"

lemma readMutation_numbering:
  "readMutation bs =
     andThen (wired (arrayHeader (newReader bs))) (\<lambda>(n, r1).
     if n \<noteq> 4 then Inl MalformedRow else
     andThen (wired (str r1)) (\<lambda>(ident, r2).
     andThen (readNumbering r2) (\<lambda>(numbered, r5).
     andThen (wired (view r5)) (\<lambda>(data, r6).
     if \<not> done_reader r6 then Inl MalformedRow
     else Inr \<lparr>mr_id = ident, mr_numbered = numbered, mr_data = data\<rparr>))))"
  unfolding readMutation_def readNumbering_def
  by (intro arg_cong2 [where f = andThen] refl ext) (auto simp: andThen_def split: sum.splits)

lemma past: "rd_ok r \<Longrightarrow> unread r = bs @ rest \<Longrightarrow> rd_ok (advanceBy (length bs) r) \<and> unread (advanceBy (length bs) r) = rest"
  by (simp add: rd_ok_advanceBy unread_advanceBy)

lemma reads_numbering:
  assumes "\<forall>(series, k) \<in> set_option (mr_numbered m). keyFits series \<and> \<bar>k\<bar> < 2 ^ 53"
  shows "reads readNumbering (numbering m) (mr_numbered m)"
proof (rule readsI)
  fix r rest assume r: "rd_ok r" "unread r = numbering m @ rest"
  show "readNumbering r = Inr (mr_numbered m, advanceBy (length (numbering m)) r)"
  proof (cases "mr_numbered m")
    case None
    have a: "tryNil r = Inr (True, advanceBy 1 r)" using readsD [OF reads_tryNil r(1)] r(2) None by (simp add: numbering_def)
    have b: "rd_ok (advanceBy 1 r)" "unread (advanceBy 1 r) = [0xc0] @ rest"
      using past [OF r(1), of "[0xc0]" "0xc0 # rest"] r(2) None by (simp_all add: numbering_def)
    have "nil (advanceBy 1 r) = Inr (advanceBy 2 r)"
      using readsD [OF reads_nil [where v = "()"] b] by (cases "nil (advanceBy 1 r)") (simp_all add: numeral_2_eq_2)
    then show ?thesis using a None by (simp add: readNumbering_def numbering_def numeral_2_eq_2)
  next
    case (Some p)
    obtain series k where p: "p = (series, k)" by (cases p)
    have fits: "keyFits series" "\<bar>k\<bar> < 2 ^ 53" using assms Some p by auto
    have u: "unread r = encStr series @ encInt k @ rest" using r(2) Some p by (simp add: numbering_def)
    have "need 1 r = Inr ()" "kindOf (here r) = Some StrK" using starts_here [OF starts_str r(1) u] by simp_all
    then have a: "tryNil r = Inr (False, r)" by (auto simp: tryNil_def kindOf_def)
    have b: "str r = Inr (series, advanceBy (length (encStr series)) r)" using readsD [OF reads_str r(1) u] fits by simp
    have c: "rd_ok (advanceBy (length (encStr series)) r)" "unread (advanceBy (length (encStr series)) r) = encInt k @ rest"
      using past [OF r(1) u] by blast+
    show ?thesis using a b readsD [OF reads_int c] fits Some p by (simp add: readNumbering_def numbering_def)
  qed
qed

lemma writeMutation_bytes: "writeMutation m = encHeader 4 0x90 0xdc @ encStr (mr_id m) @ numbering m @ mr_data m"
proof -
  let ?w = "writeStr (mr_id m) (writeArrayHeader 4 newWriter)"
  have w: "wr_ok ?w" "written ?w = encHeader 4 0x90 0xdc @ encStr (mr_id m)"
    using appendsD [OF appends_writeHeader newWriter_ok(1)] appendsD [OF appends_writeStr] by (simp_all add: writeArrayHeader_def)
  show ?thesis
  proof (cases "mr_numbered m")
    case None
    then show ?thesis using w appendsD [OF appends_writeNil] appendsD [OF appends_writeRaw]
      by (simp add: writeMutation_def numbering_def Let_def)
  next
    case (Some p)
    then show ?thesis using w appendsD [OF appends_writeStr] appendsD [OF appends_writeInt] appendsD [OF appends_writeRaw]
      by (cases p) (simp add: writeMutation_def numbering_def Let_def)
  qed
qed

text \<open>
  C39: an outbox row is read back as it was written, its id and series being texts that keep in UTF-8, its
  number a safe integer and its data the bytes of one value.
\<close>

theorem outbox_row_round_trip:
  assumes "keyFits (mr_id m)" "value_bytes (mr_data m)"
    and "\<forall>(series, k) \<in> set_option (mr_numbered m). keyFits series \<and> \<bar>k\<bar> < 2 ^ 53"
  shows "readMutation (writeMutation m) = Inr m"
proof -
  let ?n = "numbering m" and ?h = "encHeader 4 0x90 0xdc" and ?i = "encStr (mr_id m)"
  define r where "r = newReader (?h @ ?i @ ?n @ mr_data m)"
  have ok: "rd_ok r" "unread r = ?h @ ?i @ ?n @ mr_data m" by (simp_all add: r_def)
  have head: "arrayHeader r = Inr (4, advanceBy (length ?h) r)" using readsD [OF reads_arrayHeader ok] by simp
  let ?r1 = "advanceBy (length ?h) r" let ?r2 = "advanceBy (length ?i) ?r1"
  have r1: "rd_ok ?r1" "unread ?r1 = ?i @ ?n @ mr_data m" using past [OF ok] by blast+
  have ident: "str ?r1 = Inr (mr_id m, ?r2)" using readsD [OF reads_str r1] assms(1) by simp
  have r2: "rd_ok ?r2" "unread ?r2 = ?n @ mr_data m" using past [OF r1] by blast+
  obtain r3 where num: "readNumbering ?r2 = Inr (mr_numbered m, r3)" and r3: "r3 = advanceBy (length ?n) ?r2"
    using readsD [OF reads_numbering [OF assms(3)] r2] by blast
  have r3': "rd_ok r3" "unread r3 = mr_data m @ []" using past [OF r2] r3 by simp_all
  have data: "view r3 = Inr (mr_data m, advanceBy (length (mr_data m)) r3)" using readsD [OF reads_view [OF assms(2)] r3'] .
  have "done_reader (advanceBy (length (mr_data m)) r3)"
    by (simp add: r3 r_def done_reader_def newReader_def advanceBy_def)
  moreover have "writeMutation m = ?h @ ?i @ ?n @ mr_data m" by (rule writeMutation_bytes)
  ultimately show ?thesis using head ident num data
    by (simp add: readMutation_numbering r_def)
qed

definition sampleRow :: mutation_row where
  "sampleRow = \<lparr>mr_id = lit ''x'', mr_numbered = Some (lit ''n'', 7), mr_data = enc NullV\<rparr>"

theorem outbox_row_round_trip_witness: "readMutation (writeMutation sampleRow) = Inr sampleRow"
proof (rule outbox_row_round_trip)
  show "keyFits (mr_id sampleRow)" using sample_texts by (simp add: sampleRow_def)
  show "value_bytes (mr_data sampleRow)" using wire_value [of NullV] by (simp add: sampleRow_def)
  show "\<forall>(series, k) \<in> set_option (mr_numbered sampleRow). keyFits series \<and> \<bar>k\<bar> < 2 ^ 53"
    using sample_texts by (simp add: sampleRow_def)
qed

text \<open>No plan writes a value that has no form.\<close>

lemma option_chosen: "map_of (map (\<lambda>(c, s). (c, f s)) opts) c = Some go \<Longrightarrow> \<exists>s. (c, s) \<in> set opts \<and> go = f s"
  by (auto dest!: map_of_SomeD)

lemma noForm_writes: "\<exists>err. writeAny NoFormV d w = Inl err" "\<not> sameLit NoFormV l"
  by (simp_all add: writeAny.simps sameLit_def split: lit.split)

lemma noForm_refused:
  "\<exists>err. writePlan p pol path NoFormV w = Inl err" "\<exists>err. writeSol s pol path obj subj NoFormV w = Inl err"
proof (induction p and s arbitrary: path w and obj subj path w rule: writePlan_writeSol.induct)
  case (15 opts any)
  show ?case
  proof (cases "pickType (map (\<lambda>(c, s). (c, writeSol s)) opts) (jsTypeOf subj)")
    case None
    then show ?thesis using 15(2) [OF None] by (auto split: option.split)
  next
    case (Some go)
    then obtain c s where "(c, s) \<in> set opts" "go = writeSol s"
      by (auto simp: pickType_def dest!: option_chosen split: option.splits)
    then show ?thesis using 15(1) Some by auto
  qed
next
  case (16 opts)
  have "\<exists>err. (map (\<lambda>(l, s). writeSol s) opts ! i) pol path obj subj NoFormV w = Inl err"
    if i: "litIndex (map fst opts) subj = Some i" for i
  proof -
    have l: "i < length opts" using litIndex_bound [OF i] by simp
    then have "(fst (opts ! i), snd (opts ! i)) \<in> set opts" by simp
    from 16 [OF i this refl] show ?thesis using l by (simp add: case_prod_beta)
  qed
  then show ?case by (auto split: option.split)
next
  case (17 opts dflt)
  then show ?case by (cases subj) (auto dest!: option_chosen split: option.split)
next
  case (19 key s)
  then show ?case by (auto simp: Let_def)
next
  case (20 opts)
  have "\<exists>err. (map (\<lambda>(k, s). writeSol s) opts ! i) pol path obj obj NoFormV w = Inl err"
    if i: "firstKey (map fst opts) obj = Some i" for i
  proof -
    have l: "i < length opts" using i by (auto simp: firstKey_def find_Some_iff)
    then have "(fst (opts ! i), snd (opts ! i)) \<in> set opts" by simp
    from 20 [OF i this refl] show ?thesis using l by (simp add: case_prod_beta)
  qed
  then show ?case by (auto split: option.split)
qed (auto simp: putNull_def putInt_def putStr_def putBool_def putDate_def putJson_def putLiteral_def putStruct_def
    putRecord_def putArray_def putTuple_def attempt_def noForm_writes(2) split: jval.split, metis map_sum.simps(1) noForm_writes(1))

lemma putFields_refused:
  assumes "f \<in> set order" "propOf es (fst (fs ! f)) = NoFormV"
    and "\<And>path w. \<exists>err. fst (snd (fs ! f)) pol path NoFormV w = Inl err"
  shows "\<exists>err. putFields fs pol path es order w = Inl err"
  using assms(1)
proof (induction order arbitrary: w)
  case (Cons g order)
  show ?case
  proof (cases "g = f")
    case True
    then show ?thesis using assms(2,3) by (auto simp: Let_def) (metis andThen_Inl)
  next
    case False
    then have IH: "\<exists>err. putFields fs pol path es order v = Inl err" for v using Cons by simp
    show ?thesis using IH
      by (cases "fst (snd (fs ! g)) pol (path @ [Key (fst (fs ! g))]) (propOf es (fst (fs ! g))) (writeStr (fst (fs ! g)) w)")
        (auto simp: Let_def)
  qed
qed simp

text \<open>
  C40: an optional field named like a property that every object inherits cannot be left out. Whatever the
  field's plan, the struct's other fields, the policy and where the struct is, the walk finds the
  inherited function in the field's place and refuses every object that does not hold the field itself.
\<close>

theorem inherited_name_refused:
  assumes "(k, p, True) \<in> set fs" "k \<in> set inheritedNames" "k \<notin> fst ` set es" "first < int (length fs)"
  shows "\<exists>err. writePlan (StructP fs first) pol path (ObjV es) w = Inl err"
proof -
  obtain f where f: "f < length fs" "fs ! f = (k, p, True)" using assms(1) by (auto simp: in_set_conv_nth)
  define ws where "ws = map (\<lambda>(key, p, opt). (key, writePlan p, opt)) fs"
  have w: "ws ! f = (k, writePlan p, True)" using f by (simp add: ws_def)
  have "map_of es k = None" using assms(3) by (simp add: map_of_eq_None_iff)
  then have "propOf es k = NoFormV" using assms(2) by (simp add: propOf_def)
  moreover have "f \<in> set (writeOrder (length ws) first)"
    using writeOrder_props(2) [of first "length ws"] assms(4) f(1) by (simp add: ws_def)
  ultimately have "\<exists>err. putFields ws pol path es (writeOrder (length ws) first) v = Inl err" for v
    using w noForm_refused(1) by (intro putFields_refused [where f = f]) auto
  then show ?thesis by (auto simp: putStruct_def Let_def ws_def [symmetric])
qed

theorem inherited_name_refused_witness:
  "\<exists>err. writePlan (StructP [(lit ''n'', IntP, False), (lit ''constructor'', BoolP, True)] (-1)) Drop []
     (ObjV [(lit ''n'', NumV (IntN 3))]) newWriter = Inl err"
  by (rule inherited_name_refused [where k = "lit ''constructor''" and p = BoolP]) (simp_all add: inheritedNames_def)

end
