(* ===== verification/Reads.thy ===== *)
theory Reads
  imports StoreScan
begin

text \<open>
  The read half of a transaction as an interface (typespec/ts/assets/skeleton.ts, \<open>RTxn\<close>), and what a
  walk in batches may rely on: each batch is a stretch of the walk, from where the one before ended up
  to its \<open>next\<close>, or to the walk's end. A batch may hold fewer entries than it was asked for and still
  not be the last. The in-memory transaction keeps this contract.
\<close>

section \<open>The interface\<close>

text \<open>Reads thread the transaction's state, where they decode values in place; \<open>None\<close> is a scan that never ends.\<close>

type_synonym ('js, 'host) entry = "jsstr \<times> ('js, 'host) rval option"

record ('b, 'js, 'host) rtxn =
  rt_get :: "jsstr \<Rightarrow> jsstr \<Rightarrow> rep \<Rightarrow> 'b \<Rightarrow> (store_error + ('js, 'host) rval option) \<times> 'b"
  rt_scan :: "scan_request \<Rightarrow> 'b \<Rightarrow> ((store_error + ('js, 'host) entry list \<times> jsstr option) \<times> 'b) option"

definition memReads :: "bool \<Rightarrow> ('js, 'host) registry \<Rightarrow> ('js mem_txn, 'js, 'host) rtxn" where
  "memReads DEV reg =
     \<lparr>rt_get = (\<lambda>key type rep t. mtOut DEV reg t key type rep), rt_scan = (\<lambda>req t. mtScan DEV reg t req)\<rparr>"

section \<open>The contract of a scan\<close>

text \<open>The walk of a request over keys, and the entries that a value for each key makes of it.\<close>

definition walkFrom :: "compiled_pattern \<Rightarrow> bool \<Rightarrow> jsstr option \<Rightarrow> jsstr list \<Rightarrow> jsstr list" where
  "walkFrom c r after keys = walk_keys c r after (walk_every r keys)"

definition pickEntries :: "(jsstr \<Rightarrow> 'v option) \<Rightarrow> jsstr list \<Rightarrow> (jsstr \<times> 'v) list" where
  "pickEntries val ks = List.map_filter (\<lambda>k. map_option (Pair k) (val k)) ks"

lemma pickEntries_simps [simp]:
  "pickEntries val [] = []"
  "pickEntries val (k # ks) = (case val k of None \<Rightarrow> [] | Some v \<Rightarrow> [(k, v)]) @ pickEntries val ks"
  "pickEntries val (xs @ ys) = pickEntries val xs @ pickEntries val ys"
  by (simp_all add: pickEntries_def List.map_filter_simps List.map_filter_def split: option.split)

text \<open>A request that a template's scan may make.\<close>

definition askable :: "compiled_pattern \<Rightarrow> scan_request \<Rightarrow> bool" where
  "askable c req \<longleftrightarrow> compilePattern (sr_pattern req) = Inr c \<and> name_ok (sr_pattern req) \<and>
     (sr_reverse req \<longrightarrow> bounds_ok (cp_fields c)) \<and> 1 \<le> sr_limit req \<and>
     (\<forall>a \<in> set_option (sr_after req). prefix (cp_head c) a) \<and>
     (sr_values req \<noteq> None \<longrightarrow> kp_name (sr_pattern req) \<noteq> None)"

definition passes :: "bool \<Rightarrow> jsstr option \<Rightarrow> jsstr \<Rightarrow> bool" where
  "passes r after k \<longleftrightarrow> (case after of None \<Rightarrow> True | Some a \<Rightarrow> walks r a k)"

definition tile :: "compiled_pattern \<Rightarrow> scan_request \<Rightarrow> jsstr list \<Rightarrow> (jsstr \<Rightarrow> 'v option) \<Rightarrow>
    (jsstr \<times> 'v) list \<Rightarrow> jsstr option \<Rightarrow> bool" where
  "tile c req keys val es next' \<longleftrightarrow>
     (let W = walkFrom c (sr_reverse req) (sr_after req) keys in
      case next' of
        None \<Rightarrow> es = pickEntries val W
      | Some k \<Rightarrow> es = pickEntries val (filter (\<lambda>x. \<not> walks (sr_reverse req) k x) W) \<and>
          prefix (cp_head c) k \<and> passes (sr_reverse req) (sr_after req) k)"

lemma askable_after: "askable c req \<Longrightarrow> prefix (cp_head c) k \<Longrightarrow> askable c (req\<lparr>sr_after := Some k\<rparr>)"
  by (simp add: askable_def)

lemma askable_limit: "askable c req \<Longrightarrow> 1 \<le> n \<Longrightarrow> askable c (req\<lparr>sr_limit := n\<rparr>)"
  by (simp add: askable_def)

lemma walkFrom_passes:
  assumes "ascending keys"
  shows "walkFrom c r after keys = filter (\<lambda>k. passes r after k \<and> matchesPattern c k) (walk_every r keys)"
proof (cases after)
  case None
  then show ?thesis by (simp add: walkFrom_def walk_keys_def passes_def seekList_def)
next
  case (Some a)
  then show ?thesis
    by (simp add: walkFrom_def walk_keys_def seekList_after [OF walk_every_sorted [OF assms]] passes_def conj_commute)
qed

lemma passes_trans: "passes r after a \<Longrightarrow> walks r a k \<Longrightarrow> passes r after k"
  by (cases after) (auto simp: passes_def intro: walks_trans)

lemma walkFrom_next:
  assumes "ascending keys" "passes r after k"
  shows "walkFrom c r (Some k) keys = filter (walks r k) (walkFrom c r after keys)"
  unfolding walkFrom_passes [OF assms(1)] filter_filter
  using passes_trans [OF assms(2)] by (intro filter_cong refl) (auto simp: passes_def)

lemma sorted_split:
  assumes "sorted_wrt (walks r) xs"
  shows "filter (\<lambda>x. \<not> walks r k x) xs @ filter (walks r k) xs = xs"
  using assms
proof (induction xs)
  case (Cons x xs)
  show ?case
  proof (cases "walks r k x")
    case True
    then have "walks r k y" if "y \<in> set xs" for y using Cons.prems that walks_trans by auto
    then have "filter (\<lambda>x. \<not> walks r k x) xs = []" "filter (walks r k) xs = xs" by (auto simp: filter_empty_conv filter_id_conv)
    then show ?thesis using True by simp
  qed (use Cons in auto)
qed simp

text \<open>The first entries of a sorted list are those not past the last of them.\<close>

lemma sorted_take_filter:
  assumes "sorted_wrt (walks r) xs" "i < length xs"
  shows "filter (\<lambda>x. \<not> walks r (xs ! i) x) xs = take (Suc i) xs"
proof -
  have "drop (Suc i) xs = filter (walks r (xs ! i)) xs"
    by (rule sorted_drop_filter [OF assms]) (simp_all add: walks_facts)
  then have "take (Suc i) xs @ filter (walks r (xs ! i)) xs = filter (\<lambda>x. \<not> walks r (xs ! i) x) xs @ filter (walks r (xs ! i)) xs"
    using append_take_drop_id [of "Suc i" xs] sorted_split [OF assms(1)] by simp
  then show ?thesis by simp
qed

lemma walkFrom_sorted: "ascending keys \<Longrightarrow> sorted_wrt (walks r) (walkFrom c r after keys)"
  using walk_every_sorted by (simp add: walkFrom_passes sorted_wrt_filter)

text \<open>A batch and the walk on from it are the whole walk.\<close>

lemma tile_next:
  assumes "ascending keys" "tile c req keys val es (Some k)"
  shows "es @ pickEntries val (walkFrom c (sr_reverse req) (Some k) keys) =
    pickEntries val (walkFrom c (sr_reverse req) (sr_after req) keys)"
proof -
  let ?W = "walkFrom c (sr_reverse req) (sr_after req) keys"
  have "es = pickEntries val (filter (\<lambda>x. \<not> walks (sr_reverse req) k x) ?W)" "passes (sr_reverse req) (sr_after req) k"
    using assms(2) by (simp_all add: tile_def)
  then show ?thesis using walkFrom_next [OF assms(1)] sorted_split [OF walkFrom_sorted [OF assms(1)]]
    by (simp only: pickEntries_simps(3) [symmetric])
qed

text \<open>
  The law: over a state of keys \<open>live\<close> whose values, for what a request asks, are \<open>val\<close>, a scan is a
  stretch of the walk, of keys alone all of it; it leaves the keys, the values and whatever else \<open>shape\<close>
  holds of the state as they were; and it ends at one of finitely
  many places.
\<close>

locale tiled =
  fixes scan :: "scan_request \<Rightarrow> 'b \<Rightarrow> ((store_error + (jsstr \<times> 'v) list \<times> jsstr option) \<times> 'b) option"
    and ok :: "compiled_pattern \<Rightarrow> (jsstr \<times> rep) option \<Rightarrow> 'b \<Rightarrow> bool"
    and live :: "'b \<Rightarrow> jsstr list"
    and stops :: "'b \<Rightarrow> jsstr set"
    and val :: "(jsstr \<times> rep) option \<Rightarrow> 'b \<Rightarrow> jsstr \<Rightarrow> 'v option"
    and shape :: "'b \<Rightarrow> 's"
  assumes live_ascending: "ok c v b \<Longrightarrow> ascending (live b)"
    and stops_finite: "ok c v b \<Longrightarrow> finite (stops b)"
    and keys_shown: "ok c None b \<Longrightarrow> k \<in> set (live b) \<Longrightarrow> val None b k \<noteq> None"
    and scan_tile: "ok c (sr_values req) b \<Longrightarrow> askable c req \<Longrightarrow>
      \<exists>es next' b'. scan req b = Some (Inr (es, next'), b') \<and> tile c req (live b) (val (sr_values req) b) es next' \<and>
        set_option next' \<subseteq> stops b \<and> ok c (sr_values req) b' \<and> live b' = live b \<and> stops b' = stops b \<and>
        val (sr_values req) b' = val (sr_values req) b \<and> shape b' = shape b"
begin

text \<open>So the loop over the batches ends, with the entries of the whole walk.\<close>

lemma scanAll_walk:
  assumes "askable c req"
  shows "ok c (sr_values req) b \<Longrightarrow> askable c (req\<lparr>sr_after := after\<rparr>) \<Longrightarrow>
    \<exists>b'. scanAllLoop (\<lambda>b after. scan (req\<lparr>sr_after := after\<rparr>) b) b after all =
      Some (Inr (all @ pickEntries (val (sr_values req) b) (walkFrom c (sr_reverse req) after (live b))), b') \<and>
      ok c (sr_values req) b' \<and> live b' = live b \<and> stops b' = stops b \<and> val (sr_values req) b' = val (sr_values req) b \<and>
      shape b' = shape b"
proof (induction "card {k \<in> stops b. passes (sr_reverse req) after k}" arbitrary: b after all rule: less_induct)
  case less
  let ?req = "req\<lparr>sr_after := after\<rparr>" and ?r = "sr_reverse req"
  obtain es next' b1 where s: "scan ?req b = Some (Inr (es, next'), b1)"
      and t: "tile c ?req (live b) (val (sr_values req) b) es next'" and n: "set_option next' \<subseteq> stops b"
      and b1: "ok c (sr_values req) b1" "live b1 = live b" "stops b1 = stops b" "val (sr_values req) b1 = val (sr_values req) b" "shape b1 = shape b"
    using scan_tile [of c ?req b] less.prems by auto
  show ?case
  proof (cases next')
    case None
    then show ?thesis using s t b1 by (subst scanAllLoop.simps) (simp add: tile_def)
  next
    case (Some k)
    have k: "passes ?r after k" "prefix (cp_head c) k" using t Some by (simp_all add: tile_def)
    have "{x \<in> stops b. passes ?r (Some k) x} \<subset> {x \<in> stops b. passes ?r after x}"
    proof (rule psubsetI)
      show "{x \<in> stops b. passes ?r (Some k) x} \<subseteq> {x \<in> stops b. passes ?r after x}"
        using passes_trans [OF k(1)] by (auto simp: passes_def)
      have "k \<in> {x \<in> stops b. passes ?r after x}" "k \<notin> {x \<in> stops b. passes ?r (Some k) x}"
        using n Some k(1) walks_facts(1) by (auto simp: passes_def)
      then show "{x \<in> stops b. passes ?r (Some k) x} \<noteq> {x \<in> stops b. passes ?r after x}" by blast
    qed
    then have small: "card {x \<in> stops b1. passes ?r (Some k) x} < card {x \<in> stops b. passes ?r after x}"
      unfolding b1(3) using stops_finite [OF less.prems(1)] by (intro psubset_card_mono) auto
    have a: "askable c (req\<lparr>sr_after := Some k\<rparr>)" by (rule askable_after [OF assms k(2)])
    from less.hyps [OF small b1(1) a, of "all @ es"] obtain b' where rec:
        "scanAllLoop (\<lambda>b after. scan (req\<lparr>sr_after := after\<rparr>) b) b1 (Some k) (all @ es) =
          Some (Inr ((all @ es) @ pickEntries (val (sr_values req) b) (walkFrom c ?r (Some k) (live b))), b')"
        "ok c (sr_values req) b'" "live b' = live b" "stops b' = stops b" "val (sr_values req) b' = val (sr_values req) b" "shape b' = shape b"
      unfolding b1 by blast
    have "es @ pickEntries (val (sr_values req) b) (walkFrom c ?r (Some k) (live b)) =
        pickEntries (val (sr_values req) b) (walkFrom c ?r after (live b))"
      using tile_next [OF live_ascending [OF less.prems(1)] t [unfolded Some]] by simp
    then show ?thesis using s rec Some by (subst scanAllLoop.simps) simp
  qed
qed

end

text \<open>
  Where every key a request picks out has a value, a batch is cut short nowhere but at its limit: its
  \<open>next\<close> is its last entry's key where it is full, and the walk's end where it is not.
\<close>

locale paged = tiled scan ok live stops val shape
  for scan :: "scan_request \<Rightarrow> 'b \<Rightarrow> ((store_error + (jsstr \<times> 'v) list \<times> jsstr option) \<times> 'b) option"
    and ok :: "compiled_pattern \<Rightarrow> (jsstr \<times> rep) option \<Rightarrow> 'b \<Rightarrow> bool"
    and live :: "'b \<Rightarrow> jsstr list"
    and stops :: "'b \<Rightarrow> jsstr set"
    and val :: "(jsstr \<times> rep) option \<Rightarrow> 'b \<Rightarrow> jsstr \<Rightarrow> 'v option"
    and shape :: "'b \<Rightarrow> 's" +
  fixes solid :: "compiled_pattern \<Rightarrow> (jsstr \<times> rep) option \<Rightarrow> 'b \<Rightarrow> bool"
  assumes next_last: "ok c (sr_values req) b \<Longrightarrow> solid c (sr_values req) b \<Longrightarrow> askable c req \<Longrightarrow>
      scan req b = Some (Inr (es, next'), b') \<Longrightarrow>
      length es \<le> sr_limit req \<and> next' = (if length es = sr_limit req then Some (fst (last es)) else None)"
begin

lemma scan_page:
  assumes "ok c (sr_values req) b" "solid c (sr_values req) b" and a: "askable c req"
    and E: "E = pickEntries (val (sr_values req) b) (walkFrom c (sr_reverse req) (sr_after req) (live b))"
  shows "\<exists>b'. scan req b = Some (Inr (take (sr_limit req) E,
      if sr_limit req \<le> length E then Some (fst (E ! (sr_limit req - 1))) else None), b') \<and>
    ok c (sr_values req) b' \<and> live b' = live b \<and> val (sr_values req) b' = val (sr_values req) b \<and> shape b' = shape b"
proof -
  obtain es n b' where s: "scan req b = Some (Inr (es, n), b')" and t: "tile c req (live b) (val (sr_values req) b) es n"
      and b': "ok c (sr_values req) b'" "live b' = live b" "val (sr_values req) b' = val (sr_values req) b" "shape b' = shape b"
    using scan_tile [OF assms(1) a] by blast
  have n: "length es \<le> sr_limit req" "n = (if length es = sr_limit req then Some (fst (last es)) else None)"
    using next_last [OF assms(1,2) a s] by auto
  have "es = take (sr_limit req) E \<and> n = (if sr_limit req \<le> length E then Some (fst (E ! (sr_limit req - 1))) else None)"
  proof (cases n)
    case None
    then have "es = E" using t by (simp add: tile_def E)
    then show ?thesis using n None by (auto split: if_splits)
  next
    case (Some k)
    then have len: "length es = sr_limit req" "k = fst (last es)" using n by (auto split: if_splits)
    have "E = es @ pickEntries (val (sr_values req) b) (walkFrom c (sr_reverse req) (Some k) (live b))"
      using tile_next [OF live_ascending [OF assms(1)] t [unfolded Some]] by (simp add: E)
    moreover have "es \<noteq> []" "sr_limit req - 1 < sr_limit req" using len(1) a by (auto simp: askable_def)
    ultimately show ?thesis using Some len by (simp add: nth_append last_conv_nth)
  qed
  then show ?thesis using s b' by simp
qed

end

section \<open>The in-memory transaction\<close>

text \<open>A production read of a JS value, which bytes that do not decode have none of.\<close>

definition memJs :: "('js, 'host) registry \<Rightarrow> jsstr \<Rightarrow> 'js cell option \<Rightarrow> 'js option" where
  "memJs reg type cell =
     (case cell of
        None \<Rightarrow> None
      | Some (Plain js) \<Rightarrow> Some js
      | Some (Packed bs) \<Rightarrow> (case reg_js reg type (ByteVal bs) of Inl _ \<Rightarrow> None | Inr js \<Rightarrow> Some js))"

text \<open>The keys of a template have one type, which every read of them asks for; \<open>tyof\<close> is a key's type.\<close>

definition memVal ::
  "('js, 'host) registry \<Rightarrow> (jsstr \<Rightarrow> jsstr) \<Rightarrow> (jsstr \<times> rep) option \<Rightarrow> 'js mem_txn \<Rightarrow> jsstr \<Rightarrow> ('js, 'host) rval option option"
where
  "memVal reg tyof v t k =
     (if v = None then Some None else map_option (\<lambda>js. Some (JsVal js)) (memJs reg (tyof k) (mtLive t k)))"

definition memReadable :: "bool \<Rightarrow> (jsstr \<Rightarrow> jsstr) \<Rightarrow> compiled_pattern \<Rightarrow> (jsstr \<times> rep) option \<Rightarrow> bool" where
  "memReadable DEV tyof c v \<longleftrightarrow> v = None \<or> \<not> DEV \<and>
     (\<exists>type. v = Some (type, JS) \<and> type \<notin> set RAW_TYPES \<and> (\<forall>k. matchesPattern c k \<longrightarrow> tyof k = type))"

definition memOk :: "bool \<Rightarrow> (jsstr \<Rightarrow> jsstr) \<Rightarrow> compiled_pattern \<Rightarrow> (jsstr \<times> rep) option \<Rightarrow> 'js mem_txn \<Rightarrow> bool" where
  "memOk DEV tyof c v t \<longleftrightarrow> mem_ok t \<and> (\<forall>k \<in> set (liveKeys t). key_rule c k) \<and> memReadable DEV tyof c v"

definition memShape :: "('js, 'host) registry \<Rightarrow> (jsstr \<Rightarrow> jsstr) \<Rightarrow> 'js mem_txn \<Rightarrow> bool \<times> jsstr list \<times> (jsstr \<Rightarrow> 'js option)" where
  "memShape reg tyof t = (mem_ok t, liveKeys t, \<lambda>k. memJs reg (tyof k) (mtLive t k))"

text \<open>A production read of a JS value does not fail, and changes nothing that another such read sees.\<close>

lemma mtOut_js:
  assumes "type \<notin> set RAW_TYPES"
  shows "fst (mtOut False reg t k type JS) = Inr (map_option JsVal (memJs reg type (mtLive t k)))"
    "j \<noteq> k \<or> tyof k = type \<Longrightarrow>
       memJs reg (tyof j) (mtLive (snd (mtOut False reg t k type JS)) j) = memJs reg (tyof j) (mtLive t j)"
proof -
  show "fst (mtOut False reg t k type JS) = Inr (map_option JsVal (memJs reg type (mtLive t k)))"
    using assms by (auto simp: mtOut_def memJs_def mtLive_def layerOut_def decodeStored_def split: option.split cell.split sum.split)
  have at: "map_of (mt_updates t) k = None \<Longrightarrow> k \<notin> fst ` set (mt_updates t)" "map_of (mt_updates t) k = Some x \<Longrightarrow> k \<in> fst ` set (mt_updates t)" for x
    by (auto simp: map_of_eq_None_iff dest: map_of_SomeD intro: rev_image_eqI)
  show "memJs reg (tyof j) (mtLive (snd (mtOut False reg t k type JS)) j) = memJs reg (tyof j) (mtLive t j)" if "j \<noteq> k \<or> tyof k = type"
    using assms at that
    by (cases "map_of (mt_updates t) k")
      (auto simp: mtOut_def memJs_def mtLive_def layerGet_def layerOut_def decodeStored_def update_conv'
        split: option.split cell.split sum.split)
qed

lemma mtOut_typed:
  assumes "tyof k \<notin> set RAW_TYPES"
  obtains t' where "mtOut False reg t k (tyof k) JS = (Inr (map_option JsVal (memJs reg (tyof k) (mtLive t k))), t')"
    "memShape reg tyof t' = memShape reg tyof t"
proof (cases "mtOut False reg t k (tyof k) JS")
  case (Pair r t')
  then show thesis
    using that [of t'] mtOut_js [where type = "tyof k" and reg = reg and t = t and k = k, OF assms] mtOut_same [OF Pair] by (simp add: memShape_def fun_eq_iff)
qed

lemma mtEntries_pick:
  assumes "memReadable DEV tyof c v" "\<forall>k \<in> set ks. matchesPattern c k"
  shows "\<exists>t'. mtEntries DEV reg v ks t = (Inr (pickEntries (memVal reg tyof v t) ks), t') \<and> memShape reg tyof t' = memShape reg tyof t"
  using assms
proof (induction DEV reg v ks t rule: mtEntries.induct)
  case (2 DEV reg k ks t)
  then show ?case by (auto simp: memVal_def Let_def split: prod.splits)
next
  case (3 DEV reg type rep k ks t)
  then have v: "DEV = False" "rep = JS" "tyof k = type" and raw: "tyof k \<notin> set RAW_TYPES" by (auto simp: memReadable_def)
  obtain t1 where o': "mtOut False reg t k (tyof k) JS = (Inr (map_option JsVal (memJs reg (tyof k) (mtLive t k))), t1)"
      and same: "memShape reg tyof t1 = memShape reg tyof t"
    by (rule mtOut_typed [where tyof = tyof and k = k, OF raw])
  have val: "memVal reg tyof u t1 = memVal reg tyof u t" for u
    using same by (auto simp: memVal_def memShape_def fun_eq_iff)
  obtain t' where
    rec: "mtEntries False reg (Some (type, rep)) ks t1 = (Inr (pickEntries (memVal reg tyof (Some (type, rep)) t1) ks), t')"
      "memShape reg tyof t' = memShape reg tyof t1"
    using 3(1) [unfolded v, OF o' [unfolded v(3), symmetric] refl] 3(2,3) v by auto
  have "memVal reg tyof (Some (type, rep)) t k = map_option (\<lambda>js. Some (JsVal js)) (memJs reg type (mtLive t k))"
    by (simp add: memVal_def v)
  then show ?case using o' rec same val unfolding v by (cases "memJs reg type (mtLive t k)") simp_all
qed simp

lemma mem_scan:
  assumes ok: "memOk DEV tyof c (sr_values req) t" and a: "askable c req"
    and W: "W = walkFrom c (sr_reverse req) (sr_after req) (liveKeys t)"
  shows "\<exists>t'. mtScan DEV reg t req = Some (Inr (pickEntries (memVal reg tyof (sr_values req) t) (take (sr_limit req) W),
      if sr_limit req \<le> length W then Some (W ! (sr_limit req - 1)) else None), t') \<and>
    memOk DEV tyof c (sr_values req) t' \<and> memShape reg tyof t' = memShape reg tyof t"
proof -
  let ?r = "sr_reverse req" and ?v = "sr_values req" and ?n = "sr_limit req"
  have c: "compilePattern (sr_pattern req) = Inr c" "name_ok (sr_pattern req)" "?r \<Longrightarrow> bounds_ok (cp_fields c)" "1 \<le> ?n"
      "\<And>a. sr_after req = Some a \<Longrightarrow> prefix (cp_head c) a" "?v \<noteq> None \<Longrightarrow> kp_name (sr_pattern req) \<noteq> None"
    using a by (auto simp: askable_def)
  have t: "mem_ok t" "\<And>k. k \<in> set (liveKeys t) \<Longrightarrow> key_rule c k" and v: "memReadable DEV tyof c ?v" using ok by (auto simp: memOk_def)
  have walk: "mtWalk t c ?r (sr_after req) (pushKey ?n) [] = Some (take ?n W)"
  proof -
    have "mtWalk t c ?r (sr_after req) (pushKey ?n) [] = Some (visitAll (pushKey ?n) W [])"
      unfolding W walkFrom_def by (rule mtWalk_visits [OF c(1,2) _ t]) (use c(3,5) in auto)
    then show ?thesis using visit_push [of "[]" ?n W] c(4) by simp
  qed
  have "\<forall>k \<in> set (take ?n W). matchesPattern c k"
    by (auto simp: W walkFrom_passes [OF liveKeys_ascending] dest: in_set_takeD)
  then obtain t' where e: "mtEntries DEV reg ?v (take ?n W) t = (Inr (pickEntries (memVal reg tyof ?v t) (take ?n W)), t')"
      "memShape reg tyof t' = memShape reg tyof t"
    using mtEntries_pick [OF v] by blast
  have same: "mem_ok t'" "liveKeys t' = liveKeys t" using e(2) t(1) by (auto simp: memShape_def)
  have "(if length (take ?n W) = ?n then Some (take ?n W ! (length (take ?n W) - 1)) else None) =
      (if ?n \<le> length W then Some (W ! (?n - 1)) else None)"
    using c(4) by (auto simp: min_def)
  then have "mtScan DEV reg t req = Some (Inr (pickEntries (memVal reg tyof ?v t) (take ?n W),
      if ?n \<le> length W then Some (W ! (?n - 1)) else None), t')"
    using c(1,4,6) walk e(1) by (auto simp: mtScan_def simp del: length_take)
  then show ?thesis using same e(2) t(2) v by (auto simp: memOk_def)
qed

lemma mem_tile:
  assumes ok: "memOk DEV tyof c (sr_values req) t" and a: "askable c req"
  shows "\<exists>es next' t'. mtScan DEV reg t req = Some (Inr (es, next'), t') \<and> tile c req (liveKeys t) (memVal reg tyof (sr_values req) t) es next' \<and>
    set_option next' \<subseteq> set (liveKeys t) \<and> memOk DEV tyof c (sr_values req) t' \<and> liveKeys t' = liveKeys t \<and>
    set (liveKeys t') = set (liveKeys t) \<and> memVal reg tyof (sr_values req) t' = memVal reg tyof (sr_values req) t \<and>
    memShape reg tyof t' = memShape reg tyof t"
proof -
  let ?r = "sr_reverse req" and ?v = "sr_values req" and ?n = "sr_limit req"
  let ?W = "walkFrom c ?r (sr_after req) (liveKeys t)"
  let ?next = "if ?n \<le> length ?W then Some (?W ! (?n - 1)) else None"
  have c: "compilePattern (sr_pattern req) = Inr c" "name_ok (sr_pattern req)" "1 \<le> ?n" using a by (auto simp: askable_def)
  obtain t' where s: "mtScan DEV reg t req = Some (Inr (pickEntries (memVal reg tyof ?v t) (take ?n ?W), ?next), t')"
      and t': "memOk DEV tyof c ?v t'" "memShape reg tyof t' = memShape reg tyof t"
    using mem_scan [OF ok a refl] by blast
  have same: "liveKeys t' = liveKeys t" "memVal reg tyof ?v t' = memVal reg tyof ?v t"
    using t'(2) by (auto simp: memShape_def memVal_def fun_eq_iff)
  have sorted: "sorted_wrt (walks ?r) ?W" by (rule walkFrom_sorted [OF liveKeys_ascending])
  have "tile c req (liveKeys t) (memVal reg tyof ?v t) (pickEntries (memVal reg tyof ?v t) (take ?n ?W)) ?next \<and> set_option ?next \<subseteq> set (liveKeys t)"
  proof (cases "?n \<le> length ?W")
    case False
    then show ?thesis by (simp add: tile_def)
  next
    case True
    let ?k = "?W ! (?n - 1)"
    have i: "?n - 1 < length ?W" using True c(3) by simp
    have k: "?k \<in> set ?W" using i by simp
    have "filter (\<lambda>x. \<not> walks ?r ?k x) ?W = take ?n ?W" using sorted_take_filter [OF sorted i] c(3) by simp
    moreover have "prefix (cp_head c) ?k" using walk_keys_head [OF c(1,2)] k by (simp add: walkFrom_def)
    ultimately show ?thesis using k True by (auto simp: tile_def walkFrom_passes [OF liveKeys_ascending])
  qed
  then show ?thesis using s t' same by auto
qed

interpretation mem: tiled "\<lambda>req t. mtScan DEV reg t req" "memOk DEV tyof" liveKeys "\<lambda>t. set (liveKeys t)" "memVal reg tyof" "memShape reg tyof" for DEV reg tyof
proof
  show "memOk DEV tyof c v b \<Longrightarrow> ascending (liveKeys b)" for c v and b :: "'a mem_txn" by (rule liveKeys_ascending)
  show "memOk DEV tyof c v b \<Longrightarrow> finite (set (liveKeys b))" for c v and b :: "'a mem_txn" by simp
  show "memOk DEV tyof c None b \<Longrightarrow> k \<in> set (liveKeys b) \<Longrightarrow> memVal reg tyof None b k \<noteq> None" for c k and b :: "'a mem_txn" by (simp add: memVal_def)
qed (rule mem_tile)

text \<open>Where every key of the template decodes, the in-memory transaction's batches are full or the last.\<close>

definition memSolid ::
  "('js, 'host) registry \<Rightarrow> (jsstr \<Rightarrow> jsstr) \<Rightarrow> compiled_pattern \<Rightarrow> (jsstr \<times> rep) option \<Rightarrow> 'js mem_txn \<Rightarrow> bool" where
  "memSolid reg tyof c v t \<longleftrightarrow> (\<forall>k \<in> set (liveKeys t). matchesPattern c k \<longrightarrow> memVal reg tyof v t k \<noteq> None)"

lemma pick_all: "(\<And>k. k \<in> set ks \<Longrightarrow> val k \<noteq> None) \<Longrightarrow> length (pickEntries val ks) = length ks \<and> map fst (pickEntries val ks) = ks"
  by (induction ks) (auto split: option.split)

lemma mem_next_last:
  assumes "memOk DEV tyof c (sr_values req) t" "memSolid reg tyof c (sr_values req) t" "askable c req"
    and "mtScan DEV reg t req = Some (Inr (es, next'), t')"
  shows "length es \<le> sr_limit req \<and> next' = (if length es = sr_limit req then Some (fst (last es)) else None)"
proof -
  let ?W = "walkFrom c (sr_reverse req) (sr_after req) (liveKeys t)" and ?n = "sr_limit req" let ?val = "memVal reg tyof (sr_values req) t"
  have r: "es = pickEntries ?val (take ?n ?W)" "next' = (if ?n \<le> length ?W then Some (?W ! (?n - 1)) else None)"
    using mem_scan [OF assms(1,3) refl, of reg] assms(4) by auto
  have n: "1 \<le> ?n" using assms(3) by (simp add: askable_def)
  have "?val k \<noteq> None" if "k \<in> set (take ?n ?W)" for k
    using assms(2) in_set_takeD [OF that] unfolding memSolid_def walkFrom_passes [OF liveKeys_ascending] by auto
  then have es: "length es = min (length ?W) ?n" "map fst es = take ?n ?W" using pick_all [of "take ?n ?W" ?val] r(1) by simp_all
  show ?thesis
  proof (cases "?n \<le> length ?W")
    case True
    then have "es \<noteq> []" using es n by auto
    then have "fst (last es) = last (take ?n ?W)" unfolding es(2) [symmetric] by (simp add: last_map)
    also have "\<dots> = ?W ! (?n - 1)" using True n by (subst last_conv_nth) auto
    finally show ?thesis using True es r(2) by simp
  qed (use es r(2) in simp)
qed

interpretation memPaged: paged "\<lambda>req t. mtScan DEV reg t req" "memOk DEV tyof" liveKeys "\<lambda>t. set (liveKeys t)"
    "memVal reg tyof" "memShape reg tyof" "memSolid reg tyof" for DEV reg tyof
  by unfold_locales (rule mem_next_last)

end
