(* ===== verification/Overlay.thy ===== *)
theory Overlay
  imports Reads
begin

text \<open>
  The Engine's layer of predictions over the base (typespec/ts/assets/skeleton.ts, \<open>Overlay\<close> and
  \<open>OverlayTxn\<close>): a transaction that reads through two in-memory layers to a base read transaction, its
  writes and whole-slice deletions, and its scan, which merges the layers' keys into each batch of the
  base. Over a base that keeps the contract of a scan, the overlay keeps it too, over the merged keys.
\<close>

section \<open>Spans\<close>

record scan_span =
  ss_pattern :: compiled_pattern
  ss_reverse :: bool
  ss_from :: "jsstr option"
  ss_to :: "jsstr option"

definition spanCovers :: "scan_span \<Rightarrow> jsstr \<Rightarrow> bool" where
  "spanCovers s key =
     (if (case ss_from s of None \<Rightarrow> False
          | Some f \<Rightarrow> let d = compareKeys key f in if ss_reverse s then d \<ge> 0 else d \<le> 0) then False
      else if (case ss_to s of None \<Rightarrow> False
          | Some t \<Rightarrow> let d = compareKeys key t in if ss_reverse s then d < 0 else d > 0) then False
      else matchesPattern (ss_pattern s) key)"

section \<open>The transaction\<close>

text \<open>In both layers a key without a value is a deletion.\<close>

record ('b, 'js) overlay_txn =
  ot_base :: 'b
  ot_data :: "'js updates"
  ot_updates :: "'js updates"

definition otHas :: "('b, 'js) overlay_txn \<Rightarrow> jsstr \<Rightarrow> bool" where
  "otHas t key = (key \<in> fst ` set (ot_updates t) \<or> key \<in> fst ` set (ot_data t))"

text \<open>\<open>layerGet\<close> of the two layers.\<close>

definition otLayers :: "('b, 'js) overlay_txn \<Rightarrow> jsstr \<Rightarrow> 'js option" where
  "otLayers t key =
     (case map_of (ot_updates t) key of Some v \<Rightarrow> v | None \<Rightarrow> Option.bind (map_of (ot_data t) key) (\<lambda>v. v))"

definition otGet ::
  "('js, 'host) registry \<Rightarrow> ('b, 'js, 'host) rtxn \<Rightarrow> jsstr \<Rightarrow> jsstr \<Rightarrow> rep \<Rightarrow> ('b, 'js) overlay_txn \<Rightarrow>
   (store_error + ('js, 'host) rval option) \<times> ('b, 'js) overlay_txn"
where
  "otGet reg base key type rep t =
     (if \<not> otHas t key then
        (let (r, b) = rt_get base key type rep (ot_base t) in (r, t\<lparr>ot_base := b\<rparr>))
      else
        (case otLayers t key of
           None \<Rightarrow> (Inr None, t)
         | Some js \<Rightarrow> (map_sum id Some (layerOut reg type js rep), t)))"

definition otSet ::
  "('js, 'host) registry \<Rightarrow> jsstr \<Rightarrow> jsstr \<Rightarrow> ('js, 'host) rval \<Rightarrow> ('b, 'js) overlay_txn \<Rightarrow>
   store_error + ('b, 'js) overlay_txn"
where
  "otSet reg key type v t =
     (case layerIn reg type v of
        Inl e \<Rightarrow> Inl e
      | Inr js \<Rightarrow> Inr (t\<lparr>ot_updates := AList.update key (Some js) (ot_updates t)\<rparr>))"

definition otDel :: "jsstr \<Rightarrow> ('b, 'js) overlay_txn \<Rightarrow> ('b, 'js) overlay_txn" where
  "otDel key t = t\<lparr>ot_updates := AList.update key None (ot_updates t)\<rparr>"

text \<open>\<open>prefix.indexOf('!')\<close> is -1 for the empty prefix, which is then its length less 1.\<close>

definition wholeSlice :: "jsstr \<Rightarrow> bool" where
  "wholeSlice p = (case index_of p bang 0 of None \<Rightarrow> p = [] | Some i \<Rightarrow> i + 1 = length p)"

definition otLayerKeys :: "('b, 'js) overlay_txn \<Rightarrow> (jsstr \<Rightarrow> bool) \<Rightarrow> jsstr list" where
  "otLayerKeys t keep = layerKeys [ot_data t, ot_updates t] keep"

definition otKeysUnder ::
  "('b, 'js, 'host) rtxn \<Rightarrow> jsstr \<Rightarrow> ('b, 'js) overlay_txn \<Rightarrow>
   ((store_error + jsstr list) \<times> ('b, 'js) overlay_txn) option"
where
  "otKeysUnder base p t =
     (if \<not> wholeSlice p then Some (Inl (WholeSlices p), t)
      else
        let req = \<lparr>sr_pattern = \<lparr>kp_slice = OneSlice (take (length p - 1) p), kp_name = None, kp_local = []\<rparr>,
          sr_reverse = False, sr_after = None, sr_limit = 1000, sr_values = None\<rparr> in
        (case scanAllLoop (\<lambda>b after. rt_scan base (req\<lparr>sr_after := after\<rparr>) b) (ot_base t) None [] of
           None \<Rightarrow> None
         | Some (Inl e, b) \<Rightarrow> Some (Inl e, t\<lparr>ot_base := b\<rparr>)
         | Some (Inr es, b) \<Rightarrow>
             let all = fold add_key (filter (\<lambda>k. \<not> otHas t k) (map fst es)) [] in
             Some (Inr (sortKeys (fold add_key (otLayerKeys t (\<lambda>k. starts_with k p)) all)), t\<lparr>ot_base := b\<rparr>)))"

definition otDelPrefix ::
  "('b, 'js, 'host) rtxn \<Rightarrow> jsstr \<Rightarrow> ('b, 'js) overlay_txn \<Rightarrow>
   ((store_error + jsstr list) \<times> ('b, 'js) overlay_txn) option"
where
  "otDelPrefix base p t =
     map_option (\<lambda>(r, t'). case r of Inl e \<Rightarrow> (Inl e, t') | Inr keys \<Rightarrow> (Inr keys, fold otDel keys t')) (otKeysUnder base p t)"

definition otApplyEdits :: "wire_edit list \<Rightarrow> ('b, 'js) overlay_txn \<Rightarrow> store_error + jsstr list \<times> ('b, 'js) overlay_txn" where
  "otApplyEdits edits t = Inl OverlayRefuses"

definition otApplyParked :: "jsstr \<Rightarrow> nat \<Rightarrow> ('b, 'js) overlay_txn \<Rightarrow> store_error + jsstr list \<times> ('b, 'js) overlay_txn" where
  "otApplyParked sl fromSeq t = Inl OverlayRefuses"

definition otApplySnapshot :: "jsstr \<Rightarrow> jsstr list \<Rightarrow> ('b, 'js) overlay_txn \<Rightarrow> store_error + jsstr list \<times> ('b, 'js) overlay_txn" where
  "otApplySnapshot selector skip t = Inl OverlayRefuses"

section \<open>The scan\<close>

text \<open>The layers' keys of a batch, which are live, put over the base's entries.\<close>

fun otMerge ::
  "('js, 'host) registry \<Rightarrow> ('b, 'js) overlay_txn \<Rightarrow> (jsstr \<times> rep) option \<Rightarrow> jsstr list \<Rightarrow> ('js, 'host) entry list \<Rightarrow>
   store_error + ('js, 'host) entry list"
where
  "otMerge reg t v [] m = Inr m"
| "otMerge reg t v (k # ks) m =
     (case v of
        None \<Rightarrow> otMerge reg t v ks (AList.update k None m)
      | Some (type, rep) \<Rightarrow>
          (case map_option (\<lambda>js. layerOut reg type js rep) (otLayers t k) of
             None \<Rightarrow> otMerge reg t v ks m
           | Some (Inl e) \<Rightarrow> Inl e
           | Some (Inr x) \<Rightarrow> otMerge reg t v ks (AList.update k (Some x) m)))"

text \<open>The merged keys cut to one batch, of a limit that the base's scan has not refused.\<close>

definition otPage :: "scan_request \<Rightarrow> ('js, 'host) entry list \<Rightarrow> jsstr option \<Rightarrow> ('js, 'host) entry list \<times> jsstr option" where
  "otPage req merged base_next =
     (let sorted = sortKeys (map fst merged);
          keys = (if sr_reverse req then rev sorted else sorted);
          next' = (if length keys \<ge> sr_limit req then Some (keys ! (sr_limit req - 1)) else None)
      in (map (\<lambda>k. (k, the (map_of merged k))) (take (sr_limit req) keys),
          if next' = None \<and> base_next \<noteq> None then base_next else next'))"

definition otScan ::
  "('js, 'host) registry \<Rightarrow> (scan_request \<Rightarrow> 'b \<Rightarrow> ((store_error + ('js, 'host) entry list \<times> jsstr option) \<times> 'b) option) \<Rightarrow>
   scan_request \<Rightarrow> ('b, 'js) overlay_txn \<Rightarrow>
   ((store_error + ('js, 'host) entry list \<times> jsstr option) \<times> ('b, 'js) overlay_txn) option"
where
  "otScan reg scan req t =
     (case scan req (ot_base t) of
        None \<Rightarrow> None
      | Some (Inl e, b) \<Rightarrow> Some (Inl e, t\<lparr>ot_base := b\<rparr>)
      | Some (Inr (entries, base_next), b) \<Rightarrow>
          (case compilePattern (sr_pattern req) of
             Inl e \<Rightarrow> Some (Inl (PatternError e), t\<lparr>ot_base := b\<rparr>)
           | Inr c \<Rightarrow>
               let span = \<lparr>ss_pattern = c, ss_reverse = sr_reverse req, ss_from = sr_after req, ss_to = base_next\<rparr>;
                   shown = fold (\<lambda>(k, v) m. if otHas t k then m else AList.update k v m) entries [] in
               (case otMerge reg t (sr_values req) (otLayerKeys t (spanCovers span)) shown of
                  Inl e \<Rightarrow> Some (Inl e, t\<lparr>ot_base := b\<rparr>)
                | Inr merged \<Rightarrow> Some (Inr (otPage req merged base_next), t\<lparr>ot_base := b\<rparr>))))"

section \<open>The overlay\<close>

type_synonym 'js overlay = "'js updates"

definition overlayKeys :: "'js overlay \<Rightarrow> jsstr list" where
  "overlayKeys data = map fst data"

text \<open>A function over the transaction answers an error or returns; the outer \<open>None\<close> is one that never ends.\<close>

definition overlayApply ::
  "(('b, 'js) overlay_txn \<Rightarrow> (('e + unit) \<times> ('b, 'js) overlay_txn) option) \<Rightarrow> 'b \<Rightarrow> 'js overlay \<Rightarrow>
   (('e + jsstr list) \<times> 'b \<times> 'js overlay) option"
where
  "overlayApply fn b data =
     (case fn \<lparr>ot_base = b, ot_data = data, ot_updates = []\<rparr> of
        None \<Rightarrow> None
      | Some (Inl e, t) \<Rightarrow> Some (Inl e, ot_base t, data)
      | Some (Inr _, t) \<Rightarrow>
          Some (Inr (map fst (ot_updates t)), ot_base t, fold (\<lambda>(k, v). AList.update k v) (ot_updates t) data))"

text \<open>The overlay over a base, read only: a transaction with no updates of its own.\<close>

definition overlayView :: "('js, 'host) registry \<Rightarrow> ('b, 'js, 'host) rtxn \<Rightarrow> 'js overlay \<Rightarrow> ('b, 'js, 'host) rtxn" where
  "overlayView reg base data =
     \<lparr>rt_get = (\<lambda>key type rep b.
        let (r, t) = otGet reg base key type rep \<lparr>ot_base = b, ot_data = data, ot_updates = []\<rparr> in (r, ot_base t)),
      rt_scan = (\<lambda>req b.
        map_option (\<lambda>(r, t). (r, ot_base t)) (otScan reg (rt_scan base) req \<lparr>ot_base = b, ot_data = data, ot_updates = []\<rparr>))\<rparr>"

end
