(* ===== verification/QueryRuns.thy ===== *)
theory QueryRuns
  imports Overlay
begin

text \<open>
  A query's run (typespec/ts/assets/skeleton.ts, \<open>statusView\<close>, \<open>readTxn\<close>, \<open>record\<close>, \<open>scanEach\<close> and
  \<open>batches\<close>): the reads a query makes through its context, the walks it takes entry by entry, and the
  record of what it read. A query is any function over its context, here the tree of its reads, each
  followed by what the function does on each answer.
\<close>

section \<open>What queries read\<close>

datatype read_error = Held | ReadFails store_error

record ('b, 'js, 'host) query_view =
  qv_get :: "jsstr \<Rightarrow> jsstr \<Rightarrow> rep \<Rightarrow> 'b \<Rightarrow> (read_error + ('js, 'host) rval option) \<times> 'b"
  qv_scan :: "scan_request \<Rightarrow> 'b \<Rightarrow> ((read_error + ('js, 'host) entry list \<times> jsstr option) \<times> 'b) option"

text \<open>The status keys from the published status, every other read from the transaction unless held.\<close>

definition statusView ::
  "('b, 'js, 'host) rtxn \<Rightarrow> (jsstr \<times> ('js, 'host) rval) list \<Rightarrow> bool \<Rightarrow> ('b, 'js, 'host) query_view"
where
  "statusView txn status held =
     \<lparr>qv_get = (\<lambda>key type rep b.
        if key \<in> fst ` set status then (Inr (map_of status key), b)
        else if held then (Inl Held, b)
        else (let (r, b') = rt_get txn key type rep b in (map_sum ReadFails id r, b'))),
      qv_scan = (\<lambda>req b.
        if held then Some (Inl Held, b)
        else map_option (\<lambda>(r, b'). (map_sum ReadFails id r, b')) (rt_scan txn req b))\<rparr>"

section \<open>What a run read\<close>

text \<open>The text of the last span's pattern, which two patterns share only where they are the same, is the pattern.\<close>

record read_deps =
  rd_keys :: "jsstr list"
  rd_spans :: "scan_span list"
  rd_last :: "key_pattern option"
  rd_held :: bool

definition noDeps :: read_deps where
  "noDeps = \<lparr>rd_keys = [], rd_spans = [], rd_last = None, rd_held = False\<rparr>"

record read_scan =
  rs_pattern :: key_pattern
  rs_type :: "jsstr option"
  rs_reverse :: bool
  rs_after :: "jsstr option"
  rs_limit :: nat

definition recordScan :: "read_deps \<Rightarrow> read_scan \<Rightarrow> jsstr option \<Rightarrow> read_error + read_deps" where
  "recordScan deps req next' =
     (let spans = rd_spans deps in
      if spans \<noteq> [] \<and> ss_to (last spans) \<noteq> None \<and> ss_to (last spans) = rs_after req \<and>
         ss_reverse (last spans) = rs_reverse req \<and> rd_last deps = Some (rs_pattern req)
      then Inr (deps\<lparr>rd_spans := butlast spans @ [(last spans)\<lparr>ss_to := next'\<rparr>]\<rparr>)
      else
        (case compilePattern (rs_pattern req) of
           Inl e \<Rightarrow> Inl (ReadFails (PatternError e))
         | Inr c \<Rightarrow>
             Inr (deps\<lparr>rd_spans := spans @ [\<lparr>ss_pattern = c, ss_reverse = rs_reverse req, ss_from = rs_after req, ss_to = next'\<rparr>],
                    rd_last := Some (rs_pattern req)\<rparr>)))"

text \<open>A held read marks the run.\<close>

definition markHeld :: "read_error + 'a \<Rightarrow> read_deps \<Rightarrow> read_deps" where
  "markHeld r deps = (case r of Inl Held \<Rightarrow> deps\<lparr>rd_held := True\<rparr> | _ \<Rightarrow> deps)"

definition readGet ::
  "('b, 'js, 'host) query_view \<Rightarrow> jsstr \<Rightarrow> jsstr \<Rightarrow> 'b \<Rightarrow> read_deps \<Rightarrow>
   (read_error + ('js, 'host) rval option) \<times> 'b \<times> read_deps"
where
  "readGet view key type b deps =
     (let deps = deps\<lparr>rd_keys := add_key key (rd_keys deps)\<rparr>; (r, b') = qv_get view key type JS b in
      (r, b', markHeld r deps))"

definition scanRequest :: "read_scan \<Rightarrow> scan_request" where
  "scanRequest req = \<lparr>sr_pattern = rs_pattern req, sr_reverse = rs_reverse req, sr_after = rs_after req,
     sr_limit = rs_limit req, sr_values = map_option (\<lambda>type. (type, JS)) (rs_type req)\<rparr>"

definition readScan ::
  "('b, 'js, 'host) query_view \<Rightarrow> read_scan \<Rightarrow> 'b \<Rightarrow> read_deps \<Rightarrow>
   ((read_error + ('js, 'host) entry list \<times> jsstr option) \<times> 'b \<times> read_deps) option"
where
  "readScan view req b deps =
     (case qv_scan view (scanRequest req) b of
        None \<Rightarrow> None
      | Some (Inl e, b') \<Rightarrow> Some (Inl e, b', markHeld (Inl e :: read_error + unit) deps)
      | Some (Inr (entries, next'), b') \<Rightarrow>
          (case recordScan deps req next' of
             Inl e \<Rightarrow> Some (Inl e, b', deps)
           | Inr deps' \<Rightarrow> Some (Inr (entries, next'), b', deps')))"

section \<open>Walks\<close>

text \<open>
  The generator of \<open>batches\<close>: before a fetch, handing out a batch, or over. \<open>wk_span\<close> is the place, in
  the run's spans, of the span that its last fetch recorded.
\<close>

datatype walk_phase = Fetch | Hand | Over

record ('js, 'host) walk =
  wk_req :: read_scan
  wk_phase :: walk_phase
  wk_batch :: "('js, 'host) entry list"
  wk_next :: "jsstr option"
  wk_span :: nat

definition scanEach :: "read_scan \<Rightarrow> ('js, 'host) walk" where
  "scanEach req = \<lparr>wk_req = req\<lparr>rs_after := None, rs_limit := 16\<rparr>, wk_phase = Fetch, wk_batch = [], wk_next = None, wk_span = 0\<rparr>"

definition cutSpan :: "read_deps \<Rightarrow> nat \<Rightarrow> jsstr option \<Rightarrow> read_deps" where
  "cutSpan deps j to = deps\<lparr>rd_spans := (rd_spans deps)[j := (rd_spans deps ! j)\<lparr>ss_to := to\<rparr>]\<rparr>"

text \<open>One \<open>next()\<close> of the generator: an entry, or \<open>None\<close> at the end; the outer \<open>None\<close> is one that never answers.\<close>

partial_function (option) walkNext ::
  "('b, 'js, 'host) query_view \<Rightarrow> ('js, 'host) walk \<Rightarrow> 'b \<Rightarrow> read_deps \<Rightarrow>
   ((read_error + (jsstr list \<times> ('js, 'host) rval option) option) \<times> ('js, 'host) walk \<times> 'b \<times> read_deps) option"
where
  "walkNext view w b deps =
     (case wk_phase w of
        Over \<Rightarrow> Some (Inr None, w, b, deps)
      | Fetch \<Rightarrow>
          (case readScan view (wk_req w) b deps of
             None \<Rightarrow> None
           | Some (Inl e, b', deps') \<Rightarrow> Some (Inl e, w\<lparr>wk_phase := Over\<rparr>, b', deps')
           | Some (Inr (entries, next'), b', deps') \<Rightarrow>
               walkNext view (w\<lparr>wk_phase := Hand, wk_batch := entries, wk_next := next',
                 wk_span := length (rd_spans deps') - 1\<rparr>) b' deps')
      | Hand \<Rightarrow>
          (case wk_batch w of
             (key, v) # batch \<Rightarrow>
               Some (Inr (Some (parseKey (rs_pattern (wk_req w)) key, v)), w\<lparr>wk_batch := batch\<rparr>, b,
                 cutSpan deps (wk_span w) (Some key))
           | [] \<Rightarrow>
               (case wk_next w of
                  None \<Rightarrow> Some (Inr None, w\<lparr>wk_phase := Over\<rparr>, b, cutSpan deps (wk_span w) None)
                | Some k \<Rightarrow>
                    walkNext view (w\<lparr>wk_phase := Fetch,
                      wk_req := (wk_req w)\<lparr>rs_after := Some k, rs_limit := min (rs_limit (wk_req w) * 2) 256\<rparr>\<rparr>) b deps)))"

section \<open>Runs\<close>

text \<open>
  A function over its context answers, or throws; or it gets a key, starts a walk, or takes the next entry
  of a walk it started, and goes on by what it was told, an error it may catch. A generated context reads
  in no other way: its accessors are \<open>get\<close> and scans by \<open>scanEach\<close>.
\<close>

datatype query_error = ReadThrows read_error | AppThrows jsstr

datatype ('r, 'js, 'host) query =
  Answer 'r
| Throw query_error
| Get jsstr jsstr "read_error + ('js, 'host) rval option \<Rightarrow> ('r, 'js, 'host) query"
| Walk read_scan "nat \<Rightarrow> ('r, 'js, 'host) query"
| Next nat "read_error + (jsstr list \<times> ('js, 'host) rval option) option \<Rightarrow> ('r, 'js, 'host) query"

primrec runQuery ::
  "('b, 'js, 'host) query_view \<Rightarrow> ('r, 'js, 'host) query \<Rightarrow> ('js, 'host) walk list \<Rightarrow> 'b \<Rightarrow> read_deps \<Rightarrow>
   ((query_error + 'r) \<times> 'b \<times> read_deps) option"
where
  "runQuery view (Answer r) ws b deps = Some (Inr r, b, deps)"
| "runQuery view (Throw e) ws b deps = Some (Inl e, b, deps)"
| "runQuery view (Get key type q) ws b deps =
     (let (r, b', deps') = readGet view key type b deps in runQuery view (q r) ws b' deps')"
| "runQuery view (Walk req q) ws b deps = runQuery view (q (length ws)) (ws @ [scanEach req]) b deps"
| "runQuery view (Next i q) ws b deps =
     (if i < length ws then
        (case walkNext view (ws ! i) b deps of
           None \<Rightarrow> None
         | Some (r, w, b', deps') \<Rightarrow> runQuery view (q r) (ws[i := w]) b' deps')
      else runQuery view (q (Inr None)) ws b deps)"

end
