(* ===== verification/QueryGraph.thy ===== *)
theory QueryGraph
  imports QueryRuns
begin

text \<open>
  The graph of the app's queries (typespec/ts/assets/skeleton.ts, \<open>QueryImpl\<close> and \<open>QueryGraph\<close>): which
  queries run again when keys change, what a run leaves, and the subscribers it notifies.
\<close>

section \<open>A query\<close>

text \<open>A subscriber is named by a number; a call of it is the value it was given.\<close>

record ('r, 'js, 'host) query_impl =
  qi_fn :: "('r, 'js, 'host) query"
  qi_latest :: "'r option"
  qi_closed :: bool
  qi_subs :: "nat list"
  qi_deps :: read_deps
  qi_runs :: nat
  qi_result :: "'r option"
  qi_held :: bool

definition newImpl :: "('r, 'js, 'host) query \<Rightarrow> ('r, 'js, 'host) query_impl" where
  "newImpl fn = \<lparr>qi_fn = fn, qi_latest = None, qi_closed = False, qi_subs = [], qi_deps = noDeps, qi_runs = 0,
     qi_result = None, qi_held = False\<rparr>"

text \<open>A late subscriber is called at once, with the latest value.\<close>

definition qiSubscribe :: "nat \<Rightarrow> ('r, 'js, 'host) query_impl \<Rightarrow> (nat \<times> 'r option) list \<times> ('r, 'js, 'host) query_impl" where
  "qiSubscribe sub q =
     (if qi_runs q > 0 then [(sub, qi_latest q)] else [], q\<lparr>qi_subs := qi_subs q @ [sub]\<rparr>)"

definition qiUnsubscribe :: "nat \<Rightarrow> ('r, 'js, 'host) query_impl \<Rightarrow> ('r, 'js, 'host) query_impl" where
  "qiUnsubscribe sub q = q\<lparr>qi_subs := filter (\<lambda>x. x \<noteq> sub) (qi_subs q)\<rparr>"

definition qiClose :: "('r, 'js, 'host) query_impl \<Rightarrow> ('r, 'js, 'host) query_impl" where
  "qiClose q = q\<lparr>qi_closed := True\<rparr>"

definition qiReads :: "('r, 'js, 'host) query_impl \<Rightarrow> jsstr list \<Rightarrow> bool" where
  "qiReads q dirty =
     list_ex (\<lambda>k. k \<in> set (rd_keys (qi_deps q)) \<or> list_ex (\<lambda>s. spanCovers s k) (rd_spans (qi_deps q))) dirty"

text \<open>
  \<open>differs\<close> is \<open>!==\<close> on results, which tells two objects apart whatever they hold. The outer \<open>None\<close> is a
  query that never returns; \<open>Inl\<close> is what it threw, which the run passes on.
\<close>

definition qiRun ::
  "('r \<Rightarrow> 'r option \<Rightarrow> bool) \<Rightarrow> ('b, 'js, 'host) query_view \<Rightarrow> jsstr list \<Rightarrow> ('r, 'js, 'host) query_impl \<Rightarrow> 'b \<Rightarrow>
   ((query_error + bool) \<times> ('r, 'js, 'host) query_impl \<times> 'b) option"
where
  "qiRun differs view dirty q b =
     (if qi_runs q > 0 \<and> \<not> qi_held q \<and> \<not> qiReads q dirty then Some (Inr False, q, b)
      else
        (case runQuery view (qi_fn q) [] b noDeps of
           None \<Rightarrow> None
         | Some (out, b', deps) \<Rightarrow>
             if rd_held deps then Some (Inr False, q\<lparr>qi_held := True\<rparr>, b')
             else
               (case out of
                  Inl e \<Rightarrow> Some (Inl e, q, b')
                | Inr r \<Rightarrow>
                    Some (Inr (qi_runs q + 1 = 1 \<or> differs r (qi_result q)),
                      q\<lparr>qi_held := False, qi_result := Some r, qi_deps := deps, qi_runs := qi_runs q + 1\<rparr>, b'))))"

definition qiNotify :: "('r, 'js, 'host) query_impl \<Rightarrow> (nat \<times> 'r option) list \<times> ('r, 'js, 'host) query_impl" where
  "qiNotify q =
     (if qi_closed q then ([], q) else (map (\<lambda>sub. (sub, qi_result q)) (qi_subs q), q\<lparr>qi_latest := qi_result q\<rparr>))"

section \<open>The graph\<close>

text \<open>The queries are shared by the two lists, the graph's and that of the new ones, which hold their numbers.\<close>

record ('r, 'js, 'host) query_graph =
  qg_dirty :: "jsstr list"
  qg_all :: "nat \<Rightarrow> ('r, 'js, 'host) query_impl"
  qg_count :: nat
  qg_queries :: "nat list"
  qg_new :: "nat list"

definition newGraph :: "('r, 'js, 'host) query_graph" where
  "newGraph = \<lparr>qg_dirty = [], qg_all = (\<lambda>_. newImpl (Throw (AppThrows []))), qg_count = 0, qg_queries = [], qg_new = []\<rparr>"

definition addQuery :: "('r, 'js, 'host) query \<Rightarrow> ('r, 'js, 'host) query_graph \<Rightarrow> nat \<times> ('r, 'js, 'host) query_graph" where
  "addQuery fn g =
     (let i = qg_count g in
      (i, g\<lparr>qg_all := (qg_all g)(i := newImpl fn), qg_count := i + 1, qg_queries := qg_queries g @ [i], qg_new := qg_new g @ [i]\<rparr>))"

definition graphDirty :: "jsstr list \<Rightarrow> ('r, 'js, 'host) query_graph \<Rightarrow> ('r, 'js, 'host) query_graph" where
  "graphDirty keys g = g\<lparr>qg_dirty := fold add_key keys (qg_dirty g)\<rparr>"

text \<open>\<open>#execute\<close>, its callback given as the numbers of the queries it notifies.\<close>

fun executeQueries ::
  "('r \<Rightarrow> 'r option \<Rightarrow> bool) \<Rightarrow> ('b, 'js, 'host) query_view \<Rightarrow> jsstr list \<Rightarrow> nat list \<Rightarrow>
   (nat \<Rightarrow> ('r, 'js, 'host) query_impl) \<Rightarrow> 'b \<Rightarrow>
   ((query_error + nat list) \<times> (nat \<Rightarrow> ('r, 'js, 'host) query_impl) \<times> 'b) option"
where
  "executeQueries differs view dirty [] qs b = Some (Inr [], qs, b)"
| "executeQueries differs view dirty (i # is) qs b =
     (case qiRun differs view dirty (qs i) b of
        None \<Rightarrow> None
      | Some (Inl e, q, b') \<Rightarrow> Some (Inl e, qs(i := q), b')
      | Some (Inr changed, q, b') \<Rightarrow>
          map_option (\<lambda>(r, qs', b''). (map_sum id (\<lambda>cs. if changed then i # cs else cs) r, qs', b''))
            (executeQueries differs view dirty is (qs(i := q)) b'))"

definition graphRun ::
  "('r \<Rightarrow> 'r option \<Rightarrow> bool) \<Rightarrow> ('b, 'js, 'host) query_view \<Rightarrow> 'b \<Rightarrow> ('r, 'js, 'host) query_graph \<Rightarrow>
   ((query_error + nat list) \<times> ('r, 'js, 'host) query_graph \<times> 'b) option"
where
  "graphRun differs view b g =
     (let dirty = qg_dirty g; open = filter (\<lambda>i. \<not> qi_closed (qg_all g i)) (qg_queries g);
          g' = g\<lparr>qg_dirty := [], qg_new := [], qg_queries := open\<rparr>
      in map_option (\<lambda>(r, qs, b'). (r, g'\<lparr>qg_all := qs\<rparr>, b')) (executeQueries differs view dirty open (qg_all g') b))"

definition graphExtend ::
  "('r \<Rightarrow> 'r option \<Rightarrow> bool) \<Rightarrow> ('b, 'js, 'host) query_view \<Rightarrow> 'b \<Rightarrow> ('r, 'js, 'host) query_graph \<Rightarrow>
   ((query_error + nat list) \<times> ('r, 'js, 'host) query_graph \<times> 'b) option"
where
  "graphExtend differs view b g =
     (let g' = g\<lparr>qg_new := []\<rparr>
      in map_option (\<lambda>(r, qs, b'). (r, g'\<lparr>qg_all := qs\<rparr>, b')) (executeQueries differs view [] (qg_new g) (qg_all g') b))"

text \<open>The callback that a run answers.\<close>

fun graphNotify ::
  "nat list \<Rightarrow> (nat \<Rightarrow> ('r, 'js, 'host) query_impl) \<Rightarrow> (nat \<times> 'r option) list \<times> (nat \<Rightarrow> ('r, 'js, 'host) query_impl)"
where
  "graphNotify [] qs = ([], qs)"
| "graphNotify (i # is) qs =
     (let (calls, q) = qiNotify (qs i); (more, qs') = graphNotify is (qs(i := q)) in (calls @ more, qs'))"

end
