(* ===== verification/Predict.thy ===== *)
theory Predict
  imports QueryGraph
begin

text \<open>
  Predictions (typespec/ts/assets/skeleton.ts, \<open>#predictIn\<close>, \<open>#mutationData\<close>, \<open>#rebuildOverlay\<close> and
  \<open>#runGraph\<close>): a predictor's reads and writes over a scratch layer of the overlay, the outbox predicted
  onto a fresh overlay, each mutation seeing what the ones before it left, and the graph run on the result.
\<close>

section \<open>One prediction\<close>

datatype predict_error = PredictStore store_error | PredictLength length_kind jsstr | PredictThrows jsstr

text \<open>
  A predictor returns, or throws; or it makes one call of its transaction, and goes on by what it was told,
  an error it may catch. A walk by \<open>scanEach\<close> is a run of its scans.
\<close>

datatype ('js, 'host) prediction =
  PDone
| PThrow predict_error
| PGet jsstr jsstr "predict_error + ('js, 'host) rval option \<Rightarrow> ('js, 'host) prediction"
| PScan read_scan "predict_error + ('js, 'host) entry list \<times> jsstr option \<Rightarrow> ('js, 'host) prediction"
| PSet jsstr jsstr 'js "predict_error + unit \<Rightarrow> ('js, 'host) prediction"
| PDel jsstr "predict_error + unit \<Rightarrow> ('js, 'host) prediction"
| PDeleteSlice jsstr "predict_error + unit \<Rightarrow> ('js, 'host) prediction"

text \<open>The outer \<open>None\<close> is a scan that never ends.\<close>

primrec predictIn ::
  "('js, 'host) registry \<Rightarrow> ('b, 'js, 'host) rtxn \<Rightarrow> ('js, 'host) prediction \<Rightarrow> ('b, 'js) overlay_txn \<Rightarrow>
   ((predict_error + unit) \<times> ('b, 'js) overlay_txn) option"
where
  "predictIn reg base PDone t = Some (Inr (), t)"
| "predictIn reg base (PThrow e) t = Some (Inl e, t)"
| "predictIn reg base (PGet key type p) t =
     (let (r, t') = otGet reg base key type JS t in predictIn reg base (p (map_sum PredictStore id r)) t')"
| "predictIn reg base (PScan req p) t =
     (case otScan reg (rt_scan base) (scanRequest req) t of
        None \<Rightarrow> None
      | Some (r, t') \<Rightarrow> predictIn reg base (p (map_sum PredictStore id r)) t')"
| "predictIn reg base (PSet key type js p) t =
     (case checkLength KeyLength key of
        Inl _ \<Rightarrow> predictIn reg base (p (Inl (PredictLength KeyLength key))) t
      | Inr _ \<Rightarrow>
          (case otSet reg key type (JsVal js) t of
             Inl e \<Rightarrow> predictIn reg base (p (Inl (PredictStore e))) t
           | Inr t' \<Rightarrow> predictIn reg base (p (Inr ())) t'))"
| "predictIn reg base (PDel key p) t =
     (case checkLength KeyLength key of
        Inl _ \<Rightarrow> predictIn reg base (p (Inl (PredictLength KeyLength key))) t
      | Inr _ \<Rightarrow> predictIn reg base (p (Inr ())) (otDel key t))"
| "predictIn reg base (PDeleteSlice sl p) t =
     (case checkLength SliceLength sl of
        Inl _ \<Rightarrow> predictIn reg base (p (Inl (PredictLength SliceLength sl))) t
      | Inr _ \<Rightarrow>
          (case otDelPrefix base (sl @ [bang]) t of
             None \<Rightarrow> None
           | Some (r, t') \<Rightarrow> predictIn reg base (p (map_sum PredictStore (\<lambda>_. ()) r)) t'))"

definition mutationData :: "('js, 'host) registry \<Rightarrow> jsstr \<Rightarrow> bytes \<Rightarrow> 'js option" where
  "mutationData reg mutations bs = (case reg_js reg mutations (ByteVal bs) of Inl _ \<Rightarrow> None | Inr js \<Rightarrow> Some js)"

section \<open>The outbox predicted\<close>

text \<open>\<open>data_of\<close> is the \<open>data\<close> field of an outbox row; a throw predicts nothing, and the next row goes on.\<close>

fun predictRows ::
  "('js, 'host) registry \<Rightarrow> ('b, 'js, 'host) rtxn \<Rightarrow> jsstr \<Rightarrow> (('js, 'host) rval option \<Rightarrow> bytes) \<Rightarrow>
   ('js \<Rightarrow> ('js, 'host) prediction) \<Rightarrow> ('js, 'host) entry list \<Rightarrow> 'b \<Rightarrow> 'js overlay \<Rightarrow> ('r, 'js, 'host) query_graph \<Rightarrow>
   ('b \<times> 'js overlay \<times> ('r, 'js, 'host) query_graph) option"
where
  "predictRows reg base mutations data_of predictor [] b data g = Some (b, data, g)"
| "predictRows reg base mutations data_of predictor ((k, row) # rows) b data g =
     (case mutationData reg mutations (data_of row) of
        None \<Rightarrow> predictRows reg base mutations data_of predictor rows b data g
      | Some m \<Rightarrow>
          (case overlayApply (predictIn reg base (predictor m)) b data of
             None \<Rightarrow> None
           | Some (Inl _, b', data') \<Rightarrow> predictRows reg base mutations data_of predictor rows b' data' g
           | Some (Inr written, b', data') \<Rightarrow>
               predictRows reg base mutations data_of predictor rows b' data' (graphDirty written g)))"

definition outboxRows :: scan_request where
  "outboxRows = \<lparr>sr_pattern = engineKeys (lit ''mutation'') AnyValue, sr_reverse = False, sr_after = None, sr_limit = 1000, sr_values = Some (lit ''.mutation'', JS)\<rparr>"

text \<open>The graph run over the overlay as it is.\<close>

definition runGraph ::
  "('r \<Rightarrow> 'r option \<Rightarrow> bool) \<Rightarrow> ('js, 'host) registry \<Rightarrow> ('b, 'js, 'host) rtxn \<Rightarrow> (jsstr \<times> ('js, 'host) rval) list \<Rightarrow> bool \<Rightarrow>
   'b \<Rightarrow> 'js overlay \<Rightarrow> ('r, 'js, 'host) query_graph \<Rightarrow>
   ((query_error + nat list) \<times> ('r, 'js, 'host) query_graph \<times> 'b) option"
where
  "runGraph differs reg base status held b data g =
     graphRun differs (statusView (overlayView reg base data) status held) b g"

text \<open>
  The rebuild, over one base transaction. The outer \<open>None\<close> is a scan or a query that never ends; an error is
  the scan's of the outbox, or a query's.
\<close>

datatype rebuild_error = OutboxFails store_error | QueryFails query_error

definition rebuildOverlay ::
  "('r \<Rightarrow> 'r option \<Rightarrow> bool) \<Rightarrow> ('js, 'host) registry \<Rightarrow> ('b, 'js, 'host) rtxn \<Rightarrow> jsstr \<Rightarrow>
   (('js, 'host) rval option \<Rightarrow> bytes) \<Rightarrow> ('js \<Rightarrow> ('js, 'host) prediction) option \<Rightarrow> nat \<Rightarrow>
   (jsstr \<times> ('js, 'host) rval) list \<Rightarrow> bool \<Rightarrow> 'b \<Rightarrow> 'js overlay \<Rightarrow> ('r, 'js, 'host) query_graph \<Rightarrow>
   ((rebuild_error + nat list) \<times> 'b \<times> 'js overlay \<times> ('r, 'js, 'host) query_graph) option"
where
  "rebuildOverlay differs reg base mutations data_of predictor outbox status held b data g =
     (let g = graphDirty (overlayKeys data) g in
      case (case predictor of
              Some p \<Rightarrow>
                if outbox > 0 then
                  (case scanAllLoop (\<lambda>b after. rt_scan base (outboxRows\<lparr>sr_after := after\<rparr>) b) b None [] of
                     None \<Rightarrow> None
                   | Some (Inl e, b') \<Rightarrow> Some (Inl e, b', [], g)
                   | Some (Inr rows, b') \<Rightarrow>
                       map_option (\<lambda>(b, data, g). (Inr (), b, data, g)) (predictRows reg base mutations data_of p rows b' [] g))
                else Some (Inr (), b, [], g)
            | None \<Rightarrow> Some (Inr (), b, [], g)) of
        None \<Rightarrow> None
      | Some (Inl e, b', data', g') \<Rightarrow> Some (Inl (OutboxFails e), b', data', g')
      | Some (Inr _, b', data', g') \<Rightarrow>
          map_option (\<lambda>(r, g'', b''). (map_sum QueryFails id r, b'', data', g''))
            (runGraph differs reg base status held b' data' g'))"

end
