(* ===== verification/OverlayScan.thy ===== *)
theory OverlayScan
  imports Overlay
begin

text \<open>
  What a scan of the overlay returns (typespec/ts/assets/skeleton.ts, \<open>OverlayTxn.scan\<close>): over a base
  that keeps the contract \<open>tiled\<close>, the overlay keeps it over the merged keys, so a walk in batches over
  the overlay is the walk of one map, the layers' keys over the base's.
\<close>

section \<open>Spans\<close>

lemma spanCovers_walks:
  "spanCovers s k \<longleftrightarrow> passes (ss_reverse s) (ss_from s) k \<and>
     (\<forall>t. ss_to s = Some t \<longrightarrow> \<not> walks (ss_reverse s) t k) \<and> matchesPattern (ss_pattern s) k"
  by (auto simp: spanCovers_def passes_def walks_def Let_def key_not_less [symmetric] split: option.splits)

section \<open>The merged keys\<close>

definition ovHides :: "('b, 'js) overlay_txn \<Rightarrow> jsstr list" where
  "ovHides t = map fst (ot_updates t) @ map fst (ot_data t)"

definition ovLive :: "('b \<Rightarrow> jsstr list) \<Rightarrow> ('b, 'js) overlay_txn \<Rightarrow> jsstr list" where
  "ovLive live t = sortKeys (filter (\<lambda>k. \<not> otHas t k) (live (ot_base t)) @ otLayerKeys t (\<lambda>_. True))"

definition ovStops :: "('b \<Rightarrow> jsstr set) \<Rightarrow> ('b \<Rightarrow> jsstr list) \<Rightarrow> ('b, 'js) overlay_txn \<Rightarrow> jsstr set" where
  "ovStops stops live t = stops (ot_base t) \<union> set (live (ot_base t)) \<union> set (ovHides t)"

definition ovVal ::
  "((jsstr \<times> rep) option \<Rightarrow> 'b \<Rightarrow> jsstr \<Rightarrow> ('js, 'host) rval option option) \<Rightarrow>
   (jsstr \<times> rep) option \<Rightarrow> ('b, 'js) overlay_txn \<Rightarrow> jsstr \<Rightarrow> ('js, 'host) rval option option"
where
  "ovVal val v t k =
     (if otHas t k then map_option (\<lambda>js. if v = None then None else Some (JsVal js)) (otLayers t k)
      else val v (ot_base t) k)"

definition ovOk ::
  "(compiled_pattern \<Rightarrow> (jsstr \<times> rep) option \<Rightarrow> 'b \<Rightarrow> bool) \<Rightarrow>
   compiled_pattern \<Rightarrow> (jsstr \<times> rep) option \<Rightarrow> ('b, 'js) overlay_txn \<Rightarrow> bool"
where
  "ovOk ok c v t \<longleftrightarrow> ok c v (ot_base t) \<and> (\<forall>(type, rep) \<in> set_option v. rep = JS)"

definition ovShape :: "('b \<Rightarrow> 's) \<Rightarrow> ('b, 'js) overlay_txn \<Rightarrow> 's \<times> 'js updates \<times> 'js updates" where
  "ovShape shape t = (shape (ot_base t), ot_data t, ot_updates t)"

lemma otHas_hides: "otHas t k \<longleftrightarrow> k \<in> set (ovHides t)"
  by (simp add: otHas_def ovHides_def)

lemma otLayers_has: "otLayers t k = Some js \<Longrightarrow> otHas t k"
  by (auto simp: otLayers_def otHas_def bind_eq_Some_conv split: option.splits dest!: map_of_SomeD intro: rev_image_eqI)

lemma otLayerKeys_set:
  "ascending (otLayerKeys t keep)" "set (otLayerKeys t keep) = {k. keep k \<and> otLayers t k \<noteq> None}"
proof -
  show "ascending (otLayerKeys t keep)" unfolding otLayerKeys_def by (rule layerKeys_two)
  show "set (otLayerKeys t keep) = {k. keep k \<and> otLayers t k \<noteq> None}"
    unfolding otLayerKeys_def layerKeys_two(2) otLayers_def
    by (auto simp: bind_eq_Some_conv split: option.splits)
qed

lemma ovLive_ascending: "ascending (live (ot_base t)) \<Longrightarrow> ascending (ovLive live t)"
  unfolding ovLive_def
  by (rule sortKeys_ascending)
    (auto simp: otLayerKeys_set(2) dest: ascending_distinct otLayers_has intro: ascending_distinct [OF otLayerKeys_set(1)])

lemma ovLive_set: "k \<in> set (ovLive live t) \<longleftrightarrow> (if otHas t k then otLayers t k \<noteq> None else k \<in> set (live (ot_base t)))"
  by (auto simp: ovLive_def otLayerKeys_set dest: otLayers_has)

lemma ov_base_simps [simp]:
  "otHas (t\<lparr>ot_base := b\<rparr>) = otHas t" "otLayers (t\<lparr>ot_base := b\<rparr>) = otLayers t" "ovHides (t\<lparr>ot_base := b\<rparr>) = ovHides t"
  "otLayerKeys (t\<lparr>ot_base := b\<rparr>) = otLayerKeys t"
  by (auto simp: otHas_def otLayers_def ovHides_def otLayerKeys_def fun_eq_iff split: option.split)

lemma ov_base_same:
  assumes "live b = live (ot_base t)" "stops b = stops (ot_base t)" "val v b = val v (ot_base t)"
  shows "ovLive live (t\<lparr>ot_base := b\<rparr>) = ovLive live t" "ovStops stops live (t\<lparr>ot_base := b\<rparr>) = ovStops stops live t"
    "ovVal val v (t\<lparr>ot_base := b\<rparr>) = ovVal val v t"
  using assms by (simp_all add: ovLive_def ovStops_def ovVal_def fun_eq_iff)

section \<open>The merge\<close>

lemma shown_entries:
  "map_of (fold (\<lambda>(k, v) m. if h k then m else AList.update k v m) es m) k =
     (if h k then map_of m k else case map_of (rev es) k of Some v \<Rightarrow> Some v | None \<Rightarrow> map_of m k)"
proof (induction es arbitrary: m)
  case (Cons e es)
  then show ?case by (cases e) (auto simp: update_conv' map_add_def split: option.split)
qed simp

lemma shown_distinct:
  "distinct (map fst m) \<Longrightarrow> distinct (map fst (fold (\<lambda>(k, v) m. if h k then m else AList.update k v m) es m))"
  by (induction es arbitrary: m) (auto simp: distinct_update split: prod.splits)

lemma otMerge_js:
  assumes "\<forall>(type, rep) \<in> set_option v. rep = JS" "\<forall>k \<in> set ks. otLayers t k \<noteq> None"
  shows "\<exists>m'. otMerge reg t v ks m = Inr m' \<and> (distinct (map fst m) \<longrightarrow> distinct (map fst m')) \<and>
    (\<forall>k. map_of m' k = (if k \<in> set ks then map_option (\<lambda>js. if v = None then None else Some (JsVal js)) (otLayers t k)
        else map_of m k))"
  using assms
proof (induction ks arbitrary: m)
  case (Cons k ks)
  obtain js where js: "otLayers t k = Some js" using Cons.prems by auto
  define m1 where "m1 = AList.update k (if v = None then None else Some (JsVal js)) m"
  have "otMerge reg t v (k # ks) m = otMerge reg t v ks m1"
    using Cons.prems js by (cases v) (auto simp: m1_def layerOut_def)
  moreover obtain m' where "otMerge reg t v ks m1 = Inr m'" "distinct (map fst m1) \<longrightarrow> distinct (map fst m')"
      "\<forall>k. map_of m' k = (if k \<in> set ks then map_option (\<lambda>js. if v = None then None else Some (JsVal js)) (otLayers t k)
        else map_of m1 k)"
    using Cons.IH [of m1] Cons.prems by auto
  ultimately show ?case using js by (auto simp: m1_def distinct_update update_conv')
qed simp

text \<open>Entries of sorted keys are read back by key.\<close>

lemma map_of_pick: "map_of (pickEntries f ks) k = (if k \<in> set ks then f k else None)"
  by (induction ks) (auto split: option.split)

lemma pick_rev: "pickEntries f (rev ks) = rev (pickEntries f ks)"
  by (induction ks) (auto split: option.split)

lemma pick_keys: "map fst (pickEntries f ks) = filter (\<lambda>k. f k \<noteq> None) ks"
  by (induction ks) (auto split: option.split)

lemma pick_filter: "(\<And>k. k \<in> set ks \<Longrightarrow> \<not> P k \<Longrightarrow> f k = None) \<Longrightarrow> pickEntries f (filter P ks) = pickEntries f ks"
  by (induction ks) auto

lemma pick_entries:
  assumes "ks = filter (\<lambda>k. f k \<noteq> None) xs" "\<And>k. k \<in> set ks \<Longrightarrow> m k = f k"
  shows "map (\<lambda>k. (k, the (m k))) ks = pickEntries f xs"
  using assms
proof (induction xs arbitrary: ks)
  case (Cons x xs)
  show ?case
  proof (cases "f x")
    case None
    then show ?thesis using Cons.IH [of ks] Cons.prems by simp
  next
    case (Some y)
    then have ks: "ks = x # filter (\<lambda>k. f k \<noteq> None) xs" using Cons.prems(1) by simp
    have "map (\<lambda>k. (k, the (m k))) (filter (\<lambda>k. f k \<noteq> None) xs) = pickEntries f xs"
      by (rule Cons.IH [OF refl]) (use Cons.prems(2) ks in auto)
    then show ?thesis using Some ks Cons.prems(2) [of x] by simp
  qed
qed simp

section \<open>A batch\<close>

lemma walks_at: "walks True = (\<lambda>x y. key_less y x)" "walks False = key_less"
  by (simp_all add: walks_def fun_eq_iff)

lemma walks_unique:
  assumes "sorted_wrt (walks r) xs" "sorted_wrt (walks r) ys" "set xs = set ys"
  shows "xs = ys"
proof (cases r)
  case True
  then have "ascending (rev xs)" "ascending (rev ys)" using assms by (simp_all add: walks_at sorted_wrt_rev)
  then have "rev xs = rev ys" by (rule ascending_unique) (use assms in simp)
  then show ?thesis by simp
next
  case False
  then show ?thesis using assms by (intro ascending_unique) (simp_all add: walks_at)
qed

lemma sorted_walks_distinct: "sorted_wrt (walks r) xs \<Longrightarrow> distinct xs"
  by (induction xs) (auto simp: walks_facts)

lemma walks_not_trans: "\<not> walks r a b \<Longrightarrow> \<not> walks r b c \<Longrightarrow> \<not> walks r a c"
  by (auto simp: walks_def key_less_def split: if_splits)

text \<open>The stretch of a walk that a span covers.\<close>

definition stretch :: "bool \<Rightarrow> jsstr option \<Rightarrow> jsstr list \<Rightarrow> jsstr list" where
  "stretch r to W = (case to of None \<Rightarrow> W | Some t \<Rightarrow> filter (\<lambda>k. \<not> walks r t k) W)"

lemma stretch_filter: "stretch r to W = filter (\<lambda>k. \<forall>t. to = Some t \<longrightarrow> \<not> walks r t k) W"
  by (simp add: stretch_def split: option.split)

lemma stretch_set: "set (stretch r to W) = {k \<in> set W. \<forall>t. to = Some t \<longrightarrow> \<not> walks r t k}"
  by (auto simp: stretch_def split: option.split)

lemma stretch_sorted: "sorted_wrt (walks r) W \<Longrightarrow> sorted_wrt (walks r) (stretch r to W)"
  by (auto simp: stretch_def intro: sorted_wrt_filter split: option.split)

lemma tile_stretch:
  "tile c req keys val es next' \<longleftrightarrow>
     es = pickEntries val (stretch (sr_reverse req) next' (walkFrom c (sr_reverse req) (sr_after req) keys)) \<and>
     (\<forall>k. next' = Some k \<longrightarrow> prefix (cp_head c) k \<and> passes (sr_reverse req) (sr_after req) k)"
  by (auto simp: tile_def stretch_def Let_def split: option.split)

text \<open>A page of entries that are those of a stretch is a batch of the walk, and so is what is cut from it.\<close>

lemma otPage_tile:
  assumes keys: "ascending keys" and c: "compilePattern (sr_pattern req) = Inr c" "name_ok (sr_pattern req)"
    and limit: "1 \<le> sr_limit req"
    and next': "\<And>k. base_next = Some k \<Longrightarrow> prefix (cp_head c) k \<and> passes (sr_reverse req) (sr_after req) k"
    and m: "distinct (map fst merged)"
      "\<And>k. map_of merged k = (if k \<in> set (stretch (sr_reverse req) base_next (walkFrom c (sr_reverse req) (sr_after req) keys))
         then val k else None)"
    and page: "otPage req merged base_next = (es, n)"
  shows "tile c req keys val es n \<and> set_option n \<subseteq> set_option base_next \<union> set keys"
proof -
  let ?r = "sr_reverse req" and ?n = "sr_limit req"
  let ?W = "walkFrom c ?r (sr_after req) keys" let ?S = "stretch ?r base_next ?W"
  let ?ks = "if ?r then rev (sortKeys (map fst merged)) else sortKeys (map fst merged)"
  define F where "F = filter (\<lambda>k. val k \<noteq> None) ?S"
  have W: "sorted_wrt (walks ?r) ?W" by (rule walkFrom_sorted [OF keys])
  have set_m: "set (map fst merged) = set F"
  proof -
    have "k \<in> set (map fst merged) \<longleftrightarrow> map_of merged k \<noteq> None" for k by (simp add: map_of_eq_None_iff)
    then have "k \<in> set (map fst merged) \<longleftrightarrow> k \<in> set F" for k unfolding m(2) F_def by simp
    then show ?thesis by (rule set_eqI)
  qed
  have ks: "?ks = F"
  proof (rule walks_unique)
    show "sorted_wrt (walks ?r) ?ks" using sortKeys_ascending [OF m(1)] by (cases ?r) (simp_all add: walks_at sorted_wrt_rev)
    show "sorted_wrt (walks ?r) F" unfolding F_def by (intro sorted_wrt_filter stretch_sorted W)
    show "set ?ks = set F" using set_m by auto
  qed
  have val: "map_of merged k = val k" if "k \<in> set F" for k using that m(2) by (simp add: F_def)
  let ?k = "F ! (?n - 1)"
  have es: "es = map (\<lambda>k. (k, the (map_of merged k))) (take ?n F)"
    and n: "n = (if \<not> length F \<ge> ?n \<and> base_next \<noteq> None then base_next else if length F \<ge> ?n then Some ?k else None)"
    using page unfolding otPage_def Let_def ks by auto
  show ?thesis
  proof (cases "length F \<ge> ?n")
    case False
    have "n = base_next" using False n by auto
    moreover have "es = pickEntries val ?S"
      using False es pick_entries [OF F_def] val by simp
    ultimately show ?thesis using next' by (auto simp: tile_stretch)
  next
    case True
    have i: "?n - 1 < length F" using True limit by simp
    have k: "?k \<in> set F" using i by (rule nth_mem)
    have kW: "?k \<in> set ?W" using k by (auto simp: stretch_set F_def)
    have pre: "prefix (cp_head c) ?k" "passes ?r (sr_after req) ?k"
      using walk_keys_head [OF c] kW by (simp add: walkFrom_def) (use kW in \<open>simp add: walkFrom_passes [OF keys]\<close>)
    have "sorted_wrt (walks ?r) F" unfolding F_def by (intro sorted_wrt_filter stretch_sorted W)
    then have cut: "take ?n F = filter (\<lambda>x. \<not> walks ?r ?k x) F" using sorted_take_filter [OF _ i] limit by simp
    have inside: "\<not> walks ?r t x" if "base_next = Some t" "\<not> walks ?r ?k x" for t x
    proof (rule walks_not_trans [OF _ that(2)])
      have "?k \<in> set ?S" using k unfolding F_def by simp
      then show "\<not> walks ?r t ?k" using that(1) by (simp add: stretch_set)
    qed
    have short: "filter (\<lambda>x. \<not> walks ?r j x) F = filter (\<lambda>k. val k \<noteq> None) (stretch ?r (Some j) ?W)"
      if "\<And>t x. base_next = Some t \<Longrightarrow> \<not> walks ?r j x \<Longrightarrow> \<not> walks ?r t x" for j
      unfolding F_def stretch_filter filter_filter by (intro filter_cong refl) (use that in auto)
    have "filter (\<lambda>x. \<not> walks ?r ?k x) F = filter (\<lambda>k. val k \<noteq> None) (stretch ?r (Some ?k) ?W)"
      by (rule short) (rule inside)
    then have cut': "take ?n F = filter (\<lambda>k. val k \<noteq> None) (stretch ?r (Some ?k) ?W)" unfolding cut .
    have "es = pickEntries val (stretch ?r (Some ?k) ?W)"
      unfolding es by (rule pick_entries [OF cut']) (use val in \<open>auto dest: in_set_takeD\<close>)
    then show ?thesis using True n pre kW by (auto simp: tile_stretch walkFrom_passes [OF keys])
  qed
qed

section \<open>The overlay over a base that keeps the contract\<close>

locale overlaid = tiled scan ok live stops val shape
  for scan :: "scan_request \<Rightarrow> 'b \<Rightarrow> ((store_error + ('js, 'host) entry list \<times> jsstr option) \<times> 'b) option"
    and ok :: "compiled_pattern \<Rightarrow> (jsstr \<times> rep) option \<Rightarrow> 'b \<Rightarrow> bool"
    and live :: "'b \<Rightarrow> jsstr list"
    and stops :: "'b \<Rightarrow> jsstr set"
    and val :: "(jsstr \<times> rep) option \<Rightarrow> 'b \<Rightarrow> jsstr \<Rightarrow> ('js, 'host) rval option option"
    and shape :: "'b \<Rightarrow> 's" +
  fixes reg :: "('js, 'host) registry"
begin

lemma merged_entries:
  assumes keys: "ascending (live (ot_base t))" and v: "\<forall>(type, rep) \<in> set_option v. rep = JS"
    and base: "es = pickEntries (val v (ot_base t)) (stretch r to (walkFrom c r after (live (ot_base t))))"
    and m: "shown = fold (\<lambda>(k, v) m. if otHas t k then m else AList.update k v m) es []"
  shows "\<exists>m'. otMerge reg t v (otLayerKeys t (spanCovers \<lparr>ss_pattern = c, ss_reverse = r, ss_from = after, ss_to = to\<rparr>)) shown = Inr m' \<and>
    distinct (map fst m') \<and>
    (\<forall>k. map_of m' k = (if k \<in> set (stretch r to (walkFrom c r after (ovLive live t))) then ovVal val v t k else None))"
proof -
  let ?span = "\<lparr>ss_pattern = c, ss_reverse = r, ss_from = after, ss_to = to\<rparr>"
  have in_span: "k \<in> set (stretch r to (walkFrom c r after ks)) \<longleftrightarrow> k \<in> set ks \<and> spanCovers ?span k" if "ascending ks" for k ks
    by (auto simp: stretch_set walkFrom_passes [OF that] spanCovers_walks)
  have es: "map_of (rev es) k = (if k \<in> set (live (ot_base t)) \<and> spanCovers ?span k then val v (ot_base t) k else None)" for k
    by (simp add: base pick_rev [symmetric] map_of_pick in_span [OF keys])
  have shown: "map_of shown k = (if otHas t k \<or> \<not> (k \<in> set (live (ot_base t)) \<and> spanCovers ?span k) then None else val v (ot_base t) k)"
    for k by (simp add: m shown_entries es split: option.split)
  have "distinct (map fst shown)" unfolding m by (rule shown_distinct) simp
  moreover have "\<forall>k \<in> set (otLayerKeys t (spanCovers ?span)). otLayers t k \<noteq> None" by (simp add: otLayerKeys_set)
  ultimately obtain m' where m': "otMerge reg t v (otLayerKeys t (spanCovers ?span)) shown = Inr m'" "distinct (map fst m')"
      "\<And>k. map_of m' k = (if k \<in> set (otLayerKeys t (spanCovers ?span))
        then map_option (\<lambda>js. if v = None then None else Some (JsVal js)) (otLayers t k) else map_of shown k)"
    using otMerge_js [OF v] by blast
  have "map_of m' k = (if k \<in> set (stretch r to (walkFrom c r after (ovLive live t))) then ovVal val v t k else None)" for k
    unfolding m'(3) in_span [OF ovLive_ascending [of live, OF keys]] ovLive_set otLayerKeys_set shown ovVal_def
    by (auto dest: otLayers_has)
  then show ?thesis using m' by blast
qed

lemma overlay_tile:
  assumes ok: "ovOk ok c (sr_values req) t" and a: "askable c req"
  shows "\<exists>es next' t'. otScan reg scan req t = Some (Inr (es, next'), t') \<and>
    tile c req (ovLive live t) (ovVal val (sr_values req) t) es next' \<and> set_option next' \<subseteq> ovStops stops live t \<and>
    ovOk ok c (sr_values req) t' \<and> ovLive live t' = ovLive live t \<and> ovStops stops live t' = ovStops stops live t \<and>
    ovVal val (sr_values req) t' = ovVal val (sr_values req) t \<and> ovShape shape t' = ovShape shape t"
proof -
  let ?r = "sr_reverse req" and ?v = "sr_values req"
  have base_ok: "ok c ?v (ot_base t)" and v: "\<forall>(type, rep) \<in> set_option ?v. rep = JS" using ok by (simp_all add: ovOk_def)
  have c: "compilePattern (sr_pattern req) = Inr c" "name_ok (sr_pattern req)" "1 \<le> sr_limit req"
    using a by (simp_all add: askable_def)
  obtain es base_next b where s: "scan req (ot_base t) = Some (Inr (es, base_next), b)"
      and tile: "tile c req (live (ot_base t)) (val ?v (ot_base t)) es base_next" and n: "set_option base_next \<subseteq> stops (ot_base t)"
      and b: "ok c ?v b" "live b = live (ot_base t)" "stops b = stops (ot_base t)" "val ?v b = val ?v (ot_base t)" "shape b = shape (ot_base t)"
    using scan_tile [OF base_ok a] by blast
  have es: "es = pickEntries (val ?v (ot_base t)) (stretch ?r base_next (walkFrom c ?r (sr_after req) (live (ot_base t))))"
    and pre: "\<And>k. base_next = Some k \<Longrightarrow> prefix (cp_head c) k \<and> passes ?r (sr_after req) k"
    using tile by (auto simp: tile_stretch)
  have keys: "ascending (live (ot_base t))" by (rule live_ascending [OF base_ok])
  obtain m where m: "otMerge reg t ?v (otLayerKeys t (spanCovers
        \<lparr>ss_pattern = c, ss_reverse = ?r, ss_from = sr_after req, ss_to = base_next\<rparr>))
      (fold (\<lambda>(k, v) m. if otHas t k then m else AList.update k v m) es []) = Inr m" "distinct (map fst m)"
      "\<And>k. map_of m k = (if k \<in> set (stretch ?r base_next (walkFrom c ?r (sr_after req) (ovLive live t))) then ovVal val ?v t k else None)"
    using merged_entries [OF keys v es refl] by blast
  obtain es' next' where p: "otPage req m base_next = (es', next')" by fastforce
  have "otScan reg scan req t = Some (Inr (es', next'), t\<lparr>ot_base := b\<rparr>)"
    using s c(1) m(1) p by (simp add: otScan_def Let_def)
  moreover have "tile c req (ovLive live t) (ovVal val ?v t) es' next' \<and> set_option next' \<subseteq> set_option base_next \<union> set (ovLive live t)"
    by (rule otPage_tile [OF ovLive_ascending [of live, OF keys] c pre m(2,3) p])
  moreover have "set (ovLive live t) \<subseteq> set (live (ot_base t)) \<union> set (ovHides t)"
    by (auto simp: ovLive_set otHas_hides split: if_splits)
  ultimately show ?thesis
    using n b v ov_base_same [where live = live and b = b and t = t and stops = stops and val = val and v = ?v] by (auto simp: ovOk_def ovStops_def ovShape_def)
qed

lemma overlay_finite: "ovOk ok c v t \<Longrightarrow> ascending (ovLive live t) \<and> finite (ovStops stops live t)"
  using live_ascending [of c v "ot_base t"] stops_finite [of c v "ot_base t"] ovLive_ascending [of live t]
  by (simp add: ovOk_def ovStops_def)

end

sublocale overlaid \<subseteq> over: tiled "otScan reg scan" "ovOk ok" "ovLive live" "ovStops stops live" "ovVal val" "ovShape shape"
proof
  show "ovOk ok c v t \<Longrightarrow> ascending (ovLive live t)" "ovOk ok c v t \<Longrightarrow> finite (ovStops stops live t)" for c v t
    using overlay_finite by blast+
  show "ovOk ok c None t \<Longrightarrow> k \<in> set (ovLive live t) \<Longrightarrow> ovVal val None t k \<noteq> None" for c t k
    using keys_shown [of c "ot_base t" k] by (auto simp: ovOk_def ovLive_set ovVal_def split: if_splits)
qed (rule overlay_tile)

section \<open>An overlay that deletes nothing\<close>

text \<open>
  Where the layers hold no deletion, a full batch of the base stays full, and the overlay's \<open>next\<close> is the
  last entry it returns, as a base's is.
\<close>

definition ovSolid ::
  "(compiled_pattern \<Rightarrow> (jsstr \<times> rep) option \<Rightarrow> 'b \<Rightarrow> bool) \<Rightarrow>
   compiled_pattern \<Rightarrow> (jsstr \<times> rep) option \<Rightarrow> ('b, 'js) overlay_txn \<Rightarrow> bool"
where
  "ovSolid solid c v t \<longleftrightarrow> solid c v (ot_base t) \<and> (\<forall>k \<in> set (ovHides t). otLayers t k \<noteq> None)"

lemma otPage_last:
  assumes "otPage req m base_next = (es, n)" "1 \<le> sr_limit req" "distinct (map fst m)"
    and "base_next \<noteq> None \<Longrightarrow> sr_limit req \<le> length m"
  shows "length es \<le> sr_limit req \<and> n = (if length es = sr_limit req then Some (fst (last es)) else None)"
proof -
  define keys where "keys = (if sr_reverse req then rev (sortKeys (map fst m)) else sortKeys (map fst m))"
  have len: "length keys = length m" by (simp add: keys_def)
  have es: "es = map (\<lambda>k. (k, the (map_of m k))) (take (sr_limit req) keys)"
    and n: "n = (if length keys \<ge> sr_limit req then Some (keys ! (sr_limit req - 1)) else base_next)"
    using assms(1) unfolding otPage_def Let_def keys_def [symmetric] by auto
  show ?thesis
  proof (cases "length keys \<ge> sr_limit req")
    case True
    then have "keys ! (sr_limit req - 1) = last (take (sr_limit req) keys)" using assms(2) by (subst last_conv_nth) auto
    moreover have "take (sr_limit req) keys \<noteq> []" using True assms(2) by auto
    ultimately show ?thesis using True n by (simp add: es last_map)
  next
    case False
    then have "base_next = None" using assms(4) len by fastforce
    then show ?thesis using False n by (simp add: es)
  qed
qed

locale predicted = paged scan ok live stops val shape solid
  for scan :: "scan_request \<Rightarrow> 'b \<Rightarrow> ((store_error + ('js, 'host) entry list \<times> jsstr option) \<times> 'b) option"
    and ok :: "compiled_pattern \<Rightarrow> (jsstr \<times> rep) option \<Rightarrow> 'b \<Rightarrow> bool"
    and live :: "'b \<Rightarrow> jsstr list"
    and stops :: "'b \<Rightarrow> jsstr set"
    and val :: "(jsstr \<times> rep) option \<Rightarrow> 'b \<Rightarrow> jsstr \<Rightarrow> ('js, 'host) rval option option"
    and shape :: "'b \<Rightarrow> 's"
    and solid :: "compiled_pattern \<Rightarrow> (jsstr \<times> rep) option \<Rightarrow> 'b \<Rightarrow> bool" +
  fixes reg :: "('js, 'host) registry"

sublocale predicted \<subseteq> overlaid scan ok live stops val shape reg
  by unfold_locales

context predicted
begin

lemma overlay_next_last:
  assumes ok: "ovOk ok c (sr_values req) t" and solid: "ovSolid solid c (sr_values req) t" and a: "askable c req"
    and scan: "otScan reg scan req t = Some (Inr (es', next'), t')"
  shows "length es' \<le> sr_limit req \<and> next' = (if length es' = sr_limit req then Some (fst (last es')) else None)"
proof -
  let ?r = "sr_reverse req" and ?v = "sr_values req"
  have base_ok: "ok c ?v (ot_base t)" and v: "\<forall>(type, rep) \<in> set_option ?v. rep = JS" using ok by (simp_all add: ovOk_def)
  have base_solid: "solid c ?v (ot_base t)" and shown: "\<And>k. otHas t k \<Longrightarrow> otLayers t k \<noteq> None"
    using solid by (auto simp: ovSolid_def otHas_hides)
  have c: "compilePattern (sr_pattern req) = Inr c" "1 \<le> sr_limit req" using a by (simp_all add: askable_def)
  have keys: "ascending (live (ot_base t))" by (rule live_ascending [OF base_ok])
  obtain es base_next b where s: "scan req (ot_base t) = Some (Inr (es, base_next), b)"
      and tile: "tile c req (live (ot_base t)) (val ?v (ot_base t)) es base_next"
    using scan_tile [OF base_ok a] by blast
  let ?S = "stretch ?r base_next (walkFrom c ?r (sr_after req) (live (ot_base t)))"
  have es: "es = pickEntries (val ?v (ot_base t)) ?S" using tile by (auto simp: tile_stretch)
  obtain m where m: "otMerge reg t ?v (otLayerKeys t (spanCovers
        \<lparr>ss_pattern = c, ss_reverse = ?r, ss_from = sr_after req, ss_to = base_next\<rparr>))
      (fold (\<lambda>(k, v) m. if otHas t k then m else AList.update k v m) es []) = Inr m" "distinct (map fst m)"
      "\<And>k. map_of m k = (if k \<in> set (stretch ?r base_next (walkFrom c ?r (sr_after req) (ovLive live t))) then ovVal val ?v t k else None)"
    using merged_entries [OF keys v es refl] by blast
  have p: "otPage req m base_next = (es', next')" using scan s c(1) m(1) by (simp add: otScan_def Let_def)
  have in_S: "k \<in> set (stretch ?r base_next (walkFrom c ?r (sr_after req) ks)) \<longleftrightarrow> k \<in> set ks \<and>
      passes ?r (sr_after req) k \<and> matchesPattern c k \<and> (\<forall>t. base_next = Some t \<longrightarrow> \<not> walks ?r t k)" if "ascending ks" for k ks
    by (auto simp: stretch_set walkFrom_passes [OF that])
  have "set (map fst es) \<subseteq> set (map fst m)"
  proof
    fix k
    assume "k \<in> set (map fst es)"
    then have k: "k \<in> set ?S" "val ?v (ot_base t) k \<noteq> None" by (simp_all add: es pick_keys)
    then have "map_of m k \<noteq> None"
      using shown [of k] unfolding m(3) in_S [OF keys] in_S [OF ovLive_ascending [of live, OF keys]] ovLive_set ovVal_def by auto
    then show "k \<in> set (map fst m)" by (simp add: map_of_eq_None_iff)
  qed
  moreover have "distinct (map fst es)"
  proof -
    have "sorted_wrt (walks ?r) (map fst es)"
      unfolding es pick_keys by (intro sorted_wrt_filter stretch_sorted walkFrom_sorted keys)
    then show ?thesis by (simp add: sorted_walks_distinct)
  qed
  ultimately have "length es \<le> length m" using card_mono [of "set (map fst m)" "set (map fst es)"] m(2) by (simp add: distinct_card del: set_map)
  then show ?thesis
    using next_last [OF base_ok base_solid a s] by (intro otPage_last [OF p c(2) m(2)]) (auto split: if_splits)
qed

end

sublocale predicted \<subseteq> shown: paged "otScan reg scan" "ovOk ok" "ovLive live" "ovStops stops live" "ovVal val" "ovShape shape" "ovSolid solid"
  by unfold_locales (rule overlay_next_last)

text \<open>The overlay over the in-memory store, as the Engine has it.\<close>

interpretation memOver: overlaid "\<lambda>req t. mtScan DEV reg t req" "memOk DEV tyof" liveKeys "\<lambda>t. set (liveKeys t)"
    "memVal reg tyof" "memShape reg tyof" reg for DEV reg tyof
  by unfold_locales

interpretation memPredicted: predicted "\<lambda>req t. mtScan DEV reg t req" "memOk DEV tyof" liveKeys "\<lambda>t. set (liveKeys t)"
    "memVal reg tyof" "memShape reg tyof" "memSolid reg tyof" reg for DEV reg tyof
  by unfold_locales

end
