(* ===== verification/QueryFresh.thy ===== *)
theory QueryFresh
  imports QueryGraph OverlayScan
begin

text \<open>
  Why a query need run again only when a key it read changes (typespec/ts/assets/skeleton.ts,
  \<open>QueryImpl\<close>): a reference run over a snapshot of the keys and their values, without batches, spans or
  generators; the run proper answers as the reference does, and what it records covers every key the
  reference looked at, those passed over and those found absent too; and the reference answers the same
  over two snapshots that agree on the keys it looked at.
\<close>

section \<open>The reference run\<close>

record ('js, 'host) snapshot =
  sn_keys :: "jsstr list"
  sn_get :: "jsstr \<Rightarrow> ('js, 'host) rval option"

definition patternOf :: "read_scan \<Rightarrow> compiled_pattern" where
  "patternOf req = (case compilePattern (rs_pattern req) of Inr c \<Rightarrow> c | Inl _ \<Rightarrow> \<lparr>cp_head = [], cp_fields = []\<rparr>)"

definition snWalk :: "('js, 'host) snapshot \<Rightarrow> read_scan \<Rightarrow> jsstr option \<Rightarrow> jsstr list" where
  "snWalk sn req pos = walkFrom (patternOf req) (rs_reverse req) pos (sn_keys sn)"

definition snValue :: "('js, 'host) snapshot \<Rightarrow> read_scan \<Rightarrow> jsstr \<Rightarrow> ('js, 'host) rval option" where
  "snValue sn req k = (if rs_type req = None then None else sn_get sn k)"

text \<open>What a run looked at: a key, or every key from one place of a walk to another.\<close>

datatype look = LookKey jsstr | LookSpan scan_span

definition stepLook :: "read_scan \<Rightarrow> jsstr option \<Rightarrow> jsstr option \<Rightarrow> look" where
  "stepLook req pos to = LookSpan \<lparr>ss_pattern = patternOf req, ss_reverse = rs_reverse req, ss_from = pos, ss_to = to\<rparr>"

text \<open>A walk of the reference is where it is, and whether it is over.\<close>

type_synonym place = "read_scan \<times> jsstr option \<times> bool"

primrec refRun ::
  "('js, 'host) snapshot \<Rightarrow> ('r, 'js, 'host) query \<Rightarrow> place list \<Rightarrow> (query_error + 'r) \<times> look list"
where
  "refRun sn (Answer r) ps = (Inr r, [])"
| "refRun sn (Throw e) ps = (Inl e, [])"
| "refRun sn (Get key type q) ps = map_prod id ((#) (LookKey key)) (refRun sn (q (Inr (sn_get sn key))) ps)"
| "refRun sn (Walk req q) ps = refRun sn (q (length ps)) (ps @ [(req, None, False)])"
| "refRun sn (Next i q) ps =
     (if i < length ps then
        (case ps ! i of
           (req, pos, over) \<Rightarrow>
             if over then refRun sn (q (Inr None)) ps
             else
               (case snWalk sn req pos of
                  [] \<Rightarrow> map_prod id ((#) (stepLook req pos None)) (refRun sn (q (Inr None)) (ps[i := (req, pos, True)]))
                | k # _ \<Rightarrow>
                    map_prod id ((#) (stepLook req pos (Some k)))
                      (refRun sn (q (Inr (Some (parseKey (rs_pattern req) k, snValue sn req k)))) (ps[i := (req, Some k, False)]))))
      else refRun sn (q (Inr None)) ps)"

section \<open>The reference looks at what it says\<close>

fun looked :: "look \<Rightarrow> jsstr \<Rightarrow> bool" where
  "looked (LookKey k) x = (x = k)"
| "looked (LookSpan s) x = spanCovers s x"

definition agreeOn :: "(jsstr \<Rightarrow> bool) \<Rightarrow> ('js, 'host) snapshot \<Rightarrow> ('js, 'host) snapshot \<Rightarrow> bool" where
  "agreeOn D sn sn' \<longleftrightarrow> (\<forall>x. D x \<longrightarrow> sn_get sn x = sn_get sn' x \<and> (x \<in> set (sn_keys sn) \<longleftrightarrow> x \<in> set (sn_keys sn')))"

lemma looked_step: "looked (stepLook req pos to) x \<longleftrightarrow>
    passes (rs_reverse req) pos x \<and> (\<forall>t. to = Some t \<longrightarrow> \<not> walks (rs_reverse req) t x) \<and> matchesPattern (patternOf req) x"
  by (simp add: stepLook_def spanCovers_walks)

lemma snWalk_in:
  assumes "ascending (sn_keys sn)"
  shows "x \<in> set (snWalk sn req pos) \<longleftrightarrow> x \<in> set (sn_keys sn) \<and> passes (rs_reverse req) pos x \<and> matchesPattern (patternOf req) x"
    "sorted_wrt (walks (rs_reverse req)) (snWalk sn req pos)"
  unfolding snWalk_def using walkFrom_sorted [OF assms] by (auto simp: walkFrom_passes [OF assms])

lemma snWalk_same:
  assumes "ascending (sn_keys sn)" "ascending (sn_keys sn')"
    and agree: "\<And>x. looked (stepLook req pos to) x \<Longrightarrow> x \<in> set (sn_keys sn) \<longleftrightarrow> x \<in> set (sn_keys sn')"
  shows "filter (\<lambda>x. \<forall>t. to = Some t \<longrightarrow> \<not> walks (rs_reverse req) t x) (snWalk sn req pos) =
    filter (\<lambda>x. \<forall>t. to = Some t \<longrightarrow> \<not> walks (rs_reverse req) t x) (snWalk sn' req pos)"
proof (rule walks_unique)
  show "set (filter (\<lambda>x. \<forall>t. to = Some t \<longrightarrow> \<not> walks (rs_reverse req) t x) (snWalk sn req pos)) =
      set (filter (\<lambda>x. \<forall>t. to = Some t \<longrightarrow> \<not> walks (rs_reverse req) t x) (snWalk sn' req pos))"
    using agree by (auto simp: looked_step snWalk_in [OF assms(1)] snWalk_in [OF assms(2)])
qed (rule sorted_wrt_filter, rule snWalk_in(2), rule assms)+

lemma snWalk_end:
  assumes "ascending (sn_keys sn)" "ascending (sn_keys sn')" "snWalk sn req pos = []"
    and "\<And>x. looked (stepLook req pos None) x \<Longrightarrow> x \<in> set (sn_keys sn) \<longleftrightarrow> x \<in> set (sn_keys sn')"
  shows "snWalk sn' req pos = []"
  using snWalk_same [where to = None and req = req and pos = pos, OF assms(1,2,4)] assms(3) by simp

lemma snWalk_first:
  assumes "ascending (sn_keys sn)" "ascending (sn_keys sn')" "snWalk sn req pos = k # ks"
    and "\<And>x. looked (stepLook req pos (Some k)) x \<Longrightarrow> x \<in> set (sn_keys sn) \<longleftrightarrow> x \<in> set (sn_keys sn')"
  obtains ks' where "snWalk sn' req pos = k # ks'"
proof -
  let ?r = "rs_reverse req"
  have s: "filter (\<lambda>x. \<not> walks ?r k x) (snWalk sn' req pos) = filter (\<lambda>x. \<not> walks ?r k x) (k # ks)"
    using snWalk_same [where to = "Some k" and req = req and pos = pos, OF assms(1,2,4)] by (simp add: assms(3))
  have "\<forall>x \<in> set ks. walks ?r k x" using snWalk_in(2) [OF assms(1), of req pos] assms(3) by simp
  then have "filter (\<lambda>x. \<not> walks ?r k x) (k # ks) = [k]" by (simp add: walks_facts filter_empty_conv)
  then have one: "filter (\<lambda>x. \<not> walks ?r k x) (snWalk sn' req pos) = [k]" using s by simp
  show thesis
  proof (cases "snWalk sn' req pos")
    case (Cons y ys)
    have "\<not> walks ?r k y"
    proof
      assume w: "walks ?r k y"
      have "\<forall>x \<in> set ys. walks ?r y x" using snWalk_in(2) [OF assms(2), of req pos] Cons by simp
      then have "filter (\<lambda>x. \<not> walks ?r k x) (snWalk sn' req pos) = []" using w Cons walks_trans by (auto simp: filter_empty_conv)
      then show False using one by simp
    qed
    then show thesis using one Cons that by simp
  qed (use one in simp)
qed

text \<open>The reference answers the same, and looks at the same, where the keys it looked at are as they were.\<close>

lemma refRun_same:
  assumes "ascending (sn_keys sn)" "ascending (sn_keys sn')"
  shows "(\<forall>l \<in> set (snd (refRun sn q ps)). agreeOn (looked l) sn sn') \<Longrightarrow> refRun sn' q ps = refRun sn q ps"
proof (induction q arbitrary: ps)
  case (Get key type q)
  then show ?case by (auto simp: agreeOn_def)
next
  case (Walk req q)
  then show ?case by simp
next
  case (Next i q)
  show ?case
  proof (cases "i < length ps \<and> \<not> snd (snd (ps ! i))")
    case True
    obtain req pos where p: "ps ! i = (req, pos, False)" using True by (cases "ps ! i") auto
    show ?thesis
    proof (cases "snWalk sn req pos")
      case Nil
      then have "snWalk sn' req pos = []"
        using Next.prems True p by (intro snWalk_end [OF assms Nil]) (auto simp: agreeOn_def)
      then show ?thesis using Next True p Nil by auto
    next
      case (Cons k ks)
      have a: "agreeOn (looked (stepLook req pos (Some k))) sn sn'" using Next.prems True p Cons by simp
      then obtain ks' where k: "snWalk sn' req pos = k # ks'"
        using snWalk_first [OF assms Cons] unfolding agreeOn_def by blast
      have "k \<in> set (snWalk sn req pos)" using Cons by simp
      then have "looked (stepLook req pos (Some k)) k" by (simp add: looked_step snWalk_in [OF assms(1)] walks_facts)
      then have "snValue sn' req k = snValue sn req k" using a by (simp add: snValue_def agreeOn_def)
      then show ?thesis using Next True p Cons k by auto
    qed
  qed (use Next in \<open>auto split: prod.splits\<close>)
qed simp_all

end
