(* ===== verification/QueryWalks.thy ===== *)
theory QueryWalks
  imports QueryFresh
begin

text \<open>
  The walks of a run (typespec/ts/assets/skeleton.ts, \<open>batches\<close> and \<open>record\<close>): over a view whose full
  batches end with the last entry they hold, each walk hands out the reference's entries, and each step of
  it widens the span that the walk is at the end of, so that the spans come to cover every step of every
  walk, however the walks interleave.
\<close>

section \<open>Where batches end\<close>

definition limitAt :: "nat \<Rightarrow> nat" where
  "limitAt m = min (16 * 2 ^ m) 256"

primrec bound :: "nat \<Rightarrow> nat" where
  "bound 0 = 0"
| "bound (Suc m) = bound m + limitAt m"

lemma limitAt_simps [simp]: "limitAt 0 = 16" "min (limitAt m * 2) 256 = limitAt (Suc m)" "0 < limitAt m" "Suc 0 \<le> limitAt m"
  "limitAt m \<noteq> 0"
  by (simp_all add: limitAt_def min_def)

lemma bound_mono: "m \<le> m' \<Longrightarrow> bound m \<le> bound m'"
  by (induction m' rule: nat_induct) (auto simp: le_Suc_eq)

text \<open>No batch of a walk ends inside another walk's batch.\<close>

lemma bound_apart: "bound m < bound m' \<Longrightarrow> \<not> bound m' < bound (Suc m)"
  using bound_mono [of "Suc m" m'] bound_mono [of m' m] by (cases "m' \<le> m") auto

section \<open>The view\<close>

text \<open>A walk that a template's scan may take, without a place in it or a limit.\<close>

definition walkable :: "read_scan \<Rightarrow> bool" where
  "walkable req \<longleftrightarrow> askable (patternOf req) (scanRequest (req\<lparr>rs_after := None, rs_limit := 16\<rparr>))"

lemma walkable_askable:
  assumes "walkable req" "1 \<le> n" "\<And>k. a = Some k \<Longrightarrow> prefix (cp_head (patternOf req)) k"
  shows "askable (patternOf req) (scanRequest (req\<lparr>rs_after := a, rs_limit := n\<rparr>))"
  using assms by (auto simp: walkable_def askable_def scanRequest_def)

text \<open>What queries may get and walk, and what each then answers over a state whose keys and values are \<open>snap\<close>.\<close>

locale snapshots =
  fixes view :: "('b, 'js, 'host) query_view"
    and ok :: "'b \<Rightarrow> bool"
    and snap :: "'b \<Rightarrow> ('js, 'host) snapshot"
    and may_get :: "jsstr \<Rightarrow> jsstr \<Rightarrow> bool"
    and may_walk :: "read_scan \<Rightarrow> bool"
  assumes snap_ascending: "ok b \<Longrightarrow> ascending (sn_keys (snap b))"
    and walks_fit: "may_walk req \<Longrightarrow> walkable req"
    and get_snap: "ok b \<Longrightarrow> may_get key type \<Longrightarrow>
      \<exists>b'. qv_get view key type JS b = (Inr (sn_get (snap b) key), b') \<and> ok b' \<and> snap b' = snap b"
    and scan_snap: "ok b \<Longrightarrow> may_walk req \<Longrightarrow> askable (patternOf req) (scanRequest (req\<lparr>rs_after := a, rs_limit := n\<rparr>)) \<Longrightarrow>
      es = map (\<lambda>k. (k, snValue (snap b) req k)) (snWalk (snap b) req a) \<Longrightarrow>
      \<exists>b'. qv_scan view (scanRequest (req\<lparr>rs_after := a, rs_limit := n\<rparr>)) b =
        Some (Inr (take n es, if n \<le> length es then Some (fst (es ! (n - 1))) else None), b') \<and> ok b' \<and> snap b' = snap b"

section \<open>A fetch\<close>

definition spanNow :: "read_scan \<Rightarrow> jsstr option \<Rightarrow> jsstr option \<Rightarrow> scan_span" where
  "spanNow req a to = \<lparr>ss_pattern = patternOf req, ss_reverse = rs_reverse req, ss_from = a, ss_to = to\<rparr>"

text \<open>Whether a batch after \<open>a\<close> is the next one of the last span's walk.\<close>

definition extends :: "read_deps \<Rightarrow> read_scan \<Rightarrow> jsstr option \<Rightarrow> bool" where
  "extends deps req a \<longleftrightarrow> rd_spans deps \<noteq> [] \<and> ss_to (last (rd_spans deps)) \<noteq> None \<and> ss_to (last (rd_spans deps)) = a \<and>
     ss_reverse (last (rd_spans deps)) = rs_reverse req \<and> rd_last deps = Some (rs_pattern req)"

text \<open>The spans after a batch was recorded and its span cut to an entry, or run to the end.\<close>

definition fetchedTo :: "read_deps \<Rightarrow> read_scan \<Rightarrow> jsstr option \<Rightarrow> jsstr option \<Rightarrow> read_deps" where
  "fetchedTo deps req a to =
     (if extends deps req a then deps\<lparr>rd_spans := butlast (rd_spans deps) @ [(last (rd_spans deps))\<lparr>ss_to := to\<rparr>]\<rparr>
      else deps\<lparr>rd_spans := rd_spans deps @ [spanNow req a to], rd_last := Some (rs_pattern req)\<rparr>)"

lemma record_cut:
  assumes "compilePattern (rs_pattern req) = Inr c"
  obtains deps' where "recordScan deps (req\<lparr>rs_after := a, rs_limit := n\<rparr>) to' = Inr deps'" "rd_spans deps' \<noteq> []"
    "cutSpan deps' (length (rd_spans deps') - 1) to = fetchedTo deps req a to"
    "length (rd_spans deps') = length (rd_spans (fetchedTo deps req a to))"
proof (cases "extends deps req a")
  case True
  then show thesis
    by (intro that [of "deps\<lparr>rd_spans := butlast (rd_spans deps) @ [(last (rd_spans deps))\<lparr>ss_to := to'\<rparr>]\<rparr>"])
      (auto simp: recordScan_def Let_def extends_def fetchedTo_def cutSpan_def list_update_append nth_append)
next
  case False
  then show thesis using assms
    by (intro that [of "deps\<lparr>rd_spans := rd_spans deps @ [spanNow req a to'], rd_last := Some (rs_pattern req)\<rparr>"])
      (auto simp: recordScan_def Let_def extends_def fetchedTo_def cutSpan_def spanNow_def patternOf_def list_update_append nth_append)
qed

section \<open>Where a walk is\<close>

lemma snWalk_drop:
  assumes "ascending (sn_keys sn)" "n \<le> length (snWalk sn req None)"
  shows "snWalk sn req (if n = 0 then None else Some (snWalk sn req None ! (n - 1))) = drop n (snWalk sn req None)"
proof (cases n)
  case (Suc i)
  then show ?thesis
    using walk_keys_from [OF walk_every_sorted [OF assms(1)] refl, of i "patternOf req" "rs_reverse req" None] assms(2)
    by (simp add: snWalk_def walkFrom_def)
qed simp

text \<open>The entries that a walk, its first \<open>n\<close> handed out, has left of its batch \<open>m\<close>, and where its next batch starts.\<close>

definition follows :: "('js, 'host) snapshot \<Rightarrow> ('js, 'host) walk \<Rightarrow> place \<Rightarrow> nat \<Rightarrow> nat \<Rightarrow> bool" where
  "follows sn w p m n \<longleftrightarrow>
     (case p of (req, pos, over) \<Rightarrow>
        let W = snWalk sn req None in
        (case wk_phase w of
           Over \<Rightarrow> over
         | Fetch \<Rightarrow> \<not> over \<and> m = 0 \<and> n = 0 \<and> pos = None \<and> wk_req w = req\<lparr>rs_after := None, rs_limit := 16\<rparr>
         | Hand \<Rightarrow>
             \<not> over \<and> bound m < n \<and> n \<le> bound (Suc m) \<and> n \<le> length W \<and> pos = Some (W ! (n - 1)) \<and>
             (\<exists>a. wk_req w = req\<lparr>rs_after := a, rs_limit := limitAt m\<rparr>) \<and>
             wk_batch w = map (\<lambda>k. (k, snValue sn req k)) (drop n (take (bound (Suc m)) W)) \<and>
             wk_next w = (if bound (Suc m) \<le> length W then Some (W ! (bound (Suc m) - 1)) else None)))"

text \<open>A walk that may still move the end of its span.\<close>

definition live :: "('js, 'host) walk \<Rightarrow> bool" where
  "live w \<longleftrightarrow> wk_phase w = Hand \<and> (wk_batch w \<noteq> [] \<or> wk_next w = None)"

lemma live_inside:
  assumes "follows sn w (req, pos, over) m n"
  shows "live w \<longleftrightarrow> wk_phase w = Hand \<and> n < bound (Suc m)"
proof (cases "wk_phase w")
  case Hand
  then have "n \<le> bound (Suc m)" "n \<le> length (snWalk sn req None)"
      "wk_batch w = map (\<lambda>k. (k, snValue sn req k)) (drop n (take (bound (Suc m)) (snWalk sn req None)))"
      "wk_next w = (if bound (Suc m) \<le> length (snWalk sn req None) then Some (snWalk sn req None ! (bound (Suc m) - 1)) else None)"
    using assms by (auto simp: follows_def Let_def)
  then show ?thesis using Hand by (auto simp: live_def simp del: bound.simps)
qed (auto simp: live_def)

text \<open>What one step of a walk leaves: the walk at its new place, and the spans.\<close>

definition stepTo :: "('js, 'host) snapshot \<Rightarrow> read_scan \<Rightarrow> jsstr option \<Rightarrow> jsstr option" where
  "stepTo sn req pos = (case snWalk sn req pos of [] \<Rightarrow> None | k # _ \<Rightarrow> Some k)"

definition stepPlace :: "('js, 'host) snapshot \<Rightarrow> read_scan \<Rightarrow> jsstr option \<Rightarrow> place" where
  "stepPlace sn req pos = (case snWalk sn req pos of [] \<Rightarrow> (req, pos, True) | k # _ \<Rightarrow> (req, Some k, False))"

definition stepEntry :: "('js, 'host) snapshot \<Rightarrow> read_scan \<Rightarrow> jsstr option \<Rightarrow> (jsstr list \<times> ('js, 'host) rval option) option" where
  "stepEntry sn req pos =
     (case snWalk sn req pos of [] \<Rightarrow> None | k # _ \<Rightarrow> Some (parseKey (rs_pattern req) k, snValue sn req k))"

definition stepDeps :: "('js, 'host) snapshot \<Rightarrow> ('js, 'host) walk \<Rightarrow> read_scan \<Rightarrow> jsstr option \<Rightarrow> read_deps \<Rightarrow> read_deps" where
  "stepDeps sn w req pos deps =
     (if live w then cutSpan deps (wk_span w) (stepTo sn req pos) else fetchedTo deps req pos (stepTo sn req pos))"

context snapshots
begin

lemma walk_fetch:
  fixes b w req a m deps
  defines "W \<equiv> snWalk (snap b) req None"
  assumes b: "ok b" and req: "may_walk req" and w: "wk_phase w = Fetch" "wk_req w = req\<lparr>rs_after := a, rs_limit := limitAt m\<rparr>"
    and a: "a = (if bound m = 0 then None else Some (W ! (bound m - 1)))" "bound m \<le> length W"
  shows "\<exists>w' b' m' n'. walkNext view w b deps =
      Some (Inr (stepEntry (snap b) req a), w', b', fetchedTo deps req a (stepTo (snap b) req a)) \<and>
    ok b' \<and> snap b' = snap b \<and> follows (snap b) w' (stepPlace (snap b) req a) m' n' \<and>
    (live w' \<longrightarrow> wk_span w' = length (rd_spans (fetchedTo deps req a (stepTo (snap b) req a))) - 1)"
proof -
  let ?n = "limitAt m" let ?es = "map (\<lambda>k. (k, snValue (snap b) req k)) (drop (bound m) W)"
  have asc: "ascending (sn_keys (snap b))" by (rule snap_ascending [OF b])
  have V: "snWalk (snap b) req a = drop (bound m) W" 
    using snWalk_drop [OF asc a(2) [unfolded W_def]] unfolding a(1) W_def .
  obtain c where c: "compilePattern (rs_pattern req) = Inr c" "name_ok (rs_pattern req)" "patternOf req = c"
    using walks_fit [OF req] by (auto simp: walkable_def askable_def scanRequest_def patternOf_def)
  have head: "prefix (cp_head (patternOf req)) k" if "a = Some k" for k
  proof -
    have "k \<in> set W" using that a by (auto split: if_splits)
    then show ?thesis using walk_keys_head [OF c(1,2)] c(3) by (simp add: W_def snWalk_def walkFrom_def)
  qed
  have ask: "askable (patternOf req) (scanRequest (req\<lparr>rs_after := a, rs_limit := ?n\<rparr>))"
    by (rule walkable_askable [OF walks_fit [OF req]]) (use head in auto)
  have es: "?es = map (\<lambda>k. (k, snValue (snap b) req k)) (snWalk (snap b) req a)" by (simp add: V)
  obtain b' where s: "qv_scan view (scanRequest (req\<lparr>rs_after := a, rs_limit := ?n\<rparr>)) b =
      Some (Inr (take ?n ?es, if ?n \<le> length ?es then Some (fst (?es ! (?n - 1))) else None), b')" and b': "ok b'" "snap b' = snap b"
    using scan_snap [OF b req ask es] by blast
  let ?next = "if ?n \<le> length ?es then Some (fst (?es ! (?n - 1))) else None"
  obtain deps' where d: "recordScan deps (req\<lparr>rs_after := a, rs_limit := ?n\<rparr>) ?next = Inr deps'"
      "cutSpan deps' (length (rd_spans deps') - 1) (stepTo (snap b) req a) = fetchedTo deps req a (stepTo (snap b) req a)"
      "length (rd_spans deps') = length (rd_spans (fetchedTo deps req a (stepTo (snap b) req a)))"
    by (rule record_cut [OF c(1)])
  define w1 where "w1 = w\<lparr>wk_phase := Hand, wk_batch := take ?n ?es, wk_next := ?next, wk_span := length (rd_spans deps') - 1\<rparr>"
  have "walkNext view w b deps = walkNext view w1 b' deps'"
    using w s d(1) by (subst walkNext.simps) (simp add: readScan_def w1_def)
  show ?thesis
  proof (cases "drop (bound m) W")
    case Nil
    then have "walkNext view w1 b' deps' = Some (Inr None, w1\<lparr>wk_phase := Over\<rparr>, b', fetchedTo deps req a None)"
      using d(2) by (subst walkNext.simps) (simp add: w1_def V stepTo_def)
    then show ?thesis
      unfolding \<open>walkNext view w b deps = _\<close> by (auto simp: V Nil stepTo_def stepEntry_def stepPlace_def b' follows_def live_def)
  next
    case (Cons k ks)
    let ?w = "w1\<lparr>wk_batch := map (\<lambda>k. (k, snValue (snap b) req k)) (take (?n - 1) ks)\<rparr>"
    have len: "bound m < length W" using Cons by (metis drop_all list.distinct(1) not_less)
    have k: "k = W ! bound m" "ks = drop (Suc (bound m)) W" using Cons len by (simp_all add: Cons_nth_drop_Suc [symmetric])
    have take: "take ?n ?es = (k, snValue (snap b) req k) # wk_batch ?w"
      by (cases ?n) (use limitAt_simps(3) [of m] in \<open>auto simp: Cons take_map\<close>)
    have st: "stepTo (snap b) req a = Some k" by (simp add: stepTo_def V Cons)
    have "walkNext view w1 b' deps' = Some (Inr (stepEntry (snap b) req a), ?w, b', fetchedTo deps req a (Some k))"
      using d(2) take w(2) by (subst walkNext.simps) (simp add: w1_def V Cons stepTo_def stepEntry_def)
    then have run: "walkNext view w b deps = Some (Inr (stepEntry (snap b) req a), ?w, b', fetchedTo deps req a (Some k))"
      by (simp only: \<open>walkNext view w b deps = _\<close>)
    have there: "follows (snap b) ?w (stepPlace (snap b) req a) m (Suc (bound m))"
    proof -
      have "?next = (if bound (Suc m) \<le> length W then Some (W ! (bound (Suc m) - 1)) else None)"
        using len by auto
      moreover have "take (?n - 1) ks = drop (Suc (bound m)) (take (bound (Suc m)) W)"
        by (simp add: k(2) drop_take)
      ultimately show ?thesis
        using len w(2) k(1) by (auto simp: follows_def w1_def V Cons stepPlace_def W_def [symmetric] Suc_le_eq)
    qed
    have "wk_span ?w = length (rd_spans (fetchedTo deps req a (Some k))) - 1" using d(3) by (simp add: w1_def st)
    then show ?thesis unfolding st using run there b' by blast
  qed
qed

text \<open>One step of a walk that is not over, wherever it is in its batch.\<close>

lemma walked_step:
  assumes b: "ok b" and req: "may_walk req" and f: "follows (snap b) w (req, pos, False) m n"
  shows "\<exists>w' b' m' n'. walkNext view w b deps =
      Some (Inr (stepEntry (snap b) req pos), w', b', stepDeps (snap b) w req pos deps) \<and>
    ok b' \<and> snap b' = snap b \<and> follows (snap b) w' (stepPlace (snap b) req pos) m' n' \<and>
    (live w' \<longrightarrow> wk_span w' = (if live w then wk_span w else length (rd_spans (stepDeps (snap b) w req pos deps)) - 1))"
proof -
  let ?W = "snWalk (snap b) req None"
  have asc: "ascending (sn_keys (snap b))" by (rule snap_ascending [OF b])
  show ?thesis
  proof (cases "wk_phase w")
    case Fetch
    then have w: "wk_req w = req\<lparr>rs_after := None, rs_limit := limitAt 0\<rparr>" "pos = None" using f by (auto simp: follows_def)
    have "\<not> live w" by (simp add: live_def Fetch)
    then show ?thesis using walk_fetch [OF b req Fetch w(1), of deps] by (simp add: stepDeps_def w(2))
  next
    case Over
    then show ?thesis using f by (simp add: follows_def)
  next
    case Hand
    then have h: "bound m < n" "n \<le> bound (Suc m)" "n \<le> length ?W" "pos = Some (?W ! (n - 1))"
        "wk_batch w = map (\<lambda>k. (k, snValue (snap b) req k)) (drop n (take (bound (Suc m)) ?W))"
        "wk_next w = (if bound (Suc m) \<le> length ?W then Some (?W ! (bound (Suc m) - 1)) else None)"
      and r: "\<exists>a. wk_req w = req\<lparr>rs_after := a, rs_limit := limitAt m\<rparr>"
      using f by (auto simp: follows_def Let_def)
    have V: "snWalk (snap b) req pos = drop n ?W" using snWalk_drop [OF asc h(3)] h(1,4) by simp
    have lv: "live w \<longleftrightarrow> n < bound (Suc m)" using live_inside [OF f] Hand by blast
    consider (more) "n < bound (Suc m)" "n < length ?W" | (ended) "n < bound (Suc m)" "n = length ?W" | (full) "n = bound (Suc m)"
      using h(2,3) by linarith
    then show ?thesis
    proof cases
      case more
      let ?k = "?W ! n"
      have d: "drop n (take (bound (Suc m)) ?W) = ?k # drop (Suc n) (take (bound (Suc m)) ?W)"
        using more by (subst Cons_nth_drop_Suc [symmetric]) auto
      have v: "snWalk (snap b) req pos = ?k # drop (Suc n) ?W" unfolding V using more(2) by (simp add: Cons_nth_drop_Suc)
      have bt: "wk_batch w = (?k, snValue (snap b) req ?k) # map (\<lambda>k. (k, snValue (snap b) req k)) (drop (Suc n) (take (bound (Suc m)) ?W))"
        unfolding h(5) d by simp
      have "walkNext view w b deps = Some (Inr (stepEntry (snap b) req pos), w\<lparr>wk_batch := tl (wk_batch w)\<rparr>, b, stepDeps (snap b) w req pos deps)"
        using Hand r lv more(1) by (subst walkNext.simps) (auto simp: bt v stepEntry_def stepDeps_def stepTo_def)
      moreover have "follows (snap b) (w\<lparr>wk_batch := tl (wk_batch w)\<rparr>) (stepPlace (snap b) req pos) m (Suc n)"
        using h(1,2,6) r more Hand unfolding stepPlace_def v by (auto simp: follows_def bt Let_def)
      ultimately show ?thesis using b lv more(1) by auto
    next
      case ended
      then have bt: "wk_batch w = []" "wk_next w = None" and v: "snWalk (snap b) req pos = []" using h(5,6) V by auto
      have "walkNext view w b deps = Some (Inr (stepEntry (snap b) req pos), w\<lparr>wk_phase := Over\<rparr>, b, stepDeps (snap b) w req pos deps)"
        using Hand lv ended(1) by (subst walkNext.simps) (simp add: bt v stepEntry_def stepDeps_def stepTo_def)
      then show ?thesis using b by (auto simp: stepPlace_def v follows_def live_def)
    next
      case full
      then have bt: "wk_batch w = []" "wk_next w = pos" using h by auto
      let ?w = "w\<lparr>wk_phase := Fetch, wk_req := req\<lparr>rs_after := pos, rs_limit := limitAt (Suc m)\<rparr>\<rparr>"
      have "walkNext view w b deps = walkNext view ?w b deps"
        using Hand r by (subst walkNext.simps) (auto simp: bt h(4))
      moreover have "pos = (if bound (Suc m) = 0 then None else Some (?W ! (bound (Suc m) - 1)))" "bound (Suc m) \<le> length ?W"
        using h full by auto
      ultimately show ?thesis
        using walk_fetch [OF b req, where w = ?w and a = pos and m = "Suc m" and deps = deps] lv full by (auto simp: stepDeps_def)
    qed
  qed
qed

end

end
