(* ===== verification/QueryCovers.thy ===== *)
theory QueryCovers
  imports QueryWalks
begin

text \<open>
  What a run records covers what it looked at (typespec/ts/assets/skeleton.ts, \<open>record\<close>, \<open>batches\<close> and
  \<open>QueryImpl.run\<close>): the invariant of a run's walks and spans, each step of a walk keeping it and only
  widening what the spans cover, and the run against the reference.
\<close>

section \<open>What spans cover\<close>

definition covers :: "read_deps \<Rightarrow> jsstr \<Rightarrow> bool" where
  "covers deps x \<longleftrightarrow> (\<exists>s \<in> set (rd_spans deps). spanCovers s x)"

definition spans_ok :: "read_deps \<Rightarrow> bool" where
  "spans_ok deps \<longleftrightarrow>
     (rd_spans deps \<noteq> [] \<longrightarrow> (\<exists>p. rd_last deps = Some p \<and> compilePattern p = Inr (ss_pattern (last (rd_spans deps))))) \<and>
     (\<forall>s \<in> set (rd_spans deps). \<forall>t. ss_to s = Some t \<longrightarrow> passes (ss_reverse s) (ss_from s) t)"

lemma cutSpan_simps [simp]:
  "rd_keys (cutSpan deps j to) = rd_keys deps" "rd_held (cutSpan deps j to) = rd_held deps" "rd_last (cutSpan deps j to) = rd_last deps"
  "length (rd_spans (cutSpan deps j to)) = length (rd_spans deps)"
  by (simp_all add: cutSpan_def)

lemma cut_spans: "j < length (rd_spans deps) \<Longrightarrow> i < length (rd_spans deps) \<Longrightarrow>
    rd_spans (cutSpan deps j to) ! i = (if i = j then (rd_spans deps ! j)\<lparr>ss_to := to\<rparr> else rd_spans deps ! i)"
  by (simp add: cutSpan_def nth_list_update)

text \<open>A span whose end moves on covers what it did, and what its end moved over.\<close>

lemma cut_covers:
  assumes j: "j < length (rd_spans deps)" and s: "s = rd_spans deps ! j" "ss_to s = Some p" "passes (ss_reverse s) (ss_from s) p"
    and to: "\<And>t. to = Some t \<Longrightarrow> walks (ss_reverse s) p t"
  shows "covers deps x \<Longrightarrow> covers (cutSpan deps j to) x"
    "ss_pattern s = patternOf req \<Longrightarrow> ss_reverse s = rs_reverse req \<Longrightarrow> looked (stepLook req (Some p) to) x \<Longrightarrow> covers (cutSpan deps j to) x"
    "spans_ok deps \<Longrightarrow> spans_ok (cutSpan deps j to)"
proof -
  let ?s = "s\<lparr>ss_to := to\<rparr>"
  have set': "set (rd_spans (cutSpan deps j to)) = insert ?s {rd_spans deps ! i |i. i < length (rd_spans deps) \<and> i \<noteq> j}"
  proof (rule set_eqI)
    fix x
    have "x \<in> set (rd_spans (cutSpan deps j to)) \<longleftrightarrow> (\<exists>i < length (rd_spans deps). (if i = j then ?s else rd_spans deps ! i) = x)"
      using cut_spans [OF j] s(1) by (auto simp: in_set_conv_nth)
    also have "\<dots> \<longleftrightarrow> ?s = x \<or> (\<exists>i < length (rd_spans deps). i \<noteq> j \<and> rd_spans deps ! i = x)" using j by metis
    finally show "x \<in> set (rd_spans (cutSpan deps j to)) \<longleftrightarrow> x \<in> insert ?s {rd_spans deps ! i |i. i < length (rd_spans deps) \<and> i \<noteq> j}"
      by auto
  qed
  show "covers (cutSpan deps j to) x" if c: "covers deps x"
  proof -
    obtain i where i: "i < length (rd_spans deps)" "spanCovers (rd_spans deps ! i) x"
      using c by (auto simp: covers_def in_set_conv_nth)
    show ?thesis
    proof (cases "i = j")
      case True
      then have "spanCovers s x" using i s(1) by simp
      then have "spanCovers ?s x" using s(2) to by (auto simp: spanCovers_walks dest: walks_trans)
      then show ?thesis by (auto simp: covers_def set')
    qed (use i in \<open>auto simp: covers_def set'\<close>)
  qed
  show "covers (cutSpan deps j to) x" if "ss_pattern s = patternOf req" "ss_reverse s = rs_reverse req" "looked (stepLook req (Some p) to) x"
  proof -
    have "spanCovers ?s x" using that s(3) passes_trans [of "ss_reverse s" "ss_from s" p x]
      by (auto simp: looked_step spanCovers_walks) (auto simp: passes_def)
    then show ?thesis by (auto simp: covers_def set')
  qed
  show "spans_ok (cutSpan deps j to)" if ok: "spans_ok deps"
  proof -
    have "ss_pattern (last (rd_spans (cutSpan deps j to))) = ss_pattern (last (rd_spans deps))" if "rd_spans deps \<noteq> []"
      using that j by (subst (1 2) last_conv_nth) (auto simp: cut_spans cutSpan_def nth_list_update)
    moreover have "passes (ss_reverse ?s) (ss_from ?s) t" if "to = Some t" for t
      using passes_trans [OF s(3) to [OF that]] by simp
    ultimately show ?thesis using ok unfolding spans_ok_def set' by (fastforce simp: cutSpan_def)
  qed
qed

lemma push_covers:
  assumes "deps' = deps\<lparr>rd_spans := rd_spans deps @ [spanNow req a to], rd_last := Some (rs_pattern req)\<rparr>"
    and c: "compilePattern (rs_pattern req) = Inr (patternOf req)" and to: "\<And>t. to = Some t \<Longrightarrow> passes (rs_reverse req) a t"
  shows "covers deps x \<Longrightarrow> covers deps' x" "looked (stepLook req a to) x \<Longrightarrow> covers deps' x" "spans_ok deps \<Longrightarrow> spans_ok deps'"
  using assms by (auto simp: covers_def spans_ok_def spanNow_def stepLook_def)

lemma update_last: "xs \<noteq> [] \<Longrightarrow> xs[length xs - 1 := y] = butlast xs @ [y]"
  by (cases xs rule: rev_cases) auto

lemma fetchedTo_cut:
  assumes "extends deps req a"
  shows "fetchedTo deps req a to = cutSpan deps (length (rd_spans deps) - 1) to"
proof -
  have "rd_spans deps \<noteq> []" using assms by (simp add: extends_def)
  then show ?thesis using update_last [of "rd_spans deps"] by (simp add: fetchedTo_def assms cutSpan_def last_conv_nth)
qed

section \<open>The invariant of a run\<close>

text \<open>Each walk that may still move its span's end is at that end, and no two share a span.\<close>

definition atEnd :: "read_deps \<Rightarrow> ('js, 'host) walk \<Rightarrow> place \<Rightarrow> bool" where
  "atEnd deps w p \<longleftrightarrow> wk_span w < length (rd_spans deps) \<and>
     (let s = rd_spans deps ! wk_span w in
      ss_pattern s = patternOf (fst p) \<and> ss_reverse s = rs_reverse (fst p) \<and> ss_to s = fst (snd p))"

definition settled :: "('js, 'host) snapshot \<Rightarrow> ('js, 'host) walk list \<Rightarrow> place list \<Rightarrow> read_deps \<Rightarrow> bool" where
  "settled sn ws ps deps \<longleftrightarrow> length ws = length ps \<and>
     (\<forall>i < length ws. \<exists>m n. follows sn (ws ! i) (ps ! i) m n) \<and>
     (\<forall>i < length ws. live (ws ! i) \<longrightarrow> atEnd deps (ws ! i) (ps ! i)) \<and>
     (\<forall>i < length ws. \<forall>i' < length ws. live (ws ! i) \<and> live (ws ! i') \<and> wk_span (ws ! i) = wk_span (ws ! i') \<longrightarrow> i = i') \<and>
     spans_ok deps"

lemma stepTo_walks:
  assumes "ascending (sn_keys sn)" "stepTo sn req pos = Some k"
  shows "passes (rs_reverse req) pos k"
  using assms snWalk_in(1) [OF assms(1), of k req pos] by (auto simp: stepTo_def split: list.splits)

lemma live_at:
  assumes "follows sn w (req, pos, over) m n" "live w"
  shows "\<not> over" "bound m < n" "n < bound (Suc m)" "n \<le> length (snWalk sn req None)" "pos = Some (snWalk sn req None ! (n - 1))"
  using assms live_inside [OF assms(1)] by (auto simp: follows_def Let_def)

text \<open>A walk at a batch's end is at the end of no span that a live walk is at the end of.\<close>

lemma full_apart:
  assumes asc: "ascending (sn_keys sn)"
    and f: "follows sn w (req, pos, False) m n" "\<not> live w"
    and f': "follows sn w' (req', pos', over') m' n'" "live w'"
    and same: "patternOf req' = patternOf req" "rs_reverse req' = rs_reverse req" "pos = pos'"
  shows False
proof -
  let ?W = "snWalk sn req None"
  have W: "snWalk sn req' None = ?W" by (simp add: snWalk_def same)
  note l = live_at [OF f', unfolded W]
  have h: "wk_phase w = Hand" using f l(5) same(3) by (cases "wk_phase w") (auto simp: follows_def)
  then have n: "n = bound (Suc m)" "n \<le> length ?W" "pos = Some (?W ! (n - 1))"
    using f live_inside [OF f(1)] by (auto simp: follows_def Let_def)
  have "0 < n" using f(1) h by (auto simp: follows_def Let_def)
  have "distinct ?W" using snWalk_in(2) [OF asc] by (rule sorted_walks_distinct)
  moreover have "?W ! (n - 1) = ?W ! (n' - 1)" using n(3) l(5) same(3) by simp
  ultimately have "n - 1 = n' - 1" using n(2) l(2,4) \<open>0 < n\<close> by (auto simp: nth_eq_iff_index_eq)
  then have "n = n'" using l(2) \<open>0 < n\<close> by linarith
  then show False using bound_apart [of m' "Suc m"] l(2,3) n(1) by simp
qed

text \<open>The walk that steps, and the others, after its step.\<close>

lemma settled_update:
  assumes st: "settled sn ws ps deps" and i: "i < length ps"
    and f: "follows sn w' p' m' n'" and ok: "spans_ok D"
    and new: "live w' \<Longrightarrow> atEnd D w' p'"
    and others: "\<And>i'. i' < length ws \<Longrightarrow> i' \<noteq> i \<Longrightarrow> live (ws ! i') \<Longrightarrow> atEnd D (ws ! i') (ps ! i') \<and> (live w' \<longrightarrow> wk_span (ws ! i') \<noteq> wk_span w')"
  shows "settled sn (ws[i := w']) (ps[i := p']) D"
proof -
  have len: "length ws = length ps" using st by (simp add: settled_def)
  have "\<exists>m n. follows sn (ws[i := w'] ! i') (ps[i := p'] ! i') m n" if "i' < length ws" for i'
    using st f i that len by (cases "i' = i") (auto simp: settled_def)
  moreover have "live (ws[i := w'] ! i') \<longrightarrow> atEnd D (ws[i := w'] ! i') (ps[i := p'] ! i')" if "i' < length ws" for i'
    using new others that i len by (cases "i' = i") auto
  moreover have "i1 = i2" if "i1 < length ws" "i2 < length ws" "live (ws[i := w'] ! i1)" "live (ws[i := w'] ! i2)"
      "wk_span (ws[i := w'] ! i1) = wk_span (ws[i := w'] ! i2)" for i1 i2
  proof (cases "i1 = i \<or> i2 = i")
    case True
    then show ?thesis using that others [of i1] others [of i2] by (auto simp: nth_list_update split: if_splits)
  next
    case False
    then show ?thesis using that st by (auto simp: settled_def)
  qed
  ultimately show ?thesis using len ok unfolding settled_def length_list_update by blast
qed

lemma step_place:
  "live w' \<Longrightarrow> follows sn w' (stepPlace sn req pos) m' n' \<Longrightarrow> stepPlace sn req pos = (req, stepTo sn req pos, False)"
  by (cases "snWalk sn req pos") (auto simp: stepPlace_def stepTo_def dest: live_at(1))

text \<open>A step that moves the end of a span.\<close>

lemma settled_cut:
  assumes asc: "ascending (sn_keys sn)" and st: "settled sn ws ps deps" and i: "i < length ps"
    and w': "follows sn w' (stepPlace sn req (Some p)) m' n'" "live w' \<Longrightarrow> wk_span w' = j"
    and j: "j < length (rd_spans deps)" "s = rd_spans deps ! j" "ss_pattern s = patternOf req" "ss_reverse s = rs_reverse req" "ss_to s = Some p"
    and apart: "\<And>i'. i' < length ws \<Longrightarrow> i' \<noteq> i \<Longrightarrow> live (ws ! i') \<Longrightarrow> wk_span (ws ! i') \<noteq> j"
    and D: "D = cutSpan deps j (stepTo sn req (Some p))"
  shows "settled sn (ws[i := w']) (ps[i := stepPlace sn req (Some p)]) D \<and> (\<forall>x. covers deps x \<longrightarrow> covers D x) \<and>
    (\<forall>x. looked (stepLook req (Some p) (stepTo sn req (Some p))) x \<longrightarrow> covers D x)"
proof -
  have ok: "spans_ok deps" using st by (simp add: settled_def)
  have "s \<in> set (rd_spans deps)" using nth_mem [OF j(1)] j(2) by simp
  then have from': "passes (ss_reverse s) (ss_from s) p" using ok j(5) unfolding spans_ok_def by blast
  have to: "walks (ss_reverse s) p t" if "stepTo sn req (Some p) = Some t" for t
    using stepTo_walks [OF asc that] j(4) by (simp add: passes_def)
  note cut = cut_covers [OF j(1,2,5) from' to]
  have "settled sn (ws[i := w']) (ps[i := stepPlace sn req (Some p)]) D"
  proof (rule settled_update [OF st i w'(1)])
    show "spans_ok D" unfolding D by (rule cut(3) [OF _ ok])
    show "atEnd D w' (stepPlace sn req (Some p))" if "live w'"
      using w'(2) [OF that] j unfolding D atEnd_def step_place [OF that w'(1)] by (simp add: cut_spans)
    show "atEnd D (ws ! i') (ps ! i') \<and> (live w' \<longrightarrow> wk_span (ws ! i') \<noteq> wk_span w')"
      if "i' < length ws" "i' \<noteq> i" "live (ws ! i')" for i'
      using apart [OF that] st that w'(2) j(1) unfolding D by (auto simp: settled_def atEnd_def cut_spans)
  qed
  moreover have "covers D x" if "covers deps x" for x unfolding D by (rule cut(1) [OF _ that])
  moreover have "covers D x" if "looked (stepLook req (Some p) (stepTo sn req (Some p))) x" for x
    unfolding D by (rule cut(2) [OF _ j(3,4) that])
  ultimately show ?thesis by blast
qed

text \<open>A step that starts a span of its own.\<close>

lemma settled_push:
  assumes asc: "ascending (sn_keys sn)" and st: "settled sn ws ps deps" and i: "i < length ps"
    and c: "compilePattern (rs_pattern req) = Inr (patternOf req)"
    and w': "follows sn w' (stepPlace sn req pos) m' n'" "live w' \<Longrightarrow> wk_span w' = length (rd_spans D) - 1"
    and D: "D = deps\<lparr>rd_spans := rd_spans deps @ [spanNow req pos (stepTo sn req pos)], rd_last := Some (rs_pattern req)\<rparr>"
  shows "settled sn (ws[i := w']) (ps[i := stepPlace sn req pos]) D \<and> (\<forall>x. covers deps x \<longrightarrow> covers D x) \<and>
    (\<forall>x. looked (stepLook req pos (stepTo sn req pos)) x \<longrightarrow> covers D x)"
proof -
  note push = push_covers [OF D c stepTo_walks [OF asc]]
  have "settled sn (ws[i := w']) (ps[i := stepPlace sn req pos]) D"
  proof (rule settled_update [OF st i w'(1)])
    show "spans_ok D" using push(3) st by (simp add: settled_def)
    show "atEnd D w' (stepPlace sn req pos)" if "live w'"
      using w'(2) [OF that] unfolding atEnd_def step_place [OF that w'(1)] by (simp add: D spanNow_def)
    show "atEnd D (ws ! i') (ps ! i') \<and> (live w' \<longrightarrow> wk_span (ws ! i') \<noteq> wk_span w')"
      if "i' < length ws" "i' \<noteq> i" "live (ws ! i')" for i'
      using st that w'(2) by (auto simp: settled_def atEnd_def D nth_append)
  qed
  then show ?thesis using push(1,2) by blast
qed

lemma settled_step:
  assumes asc: "ascending (sn_keys sn)" and st: "settled sn ws ps deps" and i: "i < length ps" "ps ! i = (req, pos, False)"
    and c: "compilePattern (rs_pattern req) = Inr (patternOf req)"
    and D: "D = stepDeps sn (ws ! i) req pos deps"
    and w': "follows sn w' (stepPlace sn req pos) m' n'"
      "live w' \<longrightarrow> wk_span w' = (if live (ws ! i) then wk_span (ws ! i) else length (rd_spans D) - 1)"
  shows "settled sn (ws[i := w']) (ps[i := stepPlace sn req pos]) D \<and> (\<forall>x. covers deps x \<longrightarrow> covers D x) \<and>
    (\<forall>x. looked (stepLook req pos (stepTo sn req pos)) x \<longrightarrow> covers D x)"
proof -
  have len: "length ws = length ps" using st by (simp add: settled_def)
  obtain m n where f: "follows sn (ws ! i) (req, pos, False) m n" using st i len unfolding settled_def by metis
  show ?thesis
  proof (cases "live (ws ! i)")
    case True
    then have e: "atEnd deps (ws ! i) (req, pos, False)" using st i len unfolding settled_def by metis
    obtain p where p: "pos = Some p" using live_at(5) [OF f True] by blast
    show ?thesis unfolding p
      by (rule settled_cut [OF asc st i(1), where j = "wk_span (ws ! i)" and s = "rd_spans deps ! wk_span (ws ! i)"])
        (use w' True e st i len D in \<open>auto simp: p atEnd_def Let_def settled_def stepDeps_def\<close>)
  next
    case dead: False
    show ?thesis
    proof (cases "extends deps req pos")
      case True
      then obtain p where p: "pos = Some p" by (auto simp: extends_def)
      let ?j = "length (rd_spans deps) - 1" let ?s = "rd_spans deps ! ?j"
      have ne: "rd_spans deps \<noteq> []" using True by (simp add: extends_def)
      then have j: "?j < length (rd_spans deps)" "?s = last (rd_spans deps)" by (simp_all add: last_conv_nth)
      have s: "ss_pattern ?s = patternOf req" "ss_reverse ?s = rs_reverse req" "ss_to ?s = Some p"
        using True st c ne unfolding j(2) by (auto simp: extends_def settled_def spans_ok_def p)
      have D': "D = cutSpan deps ?j (stepTo sn req (Some p))"
        using D dead fetchedTo_cut [OF True] by (simp add: stepDeps_def p)
      show ?thesis unfolding p
      proof (rule settled_cut [OF asc st i(1) _ _ j(1) refl s _ D'])
        show "follows sn w' (stepPlace sn req (Some p)) m' n'" using w'(1) by (simp add: p)
        show "wk_span w' = ?j" if "live w'" using w'(2) that dead by (simp add: D')
        show "wk_span (ws ! i') \<noteq> ?j" if i': "i' < length ws" "i' \<noteq> i" "live (ws ! i')" for i'
        proof
          assume j': "wk_span (ws ! i') = ?j"
          obtain req' pos' over' where p': "ps ! i' = (req', pos', over')" by (cases "ps ! i'") auto
          obtain m1 n1 where f': "follows sn (ws ! i') (req', pos', over') m1 n1" using st i'(1) p' unfolding settled_def by metis
          have "atEnd deps (ws ! i') (req', pos', over')" using st i' p' unfolding settled_def by metis
          then have "patternOf req' = patternOf req" "rs_reverse req' = rs_reverse req" "pos = pos'"
            using s unfolding atEnd_def j' Let_def by (simp_all add: p)
          then show False by (rule full_apart [OF asc f dead f' i'(3)])
        qed
      qed
    next
      case False
      then show ?thesis
        using w' dead D by (intro settled_push [OF asc st i(1) c w'(1)]) (auto simp: stepDeps_def fetchedTo_def)
    qed
  qed
qed

section \<open>A run and its reference\<close>

text \<open>What a query may get and walk, on every answer that is no error.\<close>

primrec fits :: "(jsstr \<Rightarrow> jsstr \<Rightarrow> bool) \<Rightarrow> (read_scan \<Rightarrow> bool) \<Rightarrow> ('r, 'js, 'host) query \<Rightarrow> bool" where
  "fits may_get may_walk (Answer r) = True"
| "fits may_get may_walk (Throw e) = True"
| "fits may_get may_walk (Get key type q) = (may_get key type \<and> (\<forall>x. fits may_get may_walk (q (Inr x))))"
| "fits may_get may_walk (Walk req q) = (may_walk req \<and> (\<forall>i. fits may_get may_walk (q i)))"
| "fits may_get may_walk (Next i q) = (\<forall>x. fits may_get may_walk (q (Inr x)))"

lemma settled_walk: "settled sn ws ps deps \<Longrightarrow> settled sn (ws @ [scanEach req]) (ps @ [(req, None, False)]) deps"
  by (auto simp: settled_def nth_append scanEach_def follows_def live_def less_Suc_eq)

lemma settled_get: "settled sn ws ps deps \<Longrightarrow> settled sn ws ps (deps\<lparr>rd_keys := ks\<rparr>)"
  by (simp add: settled_def atEnd_def spans_ok_def)

lemma covers_keys [simp]: "covers (deps\<lparr>rd_keys := ks\<rparr>) = covers deps"
  by (simp add: covers_def fun_eq_iff)

lemma stepDeps_same: "rd_keys (stepDeps sn w req pos deps) = rd_keys deps" "rd_held (stepDeps sn w req pos deps) = rd_held deps"
  by (simp_all add: stepDeps_def fetchedTo_def)

context snapshots
begin

lemma run_reference:
  assumes "ok b" "fits may_get may_walk q" "settled (snap b) ws ps deps" "\<forall>p \<in> set ps. may_walk (fst p)"
  shows "\<exists>b' deps'. runQuery view q ws b deps = Some (fst (refRun (snap b) q ps), b', deps') \<and> ok b' \<and> snap b' = snap b \<and>
    rd_held deps' = rd_held deps \<and> set (rd_keys deps) \<subseteq> set (rd_keys deps') \<and> (\<forall>x. covers deps x \<longrightarrow> covers deps' x) \<and>
    (\<forall>l \<in> set (snd (refRun (snap b) q ps)). \<forall>x. looked l x \<longrightarrow> x \<in> set (rd_keys deps') \<or> covers deps' x)"
  using assms
proof (induction q arbitrary: ws ps b deps)
  case (Get key type q)
  obtain b1 where b1: "qv_get view key type JS b = (Inr (sn_get (snap b) key), b1)" "ok b1" "snap b1 = snap b"
    using get_snap [OF Get.prems(1), of key type] Get.prems(2) by auto
  let ?deps = "deps\<lparr>rd_keys := add_key key (rd_keys deps)\<rparr>"
  have st: "settled (snap b1) ws ps ?deps" using settled_get [OF Get.prems(3)] b1(3) by simp
  have ft: "fits may_get may_walk (q (Inr (sn_get (snap b) key)))" using Get.prems(2) by simp
  obtain b' deps' where r: "runQuery view (q (Inr (sn_get (snap b) key))) ws b1 ?deps = Some (fst (refRun (snap b) (q (Inr (sn_get (snap b) key))) ps), b', deps')"
      "ok b'" "snap b' = snap b" "rd_held deps' = rd_held deps" "set (add_key key (rd_keys deps)) \<subseteq> set (rd_keys deps')"
      "\<forall>x. covers deps x \<longrightarrow> covers deps' x"
      "\<forall>l \<in> set (snd (refRun (snap b) (q (Inr (sn_get (snap b) key))) ps)). \<forall>x. looked l x \<longrightarrow> x \<in> set (rd_keys deps') \<or> covers deps' x"
    using Get.IH [OF rangeI b1(2) ft st Get.prems(4)] by (auto simp: b1(3))
  have "key \<in> set (rd_keys deps')" "set (rd_keys deps) \<subseteq> set (rd_keys deps')" using r(5) by (auto simp: add_key_def split: if_splits)
  then show ?case using r b1(1) by (auto simp: readGet_def markHeld_def)
next
  case (Walk req q)
  have "settled (snap b) (ws @ [scanEach req]) (ps @ [(req, None, False)]) deps" by (rule settled_walk) (rule Walk.prems(3))
  moreover have "fits may_get may_walk (q (length ws))" "length ws = length ps" "\<forall>p \<in> set (ps @ [(req, None, False)]). may_walk (fst p)"
    using Walk.prems by (auto simp: settled_def)
  ultimately show ?case using Walk.IH [OF rangeI Walk.prems(1)] by simp
next
  case (Next i q)
  have len: "length ws = length ps" using Next.prems(3) by (simp add: settled_def)
  have q: "fits may_get may_walk (q (Inr x))" for x using Next.prems(2) by simp
  show ?case
  proof (cases "i < length ps")
    case False
    then show ?thesis using Next.IH [OF rangeI Next.prems(1) q Next.prems(3,4), of None] len by simp
  next
    case i: True
    obtain req pos over where p: "ps ! i = (req, pos, over)" by (cases "ps ! i") auto
    obtain m n where f: "follows (snap b) (ws ! i) (req, pos, over) m n" using Next.prems(3) i len p unfolding settled_def by metis
    show ?thesis
    proof (cases over)
      case True
      then have "wk_phase (ws ! i) = Over" using f by (cases "wk_phase (ws ! i)") (auto simp: follows_def Let_def)
      then have "walkNext view (ws ! i) b deps = Some (Inr None, ws ! i, b, deps)" by (subst walkNext.simps) simp
      then show ?thesis using Next.IH [OF rangeI Next.prems(1) q Next.prems(3,4), of None] len i p True by simp
    next
      case False
      have p0: "ps ! i = (req, pos, False)" and f0: "follows (snap b) (ws ! i) (req, pos, False) m n" using p f False by auto
      have req: "may_walk req" using Next.prems(4) i p nth_mem by fastforce
      have c: "compilePattern (rs_pattern req) = Inr (patternOf req)"
        using walks_fit [OF req] by (auto simp: walkable_def askable_def scanRequest_def)
      let ?D = "stepDeps (snap b) (ws ! i) req pos deps"
      obtain w' b1 m' n' where s: "walkNext view (ws ! i) b deps = Some (Inr (stepEntry (snap b) req pos), w', b1, ?D)"
          "ok b1" "snap b1 = snap b" "follows (snap b) w' (stepPlace (snap b) req pos) m' n'"
          "live w' \<longrightarrow> wk_span w' = (if live (ws ! i) then wk_span (ws ! i) else length (rd_spans ?D) - 1)"
        using walked_step [OF Next.prems(1) req f0] by blast
      have st: "settled (snap b) (ws[i := w']) (ps[i := stepPlace (snap b) req pos]) ?D"
          "\<And>x. covers deps x \<Longrightarrow> covers ?D x" "\<And>x. looked (stepLook req pos (stepTo (snap b) req pos)) x \<Longrightarrow> covers ?D x"
        using settled_step [OF snap_ascending [OF Next.prems(1)] Next.prems(3) i p0 c refl s(4,5)] by blast+
      have ps: "\<forall>p \<in> set (ps[i := stepPlace (snap b) req pos]). may_walk (fst p)"
      proof -
        have "fst (stepPlace (snap b) req pos) = req" by (simp add: stepPlace_def split: list.split)
        then show ?thesis using Next.prems(4) req set_update_subset_insert [of ps i "stepPlace (snap b) req pos"] by auto
      qed
      let ?q = "q (Inr (stepEntry (snap b) req pos))"
      obtain b' deps' where r: "runQuery view ?q (ws[i := w']) b1 ?D = Some (fst (refRun (snap b) ?q (ps[i := stepPlace (snap b) req pos])), b', deps')"
          "ok b'" "snap b' = snap b" "rd_held deps' = rd_held deps" "set (rd_keys deps) \<subseteq> set (rd_keys deps')" "\<forall>x. covers ?D x \<longrightarrow> covers deps' x"
          "\<forall>l \<in> set (snd (refRun (snap b) ?q (ps[i := stepPlace (snap b) req pos]))). \<forall>x. looked l x \<longrightarrow> x \<in> set (rd_keys deps') \<or> covers deps' x"
        using Next.IH [OF rangeI s(2) q, of "ws[i := w']" "ps[i := stepPlace (snap b) req pos]" ?D "stepEntry (snap b) req pos"]
          st(1) ps s(3) stepDeps_same [of "snap b" "ws ! i" req pos deps] by auto
      have "refRun (snap b) (Next i q) ps =
          map_prod id ((#) (stepLook req pos (stepTo (snap b) req pos))) (refRun (snap b) ?q (ps[i := stepPlace (snap b) req pos]))"
        using i p False by (auto simp: stepEntry_def stepPlace_def stepTo_def split: list.split)
      then show ?thesis using r s(1) st(2,3) i len by auto
    qed
  qed
qed auto

end

end
