(* ===== verification/QueryViews.thy ===== *)
theory QueryViews
  imports QueryCovers
begin

text \<open>
  The graph over what the Engine's queries read (typespec/ts/assets/skeleton.ts, \<open>#queryView\<close>): the view
  of the status and the overlay over the in-memory store answers as a snapshot does where the overlay
  holds no deletion, and a run of the graph leaves every query with the answer the reference gives.
\<close>

section \<open>Queries and the graph over snapshots\<close>

text \<open>A query's result is the reference's, and what its run recorded covers what the reference looks at.\<close>

definition upToDate :: "('js, 'host) snapshot \<Rightarrow> ('r, 'js, 'host) query_impl \<Rightarrow> bool" where
  "upToDate sn q \<longleftrightarrow> (\<exists>r. qi_result q = Some r \<and> fst (refRun sn (qi_fn q) []) = Inr r) \<and>
     (\<forall>l \<in> set (snd (refRun sn (qi_fn q) [])). \<forall>x. looked l x \<longrightarrow> x \<in> set (rd_keys (qi_deps q)) \<or> covers (qi_deps q) x)"

text \<open>The queries that ran, and are not waiting, are up to date.\<close>

definition settledQuery :: "('js, 'host) snapshot \<Rightarrow> ('r, 'js, 'host) query_impl \<Rightarrow> bool" where
  "settledQuery sn q \<longleftrightarrow> (qi_runs q > 0 \<and> \<not> qi_held q \<longrightarrow> upToDate sn q)"

lemma qiReads_covers: "qiReads q dirty \<longleftrightarrow> (\<exists>k \<in> set dirty. k \<in> set (rd_keys (qi_deps q)) \<or> covers (qi_deps q) k)"
  by (auto simp: qiReads_def covers_def list_ex_iff)

lemma upToDate_unread:
  assumes asc: "ascending (sn_keys sn)" "ascending (sn_keys sn')" and q: "upToDate sn q" "\<not> qiReads q dirty"
    and agree: "agreeOn (\<lambda>k. k \<notin> set dirty) sn sn'"
  shows "upToDate sn' q"
proof -
  have "refRun sn' (qi_fn q) [] = refRun sn (qi_fn q) []"
    by (rule refRun_same [OF asc]) (use q agree in \<open>fastforce simp: upToDate_def qiReads_covers agreeOn_def\<close>)
  then show ?thesis using q(1) by (simp add: upToDate_def)
qed

context snapshots
begin

lemma qiRun_settles:
  assumes b: "ok b" and fn: "fits may_get may_walk (qi_fn q)"
    and q: "settledQuery sn q" "ascending (sn_keys sn)" "agreeOn (\<lambda>k. k \<notin> set dirty) sn (snap b)"
  shows "\<exists>r q' b'. qiRun differs view dirty q b = Some (r, q', b') \<and> ok b' \<and> snap b' = snap b \<and> qi_fn q' = qi_fn q \<and> qi_closed q' = qi_closed q \<and>
    (case r of Inl e \<Rightarrow> fst (refRun (snap b) (qi_fn q) []) = Inl e
     | Inr _ \<Rightarrow> qi_runs q' > 0 \<and> \<not> qi_held q' \<and> upToDate (snap b) q')"
proof (cases "qi_runs q > 0 \<and> \<not> qi_held q \<and> \<not> qiReads q dirty")
  case True
  then have "upToDate (snap b) q"
    by (intro upToDate_unread [OF q(2) snap_ascending [OF b] _ _ q(3)]) (use q(1) in \<open>auto simp: settledQuery_def\<close>)
  then show ?thesis using True b by (auto simp: qiRun_def)
next
  case False
  have "settled (snap b) [] [] noDeps" by (simp add: settled_def spans_ok_def noDeps_def)
  then obtain b' deps where r: "runQuery view (qi_fn q) [] b noDeps = Some (fst (refRun (snap b) (qi_fn q) []), b', deps)"
      "ok b'" "snap b' = snap b" "rd_held deps = rd_held noDeps"
      "\<forall>l \<in> set (snd (refRun (snap b) (qi_fn q) [])). \<forall>x. looked l x \<longrightarrow> x \<in> set (rd_keys deps) \<or> covers deps x"
    using run_reference [OF b fn, of "[]" "[]" noDeps] by auto
  have run: "\<not> rd_held deps" using r(4) by (simp add: noDeps_def)
  show ?thesis
    using False r run by (cases "fst (refRun (snap b) (qi_fn q) [])") (auto simp: qiRun_def upToDate_def)
qed

lemma execute_settles:
  assumes "ok b" "\<forall>i \<in> set is. fits may_get may_walk (qi_fn (qs i))" "\<forall>i \<in> set is. settledQuery sn (qs i)" "distinct is"
    and sn: "ascending (sn_keys sn)" "agreeOn (\<lambda>k. k \<notin> set dirty) sn (snap b)"
  shows "\<exists>r qs' b'. executeQueries differs view dirty is qs b = Some (r, qs', b') \<and> ok b' \<and> snap b' = snap b \<and>
    (\<forall>i. i \<notin> set is \<longrightarrow> qs' i = qs i) \<and>
    (case r of Inl e \<Rightarrow> \<exists>i \<in> set is. fst (refRun (snap b) (qi_fn (qs i)) []) = Inl e
     | Inr _ \<Rightarrow> \<forall>i \<in> set is. qi_fn (qs' i) = qi_fn (qs i) \<and> qi_runs (qs' i) > 0 \<and> \<not> qi_held (qs' i) \<and> upToDate (snap b) (qs' i))"
  using assms
proof (induction "is" arbitrary: qs b)
  case (Cons i "is")
  have qi: "fits may_get may_walk (qi_fn (qs i))" "settledQuery sn (qs i)" using Cons.prems by auto
  obtain r q b1 where s: "qiRun differs view dirty (qs i) b = Some (r, q, b1)" "ok b1" "snap b1 = snap b" "qi_fn q = qi_fn (qs i)"
      and c: "case r of Inl e \<Rightarrow> fst (refRun (snap b) (qi_fn (qs i)) []) = Inl e
        | Inr _ \<Rightarrow> qi_runs q > 0 \<and> \<not> qi_held q \<and> upToDate (snap b) q"
    using qiRun_settles [OF Cons.prems(1) qi Cons.prems(5,6)] by blast
  show ?case
  proof (cases r)
    case (Inl e)
    then show ?thesis using s c by auto
  next
    case (Inr ch)
    have agree: "agreeOn (\<lambda>k. k \<notin> set dirty) sn (snap b1)" using Cons.prems(6) s(3) by simp
    have rest: "\<forall>j \<in> set is. fits may_get may_walk (qi_fn ((qs(i := q)) j))" "\<forall>j \<in> set is. settledQuery sn ((qs(i := q)) j)" "distinct is"
      using Cons.prems(2-4) by auto
    obtain r' qs' b' where e: "executeQueries differs view dirty is (qs(i := q)) b1 = Some (r', qs', b')" "ok b'" "snap b' = snap b"
        "\<forall>j. j \<notin> set is \<longrightarrow> qs' j = (qs(i := q)) j"
        "case r' of Inl e \<Rightarrow> \<exists>j \<in> set is. fst (refRun (snap b) (qi_fn ((qs(i := q)) j)) []) = Inl e
         | Inr _ \<Rightarrow> \<forall>j \<in> set is. qi_fn (qs' j) = qi_fn ((qs(i := q)) j) \<and> qi_runs (qs' j) > 0 \<and> \<not> qi_held (qs' j) \<and> upToDate (snap b) (qs' j)"
      using Cons.IH [OF s(2) rest Cons.prems(5) agree] unfolding s(3) by blast
    have "qs' i = q" using e(4) Cons.prems(4) by simp
    then show ?thesis using s c e Inr Cons.prems(4) by (cases r') (auto split: if_splits)
  qed
qed simp

text \<open>
  A run of the graph, told of every key that changed since the queries were settled, leaves every open
  query with the reference's answer over what it ran over; it stops short only where a query throws.
\<close>

lemma graphRun_settles:
  assumes b: "ok b" and g: "distinct (qg_queries g)" "\<forall>i \<in> set (qg_queries g). fits may_get may_walk (qi_fn (qg_all g i))"
      "\<forall>i \<in> set (qg_queries g). settledQuery sn (qg_all g i)"
    and sn: "ascending (sn_keys sn)" "agreeOn (\<lambda>k. k \<notin> set (qg_dirty g)) sn (snap b)"
  shows "\<exists>r g' b'. graphRun differs view b g = Some (r, g', b') \<and> snap b' = snap b \<and> qg_dirty g' = [] \<and>
    qg_queries g' = filter (\<lambda>i. \<not> qi_closed (qg_all g i)) (qg_queries g) \<and>
    (case r of Inl e \<Rightarrow> \<exists>i \<in> set (qg_queries g'). fst (refRun (snap b) (qi_fn (qg_all g i)) []) = Inl e
     | Inr _ \<Rightarrow> \<forall>i \<in> set (qg_queries g').
         qi_result (qg_all g' i) \<noteq> None \<and> fst (refRun (snap b) (qi_fn (qg_all g i)) []) = Inr (the (qi_result (qg_all g' i))) \<and>
         settledQuery (snap b) (qg_all g' i))"
proof -
  let ?is = "filter (\<lambda>i. \<not> qi_closed (qg_all g i)) (qg_queries g)"
  obtain r qs' b' where e: "executeQueries differs view (qg_dirty g) ?is (qg_all g) b = Some (r, qs', b')" "snap b' = snap b"
      "case r of Inl e \<Rightarrow> \<exists>i \<in> set ?is. fst (refRun (snap b) (qi_fn (qg_all g i)) []) = Inl e
       | Inr _ \<Rightarrow> \<forall>i \<in> set ?is. qi_fn (qs' i) = qi_fn (qg_all g i) \<and> qi_runs (qs' i) > 0 \<and> \<not> qi_held (qs' i) \<and> upToDate (snap b) (qs' i)"
    using execute_settles [OF b _ _ _ sn, of ?is "qg_all g" differs] g by auto
  show ?thesis
  proof (cases r)
    case (Inl err)
    then show ?thesis using e by (auto simp: graphRun_def Let_def)
  next
    case (Inr ch)
    have "qi_result (qs' i) \<noteq> None \<and> fst (refRun (snap b) (qi_fn (qg_all g i)) []) = Inr (the (qi_result (qs' i))) \<and> settledQuery (snap b) (qs' i)"
      if "i \<in> set ?is" for i
      using e(3) that by (auto simp: Inr upToDate_def settledQuery_def)
    then show ?thesis using e by (auto simp: graphRun_def Let_def Inr)
  qed
qed

end

section \<open>The Engine's view\<close>

definition predictedTxn :: "'b \<Rightarrow> 'js overlay \<Rightarrow> ('b, 'js) overlay_txn" where
  "predictedTxn b data = \<lparr>ot_base = b, ot_data = data, ot_updates = []\<rparr>"

text \<open>\<open>#queryView\<close>, not held: the status, and the overlay over the in-memory store of a production bundle.\<close>

definition queryView ::
  "('js, 'host) registry \<Rightarrow> (jsstr \<times> ('js, 'host) rval) list \<Rightarrow> bool \<Rightarrow> 'js overlay \<Rightarrow> ('js mem_txn, 'js, 'host) query_view"
where
  "queryView reg status held data = statusView (overlayView reg (memReads False reg) data) status held"

definition viewGet ::
  "('js, 'host) registry \<Rightarrow> (jsstr \<Rightarrow> jsstr) \<Rightarrow> (jsstr \<times> ('js, 'host) rval) list \<Rightarrow> 'js overlay \<Rightarrow> 'js mem_txn \<Rightarrow> jsstr \<Rightarrow> ('js, 'host) rval option"
where
  "viewGet reg tyof status data t k =
     (if k \<in> fst ` set status then map_of status k
      else if otHas (predictedTxn t data) k then map_option JsVal (otLayers (predictedTxn t data) k)
      else map_option JsVal (memJs reg (tyof k) (mtLive t k)))"

definition viewSnap ::
  "('js, 'host) registry \<Rightarrow> (jsstr \<Rightarrow> jsstr) \<Rightarrow> (jsstr \<times> ('js, 'host) rval) list \<Rightarrow> 'js overlay \<Rightarrow> 'js mem_txn \<Rightarrow> ('js, 'host) snapshot"
where
  "viewSnap reg tyof status data t =
     \<lparr>sn_keys = ovLive liveKeys (predictedTxn t data), sn_get = viewGet reg tyof status data t\<rparr>"

text \<open>The reads of a template: its keys are of one type, and no status key is among them.\<close>

definition viewMayGet :: "(jsstr \<Rightarrow> jsstr) \<Rightarrow> (jsstr \<times> ('js, 'host) rval) list \<Rightarrow> jsstr \<Rightarrow> jsstr \<Rightarrow> bool" where
  "viewMayGet tyof status key type \<longleftrightarrow> key \<in> fst ` set status \<or> type = tyof key \<and> type \<notin> set RAW_TYPES"

definition viewMayWalk :: "(jsstr \<Rightarrow> jsstr) \<Rightarrow> (jsstr \<times> ('js, 'host) rval) list \<Rightarrow> read_scan list \<Rightarrow> read_scan \<Rightarrow> bool" where
  "viewMayWalk tyof status R req \<longleftrightarrow> req \<in> set R \<and> walkable req \<and>
     (\<forall>type \<in> set_option (rs_type req). type \<notin> set RAW_TYPES \<and>
        (\<forall>k. matchesPattern (patternOf req) k \<longrightarrow> tyof k = type \<and> k \<notin> fst ` set status))"

text \<open>A state whose keys obey their templates' rule and decode, under an overlay with no deletion.\<close>

definition viewOk :: "('js, 'host) registry \<Rightarrow> (jsstr \<Rightarrow> jsstr) \<Rightarrow> read_scan list \<Rightarrow> 'js overlay \<Rightarrow> 'js mem_txn \<Rightarrow> bool" where
  "viewOk reg tyof R data t \<longleftrightarrow> mem_ok t \<and> (\<forall>(k, v) \<in> set data. map_of data k \<noteq> Some None) \<and>
     (\<forall>k \<in> set (liveKeys t). \<forall>req \<in> set R. key_rule (patternOf req) k \<and>
        (matchesPattern (patternOf req) k \<longrightarrow> memJs reg (tyof k) (mtLive t k) \<noteq> None))"

lemma predicted_layers:
  "otHas (predictedTxn t data) k \<longleftrightarrow> k \<in> fst ` set data"
  "otLayers (predictedTxn t data) k = Option.bind (map_of data k) (\<lambda>v. v)"
  by (simp_all add: predictedTxn_def otHas_def otLayers_def)

lemma predicted_base:
  "ot_base (predictedTxn t data) = t" "otHas (predictedTxn t' data) = otHas (predictedTxn t data)"
  "otLayers (predictedTxn t' data) = otLayers (predictedTxn t data)" "otLayerKeys (predictedTxn t' data) = otLayerKeys (predictedTxn t data)"
  by (simp_all add: fun_eq_iff predicted_layers otLayerKeys_def) (simp_all add: predictedTxn_def)

lemma view_shape:
  assumes "memShape reg tyof t' = memShape reg tyof t"
  shows "viewSnap reg tyof status data t' = viewSnap reg tyof status data t" "viewOk reg tyof R data t' = viewOk reg tyof R data t"
proof -
  have s: "mem_ok t' = mem_ok t" "liveKeys t' = liveKeys t" "\<And>k. memJs reg (tyof k) (mtLive t' k) = memJs reg (tyof k) (mtLive t k)"
    using assms by (auto simp: memShape_def fun_eq_iff)
  show "viewSnap reg tyof status data t' = viewSnap reg tyof status data t"
    unfolding viewSnap_def viewGet_def ovLive_def predicted_base(1) s predicted_base(2-4) [of t' data t] ..
  show "viewOk reg tyof R data t' = viewOk reg tyof R data t" by (simp add: viewOk_def s)
qed

lemma view_get:
  assumes "viewOk reg tyof R data t" "viewMayGet tyof status key type"
  shows "\<exists>t'. qv_get (queryView reg status False data) key type JS t = (Inr (sn_get (viewSnap reg tyof status data t) key), t') \<and>
    viewOk reg tyof R data t' \<and> viewSnap reg tyof status data t' = viewSnap reg tyof status data t"
proof -
  let ?q = "qv_get (queryView reg status False data) key type JS t"
  consider (status) "key \<in> fst ` set status" | (layer) "key \<notin> fst ` set status" "otHas (predictedTxn t data) key"
    | (base) "key \<notin> fst ` set status" "\<not> otHas (predictedTxn t data) key" by blast
  then show ?thesis
  proof cases
    case status
    then have "?q = (Inr (map_of status key), t)" by (simp add: queryView_def statusView_def)
    then show ?thesis using assms status by (auto simp: viewSnap_def viewGet_def)
  next
    case layer
    then have "?q = (Inr (map_option JsVal (otLayers (predictedTxn t data) key)), t)"
      unfolding queryView_def statusView_def overlayView_def otGet_def
      by (auto simp: predictedTxn_def layerOut_def Let_def split: option.split)
    then show ?thesis using assms layer by (auto simp: viewSnap_def viewGet_def)
  next
    case base
    then have ty: "type = tyof key" "tyof key \<notin> set RAW_TYPES" using assms(2) by (auto simp: viewMayGet_def)
    obtain t' where t': "mtOut False reg t key (tyof key) JS = (Inr (map_option JsVal (memJs reg (tyof key) (mtLive t key))), t')"
        "memShape reg tyof t' = memShape reg tyof t"
      by (rule mtOut_typed [where tyof = tyof and k = key, OF ty(2)])
    have "?q = (Inr (map_option JsVal (memJs reg (tyof key) (mtLive t key))), t')"
      using base t'(1) unfolding queryView_def statusView_def overlayView_def otGet_def
      by (simp add: predictedTxn_def Let_def memReads_def ty(1))
    then show ?thesis using assms base view_shape [OF t'(2)] by (auto simp: viewSnap_def viewGet_def)
  qed
qed

lemma pick_map: "(\<And>k. k \<in> set ks \<Longrightarrow> val k = Some (f k)) \<Longrightarrow> pickEntries val ks = map (\<lambda>k. (k, f k)) ks"
  by (induction ks) auto

lemma view_scan:
  assumes ok: "viewOk reg tyof R data t" and walk: "viewMayWalk tyof status R req"
    and ask: "askable (patternOf req) (scanRequest (req\<lparr>rs_after := a, rs_limit := n\<rparr>))"
    and es: "es = map (\<lambda>k. (k, snValue (viewSnap reg tyof status data t) req k)) (snWalk (viewSnap reg tyof status data t) req a)"
  shows "\<exists>t'. qv_scan (queryView reg status False data) (scanRequest (req\<lparr>rs_after := a, rs_limit := n\<rparr>)) t =
      Some (Inr (take n es, if n \<le> length es then Some (fst (es ! (n - 1))) else None), t') \<and>
    viewOk reg tyof R data t' \<and> viewSnap reg tyof status data t' = viewSnap reg tyof status data t"
proof -
  let ?c = "patternOf req" and ?v = "map_option (\<lambda>type. (type, JS)) (rs_type req)" and ?t = "predictedTxn t data"
  let ?req = "scanRequest (req\<lparr>rs_after := a, rs_limit := n\<rparr>)"
  have v: "sr_values ?req = ?v" "sr_limit ?req = n" "sr_reverse ?req = rs_reverse req" "sr_after ?req = a" by (simp_all add: scanRequest_def)
  have req: "req \<in> set R" "\<And>type. rs_type req = Some type \<Longrightarrow> type \<notin> set RAW_TYPES"
      "\<And>type k. rs_type req = Some type \<Longrightarrow> matchesPattern ?c k \<Longrightarrow> tyof k = type \<and> k \<notin> fst ` set status"
    using walk by (auto simp: viewMayWalk_def)
  have t: "mem_ok t" "\<And>k. k \<in> set (liveKeys t) \<Longrightarrow> key_rule ?c k"
      "\<And>k. k \<in> set (liveKeys t) \<Longrightarrow> matchesPattern ?c k \<Longrightarrow> memJs reg (tyof k) (mtLive t k) \<noteq> None"
    and some: "\<forall>(k, v) \<in> set data. map_of data k \<noteq> Some None"
    using ok req(1) by (simp_all add: viewOk_def)
  have shown: "otLayers ?t k \<noteq> None" if "otHas ?t k" for k
  proof -
    obtain v where v: "map_of data k = Some v" using \<open>otHas ?t k\<close> by (auto simp: predicted_layers map_of_eq_None_iff dest!: weak_map_of_SomeI)
    then have "v \<noteq> None" using some map_of_SomeD [OF v] by fastforce
    then show ?thesis using v by (auto simp: predicted_layers)
  qed
  have mem: "ovOk (memOk False tyof) ?c (sr_values ?req) ?t"
    using t(1,2) req(2,3) by (cases "rs_type req") (auto simp: ovOk_def memOk_def memReadable_def v predicted_base(1))
  have solid: "ovSolid (memSolid reg tyof) ?c (sr_values ?req) ?t"
    using t(3) shown [unfolded otHas_hides] unfolding ovSolid_def predicted_base(1) by (auto simp: memSolid_def memVal_def)
  let ?E = "pickEntries (ovVal (memVal reg tyof) ?v ?t) (walkFrom ?c (rs_reverse req) a (ovLive liveKeys ?t))"
  have E: "?E = es"
    unfolding es snWalk_def viewSnap_def snapshot.simps
  proof (rule pick_map)
    fix k
    assume k: "k \<in> set (walkFrom ?c (rs_reverse req) a (ovLive liveKeys ?t))"
    have "ascending (ovLive liveKeys ?t)" by (rule ovLive_ascending) (rule liveKeys_ascending)
    then have m: "matchesPattern ?c k" "k \<in> set (ovLive liveKeys ?t)" using k by (auto simp: walkFrom_passes)
    show "ovVal (memVal reg tyof) ?v ?t k = Some (snValue \<lparr>sn_keys = ovLive liveKeys ?t, sn_get = viewGet reg tyof status data t\<rparr> req k)"
    proof (cases "otHas ?t k")
      case True
      then show ?thesis using m shown [OF True] req(3) [OF _ m(1)]
        by (cases "rs_type req") (auto simp: ovVal_def snValue_def viewGet_def)
    next
      case False
      then show ?thesis using m t(3) [OF _ m(1)] req(3) [OF _ m(1)]
        by (cases "rs_type req") (auto simp: ovVal_def snValue_def viewGet_def memVal_def ovLive_set predicted_base(1))
    qed
  qed
  obtain t1 where s: "otScan reg (\<lambda>req t. mtScan False reg t req) ?req ?t =
        Some (Inr (take n es, if n \<le> length es then Some (fst (es ! (n - 1))) else None), t1)"
      and t1: "ovShape (memShape reg tyof) t1 = ovShape (memShape reg tyof) ?t"
    using memPredicted.shown.scan_page [OF mem solid ask refl] unfolding v E by blast
  have shape: "memShape reg tyof (ot_base t1) = memShape reg tyof t" using t1 by (simp add: ovShape_def predictedTxn_def)
  have "qv_scan (queryView reg status False data) ?req t =
      Some (Inr (take n es, if n \<le> length es then Some (fst (es ! (n - 1))) else None), ot_base t1)"
    using s unfolding queryView_def statusView_def overlayView_def memReads_def by (simp add: predictedTxn_def)
  then show ?thesis using ok view_shape [OF shape] by auto
qed

interpretation engineView: snapshots "queryView reg status False data" "viewOk reg tyof R data" "viewSnap reg tyof status data"
    "viewMayGet tyof status" "viewMayWalk tyof status R" for reg tyof status R data
proof
  show "viewOk reg tyof R data b \<Longrightarrow> ascending (sn_keys (viewSnap reg tyof status data b))" for b
    unfolding viewSnap_def by simp (rule ovLive_ascending, rule liveKeys_ascending)
  show "viewMayWalk tyof status R req \<Longrightarrow> walkable req" for req by (simp add: viewMayWalk_def)
qed (rule view_get view_scan; assumption)+

end
