(* ===== verification/OverlayWrites.thy ===== *)
theory OverlayWrites
  imports OverlayScan StoreWrites
begin

text \<open>
  The overlay's writes (typespec/ts/assets/skeleton.ts, \<open>OverlayTxn\<close> and \<open>Overlay.apply\<close>): what a read
  answers after each write, the keys of a slice that a deletion takes, and a prediction's writes kept
  whole or dropped.
\<close>

section \<open>Reads after writes\<close>

lemma otLayers_del [simp]: "otLayers (otDel k t) j = (if j = k then None else otLayers t j)"
  by (simp add: otLayers_def otDel_def update_conv' cong: option.case_cong)

lemma otHas_del [simp]: "otHas (otDel k t) j \<longleftrightarrow> j = k \<or> otHas t j"
  by (auto simp: otHas_def otDel_def dom_update)

lemma otDel_base [simp]: "ot_base (otDel k t) = ot_base t" "ot_data (otDel k t) = ot_data t"
  by (simp_all add: otDel_def)

lemma otDels:
  "ot_base (fold otDel ks t) = ot_base t" "ot_data (fold otDel ks t) = ot_data t"
  "otLayers (fold otDel ks t) j = (if j \<in> set ks then None else otLayers t j)"
  "otHas (fold otDel ks t) j \<longleftrightarrow> j \<in> set ks \<or> otHas t j"
  by (induction ks arbitrary: t) auto

lemma otSet_layers:
  assumes "otSet reg k type v t = Inr t'"
  shows "\<exists>js. layerIn reg type v = Inr js \<and> otLayers t' j = (if j = k then Some js else otLayers t j) \<and>
    otHas t' j = (j = k \<or> otHas t j) \<and> ot_base t' = ot_base t \<and> ot_data t' = ot_data t"
  using assms by (auto simp: otSet_def otLayers_def otHas_def update_conv' dom_update cong: option.case_cong split: sum.splits)

section \<open>The keys of a slice\<close>

abbreviation slicePattern :: "jsstr \<Rightarrow> key_pattern" where
  "slicePattern s \<equiv> \<lparr>kp_slice = OneSlice s, kp_name = None, kp_local = []\<rparr>"

abbreviation sliceScan :: "jsstr \<Rightarrow> scan_request" where
  "sliceScan s \<equiv> \<lparr>sr_pattern = slicePattern s, sr_reverse = False, sr_after = None, sr_limit = 1000, sr_values = None\<rparr>"

abbreviation sliceCompiled :: "jsstr \<Rightarrow> compiled_pattern" where
  "sliceCompiled s \<equiv> \<lparr>cp_head = s @ [bang], cp_fields = []\<rparr>"

lemma slice_compiled: "compilePattern (slicePattern s) = Inr (sliceCompiled s)" "name_ok (slicePattern s)"
  by (simp_all add: compilePattern_def name_ok_def)

lemma slice_matches: "matchesPattern (sliceCompiled s) k \<longleftrightarrow> prefix (s @ [bang]) k"
  unfolding matchesPattern_holds [OF slice_compiled] by (simp add: holds_def)

lemma slice_askable: "askable (sliceCompiled s) (sliceScan s)"
  by (simp add: askable_def slice_compiled)

lemma wholeSlice_name: "bang \<notin> set s \<Longrightarrow> wholeSlice (s @ [bang])"
  using index_unit_append [of bang s "[]"] by (simp add: wholeSlice_def index_of_def)

lemma add_keys_distinct: "distinct acc \<Longrightarrow> distinct (fold add_key ks acc)"
  by (induction ks arbitrary: acc) (auto simp: add_key_def)

context overlaid
begin

lemma slice_keys_live:
  assumes base: "rt_scan base = scan" and s: "bang \<notin> set s" and ok: "ovOk ok (sliceCompiled s) None t"
  obtains b where
    "otKeysUnder base (s @ [bang]) t = Some (Inr (filter (prefix (s @ [bang])) (ovLive live t)), t\<lparr>ot_base := b\<rparr>)"
    "ok (sliceCompiled s) None b" "live b = live (ot_base t)" "shape b = shape (ot_base t)"
proof -
  let ?c = "sliceCompiled s" and ?req = "sliceScan s" and ?p = "s @ [bang]"
  have b_ok: "ok ?c None (ot_base t)" using ok by (simp add: ovOk_def)
  have keys: "ascending (live (ot_base t))" by (rule live_ascending [OF b_ok])
  let ?es = "pickEntries (val None (ot_base t)) (walkFrom ?c False None (live (ot_base t)))"
  obtain b where all: "scanAllLoop (\<lambda>b after. scan (?req\<lparr>sr_after := after\<rparr>) b) (ot_base t) None [] = Some (Inr ?es, b)"
      and b: "ok ?c None b" "live b = live (ot_base t)" "shape b = shape (ot_base t)"
    using scanAll_walk [OF slice_askable, of s "ot_base t" None "[]"] b_ok by (auto simp: slice_askable)
  have walk: "walkFrom ?c False None (live (ot_base t)) = filter (prefix ?p) (live (ot_base t))"
    by (simp add: walkFrom_passes [OF keys] passes_def slice_matches walk_every_def)
  have fst: "map fst ?es = filter (prefix ?p) (live (ot_base t))"
    using keys_shown [OF b_ok] by (auto simp: pick_keys walk intro!: filter_cong)
  let ?ks = "fold add_key (otLayerKeys t (\<lambda>k. starts_with k ?p)) (fold add_key (filter (\<lambda>k. \<not> otHas t k) (map fst ?es)) [])"
  have "sortKeys ?ks = filter (prefix ?p) (ovLive live t)"
  proof (rule ascending_unique)
    show "ascending (sortKeys ?ks)" by (intro sortKeys_ascending add_keys_distinct) simp
    show "ascending (filter (prefix ?p) (ovLive live t))" by (intro sorted_wrt_filter ovLive_ascending keys)
    show "set (sortKeys ?ks) = set (filter (prefix ?p) (ovLive live t))"
      by (auto simp: fst otLayerKeys_set ovLive_set starts_with_prefix dest: otLayers_has split: if_splits)
  qed
  then show thesis using that all b by (simp add: otKeysUnder_def wholeSlice_name [OF s] base Let_def)
qed

text \<open>A deletion takes exactly the slice's keys, from the base and from the layers.\<close>

lemma delPrefix_live:
  assumes base: "rt_scan base = scan" and s: "bang \<notin> set s" and ok: "ovOk ok (sliceCompiled s) None t"
  obtains t' where "otDelPrefix base (s @ [bang]) t = Some (Inr (filter (prefix (s @ [bang])) (ovLive live t)), t')"
    "ovLive live t' = filter (\<lambda>k. \<not> prefix (s @ [bang]) k) (ovLive live t)"
    "\<And>k. \<not> prefix (s @ [bang]) k \<Longrightarrow> otLayers t' k = otLayers t k \<and> otHas t' k = otHas t k" "ot_data t' = ot_data t"
    "shape (ot_base t') = shape (ot_base t)"
proof -
  obtain b where b: "otKeysUnder base (s @ [bang]) t = Some (Inr (filter (prefix (s @ [bang])) (ovLive live t)), t\<lparr>ot_base := b\<rparr>)"
      "ok (sliceCompiled s) None b" "live b = live (ot_base t)" "shape b = shape (ot_base t)"
    by (rule slice_keys_live [OF assms])
  let ?ks = "filter (prefix (s @ [bang])) (ovLive live t)" let ?t = "fold otDel ?ks (t\<lparr>ot_base := b\<rparr>)"
  have keys: "ascending (live (ot_base t))" using ok live_ascending by (auto simp: ovOk_def)
  have "ovLive live ?t = filter (\<lambda>k. \<not> prefix (s @ [bang]) k) (ovLive live t)"
  proof (rule ascending_unique)
    show "ascending (ovLive live ?t)" using keys by (intro ovLive_ascending) (simp add: otDels b)
    show "ascending (filter (\<lambda>k. \<not> prefix (s @ [bang]) k) (ovLive live t))" by (intro sorted_wrt_filter ovLive_ascending keys)
    show "set (ovLive live ?t) = set (filter (\<lambda>k. \<not> prefix (s @ [bang]) k) (ovLive live t))"
      by (auto simp: ovLive_set otDels b split: if_splits)
  qed
  then show thesis using b(1,4) by (intro that [of ?t]) (auto simp: otDelPrefix_def otDels)
qed

end

section \<open>A prediction's writes\<close>

lemma fold_update_map: "map_of (fold (\<lambda>(k, v). AList.update k v) us al) k =
    (case map_of (rev us) k of Some v \<Rightarrow> Some v | None \<Rightarrow> map_of al k)"
  by (induction us arbitrary: al) (auto simp: update_conv' map_add_def split: option.split)

lemma map_of_distinct_rev: "distinct (map fst us) \<Longrightarrow> map_of (rev us) k = map_of us k"
proof (induction us)
  case (Cons a us)
  then have "map_of us (fst a) = None" by (simp add: map_of_eq_None_iff)
  then show ?case using Cons by (cases a) (auto simp: map_add_def split: option.split)
qed simp

lemma fold_update_keys: "fst ` set (fold (\<lambda>(k, v). AList.update k v) us al) = fst ` set us \<union> fst ` set al"
  by (induction us arbitrary: al) (simp_all add: dom_update split_def)

text \<open>Kept, the writes read from the overlay as they did from the transaction that made them.\<close>

lemma kept_layers:
  assumes "distinct (map fst (ot_updates t))"
  shows "otLayers \<lparr>ot_base = b, ot_data = fold (\<lambda>(k, v). AList.update k v) (ot_updates t) (ot_data t), ot_updates = []\<rparr> k = otLayers t k"
    "otHas \<lparr>ot_base = b, ot_data = fold (\<lambda>(k, v). AList.update k v) (ot_updates t) (ot_data t), ot_updates = []\<rparr> k = otHas t k"
proof -
  have r: "map_of (rev (ot_updates t)) = map_of (ot_updates t)" using map_of_distinct_rev [OF assms] by (simp add: fun_eq_iff)
  show "otLayers \<lparr>ot_base = b, ot_data = fold (\<lambda>(k, v). AList.update k v) (ot_updates t) (ot_data t), ot_updates = []\<rparr> k = otLayers t k"
    by (simp add: otLayers_def fold_update_map r split: option.split)
  show "otHas \<lparr>ot_base = b, ot_data = fold (\<lambda>(k, v). AList.update k v) (ot_updates t) (ot_data t), ot_updates = []\<rparr> k = otHas t k"
    by (simp add: otHas_def fold_update_keys)
qed

end
