(* ===== verification/PredictViews.thy ===== *)
theory PredictViews
  imports Predict QueryViews OverlayWrites
begin

text \<open>
  The overlay rebuilt (typespec/ts/assets/skeleton.ts, \<open>#rebuildOverlay\<close>): a prediction leaves what the
  base holds as it was; every key of the overlay discarded and of the one predicted is marked; so where the
  graph was told of the base's changes, and no deletion is predicted, each query is up to date after it.
\<close>

section \<open>A prediction leaves the base as it was\<close>

text \<open>The reads of a prediction: keys by their type, and scans of templates among \<open>C\<close>.\<close>

definition scanFits :: "(jsstr \<Rightarrow> jsstr) \<Rightarrow> compiled_pattern list \<Rightarrow> scan_request \<Rightarrow> compiled_pattern \<Rightarrow> bool" where
  "scanFits tyof C req c \<longleftrightarrow> c \<in> set C \<and> askable c req \<and> memReadable False tyof c (sr_values req)"

primrec predictionFits :: "(jsstr \<Rightarrow> jsstr) \<Rightarrow> compiled_pattern list \<Rightarrow> ('js, 'host) prediction \<Rightarrow> bool" where
  "predictionFits tyof C PDone = True"
| "predictionFits tyof C (PThrow e) = True"
| "predictionFits tyof C (PGet key type p) = (type = tyof key \<and> type \<notin> set RAW_TYPES \<and> (\<forall>x. predictionFits tyof C (p x)))"
| "predictionFits tyof C (PScan req p) = (scanFits tyof C (scanRequest req) (patternOf req) \<and> (\<forall>x. predictionFits tyof C (p x)))"
| "predictionFits tyof C (PSet key type js p) = (\<forall>x. predictionFits tyof C (p x))"
| "predictionFits tyof C (PDel key p) = (\<forall>x. predictionFits tyof C (p x))"
| "predictionFits tyof C (PDeleteSlice sl p) = (\<forall>x. predictionFits tyof C (p x))"

definition memKeys :: "compiled_pattern list \<Rightarrow> 'js mem_txn \<Rightarrow> bool" where
  "memKeys C t \<longleftrightarrow> mem_ok t \<and> (\<forall>k \<in> set (liveKeys t). \<forall>c \<in> set C. key_rule c k)"

lemma memKeys_shape: "memShape reg tyof t' = memShape reg tyof t \<Longrightarrow> memKeys C t' = memKeys C t"
  by (simp add: memShape_def memKeys_def)

lemma wholeSlice_inside: "bang \<in> set s \<Longrightarrow> \<not> wholeSlice (s @ [bang])"
proof -
  assume b: "bang \<in> set s"
  then obtain i where i: "index_unit bang s = Some i" by (cases "index_unit bang s") (auto simp: index_unit_None)
  have "index_unit bang (s @ [bang]) = Some i" using i b by (induction s arbitrary: i) (auto split: if_splits)
  moreover have "i < length s" using i by (simp add: index_unit_Some)
  ultimately show ?thesis by (simp add: wholeSlice_def index_of_def)
qed

lemma mem_delPrefix:
  assumes "memKeys C (ot_base t)"
  shows "\<exists>r t'. otDelPrefix (memReads False reg) (s @ [bang]) t = Some (r, t') \<and>
    memShape reg tyof (ot_base t') = memShape reg tyof (ot_base t) \<and> ot_data t' = ot_data t"
proof (cases "bang \<in> set s")
  case True
  then show ?thesis by (auto simp: otDelPrefix_def otKeysUnder_def wholeSlice_inside)
next
  case False
  have ok: "ovOk (memOk False tyof) (sliceCompiled s) None t"
    using assms by (simp add: ovOk_def memOk_def memReadable_def memKeys_def key_rule_def)
  have base: "rt_scan (memReads False reg) = (\<lambda>req t. mtScan False reg t req)" by (simp add: memReads_def)
  show ?thesis by (rule memOver.delPrefix_live [OF base False ok]) blast
qed

lemma predictIn_frame:
  assumes "predictionFits tyof C p" "memKeys C (ot_base t)"
  shows "\<exists>r t'. predictIn reg (memReads False reg) p t = Some (r, t') \<and>
    memShape reg tyof (ot_base t') = memShape reg tyof (ot_base t) \<and> ot_data t' = ot_data t"
  using assms
proof (induction p arbitrary: t)
  case (PGet key type p)
  have ty: "type = tyof key" "tyof key \<notin> set RAW_TYPES" using PGet.prems by auto
  obtain r t1 where g: "otGet reg (memReads False reg) key type JS t = (r, t1)" by fastforce
  have same: "memShape reg tyof (ot_base t1) = memShape reg tyof (ot_base t) \<and> ot_data t1 = ot_data t"
  proof (cases "otHas t key")
    case True
    then show ?thesis using g by (auto simp: otGet_def split: option.splits)
  next
    case False
    obtain b where "mtOut False reg (ot_base t) key (tyof key) JS = (Inr (map_option JsVal (memJs reg (tyof key) (mtLive (ot_base t) key))), b)"
        "memShape reg tyof b = memShape reg tyof (ot_base t)"
      by (rule mtOut_typed [where tyof = tyof and k = key, OF ty(2)])
    then show ?thesis using g False by (auto simp: otGet_def memReads_def ty(1))
  qed
  have "memKeys C (ot_base t1)" using memKeys_shape [of reg tyof "ot_base t1" "ot_base t" C] same PGet.prems(2) by simp
  then show ?case using PGet.IH [OF rangeI, of "map_sum PredictStore id r" t1] PGet.prems(1) g same by auto
next
  case (PScan req p)
  let ?req = "scanRequest req" and ?c = "patternOf req"
  have f: "?c \<in> set C" "askable ?c ?req" "memReadable False tyof ?c (sr_values ?req)" using PScan.prems(1) by (auto simp: scanFits_def)
  have ok: "ovOk (memOk False tyof) ?c (sr_values ?req) t"
    using f PScan.prems(2) by (auto simp: ovOk_def memOk_def memKeys_def memReadable_def)
  obtain r t1 where s: "otScan reg (\<lambda>req t. mtScan False reg t req) ?req t = Some (r, t1)"
      and shape: "ovShape (memShape reg tyof) t1 = ovShape (memShape reg tyof) t"
    using memOver.over.scan_tile [OF ok f(2)] by blast
  have same: "memShape reg tyof (ot_base t1) = memShape reg tyof (ot_base t) \<and> ot_data t1 = ot_data t"
    using shape by (simp add: ovShape_def)
  have "memKeys C (ot_base t1)" using memKeys_shape [of reg tyof "ot_base t1" "ot_base t" C] same PScan.prems(2) by simp
  then show ?case using PScan.IH [OF rangeI, of "map_sum PredictStore id r" t1] PScan.prems(1) s same by (auto simp: memReads_def)
next
  case (PSet key type js p)
  have step: "\<exists>r t'. predictIn reg (memReads False reg) (p x) t1 = Some (r, t') \<and>
      memShape reg tyof (ot_base t') = memShape reg tyof (ot_base t1) \<and> ot_data t' = ot_data t1" if "ot_base t1 = ot_base t" for x t1
    using PSet.IH [OF rangeI, of x t1] PSet.prems that by simp
  show ?case using step [of t] step [of "t\<lparr>ot_updates := AList.update key (Some js) (ot_updates t)\<rparr>"]
    by (cases "checkLength KeyLength key") (auto simp: otSet_def layerIn_def)
next
  case (PDel key p)
  have step: "\<exists>r t'. predictIn reg (memReads False reg) (p x) t1 = Some (r, t') \<and>
      memShape reg tyof (ot_base t') = memShape reg tyof (ot_base t1) \<and> ot_data t' = ot_data t1" if "ot_base t1 = ot_base t" for x t1
    using PDel.IH [OF rangeI, of x t1] PDel.prems that by simp
  show ?case using step [of t] step [of "otDel key t"] by (cases "checkLength KeyLength key") auto
next
  case (PDeleteSlice sl p)
  obtain r t1 where d: "otDelPrefix (memReads False reg) (sl @ [bang]) t = Some (r, t1)"
      and same: "memShape reg tyof (ot_base t1) = memShape reg tyof (ot_base t)" "ot_data t1 = ot_data t"
    using mem_delPrefix [OF PDeleteSlice.prems(2)] by blast
  have k: "memKeys C (ot_base t1)" using memKeys_shape [OF same(1)] PDeleteSlice.prems(2) by simp
  have step: "\<exists>r t'. predictIn reg (memReads False reg) (p x) u = Some (r, t') \<and>
      memShape reg tyof (ot_base t') = memShape reg tyof (ot_base u) \<and> ot_data t' = ot_data u" if "memKeys C (ot_base u)" for x u
    using PDeleteSlice.IH [OF rangeI _ that] PDeleteSlice.prems by simp
  show ?case using step [OF PDeleteSlice.prems(2)] step [OF k] same d by (cases "checkLength SliceLength sl") auto
qed auto

section \<open>The outbox predicted\<close>

lemma graphDirty_simps [simp]:
  "set (qg_dirty (graphDirty ks g)) = set ks \<union> set (qg_dirty g)" "qg_all (graphDirty ks g) = qg_all g"
  "qg_queries (graphDirty ks g) = qg_queries g"
  by (simp_all add: graphDirty_def)

lemma apply_frame:
  assumes p: "predictionFits tyof C p" and t: "memKeys C b"
  shows "\<exists>r b' data'. overlayApply (predictIn reg (memReads False reg) p) b data = Some (r, b', data') \<and>
    memShape reg tyof b' = memShape reg tyof b \<and>
    (case r of Inl _ \<Rightarrow> data' = data | Inr written \<Rightarrow> fst ` set data' = fst ` set data \<union> set written)"
proof -
  obtain r t' where s: "predictIn reg (memReads False reg) p \<lparr>ot_base = b, ot_data = data, ot_updates = []\<rparr> = Some (r, t')"
      "memShape reg tyof (ot_base t') = memShape reg tyof b"
    using predictIn_frame [OF p, of "\<lparr>ot_base = b, ot_data = data, ot_updates = []\<rparr>" reg] t by auto
  then show ?thesis by (cases r) (auto simp: overlayApply_def fold_update_keys)
qed

lemma predictRows_frame:
  assumes "\<And>m. predictionFits tyof C (predictor m)" "memKeys C b"
  shows "\<exists>b' data' g'. predictRows reg (memReads False reg) mutations data_of predictor rows b data g = Some (b', data', g') \<and>
    memShape reg tyof b' = memShape reg tyof b \<and> fst ` set data' \<subseteq> fst ` set data \<union> set (qg_dirty g') \<and>
    set (qg_dirty g) \<subseteq> set (qg_dirty g') \<and> qg_all g' = qg_all g \<and> qg_queries g' = qg_queries g"
  using assms(2)
proof (induction rows arbitrary: b data g)
  case (Cons row rows)
  obtain k v where row: "row = (k, v)" by (cases row)
  show ?case
  proof (cases "mutationData reg mutations (data_of v)")
    case None
    then show ?thesis using Cons.IH [OF Cons.prems] by (simp add: row)
  next
    case (Some m)
    obtain r b1 data1 where a: "overlayApply (predictIn reg (memReads False reg) (predictor m)) b data = Some (r, b1, data1)"
        "memShape reg tyof b1 = memShape reg tyof b"
        "case r of Inl _ \<Rightarrow> data1 = data | Inr written \<Rightarrow> fst ` set data1 = fst ` set data \<union> set written"
      using apply_frame [OF assms(1) Cons.prems] by blast
    have b1: "memKeys C b1" using memKeys_shape [OF a(2)] Cons.prems by simp
    show ?thesis
    proof (cases r)
      case (Inl e)
      then show ?thesis using Cons.IH [OF b1, of data1 g] a Some by (simp add: row)
    next
      case (Inr written)
      obtain b' data' g' where r: "predictRows reg (memReads False reg) mutations data_of predictor rows b1 data1 (graphDirty written g) =
            Some (b', data', g')" "memShape reg tyof b' = memShape reg tyof b1" "fst ` set data' \<subseteq> fst ` set data1 \<union> set (qg_dirty g')"
          "set (qg_dirty (graphDirty written g)) \<subseteq> set (qg_dirty g')" "qg_all g' = qg_all g" "qg_queries g' = qg_queries g"
        using Cons.IH [OF b1, of data1 "graphDirty written g"] unfolding graphDirty_simps(2,3) by blast
      moreover have "fst ` set data' \<subseteq> fst ` set data \<union> set (qg_dirty g')"
        using r(3,4) a(3) unfolding Inr graphDirty_simps(1) sum.case by blast
      ultimately show ?thesis using a Some by (simp add: row Inr)
    qed
  qed
qed simp

section \<open>The rebuild\<close>

text \<open>Two views of one overlay each agree off the overlays' keys where the bases do.\<close>

lemma view_off_overlay:
  assumes "k \<notin> fst ` set data"
  shows "sn_get (viewSnap reg tyof status data t) k = sn_get (viewSnap reg tyof status [] t) k"
    "k \<in> set (sn_keys (viewSnap reg tyof status data t)) \<longleftrightarrow> k \<in> set (sn_keys (viewSnap reg tyof status [] t))"
  using assms by (simp_all add: viewSnap_def viewGet_def ovLive_set predicted_base(1) predicted_layers)

lemma views_agree:
  assumes base: "agreeOn (\<lambda>k. k \<notin> set D) (viewSnap reg tyof status [] t) (viewSnap reg tyof status' [] t')"
    and D: "fst ` set data \<subseteq> set D'" "fst ` set data' \<subseteq> set D'" "set D \<subseteq> set D'"
  shows "agreeOn (\<lambda>k. k \<notin> set D') (viewSnap reg tyof status data t) (viewSnap reg tyof status' data' t')"
  unfolding agreeOn_def
proof (intro allI impI)
  fix k
  assume "k \<notin> set D'"
  then have k: "k \<notin> fst ` set data" "k \<notin> fst ` set data'" "k \<notin> set D" using D by blast+
  note off = view_off_overlay [OF k(1), of reg tyof status t] view_off_overlay [OF k(2), of reg tyof status' t']
  show "sn_get (viewSnap reg tyof status data t) k = sn_get (viewSnap reg tyof status' data' t') k \<and>
      (k \<in> set (sn_keys (viewSnap reg tyof status data t)) \<longleftrightarrow> k \<in> set (sn_keys (viewSnap reg tyof status' data' t')))"
    unfolding off using base k(3) unfolding agreeOn_def by blast
qed

definition noDeletion :: "'js overlay \<Rightarrow> bool" where
  "noDeletion data \<longleftrightarrow> (\<forall>(k, v) \<in> set data. map_of data k \<noteq> Some None)"

lemma viewOk_overlay: "viewOk reg tyof R [] t \<Longrightarrow> noDeletion data \<Longrightarrow> viewOk reg tyof R data t"
  by (simp add: viewOk_def noDeletion_def)

section \<open>Predictions that delete nothing\<close>

primrec onlySets :: "('js, 'host) prediction \<Rightarrow> bool" where
  "onlySets PDone = True"
| "onlySets (PThrow e) = True"
| "onlySets (PGet key type p) = (\<forall>x. onlySets (p x))"
| "onlySets (PScan req p) = (\<forall>x. onlySets (p x))"
| "onlySets (PSet key type js p) = (\<forall>x. onlySets (p x))"
| "onlySets (PDel key p) = False"
| "onlySets (PDeleteSlice sl p) = False"

definition allSet :: "'v updates \<Rightarrow> bool" where
  "allSet us \<longleftrightarrow> None \<notin> snd ` set us"

lemma allSet_update: "allSet us \<Longrightarrow> allSet (AList.update k (Some v) us)"
  by (induction us) (auto simp: allSet_def)

lemma allSet_fold: "allSet us \<Longrightarrow> allSet data \<Longrightarrow> allSet (fold (\<lambda>(k, v). AList.update k v) us data)"
proof (induction us arbitrary: data)
  case (Cons u us)
  then obtain k v where u: "u = (k, Some v)" by (cases u; cases "snd u") (auto simp: allSet_def)
  have "allSet us" using Cons.prems(1) by (simp add: allSet_def)
  then show ?case using Cons.IH [OF _ allSet_update [OF Cons.prems(2)]] by (simp add: u)
qed simp

lemma allSet_noDeletion: "allSet data \<Longrightarrow> noDeletion data"
  by (auto simp: allSet_def noDeletion_def dest!: map_of_SomeD intro: rev_image_eqI)

lemma otGet_updates: "otGet reg base key type rep t = (r, t') \<Longrightarrow> ot_updates t' = ot_updates t"
  by (auto simp: otGet_def split: if_splits option.splits prod.splits)

lemma otScan_updates: "otScan reg scan req t = Some (r, t') \<Longrightarrow> ot_updates t' = ot_updates t"
  by (auto simp: otScan_def Let_def split: option.splits prod.splits sum.splits)

lemma predictIn_sets:
  "onlySets p \<Longrightarrow> allSet (ot_updates t) \<Longrightarrow> predictIn reg base p t = Some (r, t') \<Longrightarrow> allSet (ot_updates t')"
proof (induction p arbitrary: t)
  case (PGet key type p)
  obtain r1 t1 where "otGet reg base key type JS t = (r1, t1)" by fastforce
  then show ?case using PGet.IH [OF rangeI, of "map_sum PredictStore id r1" t1] PGet.prems otGet_updates by fastforce
next
  case (PScan req p)
  then obtain r1 t1 where s: "otScan reg (rt_scan base) (scanRequest req) t = Some (r1, t1)" by (auto split: option.splits)
  then show ?case using PScan.IH [OF rangeI, of "map_sum PredictStore id r1" t1] PScan.prems otScan_updates [OF s] by simp
next
  case (PSet key type js p)
  have u: "allSet (ot_updates (t\<lparr>ot_updates := AList.update key (Some js) (ot_updates t)\<rparr>))" using allSet_update [OF PSet.prems(2)] by simp
  show ?case using PSet.IH [OF rangeI _ PSet.prems(2)] PSet.IH [OF rangeI _ u] PSet.prems(1,3)
    by (cases "checkLength KeyLength key") (auto simp: otSet_def layerIn_def)
qed auto

lemma predictRows_sets:
  "(\<And>m. onlySets (predictor m)) \<Longrightarrow> allSet data \<Longrightarrow>
    predictRows reg base mutations data_of predictor rows b data g = Some (b', data', g') \<Longrightarrow> allSet data'"
proof (induction rows arbitrary: b data g)
  case (Cons row rows)
  obtain k v where row: "row = (k, v)" by (cases row)
  show ?case
  proof (cases "mutationData reg mutations (data_of v)")
    case None
    then show ?thesis using Cons.IH [OF Cons.prems(1,2)] Cons.prems(3) by (simp add: row)
  next
    case (Some m)
    then obtain r1 b1 data1 where a: "overlayApply (predictIn reg base (predictor m)) b data = Some (r1, b1, data1)"
        and rest: "\<exists>g1. predictRows reg base mutations data_of predictor rows b1 data1 g1 = Some (b', data', g')"
      using Cons.prems(3) by (auto simp: row split: option.splits prod.splits sum.splits)
    have "allSet data1"
    proof (cases "predictIn reg base (predictor m) \<lparr>ot_base = b, ot_data = data, ot_updates = []\<rparr>")
      case (Some rt)
      then obtain r t where p: "predictIn reg base (predictor m) \<lparr>ot_base = b, ot_data = data, ot_updates = []\<rparr> = Some (r, t)"
        by (metis prod.collapse)
      have "allSet (ot_updates t)" using predictIn_sets [OF Cons.prems(1) _ p] by (simp add: allSet_def)
      then show ?thesis using a p allSet_fold Cons.prems(2) by (auto simp: overlayApply_def split: sum.splits)
    qed (use a in \<open>simp add: overlayApply_def\<close>)
    then show ?thesis using Cons.IH [OF Cons.prems(1)] rest by blast
  qed
qed simp

section \<open>The graph told\<close>

text \<open>The outbox's rows are read as one type, in the store's own slice.\<close>

definition outboxFits :: "(jsstr \<Rightarrow> jsstr) \<Rightarrow> compiled_pattern list \<Rightarrow> bool" where
  "outboxFits tyof C \<longleftrightarrow> (\<exists>c. scanFits tyof C outboxRows c)"

lemma rebuild_predicts:
  assumes p: "\<And>P m. predictor = Some P \<Longrightarrow> predictionFits tyof C (P m)" and C: "outboxFits tyof C" and t: "memKeys C t"
  shows "\<exists>t' data' g'. rebuildOverlay differs reg (memReads False reg) mutations data_of predictor outbox status held t data g =
      map_option (\<lambda>(r, g'', t''). (map_sum QueryFails id r, t'', data', g'')) (runGraph differs reg (memReads False reg) status held t' data' g') \<and>
    memShape reg tyof t' = memShape reg tyof t \<and> fst ` set data' \<subseteq> set (qg_dirty g') \<and> fst ` set data \<subseteq> set (qg_dirty g') \<and>
    set (qg_dirty g) \<subseteq> set (qg_dirty g') \<and> qg_all g' = qg_all g \<and> qg_queries g' = qg_queries g \<and>
    ((\<forall>P m. predictor = Some P \<longrightarrow> onlySets (P m)) \<longrightarrow> noDeletion data')"
proof -
  let ?g = "graphDirty (overlayKeys data) g"
  have g: "fst ` set data \<subseteq> set (qg_dirty ?g)" "set (qg_dirty g) \<subseteq> set (qg_dirty ?g)" by (auto simp: overlayKeys_def)
  show ?thesis
  proof (cases "\<exists>P. predictor = Some P \<and> outbox > 0")
    case False
    then show ?thesis using g
      by (intro exI [of _ t] exI [of _ "[]"] exI [of _ ?g]) (cases predictor, auto simp: rebuildOverlay_def Let_def noDeletion_def)
  next
    case True
    then obtain P where P: "predictor = Some P" "outbox > 0" by blast
    obtain c where c: "c \<in> set C" "askable c outboxRows" "memReadable False tyof c (sr_values outboxRows)"
      using C by (auto simp: outboxFits_def scanFits_def)
    have ok: "memOk False tyof c (sr_values outboxRows) t" using t c by (simp add: memOk_def memKeys_def)
    have a: "outboxRows\<lparr>sr_after := None\<rparr> = outboxRows" by (simp add: outboxRows_def)
    obtain rows t1 where s: "scanAllLoop (\<lambda>b after. mtScan False reg b (outboxRows\<lparr>sr_after := after\<rparr>)) t None [] = Some (Inr rows, t1)"
        and t1: "memShape reg tyof t1 = memShape reg tyof t"
      using mem.scanAll_walk [OF c(2) ok, where after = None and all = "[]" and reg = reg] c(2) unfolding a by blast
    have k1: "memKeys C t1" using memKeys_shape [OF t1] t by simp
    obtain t2 data2 g2 where r: "predictRows reg (memReads False reg) mutations data_of P rows t1 [] ?g = Some (t2, data2, g2)"
        "memShape reg tyof t2 = memShape reg tyof t1" "fst ` set data2 \<subseteq> set (qg_dirty g2)" "set (qg_dirty ?g) \<subseteq> set (qg_dirty g2)"
        "qg_all g2 = qg_all g" "qg_queries g2 = qg_queries g"
      using predictRows_frame [where predictor = P, OF p [OF P(1)] k1, where reg = reg and mutations = mutations and data_of = data_of and rows = rows
          and data = "[]" and g = ?g] by auto
    have sets: "noDeletion data2" if "\<forall>P m. predictor = Some P \<longrightarrow> onlySets (P m)"
      by (rule allSet_noDeletion, rule predictRows_sets [OF _ _ r(1)]) (use that P(1) in \<open>auto simp: allSet_def\<close>)
    have scan: "rt_scan (memReads False reg) = (\<lambda>req t. mtScan False reg t req)" by (simp add: memReads_def)
    show ?thesis using s t1 r g sets
      by (intro exI [of _ t2] exI [of _ data2] exI [of _ g2]) (auto simp: rebuildOverlay_def Let_def P scan)
  qed
qed

section \<open>What a prediction writes\<close>

lemma otDel_updates: "distinct (map fst (ot_updates t)) \<Longrightarrow> distinct (map fst (ot_updates (fold otDel ks t)))"
  by (induction ks arbitrary: t) (simp_all add: otDel_def distinct_update)

lemma otDelPrefix_updates:
  "otDelPrefix base p t = Some (r, t') \<Longrightarrow> ot_data t' = ot_data t \<and> (distinct (map fst (ot_updates t)) \<longrightarrow> distinct (map fst (ot_updates t')))"
proof -
  assume d: "otDelPrefix base p t = Some (r, t')"
  then obtain r1 t1 where k: "otKeysUnder base p t = Some (r1, t1)" by (auto simp: otDelPrefix_def)
  have same: "ot_data t1 = ot_data t" "ot_updates t1 = ot_updates t"
    using k by (auto simp: otKeysUnder_def Let_def split: if_splits option.splits sum.splits prod.splits)
  show ?thesis using d k same by (cases r1) (auto simp: otDelPrefix_def otDels otDel_updates)
qed

lemma predictIn_updates:
  "predictIn reg base p t = Some (r, t') \<Longrightarrow> distinct (map fst (ot_updates t)) \<Longrightarrow>
    ot_data t' = ot_data t \<and> distinct (map fst (ot_updates t'))"
proof (induction p arbitrary: t)
  case (PGet key type p)
  obtain r1 t1 where g: "otGet reg base key type JS t = (r1, t1)" by fastforce
  then have "ot_data t1 = ot_data t" by (auto simp: otGet_def split: if_splits option.splits prod.splits)
  then show ?case using PGet.IH [OF rangeI, of "map_sum PredictStore id r1" t1] PGet.prems otGet_updates [OF g] g by simp
next
  case (PScan req p)
  then obtain r1 t1 where s: "otScan reg (rt_scan base) (scanRequest req) t = Some (r1, t1)" by (auto split: option.splits)
  then have "ot_data t1 = ot_data t" by (auto simp: otScan_def Let_def split: option.splits prod.splits sum.splits)
  then show ?case using PScan.IH [OF rangeI, of "map_sum PredictStore id r1" t1] PScan.prems otScan_updates [OF s] s by simp
next
  case (PSet key type js p)
  have u: "distinct (map fst (ot_updates (t\<lparr>ot_updates := AList.update key (Some js) (ot_updates t)\<rparr>)))"
    using PSet.prems(2) by (simp add: distinct_update)
  show ?case using PSet.IH [OF rangeI _ PSet.prems(2)] PSet.IH [OF rangeI _ u] PSet.prems(1)
    by (cases "checkLength KeyLength key") (auto simp: otSet_def layerIn_def)
next
  case (PDel key p)
  have u: "distinct (map fst (ot_updates (otDel key t)))" using otDel_updates [of t "[key]"] PDel.prems(2) by simp
  show ?case using PDel.IH [OF rangeI _ PDel.prems(2)] PDel.IH [OF rangeI _ u] PDel.prems(1)
    by (cases "checkLength KeyLength key") auto
next
  case (PDeleteSlice sl p)
  show ?case
  proof (cases "checkLength SliceLength sl")
    case (Inl e)
    then show ?thesis using PDeleteSlice.IH [OF rangeI _ PDeleteSlice.prems(2)] PDeleteSlice.prems(1) by simp
  next
    case (Inr u)
    then obtain r1 t1 where d: "otDelPrefix base (sl @ [bang]) t = Some (r1, t1)"
        and rest: "predictIn reg base (p (map_sum PredictStore (\<lambda>_. ()) r1)) t1 = Some (r, t')"
      using PDeleteSlice.prems(1) by (auto split: option.splits)
    show ?thesis using PDeleteSlice.IH [OF rangeI rest] otDelPrefix_updates [OF d] PDeleteSlice.prems(2) by simp
  qed
qed auto

section \<open>While reads are held\<close>

text \<open>A run that is not made to wait has read the status alone.\<close>

lemma held_run:
  assumes "\<forall>w \<in> set ws. wk_phase w \<noteq> Hand"
  shows "\<exists>out deps'. runQuery (statusView txn status True) q ws b deps = Some (out, b, deps') \<and> (rd_held deps \<longrightarrow> rd_held deps') \<and>
    (\<not> rd_held deps' \<longrightarrow> set (rd_keys deps') \<subseteq> set (rd_keys deps) \<union> fst ` set status \<and> rd_spans deps' = rd_spans deps)"
  using assms
proof (induction q arbitrary: ws deps)
  case (Get key type q)
  let ?deps = "deps\<lparr>rd_keys := add_key key (rd_keys deps)\<rparr>"
  show ?case
  proof (cases "key \<in> fst ` set status")
    case True
    have "readGet (statusView txn status True) key type b deps = (Inr (map_of status key), b, ?deps)"
      using True by (simp add: readGet_def statusView_def markHeld_def Let_def)
    then show ?thesis using Get.IH [OF rangeI Get.prems, of "Inr (map_of status key)" ?deps] True by auto
  next
    case False
    have "readGet (statusView txn status True) key type b deps = (Inl Held, b, ?deps\<lparr>rd_held := True\<rparr>)"
      using False by (simp add: readGet_def statusView_def markHeld_def Let_def)
    then show ?thesis using Get.IH [OF rangeI Get.prems, of "Inl Held" "?deps\<lparr>rd_held := True\<rparr>"] by auto
  qed
next
  case (Walk req q)
  then show ?case using Walk.IH [OF rangeI, of "ws @ [scanEach req]" "length ws" deps] by (auto simp: scanEach_def)
next
  case (Next i q)
  show ?case
  proof (cases "i < length ws")
    case i: True
    then have "wk_phase (ws ! i) \<noteq> Hand" using Next.prems by simp
    then consider "wk_phase (ws ! i) = Over" | "wk_phase (ws ! i) = Fetch" by (cases "wk_phase (ws ! i)") auto
    then show ?thesis
    proof cases
      case 1
      then have "walkNext (statusView txn status True) (ws ! i) b deps = Some (Inr None, ws ! i, b, deps)" by (subst walkNext.simps) simp
      then show ?thesis using Next.IH [OF rangeI Next.prems, of "Inr None" deps] i by simp
    next
      case 2
      let ?w = "(ws ! i)\<lparr>wk_phase := Over\<rparr>"
      have "walkNext (statusView txn status True) (ws ! i) b deps = Some (Inl Held, ?w, b, deps\<lparr>rd_held := True\<rparr>)"
        using 2 by (subst walkNext.simps) (simp add: readScan_def statusView_def markHeld_def)
      moreover have "\<forall>w \<in> set (ws[i := ?w]). wk_phase w \<noteq> Hand"
        using Next.prems set_update_subset_insert [of ws i ?w] by auto
      ultimately show ?thesis using Next.IH [OF rangeI, of "ws[i := ?w]" "Inl Held" "deps\<lparr>rd_held := True\<rparr>"] i by auto
    qed
  next
    case False
    then show ?thesis using Next.IH [OF rangeI Next.prems, of "Inr None" deps] by simp
  qed
qed auto

end
