(* ===== verification/OverlayProperties.thy ===== *)
theory OverlayProperties
  imports PredictViews
begin

text \<open>
  What the overlay and the query graph promise (typespec/ts/assets/skeleton.ts, \<open>Overlay\<close>, \<open>QueryGraph\<close>
  and \<open>#rebuildOverlay\<close>): a scan over predictions is a walk of one map, a prediction is kept whole or not
  at all, and a query is up to date after a rebuild though it runs again only when a key it looked at
  changed. A predicted deletion can break the last of these.
\<close>

section \<open>Samples, and walks taken entry by entry\<close>

definition staleKeys :: "jsstr list" where
  "staleKeys = map (\<lambda>u. lit ''a!n:'' @ [u])
     [0x61, 0x62, 0x63, 0x64, 0x65, 0x66, 0x67, 0x68, 0x69, 0x6a, 0x6b, 0x6c, 0x6d, 0x6e, 0x6f, 0x70, 0x71]"

definition staleTxn :: "unit mem_txn" where
  "staleTxn = \<lparr>mt_values = map (\<lambda>k. (k, Plain ())) staleKeys, mt_keys = [staleKeys], mt_updates = []\<rparr>"

definition staleScan :: read_scan where
  "staleScan = \<lparr>rs_pattern = \<lparr>kp_slice = OneSlice (lit ''a''), kp_name = Some (lit ''n''), kp_local = [AnyValue]\<rparr>,
     rs_type = None, rs_reverse = False, rs_after = None, rs_limit = 16\<rparr>"

definition unitReg :: "(unit, unit) registry" where
  "unitReg = \<lparr>reg_js = (\<lambda>_ _. Inr ()), reg_out = (\<lambda>_ _ _. Inr (HostVal ())), reg_raw = (\<lambda>_ bs _. Inr (ByteVal bs)),
      reg_env = (\<lambda>_. Inl (lit ''no'')), reg_ops = (\<lambda>_ _. Inr [])\<rparr>"

text \<open>The parameters of a walk's entries, to its end.\<close>

primrec takeAll :: "nat \<Rightarrow> nat \<Rightarrow> jsstr list list \<Rightarrow> (jsstr list list, 'js, 'host) query" where
  "takeAll 0 i acc = Answer acc"
| "takeAll (Suc n) i acc =
     Next i (\<lambda>x. case x of Inr (Some (ps, _)) \<Rightarrow> takeAll n i (acc @ [ps]) | _ \<Rightarrow> Answer acc)"

text \<open>A run of \<open>takeAll\<close>, batch by batch.\<close>

lemma takeAll_moves:
  assumes "i < length ws" "walkNext view (ws ! i) b deps = walkNext view w b' deps'"
  shows "runQuery view (takeAll (Suc n) i acc) ws b deps = runQuery view (takeAll (Suc n) i acc) (ws[i := w]) b' deps'"
  using assms by (simp cong: option.case_cong)

lemma takeAll_fetches:
  assumes "i < length ws" "wk_phase (ws ! i) = Fetch" "readScan view (wk_req (ws ! i)) b deps = Some (Inr (es, next'), b', deps')"
  shows "runQuery view (takeAll (Suc n) i acc) ws b deps =
    runQuery view (takeAll (Suc n) i acc) (ws[i := (ws ! i)\<lparr>wk_phase := Hand, wk_batch := es, wk_next := next',
      wk_span := length (rd_spans deps') - 1\<rparr>]) b' deps'"
  by (rule takeAll_moves [OF assms(1)]) (use assms in \<open>subst walkNext.simps, simp\<close>)

lemma takeAll_next:
  assumes "i < length ws" "wk_phase (ws ! i) = Hand" "wk_batch (ws ! i) = []" "wk_next (ws ! i) = Some k"
  shows "runQuery view (takeAll (Suc n) i acc) ws b deps =
    runQuery view (takeAll (Suc n) i acc) (ws[i := (ws ! i)\<lparr>wk_phase := Fetch,
      wk_req := (wk_req (ws ! i))\<lparr>rs_after := Some k, rs_limit := min (rs_limit (wk_req (ws ! i)) * 2) 256\<rparr>\<rparr>]) b deps"
  by (rule takeAll_moves [OF assms(1)]) (use assms in \<open>subst walkNext.simps, simp\<close>)

lemma takeAll_ends:
  assumes "i < length ws" "wk_phase (ws ! i) = Hand" "wk_batch (ws ! i) = []" "wk_next (ws ! i) = None"
  shows "runQuery view (takeAll (Suc n) i acc) ws b deps = Some (Inr acc, b, cutSpan deps (wk_span (ws ! i)) None)"
proof -
  have "walkNext view (ws ! i) b deps = Some (Inr None, (ws ! i)\<lparr>wk_phase := Over\<rparr>, b, cutSpan deps (wk_span (ws ! i)) None)"
    using assms by (subst walkNext.simps) simp
  then show ?thesis using assms(1) by simp
qed

lemma takeAll_hands:
  assumes "i < length ws" "wk_phase (ws ! i) = Hand"
  shows "wk_batch (ws ! i) = es @ rest \<Longrightarrow> runQuery view (takeAll (length es + n) i acc) ws b deps =
    runQuery view (takeAll n i (acc @ map (\<lambda>e. parseKey (rs_pattern (wk_req (ws ! i))) (fst e)) es)) (ws[i := (ws ! i)\<lparr>wk_batch := rest\<rparr>]) b
      (fold (\<lambda>e deps. cutSpan deps (wk_span (ws ! i)) (Some (fst e))) es deps)"
  using assms
proof (induction es arbitrary: ws deps acc)
  case Nil
  then have "ws[i := (ws ! i)\<lparr>wk_batch := rest\<rparr>] = ws" by (metis append_Nil list_update_id walk.surjective walk.update_convs(3))
  then show ?case by simp
next
  case (Cons e es)
  obtain k v where e: "e = (k, v)" by (cases e)
  let ?w = "(ws ! i)\<lparr>wk_batch := es @ rest\<rparr>"
  have "walkNext view (ws ! i) b deps = Some (Inr (Some (parseKey (rs_pattern (wk_req (ws ! i))) k, v)), ?w, b,
      cutSpan deps (wk_span (ws ! i)) (Some k))"
    using Cons.prems e by (subst walkNext.simps) simp
  then show ?case using Cons.IH [of "ws[i := ?w]"] Cons.prems by (simp add: e)
qed

text \<open>A store of seventeen keys.\<close>

lemma stale_live: "liveKeys staleTxn = staleKeys"
  by code_simp

lemma stale_mem: "mem_ok staleTxn"
  by code_simp

lemma stale_rule: "\<forall>k \<in> set (liveKeys staleTxn). key_rule (patternOf staleScan) k"
  unfolding stale_live by code_simp

lemma stale_compiled: "compilePattern (sr_pattern (scanRequest staleScan)) = Inr (patternOf staleScan)" "name_ok (rs_pattern staleScan)"
proof -
  show "compilePattern (sr_pattern (scanRequest staleScan)) = Inr (patternOf staleScan)"
    by (simp add: scanRequest_def staleScan_def patternOf_def compilePattern_def)
  show "name_ok (rs_pattern staleScan)" by (simp add: name_ok_def staleScan_def) code_simp
qed

lemma stale_askable: "askable (patternOf staleScan) (scanRequest staleScan)"
proof -
  have "sr_pattern (scanRequest staleScan) = rs_pattern staleScan" by (simp add: scanRequest_def)
  then show ?thesis using stale_compiled by (simp add: askable_def scanRequest_def staleScan_def)
qed

lemma stale_walkable: "walkable staleScan"
  using stale_askable by (simp add: walkable_def staleScan_def)

section \<open>A batch under predicted deletions\<close>

text \<open>The keys that are deleted are left out of the base's batch, and its \<open>next\<close> stays.\<close>

lemma update_fresh: "k \<notin> fst ` set m \<Longrightarrow> AList.update k v m = m @ [(k, v)]"
  by (induction m) auto

lemma shown_keys:
  "distinct ks \<Longrightarrow> fst ` set m \<inter> set ks = {} \<Longrightarrow>
    fold (\<lambda>(k, v) m. if P k then m else AList.update k v m) (map (\<lambda>k. (k, u)) ks) m =
      m @ map (\<lambda>k. (k, u)) (filter (\<lambda>k. \<not> P k) ks)"
  by (induction ks arbitrary: m) (auto simp: update_fresh)

lemma sortKeys_walk:
  assumes "sorted_wrt (walks r) ks"
  shows "(if r then rev (sortKeys ks) else sortKeys ks) = ks"
proof (rule walks_unique [where r = r])
  show "sorted_wrt (walks r) (if r then rev (sortKeys ks) else sortKeys ks)"
    using sortKeys_ascending [OF sorted_walks_distinct [OF assms]] by (auto simp: walks_at sorted_wrt_rev)
qed (use assms in auto)

lemma deleted_page:
  assumes c: "compilePattern (sr_pattern req) = Inr c" and v: "sr_values req = None"
    and ks: "sorted_wrt (walks (sr_reverse req)) ks" "length ks \<le> sr_limit req" "1 \<le> sr_limit req"
    and base: "scan req b = Some (Inr (map (\<lambda>k. (k, None)) ks, n), b)"
    and hs: "data = map (\<lambda>h. (h, None)) hs" and ks': "ks' = filter (\<lambda>k. k \<notin> set hs) ks"
    and next': "n' = (if length ks' = sr_limit req then Some (last ks') else n)"
  shows "otScan reg scan req \<lparr>ot_base = b, ot_data = data, ot_updates = []\<rparr> =
    Some (Inr (map (\<lambda>k. (k, None)) ks', n'), \<lparr>ot_base = b, ot_data = data, ot_updates = []\<rparr>)"
proof -
  let ?t = "\<lparr>ot_base = b, ot_data = data, ot_updates = []\<rparr>"
  have has: "otHas ?t k \<longleftrightarrow> k \<in> set hs" for k by (auto simp: otHas_def hs image_iff)
  have none: "otLayers ?t k = None" for k
    by (cases "otLayers ?t k") (auto simp: otLayers_def layerGet_def hs map_of_map_restrict restrict_map_def
        dest!: map_of_SomeD split: option.splits if_splits)
  have "otLayerKeys ?t keep = []" for keep
    using otLayerKeys_set(2) [of ?t keep] none by simp
  moreover have d: "distinct ks" "sorted_wrt (walks (sr_reverse req)) ks'"
    using sorted_walks_distinct [OF ks(1)] ks(1) by (simp_all add: ks' sorted_wrt_filter)
  moreover have "length ks' \<le> sr_limit req" using ks(2) by (simp add: ks' le_trans [OF length_filter_le])
  moreover have "map (\<lambda>k. (k, the (map_of (map (\<lambda>k. (k, None)) ks') k))) ks' = map (\<lambda>k. (k, None)) ks'"
    by (simp add: map_of_map_restrict)
  moreover have "ks' ! (sr_limit req - Suc 0) = last ks'" if "length ks' = sr_limit req"
    using that ks(3) by (subst last_conv_nth) auto
  ultimately have page: "otPage req (map (\<lambda>k. (k, None)) ks') n = (map (\<lambda>k. (k, None)) ks', n')"
    using sortKeys_walk [OF d(2)] ks(3)
    by (auto simp: otPage_def Let_def next' comp_def split: if_splits)
  show ?thesis
    using base \<open>\<And>keep. otLayerKeys ?t keep = []\<close> page d(1) by (simp add: otScan_def c v has ks' shown_keys)
qed

text \<open>The first two batches of a walk, over a store whose keys' deletions are predicted.\<close>

lemma deleted_scan:
  assumes req: "walkable req" "rs_type req = None" and t: "memKeys [patternOf req] t" and n: "1 \<le> n"
    and after: "after = None \<and> rest = W \<or> (\<exists>i < length W. after = Some (W ! i) \<and> rest = drop (Suc i) W)"
    and W: "W = walkFrom (patternOf req) (rs_reverse req) None (liveKeys t)"
  shows "\<exists>n'. qv_scan (queryView reg status False (map (\<lambda>h. (h, None)) hs)) (scanRequest (req\<lparr>rs_after := after, rs_limit := n\<rparr>)) t =
      Some (Inr (map (\<lambda>k. (k, None)) (filter (\<lambda>k. k \<notin> set hs) (take n rest)), n'), t) \<and>
    (n \<le> length rest \<longrightarrow> n' = Some (rest ! (n - 1)))"
proof -
  let ?req = "scanRequest (req\<lparr>rs_after := after, rs_limit := n\<rparr>)" let ?c = "patternOf req" let ?r = "rs_reverse req"
  have sr: "sr_pattern ?req = rs_pattern req" "sr_reverse ?req = ?r" "sr_after ?req = after" "sr_limit ?req = n" "sr_values ?req = None"
    using req(2) by (simp_all add: scanRequest_def)
  have c: "compilePattern (rs_pattern req) = Inr ?c" "name_ok (rs_pattern req)" "?r \<Longrightarrow> bounds_ok (cp_fields ?c)"
    using req(1) by (simp_all add: walkable_def askable_def scanRequest_def)
  have live: "sorted_wrt (walks ?r) (walk_every ?r (liveKeys t))" by (rule walk_every_sorted [OF liveKeys_ascending])
  have rest: "scanKeys ?c ?req t = rest"
    unfolding scanKeys_def sr
    using after walk_keys_from [OF live, of W ?c None] W by (auto simp: walkFrom_def)
  have head: "prefix (cp_head ?c) a" if "after = Some a" for a
  proof -
    have "a \<in> set W" using after that by auto
    then show ?thesis using walk_keys_head [OF c(1,2)] unfolding W walkFrom_def by blast
  qed
  have scan: "mtScan False reg t ?req = Some (Inr (map (\<lambda>k. (k, None)) (take n rest),
      if length (take n rest) = n then Some (last (take n rest)) else None), t)"
  proof -
    have b: "batchKeys ?c ?req t = take n rest" by (simp add: batchKeys_scan rest sr)
    show ?thesis
      unfolding b [symmetric] by (subst mtScan_keys_only [where c = ?c])
        (use c t n head in \<open>simp_all add: sr memKeys_def\<close>)
  qed
  have sorted: "sorted_wrt (walks ?r) (take n rest)"
  proof -
    have "sorted_wrt (walks ?r) W"
      unfolding W walkFrom_passes [OF liveKeys_ascending] by (rule sorted_wrt_filter [OF live])
    then show ?thesis using after by (auto intro!: sorted_wrt_take sorted_wrt_drop)
  qed
  let ?ks = "filter (\<lambda>k. k \<notin> set hs) (take n rest)"
  let ?base = "if length (take n rest) = n then Some (last (take n rest)) else None"
  let ?n' = "if length ?ks = n then Some (last ?ks) else ?base"
  have "otScan reg (rt_scan (memReads False reg)) ?req \<lparr>ot_base = t, ot_data = map (\<lambda>h. (h, None)) hs, ot_updates = []\<rparr> =
      Some (Inr (map (\<lambda>k. (k, None)) ?ks, ?n'), \<lparr>ot_base = t, ot_data = map (\<lambda>h. (h, None)) hs, ot_updates = []\<rparr>)"
    by (rule deleted_page [where c = ?c and ks = "take n rest" and n = ?base])
      (use c scan sorted n in \<open>simp_all add: sr memReads_def\<close>)
  then have view: "qv_scan (queryView reg status False (map (\<lambda>h. (h, None)) hs)) ?req t = Some (Inr (map (\<lambda>k. (k, None)) ?ks, ?n'), t)"
    by (simp add: queryView_def statusView_def overlayView_def)
  have "?n' = Some (rest ! (n - 1))" if "n \<le> length rest"
  proof -
    have l: "last (take n rest) = rest ! (n - 1)" "length (take n rest) = n" using that n by (subst last_conv_nth, auto)
    have "?ks = take n rest" if "length ?ks = n"
      using that l(2) by (metis filter_id_conv length_filter_less not_less_iff_gr_or_eq)
    then show ?thesis using l by (cases "length ?ks = n") simp_all
  qed
  then show ?thesis using view by blast
qed

section \<open>A deletion that a query does not see undone\<close>

lemma cutSpan_twice: "cutSpan (cutSpan d j a) j b = cutSpan d j b"
  by (cases "j < length (rd_spans d)") (simp_all add: cutSpan_def list_update_beyond)

lemma cut_fold:
  "es \<noteq> [] \<Longrightarrow> fold (\<lambda>e deps. cutSpan deps j (Some (fst e))) es d = cutSpan d j (Some (fst (last es)))"
proof (induction es arbitrary: d)
  case (Cons e es)
  then show ?case by (cases es) (simp_all add: cutSpan_twice)
qed simp

text \<open>A query that takes sixteen entries: of one batch that holds them, or of one that lacks one and the next.\<close>

abbreviation takeSixteen :: "read_scan \<Rightarrow> (jsstr list list, 'js, 'host) query" where
  "takeSixteen req \<equiv> Walk req (\<lambda>i. takeAll 16 i [])"

lemma first_batch:
  assumes c: "compilePattern (rs_pattern req) = Inr c"
    and p: "qv_scan view (scanRequest (req\<lparr>rs_after := None, rs_limit := 16\<rparr>)) t = Some (Inr (es, n), t)" "es \<noteq> []"
    and l: "16 = length es + m"
  shows "runQuery view (takeSixteen req) [] t noDeps =
    runQuery view (takeAll m 0 (map (\<lambda>e. parseKey (rs_pattern req) (fst e)) es))
      [\<lparr>wk_req = req\<lparr>rs_after := None, rs_limit := 16\<rparr>, wk_phase = Hand, wk_batch = [], wk_next = n, wk_span = 0\<rparr>] t
      \<lparr>rd_keys = [], rd_spans = [\<lparr>ss_pattern = c, ss_reverse = rs_reverse req, ss_from = None, ss_to = Some (fst (last es))\<rparr>],
       rd_last = Some (rs_pattern req), rd_held = False\<rparr>"
proof -
  let ?req = "req\<lparr>rs_after := None, rs_limit := 16\<rparr>"
  let ?d = "\<lparr>rd_keys = [], rd_spans = [\<lparr>ss_pattern = c, ss_reverse = rs_reverse req, ss_from = None, ss_to = n\<rparr>],
       rd_last = Some (rs_pattern req), rd_held = False\<rparr>"
  let ?w = "\<lparr>wk_req = ?req, wk_phase = Hand, wk_batch = es, wk_next = n, wk_span = 0\<rparr>"
  have "readScan view ?req t noDeps = Some (Inr (es, n), t, ?d)"
    by (simp add: readScan_def p(1) recordScan_def noDeps_def c)
  then have "runQuery view (takeSixteen req) [] t noDeps = runQuery view (takeAll 16 0 []) [?w] t ?d"
    using takeAll_fetches [of 0 "[scanEach req]" view t noDeps es n t ?d 15 "[]"]
    by (simp add: scanEach_def eval_nat_numeral del: takeAll.simps)
  also have "\<dots> = runQuery view (takeAll m 0 (map (\<lambda>e. parseKey (rs_pattern req) (fst e)) es)) [?w\<lparr>wk_batch := []\<rparr>] t
      (fold (\<lambda>e deps. cutSpan deps 0 (Some (fst e))) es ?d)"
    using takeAll_hands [of 0 "[?w]" es "[]" view m "[]" t ?d] by (simp add: l [symmetric] del: takeAll.simps runQuery.simps)
  finally show ?thesis unfolding cut_fold [OF p(2)] by (simp add: cutSpan_def del: takeAll.simps runQuery.simps)
qed

lemma short_batch:
  assumes c: "compilePattern (rs_pattern req) = Inr c"
    and p: "qv_scan view (scanRequest (req\<lparr>rs_after := None, rs_limit := 16\<rparr>)) t = Some (Inr (es, Some k), t)"
    and l: "length es = 15" "fst (last es) \<noteq> k"
    and p2: "qv_scan view (scanRequest (req\<lparr>rs_after := Some k, rs_limit := 32\<rparr>)) t = Some (Inr (e # es', n), t)"
  shows "runQuery view (takeSixteen req) [] t noDeps =
    Some (Inr (map (\<lambda>e. parseKey (rs_pattern req) (fst e)) (es @ [e])), t,
      \<lparr>rd_keys = [], rd_spans =
        [\<lparr>ss_pattern = c, ss_reverse = rs_reverse req, ss_from = None, ss_to = Some (fst (last es))\<rparr>,
         \<lparr>ss_pattern = c, ss_reverse = rs_reverse req, ss_from = Some k, ss_to = Some (fst e)\<rparr>],
       rd_last = Some (rs_pattern req), rd_held = False\<rparr>)"
proof -
  let ?s = "\<lparr>ss_pattern = c, ss_reverse = rs_reverse req, ss_from = None, ss_to = Some (fst (last es))\<rparr>"
  let ?d = "\<lparr>rd_keys = [], rd_spans = [?s], rd_last = Some (rs_pattern req), rd_held = False\<rparr>"
  let ?d2 = "\<lparr>rd_keys = [], rd_spans = [?s, \<lparr>ss_pattern = c, ss_reverse = rs_reverse req, ss_from = Some k, ss_to = n\<rparr>],
       rd_last = Some (rs_pattern req), rd_held = False\<rparr>"
  let ?acc = "map (\<lambda>e. parseKey (rs_pattern req) (fst e)) es"
  let ?req = "req\<lparr>rs_after := Some k, rs_limit := 32\<rparr>"
  let ?w = "\<lparr>wk_req = ?req, wk_phase = Hand, wk_batch = e # es', wk_next = n, wk_span = 1\<rparr>"
  have ne: "es \<noteq> []" using l(1) by auto
  have "readScan view ?req t ?d = Some (Inr (e # es', n), t, ?d2)"
    using l(2) by (simp add: readScan_def p2 recordScan_def c)
  then have second: "runQuery view (takeAll (Suc 0) 0 ?acc) [\<lparr>wk_req = ?req, wk_phase = Fetch, wk_batch = [], wk_next = Some k, wk_span = 0\<rparr>] t ?d =
      runQuery view (takeAll (Suc 0) 0 ?acc) [?w] t ?d2"
    using takeAll_fetches [of 0 "[\<lparr>wk_req = ?req, wk_phase = Fetch, wk_batch = [], wk_next = Some k, wk_span = 0\<rparr>]" view t ?d
        "e # es'" n t ?d2 0 ?acc]
    by (simp del: takeAll.simps runQuery.simps)
  have "runQuery view (takeSixteen req) [] t noDeps = runQuery view (takeAll (Suc 0) 0 ?acc)
      [\<lparr>wk_req = req\<lparr>rs_after := None, rs_limit := 16\<rparr>, wk_phase = Hand, wk_batch = [], wk_next = Some k, wk_span = 0\<rparr>] t ?d"
    using first_batch [OF c p ne, of "Suc 0"] l(1) by (simp del: takeAll.simps runQuery.simps)
  also have "\<dots> = runQuery view (takeAll (Suc 0) 0 ?acc) [?w] t ?d2"
    using takeAll_next [of 0 "[\<lparr>wk_req = req\<lparr>rs_after := None, rs_limit := 16\<rparr>, wk_phase = Hand, wk_batch = [], wk_next = Some k, wk_span = 0\<rparr>]"
        k view 0 ?acc t ?d] second
    by (simp del: takeAll.simps runQuery.simps)
  also have "\<dots> = runQuery view (takeAll 0 0 (?acc @ [parseKey (rs_pattern req) (fst e)])) [?w\<lparr>wk_batch := es'\<rparr>] t
      (cutSpan ?d2 1 (Some (fst e)))"
    using takeAll_hands [of 0 "[?w]" "[e]" es' view 0 ?acc t ?d2] by (simp del: takeAll.simps runQuery.simps)
  finally show ?thesis by (simp add: cutSpan_def)
qed

text \<open>
  C14: take any walk of keys, in reverse only under upper bounds that hold only units above the separators that
  follow them, over a base that keeps to the walk's template and holds more than sixteen of its keys; and let
  a prediction delete the sixteenth, the last of the base's first full batch. A query that takes sixteen
  entries of the walk answers without that key; no key it got and no span it recorded covers the key,
  though the walk passed it; so when the prediction is gone the query is not run again, and keeps an answer
  that a fresh run does not give.
\<close>

theorem hidden_key_missed:
  fixes reg :: "('js, 'host) registry"
  assumes "walkable req" "rs_type req = None" "memKeys [patternOf req] t"
    and "W = walkFrom (patternOf req) (rs_reverse req) None (liveKeys t)" "16 < length W" "k = W ! 15"
  shows "\<exists>q fresh.
    qiRun differs (queryView reg status False [(k, None)]) [] (newImpl (takeSixteen req)) t = Some (Inr True, q, t) \<and>
    qi_result q = Some (map (parseKey (rs_pattern req)) (take 15 W @ [W ! 16])) \<and>
    k \<notin> set (rd_keys (qi_deps q)) \<and> (\<forall>s \<in> set (rd_spans (qi_deps q)). \<not> spanCovers s k) \<and>
    qiRun differs (queryView reg status False []) [k] q t = Some (Inr False, q, t) \<and>
    qiRun differs (queryView reg status False []) [] (newImpl (takeSixteen req)) t = Some (Inr True, fresh, t) \<and>
    qi_result fresh = Some (map (parseKey (rs_pattern req)) (take 16 W))"
proof -
  let ?r = "rs_reverse req"
  have c: "compilePattern (rs_pattern req) = Inr (patternOf req)"
    using assms(1) by (simp add: walkable_def askable_def scanRequest_def)
  have sorted: "sorted_wrt (walks ?r) W"
    unfolding assms(4) walkFrom_passes [OF liveKeys_ascending] by (intro sorted_wrt_filter walk_every_sorted liveKeys_ascending)
  have d: "distinct W" by (rule sorted_walks_distinct [OF sorted])
  have w14: "walks ?r (W ! 14) k" using sorted_wrt_nth_less [OF sorted, of 14 15] assms(5,6) by simp
  have take16: "take 16 W = take 15 W @ [k]" using assms(5,6) take_Suc_conv_app_nth [of 15 W] by simp
  have kept: "filter (\<lambda>x. x \<notin> set [k]) (take 16 W) = take 15 W"
  proof -
    have "k \<notin> set (take 15 W)"
      using d assms(5) unfolding take16 [symmetric] by (metis distinct_append distinct_take not_distinct_conv_prefix take16)
    then show ?thesis unfolding take16 by (auto simp: filter_id_conv)
  qed
  have later: "filter (\<lambda>x. x \<notin> set [k]) (take 32 (drop 16 W)) = W ! 16 # take 31 (drop 17 W)"
  proof -
    have "drop 16 W = W ! 16 # drop 17 W" using Cons_nth_drop_Suc [of 16 W] assms(5) by simp
    moreover have "k \<notin> set (drop 16 W)"
      using d assms(5) append_take_drop_id [of 16 W] unfolding take16 by (metis distinct_append disjoint_iff in_set_conv_decomp append_assoc)
    moreover have "set (take 31 (drop 17 W)) \<subseteq> set (drop 16 W)" using calculation(1) set_take_subset [of 31 "drop 17 W"] by auto
    ultimately show ?thesis by (auto simp: filter_id_conv)
  qed
  note scans = deleted_scan [OF assms(1,2,3) _ _ assms(4), of _ _ _ reg status]
  have from_k: "\<exists>i < length W. Some k = Some (W ! i) \<and> drop 16 W = drop (Suc i) W" using assms(5,6) by (intro exI [of _ 15]) simp
  obtain n1 where p1: "qv_scan (queryView reg status False [(k, None)]) (scanRequest (req\<lparr>rs_after := None, rs_limit := 16\<rparr>)) t =
      Some (Inr (map (\<lambda>k. (k, None)) (take 15 W), Some k), t)"
    using scans [of 16 None W "[k]"] assms(5,6) kept by auto
  obtain n2 where p2: "qv_scan (queryView reg status False [(k, None)]) (scanRequest (req\<lparr>rs_after := Some k, rs_limit := 32\<rparr>)) t =
      Some (Inr ((W ! 16, None) # map (\<lambda>k. (k, None)) (take 31 (drop 17 W)), n2), t)"
    using scans [of 32 "Some k" "drop 16 W" "[k]"] from_k later by auto
  obtain n3 where p3: "qv_scan (queryView reg status False []) (scanRequest (req\<lparr>rs_after := None, rs_limit := 16\<rparr>)) t =
      Some (Inr (map (\<lambda>k. (k, None)) (take 16 W), n3), t)"
    using scans [of 16 None W "[]"] assms(5) by auto
  have last14: "last (take 15 W) = W ! 14" "take 15 W \<noteq> []" using assms(5) by (subst last_conv_nth, auto)
  let ?view = "queryView reg status False [(k, None)]" let ?fresh = "queryView reg status False []"
  let ?parse = "parseKey (rs_pattern req)"
  let ?span = "\<lambda>from to. \<lparr>ss_pattern = patternOf req, ss_reverse = ?r, ss_from = from, ss_to = Some to\<rparr>"
  let ?deps = "\<lambda>spans. \<lparr>rd_keys = [], rd_spans = spans, rd_last = Some (rs_pattern req), rd_held = False\<rparr>"
  have run1: "runQuery ?view (takeSixteen req) [] t noDeps =
      Some (Inr (map ?parse (take 15 W @ [W ! 16])), t, ?deps [?span None (W ! 14), ?span (Some k) (W ! 16)])"
    using short_batch [OF c p1 _ _ p2] assms(5) w14 walks_facts(1) [of ?r k] last14
    by (auto simp: last_map comp_def simp del: runQuery.simps takeAll.simps)
  have run2: "runQuery ?fresh (takeSixteen req) [] t noDeps =
      Some (Inr (map ?parse (take 16 W)), t, ?deps [?span None (W ! 15)])"
    using first_batch [OF c p3, of 0] assms(5) take16 assms(6) by (simp add: comp_def del: takeAll.simps(2))
  define q where "q = (newImpl (takeSixteen req :: (jsstr list list, 'js, 'host) query))\<lparr>qi_held := False, qi_result := Some (map ?parse (take 15 W @ [W ! 16])),
    qi_deps := ?deps [?span None (W ! 14), ?span (Some k) (W ! 16)], qi_runs := 1\<rparr>"
  define fresh where "fresh = (newImpl (takeSixteen req :: (jsstr list list, 'js, 'host) query))\<lparr>qi_held := False, qi_result := Some (map ?parse (take 16 W)),
    qi_deps := ?deps [?span None (W ! 15)], qi_runs := 1\<rparr>"
  have "qiRun differs ?view [] (newImpl (takeSixteen req)) t = Some (Inr True, q, t)"
    "qiRun differs ?fresh [] (newImpl (takeSixteen req)) t = Some (Inr True, fresh, t)"
    using run1 run2 by (simp_all add: qiRun_def newImpl_def q_def fresh_def del: runQuery.simps takeAll.simps)
  moreover have missed: "\<not> spanCovers (?span None (W ! 14)) k" "\<not> spanCovers (?span (Some k) (W ! 16)) k"
    using w14 walks_facts(1) [of ?r k] by (auto simp: spanCovers_walks passes_def)
  moreover have "qiRun differs ?fresh [k] q t = Some (Inr False, q, t)"
    using missed by (simp add: qiRun_def qiReads_def q_def)
  moreover have "qi_result q = Some (map ?parse (take 15 W @ [W ! 16]))" "qi_result fresh = Some (map ?parse (take 16 W))"
    "rd_keys (qi_deps q) = []" "rd_spans (qi_deps q) = [?span None (W ! 14), ?span (Some k) (W ! 16)]"
    by (simp_all add: q_def fresh_def)
  ultimately show ?thesis by (intro exI [of _ q] exI [of _ fresh]) simp
qed

lemma stale_walk: "walkFrom (patternOf staleScan) (rs_reverse staleScan) None (liveKeys staleTxn) = staleKeys"
  unfolding stale_live by code_simp

theorem hidden_key_missed_witness:
  "\<exists>q fresh.
    qiRun (\<lambda>r old. old \<noteq> Some r) (queryView unitReg [] False [(staleKeys ! 15, None)]) [] (newImpl (takeSixteen staleScan)) staleTxn =
      Some (Inr True, q, staleTxn) \<and>
    qiRun (\<lambda>r old. old \<noteq> Some r) (queryView unitReg [] False []) [staleKeys ! 15] q staleTxn = Some (Inr False, q, staleTxn) \<and>
    qiRun (\<lambda>r old. old \<noteq> Some r) (queryView unitReg [] False []) [] (newImpl (takeSixteen staleScan)) staleTxn =
      Some (Inr True, fresh, staleTxn) \<and> qi_result fresh \<noteq> qi_result q"
proof -
  have "memKeys [patternOf staleScan] staleTxn" using stale_mem stale_rule by (simp add: memKeys_def)
  moreover have "rs_type staleScan = None" "16 < length staleKeys" by (simp_all add: staleScan_def staleKeys_def)
  moreover have "map (parseKey (rs_pattern staleScan)) (take 16 staleKeys) \<noteq>
      map (parseKey (rs_pattern staleScan)) (take 15 staleKeys @ [staleKeys ! 16])" by code_simp
  ultimately show ?thesis
    using hidden_key_missed [OF stale_walkable _ _ stale_walk [symmetric], where differs = "\<lambda>r old. old \<noteq> Some r" and reg = unitReg
      and status = "[]" and k = "staleKeys ! 15"] by (smt (verit) option.inject)
qed

section \<open>A store and an overlay to instantiate the properties on\<close>

definition sampleType :: "jsstr \<Rightarrow> jsstr" where
  "sampleType k = (if starts_with k [bang] then lit ''.mutation'' else lit ''N'')"

definition sampleData :: "unit overlay" where
  "sampleData = [(lit ''a!n:aa'', Some ())]"

definition outboxCompiled :: compiled_pattern where
  "outboxCompiled = \<lparr>cp_head = [bang], cp_fields = [LiteralField (lit ''mutation:'') False, ValueField (blankField None)]\<rparr>"

lemma stale_ok: "memOk False sampleType (patternOf staleScan) (sr_values (scanRequest staleScan)) staleTxn"
  using stale_mem stale_rule by (simp add: memOk_def memReadable_def scanRequest_def staleScan_def)

lemma sample_decode: "\<forall>k \<in> set (liveKeys staleTxn). memJs unitReg (sampleType k) (mtLive staleTxn k) \<noteq> None"
  unfolding stale_live by code_simp

lemma sample_view: "viewOk unitReg sampleType [staleScan] sampleData staleTxn" "viewOk unitReg sampleType [staleScan] [] staleTxn"
  using stale_mem stale_rule sample_decode by (simp_all add: viewOk_def sampleData_def)

abbreviation noStatus :: "(jsstr \<times> (unit, unit) rval) list" where
  "noStatus \<equiv> []"

lemma sample_fits: "fits (viewMayGet sampleType noStatus) (viewMayWalk sampleType noStatus [staleScan])
    (Walk staleScan (\<lambda>i. takeAll n i []) :: (jsstr list list, unit, unit) query)"
proof -
  have "fits (viewMayGet sampleType noStatus) (viewMayWalk sampleType noStatus [staleScan]) (takeAll n i acc :: (jsstr list list, unit, unit) query)"
    for i acc by (induction n arbitrary: acc) (auto split: option.split)
  moreover have "rs_type staleScan = None" by (simp add: staleScan_def)
  ultimately show ?thesis using stale_walkable by (simp add: viewMayWalk_def)
qed

section \<open>Scans over predictions\<close>

text \<open>
  C15: a scan of everything over the layers and the base, batch by batch, ends with the walk of one map: the
  keys of the layers that hold a value and those of the base no layer holds, in order, each with the value
  of the uppermost layer that has it. The base's keys keep to the pattern's template; the scan's \<open>after\<close> is under
  its head and its limit one or more; in reverse its upper bounds hold only units above the separators that
  follow them; and values, where it asks for them, are JS values of the one type the pattern's keys have, read
  outside dev mode.
\<close>

theorem overlay_walk:
  assumes "ovOk (memOk DEV tyof) c (sr_values req) t" "askable c req"
  shows "\<exists>t'. scanAllLoop (\<lambda>t after. otScan reg (\<lambda>req b. mtScan DEV reg b req) (req\<lparr>sr_after := after\<rparr>) t) t (sr_after req) [] =
      Some (Inr (pickEntries (ovVal (memVal reg tyof) (sr_values req) t)
        (walkFrom c (sr_reverse req) (sr_after req) (ovLive liveKeys t))), t') \<and>
    ot_data t' = ot_data t \<and> ot_updates t' = ot_updates t \<and> memShape reg tyof (ot_base t') = memShape reg tyof (ot_base t)"
proof -
  have "askable c (req\<lparr>sr_after := sr_after req\<rparr>)" using assms(2) by simp
  then show ?thesis
    using memOver.over.scanAll_walk [OF assms(2,1), where after = "sr_after req" and all = "[]" and reg = reg]
    by (auto simp: ovShape_def)
qed

theorem overlay_walk_witness:
  "\<exists>t'. scanAllLoop (\<lambda>t after. otScan unitReg (\<lambda>req b. mtScan False unitReg b req) ((scanRequest staleScan)\<lparr>sr_after := after\<rparr>) t)
      (predictedTxn staleTxn sampleData) (sr_after (scanRequest staleScan)) [] =
    Some (Inr (pickEntries (ovVal (memVal unitReg sampleType) (sr_values (scanRequest staleScan)) (predictedTxn staleTxn sampleData))
      (walkFrom (patternOf staleScan) (sr_reverse (scanRequest staleScan)) (sr_after (scanRequest staleScan))
        (ovLive liveKeys (predictedTxn staleTxn sampleData)))), t')"
proof -
  have ok: "ovOk (memOk False sampleType) (patternOf staleScan) (sr_values (scanRequest staleScan)) (predictedTxn staleTxn sampleData)"
    using stale_ok by (simp add: ovOk_def predicted_base(1) scanRequest_def staleScan_def)
  show ?thesis using overlay_walk [OF ok stale_askable, of unitReg] by blast
qed

section \<open>Writes over predictions\<close>

text \<open>
  C16: deleting a slice in the overlay, one whose name holds no \<open>!\<close>, takes just the keys of the slice that the
  merged map holds, answers them in order, and leaves every other key and value, and the base, as they were;
  the base's keys keep to the templates.
\<close>

theorem overlay_deletes_slice:
  assumes "bang \<notin> set s" "memKeys C (ot_base t)"
  shows "\<exists>t'. otDelPrefix (memReads False reg) (s @ [bang]) t = Some (Inr (filter (prefix (s @ [bang])) (ovLive liveKeys t)), t') \<and>
    ovLive liveKeys t' = filter (\<lambda>k. \<not> prefix (s @ [bang]) k) (ovLive liveKeys t) \<and>
    (\<forall>k. \<not> prefix (s @ [bang]) k \<longrightarrow> otLayers t' k = otLayers t k \<and> otHas t' k = otHas t k) \<and>
    memShape reg tyof (ot_base t') = memShape reg tyof (ot_base t)"
proof -
  have ok: "ovOk (memOk False tyof) (sliceCompiled s) None t"
    using assms(2) by (simp add: ovOk_def memOk_def memReadable_def memKeys_def key_rule_def)
  have base: "rt_scan (memReads False reg) = (\<lambda>req t. mtScan False reg t req)" by (simp add: memReads_def)
  show ?thesis by (rule memOver.delPrefix_live [OF base assms(1) ok]) blast
qed

theorem overlay_deletes_slice_witness:
  "\<exists>t'. otDelPrefix (memReads False unitReg) (lit ''a'' @ [bang]) (predictedTxn staleTxn sampleData) =
      Some (Inr (filter (prefix (lit ''a'' @ [bang])) (ovLive liveKeys (predictedTxn staleTxn sampleData))), t') \<and>
    ovLive liveKeys t' = filter (\<lambda>k. \<not> prefix (lit ''a'' @ [bang]) k) (ovLive liveKeys (predictedTxn staleTxn sampleData))"
proof -
  have "bang \<notin> set (lit ''a'')" by code_simp
  moreover have "memKeys [] (ot_base (predictedTxn staleTxn sampleData))" using stale_mem by (simp add: memKeys_def predicted_base(1))
  ultimately show ?thesis using overlay_deletes_slice [of "lit ''a''" "[]" "predictedTxn staleTxn sampleData" unitReg sampleType] by blast
qed

text \<open>
  C20: a prediction is kept whole or not at all: what a predictor that throws wrote is dropped, and what one
  that returns wrote reads from the overlay as it did from the predictor's transaction.
\<close>

theorem prediction_whole:
  assumes "predictIn reg base p \<lparr>ot_base = b, ot_data = data, ot_updates = []\<rparr> = Some (r, t)"
  shows "\<exists>data'. overlayApply (predictIn reg base p) b data = Some (map_sum id (\<lambda>_. map fst (ot_updates t)) r, ot_base t, data') \<and>
    (case r of Inl _ \<Rightarrow> data' = data
     | Inr _ \<Rightarrow> otLayers (predictedTxn (ot_base t) data') = otLayers t \<and> otHas (predictedTxn (ot_base t) data') = otHas t)"
proof (cases r)
  case (Inl e)
  then show ?thesis using assms by (simp add: overlayApply_def)
next
  case (Inr u)
  have t: "ot_data t = data" "distinct (map fst (ot_updates t))" using predictIn_updates [OF assms] by simp_all
  have kept: "otLayers (predictedTxn (ot_base t) (fold (\<lambda>(k, v). AList.update k v) (ot_updates t) data)) = otLayers t"
      "otHas (predictedTxn (ot_base t) (fold (\<lambda>(k, v). AList.update k v) (ot_updates t) data)) = otHas t"
    by (simp_all add: predictedTxn_def fun_eq_iff kept_layers [OF t(2), unfolded t(1)])
  show ?thesis using assms kept by (simp add: overlayApply_def Inr)
qed

definition samplePrediction :: "(unit, unit) prediction" where
  "samplePrediction = PSet (lit ''a!n:aa'') (lit ''N'') () (\<lambda>_. PDone)"

lemma sample_length: "checkLength KeyLength (lit ''a!n:aa'') = Inr ()"
  by code_simp

theorem prediction_whole_witness:
  "\<exists>data'. overlayApply (predictIn unitReg (memReads False unitReg) samplePrediction) staleTxn [] = Some (Inr [lit ''a!n:aa''], staleTxn, data') \<and>
    otLayers (predictedTxn staleTxn data') = otLayers \<lparr>ot_base = staleTxn, ot_data = [], ot_updates = [(lit ''a!n:aa'', Some ())]\<rparr>"
proof -
  have "predictIn unitReg (memReads False unitReg) samplePrediction \<lparr>ot_base = staleTxn, ot_data = [], ot_updates = []\<rparr> =
      Some (Inr (), \<lparr>ot_base = staleTxn, ot_data = [], ot_updates = [(lit ''a!n:aa'', Some ())]\<rparr>)"
    unfolding samplePrediction_def predictIn.simps sample_length sum.case by (simp add: otSet_def layerIn_def)
  then show ?thesis by (rule prediction_whole [THEN exE]) auto
qed

section \<open>Queries\<close>

text \<open>
  C5: once the base may be read, and over predictions that delete nothing, a query answers as the reference
  run over the keys and values does, whatever its reads and however its walks interleave, and what its run
  records covers every key the reference looked at: those it got, those its walks handed out, and those they
  found absent. This is for a base whose keys keep to the templates and whose values under them decode, and
  for a query that gets each key as the type it has and walks those templates, in reverse only under upper
  bounds that hold only units above the separators that follow them.
\<close>

theorem query_reads_recorded:
  assumes "viewOk reg tyof R data t" "fits (viewMayGet tyof status) (viewMayWalk tyof status R) q"
  shows "\<exists>t' deps. runQuery (queryView reg status False data) q [] t noDeps =
      Some (fst (refRun (viewSnap reg tyof status data t) q []), t', deps) \<and> \<not> rd_held deps \<and>
    (\<forall>l \<in> set (snd (refRun (viewSnap reg tyof status data t) q [])). \<forall>x. looked l x \<longrightarrow>
      x \<in> set (rd_keys deps) \<or> (\<exists>s \<in> set (rd_spans deps). spanCovers s x))"
proof -
  have "settled (viewSnap reg tyof status data t) [] [] noDeps" by (simp add: settled_def spans_ok_def noDeps_def)
  then show ?thesis using engineView.run_reference [OF assms, of "[]" "[]" noDeps] by (auto simp: covers_def noDeps_def)
qed

theorem query_reads_recorded_witness:
  "\<exists>t' deps. runQuery (queryView unitReg noStatus False sampleData) (Walk staleScan (\<lambda>i. takeAll 20 i [])) [] staleTxn noDeps =
      Some (fst (refRun (viewSnap unitReg sampleType noStatus sampleData staleTxn) (Walk staleScan (\<lambda>i. takeAll 20 i [])) []), t', deps) \<and>
    \<not> rd_held deps"
  using query_reads_recorded [OF sample_view(1) sample_fits, of 20] by blast

text \<open>
  C4: the overlay is rebuilt and the graph run, to the end, and each open query then holds the reference's
  answer over the new base, the new predictions and the new status, or a query threw. This is where no
  predictor deletes; where the base's keys keep to the templates and its values decode; where predictors and
  queries read keys as the types they have and walk those templates, in reverse only under upper bounds that
  hold only units above the separators that follow them; where each query that ran and does not wait was up
  to date over the old base, predictions and status; and where the graph was told of every key at which the
  base or the status differs from then. What a deletion may leave stale is shown above.
\<close>

theorem rebuild_up_to_date:
  assumes "memKeys C t" "viewOk reg tyof R [] t" "outboxFits tyof C"
    and "\<And>P m. predictor = Some P \<Longrightarrow> predictionFits tyof C (P m) \<and> onlySets (P m)"
    and "distinct (qg_queries g)"
    and "\<And>i. i \<in> set (qg_queries g) \<Longrightarrow> fits (viewMayGet tyof status) (viewMayWalk tyof status R) (qi_fn (qg_all g i))"
    and "\<And>i. i \<in> set (qg_queries g) \<Longrightarrow> settledQuery (viewSnap reg tyof old_status data old_t) (qg_all g i)"
    and "agreeOn (\<lambda>k. k \<notin> set (qg_dirty g)) (viewSnap reg tyof old_status [] old_t) (viewSnap reg tyof status [] t)"
  shows "\<exists>r t' data' g'. rebuildOverlay differs reg (memReads False reg) mutations data_of predictor outbox status False t data g =
      Some (r, t', data', g') \<and> qg_queries g' = filter (\<lambda>i. \<not> qi_closed (qg_all g i)) (qg_queries g) \<and>
    (case r of
       Inl e \<Rightarrow> \<exists>i \<in> set (qg_queries g'). \<exists>e'. e = QueryFails e' \<and> fst (refRun (viewSnap reg tyof status data' t) (qi_fn (qg_all g i)) []) = Inl e'
     | Inr _ \<Rightarrow> \<forall>i \<in> set (qg_queries g').
         fst (refRun (viewSnap reg tyof status data' t) (qi_fn (qg_all g i)) []) = Inr (the (qi_result (qg_all g' i))) \<and>
         settledQuery (viewSnap reg tyof status data' t) (qg_all g' i))"
proof -
  obtain t1 data1 g1 where r: "rebuildOverlay differs reg (memReads False reg) mutations data_of predictor outbox status False t data g =
        map_option (\<lambda>(r, g'', t''). (map_sum QueryFails id r, t'', data1, g'')) (runGraph differs reg (memReads False reg) status False t1 data1 g1)"
      and t1: "memShape reg tyof t1 = memShape reg tyof t"
      and g1: "fst ` set data1 \<subseteq> set (qg_dirty g1)" "fst ` set data \<subseteq> set (qg_dirty g1)" "set (qg_dirty g) \<subseteq> set (qg_dirty g1)"
        "qg_all g1 = qg_all g" "qg_queries g1 = qg_queries g" "noDeletion data1"
    using rebuild_predicts [of predictor tyof C t differs reg mutations data_of outbox status False data g] assms(1,3,4) by blast
  note shape = view_shape [OF t1]
  have ok: "viewOk reg tyof R data1 t1" by (rule viewOk_overlay [OF _ g1(6)]) (use assms(2) shape in simp)
  have agree: "agreeOn (\<lambda>k. k \<notin> set (qg_dirty g1)) (viewSnap reg tyof old_status data old_t) (viewSnap reg tyof status data1 t1)"
    by (rule views_agree [OF _ g1(2,1,3)]) (use assms(8) shape in simp)
  have asc: "ascending (sn_keys (viewSnap reg tyof old_status data old_t))"
    unfolding viewSnap_def by simp (rule ovLive_ascending, rule liveKeys_ascending)
  have q: "distinct (qg_queries g1)" "\<forall>i \<in> set (qg_queries g1). fits (viewMayGet tyof status) (viewMayWalk tyof status R) (qi_fn (qg_all g1 i))"
      "\<forall>i \<in> set (qg_queries g1). settledQuery (viewSnap reg tyof old_status data old_t) (qg_all g1 i)"
    using assms(5-7) g1(4,5) by simp_all
  have view: "runGraph differs reg (memReads False reg) status False t1 data1 g1 = graphRun differs (queryView reg status False data1) t1 g1"
    by (simp add: runGraph_def queryView_def)
  obtain r2 g2 t2 where run: "graphRun differs (queryView reg status False data1) t1 g1 = Some (r2, g2, t2)"
      "qg_queries g2 = filter (\<lambda>i. \<not> qi_closed (qg_all g1 i)) (qg_queries g1)"
      "case r2 of Inl e \<Rightarrow> \<exists>i \<in> set (qg_queries g2). fst (refRun (viewSnap reg tyof status data1 t1) (qi_fn (qg_all g1 i)) []) = Inl e
       | Inr _ \<Rightarrow> \<forall>i \<in> set (qg_queries g2). qi_result (qg_all g2 i) \<noteq> None \<and>
           fst (refRun (viewSnap reg tyof status data1 t1) (qi_fn (qg_all g1 i)) []) = Inr (the (qi_result (qg_all g2 i))) \<and>
           settledQuery (viewSnap reg tyof status data1 t1) (qg_all g2 i)"
    using engineView.graphRun_settles [OF ok q asc agree, of differs] by blast
  have "rebuildOverlay differs reg (memReads False reg) mutations data_of predictor outbox status False t data g =
      Some (map_sum QueryFails id r2, t2, data1, g2)"
    unfolding r view run(1) by simp
  then show ?thesis using run(2,3) unfolding shape g1(4,5) by (cases r2) auto
qed


definition sampleGraph :: "(jsstr list list, unit, unit) query_graph" where
  "sampleGraph = snd (addQuery (Walk staleScan (\<lambda>i. takeAll 20 i [])) newGraph)"

lemma sample_graph: "qg_queries sampleGraph = [0]" "qi_fn (qg_all sampleGraph 0) = Walk staleScan (\<lambda>i. takeAll 20 i [])"
  "settledQuery sn (qg_all sampleGraph 0)"
  by (simp_all add: sampleGraph_def addQuery_def newGraph_def newImpl_def settledQuery_def)

lemma sample_outbox: "outboxFits sampleType [outboxCompiled]"
proof -
  have c: "compilePattern (sr_pattern outboxRows) = Inr outboxCompiled" "name_ok (sr_pattern outboxRows)"
    by (simp_all add: outboxRows_def engineKeys_def outboxCompiled_def compilePattern_def name_ok_def) code_simp
  have "sampleType k = lit ''.mutation''" if "matchesPattern outboxCompiled k" for k
    using that unfolding matchesPattern_holds [OF c] by (auto simp: holds_def outboxCompiled_def sampleType_def starts_with_prefix)
  moreover have "lit ''.mutation'' \<notin> set RAW_TYPES" by code_simp
  moreover have "askable outboxCompiled outboxRows"
    using c by (simp add: askable_def) (simp add: outboxRows_def engineKeys_def)
  ultimately show ?thesis unfolding outboxFits_def scanFits_def
    by (intro exI [of _ outboxCompiled]) (simp add: memReadable_def outboxRows_def)
qed

lemma sample_keys: "memKeys [outboxCompiled] staleTxn"
proof -
  have "\<forall>k \<in> set staleKeys. key_rule outboxCompiled k" by code_simp
  then show ?thesis using stale_mem by (simp add: memKeys_def stale_live)
qed

theorem rebuild_up_to_date_witness:
  "\<exists>r t' data' g'. rebuildOverlay (\<lambda>r old. old \<noteq> Some r) unitReg (memReads False unitReg) (lit ''Op'') (\<lambda>_. []) (Some (\<lambda>_. samplePrediction)) 1
      noStatus False staleTxn sampleData sampleGraph = Some (r, t', data', g') \<and>
    qg_queries g' = filter (\<lambda>i. \<not> qi_closed (qg_all sampleGraph i)) (qg_queries sampleGraph)"
proof -
  have "\<exists>r t' data' g'. rebuildOverlay (\<lambda>r old. old \<noteq> Some r) unitReg (memReads False unitReg) (lit ''Op'') (\<lambda>_. []) (Some (\<lambda>_. samplePrediction)) 1
      noStatus False staleTxn sampleData sampleGraph = Some (r, t', data', g') \<and>
    qg_queries g' = filter (\<lambda>i. \<not> qi_closed (qg_all sampleGraph i)) (qg_queries sampleGraph) \<and>
    (case r of
       Inl e \<Rightarrow> \<exists>i \<in> set (qg_queries g'). \<exists>e'. e = QueryFails e' \<and>
         fst (refRun (viewSnap unitReg sampleType noStatus data' staleTxn) (qi_fn (qg_all sampleGraph i)) []) = Inl e'
     | Inr _ \<Rightarrow> \<forall>i \<in> set (qg_queries g').
         fst (refRun (viewSnap unitReg sampleType noStatus data' staleTxn) (qi_fn (qg_all sampleGraph i)) []) = Inr (the (qi_result (qg_all g' i))) \<and>
         settledQuery (viewSnap unitReg sampleType noStatus data' staleTxn) (qg_all g' i))"
    by (rule rebuild_up_to_date [OF sample_keys sample_view(2) sample_outbox, where old_t = staleTxn and old_status = noStatus])
      (auto simp: samplePrediction_def sample_graph sample_fits agreeOn_def simp del: fits.simps takeAll.simps)
  then show ?thesis by blast
qed

text \<open>
  C21: until the first sync lands, a query that was not made to wait has read the status alone: no run of
  any query, to its end, reads a key or takes a walk of the store and goes on to an answer.
\<close>

theorem held_queries_read_status:
  "\<exists>out deps. runQuery (statusView txn status True) q [] b noDeps = Some (out, b, deps) \<and>
    (rd_held deps \<or> set (rd_keys deps) \<subseteq> fst ` set status \<and> rd_spans deps = [])"
  using held_run [of "[]" txn status q b noDeps] by (auto simp: noDeps_def)

end
