(* ===== verification/Spec2Isabelle.thy ===== *)
theory Spec2Isabelle
  imports KeyProperties StoreProperties EngineProperties WireProperties RegistryProperties OverlayProperties
begin

text \<open>
  PhaseLock's client engine (typespec/ts/assets/skeleton.ts), the code that every generated
  TypeScript client carries: a local store of an app's state, the scans its queries are made of,
  and the sync Engine that keeps the store up to date from the database's edit log and sends the
  app's mutations.

  The parts, in the order the code has them, and the theories that model them.

  Keys. A key is a JavaScript string, here a list of 16-bit code units; stores order keys by code
  point (\<open>compareKeys\<close>, \<open>sortKeys\<close>, \<open>prefixEnd\<close>, \<open>utf8Length\<close>). KeyOrder models these, Utf8 gives the
  reference: UTF-8 bytes of the code points, and the proofs that the order and the length are theirs.
  KeyPattern models patterns, \<open>compilePattern\<close> and the skip scan's \<open>placeKey\<close>; KeyPlace, KeySkip and
  KeyMatch prove what a placement means and that none passes a matching key. Names models the
  checks on names, the selectors, and the reserved keys the Engine writes (\<open>parkedEditKey\<close>,
  \<open>mutationKey\<close>, \<open>parsePark\<close>, \<open>parseKey\<close>).

  Cursors. KeyCursor models the interface \<open>KeyCursor\<close> as the locale \<open>key_cursor\<close> and \<open>walkPattern\<close> over
  it; Cursors gives the array, filter and merge cursors, each an interpretation. KeyList is the
  sorted list in blocks with its cursor; the locale \<open>ordered_keys\<close> states what its client, the
  commit, relies on.

  The store. Store models \<open>InMemStore\<close> and \<open>InMemTxn\<close>: layers, reads that decode in place, scans,
  edits, snapshot pages, the commit. StoreReads proves reads and scans, StoreScan the loop of
  \<open>scanAll\<close>, StoreWrites the writes and the commit. EngineStore gives the Engine's transaction
  interface on it.

  The Engine. EngineState is its memory and its records; the store's write transaction is a record
  of operations (\<open>wtxn\<close>), and what the Engine asks of the transport, the promises, the timers and the
  query graph is a list of effects in the order they are asked for. EngineSync models frames, views,
  landing and the outbox's release; EngineStatus the published status and its estimate; EngineWork
  the passes: submissions, answers, pushes and outcomes of backfills, connections, the first load.
  Advancer is the main loop: the calls and hooks that add work (\<open>occur\<close>), the pass a turn takes (\<open>passOf\<close>), and
  the turn around it (\<open>turnOf\<close>). The subscribers that the graph notifies and the transport's hooks run within a
  turn and may call the Engine: their calls are an input of the turn (\<open>during\<close>), put where the turn no longer
  looks at what they change. So a run need not return; it does when they call in finitely many of its turns
  (\<open>run_returns\<close>), and whatever they add, the timer of the next run is set (\<open>work_is_scheduled\<close>). EngineChains proves what a land plans and what a
  frame applies, EngineSafety and EnginePasses that each pass keeps the invariant, AdvancerSafety
  that every run does, from the load on, for every sequence of events.

  The wire. WireBytes models big-endian integers and UTF-8 as the vendored msgpack-javascript reads
  and writes them; Msgpack the cursor and writer of client/ts/src/msgpack.ts. WireText proves that the
  text routines are UTF-8, MsgpackWire that the writer appends each value's bytes, MsgpackRead that
  each read takes them back, as the locale \<open>codec\<close>, MsgpackRound the round trip of whole values,
  MsgpackSkip that \<open>measure\<close> agrees with the reads, MsgpackTyped what a decoded value is. WireFrames
  models mutation ids, envelopes, operations and frames (uuid.ts, edits.ts, frames.ts), WireRound proves
  their round trips; Checksum models checksum.ts and proves it the CRC and hash it names; ByteStream the
  buffered reading of a body (bytes.ts, a body being its list of chunks) and the frame loop, and proves
  that what they read does not depend on the chunks.

  The Registry. RegistryPlan models the compilation of a schema to plans (client/ts/src/registry.ts,
  with the data of contract.ts), RegistryRead the walk that reads msgpack against a plan, RegistryWrite
  the walk that writes and the conversions. RegistryWire proves that the look-ahead in bytes chooses a
  union's member as the same decision over the value does, RegistryRound that the walk reads a value's
  form back, RegistryTrip that what it writes is that form.

  Queries and predictions. Reads states what a walk in batches may rely on as the locales \<open>tiled\<close> and
  \<open>paged\<close> and interprets them on the in-memory transaction. Overlay models \<open>Overlay\<close> and \<open>OverlayTxn\<close> over
  any read transaction; OverlayScan proves that a scan of it is the walk of one merged map, as the locales
  \<open>overlaid\<close> and \<open>predicted\<close>, each again \<open>tiled\<close>, so that an overlay is a base for whatever reads a
  base; OverlayWrites proves what the overlay's deletions take and what a prediction leaves. QueryRuns
  models a query's run: the status view, the reads it records, the walks its scans are made of. A query
  is the tree of its reads with what it does on each answer. QueryGraph models \<open>QueryImpl\<close> and
  \<open>QueryGraph\<close>. QueryFresh is the reference, a run over a snapshot with neither batches nor spans; the locale
  \<open>snapshots\<close> of QueryWalks states when a view answers as one, QueryCovers proves that a run answers as
  the reference and that its record covers what the reference looked at, and QueryViews interprets the
  locale on what the Engine's queries read (\<open>#queryView\<close>) and proves that the graph's run leaves each query
  up to date. Predict models \<open>#predictIn\<close> and \<open>#rebuildOverlay\<close>, PredictViews proves that a rebuild
  marks the keys whose prediction changed. Predictions that delete nothing are the premise of the last
  two, since a deletion that hides the last key of a full batch leaves a gap in the record, which
  \<open>hidden_key_missed\<close> shows.

  The properties are in KeyProperties, StoreProperties, EngineProperties, WireProperties,
  RegistryProperties and OverlayProperties, each beside an instance.

  Conventions. A \<open>Map\<close> is an association list in insertion order, a \<open>Set\<close> a list without
  duplicates, a throw the left of a sum; positions are integers and sequence numbers naturals; shares
  and times are reals, exact where JavaScript rounds. The Engine's and the store's conversions, the clock, the
  random draws and the identifiers are parameters. Memory after a throw is not modelled: the Engine
  ends. Loops that may not end are partial functions, whose ending is proved: the main loop's under
  the premise just named, the others' under the conditions their properties name. Integers
  of 64 bits are read as JavaScript's doubles (\<open>nearInt\<close>), so round trips are stated for safe integers.

  A property's text names the conditions it needs. Those that recur: a key keeps to a template when its
  parameters hold only units above the separators that follow them (\<open>key_rule\<close>); a walk in reverse is allowed
  when its upper bounds do too (\<open>bounds_ok\<close>); a text keeps in UTF-8 when it is well formed and, of more than 200
  bytes, does not begin with U+FEFF (\<open>keepsText\<close>). What happens without them the properties
  \<open>placeKey_back_skips\<close> and \<open>long_text_loses_its_mark\<close> show.

  Not modelled: names that a plain object inherits, outside of a struct's fields and a union's keys in the
  Registry (a slice named as such a name, looked up in a backfill's header; the members of arrays' and
  dates' own prototypes); the code of third parties and the store's own adapters; dev mode's read-only proxies
  and walks carried out of the query that started them (\<open>closedTxns\<close>); the graph inside an Engine's
  run, where it is an effect, while Predict models it by itself; source maps and stacks, one-off remote
  queries and the session (network calls), the deciders the database runs, and the host's plugins; the HTTP transport
  (client/ts/src/http.ts), the emitters and the compiler (typespec, over a third-party compiler's types), the
  database (db, in Rust), and the examples.
\<close>

end
